(* ===== verification/Prelude.thy ===== *)
theory Prelude
  imports Main "HOL-Library.Word" "HOL-Library.List_Lexorder" "HOL-Library.Char_ord"
begin

text \<open>
  The prelude of the development: the fixed-width integer types the sources use, the collections of
  rules that the component theories feed (\<open>wf_intros\<close> for facts of the form "this operation keeps
  that invariant", \<open>std_simps\<close> for rewrite rules of the modelled parts of the C++ standard library),
  generic lemmas on lists and options, C strings, and a locale of transition systems whose invariants
  are lifted to whole runs once for every state machine of the library.
\<close>

named_theorems wf_intros "operations that keep an invariant"
named_theorems std_simps "rewrite rules for the modelled C++ standard library"

type_synonym uint8 = "8 word"
type_synonym uint16 = "16 word"
type_synonym uint32 = "32 word"
type_synonym uint64 = "64 word"

unbundle bit_operations_syntax

subsection \<open>C strings\<close>

text \<open>
  A \<open>std::string\<close> is a list of bytes (\<open>char\<close>). A C string ends at its first NUL byte:
  \<open>c_str s\<close> is what a callee sees of the buffer \<open>s\<close> followed by its terminator.
\<close>

definition c_str :: "string \<Rightarrow> string" where
  "c_str s = takeWhile (\<lambda>c. c \<noteq> CHR 0x00) s"

lemma c_str_no_nul: "CHR 0x00 \<notin> set s \<Longrightarrow> c_str s = s"
  by (auto simp: c_str_def takeWhile_eq_all_conv)

lemma nul_notin_c_str [simp]: "CHR 0x00 \<notin> set (c_str s)"
  by (auto simp: c_str_def dest: set_takeWhileD)

lemma c_str_idem [simp]: "c_str (c_str s) = c_str s"
  by (simp add: c_str_no_nul)

lemma length_c_str_le: "length (c_str s) \<le> length s"
  by (simp add: c_str_def length_takeWhile_le)

text \<open>
  \<open>atoi\<close>: white space, an optional sign, digits up to the first other character. The result is the
  mathematical integer; a value outside \<open>int\<close> is undefined behaviour in C and has no model.
\<close>

definition is_digit :: "char \<Rightarrow> bool" where
  "is_digit c \<longleftrightarrow> CHR ''0'' \<le> c \<and> c \<le> CHR ''9''"

definition is_space :: "char \<Rightarrow> bool" where
  "is_space c \<longleftrightarrow> c = CHR '' '' \<or> (CHR 0x09 \<le> c \<and> c \<le> CHR 0x0D)"

fun digits_value :: "int \<Rightarrow> string \<Rightarrow> int" where
  "digits_value acc [] = acc"
| "digits_value acc (c # s) =
     (if is_digit c then digits_value (10 * acc + (int (of_char c) - 48)) s else acc)"

definition atoi :: "string \<Rightarrow> int" where
  "atoi s = (case dropWhile is_space (c_str s) of
      [] \<Rightarrow> 0
    | c # t \<Rightarrow> if c = CHR ''-'' then - digits_value 0 t
               else if c = CHR ''+'' then digits_value 0 t else digits_value 0 (c # t))"

subsection \<open>Lists\<close>

lemma filter_id_conv': "(\<And>x. x \<in> set xs \<Longrightarrow> P x) \<Longrightarrow> filter P xs = xs"
  by (simp add: filter_id_conv)

lemma remove1_filter_distinct: "distinct xs \<Longrightarrow> remove1 x xs = filter (\<lambda>y. y \<noteq> x) xs"
  by (simp add: distinct_remove1_removeAll removeAll_filter_not_eq) metis

lemma length_filter_neq_distinct:
  "distinct xs \<Longrightarrow> x \<in> set xs \<Longrightarrow> length (filter (\<lambda>y. y \<noteq> x) xs) = length xs - 1"
  by (simp add: length_remove1 flip: remove1_filter_distinct)

text \<open>From a computed check to the value it was computed on.\<close>

lemma case_SomeE:
  assumes "case x of None \<Rightarrow> False | Some y \<Rightarrow> P y"
  obtains y where "x = Some y" and "P y"
  using assms by (cases x) auto

subsection \<open>Transition systems\<close>

text \<open>
  Most components are machines: a state, an operation type, and a partial function that performs one
  operation (\<open>None\<close> where the operation cannot be performed in that state). The contract every such
  component discharges is that the initial state satisfies the invariant and every performed operation
  keeps it; runs of any length then keep it.
\<close>

fun run_ops :: "('s \<Rightarrow> 'o \<Rightarrow> 's option) \<Rightarrow> 's \<Rightarrow> 'o list \<Rightarrow> 's option" where
  "run_ops step s [] = Some s"
| "run_ops step s (x # xs) = (case step s x of None \<Rightarrow> None | Some s' \<Rightarrow> run_ops step s' xs)"

locale transition_system =
  fixes init :: "'s"
    and step :: "'s \<Rightarrow> 'o \<Rightarrow> 's option"
    and inv :: "'s \<Rightarrow> bool"
  assumes inv_init: "inv init"
    and inv_step: "inv s \<Longrightarrow> step s x = Some s' \<Longrightarrow> inv s'"
begin

lemma run_inv: "inv s \<Longrightarrow> run_ops step s xs = Some s' \<Longrightarrow> inv s'"
  by (induction xs arbitrary: s) (auto split: option.splits dest: inv_step)

lemma reachable_inv: "run_ops step init xs = Some s \<Longrightarrow> inv s"
  by (rule run_inv [OF inv_init])

end

lemma run_ops_append:
  "run_ops step s (xs @ ys) = (case run_ops step s xs of None \<Rightarrow> None | Some s' \<Rightarrow> run_ops step s' ys)"
  by (induction xs arbitrary: s) (auto split: option.splits)

end
