(* ===== verification/Std_Map.thy ===== *)
theory Std_Map
  imports Prelude
begin

text \<open>
  The sources keep most of their state in \<open>std::map\<close>. The modelled fragment is a list of key/value
  pairs in ascending key order, so that \<open>begin()\<close> and iteration follow the key order as they do in
  C++. The interface is a locale (\<open>dictionary\<close>, extended by \<open>ordered_dictionary\<close> with \<open>begin()\<close>)
  whose laws are discharged for the list implementation; clients rest on the laws.
\<close>

subsection \<open>The implementation\<close>

text \<open>\<open>m[k] = v\<close>, and the macro \<open>STL_MAPSET\<close> of RuleEngine.h.\<close>

fun smap_set :: "'k::linorder \<Rightarrow> 'v \<Rightarrow> ('k \<times> 'v) list \<Rightarrow> ('k \<times> 'v) list" where
  "smap_set k v [] = [(k, v)]"
| "smap_set k v ((k', v') # m) =
     (if k = k' then (k, v) # m
      else if k < k' then (k, v) # (k', v') # m
      else (k', v') # smap_set k v m)"

text \<open>\<open>m.erase(k)\<close>; \<open>m.insert(value_type(k, v))\<close>, which keeps an existing entry.\<close>

definition smap_erase :: "'k \<Rightarrow> ('k \<times> 'v) list \<Rightarrow> ('k \<times> 'v) list" where
  "smap_erase k m = filter (\<lambda>p. fst p \<noteq> k) m"

definition smap_insert :: "'k::linorder \<Rightarrow> 'v \<Rightarrow> ('k \<times> 'v) list \<Rightarrow> ('k \<times> 'v) list" where
  "smap_insert k v m = (case map_of m k of None \<Rightarrow> smap_set k v m | Some _ \<Rightarrow> m)"

text \<open>\<open>m.begin()\<close>, or \<open>m.end()\<close> when the map is empty.\<close>

definition smap_begin :: "('k \<times> 'v) list \<Rightarrow> ('k \<times> 'v) option" where
  "smap_begin m = (case m of [] \<Rightarrow> None | p # _ \<Rightarrow> Some p)"

definition smap_wf :: "('k::linorder \<times> 'v) list \<Rightarrow> bool" where
  "smap_wf m \<longleftrightarrow> sorted_wrt (<) (map fst m)"

subsection \<open>The interface\<close>

locale dictionary =
  fixes empty :: "'m"
    and lookup :: "'m \<Rightarrow> 'k \<Rightarrow> 'v option"
    and update :: "'k \<Rightarrow> 'v \<Rightarrow> 'm \<Rightarrow> 'm"
    and delete :: "'k \<Rightarrow> 'm \<Rightarrow> 'm"
    and wf :: "'m \<Rightarrow> bool"
  assumes lookup_empty: "lookup empty k = None"
    and lookup_update: "lookup (update k v m) = (lookup m)(k \<mapsto> v)"
    and lookup_delete: "lookup (delete k m) = (lookup m)(k := None)"
    and wf_empty: "wf empty"
    and wf_update: "wf m \<Longrightarrow> wf (update k v m)"
    and wf_delete: "wf m \<Longrightarrow> wf (delete k m)"
begin

lemma lookup_update_delete: "lookup (update k v (delete k' m)) = ((lookup m)(k' := None))(k \<mapsto> v)"
  by (simp add: lookup_update lookup_delete)

lemma dom_update: "dom (lookup (update k v m)) = insert k (dom (lookup m))"
  by (simp add: lookup_update)

lemma dom_delete: "dom (lookup (delete k m)) = dom (lookup m) - {k}"
  by (auto simp: lookup_delete)

end

locale ordered_dictionary = dictionary empty lookup update delete wf
  for empty :: "'m" and lookup :: "'m \<Rightarrow> 'k::linorder \<Rightarrow> 'v option"
    and update :: "'k \<Rightarrow> 'v \<Rightarrow> 'm \<Rightarrow> 'm" and delete :: "'k \<Rightarrow> 'm \<Rightarrow> 'm" and wf :: "'m \<Rightarrow> bool" +
  fixes first :: "'m \<Rightarrow> ('k \<times> 'v) option"
  assumes first_None: "first m = None \<longleftrightarrow> lookup m = Map.empty"
    and first_Some: "wf m \<Longrightarrow> first m = Some (k, v) \<Longrightarrow> lookup m k = Some v"
    and first_least: "wf m \<Longrightarrow> first m = Some (k, v) \<Longrightarrow> lookup m k' = Some v' \<Longrightarrow> k \<le> k'"
begin

lemma first_exists: "lookup m k = Some v \<Longrightarrow> \<exists>p. first m = Some p"
  using first_None [of m] by (cases "first m") auto

text \<open>Deleting the first entry leaves only strictly larger keys.\<close>

lemma first_delete_less:
  assumes "wf m" and "first m = Some (k, v)" and "lookup (delete k m) k' = Some v'"
  shows "k < k'"
proof -
  from assms(3) have "k' \<noteq> k" and "lookup m k' = Some v'"
    by (auto simp: lookup_delete split: if_splits)
  with first_least [OF assms(1,2)] show ?thesis by (simp add: order_less_le)
qed

end

subsection \<open>The laws hold for sorted association lists\<close>

lemma map_of_smap_set [std_simps]: "map_of (smap_set k v m) = (map_of m)(k \<mapsto> v)"
  by (induction k v m rule: smap_set.induct) (auto simp: fun_eq_iff)

lemma map_of_smap_erase [std_simps]: "map_of (smap_erase k m) = (map_of m)(k := None)"
  by (induction m) (auto simp: smap_erase_def fun_eq_iff)

lemma map_of_smap_insert [std_simps]:
  "map_of (smap_insert k v m) = (if k \<in> dom (map_of m) then map_of m else (map_of m)(k \<mapsto> v))"
  by (auto simp: smap_insert_def map_of_smap_set split: option.splits)

lemma set_keys_smap_set: "fst ` set (smap_set k v m) = insert k (fst ` set m)"
  by (induction k v m rule: smap_set.induct) auto

lemma smap_wf_Nil [simp]: "smap_wf []"
  by (simp add: smap_wf_def)

lemma smap_wf_Cons: "smap_wf ((k, v) # m) \<longleftrightarrow> (\<forall>p \<in> set m. k < fst p) \<and> smap_wf m"
  by (auto simp: smap_wf_def)

lemma smap_set_keys_above:
  "\<forall>p \<in> set m. l < fst p \<Longrightarrow> l < k \<Longrightarrow> \<forall>p \<in> set (smap_set k v m). l < fst p"
  by (induction k v m rule: smap_set.induct) auto

lemma smap_wf_set [wf_intros]: "smap_wf m \<Longrightarrow> smap_wf (smap_set k v m)"
proof (induction k v m rule: smap_set.induct)
  case (1 k v)
  then show ?case by (simp add: smap_wf_def)
next
  case (2 k v k' v' m)
  then show ?case
    using smap_set_keys_above [of m k' k v] by (auto simp: smap_wf_Cons not_less order_le_less)
qed

lemma smap_wf_erase [wf_intros]: "smap_wf m \<Longrightarrow> smap_wf (smap_erase k m)"
  unfolding smap_wf_def smap_erase_def
  by (induction m) auto

lemma smap_wf_insert [wf_intros]: "smap_wf m \<Longrightarrow> smap_wf (smap_insert k v m)"
  by (auto simp: smap_insert_def split: option.splits intro: smap_wf_set)

lemma smap_wf_distinct: "smap_wf m \<Longrightarrow> distinct (map fst m)"
  by (simp add: smap_wf_def strict_sorted_iff)

lemma smap_wf_single [simp]: "smap_wf [p]"
  by (simp add: smap_wf_def)

lemma map_of_iff_set: "smap_wf m \<Longrightarrow> map_of m k = Some v \<longleftrightarrow> (k, v) \<in> set m"
  by (simp add: smap_wf_distinct)

interpretation smap: ordered_dictionary "[]" map_of smap_set smap_erase smap_wf smap_begin
proof unfold_locales
  show "map_of [] k = None" for k :: 'a by simp
  show "smap_begin m = None \<longleftrightarrow> map_of m = Map.empty" for m :: "('a \<times> 'b) list"
    by (cases m) (auto simp: smap_begin_def fun_eq_iff split: if_splits)
  show "smap_wf m \<Longrightarrow> smap_begin m = Some (k, v) \<Longrightarrow> map_of m k = Some v"
    for m :: "('a \<times> 'b) list" and k v
    by (cases m) (auto simp: smap_begin_def)
  show "smap_wf m \<Longrightarrow> smap_begin m = Some (k, v) \<Longrightarrow> map_of m k' = Some v' \<Longrightarrow> k \<le> k'"
    for m :: "('a \<times> 'b) list" and k v k' v'
    by (cases m) (auto simp: smap_begin_def smap_wf_Cons dest!: map_of_SomeD split: if_splits)
qed (simp_all add: std_simps wf_intros)

lemma smap_set_greatest:
  "\<forall>p \<in> set m. fst p < k \<Longrightarrow> smap_set k v m = m @ [(k, v)]"
  by (induction k v m rule: smap_set.induct) auto

lemma length_smap_set:
  "smap_wf m \<Longrightarrow> length (smap_set k v m) = (if k \<in> dom (map_of m) then length m else Suc (length m))"
  by (induction k v m rule: smap_set.induct)
     (force simp: smap_wf_Cons dest: map_of_SomeD)+

lemma length_smap_dom: "smap_wf m \<Longrightarrow> length m = card (dom (map_of m))"
  using smap_wf_distinct [of m]
  by (metis distinct_card dom_map_of_conv_image_fst length_map set_map)


subsection \<open>A predicate on every entry\<close>

definition entries_ok :: "('k \<Rightarrow> 'v \<Rightarrow> bool) \<Rightarrow> ('k::linorder \<times> 'v) list \<Rightarrow> bool" where
  "entries_ok P m \<longleftrightarrow> smap_wf m \<and> (\<forall>p \<in> set m. P (fst p) (snd p))"

lemma set_smap_set: "set (smap_set k v m) \<subseteq> insert (k, v) (set m)"
  by (induction k v m rule: smap_set.induct) auto

lemma entries_ok_Nil [simp]: "entries_ok P []"
  by (simp add: entries_ok_def)

lemma entries_ok_set [wf_intros]: "entries_ok P m \<Longrightarrow> P k v \<Longrightarrow> entries_ok P (smap_set k v m)"
  using set_smap_set [of k v m] by (fastforce simp: entries_ok_def intro: smap_wf_set)

lemma entries_ok_erase [wf_intros]: "entries_ok P m \<Longrightarrow> entries_ok P (smap_erase k m)"
  by (simp add: entries_ok_def smap_wf_erase) (simp add: smap_erase_def)

lemma entries_ok_lookup: "entries_ok P m \<Longrightarrow> map_of m k = Some v \<Longrightarrow> P k v"
  unfolding entries_ok_def by (fastforce dest: map_of_SomeD)

end
