(* ===== verification/LRU_Map.thy ===== *)
theory LRU_Map
  imports Std_Map
begin

text \<open>
  LRUMap.h: a bounded map that evicts the least recently used key. Three \<open>std::map\<close>s (key to stamp,
  stamp to key, key to value), a 64-bit stamp counter that wraps, and a capacity. \<open>operator[]\<close> returns
  a reference to the stored value; the model returns that value, or \<open>None\<close> where the entry the
  reference points to was erased before the return (the reference dangles).
\<close>

subsection \<open>State and operations\<close>

record ('k, 'v) lru =
  k2t :: "('k \<times> uint64) list"
  t2k :: "(uint64 \<times> 'k) list"
  realData :: "('k \<times> 'v) list"
  stampLast :: uint64
  capacity :: nat

definition lru_new :: "nat \<Rightarrow> ('k, 'v) lru" where
  "lru_new cap = \<lparr>k2t = [], t2k = [], realData = [], stampLast = 1, capacity = cap\<rparr>"

definition lru_find :: "'k \<Rightarrow> ('k, 'v) lru \<Rightarrow> 'v option" where
  "lru_find k s = map_of (realData s) k"

definition lru_size :: "('k, 'v) lru \<Rightarrow> nat" where
  "lru_size s = length (realData s)"

text \<open>\<open>_k2t[k]\<close> in a read inserts the default stamp 0 when the key is absent.\<close>

definition stamp_of :: "'k::linorder \<Rightarrow> ('k, 'v) lru \<Rightarrow> ('k, 'v) lru \<times> uint64" where
  "stamp_of k s = (case map_of (k2t s) k of
      None \<Rightarrow> (s\<lparr>k2t := smap_set k 0 (k2t s)\<rparr>, 0)
    | Some t \<Rightarrow> (s, t))"

definition lru_erase :: "'k::linorder \<Rightarrow> ('k, 'v) lru \<Rightarrow> ('k, 'v) lru" where
  "lru_erase k s =
     (let (s1, t) = stamp_of k s
      in s1\<lparr>t2k := smap_erase t (t2k s1), k2t := smap_erase k (k2t s1),
            realData := smap_erase k (realData s1)\<rparr>)"

definition lru_erase_eldest :: "('k::linorder, 'v) lru \<Rightarrow> ('k, 'v) lru" where
  "lru_erase_eldest s =
     (if realData s = [] then s
      else case smap_begin (t2k s) of None \<Rightarrow> s | Some (_, kToBeErased) \<Rightarrow> lru_erase kToBeErased s)"

definition lru_resize :: "nat \<Rightarrow> ('k, 'v) lru \<Rightarrow> ('k, 'v) lru" where
  "lru_resize n s = s\<lparr>capacity := n\<rparr>"

text \<open>The new stamp: the counter is post-incremented, and when the stamp read is 0 (the counter
  rounded over) everything is cleared and a new stamp is drawn.\<close>

definition new_stamp :: "('k, 'v) lru \<Rightarrow> ('k, 'v) lru \<times> uint64" where
  "new_stamp s =
     (if stampLast s = 0
      then (s\<lparr>k2t := [], t2k := [], realData := [], stampLast := 2\<rparr>, 1)
      else (s\<lparr>stampLast := stampLast s + 1\<rparr>, stampLast s))"

text \<open>Drop the old stamp of \<open>k\<close>, draw a new one, record it, default-construct the value if absent.\<close>

definition lru_touch :: "'v \<Rightarrow> 'k::linorder \<Rightarrow> ('k, 'v) lru \<Rightarrow> ('k, 'v) lru" where
  "lru_touch dflt k s =
     (let (s1, t0) = stamp_of k s;
          s2 = (if t0 \<noteq> 0 then s1\<lparr>t2k := smap_erase t0 (t2k s1), k2t := smap_erase k (k2t s1)\<rparr> else s1);
          (s3, t) = new_stamp s2
      in s3\<lparr>k2t := smap_set k t (k2t s3), t2k := smap_set t k (t2k s3),
            realData := smap_insert k dflt (realData s3)\<rparr>)"

text \<open>\<open>operator[]\<close>, and \<open>m[k] = v\<close>, a write through the reference it returns.\<close>

definition lru_at :: "'v \<Rightarrow> 'k::linorder \<Rightarrow> ('k, 'v) lru \<Rightarrow> ('k, 'v) lru \<times> 'v option" where
  "lru_at dflt k s =
     (let s1 = lru_touch dflt k s;
          s2 = (if lru_size s1 + 1 > capacity s1 \<and> lru_size s1 \<ge> 1
                then (case smap_begin (t2k s1) of None \<Rightarrow> s1 | Some (_, kToBeErased) \<Rightarrow> lru_erase kToBeErased s1)
                else s1)
      in (s2, map_of (realData s2) k))"

definition lru_put :: "'v \<Rightarrow> 'k::linorder \<Rightarrow> 'v \<Rightarrow> ('k, 'v) lru \<Rightarrow> ('k, 'v) lru option" where
  "lru_put dflt k v s = (case lru_at dflt k s of
      (s', None) \<Rightarrow> None
    | (s', Some _) \<Rightarrow> Some (s'\<lparr>realData := smap_set k v (realData s')\<rparr>))"

datatype ('k, 'v) lru_op = Index 'k | Assign 'k 'v | Erase 'k | Erase_Eldest | Resize nat

fun lru_step :: "'v \<Rightarrow> ('k::linorder, 'v) lru \<Rightarrow> ('k, 'v) lru_op \<Rightarrow> ('k, 'v) lru option" where
  "lru_step dflt s (Index k) = Some (fst (lru_at dflt k s))"
| "lru_step dflt s (Assign k v) = lru_put dflt k v s"
| "lru_step dflt s (Erase k) = Some (lru_erase k s)"
| "lru_step dflt s Erase_Eldest = Some (lru_erase_eldest s)"
| "lru_step dflt s (Resize n) = Some (lru_resize n s)"

subsection \<open>Invariant\<close>

text \<open>
  The two stamp maps are inverse to each other and index exactly the stored keys; every stamp in use
  is non-zero and was drawn before the counter's present value (a counter of 0 has just rounded over,
  so it bounds every stamp).
\<close>

definition stamp_fresh :: "uint64 \<Rightarrow> uint64 \<Rightarrow> bool" where
  "stamp_fresh lst t \<longleftrightarrow> t \<noteq> 0 \<and> (lst = 0 \<or> t < lst)"

definition stamps_ok :: "('k \<rightharpoonup> uint64) \<Rightarrow> (uint64 \<rightharpoonup> 'k) \<Rightarrow> 'k set \<Rightarrow> uint64 \<Rightarrow> bool" where
  "stamps_ok K T D lst \<longleftrightarrow>
     dom K = D \<and> (\<forall>k t. K k = Some t \<longleftrightarrow> T t = Some k) \<and> (\<forall>t \<in> dom T. stamp_fresh lst t)"

definition lru_inv :: "('k::linorder, 'v) lru \<Rightarrow> bool" where
  "lru_inv s \<longleftrightarrow>
     smap_wf (k2t s) \<and> smap_wf (t2k s) \<and> smap_wf (realData s) \<and>
     stamps_ok (map_of (k2t s)) (map_of (t2k s)) (dom (map_of (realData s))) (stampLast s)"

lemma stamp_fresh_next: "stamp_fresh lst t \<Longrightarrow> lst \<noteq> 0 \<Longrightarrow> stamp_fresh (lst + 1) t"
  unfolding stamp_fresh_def by unat_arith

lemma stamp_fresh_drawn: "lst \<noteq> 0 \<Longrightarrow> stamp_fresh (lst + 1) lst"
  unfolding stamp_fresh_def by unat_arith

lemma stamps_ok_remove:
  assumes "stamps_ok K T D lst" and "K k = Some t"
  shows "stamps_ok (K(k := None)) (T(t := None)) (D - {k}) lst"
proof -
  have "T t' = Some k \<longleftrightarrow> t' = t" for t'
    using assms by (metis option.inject stamps_ok_def)
  moreover from this have T: "T t = Some k" by simp
  ultimately show ?thesis
    using assms unfolding stamps_ok_def by (auto simp: T)
qed

lemma stamps_ok_add:
  assumes "stamps_ok K T D lst" and "k \<notin> D" and "lst \<noteq> 0"
  shows "stamps_ok (K(k \<mapsto> lst)) (T(lst \<mapsto> k)) (insert k D) (lst + 1)"
proof -
  have "T lst = None"
    using assms(1,3) by (auto simp: stamps_ok_def stamp_fresh_def)
  with assms show ?thesis
    by (auto simp: stamps_ok_def stamp_fresh_drawn intro: stamp_fresh_next)
qed

lemma stamps_ok_zero: "stamps_ok K T D lst \<Longrightarrow> T 0 = None"
  by (auto simp: stamps_ok_def stamp_fresh_def)

lemma lru_inv_new: "lru_inv (lru_new cap)"
  by (simp add: lru_inv_def lru_new_def stamps_ok_def)

lemma lru_erase_maps:
  assumes "lru_inv s"
  shows "map_of (k2t (lru_erase k s)) = (map_of (k2t s))(k := None)"
    and "realData (lru_erase k s) = smap_erase k (realData s)"
    and "stampLast (lru_erase k s) = stampLast s"
    and "capacity (lru_erase k s) = capacity s"
    and "t2k (lru_erase k s) =
           (case map_of (k2t s) k of None \<Rightarrow> smap_erase 0 (t2k s) | Some t \<Rightarrow> smap_erase t (t2k s))"
  by (auto simp: lru_erase_def stamp_of_def std_simps Let_def split: option.splits)

lemma lru_inv_erase [wf_intros]:
  assumes inv: "lru_inv s"
  shows "lru_inv (lru_erase k s)"
proof -
  have ok: "stamps_ok (map_of (k2t s)) (map_of (t2k s)) (dom (map_of (realData s))) (stampLast s)"
    using inv by (simp add: lru_inv_def)
  have wf: "smap_wf (k2t (lru_erase k s))"
    using inv by (auto simp: lru_inv_def lru_erase_def stamp_of_def Let_def intro!: wf_intros
        split: option.splits)
  have D: "dom (map_of (smap_erase k (realData s))) = dom (map_of (realData s)) - {k}"
    by (rule smap.dom_delete)
  show ?thesis
  proof (cases "map_of (k2t s) k")
    case None
    then have "k \<notin> dom (map_of (realData s))"
      using ok by (auto simp: stamps_ok_def)
    then have D': "dom (map_of (realData s)) - {k} = dom (map_of (realData s))"
      by blast
    have K: "(map_of (k2t s))(k := None) = map_of (k2t s)"
      using None by (simp add: fun_upd_idem)
    have T: "map_of (smap_erase 0 (t2k s)) = map_of (t2k s)"
      using stamps_ok_zero [OF ok] by (simp add: fun_upd_idem std_simps)
    have "stamps_ok (map_of (k2t (lru_erase k s))) (map_of (t2k (lru_erase k s)))
        (dom (map_of (realData (lru_erase k s)))) (stampLast (lru_erase k s))"
      using ok by (simp only: lru_erase_maps [OF inv] D D' K T None option.case)
    then show ?thesis
      using inv wf None by (auto simp: lru_inv_def lru_erase_maps [OF inv] intro: wf_intros)
  next
    case (Some t)
    show ?thesis
      unfolding lru_inv_def lru_erase_maps [OF inv] Some option.case D map_of_smap_erase [of t]
      using inv wf stamps_ok_remove [OF ok Some]
      by (auto simp: lru_inv_def intro: wf_intros)
  qed
qed


text \<open>What \<open>operator[]\<close> does before the eviction, as an update of the maps.\<close>

lemma lru_touch_fields:
  assumes "stampLast s \<noteq> 0"
  shows "realData (lru_touch d k s) = smap_insert k d (realData s)"
    and "stampLast (lru_touch d k s) = stampLast s + 1"
    and "capacity (lru_touch d k s) = capacity s"
    and "map_of (k2t (lru_touch d k s)) = (map_of (k2t s))(k \<mapsto> stampLast s)"
  using assms
  by (auto simp: lru_touch_def stamp_of_def new_stamp_def std_simps Let_def split: option.splits)

lemma lru_touch_t2k:
  assumes "lru_inv s" and "stampLast s \<noteq> 0"
  shows "t2k (lru_touch d k s) = smap_set (stampLast s) k
           (case map_of (k2t s) k of None \<Rightarrow> t2k s | Some t \<Rightarrow> smap_erase t (t2k s))"
proof -
  have "t \<noteq> 0" if "map_of (k2t s) k = Some t" for t
    using assms(1) that by (force simp: lru_inv_def stamps_ok_def stamp_fresh_def)
  with assms(2) show ?thesis
    by (auto simp: lru_touch_def stamp_of_def new_stamp_def std_simps Let_def split: option.splits)
qed

lemma lru_touch_wrapped:
  assumes "stampLast s = 0"
  shows "lru_touch d k s =
     \<lparr>k2t = [(k, 1)], t2k = [(1, k)], realData = [(k, d)], stampLast = 2, capacity = capacity s\<rparr>"
  using assms
  by (auto simp: lru_touch_def stamp_of_def new_stamp_def smap_insert_def Let_def split: option.splits)

lemma lru_inv_touch [wf_intros]:
  assumes inv: "lru_inv s"
  shows "lru_inv (lru_touch d k s)"
proof (cases "stampLast s = 0")
  case True
  then show ?thesis
    by (auto simp: lru_touch_wrapped lru_inv_def stamps_ok_def stamp_fresh_def smap_wf_Cons)
next
  case False
  have ok: "stamps_ok (map_of (k2t s)) (map_of (t2k s)) (dom (map_of (realData s))) (stampLast s)"
    using inv by (simp add: lru_inv_def)
  have D: "dom (map_of (realData (lru_touch d k s))) = insert k (dom (map_of (realData s)))"
    using False by (auto simp: lru_touch_fields std_simps)
  have wf: "smap_wf (k2t (lru_touch d k s))"
    using inv by (auto simp: lru_inv_def lru_touch_def stamp_of_def new_stamp_def Let_def
        intro!: wf_intros split: option.splits)
  have "stamps_ok (map_of (k2t (lru_touch d k s))) (map_of (t2k (lru_touch d k s)))
          (insert k (dom (map_of (realData s)))) (stampLast s + 1)"
  proof (cases "map_of (k2t s) k")
    case None
    then have "k \<notin> dom (map_of (realData s))"
      using ok by (auto simp: stamps_ok_def)
    from stamps_ok_add [OF ok this False] show ?thesis
      using inv False None by (simp add: lru_touch_fields lru_touch_t2k std_simps)
  next
    case (Some t)
    from stamps_ok_add [OF stamps_ok_remove [OF ok Some] _ False, of k] show ?thesis
      using inv False Some by (simp add: lru_touch_fields lru_touch_t2k std_simps insert_absorb)
  qed
  then show ?thesis
    using inv wf False D
    by (auto simp: lru_inv_def lru_touch_fields lru_touch_t2k intro!: wf_intros split: option.splits)
qed

lemma lru_inv_erase_eldest [wf_intros]: "lru_inv s \<Longrightarrow> lru_inv (lru_erase_eldest s)"
  by (auto simp: lru_erase_eldest_def intro: wf_intros split: option.splits)

lemma lru_inv_resize [wf_intros]: "lru_inv s \<Longrightarrow> lru_inv (lru_resize n s)"
  by (simp add: lru_inv_def lru_resize_def)

lemma lru_inv_at [wf_intros]: "lru_inv s \<Longrightarrow> lru_inv (fst (lru_at d k s))"
  by (auto simp: lru_at_def Let_def intro: wf_intros split: option.splits)

lemma lru_inv_put:
  assumes "lru_inv s" and "lru_put d k v s = Some s'"
  shows "lru_inv s'"
proof -
  obtain s1 w where at: "lru_at d k s = (s1, Some w)" and s': "s' = s1\<lparr>realData := smap_set k v (realData s1)\<rparr>"
    using assms(2) by (auto simp: lru_put_def split: prod.splits option.splits)
  have inv1: "lru_inv s1"
    using lru_inv_at [OF assms(1), of d k] at by simp
  have "map_of (realData s1) k = Some w"
    using at by (auto simp: lru_at_def Let_def)
  then have "dom (map_of (smap_set k v (realData s1))) = dom (map_of (realData s1))"
    by (auto simp: smap.dom_update)
  then show ?thesis
    using inv1 unfolding s' lru_inv_def by (auto intro: wf_intros)
qed

interpretation lru_machine: transition_system "lru_new cap" "lru_step d" lru_inv
  for cap :: nat and d :: 'v
proof unfold_locales
  show "lru_inv (lru_new cap)" by (rule lru_inv_new)
  show "lru_inv s \<Longrightarrow> lru_step d s x = Some s' \<Longrightarrow> lru_inv s'"
    for s s' :: "('k::linorder, 'v) lru" and x
    by (cases x) (auto intro: wf_intros lru_inv_put)
qed

subsection \<open>Refinement: recency order\<close>

text \<open>
  The abstract LRU is the list of keys from the eldest to the most recent. An access moves its key to
  the end and, when the list plus one exceeds the capacity, drops the eldest.
\<close>

definition lru_order :: "('k, 'v) lru \<Rightarrow> 'k list" where
  "lru_order s = map snd (t2k s)"

definition access_spec :: "nat \<Rightarrow> 'k \<Rightarrow> 'k list \<Rightarrow> 'k list" where
  "access_spec cap k l =
     (let l' = filter (\<lambda>k'. k' \<noteq> k) l @ [k] in if length l' + 1 > cap then tl l' else l')"

lemma t2k_filter_stamp:
  assumes "lru_inv s" and "map_of (k2t s) k = Some t"
  shows "smap_erase t (t2k s) = filter (\<lambda>p. snd p \<noteq> k) (t2k s)"
proof -
  have "fst p \<noteq> t \<longleftrightarrow> snd p \<noteq> k" if "p \<in> set (t2k s)" for p
  proof -
    have "map_of (t2k s) (fst p) = Some (snd p)"
      using that assms(1) by (simp add: lru_inv_def map_of_iff_set)
    then show ?thesis
      using assms unfolding lru_inv_def stamps_ok_def by (metis option.inject)
  qed
  then show ?thesis
    unfolding smap_erase_def by (intro filter_cong) simp_all
qed

lemma t2k_filter_absent:
  assumes "lru_inv s" and "map_of (k2t s) k = None"
  shows "filter (\<lambda>p. snd p \<noteq> k) (t2k s) = t2k s"
proof -
  have "snd p \<noteq> k" if "p \<in> set (t2k s)" for p
  proof -
    have "map_of (t2k s) (fst p) = Some (snd p)"
      using that assms(1) by (simp add: lru_inv_def map_of_iff_set)
    then show ?thesis
      using assms unfolding lru_inv_def stamps_ok_def by (metis option.distinct(1))
  qed
  then show ?thesis by (simp add: filter_id_conv)
qed

lemma lru_touch_order:
  assumes inv: "lru_inv s" and ne: "stampLast s \<noteq> 0"
  shows "t2k (lru_touch d k s) = filter (\<lambda>p. snd p \<noteq> k) (t2k s) @ [(stampLast s, k)]"
proof -
  have less: "fst p < stampLast s" if "p \<in> set (t2k s)" for p
  proof -
    have "map_of (t2k s) (fst p) = Some (snd p)"
      using that inv by (simp add: lru_inv_def map_of_iff_set)
    then show ?thesis
      using inv ne by (auto simp: lru_inv_def stamps_ok_def stamp_fresh_def)
  qed
  have old: "(case map_of (k2t s) k of None \<Rightarrow> t2k s | Some t \<Rightarrow> smap_erase t (t2k s))
      = filter (\<lambda>p. snd p \<noteq> k) (t2k s)"
    using t2k_filter_stamp [OF inv] t2k_filter_absent [OF inv] by (auto split: option.splits)
  show ?thesis
    unfolding lru_touch_t2k [OF inv ne] old
    by (rule smap_set_greatest) (simp add: less)
qed

lemma lru_order_set: "lru_inv s \<Longrightarrow> set (lru_order s) = dom (map_of (realData s))"
proof -
  assume inv: "lru_inv s"
  have "k \<in> set (lru_order s) \<longleftrightarrow> (\<exists>t. map_of (t2k s) t = Some k)" for k
    using inv by (auto simp: lru_order_def lru_inv_def smap_wf_distinct image_iff) force
  also have "(\<exists>t. map_of (t2k s) t = Some k) \<longleftrightarrow> k \<in> dom (map_of (realData s))" for k
    using inv unfolding lru_inv_def stamps_ok_def by blast
  finally show ?thesis by blast
qed

lemma lru_order_distinct: "lru_inv s \<Longrightarrow> distinct (lru_order s)"
proof -
  assume inv: "lru_inv s"
  have "p = q" if "p \<in> set (t2k s)" "q \<in> set (t2k s)" "snd p = snd q" for p q
  proof -
    have "map_of (t2k s) (fst p) = Some (snd p)" "map_of (t2k s) (fst q) = Some (snd p)"
      using that inv by (simp_all add: lru_inv_def map_of_iff_set) (metis prod.collapse)
    then have "fst p = fst q"
      using inv unfolding lru_inv_def stamps_ok_def by (metis option.inject)
    with that(3) show ?thesis by (simp add: prod_eq_iff)
  qed
  moreover have "distinct (t2k s)"
    using inv smap_wf_distinct [of "t2k s"] by (simp add: lru_inv_def distinct_map)
  ultimately show ?thesis
    unfolding lru_order_def by (auto simp: distinct_map inj_on_def)
qed

lemma lru_size_order: "lru_inv s \<Longrightarrow> lru_size s = length (lru_order s)"
  by (metis distinct_card lru_order_distinct lru_order_set lru_size_def length_smap_dom lru_inv_def)


lemma lru_erase_order:
  assumes inv: "lru_inv s"
  shows "lru_order (lru_erase k s) = filter (\<lambda>k'. k' \<noteq> k) (lru_order s)"
proof -
  have "map_of (t2k s) 0 = None"
    using inv unfolding lru_inv_def by (blast intro: stamps_ok_zero)
  then have "smap_erase 0 (t2k s) = t2k s"
    by (force simp: smap_erase_def filter_id_conv map_of_eq_None_iff)
  then have "t2k (lru_erase k s) = filter (\<lambda>p. snd p \<noteq> k) (t2k s)"
    using t2k_filter_stamp [OF inv] t2k_filter_absent [OF inv]
    by (auto simp: lru_erase_maps [OF inv] split: option.splits)
  then show ?thesis
    by (simp add: lru_order_def filter_map comp_def)
qed

lemma lru_at_order:
  assumes inv: "lru_inv s"
  shows "lru_order (fst (lru_at d k s)) =
     (let l = lru_order (lru_touch d k s) in if length l + 1 > capacity s then tl l else l)"
proof -
  let ?s1 = "lru_touch d k s"
  have inv1: "lru_inv ?s1" using inv by (rule lru_inv_touch)
  have cap: "capacity ?s1 = capacity s"
    by (cases "stampLast s = 0") (simp_all add: lru_touch_wrapped lru_touch_fields)
  have ne: "k \<in> set (lru_order ?s1)"
    unfolding lru_order_set [OF inv1]
    by (cases "stampLast s = 0") (auto simp: lru_touch_wrapped lru_touch_fields std_simps)
  obtain t0 k0 r where t2k: "t2k ?s1 = (t0, k0) # r"
    using ne by (cases "t2k ?s1") (auto simp: lru_order_def)
  have "k0 \<notin> set (map snd r)"
    using lru_order_distinct [OF inv1] by (simp add: lru_order_def t2k)
  then have "filter (\<lambda>k'. k' \<noteq> k0) (map snd r) = map snd r"
    by (auto simp: filter_id_conv)
  then have "lru_order (lru_erase k0 ?s1) = tl (lru_order ?s1)"
    unfolding lru_erase_order [OF inv1] by (simp add: lru_order_def t2k)
  moreover have "lru_size ?s1 = length (lru_order ?s1)" using inv1 by (rule lru_size_order)
  ultimately show ?thesis
    using cap by (auto simp: lru_at_def Let_def smap_begin_def t2k lru_order_def)
qed

lemma lru_at_order_spec:
  assumes "lru_inv s" and "stampLast s \<noteq> 0"
  shows "lru_order (fst (lru_at d k s)) = access_spec (capacity s) k (lru_order s)"
  unfolding lru_at_order [OF assms(1)] access_spec_def
  by (simp add: lru_order_def lru_touch_order [OF assms] filter_map comp_def)

lemma lru_erase_find: "lru_find k' (lru_erase k s) = (if k' = k then None else lru_find k' s)"
  by (auto simp: lru_find_def lru_erase_def stamp_of_def Let_def std_simps split: option.splits)

lemma lru_at_find:
  assumes inv: "lru_inv s" and ne: "stampLast s \<noteq> 0"
    and "k' \<in> set (lru_order (fst (lru_at d k s)))"
  shows "lru_find k' (fst (lru_at d k s)) =
     Some (if k' = k \<and> lru_find k s = None then d else the (lru_find k' s))"
proof -
  have "k' \<in> dom (map_of (realData (fst (lru_at d k s))))"
    using assms(3) lru_order_set lru_inv_at [OF inv] by blast
  then show ?thesis
    using ne
    by (auto simp: lru_at_def Let_def lru_touch_fields std_simps lru_erase_def stamp_of_def lru_find_def
        split: option.splits if_splits)
qed

subsection \<open>Properties\<close>

lemma access_spec_last: "2 \<le> cap \<Longrightarrow> length l < cap \<Longrightarrow> k \<in> set (access_spec cap k l)"
  by (cases "filter (\<lambda>k'. k' \<noteq> k) l") (auto simp: access_spec_def Let_def)

lemma access_spec_subset: "set (access_spec cap k l) \<subseteq> insert k (set l)"
proof -
  have "set (tl xs) \<subseteq> set xs" for xs :: "'a list" by (cases xs) auto
  then have "set (tl (filter (\<lambda>k'. k' \<noteq> k) l @ [k])) \<subseteq> set (filter (\<lambda>k'. k' \<noteq> k) l @ [k])" .
  then show ?thesis by (auto simp: access_spec_def Let_def)
qed

lemma access_spec_bound:
  assumes "distinct l" and "length l < cap" and "2 \<le> cap"
  shows "length (access_spec cap k l) < cap"
proof -
  have "length (filter (\<lambda>k'. k' \<noteq> k) l) < cap"
    using length_filter_le assms(2) by (rule order_le_less_trans)
  with assms(3) show ?thesis by (auto simp: access_spec_def Let_def)
qed

text \<open>
  C11. Whatever sequence of look-ups, assignments, erasures and resizes a new LRUMap goes through
  (including those during which the 64-bit stamp counter rounds over), the two stamp maps stay inverse
  to each other, they index exactly the stored keys, and no stamp in use is zero or ahead of the counter.
\<close>

theorem lru_reachable_invariant:
  assumes "run_ops (lru_step d) (lru_new cap) ops = Some s"
  shows "lru_inv s"
  using assms by (rule lru_machine.reachable_inv)

theorem lru_reachable_invariant_witness:
  "\<exists>s. run_ops (lru_step (0::nat)) (lru_new 3)
        [Assign (1::nat) 10, Assign 2 20, Index 1, Assign 3 30, Erase 3] = Some s \<and>
     lru_inv s \<and> lru_order s = [1]"
proof -
  let ?ops = "[Assign (1::nat) 10, Assign 2 20, Index 1, Assign 3 30, Erase 3]"
  have "map_option lru_order (run_ops (lru_step (0::nat)) (lru_new 3) ?ops) = Some [1]"
    by code_simp
  then obtain s where s: "run_ops (lru_step (0::nat)) (lru_new 3) ?ops = Some s" and "lru_order s = [1]"
    by auto
  with lru_reachable_invariant [OF s] show ?thesis by blast
qed


text \<open>
  C10. While the stamp counter has not rounded over, \<open>operator[]\<close> is the abstract LRU access: the
  key becomes the most recent, the eldest key is dropped exactly when the number of keys plus one
  exceeds the capacity, every key that stays keeps its value, and a new key gets the default value. For
  a capacity of at least 2 the size stays strictly below the capacity (the map holds at most
  \<open>capacity - 1\<close> keys between calls) and the returned reference is to the stored value.
\<close>

theorem lru_at_refines:
  assumes inv: "lru_inv s" and ne: "stampLast s \<noteq> 0"
    and cap: "2 \<le> capacity s" and sz: "lru_size s < capacity s"
  shows "lru_order (fst (lru_at d k s)) = access_spec (capacity s) k (lru_order s) \<and>
     lru_size (fst (lru_at d k s)) < capacity s \<and>
     snd (lru_at d k s) = Some (case lru_find k s of None \<Rightarrow> d | Some v \<Rightarrow> v) \<and>
     (\<forall>k' \<in> set (lru_order (fst (lru_at d k s))) - {k}. lru_find k' (fst (lru_at d k s)) = lru_find k' s)"
proof (intro conjI ballI)
  let ?s' = "fst (lru_at d k s)"
  have inv': "lru_inv ?s'" using inv by (rule lru_inv_at)
  have len: "length (lru_order s) < capacity s"
    using sz inv by (simp add: lru_size_order)
  show ord: "lru_order ?s' = access_spec (capacity s) k (lru_order s)"
    using inv ne by (rule lru_at_order_spec)
  show "lru_size ?s' < capacity s"
    unfolding lru_size_order [OF inv'] ord
    using lru_order_distinct [OF inv] len cap by (rule access_spec_bound)
  have "k \<in> set (lru_order ?s')"
    unfolding ord using cap len by (rule access_spec_last)
  from lru_at_find [OF inv ne this]
  have "lru_find k ?s' = Some (case lru_find k s of None \<Rightarrow> d | Some v \<Rightarrow> v)"
    by (auto split: option.splits)
  then show "snd (lru_at d k s) = Some (case lru_find k s of None \<Rightarrow> d | Some v \<Rightarrow> v)"
    by (simp add: lru_at_def lru_find_def Let_def)
  fix k' assume k': "k' \<in> set (lru_order ?s') - {k}"
  have "k' \<in> dom (map_of (realData s))"
    using k' access_spec_subset [of "capacity s" k "lru_order s"]
    unfolding ord lru_order_set [OF inv, symmetric] by blast
  with lru_at_find [OF inv ne, of k' d k] k' show "lru_find k' ?s' = lru_find k' s"
    by (auto simp: lru_find_def)
qed


theorem lru_at_refines_witness:
  "let s = \<lparr>k2t = [(1::nat, 1), (2, 2)], t2k = [(1, 1), (2, 2)], realData = [(1, 10::nat), (2, 20)],
            stampLast = 3, capacity = 3\<rparr>
   in lru_order (fst (lru_at 0 3 s)) = [2, 3] \<and> snd (lru_at 0 3 s) = Some 0"
proof -
  let ?s = "\<lparr>k2t = [(1::nat, 1), (2, 2)], t2k = [(1, 1), (2, 2)], realData = [(1, 10::nat), (2, 20)],
            stampLast = 3, capacity = 3\<rparr>"
  have "lru_inv ?s"
    by (auto simp: lru_inv_def stamps_ok_def stamp_fresh_def smap_wf_Cons)
  moreover have "access_spec 3 3 [1, 2::nat] = [2, 3]"
    by (simp add: access_spec_def)
  ultimately show ?thesis
    using lru_at_refines [of ?s 0 3]
    by (simp add: lru_size_def lru_order_def lru_find_def)
qed

text \<open>
  A map constructed with capacity 0 or 1 evicts the entry it has just created: the reference
  that \<open>operator[]\<close> returns points to an erased node, so \<open>m[k] = v\<close> writes to freed memory, and the
  map never holds anything.
\<close>

theorem lru_capacity_one_dangles:
  fixes k :: "'k::linorder" and v :: 'v
  assumes "cap \<le> 1"
  shows "snd (lru_at d k (lru_new cap)) = None \<and> lru_put d k v (lru_new cap) = None \<and>
     lru_size (fst (lru_at d k (lru_new cap))) = 0"
proof -
  let ?s = "lru_new cap :: ('k, 'v) lru"
  have inv: "lru_inv ?s" by (rule lru_inv_new)
  have inv': "lru_inv (fst (lru_at d k ?s))" using inv by (rule lru_inv_at)
  have "lru_order (fst (lru_at d k ?s)) = []"
    using assms lru_at_order_spec [OF inv, of d k]
    by (simp add: lru_new_def lru_order_def access_spec_def)
  then have size: "lru_size (fst (lru_at d k ?s)) = 0"
    using lru_size_order [OF inv'] by simp
  then have dangling: "snd (lru_at d k ?s) = None"
    by (simp add: lru_size_def lru_at_def Let_def)
  then have "lru_put d k v ?s = None"
    by (cases "lru_at d k ?s") (simp add: lru_put_def)
  with size dangling show ?thesis by blast
qed

theorem lru_capacity_one_dangles_witness:
  "(1::nat) \<le> 1 \<and> snd (lru_at (0::nat) (7::nat) (lru_new 1)) = None"
  using lru_capacity_one_dangles [of 1 "0::nat" "7::nat"] by blast

end
