(* ===== verification/Evictor_Model.thy ===== *)
theory Evictor_Model
  imports Std_Map
begin

text \<open>
  Evictor.cpp: a write-back object cache over an object store. Items are shared through counted
  pointers (an item may at once be in \<open>_cache\<close>, in \<open>_modifiedMap\<close> and in a local batch of \<open>poll\<close>), so
  the model keeps them in a heap and passes references. \<open>_evictorList\<close> is a \<open>std::list\<close> whose iterators
  the items store (\<open>_pos\<close>): a node is a unique number paired with its identity. The virtual functions
  (\<open>marshal\<close>, \<open>unmarshal\<close>, \<open>loadFromStore\<close>, \<open>saveBatchToStore\<close>), which a child class overrides, are the
  record \<open>virtuals\<close>; the base class's store, a dictionary, is modelled too. Logging and the delays
  between retries are left out. Times are the values that \<open>now()\<close> returned, passed as arguments.
\<close>

subsection \<open>Identities\<close>

datatype ident = Ident (category: string) (name: string)

text \<open>\<open>_Ident::comp\<close>: by category, then by name.\<close>

definition ident_comp :: "ident \<Rightarrow> ident \<Rightarrow> bool" where
  "ident_comp x y \<longleftrightarrow> category x < category y \<or> category x = category y \<and> name x < name y"

instantiation ident :: linorder
begin

definition less_ident :: "ident \<Rightarrow> ident \<Rightarrow> bool" where
  "less_ident = ident_comp"

definition less_eq_ident :: "ident \<Rightarrow> ident \<Rightarrow> bool" where
  "less_eq_ident x y \<longleftrightarrow> category x < category y \<or> category x = category y \<and> name x \<le> name y"

instance
  by standard (auto simp: less_ident_def ident_comp_def less_eq_ident_def intro: ident.expand)

end

definition identToStr :: "ident \<Rightarrow> string" where
  "identToStr i = name i @ ''@'' @ category i"

subsection \<open>Data\<close>

datatype state = Clean | Created | Modified | Destroyed | Dead

datatype error = eeOK | eeClientError | eeMashalError | eeNotFound | eeTimeout | eeConnectErr | eeNoMemory

type_synonym bytes = "uint8 list"

record 'o data =
  servant :: "'o option"
  status :: state
  stampCreated :: int
  stampLastSave :: int
  completed :: bool

record 'o item =
  item_ident :: ident
  item_data :: "'o data"
  item_pos :: nat
  orphan :: bool

record streamed =
  key :: string
  st_status :: state
  st_data :: bytes
  stampAsOf :: int

type_synonym dict = "(string \<times> bytes) list"

text \<open>The outcome of \<open>unmarshal\<close>: it returned true, returned false, or threw.\<close>

datatype unmarshalled = Accepted | Refused | Threw

text \<open>
  \<open>v_load i d k\<close> is the result of the \<open>i\<close>-th attempt to load \<open>k\<close> (a thrown exception is
  \<open>eeClientError\<close>, as \<open>pin\<close> makes it); \<open>v_marshal\<close> gives \<open>None\<close> where marshal returns false or throws;
  \<open>v_save\<close> gives the store's contents after the batch.
\<close>

record 'o virtuals =
  v_load :: "nat \<Rightarrow> dict \<Rightarrow> string \<Rightarrow> error \<times> bytes"
  v_unmarshal :: "string \<Rightarrow> 'o data \<Rightarrow> bytes \<Rightarrow> 'o data \<times> unmarshalled"
  v_marshal :: "string \<Rightarrow> 'o data \<Rightarrow> bytes option"
  v_save :: "streamed list \<Rightarrow> dict \<Rightarrow> dict"

record 'o evictor =
  heap :: "nat \<Rightarrow> 'o item"
  next_item :: nat
  next_node :: nat
  cache :: "(ident \<times> nat) list"
  evictorList :: "(nat \<times> ident) list"
  modifiedMap :: "(ident \<times> nat) list"
  modifiedQueue :: "ident list"
  streamedList :: "streamed list"
  dict :: dict
  lastErr :: error
  evictorSize :: nat
  batchSize :: nat
  saveCompletedOnly :: bool
  itemExt :: "nat \<Rightarrow> nat"
  objExt :: "'o \<Rightarrow> nat"

text \<open>
  \<open>itemExt\<close> and \<open>objExt\<close> are the counted references that clients hold to an item and, beside the item's
  own, to a servant. The items' other references are counted from the containers.
\<close>

definition itemUsage :: "'o evictor \<Rightarrow> nat list \<Rightarrow> nat \<Rightarrow> nat" where
  "itemUsage s locals r =
     count_list (map snd (cache s)) r + count_list (map snd (modifiedMap s)) r
     + count_list locals r + itemExt s r"

definition objectUsage :: "'o evictor \<Rightarrow> nat \<Rightarrow> nat" where
  "objectUsage s r = (case servant (item_data (heap s r)) of None \<Rightarrow> 0 | Some obj \<Rightarrow> Suc (objExt s obj))"

abbreviation item_status :: "'o evictor \<Rightarrow> nat \<Rightarrow> state" where
  "item_status s r \<equiv> status (item_data (heap s r))"

definition upd_item :: "nat \<Rightarrow> ('o item \<Rightarrow> 'o item) \<Rightarrow> 'o evictor \<Rightarrow> 'o evictor" where
  "upd_item r f s = s\<lparr>heap := (heap s)(r := f (heap s r))\<rparr>"

definition upd_data :: "nat \<Rightarrow> ('o data \<Rightarrow> 'o data) \<Rightarrow> 'o evictor \<Rightarrow> 'o evictor" where
  "upd_data r f s = upd_item r (\<lambda>it. it\<lparr>item_data := f (item_data it)\<rparr>) s"

text \<open>\<open>_Data::_Data\<close> and \<open>Item::Item\<close>.\<close>

definition new_data :: "'o data" where
  "new_data = \<lparr>servant = None, status = Clean, stampCreated = 0, stampLastSave = 0, completed = False\<rparr>"

definition new_item :: "ident \<Rightarrow> 'o evictor \<Rightarrow> 'o evictor \<times> nat" where
  "new_item i s =
     (s\<lparr>heap := (heap s)(next_item s := \<lparr>item_ident = i, item_data = new_data, item_pos = 0, orphan = True\<rparr>),
        next_item := Suc (next_item s)\<rparr>, next_item s)"

subsection \<open>Construction\<close>

text \<open>
  The constructor reads \<open>maxSize\<close> and \<open>saveSizeTrigger\<close> through \<open>atoi\<close> into unsigned fields and
  replaces 0 by the defaults; a negative number is a huge unsigned one. \<open>_flags\<close> starts at 1 with the
  trace bit; \<open>FLG_SAVE_COMPLETED_ONLY\<close> is set by child classes only.
\<close>

definition effective_size :: "int \<Rightarrow> nat" where
  "effective_size maxSize = (let u = unat (word_of_int maxSize :: uint32) in if u = 0 then 200 else u)"

definition setSize :: "int \<Rightarrow> 'o evictor \<Rightarrow> 'o evictor" where
  "setSize n s = s\<lparr>evictorSize := (if n > 0 then nat n else 200)\<rparr>"

definition property :: "(string \<times> string) list \<Rightarrow> string \<Rightarrow> string" where
  "property props k = (case map_of props k of None \<Rightarrow> [] | Some v \<Rightarrow> v)"

definition prop_prefix :: "string \<Rightarrow> string" where
  "prop_prefix nm = (if nm \<noteq> [] \<and> last nm \<noteq> CHR ''.'' then nm @ ''.'' else nm)"

definition new_evictor ::
    "string \<Rightarrow> (string \<times> string) list \<Rightarrow> bool \<Rightarrow> (nat \<Rightarrow> nat) \<Rightarrow> ('o \<Rightarrow> nat) \<Rightarrow> 'o evictor" where
  "new_evictor nm props compl_only iext oext =
     \<lparr>heap = (\<lambda>_. \<lparr>item_ident = Ident [] [], item_data = new_data, item_pos = 0, orphan = True\<rparr>),
      next_item = 0, next_node = 0, cache = [], evictorList = [], modifiedMap = [], modifiedQueue = [],
      streamedList = [], dict = [], lastErr = eeOK,
      evictorSize = effective_size (atoi (property props (prop_prefix nm @ ''maxSize''))),
      batchSize = 20, saveCompletedOnly = compl_only, itemExt = iext, objExt = oext\<rparr>"

subsection \<open>Queues and the eviction list\<close>

definition queueModified :: "nat \<Rightarrow> 'o evictor \<Rightarrow> 'o evictor" where
  "queueModified r s =
     (let i = item_ident (heap s r)
      in s\<lparr>modifiedQueue := modifiedQueue s @ [i], modifiedMap := smap_set i r (modifiedMap s)\<rparr>)"

text \<open>The loop of \<open>_popModified\<close> over the queue; \<open>mx = 0\<close> is no limit.\<close>

fun pop_loop :: "nat \<Rightarrow> nat \<Rightarrow> ident list \<Rightarrow> (ident \<times> nat) list \<Rightarrow> ident list \<times> (ident \<times> nat) list \<times> nat list" where
  "pop_loop mx c [] mm = ([], mm, [])"
| "pop_loop mx c (i # q) mm =
     (if mx = 0 \<or> c < mx
      then (case map_of mm i of
              None \<Rightarrow> pop_loop mx c q mm
            | Some r \<Rightarrow>
                (let (q', mm', batch) = pop_loop mx (Suc c) q (smap_erase i mm) in (q', mm', r # batch)))
      else (i # q, mm, []))"

definition popModified :: "nat \<Rightarrow> 'o evictor \<Rightarrow> 'o evictor \<times> nat list" where
  "popModified mx s =
     (let (q, mm, batch) = pop_loop mx 0 (modifiedQueue s) (modifiedMap s)
      in (s\<lparr>modifiedQueue := q, modifiedMap := mm\<rparr>, batch))"

definition erase_node :: "nat \<Rightarrow> (nat \<times> ident) list \<Rightarrow> (nat \<times> ident) list" where
  "erase_node n l = filter (\<lambda>p. fst p \<noteq> n) l"

definition push_front :: "nat \<Rightarrow> 'o evictor \<Rightarrow> 'o evictor" where
  "push_front r s =
     (let n = next_node s
      in upd_item r (\<lambda>it. it\<lparr>item_pos := n\<rparr>)
           (s\<lparr>evictorList := (n, item_ident (heap s r)) # evictorList s, next_node := Suc n\<rparr>))"

definition requeue :: "nat \<Rightarrow> 'o evictor \<Rightarrow> 'o evictor" where
  "requeue r s =
     (let it = heap s r
      in if orphan it then s
         else push_front r
           (if map_of (evictorList s) (item_pos it) = Some (item_ident it)
            then s\<lparr>evictorList := erase_node (item_pos it) (evictorList s)\<rparr> else s))"

definition evict :: "nat \<Rightarrow> 'o evictor \<Rightarrow> 'o evictor" where
  "evict r s =
     (let it = heap s r
      in if orphan it then s
         else upd_item r (\<lambda>it. it\<lparr>orphan := True\<rparr>)
           (s\<lparr>evictorList := (if map_of (evictorList s) (item_pos it) = Some (item_ident it)
                             then erase_node (item_pos it) (evictorList s) else evictorList s),
              cache := smap_erase (item_ident it) (cache s)\<rparr>))"

text \<open>
  The loop of \<open>_evictBySize\<close>, oldest first, with fuel; the number of evicted items is the second result.
\<close>

fun evict_loop :: "nat \<Rightarrow> nat \<Rightarrow> 'o evictor \<Rightarrow> ('o evictor \<times> nat) option" where
  "evict_loop 0 c s = None"
| "evict_loop (Suc fuel) c s =
     (if length (evictorList s) > evictorSize s
      then (case map_of (cache s) (snd (last (evictorList s))) of
              None \<Rightarrow> evict_loop fuel c (s\<lparr>evictorList := butlast (evictorList s)\<rparr>)
            | Some r \<Rightarrow>
                if itemUsage s [] r > 1 \<or> objectUsage s r > 1 then Some (s, c)
                else evict_loop fuel (Suc c) (evict r s))
      else Some (s, c))"

definition evictBySize :: "'o evictor \<Rightarrow> ('o evictor \<times> nat) option" where
  "evictBySize s = evict_loop (Suc (length (evictorList s))) 0 s"


subsection \<open>Pinning an object\<close>

text \<open>
  \<open>pin\<close>: at most five attempts; each looks in the cache first (and returns at once when the object is
  there), then loads from the store. The result carries the item under construction, and in the third
  component the item found in the cache during an attempt.
\<close>

fun pin_attempts ::
    "'o virtuals \<Rightarrow> nat \<Rightarrow> nat \<Rightarrow> ident \<Rightarrow> nat option \<Rightarrow> 'o evictor \<Rightarrow> 'o evictor \<times> nat option \<times> nat option" where
  "pin_attempts V 0 i ident itm s = (s, itm, None)"
| "pin_attempts V (Suc n) i ident itm s =
     (case map_of (cache s) ident of
        Some r \<Rightarrow> (s, itm, Some r)
      | None \<Rightarrow>
          (let (err, bs) = v_load V i (dict s) (identToStr ident);
               s1 = s\<lparr>lastErr := err\<rparr>
           in if err = eeNotFound then (s1, itm, None)
              else if err = eeOK then
                (let (s2, r) = (case itm of Some r \<Rightarrow> (s1, r) | None \<Rightarrow> new_item ident s1);
                     (d, ok) = v_unmarshal V (category ident) (item_data (heap s2 r)) bs;
                     s3 = upd_data r (\<lambda>_. d) s2
                 in if ok = Accepted then (upd_data r (\<lambda>d. d\<lparr>status := Clean\<rparr>) s3, Some r, None)
                    else (upd_data r (\<lambda>d. d\<lparr>status := Dead\<rparr>)
                            (if ok = Threw then s3\<lparr>lastErr := eeMashalError\<rparr> else s3), Some r, None))
              else pin_attempts V n (Suc i) ident itm s1))"

definition cache_item :: "ident \<Rightarrow> nat \<Rightarrow> 'o evictor \<Rightarrow> 'o evictor" where
  "cache_item ident r s =
     (let s1 = upd_item r (\<lambda>it. it\<lparr>item_ident := ident\<rparr>) s
      in upd_item r (\<lambda>it. it\<lparr>orphan := False\<rparr>)
           (push_front r (s1\<lparr>cache := smap_insert ident r (cache s1)\<rparr>)))"

definition pin :: "'o virtuals \<Rightarrow> ident \<Rightarrow> nat option \<Rightarrow> 'o evictor \<Rightarrow> 'o evictor \<times> nat option" where
  "pin V ident itm s =
     (case pin_attempts V 5 0 ident itm s of
        (s1, _, Some r) \<Rightarrow> (s1, Some r)
      | (s1, itm1, None) \<Rightarrow>
          (case map_of (cache s1) ident of
             Some r \<Rightarrow> (s1, Some r)
           | None \<Rightarrow>
               (case itm1 of
                  None \<Rightarrow> (s1, None)
                | Some r \<Rightarrow> (cache_item ident r s1, Some r))))"

subsection \<open>Client operations\<close>

definition add_status :: "'o \<Rightarrow> int \<Rightarrow> nat \<Rightarrow> 'o evictor \<Rightarrow> 'o evictor" where
  "add_status obj now r s =
     (case item_status s r of
        Destroyed \<Rightarrow> upd_data r (\<lambda>d. d\<lparr>status := Modified, servant := Some obj\<rparr>) s
      | Dead \<Rightarrow>
          queueModified r (upd_data r (\<lambda>d. d\<lparr>status := Created, servant := Some obj,
              stampCreated := now, stampLastSave := 0\<rparr>) s)
      | _ \<Rightarrow>
          queueModified r (upd_data r (\<lambda>d. d\<lparr>status := Modified, servant := Some obj,
              stampLastSave := now\<rparr>) s))"

definition add :: "'o virtuals \<Rightarrow> 'o \<Rightarrow> ident \<Rightarrow> int \<Rightarrow> 'o evictor \<Rightarrow> 'o evictor \<times> nat" where
  "add V obj ident now s =
     (let (s1, oldElt) = pin V ident None s;
          (s2, r) = (case oldElt of
              Some r \<Rightarrow> (s1, r)
            | None \<Rightarrow> (let (s', r) = new_item ident s1 in (upd_data r (\<lambda>d. d\<lparr>status := Dead\<rparr>) s', r)))
      in (requeue r (add_status obj now r s2), r))"

text \<open>\<open>remove\<close>: the NULL returns and the exception 404 are values of the result.\<close>

datatype 'o removed = Removed 'o | RemoveNull | Remove404

definition remove :: "'o virtuals \<Rightarrow> ident \<Rightarrow> 'o evictor \<Rightarrow> 'o evictor \<times> 'o removed" where
  "remove V ident s =
     (let (s1, itm) = pin V ident None s
      in case itm of
           None \<Rightarrow> (s1, RemoveNull)
         | Some r \<Rightarrow>
             (case servant (item_data (heap s1 r)) of
                None \<Rightarrow> (s1, RemoveNull)
              | Some obj \<Rightarrow>
                  (case item_status s1 r of
                     Clean \<Rightarrow> (requeue r (queueModified r
                         (upd_data r (\<lambda>d. d\<lparr>status := Destroyed, servant := None\<rparr>) s1)), Removed obj)
                   | Created \<Rightarrow> (requeue r (upd_data r (\<lambda>d. d\<lparr>status := Dead, servant := None\<rparr>) s1), Removed obj)
                   | Modified \<Rightarrow> (requeue r (upd_data r (\<lambda>d. d\<lparr>status := Destroyed, servant := None\<rparr>) s1), Removed obj)
                   | _ \<Rightarrow> (s1, Remove404))))"

definition locate :: "'o virtuals \<Rightarrow> ident \<Rightarrow> 'o evictor \<Rightarrow> 'o evictor \<times> 'o option" where
  "locate V ident s =
     (let (s1, itm) = pin V ident None s
      in case itm of
           None \<Rightarrow> (s1, None)
         | Some r \<Rightarrow>
             (case servant (item_data (heap s1 r)) of
                None \<Rightarrow> (s1, None)
              | Some obj \<Rightarrow>
                  if item_status s1 r = Destroyed \<or> item_status s1 r = Dead then (s1, None)
                  else (requeue r s1, Some obj)))"

definition setDirty :: "'o virtuals \<Rightarrow> ident \<Rightarrow> bool \<Rightarrow> 'o evictor \<Rightarrow> 'o evictor" where
  "setDirty V ident bCompleted s =
     (let (s1, itm) = pin V ident None s
      in case itm of
           None \<Rightarrow> s1
         | Some r \<Rightarrow>
             if servant (item_data (heap s1 r)) = None then s1
             else if item_status s1 r = Clean
             then requeue r (queueModified r
                    (upd_data r (\<lambda>d. d\<lparr>status := Modified, completed := bCompleted\<rparr>) s1))
             else s1)"

subsection \<open>The store of the base class\<close>

fun saveBatchToStore :: "streamed list \<Rightarrow> dict \<Rightarrow> dict" where
  "saveBatchToStore [] d = d"
| "saveBatchToStore (x # batch) d =
     saveBatchToStore batch
       (case st_status x of
          Created \<Rightarrow> smap_set (key x) (st_data x) d
        | Modified \<Rightarrow> smap_set (key x) (st_data x) d
        | Destroyed \<Rightarrow> smap_erase (key x) d
        | _ \<Rightarrow> d)"

definition loadFromStore :: "nat \<Rightarrow> dict \<Rightarrow> string \<Rightarrow> error \<times> bytes" where
  "loadFromStore i d k = (case map_of d k of None \<Rightarrow> (eeNotFound, []) | Some b \<Rightarrow> (eeOK, b))"

text \<open>The base class: its own dictionary, and \<open>marshal\<close> and \<open>unmarshal\<close> that return false.\<close>

definition base_virtuals :: "'o virtuals" where
  "base_virtuals = \<lparr>v_load = loadFromStore, v_unmarshal = (\<lambda>_ d _. (d, Refused)),
     v_marshal = (\<lambda>_ _. None), v_save = saveBatchToStore\<rparr>"

subsection \<open>poll\<close>

text \<open>\<open>_stream\<close>, which stamps the item and marshals it unless it is to be deleted.\<close>

definition stream_stamps :: "int \<Rightarrow> 'o data \<Rightarrow> 'o data" where
  "stream_stamps asOf d =
     (let created = (if stampCreated d \<le> 0 then asOf else stampCreated d);
          diff = asOf - (created + stampLastSave d)
      in d\<lparr>stampCreated := created, stampLastSave := (if created = 0 then diff else asOf - created)\<rparr>)"

definition stream :: "'o virtuals \<Rightarrow> nat \<Rightarrow> int \<Rightarrow> int \<Rightarrow> 'o evictor \<Rightarrow> 'o evictor \<times> streamed \<times> error" where
  "stream V r asOf now s =
     (let it = heap s r;
          stamp = (if asOf > 0 then asOf else now);
          so = \<lparr>key = identToStr (item_ident it), st_status = status (item_data it), st_data = [], stampAsOf = stamp\<rparr>
      in if status (item_data it) = Destroyed then (s, so, eeOK)
         else (let s1 = upd_data r (stream_stamps stamp) s
               in case v_marshal V (category (item_ident it)) (item_data (heap s1 r)) of
                    Some b \<Rightarrow> (s1, so\<lparr>st_data := b\<rparr>, eeOK)
                  | None \<Rightarrow> (s1, so, eeMashalError)))"

text \<open>The local queues of \<open>poll\<close>.\<close>

record batches =
  deadObjects :: "nat list"
  flushObjects :: "nat list"
  requeObjects :: "nat list"

definition stream_item :: "'o virtuals \<Rightarrow> int \<Rightarrow> nat \<Rightarrow> 'o evictor \<times> batches \<Rightarrow> 'o evictor \<times> batches" where
  "stream_item V stamp r = (\<lambda>(s, b).
     case item_status s r of
       Clean \<Rightarrow> (s, b)
     | Dead \<Rightarrow> (s, b\<lparr>deadObjects := deadObjects b @ [r]\<rparr>)
     | Destroyed \<Rightarrow>
         (let (s1, so, err) = stream V r stamp stamp s;
              s2 = upd_data r (\<lambda>d. d\<lparr>status := Dead\<rparr>) s1
          in (if err = eeOK then s2\<lparr>streamedList := streamedList s2 @ [so]\<rparr> else s2,
              b\<lparr>deadObjects := deadObjects b @ [r]\<rparr>))
     | _ \<Rightarrow>
         if saveCompletedOnly s \<and> \<not> completed (item_data (heap s r))
         then (s, b\<lparr>requeObjects := requeObjects b @ [r]\<rparr>)
         else (let (s1, so, err) = stream V r stamp stamp s
               in (if err = eeOK then s1\<lparr>streamedList := streamedList s1 @ [so]\<rparr> else s1,
                   b\<lparr>flushObjects := flushObjects b @ [r]\<rparr>)))"

text \<open>
  \<open>poll\<close> releases the evictor's lock between its phases. Phase 1, under the lock: rebuild the eviction
  list if it disagrees with the cache, return when there is nothing to do, pop a batch.
\<close>

fun number_nodes :: "nat \<Rightarrow> ident list \<Rightarrow> (nat \<times> ident) list" where
  "number_nodes n [] = []"
| "number_nodes n (i # is) = (n, i) # number_nodes (Suc n) is"

definition rebuild_list :: "'o evictor \<Rightarrow> 'o evictor" where
  "rebuild_list s =
     (if length (evictorList s) \<noteq> length (cache s)
      then s\<lparr>evictorList := number_nodes (next_node s) (map fst (cache s)),
             next_node := next_node s + length (cache s)\<rparr>
      else s)"

definition poll_pop :: "bool \<Rightarrow> 'o evictor \<Rightarrow> 'o evictor \<times> nat list option" where
  "poll_pop flushAll s =
     (let s1 = rebuild_list s
      in if modifiedQueue s1 = [] \<and> streamedList s1 = [] then (s1, None)
         else (let (s2, batch) = popModified (if flushAll then 0 else batchSize s1) s1 in (s2, Some batch)))"

text \<open>Phase 2: stream each item; put the incomplete ones back.\<close>

definition poll_stream :: "'o virtuals \<Rightarrow> int \<Rightarrow> nat list \<Rightarrow> 'o evictor \<Rightarrow> 'o evictor \<times> batches" where
  "poll_stream V stamp batch s =
     (let (s1, b) = fold (stream_item V stamp) batch
            (s, \<lparr>deadObjects = [], flushObjects = [], requeObjects = []\<rparr>)
      in (fold queueModified (requeObjects b) s1, b\<lparr>requeObjects := []\<rparr>))"

text \<open>Phase 3: take a batch of streamed objects and save it.\<close>

definition poll_save :: "'o virtuals \<Rightarrow> bool \<Rightarrow> 'o evictor \<Rightarrow> 'o evictor" where
  "poll_save V flushAll s =
     (let n = (if flushAll \<or> batchSize s > length (streamedList s) then length (streamedList s) else batchSize s)
      in s\<lparr>dict := v_save V (take n (streamedList s)) (dict s), streamedList := drop n (streamedList s)\<rparr>)"

text \<open>Phase 4: evict the dead, mark the flushed clean, evict by size. While the first loop runs, the two
  local queues still hold their references.\<close>

fun evict_dead :: "nat list \<Rightarrow> nat list \<Rightarrow> 'o evictor \<Rightarrow> 'o evictor" where
  "evict_dead locals [] s = s"
| "evict_dead locals (r # rs) s =
     evict_dead locals rs
       (if orphan (heap s r) then s
        else if item_status s r \<noteq> Dead \<or> itemUsage s locals r > 2 then s
        else evict r s)"

definition mark_clean :: "nat \<Rightarrow> 'o evictor \<Rightarrow> 'o evictor" where
  "mark_clean r s = (if orphan (heap s r) then s else upd_data r (\<lambda>d. d\<lparr>status := Clean\<rparr>) s)"

definition poll_finish :: "batches \<Rightarrow> 'o evictor \<Rightarrow> 'o evictor option" where
  "poll_finish b s =
     map_option fst (evictBySize (fold mark_clean (flushObjects b)
       (evict_dead (deadObjects b @ flushObjects b) (deadObjects b) s)))"

text \<open>The whole of \<open>poll\<close> without interleaved client operations; \<open>None\<close> if it does not return.\<close>

definition poll :: "'o virtuals \<Rightarrow> bool \<Rightarrow> int \<Rightarrow> 'o evictor \<Rightarrow> ('o evictor \<times> bool) option" where
  "poll V flushAll now s =
     (case poll_pop flushAll s of
        (s1, None) \<Rightarrow> Some (s1, False)
      | (s1, Some batch) \<Rightarrow>
          (let (s2, b) = poll_stream V now batch s1
           in map_option (\<lambda>s'. (s', True)) (poll_finish b (poll_save V flushAll s2))))"

end
