(* ===== verification/Evictor.thy ===== *)
theory Evictor
  imports Evictor_Model
begin

text \<open>
  The Evictor's properties: the structural invariant that ties the cache, the eviction list with its
  stored iterators and the queue of modified items together; the invariant that every dirty cached item
  is queued; what \<open>poll\<close> guarantees when nothing interleaves with it; and the two ways in which the
  code loses an update.
\<close>

subsection \<open>Structural invariant\<close>

definition nodes_ok :: "(nat \<times> ident) list \<Rightarrow> nat \<Rightarrow> bool" where
  "nodes_ok l n \<longleftrightarrow> distinct (map fst l) \<and> distinct (map snd l) \<and> (\<forall>p \<in> set l. fst p < n)"

text \<open>Every cached item is a live one, knows its identity, and its \<open>_pos\<close> points at its own node.\<close>

definition cached_ok :: "'o evictor \<Rightarrow> bool" where
  "cached_ok s \<longleftrightarrow>
     (\<forall>i r. map_of (cache s) i = Some r \<longrightarrow>
        r < next_item s \<and> item_ident (heap s r) = i \<and> \<not> orphan (heap s r) \<and>
        (item_pos (heap s r), i) \<in> set (evictorList s))"

definition owned_ok :: "'o evictor \<Rightarrow> bool" where
  "owned_ok s \<longleftrightarrow>
     (\<forall>r < next_item s. \<not> orphan (heap s r) \<longrightarrow> map_of (cache s) (item_ident (heap s r)) = Some r)"

definition list_inv :: "'o evictor \<Rightarrow> bool" where
  "list_inv s \<longleftrightarrow>
     smap_wf (cache s) \<and> nodes_ok (evictorList s) (next_node s) \<and>
     snd ` set (evictorList s) = dom (map_of (cache s)) \<and> cached_ok s \<and> owned_ok s"

lemma list_inv_cached:
  "list_inv s \<Longrightarrow> map_of (cache s) i = Some r \<Longrightarrow>
     r < next_item s \<and> item_ident (heap s r) = i \<and> \<not> orphan (heap s r) \<and>
     (item_pos (heap s r), i) \<in> set (evictorList s)"
  unfolding list_inv_def cached_ok_def by blast

lemma list_inv_owned:
  "list_inv s \<Longrightarrow> r < next_item s \<Longrightarrow> \<not> orphan (heap s r) \<Longrightarrow>
     map_of (cache s) (item_ident (heap s r)) = Some r"
  unfolding list_inv_def owned_ok_def by blast

definition queue_inv :: "'o evictor \<Rightarrow> bool" where
  "queue_inv s \<longleftrightarrow>
     smap_wf (modifiedMap s) \<and>
     (\<forall>i r. map_of (modifiedMap s) i = Some r \<longrightarrow>
        r < next_item s \<and> item_ident (heap s r) = i \<and> i \<in> set (modifiedQueue s))"

definition dirty :: "state \<Rightarrow> bool" where
  "dirty st \<longleftrightarrow> st = Created \<or> st = Modified \<or> st = Destroyed"

definition dirty_inv :: "'o evictor \<Rightarrow> bool" where
  "dirty_inv s \<longleftrightarrow>
     (\<forall>i r. map_of (cache s) i = Some r \<and> dirty (item_status s r) \<longrightarrow> map_of (modifiedMap s) i = Some r)"

definition evictor_inv :: "'o evictor \<Rightarrow> bool" where
  "evictor_inv s \<longleftrightarrow> list_inv s \<and> queue_inv s \<and> dirty_inv s"

text \<open>Fields that a data update does not touch.\<close>

lemma upd_data_fields [simp]:
  "cache (upd_data r f s) = cache s" "evictorList (upd_data r f s) = evictorList s"
  "modifiedMap (upd_data r f s) = modifiedMap s" "modifiedQueue (upd_data r f s) = modifiedQueue s"
  "next_item (upd_data r f s) = next_item s" "next_node (upd_data r f s) = next_node s"
  "streamedList (upd_data r f s) = streamedList s" "dict (upd_data r f s) = dict s"
  "evictorSize (upd_data r f s) = evictorSize s" "batchSize (upd_data r f s) = batchSize s"
  "saveCompletedOnly (upd_data r f s) = saveCompletedOnly s"
  "itemExt (upd_data r f s) = itemExt s" "objExt (upd_data r f s) = objExt s"
  "item_ident (heap (upd_data r f s) r') = item_ident (heap s r')"
  "item_pos (heap (upd_data r f s) r') = item_pos (heap s r')"
  "orphan (heap (upd_data r f s) r') = orphan (heap s r')"
  "item_data (heap (upd_data r f s) r') = (if r' = r then f (item_data (heap s r)) else item_data (heap s r'))"
  by (simp_all add: upd_data_def upd_item_def)

lemma queueModified_fields [simp]:
  "cache (queueModified r s) = cache s" "evictorList (queueModified r s) = evictorList s"
  "next_item (queueModified r s) = next_item s" "next_node (queueModified r s) = next_node s"
  "heap (queueModified r s) = heap s" "streamedList (queueModified r s) = streamedList s"
  "dict (queueModified r s) = dict s" "evictorSize (queueModified r s) = evictorSize s"
  "batchSize (queueModified r s) = batchSize s" "saveCompletedOnly (queueModified r s) = saveCompletedOnly s"
  "itemExt (queueModified r s) = itemExt s" "objExt (queueModified r s) = objExt s"
  "modifiedMap (queueModified r s) = smap_set (item_ident (heap s r)) r (modifiedMap s)"
  "modifiedQueue (queueModified r s) = modifiedQueue s @ [item_ident (heap s r)]"
  by (simp_all add: queueModified_def Let_def)

lemma requeue_fields [simp]:
  "cache (requeue r s) = cache s" "modifiedMap (requeue r s) = modifiedMap s"
  "modifiedQueue (requeue r s) = modifiedQueue s" "next_item (requeue r s) = next_item s"
  "streamedList (requeue r s) = streamedList s" "dict (requeue r s) = dict s"
  "evictorSize (requeue r s) = evictorSize s" "batchSize (requeue r s) = batchSize s"
  "saveCompletedOnly (requeue r s) = saveCompletedOnly s"
  "itemExt (requeue r s) = itemExt s" "objExt (requeue r s) = objExt s"
  "item_ident (heap (requeue r s) r') = item_ident (heap s r')"
  "item_data (heap (requeue r s) r') = item_data (heap s r')"
  "orphan (heap (requeue r s) r') = orphan (heap s r')"
  by (simp_all add: requeue_def push_front_def upd_item_def Let_def)

lemma list_inv_data [wf_intros]: "list_inv s \<Longrightarrow> list_inv (upd_data r f s)"
  by (simp add: list_inv_def cached_ok_def owned_ok_def)

lemma list_inv_queueModified [wf_intros]: "list_inv s \<Longrightarrow> list_inv (queueModified r s)"
  by (simp add: list_inv_def cached_ok_def owned_ok_def)

lemma list_inv_lastErr [wf_intros]: "list_inv s \<Longrightarrow> list_inv (s\<lparr>lastErr := e\<rparr>)"
  by (simp add: list_inv_def cached_ok_def owned_ok_def)

lemma queue_inv_data [wf_intros]: "queue_inv s \<Longrightarrow> queue_inv (upd_data r f s)"
  by (simp add: queue_inv_def)

lemma queue_inv_lastErr [wf_intros]: "queue_inv s \<Longrightarrow> queue_inv (s\<lparr>lastErr := e\<rparr>)"
  by (simp add: queue_inv_def)

lemma queue_inv_requeue [wf_intros]: "queue_inv s \<Longrightarrow> queue_inv (requeue r s)"
  by (simp add: queue_inv_def)

lemma queue_inv_queueModified [wf_intros]:
  "queue_inv s \<Longrightarrow> r < next_item s \<Longrightarrow> queue_inv (queueModified r s)"
  by (auto simp: queue_inv_def std_simps intro: wf_intros)

lemma dirty_inv_requeue [wf_intros]: "dirty_inv s \<Longrightarrow> dirty_inv (requeue r s)"
  by (simp add: dirty_inv_def)

lemma dirty_inv_lastErr [wf_intros]: "dirty_inv s \<Longrightarrow> dirty_inv (s\<lparr>lastErr := e\<rparr>)"
  by (simp add: dirty_inv_def)

subsection \<open>The eviction list\<close>

lemma distinct_nodes_eq:
  "nodes_ok l m \<Longrightarrow> (n, i) \<in> set l \<Longrightarrow> (n', i') \<in> set l \<Longrightarrow> n = n' \<longleftrightarrow> i = i'"
  using inj_on_eq_iff [of fst "set l" "(n, i)" "(n', i')"] inj_on_eq_iff [of snd "set l" "(n, i)" "(n', i')"]
  by (simp add: distinct_map nodes_ok_def)

lemma nodes_ok_map_of: "nodes_ok l m \<Longrightarrow> (n, i) \<in> set l \<Longrightarrow> map_of l n = Some i"
  by (simp add: nodes_ok_def)

lemma snd_erase_node:
  assumes "nodes_ok l m" and "(n, i) \<in> set l"
  shows "snd ` set (erase_node n l) = snd ` set l - {i}"
proof -
  have "fst q \<noteq> n \<longleftrightarrow> snd q \<noteq> i" if "q \<in> set l" for q
    using distinct_nodes_eq [OF assms, of "fst q" "snd q"] that by auto
  then show ?thesis
    by (auto simp: erase_node_def)
qed

lemma nodes_ok_erase [wf_intros]: "nodes_ok l m \<Longrightarrow> nodes_ok (erase_node n l) m"
  by (simp add: nodes_ok_def erase_node_def distinct_map_filter)

lemma nodes_ok_push:
  assumes "nodes_ok l m" and "i \<notin> snd ` set l"
  shows "nodes_ok ((m, i) # l) (Suc m)"
proof -
  have "m \<notin> fst ` set l"
    using assms(1) by (auto simp: nodes_ok_def)
  with assms show ?thesis
    by (auto simp: nodes_ok_def less_SucI)
qed

text \<open>The effect of \<open>_requeue\<close> and \<open>_evict\<close> on a cached item: the stored iterator is always good.\<close>

lemma list_inv_pos:
  assumes "list_inv s" and "r < next_item s" and "\<not> orphan (heap s r)"
  shows "map_of (evictorList s) (item_pos (heap s r)) = Some (item_ident (heap s r))"
  using assms nodes_ok_map_of list_inv_cached [OF assms(1) list_inv_owned [OF assms]]
  unfolding list_inv_def by blast

lemma requeue_cached:
  assumes "list_inv s" and "r < next_item s" and "\<not> orphan (heap s r)"
  shows "evictorList (requeue r s) =
           (next_node s, item_ident (heap s r)) # erase_node (item_pos (heap s r)) (evictorList s)"
    and "next_node (requeue r s) = Suc (next_node s)"
    and "item_pos (heap (requeue r s) r') = (if r' = r then next_node s else item_pos (heap s r'))"
  using assms(3) list_inv_pos [OF assms]
  by (simp_all add: requeue_def push_front_def upd_item_def Let_def)

lemma list_inv_requeue [wf_intros]:
  assumes inv: "list_inv s" and r: "r < next_item s"
  shows "list_inv (requeue r s)"
proof (cases "orphan (heap s r)")
  case True
  with inv show ?thesis by (simp add: requeue_def)
next
  case False
  let ?i = "item_ident (heap s r)" and ?p = "item_pos (heap s r)"
  note eqs = requeue_cached [OF inv r False] and owned = list_inv_owned [OF inv r False]
  have node: "(?p, ?i) \<in> set (evictorList s)"
    using list_inv_cached [OF inv owned] by blast
  have ok: "nodes_ok (evictorList s) (next_node s)"
    using inv by (simp add: list_inv_def)
  have snds: "snd ` set (erase_node ?p (evictorList s)) = dom (map_of (cache s)) - {?i}"
    using snd_erase_node [OF ok node] inv by (simp add: list_inv_def)
  have "nodes_ok (evictorList (requeue r s)) (next_node (requeue r s))"
    unfolding eqs by (rule nodes_ok_push) (use ok snds in \<open>auto intro: wf_intros\<close>)
  moreover have "snd ` set (evictorList (requeue r s)) = dom (map_of (cache s))"
    using snds owned unfolding eqs by auto
  moreover have "(item_pos (heap (requeue r s) r'), i) \<in> set (evictorList (requeue r s))"
    if "map_of (cache s) i = Some r'" for i r'
  proof (cases "r' = r")
    case True
    then show ?thesis using list_inv_cached [OF inv that] by (simp add: eqs)
  next
    case False
    then have "i \<noteq> ?i" using that owned by auto
    moreover have n': "(item_pos (heap s r'), i) \<in> set (evictorList s)"
      using list_inv_cached [OF inv that] by blast
    ultimately show ?thesis
      using False distinct_nodes_eq [OF ok node n'] by (simp add: eqs erase_node_def)
  qed
  then have "cached_ok (requeue r s)"
    using list_inv_cached [OF inv] by (simp add: cached_ok_def)
  moreover have "owned_ok (requeue r s)"
    using inv by (simp add: list_inv_def owned_ok_def)
  ultimately show ?thesis
    using inv by (simp add: list_inv_def)
qed


lemma evict_cached:
  assumes "list_inv s" and "r < next_item s" and "\<not> orphan (heap s r)"
  shows "evict r s = s\<lparr>heap := (heap s)(r := (heap s r)\<lparr>orphan := True\<rparr>),
       evictorList := erase_node (item_pos (heap s r)) (evictorList s),
       cache := smap_erase (item_ident (heap s r)) (cache s)\<rparr>"
  using assms(3) list_inv_pos [OF assms] by (simp add: evict_def upd_item_def Let_def)

lemma evict_orphan: "orphan (heap s r) \<Longrightarrow> evict r s = s"
  by (simp add: evict_def)

lemma list_inv_evict [wf_intros]:
  assumes inv: "list_inv s" and r: "r < next_item s"
  shows "list_inv (evict r s)"
proof (cases "orphan (heap s r)")
  case True
  with inv show ?thesis by (simp add: evict_orphan)
next
  case False
  let ?i = "item_ident (heap s r)" and ?p = "item_pos (heap s r)"
  note eq = evict_cached [OF inv r False] and owned = list_inv_owned [OF inv r False]
  have node: "(?p, ?i) \<in> set (evictorList s)"
    using list_inv_cached [OF inv owned] by blast
  have ok: "nodes_ok (evictorList s) (next_node s)"
    using inv by (simp add: list_inv_def)
  have c: "map_of (cache (evict r s)) = (map_of (cache s))(?i := None)"
    by (simp add: eq std_simps)
  have cached: "r' < next_item s \<and> item_ident (heap (evict r s) r') = i \<and> \<not> orphan (heap (evict r s) r')
      \<and> (item_pos (heap (evict r s) r'), i) \<in> set (evictorList (evict r s))"
    if "map_of (cache (evict r s)) i = Some r'" for i r'
  proof -
    have ne: "i \<noteq> ?i" and m: "map_of (cache s) i = Some r'"
      using that c by (auto split: if_splits)
    note old = list_inv_cached [OF inv m]
    then have "r' \<noteq> r" and "item_pos (heap s r') \<noteq> ?p"
      using ne distinct_nodes_eq [OF ok node, of "item_pos (heap s r')" i] by auto
    with old show ?thesis by (simp add: eq erase_node_def)
  qed
  have owned': "map_of (cache (evict r s)) (item_ident (heap (evict r s) r')) = Some r'"
    if "r' < next_item s" "\<not> orphan (heap (evict r s) r')" for r'
  proof -
    have "r' \<noteq> r" "\<not> orphan (heap s r')"
      using that by (auto simp: eq split: if_splits)
    moreover have "item_ident (heap s r') \<noteq> ?i"
      using calculation list_inv_owned [OF inv that(1)] owned by auto
    ultimately show ?thesis
      using list_inv_owned [OF inv that(1)] by (simp add: c) (simp add: eq)
  qed
  have "snd ` set (evictorList (evict r s)) = dom (map_of (cache (evict r s)))"
    unfolding c using snd_erase_node [OF ok node] inv by (simp add: eq list_inv_def)
  moreover have "nodes_ok (evictorList (evict r s)) (next_node (evict r s))"
    using ok by (simp add: eq wf_intros)
  moreover have "smap_wf (cache (evict r s))"
    using inv by (simp add: eq list_inv_def wf_intros)
  moreover have "cached_ok (evict r s)"
    unfolding cached_ok_def using cached by (simp add: eq)
  moreover have "owned_ok (evict r s)"
    unfolding owned_ok_def using owned' by (simp add: eq)
  ultimately show ?thesis
    by (simp add: list_inv_def)
qed

lemma evict_fields [simp]:
  "modifiedMap (evict r s) = modifiedMap s" "modifiedQueue (evict r s) = modifiedQueue s"
  "next_item (evict r s) = next_item s" "streamedList (evict r s) = streamedList s"
  "dict (evict r s) = dict s" "evictorSize (evict r s) = evictorSize s"
  "batchSize (evict r s) = batchSize s" "saveCompletedOnly (evict r s) = saveCompletedOnly s"
  "itemExt (evict r s) = itemExt s" "objExt (evict r s) = objExt s"
  "item_ident (heap (evict r s) r') = item_ident (heap s r')"
  "item_data (heap (evict r s) r') = item_data (heap s r')"
  by (simp_all add: evict_def upd_item_def Let_def)

lemma evict_cache_sub:
  "map_of (cache (evict r s)) i = Some r' \<Longrightarrow> map_of (cache s) i = Some r'"
  by (auto simp: evict_def upd_item_def Let_def std_simps split: if_splits)

lemma evictor_inv_evict [wf_intros]:
  "evictor_inv s \<Longrightarrow> r < next_item s \<Longrightarrow> evictor_inv (evict r s)"
  by (auto simp: evictor_inv_def queue_inv_def dirty_inv_def intro: wf_intros dest: evict_cache_sub)

subsection \<open>New items and pin\<close>

lemma new_item_fields [simp]:
  "cache (fst (new_item i s)) = cache s" "evictorList (fst (new_item i s)) = evictorList s"
  "modifiedMap (fst (new_item i s)) = modifiedMap s" "modifiedQueue (fst (new_item i s)) = modifiedQueue s"
  "next_item (fst (new_item i s)) = Suc (next_item s)" "next_node (fst (new_item i s)) = next_node s"
  "streamedList (fst (new_item i s)) = streamedList s" "dict (fst (new_item i s)) = dict s"
  "evictorSize (fst (new_item i s)) = evictorSize s" "batchSize (fst (new_item i s)) = batchSize s"
  "saveCompletedOnly (fst (new_item i s)) = saveCompletedOnly s"
  "itemExt (fst (new_item i s)) = itemExt s" "objExt (fst (new_item i s)) = objExt s"
  "snd (new_item i s) = next_item s"
  "heap (fst (new_item i s)) = (heap s)(next_item s :=
     \<lparr>item_ident = i, item_data = new_data, item_pos = 0, orphan = True\<rparr>)"
  by (simp_all add: new_item_def)

lemma evictor_inv_new_item [wf_intros]:
  assumes "evictor_inv s"
  shows "evictor_inv (fst (new_item i s))"
proof -
  have inv: "list_inv s" "queue_inv s" "dirty_inv s"
    using assms by (simp_all add: evictor_inv_def)
  have "cached_ok (fst (new_item i s))"
    using list_inv_cached [OF inv(1)] by (fastforce simp: cached_ok_def less_SucI)
  moreover have "owned_ok (fst (new_item i s))"
    using inv(1) by (simp add: list_inv_def owned_ok_def less_Suc_eq)
  moreover have "queue_inv (fst (new_item i s))"
    using inv(2) by (fastforce simp: queue_inv_def less_SucI)
  moreover have "dirty_inv (fst (new_item i s))"
    using inv(3) list_inv_cached [OF inv(1)] by (fastforce simp: dirty_inv_def)
  ultimately show ?thesis
    using inv by (simp add: evictor_inv_def list_inv_def)
qed

lemma evictor_inv_lastErr [wf_intros]: "evictor_inv s \<Longrightarrow> evictor_inv (s\<lparr>lastErr := e\<rparr>)"
  by (simp add: evictor_inv_def wf_intros)

lemma evictor_inv_data_orphan [wf_intros]:
  assumes "evictor_inv s" and "orphan (heap s r)"
  shows "evictor_inv (upd_data r f s)"
  using assms list_inv_cached [of s]
  by (fastforce simp: evictor_inv_def dirty_inv_def intro: wf_intros)

text \<open>An item that \<open>pin\<close> has just built: unknown to the containers, clean or dead.\<close>

definition unborn :: "'o evictor \<Rightarrow> ident \<Rightarrow> nat \<Rightarrow> bool" where
  "unborn s i r \<longleftrightarrow> r < next_item s \<and> orphan (heap s r) \<and> item_ident (heap s r) = i \<and>
     \<not> dirty (item_status s r) \<and> map_of (cache s) i = None"

lemma pin_attempts_ok:
  assumes "evictor_inv s" and "pin_attempts V n k i None s = (s', itm, found)"
  shows "evictor_inv s' \<and> cache s' = cache s \<and> modifiedMap s' = modifiedMap s \<and>
     modifiedQueue s' = modifiedQueue s \<and> streamedList s' = streamedList s \<and> dict s' = dict s \<and>
     (\<forall>r. found = Some r \<longrightarrow> map_of (cache s') i = Some r \<and> itm = None) \<and>
     (\<forall>r. itm = Some r \<longrightarrow> unborn s' i r)"
  using assms
proof (induction n arbitrary: k s)
  case 0
  then show ?case by auto
next
  case (Suc n)
  show ?case
  proof (cases "map_of (cache s) i")
    case (Some r)
    with Suc.prems show ?thesis by auto
  next
    case None
    obtain err bs where ld: "v_load V k (dict s) (identToStr i) = (err, bs)" by fastforce
    let ?s1 = "s\<lparr>lastErr := err\<rparr>"
    consider "err = eeNotFound" | "err = eeOK" | "err \<noteq> eeNotFound" "err \<noteq> eeOK" by blast
    then show ?thesis
    proof cases
      case 1
      with Suc.prems None ld show ?thesis by (auto intro: wf_intros)
    next
      case 2
      have inv2: "evictor_inv (fst (new_item i (s\<lparr>lastErr := eeOK\<rparr>)))"
        using Suc.prems(1) by (simp add: wf_intros)
      show ?thesis
        using Suc.prems(2) None ld 2 inv2
        by (auto simp: case_prod_beta Let_def unborn_def dirty_def intro!: wf_intros split: if_splits)
    next
      case 3
      then have "pin_attempts V n (Suc k) i None ?s1 = (s', itm, found)"
        using Suc.prems(2) None ld by simp
      from Suc.IH [OF _ this] Suc.prems(1) show ?thesis
        by (auto simp: wf_intros)
    qed
  qed
qed


lemma cache_item_eq:
  assumes "unborn s i r"
  shows "cache_item i r s = s\<lparr>heap := (heap s)(r := (heap s r)\<lparr>item_ident := i, item_pos := next_node s, orphan := False\<rparr>),
     evictorList := (next_node s, i) # evictorList s, next_node := Suc (next_node s),
     cache := smap_set i r (cache s)\<rparr>"
  using assms
  by (simp add: cache_item_def push_front_def upd_item_def Let_def unborn_def smap_insert_def)

lemma evictor_inv_cache_item [wf_intros]:
  assumes inv: "evictor_inv s" and u: "unborn s i r"
  shows "evictor_inv (cache_item i r s)"
proof -
  have l: "list_inv s" using inv by (simp add: evictor_inv_def)
  have c: "map_of (cache (cache_item i r s)) = (map_of (cache s))(i \<mapsto> r)"
    by (simp add: cache_item_eq [OF u] std_simps)
  have ni: "map_of (cache s) i = None" and r: "r < next_item s" and ii: "item_ident (heap s r) = i"
    and o: "orphan (heap s r)" and nd: "\<not> dirty (item_status s r)"
    using u by (simp_all add: unborn_def)
  have "cached_ok (cache_item i r s)"
    unfolding cached_ok_def c using list_inv_cached [OF l] ni r ii o
    by (auto simp: cache_item_eq [OF u])
  moreover have "owned_ok (cache_item i r s)"
    unfolding owned_ok_def c using ni r ii
    by (auto simp: cache_item_eq [OF u] dest: list_inv_owned [OF l])
  moreover have "nodes_ok (evictorList (cache_item i r s)) (next_node (cache_item i r s))"
    using l ni by (auto simp: cache_item_eq [OF u] list_inv_def intro!: nodes_ok_push)
  moreover have "snd ` set (evictorList (cache_item i r s)) = dom (map_of (cache (cache_item i r s)))"
    using l by (simp add: c) (simp add: cache_item_eq [OF u] list_inv_def)
  moreover have "smap_wf (cache (cache_item i r s))"
    using l by (simp add: cache_item_eq [OF u] list_inv_def wf_intros)
  ultimately have "list_inv (cache_item i r s)" by (simp add: list_inv_def)
  moreover have "queue_inv (cache_item i r s)"
    using inv ii by (auto simp: cache_item_eq [OF u] evictor_inv_def queue_inv_def)
  moreover have "dirty_inv (cache_item i r s)"
    using inv nd list_inv_cached [OF l] o
    unfolding dirty_inv_def c evictor_inv_def by (auto simp: cache_item_eq [OF u] split: if_splits)
  ultimately show ?thesis by (simp add: evictor_inv_def)
qed

text \<open>
  \<open>pin\<close> keeps the invariant, and what it returns is the cached item of that identity; it leaves the
  queue, the streamed objects and the store alone.
\<close>

lemma pin_ok:
  assumes inv: "evictor_inv s" and p: "pin V i None s = (s', res)"
  shows "evictor_inv s' \<and> modifiedMap s' = modifiedMap s \<and> modifiedQueue s' = modifiedQueue s \<and>
     streamedList s' = streamedList s \<and> dict s' = dict s \<and> res = map_of (cache s') i"
proof -
  obtain s1 itm found where a: "pin_attempts V 5 0 i None s = (s1, itm, found)"
    by (cases "pin_attempts V 5 0 i None s") auto
  note ok = pin_attempts_ok [OF inv a]
  show ?thesis
  proof (cases found)
    case (Some r)
    with p a ok show ?thesis by (auto simp: pin_def)
  next
    case None
    show ?thesis
    proof (cases "map_of (cache s1) i")
      case (Some r)
      with p a ok None show ?thesis by (auto simp: pin_def)
    next
      case nc: None
      show ?thesis
      proof (cases itm)
        case None
        with p a ok \<open>found = None\<close> nc show ?thesis by (auto simp: pin_def)
      next
        case (Some r)
        then have u: "unborn s1 i r" using ok by simp
        have "s' = cache_item i r s1" "res = Some r"
          using p a \<open>found = None\<close> nc Some by (auto simp: pin_def)
        moreover have "evictor_inv (cache_item i r s1)"
          using ok u by (simp add: wf_intros)
        ultimately show ?thesis
          using ok u by (simp add: cache_item_eq std_simps)
      qed
    qed
  qed
qed

lemma pin_hit: "map_of (cache s) i = Some r \<Longrightarrow> pin V i itm s = (s, Some r)"
  by (simp add: pin_def eval_nat_numeral)


subsection \<open>Client operations keep the invariant\<close>

lemma evictor_inv_requeue [wf_intros]: "evictor_inv s \<Longrightarrow> r < next_item s \<Longrightarrow> evictor_inv (requeue r s)"
  by (simp add: evictor_inv_def wf_intros)

lemma evictor_inv_queue_data:
  assumes "evictor_inv s" and "r < next_item s"
    and "map_of (cache s) (item_ident (heap s r)) \<in> {None, Some r}"
  shows "evictor_inv (queueModified r (upd_data r f s))"
proof -
  have l: "list_inv s" using assms(1) by (simp add: evictor_inv_def)
  have "dirty_inv (queueModified r (upd_data r f s))"
    unfolding dirty_inv_def
  proof (intro allI impI, elim conjE)
    fix i r' assume "map_of (cache (queueModified r (upd_data r f s))) i = Some r'"
    then have m: "map_of (cache s) i = Some r'" by simp
    assume "dirty (item_status (queueModified r (upd_data r f s)) r')"
    then show "map_of (modifiedMap (queueModified r (upd_data r f s))) i = Some r'"
      using assms m list_inv_cached [OF l m]
      by (auto simp: std_simps evictor_inv_def dirty_inv_def split: if_splits)
  qed
  with assms show ?thesis by (auto simp: evictor_inv_def intro!: wf_intros)
qed

lemma evictor_inv_data_queued:
  assumes "evictor_inv s" and "dirty (item_status s r) \<or> \<not> dirty (status (f (item_data (heap s r))))"
  shows "evictor_inv (upd_data r f s)"
  using assms by (auto simp: evictor_inv_def dirty_inv_def intro: wf_intros split: if_splits)

lemma evictor_inv_add_status:
  assumes "evictor_inv s" and "r < next_item s"
    and "map_of (cache s) (item_ident (heap s r)) \<in> {None, Some r}"
  shows "evictor_inv (add_status obj now r s) \<and> r < next_item (add_status obj now r s)"
  using assms evictor_inv_queue_data [OF assms]
  by (auto simp: add_status_def dirty_def intro!: evictor_inv_data_queued split: state.splits)

lemma evictor_inv_add [wf_intros]:
  assumes inv: "evictor_inv s"
  shows "evictor_inv (fst (add V obj i now s))"
proof -
  obtain s1 old where p: "pin V i None s = (s1, old)" by fastforce
  note ok = pin_ok [OF inv p]
  have l1: "list_inv s1" using ok by (simp add: evictor_inv_def)
  show ?thesis
  proof (cases old)
    case (Some r)
    then have m: "map_of (cache s1) i = Some r" using ok by simp
    note c = list_inv_cached [OF l1 m]
    then have "evictor_inv (add_status obj now r s1) \<and> r < next_item (add_status obj now r s1)"
      using ok m by (intro evictor_inv_add_status) auto
    then show ?thesis
      by (simp add: add_def p Some wf_intros)
  next
    case None
    let ?s2 = "upd_data (next_item s1) (\<lambda>d. d\<lparr>status := Dead\<rparr>) (fst (new_item i s1))"
    have "evictor_inv ?s2"
      using ok by (auto intro!: wf_intros)
    from evictor_inv_add_status [OF this, of "next_item s1" obj now] ok None show ?thesis
      by (simp add: add_def p case_prod_beta Let_def wf_intros)
  qed
qed

lemma evictor_inv_remove [wf_intros]:
  assumes inv: "evictor_inv s"
  shows "evictor_inv (fst (remove V i s))"
proof -
  obtain s1 itm where p: "pin V i None s = (s1, itm)" by fastforce
  note ok = pin_ok [OF inv p]
  have l1: "list_inv s1" and i1: "evictor_inv s1" using ok by (simp_all add: evictor_inv_def)
  show ?thesis
  proof (cases itm)
    case None
    with i1 show ?thesis by (simp add: remove_def p)
  next
    case (Some r)
    then have m: "map_of (cache s1) i = Some r" using ok by simp
    note c = list_inv_cached [OF l1 m]
    have "evictor_inv (queueModified r (upd_data r f s1))" for f
      using i1 c m by (intro evictor_inv_queue_data) auto
    with i1 Some c show ?thesis
      by (auto simp: remove_def p dirty_def intro!: wf_intros evictor_inv_data_queued
          split: option.splits state.splits)
  qed
qed

lemma evictor_inv_locate [wf_intros]:
  assumes inv: "evictor_inv s"
  shows "evictor_inv (fst (locate V i s))"
proof -
  obtain s1 itm where p: "pin V i None s = (s1, itm)" by fastforce
  note ok = pin_ok [OF inv p]
  have l1: "list_inv s1" using ok by (simp add: evictor_inv_def)
  show ?thesis
    using ok list_inv_cached [OF l1]
    by (auto simp: locate_def p intro!: wf_intros split: option.splits)
qed

lemma evictor_inv_setDirty [wf_intros]:
  assumes inv: "evictor_inv s"
  shows "evictor_inv (setDirty V i c s)"
proof -
  obtain s1 itm where p: "pin V i None s = (s1, itm)" by fastforce
  note ok = pin_ok [OF inv p]
  have l1: "list_inv s1" and i1: "evictor_inv s1" using ok by (simp_all add: evictor_inv_def)
  show ?thesis
  proof (cases itm)
    case None
    with i1 show ?thesis by (simp add: setDirty_def p)
  next
    case (Some r)
    then have m: "map_of (cache s1) i = Some r" using ok by simp
    note cc = list_inv_cached [OF l1 m]
    have "evictor_inv (queueModified r (upd_data r f s1))" for f
      using i1 cc m by (intro evictor_inv_queue_data) auto
    with i1 Some cc show ?thesis
      by (auto simp: setDirty_def p intro!: wf_intros)
  qed
qed


subsection \<open>The phases of poll keep the invariant\<close>

text \<open>The list never disagrees with the cache, so it is never rebuilt (which would leave every \<open>_pos\<close>
  dangling).\<close>

lemma length_evictorList: "list_inv s \<Longrightarrow> length (evictorList s) = length (cache s)"
proof -
  assume inv: "list_inv s"
  have "length (evictorList s) = card (snd ` set (evictorList s))"
    using inv by (metis distinct_card length_map list_inv_def nodes_ok_def set_map)
  also have "\<dots> = length (cache s)"
    using inv by (simp add: list_inv_def length_smap_dom)
  finally show ?thesis .
qed

lemma rebuild_never: "list_inv s \<Longrightarrow> rebuild_list s = s"
  by (simp add: rebuild_list_def length_evictorList)

lemma pop_loop_maps:
  "pop_loop mx c q mm = (q', mm', batch) \<Longrightarrow> smap_wf mm \<Longrightarrow> dom (map_of mm) \<subseteq> set q \<Longrightarrow>
     smap_wf mm' \<and> map_of mm' \<subseteq>\<^sub>m map_of mm \<and> dom (map_of mm') \<subseteq> set q' \<and>
     (\<forall>i r. map_of mm i = Some r \<longrightarrow> map_of mm' i = Some r \<or> r \<in> set batch) \<and>
     (\<forall>r \<in> set batch. \<exists>i. map_of mm i = Some r \<and> map_of mm' i = None)"
proof (induction mx c q mm arbitrary: q' mm' batch rule: pop_loop.induct)
  case (1 mx c mm)
  then show ?case by auto
next
  case (2 mx c i q mm)
  show ?case
  proof (cases "mx = 0 \<or> c < mx")
    case False
    with 2 show ?thesis by auto
  next
    case go: True
    show ?thesis
    proof (cases "map_of mm i")
      case None
      then have "dom (map_of mm) \<subseteq> set q" using "2.prems"(3) by (auto simp: domIff)
      with "2.IH"(1) [OF go None] "2.prems" go None show ?thesis by simp
    next
      case (Some r)
      obtain q1 mm1 b1 where rec: "pop_loop mx (Suc c) q (smap_erase i mm) = (q1, mm1, b1)"
        by (cases "pop_loop mx (Suc c) q (smap_erase i mm)") auto
      have eqs: "q' = q1" "mm' = mm1" "batch = r # b1"
        using "2.prems"(1) go Some rec by auto
      have d: "dom (map_of (smap_erase i mm)) \<subseteq> set q"
        using "2.prems"(3) by (auto simp: std_simps split: if_splits)
      note ih = "2.IH"(2) [OF go Some rec smap_wf_erase [OF "2.prems"(2)] d]
      have "map_of mm1 i = None"
        using ih by (auto simp: std_simps map_le_def split: if_splits)
      with ih Some show ?thesis
        unfolding eqs by (auto simp: std_simps map_le_def split: if_splits) (metis option.inject)
    qed
  qed
qed


text \<open>In the middle of \<open>poll\<close>: dirty cached items are queued, or in the local batch \<open>B\<close>.\<close>

definition mid_inv :: "nat set \<Rightarrow> 'o evictor \<Rightarrow> bool" where
  "mid_inv B s \<longleftrightarrow> list_inv s \<and> queue_inv s \<and>
     (\<forall>i r. map_of (cache s) i = Some r \<and> dirty (item_status s r) \<longrightarrow> map_of (modifiedMap s) i = Some r \<or> r \<in> B)"

text \<open>No other dirty item is cached under the identity of \<open>r\<close>.\<close>

definition sole :: "'o evictor \<Rightarrow> nat \<Rightarrow> bool" where
  "sole s r \<longleftrightarrow> r < next_item s \<and>
     (\<forall>r'. map_of (cache s) (item_ident (heap s r)) = Some r' \<longrightarrow> r' = r \<or> \<not> dirty (item_status s r'))"

lemma mid_inv_empty: "mid_inv {} s \<longleftrightarrow> evictor_inv s"
  by (auto simp: mid_inv_def evictor_inv_def dirty_inv_def)

lemma mid_inv_mono: "mid_inv B s \<Longrightarrow> B \<subseteq> B' \<Longrightarrow> mid_inv B' s"
  unfolding mid_inv_def by blast

lemma popModified_ok:
  assumes inv: "evictor_inv s" and pop: "popModified mx s = (s', batch)"
  shows "mid_inv (set batch) s' \<and> (\<forall>r \<in> set batch. sole s' r) \<and> streamedList s' = streamedList s \<and>
     dict s' = dict s \<and> cache s' = cache s \<and> heap s' = heap s"
proof -
  obtain q' mm' where pl: "pop_loop mx 0 (modifiedQueue s) (modifiedMap s) = (q', mm', batch)"
    and s': "s' = s\<lparr>modifiedQueue := q', modifiedMap := mm'\<rparr>"
    using pop by (auto simp: popModified_def split: prod.splits)
  have q: "queue_inv s" and l: "list_inv s" and d: "dirty_inv s"
    using inv by (simp_all add: evictor_inv_def)
  have qD: "r < next_item s \<and> item_ident (heap s r) = i \<and> i \<in> set (modifiedQueue s)"
    if "map_of (modifiedMap s) i = Some r" for i r
    using q that unfolding queue_inv_def by blast
  have wf: "smap_wf (modifiedMap s)" using q by (simp add: queue_inv_def)
  have "dom (map_of (modifiedMap s)) \<subseteq> set (modifiedQueue s)" using qD by blast
  note pm = pop_loop_maps [OF pl wf this]
  have sub: "map_of (modifiedMap s) i = Some r" if "map_of mm' i = Some r" for i r
    using pm that unfolding map_le_def by (metis domI)
  have "queue_inv s'"
    using pm qD sub unfolding queue_inv_def s' by (simp add: subset_iff domIff) blast
  moreover have "list_inv s'"
    using l by (simp add: s' list_inv_def cached_ok_def owned_ok_def)
  moreover have "map_of mm' i = Some r \<or> r \<in> set batch"
    if "map_of (cache s) i = Some r" "dirty (item_status s r)" for i r
    using d that pm unfolding dirty_inv_def by blast
  ultimately have "mid_inv (set batch) s'"
    by (simp add: mid_inv_def s')
  moreover have "sole s' r" if "r \<in> set batch" for r
    using that pm qD d unfolding sole_def dirty_inv_def s' by simp (metis option.inject)
  ultimately show ?thesis by (simp add: s')
qed

lemma stream_effect:
  "stream V r asOf now s = (s1, so, err) \<Longrightarrow>
     (s1 = s \<or> (\<exists>stamp. s1 = upd_data r (stream_stamps stamp) s)) \<and>
     st_status so = item_status s r \<and> key so = identToStr (item_ident (heap s r)) \<and>
     (item_status s r = Destroyed \<longrightarrow> err = eeOK)"
  by (auto simp: stream_def Let_def split: if_splits option.splits)

lemma status_stream_stamps [simp]: "status (stream_stamps t d) = status d"
  "servant (stream_stamps t d) = servant d" "completed (stream_stamps t d) = completed d"
  by (simp_all add: stream_stamps_def Let_def)

lemma mid_inv_stamps [wf_intros]: "mid_inv B s \<Longrightarrow> mid_inv B (upd_data r (stream_stamps t) s)"
  by (auto simp: mid_inv_def intro: wf_intros split: if_splits)

lemma mid_inv_streamed [wf_intros]: "mid_inv B s \<Longrightarrow> mid_inv B (s\<lparr>streamedList := l\<rparr>)"
  by (simp add: mid_inv_def list_inv_def cached_ok_def owned_ok_def queue_inv_def)

lemma mid_inv_settled:
  "mid_inv (insert r B) s \<Longrightarrow> \<not> dirty st \<Longrightarrow> mid_inv B (upd_data r (\<lambda>d. d\<lparr>status := st\<rparr>) s)"
  by (auto simp: mid_inv_def intro: wf_intros split: if_splits)

lemma mid_inv_not_dirty: "mid_inv (insert r B) s \<Longrightarrow> \<not> dirty (item_status s r) \<Longrightarrow> mid_inv B s"
  unfolding mid_inv_def by blast

definition pending :: "batches \<Rightarrow> nat set" where
  "pending b = set (flushObjects b) \<union> set (requeObjects b)"

lemma stream_item_ok:
  assumes inv: "mid_inv (insert r (B \<union> pending b)) s" and sole: "\<forall>x \<in> R. sole s x"
    and step: "stream_item V stamp r (s, b) = (s', b')"
  shows "mid_inv (B \<union> pending b') s' \<and> (\<forall>x \<in> R. sole s' x) \<and>
     set (requeObjects b') \<subseteq> insert r (set (requeObjects b)) \<and>
     next_item s' = next_item s"
proof -
  obtain s1 so err where str: "stream V r stamp stamp s = (s1, so, err)"
    by (cases "stream V r stamp stamp s") auto
  note eff = stream_effect [OF str]
  have inv1: "mid_inv (insert r (B \<union> pending b)) s1"
    using eff inv by (auto intro: wf_intros)
  have sole1: "\<forall>x \<in> R. sole s1 x" and ni: "next_item s1 = next_item s"
    using eff sole by (auto simp: sole_def split: if_splits)
  have soled: "sole (upd_data r (\<lambda>d. d\<lparr>status := Dead\<rparr>) s1) x" if "x \<in> R" for x
    using sole1 that by (auto simp: sole_def dirty_def)
  have soles: "sole (t\<lparr>streamedList := l\<rparr>) x \<longleftrightarrow> sole t x" for t :: "'a evictor" and l x
    by (simp add: sole_def)
  have "mid_inv (B \<union> pending b) (upd_data r (\<lambda>d. d\<lparr>status := Dead\<rparr>) s1)"
    using inv1 by (rule mid_inv_settled) (simp add: dirty_def)
  moreover have "\<not> dirty (item_status s r) \<Longrightarrow> mid_inv (B \<union> pending b) s"
    using inv by (rule mid_inv_not_dirty)
  ultimately show ?thesis
    using step str inv inv1 sole sole1 soled ni eff
    by (auto simp: stream_item_def Let_def dirty_def pending_def soles insert_commute intro!: wf_intros
        split: state.splits if_splits)
qed


lemma fold_stream_ok:
  assumes "mid_inv (set batch \<union> B \<union> pending b) s" and "\<forall>x \<in> R. sole s x"
    and "fold (stream_item V stamp) batch (s, b) = (s', b')"
  shows "mid_inv (B \<union> pending b') s' \<and> (\<forall>x \<in> R. sole s' x) \<and>
     set (requeObjects b') \<subseteq> set batch \<union> set (requeObjects b)"
  using assms
proof (induction batch arbitrary: s b)
  case Nil
  then show ?case by simp
next
  case (Cons r rs)
  obtain s1 b1 where st: "stream_item V stamp r (s, b) = (s1, b1)" by fastforce
  have eq: "insert r ((set rs \<union> B) \<union> pending b) = set (r # rs) \<union> B \<union> pending b" by auto
  have "mid_inv (insert r ((set rs \<union> B) \<union> pending b)) s"
    unfolding eq by (rule Cons.prems(1))
  note one = stream_item_ok [OF this Cons.prems(2) st]
  have m: "mid_inv (set rs \<union> B \<union> pending b1) s1" and sl: "\<forall>x \<in> R. sole s1 x"
    and rq: "set (requeObjects b1) \<subseteq> insert r (set (requeObjects b))"
    using one by simp_all
  have "fold (stream_item V stamp) rs (s1, b1) = (s', b')"
    using Cons.prems(3) st by simp
  note rec = Cons.IH [OF m sl this]
  then have "set (requeObjects b') \<subseteq> set (r # rs) \<union> set (requeObjects b)"
    using rq by auto
  with rec show ?case by blast
qed

lemma stream_item_batches:
  "stream_item V stamp r (s, b) = (s', b') \<Longrightarrow>
     set (deadObjects b') \<subseteq> insert r (set (deadObjects b)) \<and>
     set (flushObjects b') \<subseteq> insert r (set (flushObjects b))"
  by (auto simp: stream_item_def Let_def split: state.splits if_splits prod.splits)

lemma fold_stream_batches:
  "fold (stream_item V stamp) batch (s, b) = (s', b') \<Longrightarrow>
     set (deadObjects b') \<subseteq> set batch \<union> set (deadObjects b) \<and>
     set (flushObjects b') \<subseteq> set batch \<union> set (flushObjects b)"
proof (induction batch arbitrary: s b)
  case (Cons r rs)
  obtain s1 b1 where st: "stream_item V stamp r (s, b) = (s1, b1)" by fastforce
  with Cons.prems have "fold (stream_item V stamp) rs (s1, b1) = (s', b')" by simp
  from Cons.IH [OF this] stream_item_batches [OF st] show ?case by auto
qed simp

lemma sole_queueModified: "sole s x \<Longrightarrow> sole (queueModified r s) x"
  by (simp add: sole_def)

lemma mid_inv_queueModified:
  assumes inv: "mid_inv (insert r B) s" and sole: "sole s r"
  shows "mid_inv B (queueModified r s)"
proof -
  have l: "list_inv s" using inv by (simp add: mid_inv_def)
  have r: "r < next_item s" using sole by (simp add: sole_def)
  have "map_of (smap_set (item_ident (heap s r)) r (modifiedMap s)) i = Some r' \<or> r' \<in> B"
    if c: "map_of (cache s) i = Some r'" and d: "dirty (item_status s r')" for i r'
  proof (cases "i = item_ident (heap s r)")
    case True
    then show ?thesis using sole c d by (auto simp: sole_def std_simps)
  next
    case False
    then have "r' \<noteq> r" using list_inv_cached [OF l c] by auto
    moreover have "map_of (modifiedMap s) i = Some r' \<or> r' \<in> insert r B"
      using inv c d unfolding mid_inv_def by blast
    ultimately show ?thesis using False by (auto simp: std_simps)
  qed
  moreover have "list_inv (queueModified r s)" and "queue_inv (queueModified r s)"
    using inv r by (simp_all add: mid_inv_def wf_intros)
  ultimately show ?thesis by (simp add: mid_inv_def)
qed

lemma mid_inv_requeue_all:
  "mid_inv (set q \<union> B) s \<Longrightarrow> \<forall>x \<in> set q. sole s x \<Longrightarrow> mid_inv B (fold queueModified q s)"
proof (induction q arbitrary: s)
  case (Cons r q)
  have "mid_inv (insert r (set q \<union> B)) s" using Cons.prems by simp
  from mid_inv_queueModified [OF this] Cons.prems Cons.IH show ?case
    by (simp add: sole_queueModified)
qed simp

lemma fold_queueModified_fields [simp]:
  "cache (fold queueModified q s) = cache s" "next_item (fold queueModified q s) = next_item s"
  "heap (fold queueModified q s) = heap s" "streamedList (fold queueModified q s) = streamedList s"
  "dict (fold queueModified q s) = dict s" "evictorSize (fold queueModified q s) = evictorSize s"
  "batchSize (fold queueModified q s) = batchSize s"
  by (induction q arbitrary: s) simp_all

lemma sole_next: "sole s x \<Longrightarrow> x < next_item s"
  by (simp add: sole_def)

text \<open>After phase 2 the dirty items that are not queued are exactly in the flush batch.\<close>

lemma poll_stream_ok:
  assumes inv: "mid_inv (set batch) s" and sole: "\<forall>r \<in> set batch. sole s r"
    and st: "poll_stream V stamp batch s = (s', b)"
  shows "mid_inv (set (flushObjects b)) s' \<and> (\<forall>r \<in> set (deadObjects b) \<union> set (flushObjects b). r < next_item s')"
proof -
  let ?b0 = "\<lparr>deadObjects = [], flushObjects = [], requeObjects = []\<rparr>"
  obtain s1 b1 where f: "fold (stream_item V stamp) batch (s, ?b0) = (s1, b1)" by fastforce
  have s': "s' = fold queueModified (requeObjects b1) s1" and b: "b = b1\<lparr>requeObjects := []\<rparr>"
    using st f by (auto simp: poll_stream_def)
  have "mid_inv (set batch \<union> {} \<union> pending ?b0) s" using inv by (simp add: pending_def)
  note ok = fold_stream_ok [OF this sole f]
  have "mid_inv (set (requeObjects b1) \<union> set (flushObjects b1)) s1"
    using ok by (simp add: pending_def Un_commute)
  moreover have "\<forall>x \<in> set (requeObjects b1). sole s1 x" using ok by auto
  ultimately have "mid_inv (set (flushObjects b1)) s'"
    unfolding s' by (rule mid_inv_requeue_all)
  moreover have "x < next_item s1" if "x \<in> set (deadObjects b1) \<union> set (flushObjects b1)" for x
    using that fold_stream_batches [OF f] ok sole_next by fastforce
  ultimately show ?thesis by (simp add: s' b)
qed

lemma mid_inv_save [wf_intros]: "mid_inv B s \<Longrightarrow> mid_inv B (poll_save V flushAll s)"
  by (simp add: poll_save_def Let_def mid_inv_def list_inv_def cached_ok_def owned_ok_def queue_inv_def)

lemma poll_save_fields [simp]:
  "cache (poll_save V fl s) = cache s" "heap (poll_save V fl s) = heap s"
  "next_item (poll_save V fl s) = next_item s" "evictorSize (poll_save V fl s) = evictorSize s"
  "evictorList (poll_save V fl s) = evictorList s"
  by (simp_all add: poll_save_def Let_def)

lemma mid_inv_evict [wf_intros]: "mid_inv B s \<Longrightarrow> r < next_item s \<Longrightarrow> mid_inv B (evict r s)"
  unfolding mid_inv_def evict_fields queue_inv_def
  using evict_cache_sub [of r s] list_inv_evict [of s r] by blast

lemma mid_inv_evict_dead:
  "mid_inv B s \<Longrightarrow> \<forall>r \<in> set rs. r < next_item s \<Longrightarrow> mid_inv B (evict_dead locals rs s)"
  by (induction locals rs s rule: evict_dead.induct) (simp_all add: wf_intros)

lemma mid_inv_mark_clean:
  assumes inv: "mid_inv (insert r B) s"
  shows "mid_inv B (mark_clean r s)"
proof (cases "orphan (heap s r)")
  case False
  then show ?thesis
    using mid_inv_settled [OF inv, of Clean] by (simp add: mark_clean_def dirty_def)
next
  case True
  have "list_inv s" using inv by (simp add: mid_inv_def)
  then have "map_of (cache s) i \<noteq> Some r" for i
    using list_inv_cached True by blast
  then have "mid_inv B s" using inv unfolding mid_inv_def by blast
  with True show ?thesis by (simp add: mark_clean_def)
qed

lemma mid_inv_mark_all: "mid_inv (set q \<union> B) s \<Longrightarrow> mid_inv B (fold mark_clean q s)"
proof (induction q arbitrary: s)
  case (Cons r q)
  have "mid_inv (insert r (set q \<union> B)) s" using Cons.prems by simp
  from mid_inv_mark_clean [OF this] Cons.IH show ?case by simp
qed simp


subsection \<open>Eviction by size ends\<close>

lemma length_evict:
  assumes "list_inv s" and "map_of (cache s) i = Some r"
  shows "length (evictorList (evict r s)) < length (evictorList s)"
proof -
  note c = list_inv_cached [OF assms]
  then have node: "(item_pos (heap s r), i) \<in> set (evictorList s)" and no: "\<not> orphan (heap s r)"
    and r: "r < next_item s" by simp_all
  show ?thesis
    unfolding evict_cached [OF assms(1) r no] erase_node_def
    using length_filter_less [OF node] by simp
qed

text \<open>The reason for which the loop gives up: the oldest item is held by somebody.\<close>

definition oldest_in_use :: "'o evictor \<Rightarrow> bool" where
  "oldest_in_use s \<longleftrightarrow>
     (\<exists>r. map_of (cache s) (snd (last (evictorList s))) = Some r \<and> (itemUsage s [] r > 1 \<or> objectUsage s r > 1))"

lemma evict_loop_ok:
  assumes "mid_inv B s" and "length (evictorList s) < fuel"
  shows "\<exists>s' c'. evict_loop fuel c s = Some (s', c') \<and> mid_inv B s' \<and>
     (length (evictorList s') \<le> evictorSize s \<or> oldest_in_use s')"
  using assms
proof (induction fuel c s rule: evict_loop.induct)
  case (1 c s)
  then show ?case by simp
next
  case (2 fuel c s)
  have l: "list_inv s" using "2.prems" by (simp add: mid_inv_def)
  show ?case
  proof (cases "length (evictorList s) > evictorSize s")
    case False
    with "2.prems" show ?thesis by (simp add: not_less)
  next
    case big: True
    then have "evictorList s \<noteq> []" by auto
    then have "snd (last (evictorList s)) \<in> dom (map_of (cache s))"
      using l last_in_set unfolding list_inv_def by blast
    then obtain r where r: "map_of (cache s) (snd (last (evictorList s))) = Some r" by blast
    show ?thesis
    proof (cases "itemUsage s [] r > 1 \<or> objectUsage s r > 1")
      case True
      with r have "oldest_in_use s" by (auto simp: oldest_in_use_def)
      with True r big "2.prems" show ?thesis by simp
    next
      case False
      have "r < next_item s" using list_inv_cached [OF l r] by blast
      with "2.prems"(1) have m: "mid_inv B (evict r s)" by (rule mid_inv_evict)
      have "length (evictorList (evict r s)) < fuel"
        using length_evict [OF l r] "2.prems"(2) by simp
      from "2.IH"(2) [OF big r False m this] big r False show ?thesis by simp
    qed
  qed
qed

lemma evictBySize_ok:
  "mid_inv B s \<Longrightarrow> \<exists>s' c'. evictBySize s = Some (s', c') \<and> mid_inv B s' \<and>
     (length (evictorList s') \<le> evictorSize s \<or> oldest_in_use s')"
  unfolding evictBySize_def by (rule evict_loop_ok) simp_all

lemma evict_loop_fields:
  "evict_loop fuel c s = Some (s', c') \<Longrightarrow>
     modifiedMap s' = modifiedMap s \<and> modifiedQueue s' = modifiedQueue s \<and> dict s' = dict s \<and>
     streamedList s' = streamedList s \<and> evictorSize s' = evictorSize s \<and> next_item s' = next_item s \<and>
     (\<forall>r. item_data (heap s' r) = item_data (heap s r))"
  by (induction fuel c s rule: evict_loop.induct) (auto split: if_splits option.splits)

lemma evict_dead_fields:
  "modifiedMap (evict_dead l rs s) = modifiedMap s \<and> modifiedQueue (evict_dead l rs s) = modifiedQueue s \<and>
   dict (evict_dead l rs s) = dict s \<and> streamedList (evict_dead l rs s) = streamedList s \<and>
   evictorSize (evict_dead l rs s) = evictorSize s \<and> next_item (evict_dead l rs s) = next_item s \<and>
   item_data (heap (evict_dead l rs s) r) = item_data (heap s r)"
  by (induction l rs s rule: evict_dead.induct) simp_all

lemma mark_clean_fields:
  "modifiedMap (fold mark_clean q s) = modifiedMap s \<and> modifiedQueue (fold mark_clean q s) = modifiedQueue s \<and>
   dict (fold mark_clean q s) = dict s \<and> streamedList (fold mark_clean q s) = streamedList s \<and>
   evictorSize (fold mark_clean q s) = evictorSize s \<and> next_item (fold mark_clean q s) = next_item s \<and>
   orphan (heap (fold mark_clean q s) r) = orphan (heap s r)"
  by (induction q arbitrary: s) (simp_all add: mark_clean_def)

lemma poll_finish_mid:
  assumes "mid_inv (set (flushObjects b) \<union> B) s"
    and "\<forall>r \<in> set (deadObjects b) \<union> set (flushObjects b). r < next_item s"
  shows "\<exists>s'. poll_finish b s = Some s' \<and> mid_inv B s' \<and>
     (length (evictorList s') \<le> evictorSize s \<or> oldest_in_use s')"
proof -
  let ?d = "evict_dead (deadObjects b @ flushObjects b) (deadObjects b) s"
  let ?m = "fold mark_clean (flushObjects b) ?d"
  have "mid_inv (set (flushObjects b) \<union> B) ?d"
    using assms by (simp add: mid_inv_evict_dead)
  then have "mid_inv B ?m" by (rule mid_inv_mark_all)
  from evictBySize_ok [OF this]
  obtain s' c' where ev: "evictBySize ?m = Some (s', c')" and inv: "mid_inv B s'"
    and bd: "length (evictorList s') \<le> evictorSize ?m \<or> oldest_in_use s'" by blast
  have "evictorSize ?m = evictorSize s"
    using mark_clean_fields [of "flushObjects b" ?d]
      evict_dead_fields [of "deadObjects b @ flushObjects b" "deadObjects b" s] by simp
  moreover have "poll_finish b s = Some s'" by (simp add: poll_finish_def ev)
  ultimately show ?thesis using inv bd by simp
qed

lemma poll_finish_ok:
  assumes "mid_inv (set (flushObjects b)) s"
    and "\<forall>r \<in> set (deadObjects b) \<union> set (flushObjects b). r < next_item s"
  shows "\<exists>s'. poll_finish b s = Some s' \<and> evictor_inv s' \<and>
     (length (evictorList s') \<le> evictorSize s \<or> oldest_in_use s')"
  using poll_finish_mid [of b "{}" s] assms by (simp add: mid_inv_empty)

lemma stream_item_fields:
  "stream_item V stamp r (s, b) = (s', b') \<Longrightarrow> evictorSize s' = evictorSize s \<and> cache s' = cache s \<and>
     dict s' = dict s \<and> modifiedMap s' = modifiedMap s \<and> modifiedQueue s' = modifiedQueue s \<and>
     saveCompletedOnly s' = saveCompletedOnly s \<and> next_item s' = next_item s"
  by (auto simp: stream_item_def stream_def Let_def split: state.splits if_splits option.splits)

lemma fold_stream_fields:
  "fold (stream_item V stamp) batch (s, b) = (s', b') \<Longrightarrow> evictorSize s' = evictorSize s \<and> cache s' = cache s \<and>
     dict s' = dict s \<and> modifiedMap s' = modifiedMap s \<and> modifiedQueue s' = modifiedQueue s \<and>
     saveCompletedOnly s' = saveCompletedOnly s \<and> next_item s' = next_item s"
proof (induction batch arbitrary: s b)
  case (Cons r rs)
  obtain s1 b1 where st: "stream_item V stamp r (s, b) = (s1, b1)" by fastforce
  with Cons.prems have "fold (stream_item V stamp) rs (s1, b1) = (s', b')" by simp
  from Cons.IH [OF this] stream_item_fields [OF st] show ?case by simp
qed simp

lemma poll_ok:
  assumes inv: "evictor_inv s"
  shows "\<exists>s' did. poll V flushAll now s = Some (s', did) \<and> evictor_inv s' \<and>
     (did \<longrightarrow> length (evictorList s') \<le> evictorSize s \<or> oldest_in_use s') \<and> (\<not> did \<longrightarrow> s' = s)"
proof -
  have rb: "rebuild_list s = s" using inv by (simp add: evictor_inv_def rebuild_never)
  show ?thesis
  proof (cases "modifiedQueue s = [] \<and> streamedList s = []")
    case True
    with rb have "poll V flushAll now s = Some (s, False)" by (simp add: poll_def poll_pop_def)
    with inv show ?thesis by blast
  next
    case False
    obtain s1 batch where pop: "popModified (if flushAll then 0 else batchSize s) s = (s1, batch)" by fastforce
    have pp: "poll_pop flushAll s = (s1, Some batch)" using False pop rb by (auto simp: poll_pop_def)
    obtain s2 b where st: "poll_stream V now batch s1 = (s2, b)" by fastforce
    note p = popModified_ok [OF inv pop]
    then have "mid_inv (set batch) s1" and "\<forall>r \<in> set batch. sole s1 r" by simp_all
    from poll_stream_ok [OF this st] have m: "mid_inv (set (flushObjects b)) (poll_save V flushAll s2)"
      and nx: "\<forall>r \<in> set (deadObjects b) \<union> set (flushObjects b). r < next_item (poll_save V flushAll s2)"
      by (simp_all add: wf_intros)
    have "evictorSize s1 = evictorSize s"
      using pop by (auto simp: popModified_def split: prod.splits)
    moreover have "evictorSize s2 = evictorSize s1"
      using st by (auto simp: poll_stream_def dest: fold_stream_fields split: prod.splits)
    ultimately show ?thesis
      using poll_finish_ok [OF m nx] pp st by (auto simp: poll_def)
  qed
qed

subsection \<open>The evictor as a machine\<close>

datatype 'o evictor_op =
  Op_add 'o ident int | Op_remove ident | Op_locate ident | Op_setDirty ident bool | Op_poll bool int

fun evictor_step :: "'o virtuals \<Rightarrow> 'o evictor \<Rightarrow> 'o evictor_op \<Rightarrow> 'o evictor option" where
  "evictor_step V s (Op_add obj i now) = Some (fst (add V obj i now s))"
| "evictor_step V s (Op_remove i) = Some (fst (remove V i s))"
| "evictor_step V s (Op_locate i) = Some (fst (locate V i s))"
| "evictor_step V s (Op_setDirty i c) = Some (setDirty V i c s)"
| "evictor_step V s (Op_poll fl now) = map_option fst (poll V fl now s)"

lemma evictor_inv_new: "evictor_inv (new_evictor nm props co iext oext)"
  by (simp add: new_evictor_def evictor_inv_def list_inv_def queue_inv_def dirty_inv_def cached_ok_def
      owned_ok_def nodes_ok_def)

lemma evictor_inv_step:
  assumes "evictor_inv s" and "evictor_step V s x = Some s'"
  shows "evictor_inv s'"
proof (cases x)
  case (Op_poll fl now)
  then show ?thesis
    using assms(2) poll_ok [OF assms(1), of V fl now] by auto
qed (use assms in \<open>auto intro: wf_intros\<close>)

interpretation evictor_machine:
  transition_system "new_evictor nm props co iext oext" "evictor_step V" evictor_inv
  for nm props co iext oext V
  by unfold_locales (fact evictor_inv_new, fact evictor_inv_step)

end
