(* ===== verification/Evictor_Props.thy ===== *)
theory Evictor_Props
  imports Evictor
begin

text \<open>
  What the Evictor promises to its clients: the reachable states, the termination and the size bound of
  \<open>poll\<close>, the durability of what it flushes, and the situations in which an update is lost.
\<close>

subsection \<open>Store keys\<close>

lemma identToStr_inj:
  assumes "CHR ''@'' \<notin> set (name i)" and "CHR ''@'' \<notin> set (name j)"
  shows "identToStr i = identToStr j \<longleftrightarrow> i = j"
proof
  assume eq: "identToStr i = identToStr j"
  have "name i = takeWhile (\<lambda>c. c \<noteq> CHR ''@'') (identToStr i)"
    "category i = tl (dropWhile (\<lambda>c. c \<noteq> CHR ''@'') (identToStr i))"
    if "CHR ''@'' \<notin> set (name i)" for i
    using that by (auto simp: identToStr_def takeWhile_append takeWhile_eq_all_conv dropWhile_append)
  from this [OF assms(1)] this [OF assms(2)] eq show "i = j" by (simp add: ident.expand)
qed simp

lemma saveBatch_append:
  "saveBatchToStore (xs @ ys) d = saveBatchToStore ys (saveBatchToStore xs d)"
  by (induction xs arbitrary: d) simp_all

lemma saveBatch_other:
  "\<forall>x \<in> set xs. key x \<noteq> k \<Longrightarrow> map_of (saveBatchToStore xs d) k = map_of d k"
  by (induction xs arbitrary: d) (auto simp: std_simps split: state.splits)

lemma saveBatch_cong:
  "map_of d1 k = map_of d2 k \<Longrightarrow> map_of (saveBatchToStore xs d1) k = map_of (saveBatchToStore xs d2) k"
proof (induction xs arbitrary: d1 d2)
  case (Cons x xs)
  show ?case
    unfolding saveBatchToStore.simps
    by (rule Cons.IH) (use Cons.prems in \<open>simp add: std_simps split: state.splits\<close>)
qed simp

subsection \<open>The course of one poll\<close>

text \<open>What phase 2 appends to \<open>_streamedList\<close> for one item.\<close>

definition entry :: "'o virtuals \<Rightarrow> int \<Rightarrow> bool \<Rightarrow> 'o item \<Rightarrow> streamed list" where
  "entry V t co it =
     (let st = status (item_data it);
          so = \<lparr>key = identToStr (item_ident it), st_status = st, st_data = [], stampAsOf = t\<rparr>
      in if st = Destroyed then [so]
         else if st = Clean \<or> st = Dead \<or> co \<and> \<not> completed (item_data it) then []
         else (case v_marshal V (category (item_ident it)) (stream_stamps t (item_data it)) of
                 None \<Rightarrow> [] | Some bs \<Rightarrow> [so\<lparr>st_data := bs\<rparr>]))"

lemma stream_item_entry:
  "stream_item V t r (s, b) = (s', b') \<Longrightarrow>
     streamedList s' = streamedList s @ entry V t (saveCompletedOnly s) (heap s r) \<and>
     (x \<noteq> r \<longrightarrow> heap s' x = heap s x)"
  by (auto simp: stream_item_def stream_def entry_def Let_def upd_data_def upd_item_def
      split: state.splits if_splits option.splits)

lemma fold_stream_entries:
  "fold (stream_item V t) batch (s, b) = (s', b') \<Longrightarrow> distinct batch \<Longrightarrow>
     streamedList s' = streamedList s @ concat (map (\<lambda>r. entry V t (saveCompletedOnly s) (heap s r)) batch)"
proof (induction batch arbitrary: s b)
  case (Cons r rs)
  obtain s1 b1 where st: "stream_item V t r (s, b) = (s1, b1)" by fastforce
  with Cons.prems have "fold (stream_item V t) rs (s1, b1) = (s', b')" by simp
  note ih = Cons.IH [OF this]
  have "heap s1 x = heap s x" if "x \<in> set rs" for x
    using stream_item_entry [OF st, of x] that Cons.prems(2) by auto
  then have "map (\<lambda>r. entry V t (saveCompletedOnly s1) (heap s1 r)) rs
      = map (\<lambda>r. entry V t (saveCompletedOnly s) (heap s r)) rs"
    using stream_item_fields [OF st] by simp
  with ih stream_item_entry [OF st] Cons.prems(2) show ?case by simp
qed simp

lemma stream_item_saved:
  "stream_item V t r (s, b) = (s', b') \<Longrightarrow> item_status s x = Created \<or> item_status s x = Modified \<Longrightarrow>
     \<not> saveCompletedOnly s \<Longrightarrow>
     item_status s' x = item_status s x \<and> servant (item_data (heap s' x)) = servant (item_data (heap s x)) \<and>
     set (flushObjects b) \<subseteq> set (flushObjects b') \<and> (x = r \<longrightarrow> x \<in> set (flushObjects b'))"
  by (auto simp: stream_item_def stream_def Let_def upd_data_def upd_item_def
      split: state.splits if_splits option.splits)

lemma fold_stream_saved:
  "fold (stream_item V t) batch (s, b) = (s', b') \<Longrightarrow> item_status s x = Created \<or> item_status s x = Modified \<Longrightarrow>
     \<not> saveCompletedOnly s \<Longrightarrow>
     item_status s' x = item_status s x \<and> servant (item_data (heap s' x)) = servant (item_data (heap s x)) \<and>
     set (flushObjects b) \<subseteq> set (flushObjects b') \<and> (x \<in> set batch \<longrightarrow> x \<in> set (flushObjects b'))"
proof (induction batch arbitrary: s b)
  case (Cons r rs)
  obtain s1 b1 where st: "stream_item V t r (s, b) = (s1, b1)" by fastforce
  note one = stream_item_saved [OF st Cons.prems(2,3)]
  have f: "fold (stream_item V t) rs (s1, b1) = (s', b')" using Cons.prems(1) st by simp
  have d: "item_status s1 x = Created \<or> item_status s1 x = Modified"
    using one Cons.prems(2) by auto
  have c: "\<not> saveCompletedOnly s1" using stream_item_fields [OF st] Cons.prems(3) by simp
  from Cons.IH [OF f d c] one show ?case by auto
qed simp

lemma stream_item_no_requeue:
  "stream_item V t r (s, b) = (s', b') \<Longrightarrow> \<not> saveCompletedOnly s \<Longrightarrow> requeObjects b' = requeObjects b"
  by (auto simp: stream_item_def Let_def split: state.splits if_splits prod.splits)

lemma fold_stream_no_requeue:
  "fold (stream_item V t) batch (s, b) = (s', b') \<Longrightarrow> \<not> saveCompletedOnly s \<Longrightarrow> requeObjects b' = requeObjects b"
proof (induction batch arbitrary: s b)
  case (Cons r rs)
  obtain s1 b1 where st: "stream_item V t r (s, b) = (s1, b1)" by fastforce
  with Cons.prems(1) have "fold (stream_item V t) rs (s1, b1) = (s', b')" by simp
  from Cons.IH [OF this] stream_item_no_requeue [OF st] stream_item_fields [OF st] Cons.prems(2)
  show ?case by simp
qed simp

text \<open>Phases 1 and 2 for an evictor that saves incomplete objects too.\<close>

lemma poll_stream_saved:
  assumes "poll_stream V t batch s = (s', b)" and "\<not> saveCompletedOnly s"
  shows "cache s' = cache s \<and> modifiedMap s' = modifiedMap s \<and> modifiedQueue s' = modifiedQueue s \<and>
     dict s' = dict s \<and>
     (distinct batch \<longrightarrow>
        streamedList s' = streamedList s @ concat (map (\<lambda>r. entry V t False (heap s r)) batch)) \<and>
     (\<forall>r \<in> set batch. item_status s r = Created \<or> item_status s r = Modified \<longrightarrow>
        r \<in> set (flushObjects b) \<and> item_status s' r = item_status s r \<and>
        servant (item_data (heap s' r)) = servant (item_data (heap s r)))"
proof -
  let ?b0 = "\<lparr>deadObjects = [], flushObjects = [], requeObjects = []\<rparr>"
  obtain s1 b1 where f: "fold (stream_item V t) batch (s, ?b0) = (s1, b1)" by fastforce
  have "requeObjects b1 = []" using fold_stream_no_requeue [OF f assms(2)] by simp
  then have "s' = s1" and "flushObjects b = flushObjects b1"
    using assms(1) f by (auto simp: poll_stream_def)
  then show ?thesis
    using fold_stream_fields [OF f] fold_stream_entries [OF f] fold_stream_saved [OF f] assms(2) by auto
qed

lemma pop_loop_idents:
  "pop_loop mx c q mm = (q', mm', batch) \<Longrightarrow> \<forall>i r. map_of mm i = Some r \<longrightarrow> f r = i \<Longrightarrow>
     distinct (map f batch) \<and> f ` set batch \<subseteq> dom (map_of mm) \<and> (mx = 0 \<longrightarrow> q' = [])"
proof (induction mx c q mm arbitrary: q' mm' batch rule: pop_loop.induct)
  case (2 mx c i q mm)
  show ?case
  proof (cases "mx = 0 \<or> c < mx")
    case go: True
    show ?thesis
    proof (cases "map_of mm i")
      case None
      with "2.prems"(1) go have "pop_loop mx c q mm = (q', mm', batch)" by simp
      from "2.IH"(1) [OF go None this "2.prems"(2)] show ?thesis .
    next
      case (Some r)
      obtain q1 mm1 b1 where rec: "pop_loop mx (Suc c) q (smap_erase i mm) = (q1, mm1, b1)"
        by (cases "pop_loop mx (Suc c) q (smap_erase i mm)") auto
      have e: "q' = q1" "batch = r # b1" using "2.prems"(1) go Some rec by auto
      have "\<forall>j r. map_of (smap_erase i mm) j = Some r \<longrightarrow> f r = j"
        using "2.prems"(2) by (simp add: std_simps)
      note ih = "2.IH"(2) [OF go Some rec this]
      have "f ` set b1 \<subseteq> dom (map_of mm) - {i}" using ih by (simp add: smap.dom_delete)
      moreover have "f r = i" using "2.prems"(2) Some by blast
      ultimately show ?thesis using ih Some unfolding e by auto
    qed
  qed (use 2 in auto)
qed simp

text \<open>Phase 1 of a full flush takes every queued item, each identity once.\<close>

lemma popModified_all:
  assumes inv: "evictor_inv s" and pop: "popModified 0 s = (s', batch)"
  shows "distinct (map (\<lambda>r. item_ident (heap s r)) batch) \<and>
     (\<lambda>r. item_ident (heap s r)) ` set batch \<subseteq> dom (map_of (modifiedMap s)) \<and>
     map_of (modifiedMap s') = Map.empty \<and> modifiedQueue s' = [] \<and>
     (\<forall>i r. map_of (modifiedMap s) i = Some r \<longrightarrow> r \<in> set batch)"
proof -
  obtain q' mm' where pl: "pop_loop 0 0 (modifiedQueue s) (modifiedMap s) = (q', mm', batch)"
    and s': "s' = s\<lparr>modifiedQueue := q', modifiedMap := mm'\<rparr>"
    using pop by (auto simp: popModified_def split: prod.splits)
  have q: "queue_inv s" using inv by (simp add: evictor_inv_def)
  have ids: "\<forall>i r. map_of (modifiedMap s) i = Some r \<longrightarrow> item_ident (heap s r) = i"
    and "dom (map_of (modifiedMap s)) \<subseteq> set (modifiedQueue s)" and "smap_wf (modifiedMap s)"
    using q unfolding queue_inv_def by blast+
  note maps = pop_loop_maps [OF pl this(3,2)]
  note dist = pop_loop_idents [OF pl ids]
  have e: "map_of mm' = Map.empty" using maps dist by simp
  then have "r \<in> set batch" if "map_of (modifiedMap s) i = Some r" for i r
    using maps that by (metis option.distinct(1))
  with dist e show ?thesis by (simp add: s')
qed

text \<open>The effect of phase 4 on an item whose status is not dead.\<close>

lemma evict_orphan_iff: "orphan (heap (evict r s) x) \<longleftrightarrow> orphan (heap s x) \<or> x = r"
  by (auto simp: evict_def upd_item_def Let_def)

lemma evict_dead_keeps:
  "item_status s r \<noteq> Dead \<Longrightarrow> orphan (heap (evict_dead l rs s) r) = orphan (heap s r)"
proof (induction l rs s rule: evict_dead.induct)
  case (2 l x rs s)
  show ?case
  proof (cases "orphan (heap s x) \<or> item_status s x \<noteq> Dead \<or> itemUsage s l x > 2")
    case False
    then have "x \<noteq> r" using "2.prems" by auto
    with 2 False show ?thesis by (simp add: evict_orphan_iff)
  qed (use 2 in auto)
qed simp

lemma mark_clean_status:
  "\<not> orphan (heap s r) \<Longrightarrow> item_status (fold mark_clean q s) r = (if r \<in> set q then Clean else item_status s r)
     \<and> servant (item_data (heap (fold mark_clean q s) r)) = servant (item_data (heap s r))"
  by (induction q arbitrary: s) (auto simp: mark_clean_def)

lemma poll_finish_effect:
  assumes "poll_finish b s = Some s'"
  shows "modifiedMap s' = modifiedMap s \<and> modifiedQueue s' = modifiedQueue s \<and> dict s' = dict s \<and>
     streamedList s' = streamedList s \<and>
     (r \<in> set (flushObjects b) \<and> \<not> orphan (heap s r) \<and> item_status s r \<noteq> Dead \<longrightarrow>
        item_status s' r = Clean \<and> servant (item_data (heap s' r)) = servant (item_data (heap s r)))"
proof -
  let ?l = "deadObjects b @ flushObjects b"
  let ?d = "evict_dead ?l (deadObjects b) s"
  let ?m = "fold mark_clean (flushObjects b) ?d"
  obtain c where ev: "evict_loop (Suc (length (evictorList ?m))) 0 ?m = Some (s', c)"
    using assms by (auto simp: poll_finish_def evictBySize_def)
  show ?thesis
    using evict_loop_fields [OF ev] mark_clean_fields [of "flushObjects b" ?d r]
      evict_dead_fields [of ?l "deadObjects b" s r] evict_dead_keeps [of s r ?l "deadObjects b"]
      mark_clean_status [of ?d r "flushObjects b"]
    by simp
qed


lemma entry_key: "x \<in> set (entry V t co it) \<Longrightarrow> key x = identToStr (item_ident it)"
  by (auto simp: entry_def Let_def split: if_splits option.splits)

text \<open>A batch without duplicate identities: the store's value for one of them is decided by its own entry.\<close>

lemma saveBatch_entry:
  assumes r: "r \<in> set batch" and dist: "distinct (map (\<lambda>x. item_ident (h x)) batch)"
    and names: "\<forall>x \<in> set batch. CHR ''@'' \<notin> set (name (item_ident (h x)))"
  shows "map_of (saveBatchToStore (l @ concat (map (\<lambda>x. entry V t co (h x)) batch)) d) (identToStr (item_ident (h r)))
     = map_of (saveBatchToStore (entry V t co (h r)) (saveBatchToStore l d)) (identToStr (item_ident (h r)))"
proof -
  let ?k = "identToStr (item_ident (h r))" and ?e = "\<lambda>x. entry V t co (h x)"
  obtain B1 B2 where b: "batch = B1 @ r # B2" using split_list [OF r] by blast
  have other: "\<forall>e \<in> set (concat (map ?e B)). key e \<noteq> ?k" if "B = B1 \<or> B = B2" for B
  proof -
    have "item_ident (h r) \<notin> (\<lambda>x. item_ident (h x)) ` (set B1 \<union> set B2)"
      using dist unfolding b by (simp add: image_Un)
    then have "item_ident (h x) \<noteq> item_ident (h r)" if "x \<in> set B" for x
      using that \<open>B = B1 \<or> B = B2\<close> by (metis UnI1 UnI2 imageI)
    moreover have "x \<in> set batch" if "x \<in> set B" for x
      using that \<open>B = B1 \<or> B = B2\<close> unfolding b by auto
    ultimately have "identToStr (item_ident (h x)) \<noteq> ?k" if "x \<in> set B" for x
      using that names r by (simp add: identToStr_inj)
    then show ?thesis by (auto dest: entry_key)
  qed
  have "map_of (saveBatchToStore (l @ concat (map ?e batch)) d) ?k
      = map_of (saveBatchToStore (?e r) (saveBatchToStore (concat (map ?e B1)) (saveBatchToStore l d))) ?k"
    unfolding b using saveBatch_other [OF other [of B2]] by (simp add: saveBatch_append)
  also have "\<dots> = map_of (saveBatchToStore (?e r) (saveBatchToStore l d)) ?k"
    by (rule saveBatch_cong) (use saveBatch_other [OF other [of B1]] in simp)
  finally show ?thesis .
qed

lemma full_poll:
  assumes inv: "evictor_inv s" and co: "\<not> saveCompletedOnly s"
    and c: "map_of (cache s) i = Some r" and d: "dirty (item_status s r)"
  shows "\<exists>s' batch. poll V True t s = Some (s', True) \<and> r \<in> set batch \<and>
     distinct (map (\<lambda>x. item_ident (heap s x)) batch) \<and>
     (\<lambda>x. item_ident (heap s x)) ` set batch \<subseteq> dom (map_of (modifiedMap s)) \<and>
     dict s' = v_save V (streamedList s @ concat (map (\<lambda>x. entry V t False (heap s x)) batch)) (dict s) \<and>
     modifiedQueue s' = [] \<and> map_of (modifiedMap s') = Map.empty \<and> streamedList s' = [] \<and>
     (item_status s r \<noteq> Destroyed \<longrightarrow> item_status s' r = Clean \<and>
        servant (item_data (heap s' r)) = servant (item_data (heap s r)))"
proof -
  have l: "list_inv s" using inv by (simp add: evictor_inv_def)
  have m: "map_of (modifiedMap s) i = Some r"
    using inv c d unfolding evictor_inv_def dirty_inv_def by blast
  then have "modifiedQueue s \<noteq> []"
    using inv unfolding evictor_inv_def queue_inv_def by force
  obtain s1 batch where pop: "popModified 0 s = (s1, batch)" by fastforce
  have pp: "poll_pop True s = (s1, Some batch)"
    using pop rebuild_never [OF l] \<open>modifiedQueue s \<noteq> []\<close> by (simp add: poll_pop_def)
  obtain s2 b where st: "poll_stream V t batch s1 = (s2, b)" by fastforce
  let ?s3 = "poll_save V True s2"
  note all = popModified_all [OF inv pop] and pm = popModified_ok [OF inv pop]
  have co1: "\<not> saveCompletedOnly s1"
    using pop co by (auto simp: popModified_def split: prod.splits)
  note saved = poll_stream_saved [OF st co1]
  have "distinct batch" using all by (simp add: distinct_map)
  obtain s' where p: "poll V True t s = Some (s', True)" and fin: "poll_finish b ?s3 = Some s'"
    using poll_ok [OF inv, of V True t] pp st by (auto simp: poll_def)
  note eff = poll_finish_effect [OF fin, of r]
  have r: "r \<in> set batch" using all m by blast
  have clean: "item_status s' r = Clean \<and> servant (item_data (heap s' r)) = servant (item_data (heap s r))"
    if "item_status s r \<noteq> Destroyed"
  proof -
    have cm: "item_status s1 r = Created \<or> item_status s1 r = Modified"
      using that d pm by (auto simp: dirty_def)
    have "mid_inv (set batch) s1" and "\<forall>x \<in> set batch. sole s1 x" using pm by simp_all
    then have "list_inv s2" using poll_stream_ok [OF _ _ st] by (simp add: mid_inv_def)
    moreover have "map_of (cache s2) i = Some r" using saved c pm by simp
    ultimately have "\<not> orphan (heap s2 r)" using list_inv_cached by blast
    then show ?thesis using eff saved r cm pm by auto
  qed
  have "dict s' = v_save V (streamedList s @ concat (map (\<lambda>x. entry V t False (heap s x)) batch)) (dict s)"
    and "streamedList s' = []"
    using eff saved \<open>distinct batch\<close> pm by (simp_all add: poll_save_def Let_def)
  moreover have "modifiedQueue s' = []" and "map_of (modifiedMap s') = Map.empty"
    using eff saved all by (simp_all add: poll_save_def Let_def)
  ultimately show ?thesis using p r clean all by blast
qed


subsection \<open>A state for the witnesses\<close>

text \<open>One modified object \<open>a\<close> of category \<open>c\<close>, cached and queued.\<close>

definition sample_item :: "nat item" where
  "sample_item = \<lparr>item_ident = Ident ''c'' ''a'',
     item_data = \<lparr>servant = Some 7, status = Modified, stampCreated = 1, stampLastSave = 0, completed = True\<rparr>,
     item_pos = 0, orphan = False\<rparr>"

definition sample :: "nat evictor" where
  "sample = (new_evictor ''e'' [] False (\<lambda>_. 0) (\<lambda>_. 0))\<lparr>heap := (\<lambda>_. sample_item), next_item := 1, next_node := 1,
     cache := [(Ident ''c'' ''a'', 0)], evictorList := [(0, Ident ''c'' ''a'')],
     modifiedMap := [(Ident ''c'' ''a'', 0)], modifiedQueue := [Ident ''c'' ''a''], dict := [(''a@c'', [1])]\<rparr>"

lemmas sample_defs = sample_def sample_item_def new_evictor_def

lemma sample_inv: "evictor_inv sample"
  by (simp add: sample_defs evictor_inv_def list_inv_def queue_inv_def dirty_inv_def cached_ok_def
      owned_ok_def nodes_ok_def)

definition sample_virtuals :: "bytes option \<Rightarrow> nat virtuals" where
  "sample_virtuals m = base_virtuals\<lparr>v_marshal := (\<lambda>_ _. m)\<rparr>"

lemma sample_facts:
  "map_of (cache sample) (Ident ''c'' ''a'') = Some 0" "item_status sample 0 = Modified"
  "\<not> saveCompletedOnly sample" "servant (item_data (heap sample 0)) = Some 7"
  "dom (map_of (modifiedMap sample)) = {Ident ''c'' ''a''}" "streamedList sample = []"
  "dict sample = [(''a@c'', [1])]" "item_ident (heap sample 0) = Ident ''c'' ''a''"
  by (simp_all add: sample_defs)

lemma sample_virtuals_facts [simp]:
  "v_marshal (sample_virtuals m) c d = m" "v_save (sample_virtuals m) = saveBatchToStore"
  "v_load (sample_virtuals m) = loadFromStore"
  by (simp_all add: sample_virtuals_def base_virtuals_def)

subsection \<open>Properties\<close>

text \<open>
  C6. Whatever sequence of additions, removals, look-ups, modifications and polls a new Evictor goes
  through, with any virtual functions: every cached item is live and its stored list iterator points at
  its own node; the eviction list holds each cached identity once and is never rebuilt by \<open>poll\<close>; every
  queued item is in the modified queue; and every cached item with unsaved changes is queued.
\<close>

theorem evictor_reachable_invariant:
  assumes "run_ops (evictor_step V) (new_evictor nm props co iext oext) ops = Some s"
  shows "evictor_inv s \<and> rebuild_list s = s"
proof -
  have "evictor_inv s" using assms by (rule evictor_machine.reachable_inv)
  then show ?thesis by (simp add: evictor_inv_def rebuild_never)
qed

theorem evictor_reachable_invariant_witness:
  "\<exists>s. run_ops (evictor_step (sample_virtuals (Some [2]))) (new_evictor ''e'' [] False (\<lambda>_. 0) (\<lambda>_. 0))
         [Op_add (7::nat) (Ident ''c'' ''a'') 5, Op_locate (Ident ''c'' ''a'')] = Some s \<and>
       evictor_inv s \<and> modifiedQueue s = [Ident ''c'' ''a'']"
proof -
  let ?run = "run_ops (evictor_step (sample_virtuals (Some [2]))) (new_evictor ''e'' [] False (\<lambda>_. 0) (\<lambda>_. 0))
         [Op_add (7::nat) (Ident ''c'' ''a'') 5, Op_locate (Ident ''c'' ''a'')]"
  have "\<exists>s. ?run = Some s \<and> modifiedQueue s = [Ident ''c'' ''a'']"
    by (simp add: add_def locate_def pin_def eval_nat_numeral loadFromStore_def new_evictor_def new_item_def
        add_status_def queueModified_def upd_data_def upd_item_def Let_def)
  then obtain s where s: "?run = Some s" "modifiedQueue s = [Ident ''c'' ''a'']" by blast
  with evictor_reachable_invariant [OF s(1)] show ?thesis by blast
qed

text \<open>
  \<open>poll\<close> always returns, the loop that evicts by size included. It reports no work only when it
  changed nothing; when it worked, the cache is afterwards within its configured size, unless the oldest
  item is still held by somebody.
\<close>

theorem poll_total:
  assumes "evictor_inv s"
  shows "\<exists>s' did. poll V flushAll t s = Some (s', did) \<and> evictor_inv s' \<and> (\<not> did \<longrightarrow> s' = s) \<and>
     (did \<longrightarrow> length (cache s') \<le> evictorSize s \<or> oldest_in_use s')"
proof -
  obtain s' did where p: "poll V flushAll t s = Some (s', did)" and i: "evictor_inv s'"
    and r: "did \<longrightarrow> length (evictorList s') \<le> evictorSize s \<or> oldest_in_use s'" "\<not> did \<longrightarrow> s' = s"
    using poll_ok [OF assms, of V flushAll t] by blast
  have "list_inv s'" using i by (simp add: evictor_inv_def)
  from length_evictorList [OF this] r have
    "did \<longrightarrow> length (cache s') \<le> evictorSize s \<or> oldest_in_use s'" by simp
  with p i r(2) show ?thesis by blast
qed

theorem poll_total_witness:
  "evictor_inv sample \<and> (\<exists>s' did. poll (sample_virtuals (Some [2])) False 5 sample = Some (s', did) \<and> evictor_inv s')"
  using sample_inv poll_total [OF sample_inv, of "sample_virtuals (Some [2])" False 5] by blast

text \<open>
  C7. A full flush is durable: when nothing interleaves, every cached object with unsaved changes is in
  the store after \<open>poll(true)\<close>, with the bytes that \<open>marshal\<close> made of it (or absent when it was
  removed), its item is clean, and both queues are empty. The hypothesis on the names keeps the store
  keys apart.
\<close>

theorem poll_flushes_durably:
  assumes "evictor_inv s" and "v_save V = saveBatchToStore" and "\<not> saveCompletedOnly s"
    and "\<forall>j \<in> dom (map_of (modifiedMap s)). CHR ''@'' \<notin> set (name j)"
    and "map_of (cache s) i = Some r" and "dirty (item_status s r)"
    and "item_status s r \<noteq> Destroyed \<longrightarrow>
           v_marshal V (category i) (stream_stamps t (item_data (heap s r))) = Some bs"
  shows "\<exists>s'. poll V True t s = Some (s', True) \<and>
     map_of (dict s') (identToStr i) = (if item_status s r = Destroyed then None else Some bs) \<and>
     (item_status s r \<noteq> Destroyed \<longrightarrow> item_status s' r = Clean) \<and> modifiedQueue s' = [] \<and> streamedList s' = []"
proof -
  obtain s' batch where p: "poll V True t s = Some (s', True)" and r: "r \<in> set batch"
    and dist: "distinct (map (\<lambda>x. item_ident (heap s x)) batch)"
    and ids: "(\<lambda>x. item_ident (heap s x)) ` set batch \<subseteq> dom (map_of (modifiedMap s))"
    and d: "dict s' = saveBatchToStore (streamedList s @ concat (map (\<lambda>x. entry V t False (heap s x)) batch)) (dict s)"
    and rest: "modifiedQueue s' = []" "streamedList s' = []"
      "item_status s r \<noteq> Destroyed \<longrightarrow> item_status s' r = Clean"
    using full_poll [OF assms(1,3,5,6), of V t] assms(2) by auto
  have i: "item_ident (heap s r) = i"
    using assms(1,5) list_inv_cached unfolding evictor_inv_def by blast
  have "\<forall>x \<in> set batch. CHR ''@'' \<notin> set (name (item_ident (heap s x)))"
    using ids assms(4) by blast
  from saveBatch_entry [OF r dist this, of "streamedList s" V t False "dict s"]
  have "map_of (dict s') (identToStr i) =
      map_of (saveBatchToStore (entry V t False (heap s r)) (saveBatchToStore (streamedList s) (dict s))) (identToStr i)"
    by (simp add: d i)
  also have "\<dots> = (if item_status s r = Destroyed then None else Some bs)"
    using assms(6,7) by (auto simp: entry_def i Let_def std_simps dirty_def)
  finally show ?thesis using p rest by blast
qed

theorem poll_flushes_durably_witness:
  "\<exists>s'. poll (sample_virtuals (Some [2])) True 5 sample = Some (s', True) \<and>
     map_of (dict s') ''a@c'' = Some [2]"
  using poll_flushes_durably [of sample "sample_virtuals (Some [2])" "Ident ''c'' ''a''" 0 5 "[2]"]
  by (simp add: sample_inv sample_facts dirty_def identToStr_def) blast


text \<open>
  When \<open>marshal\<close> fails for a modified object, a full flush still marks its item clean and forgets it:
  the item is no longer queued, nothing was streamed for it, and the store keeps the old contents. The
  update is lost although the item claims to agree with the store.
\<close>

theorem marshal_failure_drops_update:
  assumes "evictor_inv s" and "v_save V = saveBatchToStore" and "\<not> saveCompletedOnly s"
    and "\<forall>j \<in> dom (map_of (modifiedMap s)). CHR ''@'' \<notin> set (name j)"
    and "map_of (cache s) i = Some r" and "item_status s r = Created \<or> item_status s r = Modified"
    and "v_marshal V (category i) (stream_stamps t (item_data (heap s r))) = None"
    and "streamedList s = []"
  shows "\<exists>s'. poll V True t s = Some (s', True) \<and> item_status s' r = Clean \<and>
     servant (item_data (heap s' r)) = servant (item_data (heap s r)) \<and>
     map_of (modifiedMap s') i = None \<and> modifiedQueue s' = [] \<and> streamedList s' = [] \<and>
     map_of (dict s') (identToStr i) = map_of (dict s) (identToStr i)"
proof -
  have dirty: "dirty (item_status s r)" "item_status s r \<noteq> Destroyed"
    using assms(6) by (auto simp: dirty_def)
  obtain s' batch where p: "poll V True t s = Some (s', True)" and r: "r \<in> set batch"
    and dist: "distinct (map (\<lambda>x. item_ident (heap s x)) batch)"
    and ids: "(\<lambda>x. item_ident (heap s x)) ` set batch \<subseteq> dom (map_of (modifiedMap s))"
    and d: "dict s' = saveBatchToStore (streamedList s @ concat (map (\<lambda>x. entry V t False (heap s x)) batch)) (dict s)"
    and rest: "modifiedQueue s' = []" "streamedList s' = []" "map_of (modifiedMap s') = Map.empty"
      "item_status s' r = Clean" "servant (item_data (heap s' r)) = servant (item_data (heap s r))"
    using full_poll [OF assms(1,3,5) dirty(1), of V t] assms(2) dirty(2) by auto
  have i: "item_ident (heap s r) = i"
    using assms(1,5) list_inv_cached unfolding evictor_inv_def by blast
  have "\<forall>x \<in> set batch. CHR ''@'' \<notin> set (name (item_ident (heap s x)))"
    using ids assms(4) by blast
  from saveBatch_entry [OF r dist this, of "streamedList s" V t False "dict s"]
  have "map_of (dict s') (identToStr i) = map_of (saveBatchToStore (entry V t False (heap s r)) (dict s)) (identToStr i)"
    by (simp add: d i assms(8))
  also have "entry V t False (heap s r) = []"
    using assms(6,7) by (auto simp: entry_def i)
  finally show ?thesis using p rest by simp
qed

theorem marshal_failure_drops_update_witness:
  "\<exists>s'. poll (sample_virtuals None) True 5 sample = Some (s', True) \<and> item_status s' 0 = Clean \<and>
     servant (item_data (heap s' 0)) = Some 7 \<and> map_of (dict s') ''a@c'' = Some [1]"
  using marshal_failure_drops_update [of sample "sample_virtuals None" "Ident ''c'' ''a''" 0 5]
  by (simp add: sample_inv sample_facts dirty_def identToStr_def) blast

text \<open>
  A removal that runs between the streaming and the finishing phase of a \<open>poll\<close> is lost. \<open>remove\<close>
  does not queue a modified item ("either on the queue already or about to be saved"), but the batch has
  already streamed it as modified; the last phase then overwrites the status destroyed by clean. The
  client got its object back, yet the store is what it would be without the removal, the item is clean,
  and nothing is queued that could ever delete the object.
\<close>

theorem concurrent_remove_lost:
  assumes inv: "evictor_inv s" and co: "\<not> saveCompletedOnly s"
    and c: "map_of (cache s) i = Some r" and md: "item_status s r = Modified"
    and sv: "servant (item_data (heap s r)) = Some obj"
    and pp: "poll_pop flushAll s = (s1, Some batch)" and r: "r \<in> set batch"
    and st: "poll_stream V t batch s1 = (s2, b)"
    and rem: "remove V i s2 = (s3, res)"
  shows "res = Removed obj \<and> item_status s3 r = Destroyed \<and>
     (\<exists>s4. poll_finish b (poll_save V flushAll s3) = Some s4 \<and>
       item_status s4 r = Clean \<and> map_of (modifiedMap s4) i = None \<and>
       dict s4 = dict (poll_save V flushAll s2) \<and> streamedList s4 = streamedList (poll_save V flushAll s2))"
proof -
  have rb: "rebuild_list s = s" using inv by (simp add: evictor_inv_def rebuild_never)
  obtain mx where pop: "popModified mx s = (s1, batch)"
    using pp rb by (auto simp: poll_pop_def split: if_splits prod.splits)
  then obtain q' mm' where pl: "pop_loop mx 0 (modifiedQueue s) (modifiedMap s) = (q', mm', batch)"
    and s1: "s1 = s\<lparr>modifiedQueue := q', modifiedMap := mm'\<rparr>"
    by (auto simp: popModified_def split: prod.splits)
  note saved = poll_stream_saved [OF st]
  have qi: "queue_inv s" using inv by (simp add: evictor_inv_def)
  then have wf: "smap_wf (modifiedMap s)" and "dom (map_of (modifiedMap s)) \<subseteq> set (modifiedQueue s)"
    unfolding queue_inv_def by blast+
  from pop_loop_maps [OF pl this] r obtain j where j: "map_of (modifiedMap s) j = Some r" "map_of mm' j = None"
    by blast
  then have "j = i"
    using qi inv c list_inv_cached unfolding queue_inv_def evictor_inv_def by blast
  then have popped: "map_of (modifiedMap s2) i = None" using saved co j by (simp add: s1)
  have mid: "mid_inv (set (flushObjects b)) s2"
    and nx: "\<forall>r \<in> set (deadObjects b) \<union> set (flushObjects b). r < next_item s2"
    using poll_stream_ok [OF _ _ st] popModified_ok [OF inv pop] by simp_all
  then have m2: "list_inv s2" by (simp add: mid_inv_def)
  have c2: "map_of (cache s2) i = Some r" using saved co c by (simp add: s1)
  then have no: "\<not> orphan (heap s2 r)" using m2 list_inv_cached by blast
  have r2: "r \<in> set (flushObjects b)" "item_status s2 r = Modified" "servant (item_data (heap s2 r)) = Some obj"
    using saved co r md sv by (simp_all add: s1)
  have "s3 = requeue r (upd_data r (\<lambda>d. d\<lparr>status := Destroyed, servant := None\<rparr>) s2)" and res: "res = Removed obj"
    using rem r2 by (auto simp: remove_def pin_hit [OF c2])
  note s3 = this(1)
  have "item_status (poll_save V flushAll s3) r \<noteq> Dead" and "\<not> orphan (heap (poll_save V flushAll s3) r)"
    using no by (simp_all add: s3)
  moreover have "mid_inv UNIV s3"
    using mid r2(1) nx by (simp add: s3 mid_inv_def wf_intros)
  then have "mid_inv (set (flushObjects b) \<union> UNIV) (poll_save V flushAll s3)"
    by (simp add: mid_inv_save)
  then obtain s4 where "poll_finish b (poll_save V flushAll s3) = Some s4"
    using poll_finish_mid [of b UNIV "poll_save V flushAll s3"] nx by (auto simp: s3)
  note fin = this
  ultimately show ?thesis
    using poll_finish_effect [OF fin, of r] r2(1) popped res by (simp add: s3 poll_save_def Let_def)
qed

theorem concurrent_remove_lost_witness:
  "\<exists>s1 batch s2 b s3 s4. poll_pop False sample = (s1, Some batch) \<and>
     poll_stream (sample_virtuals (Some [2])) 5 batch s1 = (s2, b) \<and>
     remove (sample_virtuals (Some [2])) (Ident ''c'' ''a'') s2 = (s3, Removed 7) \<and>
     poll_finish b (poll_save (sample_virtuals (Some [2])) False s3) = Some s4 \<and>
     item_status s4 0 = Clean \<and> map_of (modifiedMap s4) (Ident ''c'' ''a'') = None"
proof -
  let ?V = "sample_virtuals (Some [2])" and ?i = "Ident ''c'' ''a''"
  have "snd (poll_pop False sample) = Some [0]"
    by (simp add: poll_pop_def rebuild_list_def popModified_def sample_defs smap_erase_def)
  then obtain s1 where s1: "poll_pop False sample = (s1, Some [0])"
    by (cases "poll_pop False sample") simp
  obtain s2 b where s2: "poll_stream ?V 5 [0] s1 = (s2, b)" by fastforce
  obtain s3 res where s3: "remove ?V ?i s2 = (s3, res)" by fastforce
  from concurrent_remove_lost [OF sample_inv sample_facts(3,1,2,4) s1 _ s2 s3] s1 s2 s3
  show ?thesis by auto
qed


text \<open>
  An object added under a new identity is not cached: \<open>pin\<close> returns NULL and the new item stays an
  orphan, known to the modified queue only. Until a \<open>poll\<close> has saved it, \<open>locate\<close> and \<open>remove\<close> both
  report that the object does not exist.
\<close>

theorem added_object_not_found:
  assumes "map_of (cache s) i = None" and "\<And>k. fst (v_load V k (dict s) (identToStr i)) = eeNotFound"
    and "add V obj i now s = (s', r)"
  shows "item_status s' r = Created \<and> servant (item_data (heap s' r)) = Some obj \<and>
     map_of (modifiedMap s') i = Some r \<and> cache s' = cache s \<and> evictorList s' = evictorList s \<and>
     snd (locate V i s') = None \<and> snd (remove V i s') = RemoveNull"
proof -
  have pin_none: "pin V i None u = (u\<lparr>lastErr := eeNotFound\<rparr>, None)"
    if "map_of (cache u) i = None" "dict u = dict s" for u :: "'a evictor"
    using that assms(2) [of 0]
    by (cases "v_load V 0 (dict s) (identToStr i)") (simp add: pin_def eval_nat_numeral)
  let ?s2 = "upd_data (next_item s) (\<lambda>d. d\<lparr>status := Dead\<rparr>) (fst (new_item i (s\<lparr>lastErr := eeNotFound\<rparr>)))"
  have s': "s' = requeue r (add_status obj now r ?s2)" and r: "r = next_item s"
    using assms(3) pin_none [OF assms(1) refl] by (auto simp: add_def new_item_def Let_def)
  have fields: "cache s' = cache s" "dict s' = dict s" "evictorList s' = evictorList s"
    "item_status s' r = Created" "servant (item_data (heap s' r)) = Some obj" "map_of (modifiedMap s') i = Some r"
    unfolding s' r
    by (simp_all add: add_status_def new_item_def requeue_def upd_data_def upd_item_def queueModified_def Let_def std_simps)
  with pin_none [of s'] assms(1) have "pin V i None s' = (s'\<lparr>lastErr := eeNotFound\<rparr>, None)" by simp
  with fields show ?thesis by (simp add: locate_def remove_def)
qed

theorem added_object_not_found_witness:
  "let s' = fst (add (sample_virtuals None) 9 (Ident ''c'' ''new'') 5 sample)
   in modifiedQueue sample = [Ident ''c'' ''a''] \<and>
      snd (locate (sample_virtuals None) (Ident ''c'' ''new'') s') = None"
proof -
  have "fst (v_load (sample_virtuals None) k (dict sample) (identToStr (Ident ''c'' ''new''))) = eeNotFound" for k
    by (simp add: loadFromStore_def sample_facts identToStr_def)
  moreover obtain s' r where a: "add (sample_virtuals None) 9 (Ident ''c'' ''new'') 5 sample = (s', r)" by fastforce
  ultimately have "snd (locate (sample_virtuals None) (Ident ''c'' ''new'') s') = None"
    using added_object_not_found [OF _ _ a] by (simp add: sample_defs)
  then show ?thesis by (simp add: a) (simp add: sample_defs)
qed

text \<open>The clients' view of the cached objects.\<close>

definition visible :: "'o evictor \<Rightarrow> ident \<Rightarrow> 'o option" where
  "visible s i = (case map_of (cache s) i of
      None \<Rightarrow> None
    | Some r \<Rightarrow> if item_status s r = Destroyed \<or> item_status s r = Dead then None
                else servant (item_data (heap s r)))"

lemma visible_requeue [simp]: "visible (requeue r s) = visible s"
  by (auto simp: visible_def fun_eq_iff split: option.splits)

lemma visible_queueModified [simp]: "visible (queueModified r s) = visible s"
  by (auto simp: visible_def fun_eq_iff split: option.splits)

lemma visible_upd:
  assumes inv: "list_inv s" and c: "map_of (cache s) i = Some r"
  shows "visible (upd_data r f s) = (visible s)(i :=
     (let d = f (item_data (heap s r)) in if status d = Destroyed \<or> status d = Dead then None else servant d))"
proof
  fix j
  have "r' \<noteq> r" if "map_of (cache s) j = Some r'" "j \<noteq> i" for r'
    using that list_inv_cached [OF inv c] list_inv_cached [OF inv that(1)] by auto
  then show "visible (upd_data r f s) j = ((visible s)(i :=
     (let d = f (item_data (heap s r)) in if status d = Destroyed \<or> status d = Dead then None else servant d))) j"
    using c by (auto simp: visible_def Let_def split: option.splits)
qed

lemma visible_add_status:
  assumes inv: "list_inv s" and c: "map_of (cache s) i = Some r"
  shows "visible (add_status obj now r s) = (visible s)(i \<mapsto> obj)"
  using visible_upd [OF inv c] by (simp add: add_status_def Let_def split: state.splits)

text \<open>
  C8. On cached objects the Evictor implements a map from identities to objects: \<open>add\<close> is the update of
  that map, \<open>remove\<close> deletes the key and returns the object exactly when there was one, \<open>locate\<close> returns
  what the map holds, and neither \<open>locate\<close> nor \<open>setDirty\<close> changes it. No operation touches another key.
\<close>

theorem cached_objects_form_a_map:
  assumes inv: "evictor_inv s" and c: "map_of (cache s) i = Some r"
  shows "visible (fst (add V obj i now s)) = (visible s)(i \<mapsto> obj) \<and>
     visible (fst (remove V i s)) = (visible s)(i := None) \<and>
     (\<forall>x. snd (remove V i s) = Removed x \<longleftrightarrow> visible s i = Some x) \<and>
     snd (locate V i s) = visible s i \<and> visible (fst (locate V i s)) = visible s \<and>
     visible (setDirty V i compl s) = visible s"
proof -
  have l: "list_inv s" using inv by (simp add: evictor_inv_def)
  note pin = pin_hit [OF c, of V None]
  have "visible (fst (add V obj i now s)) = (visible s)(i \<mapsto> obj)"
    using visible_add_status [OF l c] by (simp add: add_def pin)
  moreover have self: "(visible s)(i := v) = visible s" if "v = visible s i" for v
    using that by simp
  have vi: "visible s i = (if item_status s r = Destroyed \<or> item_status s r = Dead then None
      else servant (item_data (heap s r)))"
    using c by (simp add: visible_def)
  have "visible (fst (remove V i s)) = (visible s)(i := None)"
    using visible_upd [OF l c] self vi
    by (auto simp: remove_def pin Let_def split: option.splits state.splits)
  moreover have "\<forall>x. snd (remove V i s) = Removed x \<longleftrightarrow> visible s i = Some x"
    by (auto simp: remove_def pin vi split: option.splits state.splits)
  moreover have "snd (locate V i s) = visible s i" and "visible (fst (locate V i s)) = visible s"
    by (auto simp: locate_def pin vi split: option.splits)
  moreover have "visible (setDirty V i compl s) = visible s"
    using visible_upd [OF l c] self vi by (auto simp: setDirty_def pin Let_def)
  ultimately show ?thesis by blast
qed

theorem cached_objects_form_a_map_witness:
  "snd (locate base_virtuals (Ident ''c'' ''a'') sample) = Some 7 \<and>
   snd (remove base_virtuals (Ident ''c'' ''a'') sample) = Removed 7"
proof -
  have "visible sample (Ident ''c'' ''a'') = Some 7"
    by (simp add: visible_def sample_facts)
  with cached_objects_form_a_map [OF sample_inv sample_facts(1), of base_virtuals] show ?thesis by simp
qed

text \<open>
  The store key joins name and category with an at sign, without escaping: it tells two identities
  apart when their names are free of it, but the objects \<open>a@b\<close> of category \<open>c\<close> and \<open>a\<close> of category
  \<open>b@c\<close> share a key, and the one saved last overwrites the other in the store.
\<close>

theorem store_key_collision:
  "inj_on identToStr {i. CHR ''@'' \<notin> set (name i)} \<and>
   (let i = Ident ''c'' ''a@b''; j = Ident ''b@c'' ''a'';
        x = \<lparr>key = identToStr i, st_status = Created, st_data = b1, stampAsOf = t\<rparr>;
        y = \<lparr>key = identToStr j, st_status = Created, st_data = b2, stampAsOf = t\<rparr>
    in i \<noteq> j \<and> loadFromStore n (saveBatchToStore [x, y] d) (identToStr i) = (eeOK, b2))"
proof -
  have "inj_on identToStr {i. CHR ''@'' \<notin> set (name i)}"
    by (rule inj_onI) (simp add: identToStr_inj)
  then show ?thesis
    by (simp add: loadFromStore_def identToStr_def std_simps)
qed

end
