(* ===== verification/Std_String.thy ===== *)
theory Std_String
  imports Prelude
begin

text \<open>
  The searches and slices of \<open>std::string\<close> that the sources use. \<open>npos\<close> is \<open>None\<close>; \<open>substr\<close> throws
  \<open>out_of_range\<close> when its position is beyond the end, which is \<open>None\<close> too.
\<close>

definition find_str :: "string \<Rightarrow> string \<Rightarrow> nat \<Rightarrow> nat option" where
  "find_str p s pos = List.find (\<lambda>i. take (length p) (drop i s) = p) [pos..<Suc (length s)]"

definition find_first_of :: "string \<Rightarrow> string \<Rightarrow> nat \<Rightarrow> nat option" where
  "find_first_of cs s pos = List.find (\<lambda>i. s ! i \<in> set cs) [pos..<length s]"

definition find_last_of :: "string \<Rightarrow> string \<Rightarrow> nat option" where
  "find_last_of cs s = List.find (\<lambda>i. s ! i \<in> set cs) (rev [0..<length s])"

abbreviation find_char :: "char \<Rightarrow> string \<Rightarrow> nat \<Rightarrow> nat option" where
  "find_char c s pos \<equiv> find_first_of [c] s pos"

definition substr :: "string \<Rightarrow> nat \<Rightarrow> nat \<Rightarrow> string option" where
  "substr s pos n = (if pos > length s then None else Some (take n (drop pos s)))"

definition replace_at :: "nat \<Rightarrow> nat \<Rightarrow> string \<Rightarrow> string \<Rightarrow> string" where
  "replace_at pos n v s = take pos s @ v @ drop (pos + n) s"

lemma find_upt_Some:
  "List.find P [a..<b] = Some i \<longleftrightarrow> a \<le> i \<and> i < b \<and> P i \<and> (\<forall>j. a \<le> j \<and> j < i \<longrightarrow> \<not> P j)"
proof (induction "b - a" arbitrary: a)
  case 0
  then show ?case by auto
next
  case (Suc n)
  then have "a < b" and n: "n = b - Suc a" by simp_all
  show ?case
  proof (cases "P a")
    case True
    then show ?thesis
      using \<open>a < b\<close> by (auto simp: upt_conv_Cons intro: le_neq_implies_less)
  next
    case False
    have "List.find P [a..<b] = Some i \<longleftrightarrow> List.find P [Suc a..<b] = Some i"
      using \<open>a < b\<close> False by (simp add: upt_conv_Cons)
    also note Suc.hyps(1) [OF n]
    also have "(Suc a \<le> i \<and> i < b \<and> P i \<and> (\<forall>j. Suc a \<le> j \<and> j < i \<longrightarrow> \<not> P j))
        \<longleftrightarrow> (a \<le> i \<and> i < b \<and> P i \<and> (\<forall>j. a \<le> j \<and> j < i \<longrightarrow> \<not> P j))"
      using False by (metis Suc_leD Suc_leI le_neq_implies_less)
    finally show ?thesis .
  qed
qed

lemma find_str_Some:
  assumes "find_str p s pos = Some i"
  shows "pos \<le> i \<and> i + length p \<le> length s \<and> take (length p) (drop i s) = p"
proof -
  have i: "pos \<le> i" "i \<le> length s" "take (length p) (drop i s) = p"
    using assms by (auto simp: find_str_def find_upt_Some simp del: upt_Suc)
  from i(3) have "min (length s - i) (length p) = length p"
    by (metis length_drop length_take)
  with i show ?thesis by linarith
qed

lemma find_str_None:
  "find_str p s pos = None \<longleftrightarrow> (\<forall>i. pos \<le> i \<and> i \<le> length s \<longrightarrow> take (length p) (drop i s) \<noteq> p)"
  by (auto simp: find_str_def find_None_iff simp del: upt_Suc)

lemma find_first_of_Some:
  "find_first_of cs s pos = Some i \<longleftrightarrow>
     pos \<le> i \<and> i < length s \<and> s ! i \<in> set cs \<and> (\<forall>j. pos \<le> j \<and> j < i \<longrightarrow> s ! j \<notin> set cs)"
  by (simp add: find_first_of_def find_upt_Some)

lemma find_first_of_None:
  "find_first_of cs s pos = None \<longleftrightarrow> (\<forall>j. pos \<le> j \<and> j < length s \<longrightarrow> s ! j \<notin> set cs)"
  by (auto simp: find_first_of_def find_None_iff)

definition find_first_not_of :: "string \<Rightarrow> string \<Rightarrow> nat \<Rightarrow> nat option" where
  "find_first_not_of cs s pos = List.find (\<lambda>i. s ! i \<notin> set cs) [pos..<length s]"

lemma find_first_not_of_Some:
  "find_first_not_of cs s pos = Some i \<longleftrightarrow>
     pos \<le> i \<and> i < length s \<and> s ! i \<notin> set cs \<and> (\<forall>j. pos \<le> j \<and> j < i \<longrightarrow> s ! j \<in> set cs)"
  by (auto simp: find_first_not_of_def find_upt_Some)

text \<open>
  Code that keeps a position in an \<open>int\<close> sees \<open>npos\<close> as \<open>- 1\<close>, and a negative argument of \<open>substr\<close> becomes a huge
  unsigned one: as a position it throws, as a count it means the rest. (Strings of 2 GB and more are left aside.)
\<close>

definition int_pos :: "nat option \<Rightarrow> int" where
  "int_pos p = (case p of None \<Rightarrow> - 1 | Some n \<Rightarrow> int n)"

definition substr_int :: "string \<Rightarrow> int \<Rightarrow> int \<Rightarrow> string option" where
  "substr_int s pos n = (if pos < 0 then None else substr s (nat pos) (if n < 0 then length s else nat n))"

lemma find_char_append [simp]:
  "c \<notin> set xs \<Longrightarrow> find_first_of [c] (xs @ c # ys) 0 = Some (length xs)"
  by (auto simp: find_first_of_Some nth_append in_set_conv_nth)

lemma find_char_absent [simp]: "c \<notin> set xs \<Longrightarrow> find_first_of [c] xs p = None"
  by (auto simp: find_first_of_None in_set_conv_nth)

lemma find_last_of_append: "c \<notin> set ys \<Longrightarrow> find_last_of [c] (xs @ c # ys) = Some (length xs)"
proof (induction ys rule: rev_induct)
  case Nil
  then show ?case by (simp add: find_last_of_def nth_append)
next
  case (snoc y ys)
  have "find_last_of [c] (zs @ [z]) = find_last_of [c] zs" if "z \<noteq> c" for z and zs :: string
  proof -
    have "List.find P xs = List.find Q xs" if "\<forall>i \<in> set xs. P i = Q i" for P Q and xs :: "nat list"
      using that by (induction xs) auto
    then show ?thesis using \<open>z \<noteq> c\<close> by (simp add: find_last_of_def nth_append)
  qed
  moreover have "y \<noteq> c" using snoc.prems by auto
  ultimately have "find_last_of [c] ((xs @ c # ys) @ [y]) = find_last_of [c] (xs @ c # ys)" by blast
  with snoc show ?case by simp
qed

subsection \<open>Decimal text\<close>

fun nat_dec :: "nat \<Rightarrow> string" where
  "nat_dec n = (if n < 10 then [char_of (48 + n)] else nat_dec (n div 10) @ [char_of (48 + n mod 10)])"

text \<open>\<open>itoa\<close> to the base 10.\<close>

definition itoa :: "int \<Rightarrow> string" where
  "itoa n = (if n < 0 then CHR ''-'' # nat_dec (nat (- n)) else nat_dec (nat n))"

declare nat_dec.simps [simp del]

lemma digit_char:
  assumes "d < 10"
  shows "is_digit (char_of (48 + d))" and "int (of_char (char_of (48 + d) :: char)) - 48 = int d"
proof -
  have "\<forall>d \<in> {0,1,2,3,4,5,6,7,8,9::nat}. is_digit (char_of (48 + d))" by code_simp
  moreover have "d \<in> {0,1,2,3,4,5,6,7,8,9}" using assms by auto
  ultimately show "is_digit (char_of (48 + d))" by blast
  show "int (of_char (char_of (48 + d) :: char)) - 48 = int d" using assms by simp
qed

lemma nat_dec_digits: "\<forall>c \<in> set (nat_dec n). is_digit c"
proof (induction n rule: nat_dec.induct)
  case (1 n)
  then show ?case using digit_char(1) [of n] digit_char(1) [of "n mod 10"] by (subst nat_dec.simps) auto
qed

lemma nat_dec_not_Nil [simp]: "nat_dec n \<noteq> []"
  by (subst nat_dec.simps) simp

lemma digits_value_append:
  "\<forall>c \<in> set s. is_digit c \<Longrightarrow> digits_value acc (s @ t) = digits_value (digits_value acc s) t"
  by (induction acc s rule: digits_value.induct) simp_all

lemma digits_value_nat_dec: "digits_value 0 (nat_dec n) = int n"
proof (induction n rule: nat_dec.induct)
  case (1 n)
  show ?case
  proof (cases "n < 10")
    case True
    then show ?thesis using digit_char [of n] by (subst nat_dec.simps) simp
  next
    case False
    then have "digits_value 0 (nat_dec n) = digits_value (int (n div 10)) [char_of (48 + n mod 10)]"
      using 1 by (subst nat_dec.simps) (simp add: digits_value_append nat_dec_digits)
    also have "\<dots> = 10 * int (n div 10) + int (n mod 10)" using digit_char [of "n mod 10"] by simp
    also have "\<dots> = int (10 * (n div 10) + n mod 10)" by (simp only: of_nat_add of_nat_mult of_nat_numeral)
    also have "\<dots> = int n" by (simp only: mult_div_mod_eq)
    finally show ?thesis .
  qed
qed

lemma is_digit_plain: "is_digit c \<Longrightarrow> \<not> is_space c \<and> c \<notin> {CHR ''-'', CHR ''+'', CHR '':'', CHR ''/'', CHR ''@'', CHR ''?'', CHR 0x00}"
  by (auto simp: is_digit_def is_space_def less_eq_char_def)

lemma nat_dec_plain:
  "set (nat_dec n) \<inter> {CHR ''-'', CHR ''+'', CHR '':'', CHR ''/'', CHR ''@'', CHR ''?'', CHR 0x00} = {}"
  using nat_dec_digits [of n] is_digit_plain by blast

lemma atoi_itoa:
  assumes "0 \<le> n"
  shows "atoi (itoa n) = n"
proof -
  obtain c t where ct: "nat_dec (nat n) = c # t" by (cases "nat_dec (nat n)") simp_all
  then have "is_digit c" using nat_dec_digits [of "nat n"] by simp
  then have "dropWhile is_space (nat_dec (nat n)) = c # t" and "c \<noteq> CHR ''-''" "c \<noteq> CHR ''+''"
    using is_digit_plain [of c] by (simp_all add: ct)
  moreover have "c_str (nat_dec (nat n)) = nat_dec (nat n)" using nat_dec_plain [of "nat n"] by (intro c_str_no_nul) blast
  ultimately show ?thesis using digits_value_nat_dec [of "nat n"] assms by (simp add: atoi_def itoa_def ct)
qed

lemma atoi_itoa_any: "atoi (itoa n) = n"
proof (cases "0 \<le> n")
  case False
  have "\<not> is_space CHR ''-''" by code_simp
  moreover have "c_str (CHR ''-'' # nat_dec (nat (- n))) = CHR ''-'' # nat_dec (nat (- n))"
    using nat_dec_plain [of "nat (- n)"] by (intro c_str_no_nul) auto
  ultimately show ?thesis
    using False digits_value_nat_dec [of "nat (- n)"] by (simp add: atoi_def itoa_def)
qed (rule atoi_itoa)

end
