(* ===== verification/Str_Helper.thy ===== *)
theory Str_Helper
  imports Std_String Std_Map
begin

text \<open>
  strHelper.cpp: trimming, splitting from the left and from the right, splitting with quotes and
  escapes, and the expansion of macro references.
\<close>

subsection \<open>Trimming and splitting\<close>

text \<open>\<open>TrimExtra\<close> changes the string in place and reports success; a string of trimmed characters only is
  left unchanged, with false.\<close>

definition TrimExtra :: "string \<Rightarrow> string \<Rightarrow> string \<times> bool" where
  "TrimExtra s extra =
     (let t = rev (dropWhile (\<lambda>c. c \<in> set extra) (rev (dropWhile (\<lambda>c. c \<in> set extra) s)))
      in if s = [] then (s, False) else if t \<noteq> [] then (t, True) else (s, False))"

text \<open>The loop of \<open>split\<close>: the pieces cut so far are the result, the rest is the second component.\<close>

function split_loop :: "char \<Rightarrow> nat \<Rightarrow> nat \<Rightarrow> string \<Rightarrow> string list \<times> string" where
  "split_loop sep counts cnt sub =
     (case find_char sep sub 0 of
        None \<Rightarrow> ([], sub)
      | Some pos \<Rightarrow>
          let rest = drop (pos + 1) sub
          in if Suc cnt = counts then ([take pos sub], rest)
             else let (ps, r) = split_loop sep counts (Suc cnt) rest in (take pos sub # ps, r))"
  by pat_completeness auto
termination
  by (relation "measure (\<lambda>(_, _, _, sub). length sub)") (auto simp: find_first_of_Some)

definition split :: "string \<Rightarrow> char \<Rightarrow> nat \<Rightarrow> string list" where
  "split src sep counts =
     (if src = [] then []
      else let (ps, sub) = split_loop sep counts 0 src;
               result = (if sub \<noteq> [] then ps @ [sub] else ps)
           in if result = [] then [sub] else result)"

text \<open>\<open>rsplit\<close> cuts at the last separator and collects the pieces backwards.\<close>

function rsplit_loop :: "char \<Rightarrow> nat \<Rightarrow> nat \<Rightarrow> string \<Rightarrow> string list \<times> string" where
  "rsplit_loop sep counts cnt sub =
     (case find_last_of [sep] sub of
        None \<Rightarrow> ([], sub)
      | Some pos \<Rightarrow>
          let rest = take pos sub
          in if Suc cnt = counts then ([drop (pos + 1) sub], rest)
             else let (ps, r) = rsplit_loop sep counts (Suc cnt) rest in (drop (pos + 1) sub # ps, r))"
  by pat_completeness auto
termination
  by (relation "measure (\<lambda>(_, _, _, sub). length sub)")
     (auto simp: find_last_of_def find_Some_iff rev_nth)

definition rsplit :: "string \<Rightarrow> char \<Rightarrow> nat \<Rightarrow> string list" where
  "rsplit src sep counts =
     (if src = [] then []
      else let (ps, sub) = rsplit_loop sep counts 0 src;
               tmp = (if sub \<noteq> [] then ps @ [sub] else ps)
           in rev (if tmp = [] then [sub] else tmp))"

declare split_loop.simps [simp del] rsplit_loop.simps [simp del]

subsection \<open>Quotes and escapes\<close>

definition strQuote :: "string \<Rightarrow> string" where
  "strQuote quote = (if odd (length quote) then quote @ [last quote] else quote)"

definition find_index :: "char \<Rightarrow> string \<Rightarrow> nat" where
  "find_index c s = length (takeWhile (\<lambda>x. x \<noteq> c) s)"

text \<open>The scan of \<open>SplitString\<close>. The quote stack holds the positions of open quotes in \<open>strQuote\<close>; the
  section that is cut off includes its delimiter.\<close>

function split_scan ::
    "string \<Rightarrow> string \<Rightarrow> string \<Rightarrow> string \<Rightarrow> int \<Rightarrow> string \<Rightarrow> nat \<Rightarrow> nat \<Rightarrow> nat list \<Rightarrow> string list \<Rightarrow> nat \<times> string list" where
  "split_scan delimiter trim sq esc mx s cur lastPos stk res =
     (if cur < length s \<and> (mx < 0 \<or> mx > 0 \<and> int (length res) < mx)
      then let ch = s ! cur in
        if ch \<in> set esc
        then split_scan delimiter trim sq esc mx s (min (cur + 2) (length s)) lastPos stk res
        else (case stk of
          [] \<Rightarrow>
            if ch \<in> set delimiter
            then let (t, ok) = TrimExtra (take (cur - lastPos + 1) (drop lastPos s)) trim
                 in split_scan delimiter trim sq esc mx s (cur + 1) (cur + 1) stk
                      (if ok \<and> t \<noteq> [] then res @ [t] else res)
            else split_scan delimiter trim sq esc mx s (cur + 1) lastPos
                   (if ch \<in> set sq then [find_index ch sq] else []) res
        | tp # below \<Rightarrow>
            split_scan delimiter trim sq esc mx s (cur + 1) lastPos
              (if ch \<in> set sq \<and> tp + 1 = length sq - 1 - find_index ch (rev sq) then below else stk) res)
      else (lastPos, res))"
  by pat_completeness auto
termination
  by (relation "measure (\<lambda>(_, _, _, _, _, s, cur, _). length s - cur)") auto

declare split_scan.simps [simp del]

definition SplitString :: "string \<Rightarrow> string \<Rightarrow> string \<Rightarrow> string \<Rightarrow> string \<Rightarrow> int \<Rightarrow> string list \<times> bool" where
  "SplitString str delimiter trim quote escape maxSection =
     (if str = [] then ([], False)
      else let (lastPos, res) = split_scan delimiter trim (strQuote quote) escape maxSection str 0 0 [] [];
               (t, ok) = TrimExtra (drop lastPos str) trim
           in (if ok \<and> t \<noteq> [] then res @ [t] else res, True))"

subsection \<open>Macros\<close>

text \<open>
  One round of \<open>associateMacros\<close> (its \<open>for\<close> loop) from position \<open>pos\<close>, with fuel, as the loop need not
  end; the string and the number of replacements are the result.
\<close>

fun macro_round :: "nat \<Rightarrow> (string \<times> string) list \<Rightarrow> nat \<Rightarrow> nat \<Rightarrow> string \<Rightarrow> (string \<times> nat) option" where
  "macro_round 0 macros pos n str = None"
| "macro_round (Suc fuel) macros pos n str =
     (case find_str ''${'' str pos of
        None \<Rightarrow> Some (str, n)
      | Some b \<Rightarrow>
          (case find_char CHR ''}'' str b of
             None \<Rightarrow> Some (str, n)
           | Some e \<Rightarrow>
               (let macro = take (e + 1 - b) (drop b str)
                in case map_of macros macro of
                     None \<Rightarrow> macro_round fuel macros (e + 1) n str
                   | Some v \<Rightarrow> macro_round fuel macros (e + 1) (Suc n) (replace_at b (length macro) v str))))"

text \<open>The \<open>do\<close> loop around it, entered with the replacements so far and those of the previous round.\<close>

fun macro_rounds :: "nat \<Rightarrow> (string \<times> string) list \<Rightarrow> nat \<Rightarrow> nat \<Rightarrow> string \<Rightarrow> (string \<times> bool) option" where
  "macro_rounds 0 macros nResolved ofRound str = None"
| "macro_rounds (Suc fuel) macros nResolved ofRound str =
     (let nResolved' = nResolved + ofRound
      in if nResolved' > 256 then Some (str, False)
         else (case macro_round fuel macros 0 0 str of
                 None \<Rightarrow> None
               | Some (str', k) \<Rightarrow>
                   if k > 0 then macro_rounds fuel macros nResolved' k str' else Some (str', True)))"

definition associateMacros :: "nat \<Rightarrow> (string \<times> string) list \<Rightarrow> string \<Rightarrow> (string \<times> bool) option" where
  "associateMacros fuel macros str = macro_rounds fuel macros 0 0 str"


subsection \<open>Splitting is inverse to joining\<close>

fun join :: "char \<Rightarrow> string list \<Rightarrow> string" where
  "join sep [] = []"
| "join sep [x] = x"
| "join sep (x # y # xs) = x @ sep # join sep (y # xs)"

lemma find_char_split:
  assumes "find_char c s 0 = Some i"
  shows "s = take i s @ c # drop (i + 1) s \<and> c \<notin> set (take i s)"
proof -
  have i: "i < length s" "s ! i = c" "\<forall>j < i. s ! j \<noteq> c"
    using assms by (auto simp: find_first_of_Some)
  then have "c \<notin> set (take i s)"
    by (auto simp: in_set_conv_nth)
  with i id_take_nth_drop [of i s] show ?thesis by simp
qed

lemma find_char_None_iff: "find_char c s 0 = None \<longleftrightarrow> c \<notin> set s"
  by (auto simp: find_first_of_None in_set_conv_nth)

lemma split_loop_join:
  "split_loop sep counts cnt s = (ps, r) \<Longrightarrow>
     s = concat (map (\<lambda>p. p @ [sep]) ps) @ r \<and> (\<forall>p \<in> set ps. sep \<notin> set p) \<and>
     (sep \<notin> set r \<or> ps \<noteq> [] \<and> length ps + cnt = counts) \<and> (cnt < counts \<longrightarrow> length ps + cnt \<le> counts)"
proof (induction sep counts cnt s arbitrary: ps r rule: split_loop.induct)
  case (1 sep counts cnt s)
  show ?case
  proof (cases "find_char sep s 0")
    case None
    with "1.prems" show ?thesis
      by (auto simp: split_loop.simps find_char_None_iff)
  next
    case (Some i)
    note cut = find_char_split [OF Some]
    show ?thesis
    proof (cases "Suc cnt = counts")
      case True
      with "1.prems" Some have "ps = [take i s]" and "r = drop (i + 1) s"
        by (simp_all add: split_loop.simps [of sep counts cnt s])
      with cut True show ?thesis by simp
    next
      case False
      obtain ps1 r1 where rec: "split_loop sep counts (Suc cnt) (drop (i + 1) s) = (ps1, r1)"
        by (cases "split_loop sep counts (Suc cnt) (drop (i + 1) s)") auto
      with "1.prems" Some False have "ps = take i s # ps1" and "r = r1"
        by (simp_all add: split_loop.simps [of sep counts cnt s])
      with "1.IH" [OF Some refl False rec] cut False show ?thesis
        by (auto simp: less_Suc_eq_le)
    qed
  qed
qed

lemma join_concat: "ps \<noteq> [] \<Longrightarrow> concat (map (\<lambda>p. p @ [sep]) ps) = join sep ps @ [sep]"
  by (induction sep ps rule: join.induct) auto

lemma join_snoc: "join sep (ps @ [r]) = concat (map (\<lambda>p. p @ [sep]) ps) @ r"
  by (induction ps) (auto simp: neq_Nil_conv Cons_eq_append_conv split: list.splits elim: join.elims)


lemma split_parts:
  assumes "s \<noteq> []"
  shows "split s sep 0 \<noteq> [] \<and> (\<forall>p \<in> set (split s sep 0). sep \<notin> set p) \<and>
     (s = join sep (split s sep 0) \<or> s = join sep (split s sep 0) @ [sep])"
proof -
  obtain ps r where sl: "split_loop sep 0 0 s = (ps, r)" by fastforce
  note j = split_loop_join [OF sl]
  show ?thesis
  proof (cases "r = []")
    case True
    then have "ps \<noteq> []" using j assms by auto
    with True j sl assms show ?thesis by (auto simp: split_def join_concat)
  next
    case False
    with j sl assms show ?thesis by (auto simp: split_def join_snoc)
  qed
qed

subsection \<open>Splitting from the right mirrors splitting from the left\<close>

lemma find_map: "List.find P (map f xs) = map_option f (List.find (\<lambda>x. P (f x)) xs)"
  by (induction xs) simp_all

lemma find_last_of_rev:
  "find_last_of cs s = map_option (\<lambda>i. length s - 1 - i) (find_first_of cs (rev s) 0)"
proof -
  have rv: "rev [0..<n] = map (\<lambda>i. n - 1 - i) [0..<n]" for n :: nat
    by (rule nth_equalityI) (auto simp: rev_nth)
  have "find_last_of cs s = map_option (\<lambda>i. length s - 1 - i)
      (List.find (\<lambda>i. s ! (length s - 1 - i) \<in> set cs) [0..<length s])"
    unfolding find_last_of_def rv by (rule find_map)
  also have "List.find (\<lambda>i. s ! (length s - 1 - i) \<in> set cs) [0..<length s]
      = List.find (\<lambda>i. rev s ! i \<in> set cs) [0..<length (rev s)]"
    by (rule find_cong) (auto simp: rev_nth)
  finally show ?thesis by (simp add: find_first_of_def)
qed

lemma rsplit_loop_rev:
  "rsplit_loop sep counts cnt s = (let (ps, r) = split_loop sep counts cnt (rev s) in (map rev ps, rev r))"
proof (induction sep counts cnt s rule: rsplit_loop.induct)
  case (1 sep counts cnt s)
  show ?case
  proof (cases "find_char sep (rev s) 0")
    case None
    then show ?thesis
      by (simp add: rsplit_loop.simps [of sep counts cnt s] split_loop.simps [of sep counts cnt "rev s"] find_last_of_rev)
  next
    case (Some i)
    then have i: "i < length s" by (simp add: find_first_of_Some)
    let ?p = "length s - 1 - i"
    have l: "find_last_of [sep] s = Some ?p" using Some by (simp add: find_last_of_rev)
    have t: "rev (take ?p s) = drop (i + 1) (rev s)" using i by (simp add: rev_take)
    have d: "drop (?p + 1) s = rev (take i (rev s))" using i by (simp add: take_rev Suc_diff_Suc)
    obtain ps r where sl: "split_loop sep counts (Suc cnt) (drop (i + 1) (rev s)) = (ps, r)"
      by (cases "split_loop sep counts (Suc cnt) (drop (i + 1) (rev s))") auto
    have ih: "rsplit_loop sep counts (Suc cnt) (take ?p s) = (map rev ps, rev r)" if "Suc cnt \<noteq> counts"
      using "1.IH" [OF l refl that] sl unfolding t by simp
    have "rsplit_loop sep counts cnt s =
        (if Suc cnt = counts then ([drop (?p + 1) s], take ?p s) else (drop (?p + 1) s # map rev ps, rev r))"
      using ih by (subst rsplit_loop.simps) (simp add: l)
    moreover have "split_loop sep counts cnt (rev s) =
        (if Suc cnt = counts then ([take i (rev s)], drop (i + 1) (rev s)) else (take i (rev s) # ps, r))"
      using sl by (subst split_loop.simps) (simp add: Some)
    ultimately show ?thesis
      using d arg_cong [OF t, of rev] by simp
  qed
qed


lemma rsplit_mirror: "rsplit s sep counts = rev (map rev (split (rev s) sep counts))"
  by (cases "split_loop sep counts 0 (rev s)") (simp add: rsplit_def split_def rsplit_loop_rev)

subsection \<open>Sections\<close>

definition trimmed :: "string \<Rightarrow> string \<Rightarrow> bool" where
  "trimmed trim t \<longleftrightarrow> t \<noteq> [] \<and> hd t \<notin> set trim \<and> last t \<notin> set trim"

lemma TrimExtra_trimmed:
  assumes "TrimExtra s trim = (t, True)"
  shows "trimmed trim t"
proof -
  let ?d = "dropWhile (\<lambda>c. c \<in> set trim) s"
  let ?r = "dropWhile (\<lambda>c. c \<in> set trim) (rev ?d)"
  define u where "u = rev ?r"
  have eq: "TrimExtra s trim = (if s = [] then (s, False) else if u \<noteq> [] then (u, True) else (s, False))"
    unfolding TrimExtra_def Let_def u_def by (rule refl)
  have "t = u \<and> u \<noteq> []"
    using assms unfolding eq by (simp split: if_split_asm)
  then have "t = rev ?r \<and> rev ?r \<noteq> []" unfolding u_def .
  then have t: "t = rev ?r" and ne: "?r \<noteq> []" by simp_all
  have "hd ?r \<notin> set trim" using hd_dropWhile [OF ne] by simp
  then have "last t \<notin> set trim" using ne by (simp add: t last_rev)
  have "?d \<noteq> []"
  proof
    assume "?d = []"
    then have "?r = []" by (simp only: rev.simps dropWhile.simps)
    with ne show False by contradiction
  qed
  then have "hd ?d \<notin> set trim" using hd_dropWhile [of "\<lambda>c. c \<in> set trim" s] by simp
  moreover define w where "w = takeWhile (\<lambda>c. c \<in> set trim) (rev ?d)"
  have "rev ?d = w @ ?r" unfolding w_def by (rule takeWhile_dropWhile_id [symmetric])
  from arg_cong [OF this, of rev] have "?d = t @ rev w" by (simp only: rev_append rev_rev_ident t)
  moreover have tn: "t \<noteq> []" using \<open>t = u \<and> u \<noteq> []\<close> by simp
  ultimately have "hd t \<notin> set trim" by (metis hd_append2)
  with \<open>last t \<notin> set trim\<close> tn show ?thesis unfolding trimmed_def by blast
qed

lemma split_scan_sections:
  "split_scan dl trim sq esc mx s cur lastPos stk res = (lp, res') \<Longrightarrow> \<forall>t \<in> set res. trimmed trim t \<Longrightarrow>
     lastPos \<le> length s \<Longrightarrow> (0 \<le> mx \<Longrightarrow> int (length res) \<le> mx) \<Longrightarrow>
     (\<forall>t \<in> set res'. trimmed trim t) \<and> lp \<le> length s \<and> (0 \<le> mx \<longrightarrow> int (length res') \<le> mx)"
proof (induction dl trim sq esc mx s cur lastPos stk res arbitrary: lp res' rule: split_scan.induct)
  case (1 dl trim sq esc mx s cur lastPos stk res)
  let ?go = "cur < length s \<and> (mx < 0 \<or> mx > 0 \<and> int (length res) < mx)"
  note unf = split_scan.simps [of dl trim sq esc mx s cur lastPos stk res]
  show ?case
  proof (cases ?go)
    case False
    with 1 unf show ?thesis by auto
  next
    case go: True
    show ?thesis
    proof (cases "s ! cur \<in> set esc")
      case True
      show ?thesis
        by (rule "1.IH"(1) [OF go refl True]) (use "1.prems" go True unf in simp_all)
    next
      case noesc: False
      show ?thesis
      proof (cases stk)
        case (Cons tp below)
        show ?thesis
          by (rule "1.IH"(4) [OF go refl noesc Cons]) (use "1.prems" go noesc Cons unf in \<open>simp_all add: Let_def\<close>)
      next
        case Nil
        show ?thesis
        proof (cases "s ! cur \<in> set dl")
          case False
          show ?thesis
            by (rule "1.IH"(3) [OF go refl noesc Nil False]) (use "1.prems" go noesc Nil False unf in \<open>simp_all add: Let_def\<close>)
        next
          case True
          obtain t ok where t: "TrimExtra (take (cur - lastPos + 1) (drop lastPos s)) trim = (t, ok)" by fastforce
          show ?thesis
            by (rule "1.IH"(2) [OF go refl noesc Nil True t [symmetric] refl])
               (use "1.prems" go noesc Nil True unf t TrimExtra_trimmed [of _ trim t] in \<open>auto simp: Let_def\<close>)
        qed
      qed
    qed
  qed
qed

lemma SplitString_sections:
  "SplitString str dl trim qt esc mx = (res, ok) \<Longrightarrow>
     (\<forall>t \<in> set res. trimmed trim t) \<and> (0 \<le> mx \<longrightarrow> int (length res) \<le> mx + 1)"
proof -
  assume a: "SplitString str dl trim qt esc mx = (res, ok)"
  show ?thesis
  proof (cases "str = []")
    case True
    with a show ?thesis by (auto simp: SplitString_def)
  next
    case False
    obtain lp r where sc: "split_scan dl trim (strQuote qt) esc mx str 0 0 [] [] = (lp, r)" by fastforce
    obtain t k where t: "TrimExtra (drop lp str) trim = (t, k)" by fastforce
    have "res = (if k \<and> t \<noteq> [] then r @ [t] else r)"
      using a False sc t by (simp add: SplitString_def)
    moreover have "k \<longrightarrow> trimmed trim t" using TrimExtra_trimmed [of "drop lp str" trim t] t by auto
    ultimately show ?thesis using split_scan_sections [OF sc] by auto
  qed
qed


subsection \<open>Expansion of macros\<close>

lemma macro_round_count:
  "macro_round fuel m pos n str = Some (str', n') \<Longrightarrow> n \<le> n' \<and> (n' = n \<longrightarrow> str' = str)"
proof (induction fuel m pos n str rule: macro_round.induct)
  case (2 fuel m pos n str)
  show ?case
  proof (cases "find_str ''${'' str pos")
    case None
    with "2.prems" show ?thesis by simp
  next
    case (Some b)
    note b = this
    show ?thesis
    proof (cases "find_char CHR ''}'' str b")
      case None
      with "2.prems" b show ?thesis by simp
    next
      case (Some e)
      then show ?thesis
        using "2.prems" b "2.IH"(1) [OF b Some refl] "2.IH"(2) [OF b Some refl]
        by (fastforce simp: Let_def split: option.splits)
    qed
  qed
qed simp

lemma macro_rounds_fixpoint:
  "macro_rounds fuel m n k str = Some (str', True) \<Longrightarrow> \<exists>fuel'. macro_round fuel' m 0 0 str' = Some (str', 0)"
proof (induction fuel m n k str rule: macro_rounds.induct)
  case (2 fuel m n k str)
  have small: "\<not> n + k > 256" using "2.prems" by (auto simp: Let_def split: if_splits)
  then obtain s1 k1 where r: "macro_round fuel m 0 0 str = Some (s1, k1)"
    using "2.prems" by (auto simp: Let_def split: option.splits)
  show ?case
  proof (cases "k1 > 0")
    case True
    then show ?thesis using "2.IH" [OF refl small r refl True] "2.prems" small r by (simp add: Let_def)
  next
    case False
    then have "str' = s1" and "k1 = 0" using "2.prems" small r by (simp_all add: Let_def)
    with macro_round_count [OF r] r show ?thesis by auto
  qed
qed simp

text \<open>Termination: replacements by values without a dollar sign use the dollar signs up.\<close>

abbreviation dollars :: "string \<Rightarrow> nat" where
  "dollars s \<equiv> count_list s CHR ''$''"

lemma dollars_replace:
  assumes b: "find_str ''${'' str pos = Some b" and e: "find_char CHR ''}'' str b = Some e"
    and v: "CHR ''$'' \<notin> set v"
  shows "dollars (replace_at b (length (take (e + 1 - b) (drop b str))) v str) < dollars str"
proof -
  have bl: "take 2 (drop b str) = ''${''" and b2: "b + 2 \<le> length str" using find_str_Some [OF b] by (simp_all add: numeral_2_eq_2)
  have e': "b \<le> e" "e < length str" "str ! e = CHR ''}''" using e by (auto simp: find_first_of_Some)
  let ?mac = "take (e + 1 - b) (drop b str)"
  have split: "str = take b str @ ?mac @ drop (b + length ?mac) str"
    by (metis append_take_drop_id drop_drop add.commute length_take min_def take_all_iff drop_all append_Nil2 nle_le)
  have "str ! b = CHR ''$''" using arg_cong [OF bl, of "\<lambda>l. l ! 0"] b2 by simp
  then have "hd ?mac = CHR ''$''" and "?mac \<noteq> []" using e' by (simp_all add: hd_drop_conv_nth)
  then have "CHR ''$'' \<in> set ?mac" by (metis hd_in_set)
  then have pos: "dollars ?mac > 0" by (metis count_list_0_iff gr0I)
  have "dollars str = dollars (take b str) + (dollars ?mac + dollars (drop (b + length ?mac) str))"
    by (subst split) (simp only: count_list_append)
  moreover have "dollars v = 0" using v by (simp add: count_list_0_iff)
  ultimately show ?thesis using pos by (simp add: replace_at_def)
qed


definition ends_with_fuel :: "(nat \<Rightarrow> 'a option) \<Rightarrow> ('a \<Rightarrow> bool) \<Rightarrow> bool" where
  "ends_with_fuel f P \<longleftrightarrow> (\<exists>f0. \<forall>fuel \<ge> f0. \<exists>r. f fuel = Some r \<and> P r)"

lemma ends_with_fuelI: "(\<And>fuel. fuel \<ge> f0 \<Longrightarrow> \<exists>r. f fuel = Some r \<and> P r) \<Longrightarrow> ends_with_fuel f P"
  unfolding ends_with_fuel_def by blast

lemma ends_with_fuel_Suc:
  assumes "ends_with_fuel g Q" and "\<And>fuel r. g fuel = Some r \<Longrightarrow> Q r \<Longrightarrow> \<exists>r'. f (Suc fuel) = Some r' \<and> P r'"
  shows "ends_with_fuel f P"
proof -
  obtain f0 where f0: "\<forall>fuel \<ge> f0. \<exists>r. g fuel = Some r \<and> Q r"
    using assms(1) unfolding ends_with_fuel_def by blast
  show ?thesis
  proof (rule ends_with_fuelI [of "Suc f0"])
    fix fuel assume "fuel \<ge> Suc f0"
    then obtain fuel' where "fuel = Suc fuel'" "fuel' \<ge> f0" by (metis Suc_le_D Suc_le_mono)
    with f0 assms(2) show "\<exists>r. f fuel = Some r \<and> P r" by blast
  qed
qed

lemma macro_round_ends:
  assumes "\<forall>v \<in> ran (map_of m). CHR ''$'' \<notin> set v"
  shows "ends_with_fuel (\<lambda>fuel. macro_round fuel m pos n str) (\<lambda>(str', n'). dollars str' + n' \<le> dollars str + n)"
proof (induction "dollars str" arbitrary: str pos n rule: less_induct)
  case less
  note outer = less
  show ?case
  proof (induction "length str - pos" arbitrary: pos n rule: less_induct)
    case less
    let ?f = "\<lambda>fuel. macro_round fuel m pos n str" and ?P = "\<lambda>(str', n'). dollars str' + n' \<le> dollars str + n"
    show ?case
    proof (cases "find_str ''${'' str pos")
      case None
      show ?thesis
      proof (rule ends_with_fuelI [of 1])
        fix fuel :: nat assume "fuel \<ge> 1"
        then show "\<exists>r. ?f fuel = Some r \<and> ?P r" using None by (cases fuel) auto
      qed
    next
      case (Some b)
      note b = this
      show ?thesis
      proof (cases "find_char CHR ''}'' str b")
        case None
        show ?thesis
        proof (rule ends_with_fuelI [of 1])
          fix fuel :: nat assume "fuel \<ge> 1"
          then show "\<exists>r. ?f fuel = Some r \<and> ?P r" using None b by (cases fuel) auto
        qed
      next
        case (Some e)
        let ?mac = "take (e + 1 - b) (drop b str)"
        show ?thesis
        proof (cases "map_of m ?mac")
          case None
          have "length str - (e + 1) < length str - pos"
            using find_str_Some [OF b] Some by (auto simp: find_first_of_Some)
          from less [OF this, of n] show ?thesis
            by (rule ends_with_fuel_Suc) (use b Some None in \<open>simp add: Let_def\<close>)
        next
          case v: (Some v)
          then have "CHR ''$'' \<notin> set v" using assms by (auto simp: ran_def)
          from dollars_replace [OF b Some this]
          have d: "dollars (replace_at b (length ?mac) v str) < dollars str" .
          from outer [OF d, of "e + 1" "Suc n"] show ?thesis
            by (rule ends_with_fuel_Suc) (use b Some v d in \<open>auto simp: Let_def\<close>)
        qed
      qed
    qed
  qed
qed

lemma macro_round_cases:
  "(\<forall>fuel. macro_round (Suc fuel) m pos n str = Some (str, n)) \<or>
   (\<exists>pos' n' str'. \<forall>fuel. macro_round (Suc fuel) m pos n str = macro_round fuel m pos' n' str')"
proof (cases "find_str ''${'' str pos")
  case (Some b)
  note b = this
  show ?thesis
  proof (cases "find_char CHR ''}'' str b")
    case (Some e)
    with b show ?thesis
      by (cases "map_of m (take (e + 1 - b) (drop b str))") (auto simp: Let_def)
  qed (simp add: b)
qed simp

lemma macro_round_Suc:
  "macro_round fuel m pos n str = Some r \<Longrightarrow> macro_round (Suc fuel) m pos n str = Some r"
proof (induction fuel arbitrary: pos n str)
  case (Suc fuel)
  show ?case
    using macro_round_cases [of m pos n str] Suc.prems Suc.IH by metis
qed simp

lemma macro_round_mono:
  "macro_round fuel m pos n str = Some r \<Longrightarrow> fuel \<le> fuel' \<Longrightarrow> macro_round fuel' m pos n str = Some r"
  by (induction fuel') (auto simp: le_Suc_eq simp del: macro_round.simps intro: macro_round_Suc)

lemma macro_rounds_end:
  assumes "\<forall>v \<in> ran (map_of m). CHR ''$'' \<notin> set v"
  shows "ends_with_fuel (\<lambda>fuel. macro_rounds fuel m n k str) (\<lambda>_. True)"
proof (induction "dollars str" arbitrary: n k str rule: less_induct)
  case less
  obtain f0 where f0: "\<forall>fuel \<ge> f0. \<exists>r. macro_round fuel m 0 0 str = Some r \<and>
      (case r of (str', n') \<Rightarrow> dollars str' + n' \<le> dollars str + 0)"
    using macro_round_ends [OF assms, of 0 0 str] unfolding ends_with_fuel_def by blast
  then obtain str' j where r: "macro_round f0 m 0 0 str = Some (str', j)" and d: "dollars str' + j \<le> dollars str"
    by fastforce
  note rr = macro_round_mono [OF r]
  show ?case
  proof (cases "j > 0 \<and> n + k \<le> 256")
    case False
    show ?thesis
    proof (rule ends_with_fuelI [of "Suc f0"])
      fix fuel assume "fuel \<ge> Suc f0"
      then obtain g where "fuel = Suc g" "f0 \<le> g" by (metis Suc_le_D Suc_le_mono)
      then show "\<exists>r. macro_rounds fuel m n k str = Some r \<and> True"
        using rr [of g] False by (auto simp: Let_def)
    qed
  next
    case True
    then have "dollars str' < dollars str" using d by simp
    from less [OF this, of "n + k" j] obtain f1 where
      f1: "\<forall>fuel \<ge> f1. \<exists>r. macro_rounds fuel m (n + k) j str' = Some r \<and> True"
      unfolding ends_with_fuel_def by blast
    show ?thesis
    proof (rule ends_with_fuelI [of "Suc (max f0 f1)"])
      fix fuel assume "fuel \<ge> Suc (max f0 f1)"
      then obtain g where g: "fuel = Suc g" "f0 \<le> g" "f1 \<le> g" by (metis Suc_le_D Suc_le_mono max.bounded_iff)
      then show "\<exists>r. macro_rounds fuel m n k str = Some r \<and> True"
        using rr [of g] f1 True by (auto simp: Let_def)
    qed
  qed
qed

lemma macro_grows:
  assumes k: "k = ''${'' @ nm @ ''}''" and nm: "CHR ''}'' \<notin> set nm" and v: "map_of m k = Some (k @ k)"
  shows "macro_round fuel m (length A) n (A @ k) = None"
proof (induction fuel arbitrary: A n)
  case (Suc fuel)
  have "take 2 k = ''${''" using k by (simp add: numeral_2_eq_2)
  then have b: "find_str ''${'' (A @ k) (length A) = Some (length A)"
    unfolding find_str_def find_upt_Some by (simp add: numeral_2_eq_2)
  have last: "k ! (length k - 1) = CHR ''}''" and len: "length k = length nm + 3"
    by (simp_all add: k nth_append nth_Cons')
  have other: "k ! j \<noteq> CHR ''}''" if "j < length k - 1" for j
  proof
    assume eq: "k ! j = CHR ''}''"
    have "j \<noteq> 0" "j \<noteq> 1" using eq by (intro notI; simp add: k)+
    then have "k ! j = nm ! (j - 2)" and "j - 2 < length nm"
      using that len by (auto simp: k nth_append nth_Cons' numeral_2_eq_2)
    then show False using eq nm nth_mem by fastforce
  qed
  have e: "find_char CHR ''}'' (A @ k) (length A) = Some (length A + (length k - 1))"
    unfolding find_first_of_Some using last other len by (auto simp: nth_append)
  have "macro_round (Suc fuel) m (length A) n (A @ k) = macro_round fuel m (length (A @ k)) (Suc n) ((A @ k) @ k)"
    using b e v len by (simp add: replace_at_def Let_def numeral_3_eq_3)
  also have "\<dots> = None" by (rule Suc.IH)
  finally show ?case .
qed simp


subsection \<open>Properties\<close>

text \<open>
  \<open>split\<close> without a limit is inverse to joining: no piece contains the separator, and joining the
  pieces gives the string back, up to one trailing separator (whose empty last piece is dropped).
\<close>

theorem split_inverse_join:
  assumes "s \<noteq> []"
  shows "split s sep 0 \<noteq> [] \<and> (\<forall>p \<in> set (split s sep 0). sep \<notin> set p) \<and>
     (s = join sep (split s sep 0) \<or> s = join sep (split s sep 0) @ [sep])"
  using assms by (rule split_parts)

theorem split_inverse_join_witness:
  "\<exists>ps. split ''a,,b,'' CHR '','' 0 = ps \<and> (''a,,b,'' = join CHR '','' ps \<or> ''a,,b,'' = join CHR '','' ps @ '','')"
  using split_inverse_join [of "''a,,b,''" "CHR '',''"] by simp

text \<open>
  \<open>rsplit\<close> is the mirror image of \<open>split\<close>, for every separator and every limit on the cuts.
\<close>

theorem rsplit_mirrors_split:
  "rsplit s sep counts = rev (map rev (split (rev s) sep counts))"
  by (rule rsplit_mirror)

text \<open>
  Every section that \<open>SplitString\<close> returns is non-empty and neither starts nor ends with a character to
  trim, and a limit of \<open>maxSection\<close> sections gives at most one more (the unsplit rest).
\<close>

theorem SplitString_sound:
  assumes "SplitString str delimiter trim quote escape maxSection = (res, ok)"
  shows "(\<forall>t \<in> set res. trimmed trim t) \<and> (0 \<le> maxSection \<longrightarrow> int (length res) \<le> maxSection + 1) \<and>
     (ok \<longleftrightarrow> str \<noteq> [])"
  using SplitString_sections [OF assms] assms by (auto simp: SplitString_def split: prod.splits)

theorem SplitString_sound_witness:
  "\<exists>res ok. SplitString ''a, b'' '' ,'' '' ,'' [] [] (- 1) = (res, ok) \<and> (\<forall>t \<in> set res. trimmed '' ,'' t) \<and> ok"
proof -
  obtain res ok where "SplitString ''a, b'' '' ,'' '' ,'' [] [] (- 1) = (res, ok)" by fastforce
  from this SplitString_sound [OF this] show ?thesis by auto
qed

text \<open>
  When no macro value contains a dollar sign, \<open>associateMacros\<close> ends for every string; and whenever it
  ends successfully, expanding its result again changes nothing.
\<close>

theorem associateMacros_ends:
  assumes "\<forall>v \<in> ran (map_of macros). CHR ''$'' \<notin> set v"
  shows "(\<exists>f0. \<forall>fuel \<ge> f0. \<exists>r. associateMacros fuel macros str = Some r) \<and>
     (\<forall>fuel str'. associateMacros fuel macros str = Some (str', True) \<longrightarrow>
        (\<exists>fuel'. associateMacros fuel' macros str' = Some (str', True)))"
proof (intro conjI allI impI)
  show "\<exists>f0. \<forall>fuel \<ge> f0. \<exists>r. associateMacros fuel macros str = Some r"
    using macro_rounds_end [OF assms] unfolding ends_with_fuel_def associateMacros_def by blast
next
  fix fuel str' assume "associateMacros fuel macros str = Some (str', True)"
  then obtain f where "macro_round f macros 0 0 str' = Some (str', 0)"
    using macro_rounds_fixpoint unfolding associateMacros_def by blast
  then have "associateMacros (Suc f) macros str' = Some (str', True)"
    by (simp add: associateMacros_def)
  then show "\<exists>fuel'. associateMacros fuel' macros str' = Some (str', True)" ..
qed

theorem associateMacros_ends_witness:
  "\<exists>f r. associateMacros f [(''${home}'', ''/root'')] ''${home}/x'' = Some r"
proof -
  have "\<forall>v \<in> ran (map_of [(''${home}'', ''/root'')]). CHR ''$'' \<notin> set v" by simp
  from associateMacros_ends [OF this, of "''${home}/x''"] show ?thesis by blast
qed

text \<open>
  A macro whose value contains its own reference twice is never given up: the guard against deep
  nesting is tested between rounds only, and within one round the search position moves by the length of
  the reference while the string grows by as much, so \<open>associateMacros\<close> does not return.
\<close>

theorem associateMacros_diverges:
  assumes "k = ''${'' @ nm @ ''}''" and "CHR ''}'' \<notin> set nm" and "map_of macros k = Some (k @ k)"
  shows "associateMacros fuel macros k = None"
proof (cases fuel)
  case (Suc f)
  show ?thesis
    using macro_grows [OF assms, of f "[]" 0] by (simp add: associateMacros_def Suc)
qed (simp add: associateMacros_def)

theorem associateMacros_diverges_witness:
  "associateMacros 1000 [(''${a}'', ''${a}${a}'')] ''${a}'' = None"
  by (rule associateMacros_diverges [of _ "''a''"]) simp_all

end
