(* ===== verification/Time_Util.thy ===== *)
theory Time_Util
  imports Prelude
begin

text \<open>
  TimeUtil.cpp: \<open>Str2Time\<close>, which the rule conditions use. The conversions of \<open>sscanf\<close> are modelled: a
  \<open>%Nd\<close> skips white space, then takes a sign and digits, at most N characters in all.
\<close>

definition scan_int :: "nat \<Rightarrow> string \<Rightarrow> (int \<times> string) option" where
  "scan_int w s =
     (let s = dropWhile is_space s;
          (sgn, n) = (if s \<noteq> [] \<and> (hd s = CHR ''-'' \<or> hd s = CHR ''+'') then (take 1 s, 1) else ([], 0));
          ds = takeWhile is_digit (take (w - n) (drop n s))
      in if ds = [] then None
         else Some (if sgn = ''-'' then - digits_value 0 ds else digits_value 0 ds, drop (n + length ds) s))"

definition scan_lit :: "char \<Rightarrow> string \<Rightarrow> string option" where
  "scan_lit c s = (case s of x # t \<Rightarrow> if x = c then Some t else None | [] \<Rightarrow> None)"

fun scan_fields :: "(nat \<times> string) list \<Rightarrow> string \<Rightarrow> int list option" where
  "scan_fields [] s = Some []"
| "scan_fields ((w, sep) # fs) s =
     (case scan_int w s of
        None \<Rightarrow> None
      | Some (v, t) \<Rightarrow>
          (case sep of
             [] \<Rightarrow> map_option (\<lambda>vs. v # vs) (scan_fields fs t)
           | c # _ \<Rightarrow> (case scan_lit c t of None \<Rightarrow> None | Some u \<Rightarrow> map_option (\<lambda>vs. v # vs) (scan_fields fs u))))"

text \<open>\<open>mktime\<close>, which knows the time zone, is a parameter; it answers -1 for what it cannot represent.\<close>

definition Str2Time :: "(int list \<Rightarrow> int) \<Rightarrow> string \<Rightarrow> int option" where
  "Str2Time mktime str =
     (case scan_fields [(4, ''-''), (2, ''-''), (2, ''T''), (2, '':''), (2, '':''), (2, [])] (c_str str) of
        Some [year, month, day, hour, minute, second] \<Rightarrow>
          if year < 1970 \<or> year > 2038 \<or> month < 1 \<or> month > 12 \<or> day < 1 \<or> day > 31 \<or>
             hour < 0 \<or> hour > 23 \<or> minute < 0 \<or> minute > 59 \<or> second < 0 \<or> second > 59
          then None
          else (let t = mktime [year - 1900, month - 1, day, hour, minute, second] in if t \<noteq> - 1 then Some t else None)
      | _ \<Rightarrow> None)"

lemma Str2Time_example:
  "Str2Time (\<lambda>_. 7) ''2012-02-30T23:59:59'' = Some 7" "Str2Time (\<lambda>_. 7) ''2012-13-01T00:00:00'' = None"
  by code_simp+

end
