(* ===== verification/Rule_Engine_Model.thy ===== *)
theory Rule_Engine_Model
  imports Str_Helper Time_Util
begin

text \<open>
  RuleEngine.cpp: rules are sequences of actions, with conditions on the context's metadata, and of
  references to sub rules. An event starts a command that runs the rules applied to it on a thread pool, which may
  have been stopped or may be cleared. The table of the transactions of users is shared by all engines.
  Actions are supplied by plug-ins: a parameter maps each action object to its effect. \<open>atof\<close> and
  \<open>mktime\<close> are parameters of the conditions. Logging is left out.
\<close>

subsection \<open>Data\<close>

type_synonym props = "(string \<times> string) list"

datatype statusCode = aSucceed | aFailed | aSucceedQuit | aFailedQuit

record actx =
  ctxStatus :: statusCode
  metaData :: props

record rule_item =
  actionName :: string
  isASubRule :: bool
  conditions :: props
  inputArgs :: props
  output2ctx :: props

type_synonym rule = "rule_item list"

text \<open>An action gets the context by reference, its arguments, and an output map that was cleared before.
  It returns or throws; in both cases the context and the output are what it left in them.\<close>

datatype action_result = Returned actx props | Raised actx props

type_synonym action = "actx \<Rightarrow> props \<Rightarrow> action_result"

text \<open>The environment: \<open>atof x <= atof y\<close> and \<open>atof x >= atof y\<close> (both false when one is NaN), \<open>mktime\<close>,
  and the action objects.\<close>

record env =
  e_le :: "string \<Rightarrow> string \<Rightarrow> bool"
  e_ge :: "string \<Rightarrow> string \<Rightarrow> bool"
  e_mktime :: "int list \<Rightarrow> int"
  e_act :: "nat \<Rightarrow> action"

text \<open>A queued \<open>RuleExecCmd\<close>.\<close>

record rule_cmd =
  cmd_ctx :: actx
  cmd_rule :: rule
  cmd_ruleName :: string
  cmd_txnId :: string
  cmd_depth :: nat

text \<open>
  What a run has produced so far: the context, the last output, the sub-rule commands it has queued.
  \<open>x_trace\<close> records, for the statements below, the positions of the actions that were invoked.
\<close>

record exec =
  x_ctx :: actx
  x_out :: props
  x_spawn :: "rule_cmd list"
  x_trace :: "nat list"

text \<open>A command that a thread of the pool has taken: the position of its iterator, and what it has produced.\<close>

record active =
  a_cmd :: rule_cmd
  a_pos :: int
  a_exec :: exec

text \<open>
  An engine with the state of its pool: whether it runs, the engine's commands in its queue, and those that its threads execute.
  \<open>dropped\<close> records, for the statements below, the commands that the pool did not take or gave up.
\<close>

record engine =
  eventToRules :: "(string \<times> string list) list"
  ruleMap :: "(string \<times> rule) list"
  actions :: "(string \<times> nat) list"
  depthLimit :: int
  pool_running :: bool
  queued :: "rule_cmd list"
  executing :: "active list"
  dropped :: "rule_cmd list"

definition new_engine :: "int \<Rightarrow> engine" where
  "new_engine depth =
     \<lparr>eventToRules = [], ruleMap = [], actions = [], depthLimit = depth, pool_running = True, queued = [], executing = [], dropped = []\<rparr>"

text \<open>The static \<open>_userTxnMap\<close>: the transactions, each with the address of its command.\<close>

type_synonym txn_map = "(string \<times> nat) list"

text \<open>
  What the pool does with the commands of the engine: a stopped pool takes none, and clearing it calls \<open>final\<close>, which deletes the
  command and nothing else. A thread that has fetched a command (at one of the positions \<open>fetched\<close>) may still run it, or give it up
  later when it finds that it has to quit.
\<close>

definition start_cmd :: "rule_cmd \<Rightarrow> engine \<Rightarrow> engine" where
  "start_cmd cmd eng =
     (if pool_running eng then eng\<lparr>queued := queued eng @ [cmd]\<rparr> else eng\<lparr>dropped := dropped eng @ [cmd]\<rparr>)"

definition pool_clear :: "nat set \<Rightarrow> engine \<Rightarrow> engine" where
  "pool_clear fetched eng = eng\<lparr>queued := nths (queued eng) fetched, dropped := dropped eng @ nths (queued eng) (- fetched)\<rparr>"

definition pool_stop :: "nat set \<Rightarrow> engine \<Rightarrow> engine" where
  "pool_stop fetched eng = pool_clear fetched (eng\<lparr>pool_running := False\<rparr>)"

text \<open>Decimal output of a non-negative int, as \<open>snprintf\<close> with \<open>%d\<close> makes it.\<close>

fun decimal :: "nat \<Rightarrow> string" where
  "decimal n = (if n < 10 then [char_of (48 + n)] else decimal (n div 10) @ [char_of (48 + n mod 10)])"

declare decimal.simps [simp del]

subsection \<open>Conditions\<close>

definition greater_than :: "env \<Rightarrow> string \<Rightarrow> string list \<Rightarrow> bool" where
  "greater_than E arg argv = (if length argv < 2 then False else if e_le E arg (argv ! 1) then False else True)"

definition less_than :: "env \<Rightarrow> string \<Rightarrow> string list \<Rightarrow> bool" where
  "less_than E arg argv = (if length argv < 2 then False else if e_ge E arg (argv ! 1) then False else True)"

definition time_before :: "env \<Rightarrow> string \<Rightarrow> string list \<Rightarrow> bool" where
  "time_before E arg argv =
     (if length argv < 2 then False
      else case (Str2Time (e_mktime E) arg, Str2Time (e_mktime E) (argv ! 1)) of
             (Some t1, Some t2) \<Rightarrow> \<not> t1 \<ge> t2
           | _ \<Rightarrow> True)"

definition time_after :: "env \<Rightarrow> string \<Rightarrow> string list \<Rightarrow> bool" where
  "time_after E arg argv =
     (if length argv < 2 then False
      else case (Str2Time (e_mktime E) arg, Str2Time (e_mktime E) (argv ! 1)) of
             (Some t1, Some t2) \<Rightarrow> \<not> t1 \<le> t2
           | _ \<Rightarrow> True)"

definition sub_str :: "string \<Rightarrow> string list \<Rightarrow> bool" where
  "sub_str arg argv = (if length argv < 2 then False else list_ex (\<lambda>s. find_str arg s 0 \<noteq> None) (tl argv))"

text \<open>\<open>strtoull\<close> in base 10: a minus sign negates modulo \<open>2 ^ 64\<close>, a value out of range is the maximum.
  The divisor is the \<open>int\<close> of \<open>atoi\<close> converted to the unsigned type. Division by zero traps (\<open>None\<close>).\<close>

definition strtoull :: "string \<Rightarrow> uint64" where
  "strtoull s = (case dropWhile is_space (c_str s) of
      [] \<Rightarrow> 0
    | c # t \<Rightarrow>
        (let neg = (c = CHR ''-''); v = digits_value 0 (if c = CHR ''-'' \<or> c = CHR ''+'' then t else c # t)
         in if v \<ge> 2 ^ 64 then - 1 else if neg then - word_of_int v else word_of_int v))"

definition mod_cond :: "string \<Rightarrow> string list \<Rightarrow> bool option" where
  "mod_cond arg argv =
     (if length argv < 2 then Some False
      else let d = (word_of_int (atoi (argv ! 1)) :: uint64)
           in if d = 0 then None else Some (strtoull arg mod d = 0))"

text \<open>\<open>FunDict\<close>, filled by the constructor.\<close>

definition FunDict :: "env \<Rightarrow> string \<Rightarrow> (string \<Rightarrow> string list \<Rightarrow> bool option) option" where
  "FunDict E f =
     (if f = ''greater_than'' then Some (\<lambda>a v. Some (greater_than E a v))
      else if f = ''less_than'' then Some (\<lambda>a v. Some (less_than E a v))
      else if f = ''time_before'' then Some (\<lambda>a v. Some (time_before E a v))
      else if f = ''time_after'' then Some (\<lambda>a v. Some (time_after E a v))
      else if f = ''sub_str'' then Some (\<lambda>a v. Some (sub_str a v))
      else if f = ''mod'' then Some mod_cond
      else None)"

text \<open>The loop over the conditions of an item.\<close>

fun meet_all :: "env \<Rightarrow> props \<Rightarrow> props \<Rightarrow> bool option" where
  "meet_all E meta [] = Some True"
| "meet_all E meta ((k, ev) # cs) =
     (case map_of meta k of
        None \<Rightarrow> Some False
      | Some arg \<Rightarrow>
          if ev = [] then meet_all E meta cs
          else (let argv = split ev CHR '' '' 0
                in case FunDict E (argv ! 0) of
                     None \<Rightarrow> meet_all E meta cs
                   | Some f \<Rightarrow> (case f arg argv of
                        None \<Rightarrow> None | Some False \<Rightarrow> Some False | Some True \<Rightarrow> meet_all E meta cs)))"


subsection \<open>Running a rule\<close>

text \<open>How an iteration ends: go on at a position, leave the loop, or undefined behaviour.\<close>

datatype control = Next int | Break | Trap

definition set_meta :: "string \<Rightarrow> string \<Rightarrow> exec \<Rightarrow> exec" where
  "set_meta k v x = x\<lparr>x_ctx := (x_ctx x)\<lparr>metaData := smap_set k v (metaData (x_ctx x))\<rparr>\<rparr>"

definition set_status :: "statusCode \<Rightarrow> exec \<Rightarrow> exec" where
  "set_status st x = x\<lparr>x_ctx := (x_ctx x)\<lparr>ctxStatus := st\<rparr>\<rparr>"

text \<open>The search loop of \<open>.ToNextAction\<close>.\<close>

definition find_action :: "string \<Rightarrow> rule \<Rightarrow> nat \<Rightarrow> nat" where
  "find_action nm rule i =
     (case List.find (\<lambda>j. actionName (rule ! j) = nm) [i..<length rule] of
        Some j \<Rightarrow> j | None \<Rightarrow> max i (length rule))"

text \<open>
  \<open>.ToNextAction\<close>: the position where the loop goes on. \<open>skipSize\<close> is an unsigned field, so a negative number passes the test
  \<open>> 0\<close> and, added to the iterator, moves it backwards. The action to look for is read from the arguments of the item that the
  iterator has been moved to. \<open>None\<close>: there is no such item.
\<close>

definition to_next :: "rule \<Rightarrow> nat \<Rightarrow> rule_item \<Rightarrow> props \<Rightarrow> int option" where
  "to_next rule idx it meta =
     (let skip = (case map_of (inputArgs it) ''.ToNextAction.skipSize'' of
                    Some v \<Rightarrow> atoi v
                  | None \<Rightarrow> (case map_of meta ''.ToNextAction.skipSize'' of Some v \<Rightarrow> atoi v | None \<Rightarrow> 0));
          fromMeta = (case map_of meta ''.ToNextAction.ActionName'' of Some v \<Rightarrow> v | None \<Rightarrow> []);
          pos = int idx + skip
      in if pos < 0 \<or> pos \<ge> int (length rule) then None
         else (let lookfor = (case map_of (inputArgs (rule ! nat pos)) ''.ToNextAction.ActionName'' of
                                Some v \<Rightarrow> if v \<noteq> [] then v else fromMeta
                              | None \<Rightarrow> fromMeta)
               in if lookfor = [] then Some (pos + 1)
                  else Some (int (find_action lookfor rule (nat pos + 1)))))"

text \<open>Step 4: the output parameters that the item maps to context metadata.\<close>

fun copy_outputs :: "props \<Rightarrow> props \<Rightarrow> exec \<Rightarrow> exec" where
  "copy_outputs [] out x = x"
| "copy_outputs ((k, m) # os) out x =
     copy_outputs os out
       (if m = [] then x else case map_of out k of None \<Rightarrow> x | Some v \<Rightarrow> set_meta m v x)"

text \<open>The constructor for a branch: the child's transaction id gets the position as suffix. It is not
  entered into the table of transactions.\<close>

definition sub_cmd :: "rule_cmd \<Rightarrow> actx \<Rightarrow> rule \<Rightarrow> string \<Rightarrow> nat \<Rightarrow> rule_cmd" where
  "sub_cmd parent ctx subRule subRuleName branchId =
     \<lparr>cmd_ctx = ctx, cmd_rule = subRule, cmd_ruleName = subRuleName,
      cmd_txnId = (if cmd_txnId parent \<noteq> [] then cmd_txnId parent @ CHR ''#'' # decimal branchId else []),
      cmd_depth = cmd_depth parent + 1\<rparr>"

text \<open>One iteration of the loop of \<open>run\<close> at a valid position.\<close>

definition invoke_action :: "env \<Rightarrow> rule_item \<Rightarrow> nat \<Rightarrow> nat \<Rightarrow> exec \<Rightarrow> exec \<times> control" where
  "invoke_action E it ptr idx x =
     (case e_act E ptr (x_ctx x) (inputArgs it) of
        Raised c out \<Rightarrow> (set_status aFailedQuit (x\<lparr>x_ctx := c, x_out := out, x_trace := x_trace x @ [idx]\<rparr>), Break)
      | Returned c out \<Rightarrow>
          (let x1 = x\<lparr>x_ctx := c, x_out := out, x_trace := x_trace x @ [idx]\<rparr>
           in if ctxStatus c = aFailed then (x1, Next (int idx + 1))
              else if ctxStatus c = aFailedQuit then (x1, Break)
              else (copy_outputs (output2ctx it) out x1,
                    if ctxStatus c = aSucceedQuit then Break else Next (int idx + 1))))"

definition run_item :: "env \<Rightarrow> engine \<Rightarrow> rule_cmd \<Rightarrow> nat \<Rightarrow> exec \<Rightarrow> exec \<times> control" where
  "run_item E eng cmd idx x =
     (let it = cmd_rule cmd ! idx
      in if isASubRule it
         then (case map_of (ruleMap eng) (actionName it) of
                 None \<Rightarrow> (x, Next (int idx + 1))
               | Some r \<Rightarrow> (x\<lparr>x_spawn := x_spawn x @ [sub_cmd cmd (x_ctx x) r (actionName it) idx]\<rparr>, Next (int idx + 1)))
         else (case meet_all E (metaData (x_ctx x)) (conditions it) of
             None \<Rightarrow> (x, Trap)
           | Some False \<Rightarrow> (x, Next (int idx + 1))
           | Some True \<Rightarrow>
               (let x1 = set_meta ''sys.LastActionIdx'' (decimal idx) (set_meta ''sys.LastActionName'' (actionName it) x)
                in if actionName it = ''.ToNextAction''
                   then (case to_next (cmd_rule cmd) idx it (metaData (x_ctx x1)) of
                           None \<Rightarrow> (x1, Trap) | Some i \<Rightarrow> (x1, Next i))
                   else (case map_of (actions eng) (actionName it) of
                           None \<Rightarrow> (set_status aFailedQuit x1, Break)
                         | Some ptr \<Rightarrow> invoke_action E it ptr idx (x1\<lparr>x_out := []\<rparr>)))))"

text \<open>The loop, with fuel. The result says whether the run was free of undefined behaviour.\<close>

fun run_loop :: "nat \<Rightarrow> env \<Rightarrow> engine \<Rightarrow> rule_cmd \<Rightarrow> int \<Rightarrow> exec \<Rightarrow> (exec \<times> bool) option" where
  "run_loop 0 E eng cmd idx x = None"
| "run_loop (Suc fuel) E eng cmd idx x =
     (if idx \<ge> int (length (cmd_rule cmd)) then Some (x, True)
      else if idx < 0 then Some (x, False)
      else (case run_item E eng cmd (nat idx) x of
              (x', Next i) \<Rightarrow> run_loop fuel E eng cmd i x'
            | (x', Break) \<Rightarrow> Some (x', True)
            | (x', Trap) \<Rightarrow> Some (x', False)))"

definition start_exec :: "rule_cmd \<Rightarrow> exec" where
  "start_exec cmd = \<lparr>x_ctx = cmd_ctx cmd, x_out = [], x_spawn = [], x_trace = []\<rparr>"

text \<open>\<open>run\<close>: the transaction becomes free again when the command starts.\<close>

definition free_txn :: "string \<Rightarrow> txn_map \<Rightarrow> txn_map" where
  "free_txn t txns = filter (\<lambda>e. fst e \<noteq> t) txns"

text \<open>
  A run that nothing interleaves with. A sub rule's end is reported by \<open>OnRuleExecuted\<close> (name, final context, transaction), the
  dispatcher's is not.
\<close>

definition run_cmd :: "nat \<Rightarrow> env \<Rightarrow> txn_map \<Rightarrow> engine \<Rightarrow> rule_cmd \<Rightarrow>
    (txn_map \<times> engine \<times> exec \<times> bool \<times> (string \<times> actx \<times> string) option) option" where
  "run_cmd fuel E txns eng cmd =
     (case run_loop fuel E eng cmd 0 (start_exec cmd) of
        None \<Rightarrow> None
      | Some (x, ok) \<Rightarrow>
          Some (free_txn (cmd_txnId cmd) txns, fold start_cmd (x_spawn x) eng, x, ok,
            if ok \<and> cmd_depth cmd > 0 then Some (cmd_ruleName cmd, x_ctx x, cmd_txnId cmd) else None))"

text \<open>
  The same in steps, for runs on several threads: a thread takes a command from the queue and frees its transaction, and then
  makes one iteration after the other, on the tables as they are then; it starts the sub rules as it meets them. \<open>None\<close> is
  undefined behaviour.
\<close>

definition take_cmd :: "nat \<Rightarrow> txn_map \<Rightarrow> engine \<Rightarrow> txn_map \<times> engine" where
  "take_cmd k txns eng =
     (let cmd = queued eng ! k
      in (free_txn (cmd_txnId cmd) txns,
          eng\<lparr>queued := take k (queued eng) @ drop (Suc k) (queued eng),
              executing := executing eng @ [\<lparr>a_cmd = cmd, a_pos = 0, a_exec = start_exec cmd\<rparr>]\<rparr>))"

definition iterate :: "env \<Rightarrow> nat \<Rightarrow> engine \<Rightarrow> engine option" where
  "iterate E k eng =
     (let a = executing eng ! k; cmd = a_cmd a; others = take k (executing eng); after = drop (Suc k) (executing eng)
      in if a_pos a \<ge> int (length (cmd_rule cmd)) then Some (eng\<lparr>executing := others @ after\<rparr>)
         else if a_pos a < 0 then None
         else (case run_item E eng cmd (nat (a_pos a)) (a_exec a\<lparr>x_spawn := []\<rparr>) of
                 (x, Next i) \<Rightarrow> Some (fold start_cmd (x_spawn x) (eng\<lparr>executing := others @ [a\<lparr>a_pos := i, a_exec := x\<rparr>] @ after\<rparr>))
               | (x, Break) \<Rightarrow> Some (fold start_cmd (x_spawn x) (eng\<lparr>executing := others @ after\<rparr>))
               | (x, Trap) \<Rightarrow> None))"

subsection \<open>Rules, events and actions\<close>

text \<open>
  \<open>maxDepth\<close>, with fuel: the two counters are passed by reference. The loop over the items of a rule takes
  the recursive call as an argument.
\<close>

fun depth_items :: "(rule \<Rightarrow> int \<times> int \<Rightarrow> (int \<times> int) option) \<Rightarrow> (string \<times> rule) list \<Rightarrow> string \<Rightarrow> rule \<Rightarrow>
    rule \<Rightarrow> int \<times> int \<Rightarrow> (int \<times> int) option" where
  "depth_items rec rm ruleName regRule [] cm = Some cm"
| "depth_items rec rm ruleName regRule (it # its) (cur, mx) =
     (if isASubRule it
      then (case (if actionName it = ruleName then Some regRule else map_of rm (actionName it)) of
              None \<Rightarrow> depth_items rec rm ruleName regRule its (0, max mx (cur + 1))
            | Some sub \<Rightarrow>
                (case rec sub (cur + 1, mx) of
                   None \<Rightarrow> None
                 | Some cm \<Rightarrow> depth_items rec rm ruleName regRule its cm))
      else depth_items rec rm ruleName regRule its (cur, mx))"

fun maxDepth :: "nat \<Rightarrow> int \<Rightarrow> (string \<times> rule) list \<Rightarrow> string \<Rightarrow> rule \<Rightarrow> rule \<Rightarrow> int \<times> int \<Rightarrow> (int \<times> int) option" where
  "maxDepth 0 limit rm ruleName regRule rule cm = None"
| "maxDepth (Suc fuel) limit rm ruleName regRule rule (cur, mx) =
     (if mx > limit \<or> cur > limit then Some (cur, mx)
      else map_option (\<lambda>(cur', mx'). (0, max mx' cur'))
             (depth_items (maxDepth fuel limit rm ruleName regRule) rm ruleName regRule rule (cur, mx)))"

definition known_action :: "engine \<Rightarrow> string \<Rightarrow> bool" where
  "known_action eng nm \<longleftrightarrow> nm \<noteq> [] \<and> map_of (actions eng) nm \<noteq> None \<or> nm = ''.ToNextAction''"

definition registerRule :: "nat \<Rightarrow> string \<Rightarrow> rule \<Rightarrow> engine \<Rightarrow> (engine \<times> bool) option" where
  "registerRule fuel ruleName rule eng =
     (if ruleName = [] then Some (eng, False)
      else if rule = [] then Some (eng\<lparr>ruleMap := smap_erase ruleName (ruleMap eng)\<rparr>, True)
      else if \<not> list_all (\<lambda>it. isASubRule it \<or> known_action eng (actionName it)) rule then Some (eng, False)
      else (let stored = eng\<lparr>ruleMap := smap_set ruleName rule (ruleMap eng)\<rparr>
            in if list_ex isASubRule rule
               then (case maxDepth fuel (depthLimit eng) (ruleMap eng) ruleName rule rule (0, 0) of
                       None \<Rightarrow> None
                     | Some (_, currentMax) \<Rightarrow>
                         if currentMax > depthLimit eng then Some (eng, False) else Some (stored, True))
               else Some (stored, True)))"

definition search_key :: "string \<Rightarrow> string \<Rightarrow> string" where
  "search_key category eventName = category @ ''$'' @ eventName"

definition applyRulesToEvent :: "string \<Rightarrow> string \<Rightarrow> string list \<Rightarrow> engine \<Rightarrow> engine \<times> bool" where
  "applyRulesToEvent category eventName ruleNames eng =
     (let key = search_key category eventName; names = filter (\<lambda>n. n \<noteq> []) ruleNames
      in if category = [] \<or> eventName = [] then (eng, False)
         else if length key < 3 then (eng, False)
         else if names = [] then (eng\<lparr>eventToRules := smap_erase key (eventToRules eng)\<rparr>, True)
         else (eng\<lparr>eventToRules := smap_set key names (eventToRules eng)\<rparr>, True))"

definition getRulesOfEvent :: "string \<Rightarrow> string \<Rightarrow> engine \<Rightarrow> string list" where
  "getRulesOfEvent category eventName eng =
     (case map_of (eventToRules eng) (search_key category eventName) of None \<Rightarrow> [] | Some rs \<Rightarrow> rs)"

definition registerAction :: "string \<Rightarrow> nat \<Rightarrow> string \<Rightarrow> engine \<Rightarrow> engine \<times> bool" where
  "registerAction nm ptr alias eng =
     (let search = (if alias \<noteq> [] then alias else nm)
      in if search = [] then (eng, False)
         else (eng\<lparr>actions := smap_set search ptr (actions eng)\<rparr>, True))"

definition unregisterAction :: "string \<Rightarrow> engine \<Rightarrow> engine \<times> bool" where
  "unregisterAction search eng =
     (if search = [] then (eng, False)
      else case map_of (actions eng) search of
             None \<Rightarrow> (eng, False)
           | Some _ \<Rightarrow> (eng\<lparr>actions := smap_erase search (actions eng)\<rparr>, True))"

text \<open>The constructor and the destructor of an action.\<close>

definition Action_ctor :: "string option \<Rightarrow> nat \<Rightarrow> engine \<Rightarrow> engine" where
  "Action_ctor nm ptr eng = fst (registerAction (case nm of None \<Rightarrow> ''NULL'' | Some n \<Rightarrow> n) ptr [] eng)"

definition Action_dtor :: "string \<Rightarrow> engine \<Rightarrow> engine" where
  "Action_dtor nm eng = fst (unregisterAction nm eng)"

text \<open>
  The constructor of a top-level command at the address \<open>p\<close>: it throws (\<open>None\<close>) when the transaction is listed with another
  address; \<open>insert\<close> leaves an entry that is there as it is.
\<close>

definition new_cmd :: "nat \<Rightarrow> rule \<Rightarrow> string \<Rightarrow> string \<Rightarrow> txn_map \<Rightarrow> (txn_map \<times> rule_cmd) option" where
  "new_cmd p rule ruleName txn txns =
     (let cmd = \<lparr>cmd_ctx = \<lparr>ctxStatus = aSucceed, metaData = []\<rparr>, cmd_rule = rule, cmd_ruleName = ruleName,
                 cmd_txnId = txn, cmd_depth = 0\<rparr>
      in if txn = [] then Some (txns, cmd)
         else case map_of txns txn of
                Some q \<Rightarrow> if p \<noteq> q then None else Some (txns, cmd)
              | None \<Rightarrow> Some (smap_set txn p txns, cmd))"

definition event_item :: "string \<Rightarrow> rule_item" where
  "event_item r = \<lparr>actionName = r, isASubRule = True, conditions = [], inputArgs = [(''Invoke.type'', ''event'')], output2ctx = []\<rparr>"

definition event_meta :: "string \<Rightarrow> string \<Rightarrow> string \<Rightarrow> string \<Rightarrow> props \<Rightarrow> props" where
  "event_meta category eventName stamp sourceNetId params =
     fold (\<lambda>(k, v). smap_insert (''Event.'' @ k) v) params
       (smap_insert ''Event.stampISO8601'' stamp (smap_insert ''Event.sourceNetId'' sourceNetId
         (smap_insert ''Event.name'' eventName (smap_insert ''Event.category'' category []))))"

definition OnEvent :: "string \<Rightarrow> string \<Rightarrow> string \<Rightarrow> string \<Rightarrow> props \<Rightarrow> string \<Rightarrow> nat \<Rightarrow> txn_map \<Rightarrow> engine \<Rightarrow> txn_map \<times> engine" where
  "OnEvent category eventName stamp sourceNetId params txn p txns eng =
     (case map_of (eventToRules eng) (search_key category eventName) of
        None \<Rightarrow> (txns, eng)
      | Some names \<Rightarrow>
          if names = [] then (txns, eng)
          else (case new_cmd p (map event_item names) (''dispathEvent('' @ search_key category eventName @ '')'') txn txns of
                  None \<Rightarrow> (txns, eng)
                | Some (txns1, cmd) \<Rightarrow>
                    (txns1, start_cmd (cmd\<lparr>cmd_ctx := (cmd_ctx cmd)\<lparr>metaData :=
                       event_meta category eventName stamp sourceNetId params\<rparr>\<rparr>) eng)))"

subsection \<open>Synchronous invocation\<close>

datatype wait_state = SIGNALED | TIMEDOUT | UNKNOWN

text \<open>\<open>tryWait\<close>, from the state that the wait on the semaphore returns.\<close>

definition tryWait :: "wait_state \<Rightarrow> bool" where
  "tryWait w = (if w = TIMEDOUT then True else False)"

definition invoke_cmd :: "string \<Rightarrow> props \<Rightarrow> actx \<Rightarrow> rule_cmd" where
  "invoke_cmd actName input ctx =
     \<lparr>cmd_ctx = ctx,
      cmd_rule = [\<lparr>actionName = actName, isASubRule = False, conditions = [],
                   inputArgs = smap_insert ''Invoke.type'' ''internal'' input, output2ctx = [(''*'', [])]\<rparr>],
      cmd_ruleName = CHR ''#'' # actName, cmd_txnId = [], cmd_depth = 0\<rparr>"

text \<open>\<open>invoke\<close>: the result, with the caller's context and output afterwards. \<open>x\<close> is the state of the
  command's run at the moment the wait ends with \<open>w\<close>.\<close>

definition invoke_result :: "wait_state \<Rightarrow> exec \<Rightarrow> actx \<Rightarrow> props \<Rightarrow> bool \<times> actx \<times> props" where
  "invoke_result w x ctx out =
     (if \<not> tryWait w \<or> (ctxStatus (x_ctx x) = aFailedQuit \<and> ctxStatus (x_ctx x) = aFailed)
      then (False, ctx, out) else (True, x_ctx x, x_out x))"

end
