(* ===== verification/Rule_Engine.thy ===== *)
theory Rule_Engine
  imports Rule_Engine_Model
begin

text \<open>
  Properties of the rule engine: the invariant of its tables and queue, the execution order of a rule and
  when a run ends, what the limit on nesting checks, and the fate of duplicate transactions.
\<close>

subsection \<open>Running forward\<close>

text \<open>
  Rules that jump forward only and whose conditions do not trap: a skip that a \<open>.ToNextAction\<close> item names is not negative and leads
  to an item of the rule, and so do the skips up to \<open>n\<close> that it may read from the metadata otherwise; no output is mapped to the
  metadata of the skip, and no \<open>mod\<close> condition has a divisor that reads as zero.
\<close>

abbreviation skip_key :: string where "skip_key \<equiv> ''.ToNextAction.skipSize''"

definition safe_condition :: "string \<Rightarrow> bool" where
  "safe_condition ev \<longleftrightarrow>
     (let argv = split ev CHR '' '' 0
      in ev = [] \<or> argv ! 0 \<noteq> ''mod'' \<or> length argv < 2 \<or> (word_of_int (atoi (argv ! 1)) :: uint64) \<noteq> 0)"

definition forward_item :: "nat \<Rightarrow> rule \<Rightarrow> nat \<Rightarrow> bool" where
  "forward_item n rule idx \<longleftrightarrow>
     (let it = rule ! idx in isASubRule it \<or>
        list_all safe_condition (map snd (conditions it)) \<and> skip_key \<notin> snd ` set (output2ctx it) \<and>
        (actionName it = ''.ToNextAction'' \<longrightarrow>
           (case map_of (inputArgs it) skip_key of
              None \<Rightarrow> idx + n < length rule | Some v \<Rightarrow> 0 \<le> atoi v \<and> int idx + atoi v < int (length rule))))"

text \<open>Metadata, and actions, that set no skip but those from 0 to \<open>n\<close>.\<close>

definition skip_ok :: "nat \<Rightarrow> props \<Rightarrow> bool" where
  "skip_ok n meta \<longleftrightarrow> (case map_of meta skip_key of None \<Rightarrow> True | Some v \<Rightarrow> 0 \<le> atoi v \<and> atoi v \<le> int n)"

definition result_ctx :: "action_result \<Rightarrow> actx" where
  "result_ctx r = (case r of Returned c out \<Rightarrow> c | Raised c out \<Rightarrow> c)"

definition forward_actions :: "nat \<Rightarrow> env \<Rightarrow> bool" where
  "forward_actions n E \<longleftrightarrow> (\<forall>ptr c args. skip_ok n (metaData c) \<longrightarrow> skip_ok n (metaData (result_ctx (e_act E ptr c args))))"

lemma set_meta_fields [simp]:
  "x_trace (set_meta k v x) = x_trace x" "x_spawn (set_meta k v x) = x_spawn x" "x_out (set_meta k v x) = x_out x"
  "ctxStatus (x_ctx (set_meta k v x)) = ctxStatus (x_ctx x)"
  "metaData (x_ctx (set_meta k v x)) = smap_set k v (metaData (x_ctx x))"
  by (simp_all add: set_meta_def)

lemma set_status_fields [simp]:
  "x_trace (set_status st x) = x_trace x" "x_spawn (set_status st x) = x_spawn x" "x_out (set_status st x) = x_out x"
  "ctxStatus (x_ctx (set_status st x)) = st" "metaData (x_ctx (set_status st x)) = metaData (x_ctx x)"
  by (simp_all add: set_status_def)

lemma copy_outputs_fields [simp]:
  "x_trace (copy_outputs os out x) = x_trace x" "x_spawn (copy_outputs os out x) = x_spawn x"
  "x_out (copy_outputs os out x) = x_out x" "ctxStatus (x_ctx (copy_outputs os out x)) = ctxStatus (x_ctx x)"
  by (induction os out x rule: copy_outputs.induct) (auto split: option.splits)

lemma find_action_ge: "i \<le> find_action nm rule i"
  by (auto simp: find_action_def find_upt_Some split: option.splits)

lemma skip_ok_set: "k \<noteq> skip_key \<Longrightarrow> skip_ok n (smap_set k v m) = skip_ok n m"
  by (simp add: skip_ok_def std_simps)

lemma skip_ok_outputs: "skip_key \<notin> snd ` set os \<Longrightarrow> skip_ok n (metaData (x_ctx x)) \<Longrightarrow> skip_ok n (metaData (x_ctx (copy_outputs os out x)))"
proof (induction os out x rule: copy_outputs.induct)
  case (2 k m os out x)
  have "skip_ok n (metaData (x_ctx (if m = [] then x else case map_of out k of None \<Rightarrow> x | Some v \<Rightarrow> set_meta m v x)))"
    using "2.prems" skip_ok_set [of m] by (auto split: option.splits)
  then show ?case using "2.IH" "2.prems"(1) by simp
qed simp

lemma meet_all_safe: "list_all safe_condition (map snd cs) \<Longrightarrow> meet_all E meta cs \<noteq> None"
proof (induction E meta cs rule: meet_all.induct)
  case (2 E meta k ev cs)
  show ?case
  proof (cases "map_of meta k")
    case (Some arg)
    let ?argv = "split ev CHR '' '' 0"
    have f: "f arg ?argv \<noteq> None" if "ev \<noteq> []" "FunDict E (?argv ! 0) = Some f" for f
      using that "2.prems" by (auto simp: FunDict_def mod_cond_def safe_condition_def Let_def split: if_splits)
    have rest: "list_all safe_condition (map snd cs)" using "2.prems" by simp
    show ?thesis
    proof (cases "ev = [] \<or> FunDict E (?argv ! 0) = None")
      case True
      then show ?thesis using "2.IH"(1,2) [OF Some] rest Some by (auto simp: Let_def)
    next
      case False
      then obtain g b where g: "ev \<noteq> []" "FunDict E (?argv ! 0) = Some g" "g arg ?argv = Some b" using f by blast
      show ?thesis using "2.IH"(3) [OF Some g(1) refl g(2)] g rest Some by (cases b) (simp_all add: Let_def)
    qed
  qed simp
qed simp

lemma to_next_forward:
  assumes "forward_item n rule idx" and "idx < length rule" and "\<not> isASubRule (rule ! idx)" and "actionName (rule ! idx) = ''.ToNextAction''"
    and "skip_ok n meta"
  shows "\<exists>i. to_next rule idx (rule ! idx) meta = Some i \<and> int idx < i"
proof -
  define sk where "sk = (case map_of (inputArgs (rule ! idx)) skip_key of Some v \<Rightarrow> atoi v
      | None \<Rightarrow> (case map_of meta skip_key of Some v \<Rightarrow> atoi v | None \<Rightarrow> 0))"
  have sk: "0 \<le> sk" "int idx + sk < int (length rule)"
    using assms by (auto simp: sk_def forward_item_def skip_ok_def Let_def split: option.splits)
  have "int idx < int (find_action nm rule (nat (int idx + sk) + 1))" for nm
    using find_action_ge [of "nat (int idx + sk) + 1" nm rule] sk by linarith
  with sk show ?thesis by (auto simp: to_next_def sk_def [symmetric] Let_def not_le)
qed

text \<open>One iteration invokes at most the action at its position, only moves forward, and does not trap.\<close>

lemma invoke_action_trace:
  "invoke_action E it ptr idx x = (x', c) \<Longrightarrow> x_trace x' = x_trace x @ [idx] \<and> (\<forall>i. c = Next i \<longrightarrow> i = int idx + 1)
     \<and> x_spawn x' = x_spawn x \<and> c \<noteq> Trap"
  by (auto simp: invoke_action_def Let_def split: action_result.splits if_splits)

lemma invoke_action_skip:
  assumes "invoke_action E it ptr idx x = (x', c)" and "forward_actions n E" and "skip_key \<notin> snd ` set (output2ctx it)"
    and "skip_ok n (metaData (x_ctx x))"
  shows "skip_ok n (metaData (x_ctx x'))"
proof -
  have r: "skip_ok n (metaData (result_ctx (e_act E ptr (x_ctx x) (inputArgs it))))"
    using assms(2,4) by (simp add: forward_actions_def)
  show ?thesis
  proof (cases "e_act E ptr (x_ctx x) (inputArgs it)")
    case (Returned c out)
    then show ?thesis
      using assms(1,3) r
      by (auto simp: invoke_action_def result_ctx_def Let_def skip_ok_outputs split: if_splits)
  next
    case (Raised c out)
    then show ?thesis using assms(1) r by (auto simp: invoke_action_def result_ctx_def)
  qed
qed

lemma run_item_trace:
  assumes run: "run_item E eng cmd idx x = (x', c)" and len: "idx < length (cmd_rule cmd)" and fw: "forward_item n (cmd_rule cmd) idx" and acts: "forward_actions n E"
    and sk: "skip_ok n (metaData (x_ctx x))"
  shows "(x_trace x' = x_trace x \<or> x_trace x' = x_trace x @ [idx]) \<and> (\<forall>i. c = Next i \<longrightarrow> int idx < i) \<and> c \<noteq> Trap \<and>
     skip_ok n (metaData (x_ctx x'))"
proof (cases "isASubRule (cmd_rule cmd ! idx)")
  case True
  with run sk show ?thesis by (auto simp: run_item_def Let_def split: option.splits)
next
  case False
  let ?it = "cmd_rule cmd ! idx"
  let ?x1 = "set_meta ''sys.LastActionIdx'' (decimal idx) (set_meta ''sys.LastActionName'' (actionName ?it) x)"
  have sk1: "skip_ok n (metaData (x_ctx ?x1))" using sk by (simp add: skip_ok_set)
  have safe: "list_all safe_condition (map snd (conditions ?it))" and out: "skip_key \<notin> snd ` set (output2ctx ?it)"
    using fw False by (simp_all add: forward_item_def Let_def)
  obtain b where b: "meet_all E (metaData (x_ctx x)) (conditions ?it) = Some b" using meet_all_safe [OF safe] by blast
  show ?thesis
  proof (cases b)
    case no: False
    with run sk False b show ?thesis by (auto simp: run_item_def Let_def)
  next
    case meet: True
    show ?thesis
    proof (cases "actionName ?it = ''.ToNextAction''")
      case True
      from to_next_forward [OF fw len False True sk1] obtain i where
        "to_next (cmd_rule cmd) idx ?it (metaData (x_ctx ?x1)) = Some i" "int idx < i" by blast
      with run False b meet True sk1 show ?thesis by (auto simp: run_item_def Let_def)
    next
      case other: False
      show ?thesis
      proof (cases "map_of (actions eng) (actionName ?it)")
        case None
        with run False b meet other sk1 show ?thesis by (auto simp: run_item_def Let_def)
      next
        case (Some ptr)
        with run False b meet other have inv: "invoke_action E ?it ptr idx (?x1\<lparr>x_out := []\<rparr>) = (x', c)"
          by (simp add: run_item_def Let_def)
        note tr = invoke_action_trace [OF inv]
        have "skip_ok n (metaData (x_ctx x'))" by (rule invoke_action_skip [OF inv acts out]) (use sk1 in simp)
        moreover have "x_trace x' = x_trace x @ [idx]" "c \<noteq> Trap" using tr by simp_all
        moreover have "int idx < i" if "c = Next i" for i using tr that by simp
        ultimately show ?thesis by blast
      qed
    qed
  qed
qed

lemma run_loop_forward:
  assumes "\<forall>i < length (cmd_rule cmd). forward_item n (cmd_rule cmd) i" and "forward_actions n E" and "skip_ok n (metaData (x_ctx x))" and "0 \<le> idx"
    and "length (cmd_rule cmd) - nat idx < fuel"
    and "sorted_wrt (<) (x_trace x)" and "\<forall>i \<in> set (x_trace x). int i < idx" and "\<forall>i \<in> set (x_trace x). i < length (cmd_rule cmd)"
  shows "\<exists>x'. run_loop fuel E eng cmd idx x = Some (x', True) \<and> sorted_wrt (<) (x_trace x') \<and>
     (\<forall>i \<in> set (x_trace x'). i < length (cmd_rule cmd))"
  using assms
proof (induction fuel E eng cmd idx x rule: run_loop.induct)
  case (2 fuel E eng cmd idx x)
  show ?case
  proof (cases "idx \<ge> int (length (cmd_rule cmd))")
    case True
    with 2 show ?thesis by simp
  next
    case False
    let ?n = "nat idx"
    have n: "?n < length (cmd_rule cmd)" "int ?n = idx" using False "2.prems"(4) by auto
    then have fw: "forward_item n (cmd_rule cmd) ?n" using "2.prems"(1) by simp
    obtain x1 c where st: "run_item E eng cmd ?n x = (x1, c)" by fastforce
    note tr = run_item_trace [OF st n(1) fw "2.prems"(2,3)]
    have below: "\<forall>i \<in> set (x_trace x). i < ?n" using "2.prems"(7) n by fastforce
    have tr1: "sorted_wrt (<) (x_trace x1)" "\<forall>i \<in> set (x_trace x1). int i < idx + 1"
      "\<forall>i \<in> set (x_trace x1). i < length (cmd_rule cmd)"
      using tr "2.prems"(6,8) n below by (fastforce simp: sorted_wrt_append)+
    show ?thesis
    proof (cases c)
      case (Next i)
      then have i: "idx < i" using tr n by simp
      have "nat idx < nat i" using i "2.prems"(4) by simp
      then have pre: "length (cmd_rule cmd) - nat i < fuel" using "2.prems"(5) n by linarith
      have tr2: "\<forall>j \<in> set (x_trace x1). int j < i" using tr1(2) i by fastforce
      have neg: "\<not> idx < 0" and "0 \<le> i" and sk: "skip_ok n (metaData (x_ctx x1))" using i "2.prems"(4) tr by simp_all
      note "2.IH" [OF False neg st [symmetric] Next "2.prems"(1,2) sk this(2) pre tr1(1) tr2 tr1(3)]
      with False "2.prems"(4) st Next show ?thesis by simp
    next
      case Break
      with False "2.prems"(4) st tr1 show ?thesis by simp
    next
      case Trap
      with tr show ?thesis by simp
    qed
  qed
qed simp

subsection \<open>Depth of sub rules\<close>

definition sub_names :: "rule \<Rightarrow> string list" where
  "sub_names r = map actionName (filter isASubRule r)"

lemma depth_items_none: "sub_names r = [] \<Longrightarrow> depth_items rec rm nm reg r cm = Some cm"
  by (induction r arbitrary: cm) (auto simp: sub_names_def split: if_splits)

definition resolve :: "(string \<times> rule) list \<Rightarrow> string \<Rightarrow> rule \<Rightarrow> string \<Rightarrow> rule option" where
  "resolve rm nm reg = (map_of rm)(nm \<mapsto> reg)"

lemma depth_items_sub:
  "sub_names r = x # xs \<Longrightarrow> \<exists>r'. sub_names r' = xs \<and>
     depth_items rec rm nm reg r (cur, mx) =
       (case resolve rm nm reg x of
          None \<Rightarrow> depth_items rec rm nm reg r' (0, max mx (cur + 1))
        | Some sub \<Rightarrow> (case rec sub (cur + 1, mx) of None \<Rightarrow> None | Some cm \<Rightarrow> depth_items rec rm nm reg r' cm))"
proof (induction r)
  case (Cons it r)
  then show ?case by (cases "isASubRule it") (auto simp: sub_names_def resolve_def)
qed (simp add: sub_names_def)

text \<open>A rule whose references form a single chain of length \<open>n\<close>.\<close>

inductive chain :: "(string \<Rightarrow> rule option) \<Rightarrow> rule \<Rightarrow> nat \<Rightarrow> bool" for m where
  leaf: "sub_names r = [] \<Longrightarrow> chain m r 0"
| open_end: "sub_names r = [x] \<Longrightarrow> m x = None \<Longrightarrow> chain m r 1"
| link: "sub_names r = [x] \<Longrightarrow> m x = Some r' \<Longrightarrow> chain m r' n \<Longrightarrow> chain m r (Suc n)"

lemma maxDepth_chain:
  assumes "chain (resolve rm nm reg) r n" and "0 \<le> cur" and "cur \<le> limit" and "n < fuel"
  shows "maxDepth fuel limit rm nm reg r (cur, 0) = Some (0, if cur + int n \<le> limit then cur + int n else limit + 1)"
  using assms
proof (induction arbitrary: cur fuel rule: chain.induct)
  case (leaf r)
  then show ?case by (cases fuel) (auto simp: depth_items_none)
next
  case (open_end r x)
  obtain f where f: "fuel = Suc f" using open_end.prems(3) by (cases fuel) auto
  obtain r0 where "sub_names r0 = []" and "depth_items (maxDepth f limit rm nm reg) rm nm reg r (cur, 0) =
      depth_items (maxDepth f limit rm nm reg) rm nm reg r0 (0, max 0 (cur + 1))"
    using depth_items_sub [OF open_end.hyps(1), of "maxDepth f limit rm nm reg" rm nm reg cur 0] open_end.hyps(2) by auto
  with open_end.prems show ?case by (auto simp: f depth_items_none)
next
  case (link r x r' n)
  obtain f where f: "fuel = Suc f" "n < f" using link.prems(3) by (cases fuel) auto
  let ?rec = "maxDepth f limit rm nm reg"
  obtain r0 where r0: "sub_names r0 = []" and d: "depth_items ?rec rm nm reg r (cur, 0) =
      (case ?rec r' (cur + 1, 0) of None \<Rightarrow> None | Some cm \<Rightarrow> depth_items ?rec rm nm reg r0 cm)"
    using depth_items_sub [OF link.hyps(1), of ?rec rm nm reg cur 0] link.hyps(2) by auto
  show ?case
  proof (cases "cur + 1 \<le> limit")
    case True
    from link.IH [OF _ True f(2)] link.prems(1) have
      "?rec r' (cur + 1, 0) = Some (0, if cur + 1 + int n \<le> limit then cur + 1 + int n else limit + 1)" by simp
    with d r0 link.prems True show ?thesis by (auto simp: f depth_items_none)
  next
    case False
    then have "?rec r' (cur + 1, 0) = Some (cur + 1, 0)" using f(2) by (cases f) auto
    with d r0 link.prems False show ?thesis by (auto simp: f depth_items_none)
  qed
qed

end
