(* ===== verification/Rule_Engine_Props.thy ===== *)
theory Rule_Engine_Props
  imports Rule_Engine
begin

text \<open>
  The rule engine as a machine whose commands run in any order, and the properties of the component.
\<close>

subsection \<open>The machine\<close>

datatype engine_op =
  Op_rule string rule | Op_apply string string "string list" | Op_register string nat string | Op_unregister string
| Op_event string string string string props string nat | Op_take nat | Op_iterate nat | Op_clear "nat set" | Op_stop "nat set"

text \<open>
  A step of one engine. The pool may take any queued command next, and any of the threads may make its next iteration. A pool that
  several engines share is cleared and stopped for each of them.
\<close>

fun engine_step :: "nat \<Rightarrow> env \<Rightarrow> txn_map \<Rightarrow> engine \<Rightarrow> engine_op \<Rightarrow> (txn_map \<times> engine) option" where
  "engine_step fuel E txns s (Op_rule nm r) = map_option (\<lambda>(s', _). (txns, s')) (registerRule fuel nm r s)"
| "engine_step fuel E txns s (Op_apply c ev rs) = Some (txns, fst (applyRulesToEvent c ev rs s))"
| "engine_step fuel E txns s (Op_register nm p al) = Some (txns, fst (registerAction nm p al s))"
| "engine_step fuel E txns s (Op_unregister nm) = Some (txns, fst (unregisterAction nm s))"
| "engine_step fuel E txns s (Op_event c ev st src ps txn p) = Some (OnEvent c ev st src ps txn p txns s)"
| "engine_step fuel E txns s (Op_take k) = (if k < length (queued s) then Some (take_cmd k txns s) else None)"
| "engine_step fuel E txns s (Op_iterate k) =
     (if k < length (executing s) then map_option (\<lambda>s'. (txns, s')) (iterate E k s) else None)"
| "engine_step fuel E txns s (Op_clear f) = Some (txns, pool_clear f s)"
| "engine_step fuel E txns s (Op_stop f) = Some (txns, pool_stop f s)"

text \<open>The engines of a process, with the table they share.\<close>

record process =
  engines :: "engine list"
  p_txns :: txn_map

definition new_process :: "int list \<Rightarrow> process" where
  "new_process depths = \<lparr>engines = map new_engine depths, p_txns = []\<rparr>"

text \<open>The commands in the queues with a transaction, and whether the id can belong to sub rules only.\<close>

definition posts :: "string \<Rightarrow> engine \<Rightarrow> nat" where
  "posts t eng = length (filter (\<lambda>c. cmd_txnId c = t) (queued eng))"

definition all_posts :: "string \<Rightarrow> engine list \<Rightarrow> nat" where
  "all_posts t es = sum_list (map (posts t) es)"

definition user_txn :: "string \<Rightarrow> bool" where
  "user_txn t \<longleftrightarrow> t \<noteq> [] \<and> CHR ''#'' \<notin> set t"

text \<open>The allocator does not give the address of a command that is queued to another one.\<close>

definition fresh_address :: "process \<Rightarrow> engine_op \<Rightarrow> bool" where
  "fresh_address s op =
     (case op of Op_event c ev st src ps t p \<Rightarrow> \<not> (user_txn t \<and> map_of (p_txns s) t = Some p \<and> 0 < all_posts t (engines s)) | _ \<Rightarrow> True)"

definition process_step :: "nat \<Rightarrow> env \<Rightarrow> process \<Rightarrow> nat \<times> engine_op \<Rightarrow> process option" where
  "process_step fuel E s x =
     (case x of (e, op) \<Rightarrow>
        if e < length (engines s) \<and> fresh_address s op
        then map_option (\<lambda>(txns, eng). \<lparr>engines = (engines s)[e := eng], p_txns = txns\<rparr>) (engine_step fuel E (p_txns s) (engines s ! e) op)
        else None)"

text \<open>The rules and event tables hold no empty entries, so a command that is queued or executed has something to run.\<close>

definition tables_ok :: "engine \<Rightarrow> bool" where
  "tables_ok s \<longleftrightarrow>
     entries_ok (\<lambda>nm r. nm \<noteq> [] \<and> r \<noteq> []) (ruleMap s) \<and>
     entries_ok (\<lambda>key rs. rs \<noteq> [] \<and> [] \<notin> set rs \<and> 3 \<le> length key) (eventToRules s) \<and>
     entries_ok (\<lambda>nm p. nm \<noteq> []) (actions s)"

definition engine_ok :: "engine \<Rightarrow> bool" where
  "engine_ok s \<longleftrightarrow> tables_ok s \<and> (\<forall>c \<in> set (queued s). cmd_rule c \<noteq> []) \<and> (\<forall>a \<in> set (executing s). cmd_rule (a_cmd a) \<noteq> [])"

text \<open>
  A listed transaction has its command in the queue of some engine, or the command was dropped; and a transaction of a user is in
  the queues of all engines at most once, and then it is listed.
\<close>

definition has_command :: "engine list \<Rightarrow> string \<Rightarrow> bool" where
  "has_command es t \<longleftrightarrow> (\<exists>s \<in> set es. \<exists>c \<in> set (queued s) \<union> set (dropped s). cmd_txnId c = t \<and> cmd_depth c = 0)"

definition process_inv :: "process \<Rightarrow> bool" where
  "process_inv s \<longleftrightarrow> (\<forall>eng \<in> set (engines s). engine_ok eng) \<and> smap_wf (p_txns s) \<and>
     (\<forall>t \<in> fst ` set (p_txns s). t \<noteq> [] \<and> has_command (engines s) t) \<and>
     (\<forall>t. user_txn t \<longrightarrow> all_posts t (engines s) \<le> (if map_of (p_txns s) t = None then 0 else 1))"

lemma registerRule_cases:
  "registerRule fuel nm r s = Some (s', b) \<Longrightarrow>
     s' = s \<and> \<not> b \<or> r = [] \<and> nm \<noteq> [] \<and> s' = s\<lparr>ruleMap := smap_erase nm (ruleMap s)\<rparr> \<and> b
     \<or> r \<noteq> [] \<and> nm \<noteq> [] \<and> s' = s\<lparr>ruleMap := smap_set nm r (ruleMap s)\<rparr> \<and> b \<and>
       list_all (\<lambda>it. isASubRule it \<or> known_action s (actionName it)) r"
  by (auto simp: registerRule_def Let_def split: if_splits option.splits)

lemma tables_ok_rule: "tables_ok s \<Longrightarrow> registerRule fuel nm r s = Some (s', b) \<Longrightarrow> tables_ok s'"
  by (drule registerRule_cases) (auto simp: tables_ok_def intro!: wf_intros)

lemma tables_ok_apply: "tables_ok s \<Longrightarrow> tables_ok (fst (applyRulesToEvent c ev rs s))"
  by (auto simp: applyRulesToEvent_def Let_def tables_ok_def not_less intro!: wf_intros)

lemma tables_ok_action:
  "tables_ok s \<Longrightarrow> tables_ok (fst (registerAction nm p al s))" "tables_ok s \<Longrightarrow> tables_ok (fst (unregisterAction nm s))"
  by (auto simp: registerAction_def unregisterAction_def Let_def tables_ok_def intro!: wf_intros split: option.splits)

lemma table_fields:
  "queued (fst (applyRulesToEvent c ev rs s)) = queued s" "executing (fst (applyRulesToEvent c ev rs s)) = executing s"
  "dropped (fst (applyRulesToEvent c ev rs s)) = dropped s"
  "queued (fst (registerAction nm p al s)) = queued s" "executing (fst (registerAction nm p al s)) = executing s"
  "dropped (fst (registerAction nm p al s)) = dropped s"
  "queued (fst (unregisterAction nm s)) = queued s" "executing (fst (unregisterAction nm s)) = executing s"
  "dropped (fst (unregisterAction nm s)) = dropped s"
  by (simp_all add: applyRulesToEvent_def registerAction_def unregisterAction_def Let_def split: option.splits)

lemma tables_ok_ruleMap: "tables_ok s \<Longrightarrow> map_of (ruleMap s) nm = Some r \<Longrightarrow> r \<noteq> []"
  unfolding tables_ok_def using entries_ok_lookup [of "\<lambda>nm r. nm \<noteq> [] \<and> r \<noteq> []"] by blast

lemma invoke_action_spawn: "invoke_action E it ptr idx x = (x', c) \<Longrightarrow> x_spawn x' = x_spawn x"
  using invoke_action_trace by blast

text \<open>What a step keeps of the commands of its engine: \<open>Q\<close> holds of all that are queued, executed or started.\<close>

lemma start_fields [simp]:
  "ruleMap (start_cmd c s) = ruleMap s" "eventToRules (start_cmd c s) = eventToRules s" "actions (start_cmd c s) = actions s"
  "executing (start_cmd c s) = executing s" "pool_running (start_cmd c s) = pool_running s"
  "queued (start_cmd c s) = queued s @ (if pool_running s then [c] else [])"
  "dropped (start_cmd c s) = dropped s @ (if pool_running s then [] else [c])"
  by (simp_all add: start_cmd_def)

lemma start_all_fields [simp]:
  "ruleMap (fold start_cmd cs s) = ruleMap s" "eventToRules (fold start_cmd cs s) = eventToRules s"
  "actions (fold start_cmd cs s) = actions s" "executing (fold start_cmd cs s) = executing s"
  "queued (fold start_cmd cs s) = queued s @ (if pool_running s then cs else [])"
  "dropped (fold start_cmd cs s) = dropped s @ (if pool_running s then [] else cs)"
  by (induction cs arbitrary: s) simp_all

lemma tables_ok_fields:
  "tables_ok s \<Longrightarrow> ruleMap s' = ruleMap s \<Longrightarrow> eventToRules s' = eventToRules s \<Longrightarrow> actions s' = actions s \<Longrightarrow> tables_ok s'"
  by (simp add: tables_ok_def)

lemma tables_ok_event: "tables_ok s \<Longrightarrow> tables_ok (snd (OnEvent c ev st src ps txn p txns s))"
  by (auto simp: OnEvent_def intro: tables_ok_fields split: option.splits)

text \<open>The cases of an event: ignored, or a new command with the transaction's entry.\<close>

lemma OnEvent_cases:
  obtains "OnEvent c ev st src ps txn p txns s = (txns, s)"
  | cmd txns1 where "OnEvent c ev st src ps txn p txns s = (txns1, start_cmd cmd s)" and "cmd_rule cmd \<noteq> []" and "cmd_txnId cmd = txn"
      and "cmd_depth cmd = 0" and "txns1 = txns \<or> txn \<noteq> [] \<and> map_of txns txn = None \<and> txns1 = smap_set txn p txns"
      and "\<forall>q. txn \<noteq> [] \<and> map_of txns txn = Some q \<longrightarrow> q = p" and "txn \<noteq> [] \<longrightarrow> map_of txns1 txn = Some p"
proof (cases "map_of (eventToRules s) (search_key c ev)")
  case None
  then show thesis using that(1) by (simp add: OnEvent_def)
next
  case (Some names)
  define new where "new = new_cmd p (map event_item names) (''dispathEvent('' @ search_key c ev @ '')'') txn txns"
  show thesis
  proof (cases "names = [] \<or> new = None")
    case True
    then show thesis using that(1) Some by (auto simp: OnEvent_def new_def)
  next
    case False
    then obtain txns1 cmd where n: "new = Some (txns1, cmd)" by auto
    let ?cmd = "cmd\<lparr>cmd_ctx := (cmd_ctx cmd)\<lparr>metaData := event_meta c ev st src ps\<rparr>\<rparr>"
    have "OnEvent c ev st src ps txn p txns s = (txns1, start_cmd ?cmd s)"
      using Some False n [unfolded new_def] by (simp add: OnEvent_def)
    moreover have "cmd_rule ?cmd \<noteq> []" "cmd_txnId ?cmd = txn" "cmd_depth ?cmd = 0"
      "txns1 = txns \<or> txn \<noteq> [] \<and> map_of txns txn = None \<and> txns1 = smap_set txn p txns"
      "\<forall>q. txn \<noteq> [] \<and> map_of txns txn = Some q \<longrightarrow> q = p" "txn \<noteq> [] \<longrightarrow> map_of txns1 txn = Some p"
      using n False by (auto simp: new_def new_cmd_def Let_def std_simps split: if_splits option.splits)
    ultimately show thesis by (rule that(2))
  qed
qed

text \<open>An iteration queues or drops what it starts, and nothing else happens to the commands.\<close>

lemma iterate_cases:
  assumes "iterate E k s = Some s'" and "k < length (executing s)"
  shows "\<exists>cs. queued s' = queued s @ (if pool_running s then cs else []) \<and> dropped s' = dropped s @ (if pool_running s then [] else cs) \<and>
     a_cmd ` set (executing s') \<subseteq> a_cmd ` set (executing s) \<and> ruleMap s' = ruleMap s \<and> eventToRules s' = eventToRules s \<and>
     actions s' = actions s \<and> (\<forall>c \<in> set cs. \<exists>parent \<in> a_cmd ` set (executing s). \<exists>ctx r nm i. c = sub_cmd parent ctx r nm i \<and> map_of (ruleMap s) nm = Some r)"
proof -
  define a where "a = executing s ! k"
  define others after where "others = take k (executing s)" and "after = drop (Suc k) (executing s)"
  have ex: "executing s = others @ a # after" unfolding others_def after_def a_def by (rule id_take_nth_drop [OF assms(2)])
  note it = assms(1) [unfolded iterate_def Let_def a_def [symmetric] others_def [symmetric] after_def [symmetric]]
  show ?thesis
  proof (cases "a_pos a \<ge> int (length (cmd_rule (a_cmd a)))")
    case True
    then have "s' = s\<lparr>executing := others @ after\<rparr>" using it by simp
    then show ?thesis using ex by (intro exI [of _ "[]"]) auto
  next
    case False
    then have pos: "\<not> a_pos a < 0" using it by (auto split: if_splits)
    obtain x ctl where run: "run_item E s (a_cmd a) (nat (a_pos a)) (a_exec a\<lparr>x_spawn := []\<rparr>) = (x, ctl)" by fastforce
    have sp: "\<forall>c \<in> set (x_spawn x). \<exists>parent \<in> a_cmd ` set (executing s). \<exists>ctx r nm i. c = sub_cmd parent ctx r nm i \<and> map_of (ruleMap s) nm = Some r"
    proof (cases "isASubRule (cmd_rule (a_cmd a) ! nat (a_pos a))")
      case True
      then show ?thesis using run ex by (force simp: run_item_def Let_def split: option.splits)
    next
      case False
      then have "x_spawn x = []"
        using run by (auto simp: run_item_def Let_def split: option.splits bool.splits if_splits dest!: invoke_action_spawn)
      then show ?thesis by simp
    qed
    show ?thesis
    proof (cases ctl)
      case (Next i)
      then have "s' = fold start_cmd (x_spawn x) (s\<lparr>executing := others @ [a\<lparr>a_pos := i, a_exec := x\<rparr>] @ after\<rparr>)"
        using it False pos run by simp
      then show ?thesis using ex sp by (intro exI [of _ "x_spawn x"]) auto
    next
      case Break
      then have "s' = fold start_cmd (x_spawn x) (s\<lparr>executing := others @ after\<rparr>)" using it False pos run by simp
      then show ?thesis using ex sp by (intro exI [of _ "x_spawn x"]) auto
    next
      case Trap
      then show ?thesis using it False pos run by simp
    qed
  qed
qed

text \<open>What a step of an engine does to the shared table and to the commands that stand for its entries.\<close>

definition waiting :: "engine \<Rightarrow> rule_cmd set" where
  "waiting s = set (queued s) \<union> set (dropped s)"

definition step_keeps :: "txn_map \<Rightarrow> engine \<Rightarrow> txn_map \<Rightarrow> engine \<Rightarrow> bool" where
  "step_keeps txns s txns' s' \<longleftrightarrow> engine_ok s' \<and> smap_wf txns' \<and>
     (\<forall>c \<in> waiting s. c \<in> waiting s' \<or> cmd_txnId c \<notin> fst ` set txns') \<and>
     (\<forall>t \<in> fst ` set txns'. t \<in> fst ` set txns \<or> t \<noteq> [] \<and> (\<exists>c \<in> waiting s'. cmd_txnId c = t \<and> cmd_depth c = 0))"

lemma step_keeps_same:
  "engine_ok s' \<Longrightarrow> smap_wf txns \<Longrightarrow> waiting s \<subseteq> waiting s' \<Longrightarrow> step_keeps txns s txns s'"
  by (auto simp: step_keeps_def)

lemma free_txn_set: "set (free_txn t txns) = {e \<in> set txns. fst e \<noteq> t}"
  by (auto simp: free_txn_def)

lemma free_txn_wf: "smap_wf txns \<Longrightarrow> smap_wf (free_txn t txns)"
  unfolding free_txn_def by (auto simp: smap_wf_def sorted_wrt_map intro: sorted_wrt_filter)

lemma take_keeps:
  assumes "engine_ok s" and "smap_wf txns" and "k < length (queued s)" and "take_cmd k txns s = (txns', s')"
  shows "step_keeps txns s txns' s'"
proof -
  define cmd where "cmd = queued s ! k"
  have q: "queued s = take k (queued s) @ cmd # drop (Suc k) (queued s)"
    unfolding cmd_def by (rule id_take_nth_drop [OF assms(3)])
  have s': "txns' = free_txn (cmd_txnId cmd) txns" "queued s' = take k (queued s) @ drop (Suc k) (queued s)"
    "executing s' = executing s @ [\<lparr>a_cmd = cmd, a_pos = 0, a_exec = start_exec cmd\<rparr>]" "dropped s' = dropped s" "tables_ok s' = tables_ok s"
    using assms(4) by (auto simp: take_cmd_def Let_def cmd_def tables_ok_def)
  have w: "waiting s = insert cmd (waiting s')"
    unfolding waiting_def s' by (subst q) auto
  have "set (queued s) = insert cmd (set (queued s'))" unfolding s' by (subst q) simp
  then have "engine_ok s'" using assms(1) s' by (auto simp: engine_ok_def)
  moreover have "smap_wf txns'" using s' assms(2) free_txn_wf by simp
  ultimately show ?thesis unfolding step_keeps_def w by (auto simp: s' free_txn_set)
qed

lemma event_keeps:
  assumes "engine_ok s" and "smap_wf txns" and "OnEvent c ev st src ps txn p txns s = (txns', s')"
  shows "step_keeps txns s txns' s'"
proof (rule OnEvent_cases [of c ev st src ps txn p txns s])
  assume "OnEvent c ev st src ps txn p txns s = (txns, s)"
  then show ?thesis using assms by (auto intro: step_keeps_same)
next
  fix cmd txns1
  assume ev: "OnEvent c ev st src ps txn p txns s = (txns1, start_cmd cmd s)" and ne: "cmd_rule cmd \<noteq> []" and id: "cmd_txnId cmd = txn"
    "cmd_depth cmd = 0" and t: "txns1 = txns \<or> txn \<noteq> [] \<and> map_of txns txn = None \<and> txns1 = smap_set txn p txns"
  have s': "s' = start_cmd cmd s" "txns' = txns1" using ev assms(3) by simp_all
  have "tables_ok s'" using tables_ok_event [of s c ev st src ps txn p txns] assms(1,3) by (simp add: engine_ok_def)
  then have ok: "engine_ok s'" using assms(1) ne by (auto simp: engine_ok_def s')
  have w: "waiting s' = insert cmd (waiting s)" by (auto simp: waiting_def s')
  have wf: "smap_wf txns'" using t s' assms(2) by (auto intro: wf_intros)
  have keys: "fst ` set txns' = fst ` set txns \<or> txn \<noteq> [] \<and> fst ` set txns' = insert txn (fst ` set txns)"
    using t s' set_keys_smap_set [of txn p txns] by metis
  have cmd: "cmd \<in> waiting s'" unfolding w by (rule insertI1)
  have "t \<in> fst ` set txns \<or> t \<noteq> [] \<and> (\<exists>c \<in> waiting s'. cmd_txnId c = t \<and> cmd_depth c = 0)" if t': "t \<in> fst ` set txns'" for t
  proof (cases "t \<in> fst ` set txns")
    case False
    then have "txn \<noteq> []" "t = txn" using keys t' by auto
    then show ?thesis using cmd id by simp (rule disjI2, rule bexI [OF _ cmd], simp)
  qed simp
  moreover have "\<forall>c \<in> waiting s. c \<in> waiting s' \<or> cmd_txnId c \<notin> fst ` set txns'" unfolding w by simp
  ultimately show ?thesis unfolding step_keeps_def using ok wf by (intro conjI ballI) simp_all
qed

lemma iterate_keeps:
  assumes "engine_ok s" and "smap_wf txns" and "k < length (executing s)" and "iterate E k s = Some s'"
  shows "step_keeps txns s txns s'"
proof -
  obtain cs where it: "queued s' = queued s @ (if pool_running s then cs else [])"
    "dropped s' = dropped s @ (if pool_running s then [] else cs)"
    "a_cmd ` set (executing s') \<subseteq> a_cmd ` set (executing s)" "ruleMap s' = ruleMap s" "eventToRules s' = eventToRules s" "actions s' = actions s"
    and cs: "\<forall>c \<in> set cs. \<exists>parent \<in> a_cmd ` set (executing s). \<exists>ctx r nm i. c = sub_cmd parent ctx r nm i \<and> map_of (ruleMap s) nm = Some r"
    using iterate_cases [OF assms(4,3)] by blast
  have t: "tables_ok s" using assms(1) by (simp add: engine_ok_def)
  have new: "cmd_rule c \<noteq> []" if "c \<in> set cs" for c
    using cs that tables_ok_ruleMap [OF t] by (fastforce simp: sub_cmd_def)
  have "tables_ok s'" using t it(4-6) by (rule tables_ok_fields)
  moreover have "cmd_rule (a_cmd a) \<noteq> []" if "a \<in> set (executing s')" for a
  proof -
    have "a_cmd a \<in> a_cmd ` set (executing s)" using it(3) that by blast
    then show ?thesis using assms(1) by (auto simp: engine_ok_def)
  qed
  moreover have "cmd_rule c \<noteq> []" if "c \<in> set (queued s')" for c
    using that it(1) new assms(1) by (auto simp: engine_ok_def split: if_splits)
  ultimately have "engine_ok s'" by (simp add: engine_ok_def)
  then show ?thesis using assms(2) it(1,2) by (auto intro!: step_keeps_same simp: waiting_def)
qed

lemma clear_keeps:
  "engine_ok s \<Longrightarrow> engine_ok (pool_clear f s)" "waiting s \<subseteq> waiting (pool_clear f s)"
proof -
  show "engine_ok (pool_clear f s)" if "engine_ok s"
    using that by (auto simp: engine_ok_def pool_clear_def tables_ok_def dest: in_set_nthsD)
  show "waiting s \<subseteq> waiting (pool_clear f s)"
    unfolding waiting_def pool_clear_def by (auto simp: set_nths) (metis in_set_conv_nth)
qed

lemma engine_step_keeps:
  assumes "engine_ok s" and "smap_wf txns" and "engine_step fuel E txns s op = Some (txns', s')"
  shows "step_keeps txns s txns' s'"
proof -
  have t: "tables_ok s" using assms(1) by (simp add: engine_ok_def)
  have same: "step_keeps txns s txns r" if "tables_ok r" "queued r = queued s" "executing r = executing s" "dropped r = dropped s" for r
    using that assms(1,2) by (intro step_keeps_same) (auto simp: engine_ok_def waiting_def)
  show ?thesis
  proof (cases op)
    case (Op_rule nm r)
    then obtain b where r: "registerRule fuel nm r s = Some (s', b)" and "txns' = txns" using assms(3) by auto
    moreover have "queued s' = queued s" "executing s' = executing s" "dropped s' = dropped s"
      using registerRule_cases [OF r] by auto
    ultimately show ?thesis using same tables_ok_rule [OF t r] by simp
  next
    case (Op_take k)
    then show ?thesis using assms take_keeps by (auto split: if_splits)
  next
    case (Op_iterate k)
    then show ?thesis using assms iterate_keeps by (auto split: if_splits)
  next
    case Op_event
    then show ?thesis using assms event_keeps by auto
  next
    case (Op_clear f)
    then show ?thesis using assms by (auto intro!: step_keeps_same clear_keeps)
  next
    case (Op_stop f)
    have "engine_ok (s\<lparr>pool_running := False\<rparr>)" using assms(1) by (simp add: engine_ok_def tables_ok_def)
    moreover have "waiting (s\<lparr>pool_running := False\<rparr>) = waiting s" by (simp add: waiting_def)
    ultimately show ?thesis
      using Op_stop assms(2,3) clear_keeps [of "s\<lparr>pool_running := False\<rparr>" f] by (auto intro!: step_keeps_same simp: pool_stop_def)
  qed (use assms(3) same tables_ok_apply [OF t] tables_ok_action [OF t] in \<open>auto simp: table_fields\<close>)
qed

text \<open>What a step does to the entry and to the queued commands of one transaction.\<close>

lemma sub_cmd_txn: "user_txn t \<Longrightarrow> cmd_txnId (sub_cmd parent ctx r nm i) \<noteq> t"
  by (auto simp: sub_cmd_def user_txn_def)

lemma map_of_free_txn: "map_of (free_txn u txns) t = (if t = u then None else map_of txns t)"
  by (induction txns) (auto simp: free_txn_def)

lemma length_filter_nths: "length (filter P (nths xs A)) \<le> length (filter P xs)"
  by (induction xs arbitrary: A) (auto simp: nths_Cons intro: le_SucI)

definition txn_change :: "string \<Rightarrow> txn_map \<Rightarrow> engine \<Rightarrow> engine_op \<Rightarrow> txn_map \<Rightarrow> engine \<Rightarrow> bool" where
  "txn_change t txns s op txns' s' \<longleftrightarrow>
     map_of txns' t = map_of txns t \<and> posts t s' \<le> posts t s
     \<or> posts t s = Suc (posts t s') \<and> map_of txns' t = None
     \<or> (\<exists>c ev st src ps p. op = Op_event c ev st src ps t p \<and> posts t s' \<le> Suc (posts t s) \<and> map_of txns t \<in> {None, Some p} \<and>
          map_of txns' t = Some p)"

lemma event_txn_change:
  assumes t: "user_txn t" and e: "OnEvent c ev st src ps txn p txns s = (txns', s')"
  shows "txn_change t txns s (Op_event c ev st src ps txn p) txns' s'"
proof (rule OnEvent_cases [of c ev st src ps txn p txns s])
  assume "OnEvent c ev st src ps txn p txns s = (txns, s)"
  then show ?thesis using e by (simp add: txn_change_def)
next
  fix cmd txns1
  assume ev: "OnEvent c ev st src ps txn p txns s = (txns1, start_cmd cmd s)" and id: "cmd_txnId cmd = txn"
    and new: "txns1 = txns \<or> txn \<noteq> [] \<and> map_of txns txn = None \<and> txns1 = smap_set txn p txns"
    and old: "\<forall>q. txn \<noteq> [] \<and> map_of txns txn = Some q \<longrightarrow> q = p"
    and listed: "txn \<noteq> [] \<longrightarrow> map_of txns1 txn = Some p"
  have s': "s' = start_cmd cmd s" "txns' = txns1" using e ev by simp_all
  show ?thesis
  proof (cases "txn = t")
    case True
    then have ne: "txn \<noteq> []" using t by (simp add: user_txn_def)
    have "posts t s' \<le> Suc (posts t s)" by (simp add: posts_def s')
    moreover have "map_of txns t \<in> {None, Some p}" using old ne True by (cases "map_of txns txn") auto
    ultimately show ?thesis using listed ne True s' by (auto simp: txn_change_def)
  next
    case False
    then have "map_of txns' t = map_of txns t" using new s' by (auto simp: std_simps)
    moreover have "posts t s' = posts t s" using False id by (simp add: posts_def s')
    ultimately show ?thesis by (simp add: txn_change_def)
  qed
qed

lemma engine_txn_change:
  assumes t: "user_txn t" and st: "engine_step fuel E txns s op = Some (txns', s')"
  shows "txn_change t txns s op txns' s'"
proof -
  have same: "txn_change t txns s op txns' s'" if "txns' = txns" "queued s' = queued s"
    using that by (simp add: txn_change_def posts_def)
  show ?thesis
  proof (cases op)
    case (Op_rule nm r)
    then obtain b where r: "registerRule fuel nm r s = Some (s', b)" and "txns' = txns" using st by auto
    then show ?thesis using same registerRule_cases [OF r] by auto
  next
    case (Op_take k)
    then have k: "k < length (queued s)" and tk: "take_cmd k txns s = (txns', s')" using st by (auto split: if_splits)
    define cmd where "cmd = queued s ! k"
    have q: "queued s = take k (queued s) @ cmd # drop (Suc k) (queued s)"
      unfolding cmd_def by (rule id_take_nth_drop [OF k])
    have s': "txns' = free_txn (cmd_txnId cmd) txns" "queued s' = take k (queued s) @ drop (Suc k) (queued s)"
      using tk by (auto simp: take_cmd_def Let_def cmd_def)
    have "posts t s = (if cmd_txnId cmd = t then 1 else 0) + posts t s'"
      unfolding posts_def s' by (subst q) simp
    then show ?thesis by (simp add: txn_change_def s' map_of_free_txn)
  next
    case (Op_iterate k)
    then have k: "k < length (executing s)" and it: "iterate E k s = Some s'" "txns' = txns" using st by (auto split: if_splits)
    obtain cs where q: "queued s' = queued s @ (if pool_running s then cs else [])"
      and cs: "\<forall>c \<in> set cs. \<exists>parent \<in> a_cmd ` set (executing s). \<exists>ctx r nm i. c = sub_cmd parent ctx r nm i \<and> map_of (ruleMap s) nm = Some r"
      using iterate_cases [OF it(1) k] by blast
    have "cmd_txnId c \<noteq> t" if c: "c \<in> set cs" for c
    proof -
      obtain parent ctx r nm i where "c = sub_cmd parent ctx r nm i" using cs c by blast
      then show ?thesis using sub_cmd_txn [OF t] by simp
    qed
    then have "posts t s' = posts t s" by (auto simp: posts_def q filter_empty_conv)
    then show ?thesis using it(2) by (simp add: txn_change_def)
  next
    case Op_event
    then show ?thesis using st event_txn_change [OF t] by auto
  qed (use st same in \<open>auto simp: table_fields txn_change_def posts_def pool_clear_def pool_stop_def length_filter_nths\<close>)
qed

lemma all_posts_update: "e < length es \<Longrightarrow> all_posts t (es[e := eng]) + posts t (es ! e) = all_posts t es + posts t eng"
proof (induction es arbitrary: e)
  case (Cons a es)
  then show ?case by (cases e) (auto simp: all_posts_def)
qed simp

lemma process_step_cases:
  assumes "process_step fuel E s x = Some s'"
  obtains e op eng where "x = (e, op)" and "e < length (engines s)" and "fresh_address s op" and "engines s' = (engines s)[e := eng]"
    and "engine_step fuel E (p_txns s) (engines s ! e) op = Some (p_txns s', eng)"
  using assms by (cases x) (auto simp: process_step_def split: if_splits)

lemma has_command_waiting: "has_command es t \<longleftrightarrow> (\<exists>s \<in> set es. \<exists>c \<in> waiting s. cmd_txnId c = t \<and> cmd_depth c = 0)"
  by (simp add: has_command_def waiting_def)

lemma process_step_inv:
  assumes inv: "process_inv s" and st: "process_step fuel E s x = Some s'"
  shows "process_inv s'"
proof -
  obtain e op eng where fresh: "fresh_address s op" and e: "e < length (engines s)" and s': "engines s' = (engines s)[e := eng]"
    and eng: "engine_step fuel E (p_txns s) (engines s ! e) op = Some (p_txns s', eng)"
    using process_step_cases [OF st] by metis
  let ?old = "engines s ! e"
  have mem: "?old \<in> set (engines s)" using e by simp
  then have k: "step_keeps (p_txns s) ?old (p_txns s') eng"
    using inv eng by (intro engine_step_keeps) (auto simp: process_inv_def)
  have in': "eng \<in> set (engines s')" using e s' by (auto simp: set_update_memI)
  have other: "r \<in> set (engines s') \<or> r = ?old" if "r \<in> set (engines s)" for r
    using that e s' by (metis in_set_conv_nth length_list_update nth_list_update_neq)
  have "has_command (engines s') t" if t: "t \<in> fst ` set (p_txns s')" for t
  proof (cases "t \<in> fst ` set (p_txns s)")
    case True
    then obtain r c where c: "r \<in> set (engines s)" "c \<in> waiting r" "cmd_txnId c = t" "cmd_depth c = 0"
      using inv by (auto simp: process_inv_def has_command_waiting)
    show ?thesis
    proof (cases "r = ?old")
      case old: True
      then have "c \<in> waiting eng" using k c t by (auto simp: step_keeps_def)
      then show ?thesis unfolding has_command_waiting using in' c by blast
    next
      case False
      then show ?thesis unfolding has_command_waiting using other [OF c(1)] c by blast
    qed
  next
    case False
    then obtain c where "c \<in> waiting eng" "cmd_txnId c = t" "cmd_depth c = 0" using k t unfolding step_keeps_def by blast
    then show ?thesis unfolding has_command_waiting using in' by blast
  qed
  moreover have "t \<noteq> []" if "t \<in> fst ` set (p_txns s')" for t
  proof -
    have "t \<in> fst ` set (p_txns s) \<or> t \<noteq> []" using that k unfolding step_keeps_def by blast
    then show ?thesis using inv unfolding process_inv_def by blast
  qed
  moreover have "engine_ok r" if "r \<in> set (engines s')" for r
    using that s' set_update_subset_insert [of "engines s" e eng] k inv by (auto simp: step_keeps_def process_inv_def)
  moreover have "all_posts t (engines s') \<le> (if map_of (p_txns s') t = None then 0 else 1)" if t: "user_txn t" for t
  proof -
    have old: "all_posts t (engines s) \<le> (if map_of (p_txns s) t = None then 0 else 1)" using inv t by (simp add: process_inv_def)
    have sum: "all_posts t (engines s') + posts t ?old = all_posts t (engines s) + posts t eng"
      unfolding s' by (rule all_posts_update [OF e])
    from engine_txn_change [OF t eng] consider "map_of (p_txns s') t = map_of (p_txns s) t" "posts t eng \<le> posts t ?old"
      | "posts t ?old = Suc (posts t eng)" "map_of (p_txns s') t = None"
      | c ev st src ps p where "op = Op_event c ev st src ps t p" "posts t eng \<le> Suc (posts t ?old)" "map_of (p_txns s) t \<in> {None, Some p}"
          "map_of (p_txns s') t = Some p"
      unfolding txn_change_def by (elim disjE conjE exE) simp_all
    then show ?thesis
    proof cases
      case 1
      then have "all_posts t (engines s') \<le> all_posts t (engines s)" using sum by linarith
      then show ?thesis using old 1(1) by simp
    next
      case 2
      have "all_posts t (engines s) \<le> 1" using old by (simp split: if_splits)
      then show ?thesis using 2 sum by simp
    next
      case 3
      then have "all_posts t (engines s) = 0" using old fresh t by (auto simp: fresh_address_def)
      then show ?thesis using 3 sum by simp
    qed
  qed
  ultimately show ?thesis using k by (simp add: process_inv_def step_keeps_def)
qed

lemma process_inv_init: "process_inv (new_process depths)"
  by (auto simp: process_inv_def new_process_def new_engine_def engine_ok_def tables_ok_def all_posts_def posts_def o_def intro!: wf_intros)

interpretation engine_machine: transition_system "new_process depths" "process_step fuel E" process_inv
  by unfold_locales (auto intro: process_inv_init process_step_inv)

subsection \<open>Where the limit on nesting fails\<close>

lemma maxDepth_self:
  assumes "sub_names reg = [u, nm]" and "u \<noteq> nm" and "map_of rm u = None" and "2 \<le> limit"
  shows "cur \<le> 1 \<Longrightarrow> mx \<le> 2 \<Longrightarrow> maxDepth fuel limit rm nm reg reg (cur, mx) = None"
proof (induction fuel arbitrary: cur mx)
  case (Suc fuel)
  let ?rec = "maxDepth fuel limit rm nm reg"
  obtain r1 where r1: "sub_names r1 = [nm]" and d1: "depth_items ?rec rm nm reg reg (cur, mx) =
      depth_items ?rec rm nm reg r1 (0, max mx (cur + 1))"
    using depth_items_sub [OF assms(1), of ?rec rm nm reg cur mx] assms(2,3) by (auto simp: resolve_def)
  have "?rec reg (0 + 1, max mx (cur + 1)) = None"
    using Suc.prems by (intro Suc.IH) auto
  then have "depth_items ?rec rm nm reg r1 (0, max mx (cur + 1)) = None"
    using depth_items_sub [OF r1, of ?rec rm nm reg 0 "max mx (cur + 1)"] by (auto simp: resolve_def)
  with d1 Suc.prems assms(4) show ?case by simp
qed simp

inductive ladder :: "(string \<Rightarrow> rule option) \<Rightarrow> rule \<Rightarrow> nat \<Rightarrow> bool" for m where
  bottom: "sub_names r = [] \<Longrightarrow> ladder m r 0"
| rung: "sub_names r = [u, x] \<Longrightarrow> m u = None \<Longrightarrow> m x = Some r' \<Longrightarrow> ladder m r' n \<Longrightarrow> ladder m r (Suc n)"

lemma maxDepth_ladder:
  assumes "ladder (resolve rm nm reg) r n" and "cur \<le> 1" and "mx \<le> 2" and "n < fuel" and "2 \<le> limit"
  shows "\<exists>mx'. maxDepth fuel limit rm nm reg r (cur, mx) = Some (0, mx') \<and> mx' \<le> 2"
  using assms
proof (induction arbitrary: cur mx fuel rule: ladder.induct)
  case (bottom r)
  then show ?case by (cases fuel) (auto simp: depth_items_none)
next
  case (rung r u x r' n)
  obtain f where f: "fuel = Suc f" "n < f" using rung.prems(3) by (cases fuel) auto
  let ?rec = "maxDepth f limit rm nm reg"
  obtain r1 where r1: "sub_names r1 = [x]" and d1: "depth_items ?rec rm nm reg r (cur, mx) =
      depth_items ?rec rm nm reg r1 (0, max mx (cur + 1))"
    using depth_items_sub [OF rung.hyps(1), of ?rec rm nm reg cur mx] rung.hyps(2) by auto
  obtain mx' where m: "?rec r' (0 + 1, max mx (cur + 1)) = Some (0, mx')" "mx' \<le> 2"
    using rung.IH [of 1 "max mx (cur + 1)" f] rung.prems f by auto
  obtain r2 where r2: "sub_names r2 = []" and "depth_items ?rec rm nm reg r1 (0, max mx (cur + 1)) =
      depth_items ?rec rm nm reg r2 (0, mx')"
    using depth_items_sub [OF r1, of ?rec rm nm reg 0 "max mx (cur + 1)"] rung.hyps(3) m by auto
  with d1 m(2) rung.prems show ?case by (auto simp: f depth_items_none)
qed

lemma sub_names_list_ex: "list_ex isASubRule r \<longleftrightarrow> sub_names r \<noteq> []"
  by (induction r) (auto simp: sub_names_def)

subsection \<open>Properties\<close>

definition no_env :: env where
  "no_env = \<lparr>e_le = (\<lambda>_ _. False), e_ge = (\<lambda>_ _. False), e_mktime = (\<lambda>_. 0), e_act = (\<lambda>_ c _. Returned c [])\<rparr>"

definition act_item :: "string \<Rightarrow> props \<Rightarrow> rule_item" where
  "act_item nm args = \<lparr>actionName = nm, isASubRule = False, conditions = [], inputArgs = args, output2ctx = []\<rparr>"

definition sub_item :: "string \<Rightarrow> rule_item" where
  "sub_item nm = \<lparr>actionName = nm, isASubRule = True, conditions = [], inputArgs = [], output2ctx = []\<rparr>"

text \<open>
  C4. Whatever registrations, events, iterations of running commands (in any order and interleaving), clearings and stops of their
  pools the engines of a process go through: the tables of every engine hold no empty name, rule or association, so that every
  command that is queued or executed has something to run. Every transaction in the table that the engines share belongs to a
  top-level command that waits in the queue of one of them or was dropped by its pool. And the table does what it is for: a
  transaction (non-empty, without \<open>#\<close>, which marks those of sub rules) is never in the queues twice, and one that is queued is listed.
  A run is defined unless the code reads outside of a rule or divides by zero.
\<close>

theorem engine_reachable_invariant:
  assumes "run_ops (process_step fuel E) (new_process depths) ops = Some s"
  shows "(\<forall>eng \<in> set (engines s). engine_ok eng) \<and>
     (\<forall>t p. map_of (p_txns s) t = Some p \<longrightarrow> t \<noteq> [] \<and> has_command (engines s) t) \<and>
     (\<forall>t. t \<noteq> [] \<and> CHR ''#'' \<notin> set t \<longrightarrow> all_posts t (engines s) \<le> (if map_of (p_txns s) t = None then 0 else 1))"
proof -
  have inv: "process_inv s" using assms by (rule engine_machine.reachable_inv)
  have "t \<noteq> [] \<and> has_command (engines s) t" if "map_of (p_txns s) t = Some p" for t p
    using inv map_of_SomeD [OF that] by (force simp: process_inv_def)
  with inv show ?thesis by (simp add: process_inv_def user_txn_def)
qed

abbreviation sample_ops :: "(nat \<times> engine_op) list" where
  "sample_ops \<equiv>
     [(0, Op_register ''a'' 1 []), (0, Op_rule ''r'' [act_item ''a'' []]), (0, Op_apply ''c'' ''e'' [''r'']), (1, Op_apply ''c'' ''e'' [''q'']),
      (0, Op_event ''c'' ''e'' [] [] [] ''t'' 1), (1, Op_event ''c'' ''e'' [] [] [] ''t'' 2), (0, Op_take 0),
      (1, Op_event ''c'' ''e'' [] [] [] ''t'' 3), (0, Op_iterate 0), (1, Op_stop {}), (0, Op_take 0), (0, Op_iterate 0), (0, Op_iterate 0)]"

theorem engine_reachable_invariant_witness:
  "\<exists>s. run_ops (process_step 9 no_env) (new_process [3, 3]) sample_ops = Some s \<and> (\<forall>eng \<in> set (engines s). engine_ok eng) \<and>
     p_txns s = [(''t'', 3)] \<and> has_command (engines s) ''t''"
proof -
  let ?run = "run_ops (process_step 9 no_env) (new_process [3, 3]) sample_ops"
  have "map_option p_txns ?run = Some [(''t'', 3)]" by code_simp
  then obtain s where s: "?run = Some s" "p_txns s = [(''t'', 3)]" by auto
  with engine_reachable_invariant [OF s(1)] show ?thesis by auto
qed

text \<open>
  A transaction whose command was dropped stays in the table: from then on every event with it is ignored, whatever the engines
  do, unless its command happens to be allocated at the address that is listed.
\<close>

lemma dropped_transaction_locked:
  assumes "user_txn t" and "map_of (p_txns s) t = Some p" and "all_posts t (engines s) = 0"
    and "\<forall>(e, op) \<in> set ops. \<forall>c ev st src ps. op \<noteq> Op_event c ev st src ps t p"
    and "run_ops (process_step fuel E) s ops = Some s'"
  shows "map_of (p_txns s') t = Some p \<and> all_posts t (engines s') = 0"
  using assms(2-5)
proof (induction ops arbitrary: s)
  case (Cons x ops)
  then obtain s1 where st: "process_step fuel E s x = Some s1" and rest: "run_ops (process_step fuel E) s1 ops = Some s'"
    by (auto split: option.splits)
  obtain e op eng where x: "x = (e, op)" and e: "e < length (engines s)" and s1: "engines s1 = (engines s)[e := eng]"
    and eng: "engine_step fuel E (p_txns s) (engines s ! e) op = Some (p_txns s1, eng)"
    using process_step_cases [OF st] by metis
  have zero: "posts t (engines s ! e) = 0" using Cons.prems(2) e by (simp add: all_posts_def)
  have "map_of (p_txns s1) t = map_of (p_txns s) t \<and> posts t eng = 0"
    using engine_txn_change [OF assms(1) eng] zero Cons.prems(1,3) x by (auto simp: txn_change_def)
  moreover have "all_posts t (engines s1) = 0"
    using all_posts_update [OF e, of t eng] calculation zero Cons.prems(2) by (simp add: s1)
  ultimately show ?case using Cons.IH [OF _ _ _ rest] Cons.prems(1,3) by simp
qed simp

text \<open>
  C3. A rule runs to its end when its \<open>.ToNextAction\<close> items jump forward only, to items of the rule, whether the skip is an argument
  or read from the metadata (which hold skips from 0 to \<open>n\<close> only), and no \<open>mod\<close> condition has a divisor that reads as zero: with one
  iteration more than the rule has items the loop is over, without undefined behaviour. Its actions are invoked in the order of
  the rule, and each at most once, whatever else they do to the context and whatever they throw. The transaction is free
  afterwards, and a sub rule's end is reported with its final context.
\<close>

theorem forward_rule_runs_in_order:
  assumes "\<forall>i < length (cmd_rule cmd). forward_item n (cmd_rule cmd) i" and "forward_actions n E" and "skip_ok n (metaData (cmd_ctx cmd))"
  shows "\<exists>txns' eng' x. run_cmd (Suc (length (cmd_rule cmd))) E txns eng cmd = Some (txns', eng', x, True,
       if cmd_depth cmd > 0 then Some (cmd_ruleName cmd, x_ctx x, cmd_txnId cmd) else None) \<and>
     sorted_wrt (<) (x_trace x) \<and> (\<forall>i \<in> set (x_trace x). i < length (cmd_rule cmd)) \<and> map_of txns' (cmd_txnId cmd) = None"
proof -
  have start: "x_ctx (start_exec cmd) = cmd_ctx cmd" "x_trace (start_exec cmd) = []" by (simp_all add: start_exec_def)
  obtain x where x: "run_loop (Suc (length (cmd_rule cmd))) E eng cmd 0 (start_exec cmd) = Some (x, True)"
    and tr: "sorted_wrt (<) (x_trace x)" "\<forall>i \<in> set (x_trace x). i < length (cmd_rule cmd)"
    using run_loop_forward [OF assms(1,2), of "start_exec cmd" 0 "Suc (length (cmd_rule cmd))" eng] assms(3) start
    by (auto simp del: run_loop.simps)
  show ?thesis
    using tr by (intro exI [of _ "free_txn (cmd_txnId cmd) txns"] exI [of _ "fold start_cmd (x_spawn x) eng"] exI [of _ x])
      (simp add: run_cmd_def x map_of_free_txn del: run_loop.simps)
qed

definition sample_cmd :: "rule \<Rightarrow> rule_cmd" where
  "sample_cmd r = \<lparr>cmd_ctx = \<lparr>ctxStatus = aSucceed, metaData = []\<rparr>, cmd_rule = r, cmd_ruleName = ''r'', cmd_txnId = [], cmd_depth = 1\<rparr>"

theorem forward_rule_runs_in_order_witness:
  "let r = [act_item ''.ToNextAction'' [(''.ToNextAction.skipSize'', ''1'')], act_item ''a'' [], act_item ''.ToNextAction'' [], act_item ''a'' []]
   in \<exists>txns' eng' x. run_cmd 5 no_env [] (fst (registerAction ''a'' 1 [] (new_engine 3))) (sample_cmd r) =
        Some (txns', eng', x, True, Some (''r'', x_ctx x, [])) \<and> sorted_wrt (<) (x_trace x)"
proof -
  let ?r = "[act_item ''.ToNextAction'' [(''.ToNextAction.skipSize'', ''1'')], act_item ''a'' [], act_item ''.ToNextAction'' [], act_item ''a'' []]"
  have "atoi ''1'' = 1" by code_simp
  then have f: "\<forall>i < length (cmd_rule (sample_cmd ?r)). forward_item 0 (cmd_rule (sample_cmd ?r)) i"
    by (auto simp: sample_cmd_def act_item_def forward_item_def nth_Cons' less_Suc_eq)
  have a: "forward_actions 0 no_env" by (simp add: forward_actions_def no_env_def result_ctx_def)
  have k: "skip_ok 0 (metaData (cmd_ctx (sample_cmd ?r)))" by (simp add: skip_ok_def sample_cmd_def)
  have c: "Suc (length (cmd_rule (sample_cmd ?r))) = 5" "cmd_depth (sample_cmd ?r) = 1" "cmd_ruleName (sample_cmd ?r) = ''r''"
    "cmd_txnId (sample_cmd ?r) = []" by (simp_all add: sample_cmd_def)
  from forward_rule_runs_in_order [OF f a k, unfolded c, of "[]" "fst (registerAction ''a'' 1 [] (new_engine 3))"] show ?thesis
    unfolding Let_def by (simp only: zero_less_one if_True) blast
qed

text \<open>
  A skip of -1 passes the test \<open>skipSize > 0\<close>, since the field is unsigned, and moves the iterator back
  so that the loop goes on at the \<open>.ToNextAction\<close> item itself: the run never ends.
\<close>

theorem backward_jump_never_ends:
  assumes "0 < idx" and "idx < length (cmd_rule cmd)" and "it = cmd_rule cmd ! idx"
    and "\<not> isASubRule it" and "actionName it = ''.ToNextAction''" and "conditions it = []"
    and "map_of (inputArgs it) ''.ToNextAction.skipSize'' = Some v" and "atoi v = - 1"
    and "map_of (inputArgs (cmd_rule cmd ! (idx - 1))) ''.ToNextAction.ActionName'' = None"
    and "map_of (metaData (x_ctx x)) ''.ToNextAction.ActionName'' = None"
  shows "run_loop fuel E eng cmd (int idx) x = None"
  using assms(10)
proof (induction fuel arbitrary: x)
  case (Suc fuel)
  let ?x1 = "set_meta ''sys.LastActionIdx'' (decimal idx) (set_meta ''sys.LastActionName'' (actionName it) x)"
  have none: "map_of (metaData (x_ctx ?x1)) ''.ToNextAction.ActionName'' = None"
    using Suc.prems by (simp add: std_simps)
  have "nat (int idx - 1) = idx - 1" by simp
  then have "to_next (cmd_rule cmd) idx it (metaData (x_ctx ?x1)) = Some (int idx)"
    using assms(1,2,7,8,9) none by (simp add: to_next_def)
  then have "run_item E eng cmd idx x = (?x1, Next (int idx))"
    using assms(3-6) by (simp add: run_item_def Let_def)
  with assms(2) Suc.IH [OF none] show ?case by simp
qed simp

theorem backward_jump_never_ends_witness:
  "run_loop 1000 no_env (new_engine 3) (sample_cmd [act_item ''a'' [], act_item ''.ToNextAction'' [(''.ToNextAction.skipSize'', ''-1'')]])
     (int 1) (start_exec (sample_cmd [])) = None"
proof -
  have "atoi ''-1'' = - 1" by code_simp
  then show ?thesis
    by (intro backward_jump_never_ends [OF _ _ refl]) (simp_all add: sample_cmd_def act_item_def start_exec_def)
qed

text \<open>
  A \<open>.ToNextAction\<close> item reads the action to look for not from its own arguments but from those of the item that the skip leads to:
  a skip beyond the rule reads after its last item, and a name that is given together with a skip is ignored.
\<close>

lemma to_next_reads_the_item_skipped_to:
  "idx + n \<ge> length rule \<Longrightarrow> map_of (inputArgs it) ''.ToNextAction.skipSize'' = Some v \<Longrightarrow> atoi v = int n \<Longrightarrow> to_next rule idx it meta = None"
  "idx + n < length rule \<Longrightarrow> map_of (inputArgs it) ''.ToNextAction.skipSize'' = Some v \<Longrightarrow> atoi v = int n \<Longrightarrow>
     map_of (inputArgs (rule ! (idx + n))) ''.ToNextAction.ActionName'' = None \<Longrightarrow>
     map_of meta ''.ToNextAction.ActionName'' = None \<Longrightarrow> to_next rule idx it meta = Some (int (idx + n) + 1)"
  by (simp_all add: to_next_def nat_int_add)

text \<open>
  For rules that nest in a chain (each refers to at most one sub rule) the limit is exact:
  \<open>registerRule\<close> stores the rule when the chain is no longer than the limit, and otherwise refuses it and
  leaves the engine unchanged.
\<close>

theorem registerRule_limits_chains:
  assumes "chain (resolve (ruleMap eng) nm rule) rule n" and "n < fuel" and "0 \<le> depthLimit eng"
    and "nm \<noteq> []" and "rule \<noteq> []" and "\<forall>it \<in> set rule. isASubRule it \<or> known_action eng (actionName it)"
  shows "registerRule fuel nm rule eng = Some
     (if int n \<le> depthLimit eng then (eng\<lparr>ruleMap := smap_set nm rule (ruleMap eng)\<rparr>, True) else (eng, False))"
proof (cases "sub_names rule = []")
  case True
  then have "n = 0" using assms(1) by (auto elim: chain.cases)
  with assms True show ?thesis by (simp add: registerRule_def Let_def sub_names_list_ex list_all_iff)
next
  case False
  with maxDepth_chain [OF assms(1) _ assms(3,2)] assms(4,5,6) show ?thesis
    by (simp add: registerRule_def Let_def sub_names_list_ex list_all_iff)
qed

theorem registerRule_limits_chains_witness:
  "registerRule 5 ''r'' [sub_item ''x''] (new_engine 3) =
     Some ((new_engine 3)\<lparr>ruleMap := smap_set ''r'' [sub_item ''x''] []\<rparr>, True)"
proof -
  have "chain (resolve [] ''r'' [sub_item ''x'']) [sub_item ''x''] 1"
    by (rule chain.open_end [of _ "''x''"]) (simp_all add: sub_names_def sub_item_def resolve_def)
  then show ?thesis
    using registerRule_limits_chains [of "new_engine 3" "''r''" "[sub_item ''x'']" 1 5]
    by (simp add: new_engine_def sub_item_def)
qed

text \<open>
  The check against recursion does not end for a rule that first refers to an unknown sub rule and then
  to itself (limit 2 or more): the unknown reference resets the depth, so the counter never passes the
  limit and \<open>maxDepth\<close> recurses for ever.
\<close>

theorem registerRule_recursion_never_ends:
  assumes "sub_names rule = [u, nm]" and "u \<noteq> nm" and "map_of (ruleMap eng) u = None" and "2 \<le> depthLimit eng"
    and "nm \<noteq> []" and "\<forall>it \<in> set rule. isASubRule it \<or> known_action eng (actionName it)"
  shows "registerRule fuel nm rule eng = None"
proof -
  have "rule \<noteq> []" using assms(1) by (auto simp: sub_names_def)
  with maxDepth_self [OF assms(1-4), of 0 0 fuel] assms(1,5,6) show ?thesis
    by (simp add: registerRule_def Let_def sub_names_list_ex list_all_iff)
qed

theorem registerRule_recursion_never_ends_witness:
  "registerRule 1000 ''r'' [sub_item ''x'', sub_item ''r''] (new_engine 3) = None"
  by (rule registerRule_recursion_never_ends [of _ "''x''"])
     (simp_all add: sub_names_def sub_item_def new_engine_def)

text \<open>
  The limit does not bound the nesting of rules with more than one reference: a ladder of any height
  \<open>n\<close>, each of whose rules refers to an unknown sub rule before the next rung, is accepted as soon as the
  limit is 2.
\<close>

theorem depth_limit_misses_ladders:
  assumes "ladder (resolve (ruleMap eng) nm rule) rule n" and "2 \<le> depthLimit eng" and "n < fuel"
    and "nm \<noteq> []" and "rule \<noteq> []" and "\<forall>it \<in> set rule. isASubRule it \<or> known_action eng (actionName it)"
  shows "registerRule fuel nm rule eng = Some (eng\<lparr>ruleMap := smap_set nm rule (ruleMap eng)\<rparr>, True)"
  using maxDepth_ladder [OF assms(1) _ _ assms(3,2), of 0 0] assms(2,4,5,6)
  by (auto simp: registerRule_def Let_def list_all_iff)

definition ladder_engine :: engine where
  "ladder_engine = (new_engine 2)\<lparr>ruleMap := [(''a'', [sub_item ''x'', sub_item ''b'']), (''b'', [sub_item ''x'', sub_item ''c'']),
     (''c'', [sub_item ''x'', sub_item ''d'']), (''d'', [act_item ''.ToNextAction'' []])]\<rparr>"

theorem depth_limit_misses_ladders_witness:
  "depthLimit ladder_engine = 2 \<and> snd (the (registerRule 9 ''r'' [sub_item ''x'', sub_item ''a''] ladder_engine))"
proof -
  let ?r = "[sub_item ''x'', sub_item ''a'']"
  let ?m = "resolve (ruleMap ladder_engine) ''r'' ?r"
  note defs = ladder_engine_def resolve_def sub_names_def sub_item_def act_item_def new_engine_def
  have "ladder ?m [act_item ''.ToNextAction'' []] 0" by (rule ladder.bottom) (simp add: defs)
  then have "ladder ?m [sub_item ''x'', sub_item ''d''] 1"
    unfolding One_nat_def by (rule ladder.rung [of _ "''x''" "''d''", rotated 3]) (simp_all add: defs)
  then have "ladder ?m [sub_item ''x'', sub_item ''c''] (Suc 1)"
    by (rule ladder.rung [of _ "''x''" "''c''", rotated 3]) (simp_all add: defs)
  then have "ladder ?m [sub_item ''x'', sub_item ''b''] (Suc (Suc 1))"
    by (rule ladder.rung [of _ "''x''" "''b''", rotated 3]) (simp_all add: defs)
  then have l: "ladder ?m ?r (Suc (Suc (Suc 1)))"
    by (rule ladder.rung [of _ "''x''" "''a''", rotated 3]) (simp_all add: defs)
  have "registerRule 9 ''r'' ?r ladder_engine = Some (ladder_engine\<lparr>ruleMap := smap_set ''r'' ?r (ruleMap ladder_engine)\<rparr>, True)"
    by (rule depth_limit_misses_ladders [OF l]) (simp_all add: defs)
  then show ?thesis by (simp add: ladder_engine_def new_engine_def)
qed


text \<open>
  \<open>invoke\<close> reports the opposite of what happened. When the action returns successfully within the time
  limit the wait is signalled, \<open>tryWait\<close> says false, and the caller gets false with neither the context nor
  the output of the call; when the wait times out the caller gets true and whatever is there.
\<close>

theorem invoke_reports_inverted:
  assumes "map_of (actions eng) nm = Some ptr" and "nm \<noteq> ''.ToNextAction''"
    and "\<And>c a. \<exists>c' out. e_act E ptr c a = Returned c' out \<and> ctxStatus c' = aSucceed"
  shows "\<exists>x. run_loop 2 E eng (invoke_cmd nm input ctx) 0 (start_exec (invoke_cmd nm input ctx)) = Some (x, True) \<and>
     x_trace x = [0] \<and> ctxStatus (x_ctx x) = aSucceed \<and>
     invoke_result SIGNALED x ctx o0 = (False, ctx, o0) \<and>
     (\<forall>y. invoke_result TIMEDOUT y ctx o0 = (True, x_ctx y, x_out y))"
proof -
  let ?cmd = "invoke_cmd nm input ctx" and ?it = "cmd_rule (invoke_cmd nm input ctx) ! 0"
  let ?x1 = "(set_meta ''sys.LastActionIdx'' (decimal 0) (set_meta ''sys.LastActionName'' nm (start_exec ?cmd)))\<lparr>x_out := []\<rparr>"
  obtain c' out where a: "e_act E ptr (x_ctx ?x1) (inputArgs ?it) = Returned c' out" "ctxStatus c' = aSucceed"
    using assms(3) by blast
  let ?x2 = "?x1\<lparr>x_ctx := c', x_out := out, x_trace := [0]\<rparr>"
  have len: "length (cmd_rule ?cmd) = 1" by (simp add: invoke_cmd_def)
  have "run_item E eng ?cmd 0 (start_exec ?cmd) = invoke_action E ?it ptr 0 ?x1"
    using assms(1,2) by (simp add: run_item_def invoke_cmd_def Let_def)
  also have "\<dots> = (copy_outputs (output2ctx ?it) out ?x2, Next 1)"
    using a by (simp add: invoke_action_def start_exec_def Let_def)
  finally have it: "run_item E eng ?cmd 0 (start_exec ?cmd) = (?x2, Next 1)"
    by (simp add: invoke_cmd_def)
  have "run_loop 2 E eng ?cmd 0 (start_exec ?cmd) = Some (?x2, True)"
    using it by (simp add: numeral_2_eq_2 len)
  with a(2) show ?thesis
    by (intro exI [of _ ?x2]) (simp add: invoke_result_def tryWait_def)
qed

theorem invoke_reports_inverted_witness:
  "let eng = fst (registerAction ''a'' 1 [] (new_engine 3)); ctx = \<lparr>ctxStatus = aSucceed, metaData = []\<rparr>;
       E = no_env\<lparr>e_act := (\<lambda>_ c _. Returned (c\<lparr>ctxStatus := aSucceed\<rparr>) [(''r'', ''1'')])\<rparr>
   in \<exists>x. run_loop 2 E eng (invoke_cmd ''a'' [] ctx) 0 (start_exec (invoke_cmd ''a'' [] ctx)) = Some (x, True) \<and>
      invoke_result SIGNALED x ctx [] = (False, ctx, [])"
proof -
  let ?eng = "fst (registerAction ''a'' 1 [] (new_engine 3))" and ?ctx = "\<lparr>ctxStatus = aSucceed, metaData = []\<rparr>"
  let ?E = "no_env\<lparr>e_act := (\<lambda>_ c _. Returned (c\<lparr>ctxStatus := aSucceed\<rparr>) [(''r'', ''1'')])\<rparr>"
  have m: "map_of (actions ?eng) ''a'' = Some 1"
    by (simp add: registerAction_def new_engine_def)
  have r: "\<exists>c' out. e_act ?E 1 c a = Returned c' out \<and> ctxStatus c' = aSucceed" for c a
    by simp
  have n: "''a'' \<noteq> ''.ToNextAction''" by simp
  from invoke_reports_inverted [OF m n r, of "[]" ?ctx "[]"] show ?thesis
    unfolding Let_def by blast
qed

text \<open>
  Duplicate posts: an event with a transaction that is queued already changes nothing, and after the
  queued command has started to run the same event is accepted again, adding exactly one command.
\<close>

theorem duplicate_transaction_ignored:
  assumes "txn \<noteq> []" and "OnEvent c ev stp src ps txn p txns s = (txns1, s1)" and "txns1 \<noteq> txns" and "pool_running s" and "q \<noteq> p"
    and "take_cmd (length (queued s)) txns1 s1 = (txns2, s2)"
  shows "OnEvent c' ev' stp' src' ps' txn q txns1 s1 = (txns1, s1) \<and> length (queued s1) = Suc (length (queued s)) \<and>
     length (queued (snd (OnEvent c ev stp src ps txn q txns2 s2))) = Suc (length (queued s2))"
proof -
  obtain names where names: "map_of (eventToRules s) (search_key c ev) = Some names" "names \<noteq> []"
    and txns1: "txns1 = smap_set txn p txns"
    using assms(1-3) by (auto simp: OnEvent_def new_cmd_def Let_def split: option.splits if_splits)
  then have s1: "eventToRules s1 = eventToRules s" "pool_running s1" "\<exists>cmd. queued s1 = queued s @ [cmd] \<and> cmd_txnId cmd = txn"
    using assms(1-4) by (auto simp: OnEvent_def new_cmd_def Let_def split: option.splits if_splits)
  have listed: "map_of txns1 txn = Some p" by (simp add: txns1 std_simps)
  have "OnEvent c' ev' stp' src' ps' txn q txns1 s1 = (txns1, s1)"
    using assms(1,5) listed by (simp add: OnEvent_def new_cmd_def Let_def split: option.splits)
  moreover have "eventToRules s2 = eventToRules s" "pool_running s2" "map_of txns2 txn = None"
    using assms(6) s1 by (auto simp: take_cmd_def Let_def map_of_free_txn)
  then have "length (queued (snd (OnEvent c ev stp src ps txn q txns2 s2))) = Suc (length (queued s2))"
    using names by (auto simp: OnEvent_def new_cmd_def Let_def)
  ultimately show ?thesis using s1 by auto
qed

theorem duplicate_transaction_ignored_witness:
  "let s = fst (applyRulesToEvent ''c'' ''e'' [''r''] (new_engine 3)); (txns1, s1) = OnEvent ''c'' ''e'' [] [] [] ''t'' 1 [] s
   in txns1 \<noteq> [] \<and> OnEvent ''c'' ''e'' [] [] [] ''t'' 2 txns1 s1 = (txns1, s1)"
proof -
  let ?s = "fst (applyRulesToEvent ''c'' ''e'' [''r''] (new_engine 3))"
  obtain txns1 s1 where o: "OnEvent ''c'' ''e'' [] [] [] ''t'' 1 [] ?s = (txns1, s1)" by fastforce
  obtain txns2 s2 where k: "take_cmd (length (queued ?s)) txns1 s1 = (txns2, s2)" by fastforce
  have "fst (OnEvent ''c'' ''e'' [] [] [] ''t'' 1 [] ?s) \<noteq> []" "pool_running ?s"
    by (simp_all add: OnEvent_def applyRulesToEvent_def search_key_def new_engine_def new_cmd_def Let_def)
  with duplicate_transaction_ignored [OF _ o _ _ _ k, of 2] o show ?thesis
    unfolding Let_def by simp
qed

text \<open>
  The table of actions does not follow the lives of the action objects. An action registered again under
  an alias stays in the table, as a dangling pointer, when it is destroyed; and the destructor of an action
  whose name was taken over by another one removes the other one, which is still alive.
\<close>

theorem action_registry_dangles:
  assumes "nm \<noteq> []" and "alias \<noteq> []" and "alias \<noteq> nm"
  shows "map_of (actions (Action_dtor nm (fst (registerAction nm p alias (Action_ctor (Some nm) p s))))) alias = Some p \<and>
     map_of (actions (Action_dtor nm (Action_ctor (Some nm) q (Action_ctor (Some nm) p s)))) nm = None"
  using assms
  by (simp add: Action_ctor_def Action_dtor_def registerAction_def unregisterAction_def Let_def std_simps)

theorem action_registry_dangles_witness:
  "map_of (actions (Action_dtor ''a'' (fst (registerAction ''a'' 1 ''b'' (Action_ctor (Some ''a'') 1 (new_engine 3)))))) ''b'' = Some 1"
  using action_registry_dangles [of "''a''" "''b''" 1 "new_engine 3" 2] by simp

text \<open>
  A \<open>mod\<close> condition divides by whatever \<open>atoi\<close> reads from its argument: with an argument that is not a
  number, or zero, testing the condition traps and the process dies, before the action is looked up.
\<close>

theorem mod_condition_traps:
  assumes "isASubRule it = False" and "it = cmd_rule cmd ! idx" and "conditions it = (k, ev) # cs"
    and "map_of (metaData (x_ctx x)) k = Some arg" and "split ev CHR '' '' 0 = ''mod'' # d # ds" and "atoi d = 0"
  shows "run_item E eng cmd idx x = (x, Trap)"
proof -
  have "ev \<noteq> []" using assms(5) by (auto simp: split_def)
  then have "meet_all E (metaData (x_ctx x)) (conditions it) = None"
    using assms(3-6) by (simp add: FunDict_def mod_cond_def Let_def)
  with assms(1,2) show ?thesis by (simp add: run_item_def Let_def)
qed

theorem mod_condition_traps_witness:
  "let it = (act_item ''a'' [])\<lparr>conditions := [(''n'', ''mod x'')]\<rparr>; cmd = (sample_cmd [it])\<lparr>cmd_ctx := \<lparr>ctxStatus = aSucceed, metaData = [(''n'', ''7'')]\<rparr>\<rparr>
   in run_item no_env (new_engine 3) cmd 0 (start_exec cmd) = (start_exec cmd, Trap)"
proof -
  let ?it = "(act_item ''a'' [])\<lparr>conditions := [(''n'', ''mod x'')]\<rparr>"
  let ?cmd = "(sample_cmd [?it])\<lparr>cmd_ctx := \<lparr>ctxStatus = aSucceed, metaData = [(''n'', ''7'')]\<rparr>\<rparr>"
  have "split ''mod x'' CHR '' '' 0 = [''mod'', ''x'']" and "atoi ''x'' = 0"
    by (simp add: split_def split_loop.simps find_first_of_def upt_rec nth_Cons') code_simp
  then show ?thesis
    using mod_condition_traps [of ?it ?cmd 0 "''n''" "''mod x''" "[]" "start_exec ?cmd" "''7''" "''x''" "[]" no_env "new_engine 3"]
    by (simp add: sample_cmd_def act_item_def start_exec_def)
qed

end
