(* ===== verification/Rule_Import.thy ===== *)
theory Rule_Import
  imports Rule_Engine_Model
begin

text \<open>
  The XML importer of RuleEngine.cpp on top of the element stack of expatxx.cpp: the parser (expat) delivers
  start and end tags, the importer builds rules and calls the engine. The calls are recorded in order.
\<close>

subsection \<open>The importer\<close>

datatype import_call = CallRule string rule | CallEvent string string "string list"

record importer =
  im_rule :: rule
  im_item :: rule_item
  currentAction :: string
  currentRule :: string
  currentCategory :: string
  currentEvent :: string
  eventRules :: "string list"
  im_meta :: props
  elemNameStack :: "string list"
  im_calls :: "import_call list"

definition empty_item :: rule_item where
  "empty_item = \<lparr>actionName = [], isASubRule = False, conditions = [], inputArgs = [], output2ctx = []\<rparr>"

definition new_importer :: importer where
  "new_importer = \<lparr>im_rule = [], im_item = empty_item, currentAction = [], currentRule = [], currentCategory = [],
     currentEvent = [], eventRules = [], im_meta = [], elemNameStack = [], im_calls = []\<rparr>"

definition getHiberarchyName :: "string list \<Rightarrow> string" where
  "getHiberarchyName st = concat (map (\<lambda>e. ''/'' @ e) st)"

text \<open>\<open>attrMap[k]\<close>, empty when the attribute is missing.\<close>

definition attr_map :: "(string \<times> string) list \<Rightarrow> props" where
  "attr_map atts = fold (\<lambda>(k, v) m. smap_set k v m) atts []"

definition attr :: "props \<Rightarrow> string \<Rightarrow> string" where
  "attr m k = (case map_of m k of None \<Rightarrow> [] | Some v \<Rightarrow> v)"

definition clear_item :: "rule_item \<Rightarrow> rule_item" where
  "clear_item it = it\<lparr>actionName := [], conditions := [], inputArgs := [], output2ctx := []\<rparr>"

definition OnStartElement :: "string \<Rightarrow> props \<Rightarrow> importer \<Rightarrow> importer" where
  "OnStartElement h m s =
     (if h = ''/Rules/Rule'' then s\<lparr>currentRule := attr m ''name''\<rparr>
      else if h = ''/Rules/Rule/Action''
      then s\<lparr>currentAction := attr m ''name'',
             im_item := (im_item s)\<lparr>actionName := attr m ''name'', isASubRule := False\<rparr>\<rparr>
      else if h = ''/Rules/Rule/Exec''
      then s\<lparr>im_item := (im_item s)\<lparr>isASubRule := True, actionName := attr m ''rule''\<rparr>\<rparr>
      else if h = ''/Rules/Rule/Action/Condition'' \<and> currentAction s \<noteq> []
      then s\<lparr>im_item := (im_item s)\<lparr>conditions :=
             smap_set (attr m ''ctxMetaData'') (attr m ''evaluation'') (conditions (im_item s))\<rparr>\<rparr>
      else if h = ''/Rules/Rule/Action/arg'' \<and> currentAction s \<noteq> []
      then s\<lparr>im_item := (im_item s)\<lparr>inputArgs := smap_set (attr m ''name'') (attr m ''value'') (inputArgs (im_item s))\<rparr>\<rparr>
      else if h = ''/Rules/Rule/Action/ResultMetaData'' \<and> currentAction s \<noteq> [] then s\<lparr>im_meta := []\<rparr>
      else if h = ''/Rules/Rule/Action/ResultMetaData/result'' \<and> currentAction s \<noteq> []
      then s\<lparr>im_meta := smap_set (attr m ''outputName'') (attr m ''ctxMetaData'') (im_meta s)\<rparr>
      else if h = ''/Rules/Event''
      then s\<lparr>eventRules := [], currentCategory := attr m ''category'', currentEvent := attr m ''event''\<rparr>
      else if h = ''/Rules/Event/Exec'' \<and> currentEvent s \<noteq> []
      then s\<lparr>eventRules := eventRules s @ [attr m ''rule'']\<rparr>
      else s)"

definition OnEndElement :: "string \<Rightarrow> importer \<Rightarrow> importer" where
  "OnEndElement h s =
     (if h = ''/Rules/Rule'' \<and> currentRule s \<noteq> []
      then s\<lparr>im_calls := im_calls s @ [CallRule (currentRule s) (im_rule s)], im_rule := []\<rparr>
      else if h = ''/Rules/Rule/Action'' \<and> currentAction s \<noteq> [] \<and> currentRule s \<noteq> []
      then s\<lparr>im_rule := im_rule s @ [im_item s], im_item := clear_item (im_item s)\<rparr>
      else if h = ''/Rules/Rule/Exec''
      then s\<lparr>im_rule := im_rule s @ [im_item s], im_item := clear_item (im_item s)\<rparr>
      else if h = ''/Rules/Rule/Action/Condition'' \<and> currentAction s \<noteq> [] then s\<lparr>im_meta := []\<rparr>
      else if h = ''/Rules/Rule/Action/arg'' \<and> currentAction s \<noteq> [] then s\<lparr>im_meta := []\<rparr>
      else if h = ''/Rules/Rule/Action/ResultMetaData'' \<and> currentAction s \<noteq> []
      then s\<lparr>im_item := (im_item s)\<lparr>output2ctx := im_meta s\<rparr>, im_meta := []\<rparr>
      else if h = ''/Rules/Rule/Action/ResultMetaData/result'' \<and> currentAction s \<noteq> [] then s
      else if h = ''/Rules/Event''
      then s\<lparr>im_calls := im_calls s @ [CallEvent (currentCategory s) (currentEvent s) (eventRules s)]\<rparr>
      else s)"

text \<open>The tags that the parser delivers, and the stack of open elements around the callbacks.\<close>

datatype xml = Start string "(string \<times> string) list" | End string

fun xml_step :: "xml \<Rightarrow> importer \<Rightarrow> importer" where
  "xml_step (Start nm atts) s =
     (let s1 = s\<lparr>elemNameStack := elemNameStack s @ [nm]\<rparr>
      in OnStartElement (getHiberarchyName (elemNameStack s1)) (attr_map atts) s1)"
| "xml_step (End nm) s =
     (let s1 = OnEndElement (getHiberarchyName (elemNameStack s)) s
      in if last (elemNameStack s1) = nm then s1\<lparr>elemNameStack := butlast (elemNameStack s1)\<rparr> else s1)"

definition import_doc :: "xml list \<Rightarrow> importer \<Rightarrow> importer" where
  "import_doc es s = fold xml_step es s"

text \<open>What \<open>loadConfig\<close> does to the engine: the recorded calls in order (\<open>None\<close> if one does not return).\<close>

fun apply_calls :: "nat \<Rightarrow> import_call list \<Rightarrow> engine \<Rightarrow> engine option" where
  "apply_calls fuel [] eng = Some eng"
| "apply_calls fuel (CallRule nm r # cs) eng =
     (case registerRule fuel nm r eng of None \<Rightarrow> None | Some (eng', _) \<Rightarrow> apply_calls fuel cs eng')"
| "apply_calls fuel (CallEvent c e rs # cs) eng = apply_calls fuel cs (fst (applyRulesToEvent c e rs eng))"

definition loadConfig :: "nat \<Rightarrow> xml list \<Rightarrow> engine \<Rightarrow> engine option" where
  "loadConfig fuel es eng = apply_calls fuel (im_calls (import_doc es new_importer)) eng"

subsection \<open>Documents\<close>

text \<open>The document of a list of rules and events.\<close>

definition tag :: "string \<Rightarrow> (string \<times> string) list \<Rightarrow> xml list \<Rightarrow> xml list" where
  "tag nm atts body = Start nm atts # body @ [End nm]"

definition render_item :: "rule_item \<Rightarrow> xml list" where
  "render_item it =
     (if isASubRule it then tag ''Exec'' [(''rule'', actionName it)] []
      else tag ''Action'' [(''name'', actionName it)]
        (concat (map (\<lambda>(k, v). tag ''Condition'' [(''ctxMetaData'', k), (''evaluation'', v)] []) (conditions it)) @
         concat (map (\<lambda>(k, v). tag ''arg'' [(''name'', k), (''value'', v)] []) (inputArgs it)) @
         tag ''ResultMetaData'' []
           (concat (map (\<lambda>(k, v). tag ''result'' [(''outputName'', k), (''ctxMetaData'', v)] []) (output2ctx it)))))"

definition render_rule :: "string \<times> rule \<Rightarrow> xml list" where
  "render_rule p = tag ''Rule'' [(''name'', fst p)] (concat (map render_item (snd p)))"

definition render_event :: "string \<times> string \<times> string list \<Rightarrow> xml list" where
  "render_event p = (case p of (c, e, rs) \<Rightarrow>
     tag ''Event'' [(''category'', c), (''event'', e)] (concat (map (\<lambda>r. tag ''Exec'' [(''rule'', r)] []) rs)))"

definition render_doc :: "(string \<times> rule) list \<Rightarrow> (string \<times> string \<times> string list) list \<Rightarrow> xml list" where
  "render_doc rules events = tag ''Rules'' [] (concat (map render_rule rules) @ concat (map render_event events))"

subsection \<open>Importing a document gives its rules back\<close>

lemma import_Nil [simp]: "import_doc [] s = s"
  by (simp add: import_doc_def)

lemma import_Cons: "import_doc (e # es) s = import_doc es (xml_step e s)"
  by (simp add: import_doc_def)

lemma import_append: "import_doc (es @ fs) s = import_doc fs (import_doc es s)"
  by (simp add: import_doc_def)

lemma import_tag: "import_doc (tag nm atts body) s = xml_step (End nm) (import_doc body (xml_step (Start nm atts) s))"
  by (simp add: tag_def import_doc_def)

lemma attrs [simp]:
  "attr (attr_map [(''name'', v)]) ''name'' = v"
  "attr (attr_map [(''rule'', v)]) ''rule'' = v"
  "attr (attr_map [(''ctxMetaData'', v), (''evaluation'', w)]) ''ctxMetaData'' = v"
  "attr (attr_map [(''ctxMetaData'', v), (''evaluation'', w)]) ''evaluation'' = w"
  "attr (attr_map [(''name'', v), (''value'', w)]) ''name'' = v"
  "attr (attr_map [(''name'', v), (''value'', w)]) ''value'' = w"
  "attr (attr_map [(''outputName'', v), (''ctxMetaData'', w)]) ''outputName'' = v"
  "attr (attr_map [(''outputName'', v), (''ctxMetaData'', w)]) ''ctxMetaData'' = w"
  "attr (attr_map [(''category'', v), (''event'', w)]) ''category'' = v"
  "attr (attr_map [(''category'', v), (''event'', w)]) ''event'' = w"
  by (simp_all add: attr_def attr_map_def std_simps)

abbreviation in_action :: "importer \<Rightarrow> bool" where
  "in_action s \<equiv> elemNameStack s = [''Rules'', ''Rule'', ''Action''] \<and> currentAction s \<noteq> []"

lemmas step_simps = import_tag getHiberarchyName_def OnStartElement_def OnEndElement_def Let_def

lemma import_condition:
  "in_action s \<Longrightarrow> import_doc (tag ''Condition'' [(''ctxMetaData'', k), (''evaluation'', v)] []) s =
     s\<lparr>im_item := (im_item s)\<lparr>conditions := smap_set k v (conditions (im_item s))\<rparr>, im_meta := []\<rparr>"
  by (simp add: step_simps)

lemma import_arg:
  "in_action s \<Longrightarrow> import_doc (tag ''arg'' [(''name'', k), (''value'', v)] []) s =
     s\<lparr>im_item := (im_item s)\<lparr>inputArgs := smap_set k v (inputArgs (im_item s))\<rparr>, im_meta := []\<rparr>"
  by (simp add: step_simps)


text \<open>Inserting ascending keys behind smaller ones appends.\<close>

lemma fold_smap_set:
  "smap_wf (acc @ m) \<Longrightarrow> fold (\<lambda>(k, v) a. smap_set k v a) m acc = acc @ m"
proof (induction m arbitrary: acc)
  case (Cons p m)
  obtain k v where p: "p = (k, v)" by fastforce
  have "\<forall>q \<in> set acc. fst q < k" using Cons.prems by (simp add: smap_wf_def sorted_wrt_append p)
  then have "smap_set k v acc = acc @ [(k, v)]" by (rule smap_set_greatest)
  with Cons.IH [of "acc @ [p]"] Cons.prems show ?case by (simp add: p)
qed simp

lemma fold_smap_set_Nil: "smap_wf m \<Longrightarrow> fold (\<lambda>(k, v) a. smap_set k v a) m [] = m"
  using fold_smap_set [of "[]" m] by simp

lemma import_conditions:
  "in_action s \<Longrightarrow> import_doc (concat (map (\<lambda>(k, v). tag ''Condition'' [(''ctxMetaData'', k), (''evaluation'', v)] []) cs)) s =
     s\<lparr>im_item := (im_item s)\<lparr>conditions := fold (\<lambda>(k, v) a. smap_set k v a) cs (conditions (im_item s))\<rparr>,
       im_meta := (if cs = [] then im_meta s else [])\<rparr>"
  by (induction cs arbitrary: s) (auto simp: import_append import_condition)

lemma import_args:
  "in_action s \<Longrightarrow> import_doc (concat (map (\<lambda>(k, v). tag ''arg'' [(''name'', k), (''value'', v)] []) cs)) s =
     s\<lparr>im_item := (im_item s)\<lparr>inputArgs := fold (\<lambda>(k, v) a. smap_set k v a) cs (inputArgs (im_item s))\<rparr>,
       im_meta := (if cs = [] then im_meta s else [])\<rparr>"
  by (induction cs arbitrary: s) (auto simp: import_append import_arg)

lemma import_results:
  "elemNameStack s = [''Rules'', ''Rule'', ''Action'', ''ResultMetaData''] \<Longrightarrow> currentAction s \<noteq> [] \<Longrightarrow>
   import_doc (concat (map (\<lambda>(k, v). tag ''result'' [(''outputName'', k), (''ctxMetaData'', v)] []) cs)) s =
     s\<lparr>im_meta := fold (\<lambda>(k, v) a. smap_set k v a) cs (im_meta s)\<rparr>"
  by (induction cs arbitrary: s) (auto simp: import_append step_simps)

lemma import_ResultMetaData:
  "in_action s \<Longrightarrow> import_doc (tag ''ResultMetaData'' []
       (concat (map (\<lambda>(k, v). tag ''result'' [(''outputName'', k), (''ctxMetaData'', v)] []) cs))) s =
     s\<lparr>im_item := (im_item s)\<lparr>output2ctx := fold (\<lambda>(k, v) a. smap_set k v a) cs []\<rparr>, im_meta := []\<rparr>"
  by (simp add: step_simps import_results)

definition good_item :: "rule_item \<Rightarrow> bool" where
  "good_item it \<longleftrightarrow>
     (if isASubRule it then conditions it = [] \<and> inputArgs it = [] \<and> output2ctx it = []
      else actionName it \<noteq> [] \<and> smap_wf (conditions it) \<and> smap_wf (inputArgs it) \<and> smap_wf (output2ctx it))"

definition blank :: "rule_item \<Rightarrow> bool" where
  "blank it \<longleftrightarrow> actionName it = [] \<and> conditions it = [] \<and> inputArgs it = [] \<and> output2ctx it = []"

text \<open>Between two items of a rule, whose name is known.\<close>

definition in_rule :: "importer \<Rightarrow> bool" where
  "in_rule s \<longleftrightarrow> elemNameStack s = [''Rules'', ''Rule''] \<and> currentRule s \<noteq> [] \<and> blank (im_item s)"

lemma import_item:
  assumes s: "in_rule s" and it: "good_item it"
  shows "let s' = import_doc (render_item it) s
    in in_rule s' \<and> im_rule s' = im_rule s @ [it] \<and> im_calls s' = im_calls s \<and> currentRule s' = currentRule s"
proof (cases "isASubRule it")
  case True
  then show ?thesis
    using assms
    by (simp add: render_item_def step_simps in_rule_def blank_def good_item_def clear_item_def)
next
  case False
  let ?s1 = "s\<lparr>elemNameStack := [''Rules'', ''Rule'', ''Action''], currentAction := actionName it,
               im_item := (im_item s)\<lparr>actionName := actionName it, isASubRule := False\<rparr>\<rparr>"
  let ?it = "(im_item s)\<lparr>actionName := actionName it, isASubRule := False, conditions := conditions it,
      inputArgs := inputArgs it, output2ctx := output2ctx it\<rparr>"
  let ?s2 = "?s1\<lparr>im_item := ?it, im_meta := []\<rparr>"
  have start: "xml_step (Start ''Action'' [(''name'', actionName it)]) s = ?s1"
    using s by (simp add: in_rule_def step_simps)
  have "fold (\<lambda>(k, v) a. smap_set k v a) (conditions it) [] = conditions it"
    "fold (\<lambda>(k, v) a. smap_set k v a) (inputArgs it) [] = inputArgs it"
    "fold (\<lambda>(k, v) a. smap_set k v a) (output2ctx it) [] = output2ctx it"
    using it False by (simp_all add: good_item_def fold_smap_set_Nil)
  then have body: "import_doc (render_item it) s = xml_step (End ''Action'') ?s2"
    using s it False
    by (simp add: render_item_def import_tag [of "''Action''"] start import_append import_conditions import_args
        import_ResultMetaData in_rule_def blank_def good_item_def del: xml_step.simps)
  have whole: "?it = it"
    using False by (cases it; cases "im_item s") simp
  show ?thesis
    unfolding body whole using s it False
    by (simp add: in_rule_def blank_def good_item_def clear_item_def step_simps)
qed

lemma import_items:
  "in_rule s \<Longrightarrow> \<forall>it \<in> set its. good_item it \<Longrightarrow>
   let s' = import_doc (concat (map render_item its)) s
   in in_rule s' \<and> im_rule s' = im_rule s @ its \<and> im_calls s' = im_calls s \<and> currentRule s' = currentRule s"
proof (induction its arbitrary: s)
  case (Cons it its)
  have it: "good_item it" using Cons.prems(2) by simp
  note one = import_item [OF Cons.prems(1) it, unfolded Let_def]
  have "in_rule (import_doc (render_item it) s)" using one by simp
  from Cons.IH [OF this] Cons.prems(2) one show ?case by (simp add: import_append Let_def)
qed (simp add: Let_def)

text \<open>Between two rules or events.\<close>

definition in_doc :: "importer \<Rightarrow> bool" where
  "in_doc s \<longleftrightarrow> elemNameStack s = [''Rules''] \<and> blank (im_item s) \<and> im_rule s = []"

lemma import_rule:
  assumes s: "in_doc s" and p: "fst p \<noteq> []" "\<forall>it \<in> set (snd p). good_item it"
  shows "let s' = import_doc (render_rule p) s
    in in_doc s' \<and> im_calls s' = im_calls s @ [CallRule (fst p) (snd p)]"
proof -
  let ?s1 = "xml_step (Start ''Rule'' [(''name'', fst p)]) s"
  let ?s2 = "import_doc (concat (map render_item (snd p))) ?s1"
  have s1: "in_rule ?s1" "im_rule ?s1 = []" "im_calls ?s1 = im_calls s" "currentRule ?s1 = fst p"
    using s p(1) by (simp_all add: in_doc_def in_rule_def step_simps)
  note items = import_items [OF s1(1) p(2), unfolded Let_def s1]
  have "import_doc (render_rule p) s = xml_step (End ''Rule'') ?s2"
    by (simp add: render_rule_def import_tag)
  with items p(1) show ?thesis
    by (simp add: in_rule_def in_doc_def step_simps)
qed

lemma import_execs:
  "elemNameStack s = [''Rules'', ''Event''] \<Longrightarrow> currentEvent s \<noteq> [] \<Longrightarrow>
   import_doc (concat (map (\<lambda>r. tag ''Exec'' [(''rule'', r)] []) rs)) s = s\<lparr>eventRules := eventRules s @ rs\<rparr>"
  by (induction rs arbitrary: s) (auto simp: import_append step_simps)

lemma import_event:
  assumes "in_doc s" and "fst (snd p) \<noteq> []"
  shows "let s' = import_doc (render_event p) s
    in in_doc s' \<and> im_calls s' = im_calls s @ [CallEvent (fst p) (fst (snd p)) (snd (snd p))]"
  using assms by (cases p) (simp add: render_event_def in_doc_def import_tag [of "''Event''"] import_execs getHiberarchyName_def
      OnStartElement_def OnEndElement_def)

lemma import_rules:
  "in_doc s \<Longrightarrow> \<forall>p \<in> set rules. fst p \<noteq> [] \<and> (\<forall>it \<in> set (snd p). good_item it) \<Longrightarrow>
   let s' = import_doc (concat (map render_rule rules)) s
   in in_doc s' \<and> im_calls s' = im_calls s @ map (\<lambda>p. CallRule (fst p) (snd p)) rules"
proof (induction rules arbitrary: s)
  case (Cons p rules)
  have p: "fst p \<noteq> []" "\<forall>it \<in> set (snd p). good_item it" using Cons.prems(2) by simp_all
  note one = import_rule [OF Cons.prems(1) p, unfolded Let_def]
  then have "in_doc (import_doc (render_rule p) s)" by simp
  from Cons.IH [OF this] Cons.prems(2) one show ?case by (simp add: import_append Let_def)
qed (simp add: Let_def)

lemma import_events:
  "in_doc s \<Longrightarrow> \<forall>p \<in> set events. fst (snd p) \<noteq> [] \<Longrightarrow>
   let s' = import_doc (concat (map render_event events)) s
   in in_doc s' \<and> im_calls s' = im_calls s @ map (\<lambda>p. CallEvent (fst p) (fst (snd p)) (snd (snd p))) events"
proof (induction events arbitrary: s)
  case (Cons p events)
  have p: "fst (snd p) \<noteq> []" using Cons.prems(2) by simp
  note one = import_event [OF Cons.prems(1) p, unfolded Let_def]
  then have "in_doc (import_doc (render_event p) s)" by simp
  from Cons.IH [OF this] Cons.prems(2) one show ?case by (simp add: import_append Let_def)
qed (simp add: Let_def)


subsection \<open>Properties\<close>

text \<open>
  C5. Importing the document of a list of rules and event associations makes exactly the calls to the engine
  that the document describes, in its order: each rule with all its items, conditions, arguments and output
  mappings, each event with its rules. So \<open>loadConfig\<close> has the effect of registering them one by one.
\<close>

theorem import_gives_rules_back:
  assumes "\<forall>p \<in> set rules. fst p \<noteq> [] \<and> (\<forall>it \<in> set (snd p). good_item it)"
    and "\<forall>p \<in> set events. fst (snd p) \<noteq> []"
  shows "im_calls (import_doc (render_doc rules events) new_importer) =
      map (\<lambda>p. CallRule (fst p) (snd p)) rules @ map (\<lambda>p. CallEvent (fst p) (fst (snd p)) (snd (snd p))) events"
proof -
  let ?s1 = "xml_step (Start ''Rules'' []) new_importer"
  have "in_doc ?s1" and "im_calls ?s1 = []"
    by (simp_all add: in_doc_def new_importer_def empty_item_def blank_def step_simps)
  note rules = import_rules [OF this(1) assms(1), unfolded Let_def this(2)]
  let ?s2 = "import_doc (concat (map render_rule rules)) ?s1"
  have "in_doc ?s2" using rules by simp
  note events = import_events [OF this assms(2), unfolded Let_def]
  let ?s3 = "import_doc (concat (map render_event events)) ?s2"
  have "import_doc (render_doc rules events) new_importer = xml_step (End ''Rules'') ?s3"
    by (simp add: render_doc_def import_tag import_append)
  with rules events show ?thesis by (simp add: in_doc_def step_simps)
qed

theorem import_gives_rules_back_witness:
  "let it = \<lparr>actionName = ''a'', isASubRule = False, conditions = [(''n'', ''mod 2'')], inputArgs = [], output2ctx = [(''o'', ''m'')]\<rparr>
   in im_calls (import_doc (render_doc [(''r'', [it])] [(''c'', ''e'', [''r''])]) new_importer) =
        [CallRule ''r'' [it], CallEvent ''c'' ''e'' [''r'']]"
proof -
  let ?it = "\<lparr>actionName = ''a'', isASubRule = False, conditions = [(''n'', ''mod 2'')], inputArgs = [], output2ctx = [(''o'', ''m'')]\<rparr>"
  have "good_item ?it" by (simp add: good_item_def)
  then show ?thesis using import_gives_rules_back [of "[(''r'', [?it])]" "[(''c'', ''e'', [''r''])]"] by simp
qed

end
