(* ===== verification/Priority_Queue.thy ===== *)
theory Priority_Queue
  imports Std_Map
begin

text \<open>
  \<open>HighPerfPriority_Queue\<close> of NativeThreadPool.h: a map from the 256 priority levels to queues, with a
  count. The interface is a locale that promises a stable priority queue: the content is a list ordered by
  level, first in first out within a level.
\<close>

subsection \<open>The interface\<close>

definition insert_level :: "uint8 \<Rightarrow> 'a \<Rightarrow> (uint8 \<times> 'a) list \<Rightarrow> (uint8 \<times> 'a) list" where
  "insert_level l x xs = takeWhile (\<lambda>p. fst p \<le> l) xs @ (l, x) # dropWhile (\<lambda>p. fst p \<le> l) xs"

lemma insert_level_fifo:
  assumes "sorted (map fst xs)"
  shows "map snd (filter (\<lambda>p. fst p = k) (insert_level l x xs)) =
     map snd (filter (\<lambda>p. fst p = k) xs) @ (if k = l then [x] else [])"
  using assms
proof (induction xs)
  case (Cons p xs)
  show ?case
  proof (cases "fst p \<le> l")
    case True
    then have "insert_level l x (p # xs) = p # insert_level l x xs" by (simp add: insert_level_def)
    with Cons show ?thesis by auto
  next
    case False
    then have "\<forall>p' \<in> set (p # xs). l < fst p'" using Cons.prems by auto
    then have "filter (\<lambda>p. fst p = l) (p # xs) = []" by (auto simp: filter_empty_conv)
    moreover have "insert_level l x (p # xs) = (l, x) # p # xs" using False by (simp add: insert_level_def)
    ultimately show ?thesis by (cases "k = l") (simp_all del: filter.simps(2) add: filter.simps(2) [of _ "(l, x)"])
  qed
qed (simp add: insert_level_def)

locale level_queue =
  fixes empty :: "'q" and push :: "uint8 \<Rightarrow> 'a \<Rightarrow> 'q \<Rightarrow> 'q" and top :: "'q \<Rightarrow> 'a" and pop :: "'q \<Rightarrow> 'q"
    and size :: "'q \<Rightarrow> nat" and content :: "'q \<Rightarrow> (uint8 \<times> 'a) list" and inv :: "'q \<Rightarrow> bool"
  assumes inv_empty: "inv empty" and inv_push: "inv q \<Longrightarrow> inv (push l x q)"
    and inv_pop: "inv q \<Longrightarrow> content q \<noteq> [] \<Longrightarrow> inv (pop q)"
    and content_empty: "content empty = []"
    and content_push: "inv q \<Longrightarrow> content (push l x q) = insert_level l x (content q)"
    and top_hd: "inv q \<Longrightarrow> content q \<noteq> [] \<Longrightarrow> top q = snd (hd (content q))"
    and content_pop: "inv q \<Longrightarrow> content q \<noteq> [] \<Longrightarrow> content (pop q) = tl (content q)"
    and size_content: "inv q \<Longrightarrow> size q = length (content q)"
    and content_sorted: "inv q \<Longrightarrow> sorted (map fst (content q))"
begin

text \<open>What is taken out has the smallest level in the queue.\<close>

lemma top_minimal:
  assumes "inv q" and "content q \<noteq> []"
  shows "\<exists>l. (l, top q) \<in> set (content q) \<and> (\<forall>p \<in> set (content q). l \<le> fst p)"
proof -
  obtain p ps where c: "content q = p # ps" using assms(2) by (cases "content q") auto
  have "sorted (map fst (p # ps))" using content_sorted [OF assms(1)] by (simp only: c)
  then have "\<forall>p' \<in> set (content q). fst p \<le> fst p'" by (auto simp: c)
  moreover have "(fst p, top q) \<in> set (content q)" using top_hd [OF assms] by (simp add: c)
  ultimately show ?thesis by blast
qed

lemma size_push: "inv q \<Longrightarrow> size (push l x q) = Suc (size q)"
proof -
  assume q: "inv q"
  have "length (takeWhile P xs) + length (dropWhile P xs) = length xs" for P and xs :: "(uint8 \<times> 'a) list"
    by (metis length_append takeWhile_dropWhile_id)
  with q show ?thesis by (simp add: size_content inv_push content_push insert_level_def)
qed

text \<open>Within a level, elements leave in the order in which they were pushed.\<close>

lemma fifo_in_level:
  assumes "inv q"
  shows "map snd (filter (\<lambda>p. fst p = k) (content (push l x q))) =
     map snd (filter (\<lambda>p. fst p = k) (content q)) @ (if k = l then [x] else [])"
  unfolding content_push [OF assms] by (rule insert_level_fifo [OF content_sorted [OF assms]])

end

subsection \<open>The implementation\<close>

record 'a hpq =
  mObjMap :: "(uint8 \<times> 'a list) list"
  mObjCount :: nat

definition hpq_empty :: "'a hpq" where
  "hpq_empty = \<lparr>mObjMap = [], mObjCount = 0\<rparr>"

definition hpq_push :: "uint8 \<Rightarrow> 'a \<Rightarrow> 'a hpq \<Rightarrow> 'a hpq" where
  "hpq_push level obj q =
     \<lparr>mObjMap = (case map_of (mObjMap q) level of
                   Some l \<Rightarrow> smap_set level (l @ [obj]) (mObjMap q)
                 | None \<Rightarrow> smap_insert level [obj] (mObjMap q)),
      mObjCount = mObjCount q + 1\<rparr>"

text \<open>\<open>top\<close> and \<open>pop\<close> dereference \<open>begin()\<close>: they are only defined on a non-empty queue.\<close>

definition hpq_top :: "'a hpq \<Rightarrow> 'a" where
  "hpq_top q = hd (snd (hd (mObjMap q)))"

definition hpq_pop :: "'a hpq \<Rightarrow> 'a hpq" where
  "hpq_pop q =
     (let (level, l) = hd (mObjMap q); l' = tl l
      in \<lparr>mObjMap = (if l' = [] then smap_erase level (mObjMap q) else smap_set level l' (mObjMap q)),
          mObjCount = mObjCount q - 1\<rparr>)"

definition hpq_isempty :: "'a hpq \<Rightarrow> bool" where
  "hpq_isempty q \<longleftrightarrow> mObjCount q = 0"

definition flat :: "(uint8 \<times> 'a list) list \<Rightarrow> (uint8 \<times> 'a) list" where
  "flat m = concat (map (\<lambda>(l, xs). map (Pair l) xs) m)"

definition hpq_content :: "'a hpq \<Rightarrow> (uint8 \<times> 'a) list" where
  "hpq_content q = flat (mObjMap q)"

definition hpq_inv :: "'a hpq \<Rightarrow> bool" where
  "hpq_inv q \<longleftrightarrow> entries_ok (\<lambda>l xs. xs \<noteq> []) (mObjMap q) \<and> mObjCount q = length (hpq_content q)"

lemma flat_Cons: "flat ((l, xs) # m) = map (Pair l) xs @ flat m"
  by (simp add: flat_def)

lemma flat_above: "smap_wf ((l, xs) # m) \<Longrightarrow> \<forall>p \<in> set (flat m). l < fst p"
  by (auto simp: smap_wf_Cons flat_def)

lemma insert_level_front: "\<forall>p \<in> set xs. l < fst p \<Longrightarrow> insert_level l x xs = (l, x) # xs"
  by (cases xs) (auto simp: insert_level_def)

lemma insert_level_append:
  "\<forall>p \<in> set xs. fst p \<le> l \<Longrightarrow> insert_level l x (xs @ ys) = xs @ insert_level l x ys"
  by (simp add: insert_level_def)

lemma flat_push:
  "entries_ok (\<lambda>l xs. xs \<noteq> []) m \<Longrightarrow>
     flat (smap_set l ((case map_of m l of None \<Rightarrow> [] | Some xs \<Rightarrow> xs) @ [x]) m) = insert_level l x (flat m)"
proof (induction m)
  case Nil
  then show ?case by (simp add: flat_def insert_level_def)
next
  case (Cons p m)
  obtain l' xs where p: "p = (l', xs)" by fastforce
  have ok: "entries_ok (\<lambda>l xs. xs \<noteq> []) m" and wf: "smap_wf ((l', xs) # m)"
    using Cons.prems by (auto simp: entries_ok_def p smap_wf_Cons)
  note above = flat_above [OF wf]
  consider "l < l'" | "l = l'" | "l' < l" by fastforce
  then show ?case
  proof cases
    case 1
    have "map_of (p # m) l = None"
      using 1 wf by (force simp: p smap_wf_Cons map_of_eq_None_iff)
    moreover have "\<forall>q \<in> set (flat (p # m)). l < fst q"
      using 1 above by (auto simp: p flat_Cons)
    moreover have "l \<noteq> l'" using 1 by auto
    ultimately show ?thesis using 1 by (simp add: p insert_level_front flat_Cons)
  next
    case 2
    then show ?thesis
      using above by (simp add: p flat_Cons insert_level_append insert_level_front)
  next
    case 3
    then have "\<not> l < l'" "l \<noteq> l'" and le: "\<forall>p \<in> set (map (Pair l') xs). fst p \<le> l" by auto
    then show ?thesis
      using Cons.IH [OF ok] insert_level_append [OF le, of x "flat m"] by (simp add: p flat_Cons)
  qed
qed

lemma flat_Nil_iff: "entries_ok (\<lambda>l xs. xs \<noteq> []) m \<Longrightarrow> flat m = [] \<longleftrightarrow> m = []"
  by (cases m) (auto simp: flat_def entries_ok_def)

lemma flat_sorted: "entries_ok (\<lambda>l xs. xs \<noteq> []) m \<Longrightarrow> sorted (map fst (flat m))"
proof (induction m)
  case (Cons p m)
  obtain l xs where p: "p = (l, xs)" by fastforce
  have "entries_ok (\<lambda>l xs. xs \<noteq> []) m" and wf: "smap_wf ((l, xs) # m)"
    using Cons.prems by (auto simp: entries_ok_def p smap_wf_Cons)
  with Cons.IH flat_above [OF wf] show ?case
    by (auto simp: p flat_Cons sorted_append comp_def less_imp_le map_replicate_const)
qed (simp add: flat_def)

lemma length_insert_level: "length (insert_level l x xs) = Suc (length xs)"
proof -
  have "length (takeWhile P xs) + length (dropWhile P xs) = length xs" for P
    by (metis length_append takeWhile_dropWhile_id)
  then show ?thesis by (simp add: insert_level_def)
qed

lemma hpq_push_content:
  assumes "hpq_inv q"
  shows "hpq_content (hpq_push l x q) = insert_level l x (hpq_content q)"
    and "hpq_inv (hpq_push l x q)"
proof -
  have m: "mObjMap (hpq_push l x q) =
      smap_set l ((case map_of (mObjMap q) l of None \<Rightarrow> [] | Some xs \<Rightarrow> xs) @ [x]) (mObjMap q)"
    by (auto simp: hpq_push_def smap_insert_def split: option.splits)
  show c: "hpq_content (hpq_push l x q) = insert_level l x (hpq_content q)"
    unfolding hpq_content_def m using assms by (simp add: hpq_inv_def flat_push)
  have "entries_ok (\<lambda>l xs. xs \<noteq> []) (mObjMap (hpq_push l x q))"
    unfolding m using assms by (intro entries_ok_set) (simp_all add: hpq_inv_def)
  moreover have "mObjCount (hpq_push l x q) = length (hpq_content (hpq_push l x q))"
    unfolding c length_insert_level using assms by (simp add: hpq_push_def hpq_inv_def)
  ultimately show "hpq_inv (hpq_push l x q)"
    by (simp add: hpq_inv_def)
qed

lemma hpq_pop_content:
  assumes inv: "hpq_inv q" and ne: "hpq_content q \<noteq> []"
  shows "hpq_content (hpq_pop q) = tl (hpq_content q)" and "hpq_inv (hpq_pop q)"
    and "hpq_top q = snd (hd (hpq_content q))"
proof -
  obtain l xs m where q: "mObjMap q = (l, xs) # m"
    using ne by (cases "mObjMap q") (auto simp: hpq_content_def flat_def)
  have ok: "entries_ok (\<lambda>l xs. xs \<noteq> []) ((l, xs) # m)" using inv by (simp add: hpq_inv_def q)
  then have xs: "xs \<noteq> []" and wf: "smap_wf ((l, xs) # m)" by (simp_all add: entries_ok_def)
  have fl: "filter (\<lambda>p. fst p \<noteq> l) m = m" using wf by (force simp: smap_wf_Cons filter_id_conv)
  have m': "mObjMap (hpq_pop q) = (if tl xs = [] then m else (l, tl xs) # m)"
    using fl by (simp add: hpq_pop_def q smap_erase_def)
  show c: "hpq_content (hpq_pop q) = tl (hpq_content q)"
    using xs by (cases xs) (auto simp: hpq_content_def m' q flat_Cons)
  have "entries_ok (\<lambda>l xs. xs \<noteq> []) (mObjMap (hpq_pop q))"
    using ok by (auto simp: m' entries_ok_def smap_wf_Cons)
  moreover have "mObjCount (hpq_pop q) = length (hpq_content (hpq_pop q))"
    unfolding c using inv by (simp add: hpq_pop_def hpq_inv_def Let_def case_prod_beta)
  ultimately show "hpq_inv (hpq_pop q)" by (simp add: hpq_inv_def)
  show "hpq_top q = snd (hd (hpq_content q))"
    using xs by (cases xs) (auto simp: hpq_top_def hpq_content_def q flat_Cons)
qed

interpretation hpq: level_queue hpq_empty hpq_push hpq_top hpq_pop mObjCount hpq_content hpq_inv
proof unfold_locales
  show "hpq_inv hpq_empty" by (simp add: hpq_inv_def hpq_empty_def hpq_content_def flat_def)
  show "hpq_content hpq_empty = []" by (simp add: hpq_empty_def hpq_content_def flat_def)
  show "hpq_inv q \<Longrightarrow> sorted (map fst (hpq_content q))" for q :: "'a hpq"
    by (simp add: hpq_inv_def hpq_content_def flat_sorted)
  show "hpq_inv q \<Longrightarrow> mObjCount q = length (hpq_content q)" for q :: "'a hpq"
    by (simp add: hpq_inv_def)
qed (simp_all add: hpq_push_content hpq_pop_content)

lemma hpq_isempty_iff: "hpq_inv q \<Longrightarrow> hpq_isempty q \<longleftrightarrow> hpq_content q = []"
  by (simp add: hpq_isempty_def hpq_inv_def)

end
