(* ===== verification/Thread_Pool_Model.thy ===== *)
theory Thread_Pool_Model
  imports Priority_Queue
begin

text \<open>
  NativeThreadPool.cpp (the Linux variant): slave threads take requests from the priority queue; a
  semaphore wakes them. The loop of a slave thread is cut at its synchronisation points into atomic steps.
  What a user's request does is a parameter: its priority, whether \<open>init\<close> succeeds, and what \<open>run\<close> returns.
\<close>

subsection \<open>State\<close>

text \<open>A request of a client, a \<open>StopRequest\<close>, or the \<open>CleanRequest\<close> for a slave thread.\<close>

datatype request = User nat | StopReq nat | CleanReq nat

record renv =
  u_prio :: "nat \<Rightarrow> uint8"
  u_init :: "nat \<Rightarrow> bool"
  u_ret :: "nat \<Rightarrow> int"

fun getPriority :: "renv \<Rightarrow> request \<Rightarrow> uint8" where
  "getPriority E (User u) = u_prio E u"
| "getPriority E (StopReq n) = 128"
| "getPriority E (CleanReq t) = 0"

text \<open>Where a slave thread stands: at the head of its loops; in \<open>wait()\<close>; past the inner loop, before the
  lock; after taking a request; in \<open>init\<close>, \<open>run\<close> and \<open>final\<close> of it; past its \<open>run\<close>.\<close>

datatype phase = AtHead | Waiting | Locking | Taken | Running | Finished

record worker =
  wphase :: phase
  bQuit :: bool
  pReq :: "request option"

text \<open>\<open>pushers\<close> counts the callers between the push and the \<open>post()\<close> of \<open>pushRequest\<close>. \<open>accepted\<close> and
  \<open>finals\<close> record, for the statements, the requests that entered the queue and the calls of \<open>final\<close>.\<close>

record pool =
  requests :: "request hpq"
  sem :: nat
  pushers :: nat
  workers :: "worker list"
  SThrPool :: "nat list"
  resizeCount :: uint64
  activeCount :: int
  running :: bool
  accepted :: "request list"
  finals :: "(request \<times> int \<times> bool) list"

definition new_worker :: worker where
  "new_worker = \<lparr>wphase = AtHead, bQuit = False, pReq = None\<rparr>"

text \<open>The constructor: 0 threads become 2, more than 500 become 500. (A size beyond the range of \<open>int\<close>
  is negative there and gives a negative bound for the loop, converted to unsigned.)\<close>

definition pool_size :: "uint32 \<Rightarrow> nat" where
  "pool_size n =
     (let sz = (if n < 1 then 2 else sint n); sz' = (if sz > 500 then 500 else sz)
      in unat (word_of_int sz' :: uint64))"

definition new_pool :: "uint32 \<Rightarrow> pool" where
  "new_pool n =
     \<lparr>requests = hpq_empty, sem = 0, pushers = 0, workers = replicate (pool_size n) new_worker,
      SThrPool = [0..<pool_size n], resizeCount = ucast n, activeCount = 0, running = True,
      accepted = [], finals = []\<rparr>"

subsection \<open>Operations\<close>

definition pushRequest :: "renv \<Rightarrow> request \<Rightarrow> pool \<Rightarrow> pool" where
  "pushRequest E r s =
     (if \<not> running s then s
      else s\<lparr>requests := hpq_push (getPriority E r) r (requests s), pushers := pushers s + 1, accepted := accepted s @ [r]\<rparr>)"

text \<open>\<open>ThreadRequest::start\<close> answers true in any case.\<close>

definition start :: "renv \<Rightarrow> request \<Rightarrow> pool \<Rightarrow> pool \<times> bool" where
  "start E r s = (pushRequest E r s, True)"

definition post :: "pool \<Rightarrow> pool option" where
  "post s = (if pushers s > 0 then Some (s\<lparr>pushers := pushers s - 1, sem := sem s + 1\<rparr>) else None)"

fun drain :: "nat \<Rightarrow> request hpq \<Rightarrow> request list \<times> request hpq" where
  "drain 0 q = ([], q)"
| "drain (Suc n) q =
     (if hpq_isempty q then ([], q) else (let (rs, q') = drain n (hpq_pop q) in (hpq_top q # rs, q')))"

definition clearRequests :: "pool \<Rightarrow> pool" where
  "clearRequests s =
     (let (rs, q) = drain (mObjCount (requests s)) (requests s)
      in s\<lparr>requests := q, finals := finals s @ map (\<lambda>r. (r, - 2, True)) rs\<rparr>)"

definition upd_worker :: "nat \<Rightarrow> (worker \<Rightarrow> worker) \<Rightarrow> pool \<Rightarrow> pool" where
  "upd_worker i f s = s\<lparr>workers := (workers s)[i := f (workers s ! i)]\<rparr>"

text \<open>\<open>stop\<close> in three steps: the flag, the pending requests, then every thread of the list is told to quit
  and woken, and the list is emptied. (The final wait for each thread does not change the pool.)\<close>

definition stop_flag :: "pool \<Rightarrow> pool" where
  "stop_flag s = s\<lparr>running := False\<rparr>"

definition stop_quit :: "pool \<Rightarrow> pool" where
  "stop_quit s =
     (fold (\<lambda>i. upd_worker i (\<lambda>w. w\<lparr>bQuit := True\<rparr>)) (SThrPool s) s)\<lparr>sem := sem s + length (SThrPool s), SThrPool := []\<rparr>"

text \<open>\<open>resize\<close>: a negative size becomes a huge unsigned one, which the first loop (it compares as \<open>int\<close>)
  and the second (it compares unsigned) both ignore. The stop requests are numbered.\<close>

definition resize_target :: "int \<Rightarrow> uint64" where
  "resize_target newSize =
     (let c = (if newSize > 500 then 500 else word_of_int newSize) :: uint64 in if c < 2 then 2 else c)"

definition add_worker :: "pool \<Rightarrow> pool" where
  "add_worker s = s\<lparr>workers := workers s @ [new_worker], SThrPool := SThrPool s @ [length (workers s)], sem := sem s + 1\<rparr>"

definition resize :: "renv \<Rightarrow> int \<Rightarrow> pool \<Rightarrow> pool" where
  "resize E newSize s =
     (if \<not> running s then s
      else (let c = resize_target newSize;
                grow = nat (sint (ucast c :: uint32) - int (length (SThrPool s)));
                s1 = (add_worker ^^ grow) (s\<lparr>resizeCount := c\<rparr>);
                sz = length (SThrPool s1)
            in fold (\<lambda>n. pushRequest E (StopReq n)) (rev [unat c..<sz]) s1))"

subsection \<open>The slave thread\<close>

text \<open>\<open>SlaveThread::final\<close>, after \<open>run\<close> has returned.\<close>

definition slave_final :: "nat \<Rightarrow> pool \<Rightarrow> pool" where
  "slave_final i s =
     upd_worker i (\<lambda>w. w\<lparr>wphase := Finished, pReq := None\<rparr>)
       (case pReq (workers s ! i) of None \<Rightarrow> s | Some r \<Rightarrow> s\<lparr>finals := finals s @ [(r, - 1, True)]\<rparr>)"

definition go :: "nat \<Rightarrow> phase \<Rightarrow> pool \<Rightarrow> pool" where
  "go i p s = upd_worker i (\<lambda>w. w\<lparr>wphase := p\<rparr>) s"

definition step_head :: "nat \<Rightarrow> pool \<Rightarrow> pool option" where
  "step_head i s =
     (if wphase (workers s ! i) \<noteq> AtHead then None
      else if bQuit (workers s ! i) then Some (slave_final i s)
      else if hpq_isempty (requests s) then Some (go i Waiting s)
      else Some (go i Locking s))"

definition step_wait :: "nat \<Rightarrow> pool \<Rightarrow> pool option" where
  "step_wait i s =
     (if wphase (workers s ! i) \<noteq> Waiting \<or> sem s = 0 then None
      else Some (go i AtHead (s\<lparr>sem := sem s - 1\<rparr>)))"

text \<open>Under the pool's lock: the semaphore is raised to the number of requests, then one is taken.\<close>

definition step_dequeue :: "nat \<Rightarrow> pool \<Rightarrow> pool option" where
  "step_dequeue i s =
     (if wphase (workers s ! i) \<noteq> Locking then None
      else (let delta = mObjCount (requests s) - sem s; s1 = s\<lparr>sem := sem s + delta\<rparr>
            in if \<not> hpq_isempty (requests s1)
               then Some (upd_worker i (\<lambda>w. w\<lparr>wphase := Taken, pReq := Some (hpq_top (requests s1))\<rparr>)
                      (s1\<lparr>requests := hpq_pop (requests s1)\<rparr>))
               else Some (upd_worker i (\<lambda>w. w\<lparr>wphase := Taken, pReq := None\<rparr>) s1)))"

definition step_taken :: "nat \<Rightarrow> pool \<Rightarrow> pool option" where
  "step_taken i s =
     (if wphase (workers s ! i) \<noteq> Taken then None
      else if pReq (workers s ! i) = None \<or> bQuit (workers s ! i) then Some (go i AtHead s)
      else Some (go i Running (s\<lparr>activeCount := activeCount s + 1\<rparr>)))"

text \<open>\<open>run\<close> of the three kinds of request: the return code and the state; \<open>None\<close> while a \<open>CleanRequest\<close>
  waits for its thread to be rid of its request.\<close>

fun run_request :: "renv \<Rightarrow> nat \<Rightarrow> request \<Rightarrow> pool \<Rightarrow> (pool \<times> int) option" where
  "run_request E i (User u) s = Some (s, u_ret E u)"
| "run_request E i (StopReq n) s = Some (pushRequest E (CleanReq i) (upd_worker i (\<lambda>w. w\<lparr>bQuit := True\<rparr>) s), 0)"
| "run_request E i (CleanReq t) s =
     (if pReq (workers s ! t) \<noteq> None then None else Some (s\<lparr>SThrPool := remove1 t (SThrPool s)\<rparr>, 0))"

definition req_init :: "renv \<Rightarrow> request \<Rightarrow> bool" where
  "req_init E r = (case r of User u \<Rightarrow> u_init E u | _ \<Rightarrow> True)"

definition step_run :: "renv \<Rightarrow> nat \<Rightarrow> pool \<Rightarrow> pool option" where
  "step_run E i s =
     (if wphase (workers s ! i) \<noteq> Running then None
      else (case pReq (workers s ! i) of
              None \<Rightarrow> None
            | Some r \<Rightarrow>
                (case (if req_init E r \<and> \<not> bQuit (workers s ! i) then run_request E i r s else Some (s, - 1)) of
                   None \<Rightarrow> None
                 | Some (s1, ret) \<Rightarrow>
                     Some (upd_worker i (\<lambda>w. w\<lparr>wphase := AtHead, pReq := None\<rparr>)
                       (s1\<lparr>activeCount := activeCount s1 - 1, finals := finals s1 @ [(r, ret, False)]\<rparr>)))))"

datatype pool_op =
  Push nat | Post | Clear | Stop_flag | Stop_quit | Resize int
| Head nat | Wait nat | Dequeue nat | Take nat | Run nat

fun pool_step :: "renv \<Rightarrow> pool \<Rightarrow> pool_op \<Rightarrow> pool option" where
  "pool_step E s (Push u) = Some (fst (start E (User u) s))"
| "pool_step E s Post = post s"
| "pool_step E s Clear = Some (clearRequests s)"
| "pool_step E s Stop_flag = Some (stop_flag s)"
| "pool_step E s Stop_quit = (if running s then None else Some (stop_quit s))"
| "pool_step E s (Resize n) = Some (resize E n s)"
| "pool_step E s (Head i) = (if i < length (workers s) then step_head i s else None)"
| "pool_step E s (Wait i) = (if i < length (workers s) then step_wait i s else None)"
| "pool_step E s (Dequeue i) = (if i < length (workers s) then step_dequeue i s else None)"
| "pool_step E s (Take i) = (if i < length (workers s) then step_taken i s else None)"
| "pool_step E s (Run i) = (if i < length (workers s) then step_run E i s else None)"

end
