(* ===== verification/Thread_Pool.thy ===== *)
theory Thread_Pool
  imports Thread_Pool_Model "HOL-Library.Multiset"
begin

text \<open>
  The invariants of the thread pool: no request is lost or finished twice, the active count is right, and
  no wake-up is lost; and what happens when the pool shrinks twice.
\<close>

subsection \<open>Invariants\<close>

definition worker_ok :: "worker \<Rightarrow> bool" where
  "worker_ok w \<longleftrightarrow>
     (wphase w \<in> {Waiting, Locking, Finished} \<longrightarrow> pReq w = None) \<and>
     (wphase w = AtHead \<and> pReq w \<noteq> None \<longrightarrow> bQuit w) \<and>
     (wphase w = Running \<longrightarrow> pReq w \<noteq> None)"

definition hand :: "worker \<Rightarrow> request multiset" where
  "hand w = (case pReq w of None \<Rightarrow> {#} | Some r \<Rightarrow> {#r#})"

definition active :: "worker \<Rightarrow> nat" where
  "active w = (if wphase w = Running then 1 else 0)"

text \<open>Every request that entered the queue is in it still, in the hand of one thread, or was finished.\<close>

definition core_inv :: "pool \<Rightarrow> bool" where
  "core_inv s \<longleftrightarrow>
     hpq_inv (requests s) \<and> (\<forall>w \<in> set (workers s). worker_ok w) \<and>
     mset (accepted s) = mset (map snd (hpq_content (requests s))) + sum_list (map hand (workers s)) + mset (map fst (finals s)) \<and>
     activeCount s = int (sum_list (map active (workers s)))"

text \<open>While the pool runs, a thread that was told to quit has no further business with the queue; and a
  request in the queue has a wake-up: in the semaphore, about to be posted, or a thread about to look.\<close>

definition awake :: "worker \<Rightarrow> bool" where
  "awake w \<longleftrightarrow> (wphase w = AtHead \<or> wphase w = Locking) \<and> \<not> bQuit w"

definition wake_inv :: "pool \<Rightarrow> bool" where
  "wake_inv s \<longleftrightarrow> (running s \<longrightarrow>
     (\<forall>w \<in> set (workers s). bQuit w \<longrightarrow> wphase w = AtHead \<or> wphase w = Finished) \<and>
     (hpq_content (requests s) \<noteq> [] \<longrightarrow> sem s > 0 \<or> pushers s > 0 \<or> (\<exists>w \<in> set (workers s). awake w)))"

definition pool_inv :: "pool \<Rightarrow> bool" where
  "pool_inv s \<longleftrightarrow> core_inv s \<and> wake_inv s"

subsection \<open>Updates of one thread\<close>

lemma sum_list_map_update:
  fixes f :: "'a \<Rightarrow> 'b::comm_monoid_add"
  assumes "i < length xs"
  shows "sum_list (map f (xs[i := x])) + f (xs ! i) = sum_list (map f xs) + f x"
proof -
  have "sum_list (map f xs) = sum_list (map f (take i xs)) + (f (xs ! i) + sum_list (map f (drop (Suc i) xs)))"
    by (subst id_take_nth_drop [OF assms]) (simp add: add.assoc)
  moreover have "sum_list (map f (xs[i := x])) = sum_list (map f (take i xs)) + (f x + sum_list (map f (drop (Suc i) xs)))"
    by (subst upd_conv_take_nth_drop [OF assms]) (simp add: add.assoc)
  ultimately show ?thesis by (simp add: ac_simps)
qed

lemma upd_worker_fields [simp]:
  "requests (upd_worker i f s) = requests s" "sem (upd_worker i f s) = sem s" "pushers (upd_worker i f s) = pushers s"
  "workers (upd_worker i f s) = (workers s)[i := f (workers s ! i)]" "SThrPool (upd_worker i f s) = SThrPool s"
  "activeCount (upd_worker i f s) = activeCount s" "running (upd_worker i f s) = running s"
  "accepted (upd_worker i f s) = accepted s" "finals (upd_worker i f s) = finals s"
  by (simp_all add: upd_worker_def)

lemma hand_update:
  "i < length ws \<Longrightarrow> sum_list (map hand (ws[i := w])) + hand (ws ! i) = sum_list (map hand ws) + hand w"
  by (rule sum_list_map_update)

lemma active_update:
  "i < length ws \<Longrightarrow> sum_list (map active (ws[i := w])) + active (ws ! i) = sum_list (map active ws) + active w"
  by (rule sum_list_map_update)

text \<open>A thread that moves without touching its request or its activity.\<close>

lemma core_inv_move:
  assumes "core_inv s" and "i < length (workers s)" and "worker_ok w"
    and "hand w = hand (workers s ! i)" and "active w = active (workers s ! i)"
    and "workers s' = (workers s)[i := w]" and "requests s' = requests s" and "accepted s' = accepted s"
    and "finals s' = finals s" and "activeCount s' = activeCount s"
  shows "core_inv s'"
  using assms hand_update [OF assms(2), of w] active_update [OF assms(2), of w]
  by (auto simp: core_inv_def dest!: set_update_subset_insert [THEN subsetD])

lemma core_inv_cong:
  assumes "core_inv s" and "workers s' = workers s" and "requests s' = requests s" and "accepted s' = accepted s"
    and "finals s' = finals s" and "activeCount s' = activeCount s"
  shows "core_inv s'"
  using assms by (simp add: core_inv_def)

lemma content_isempty: "core_inv s \<Longrightarrow> hpq_isempty (requests s) \<longleftrightarrow> hpq_content (requests s) = []"
  by (simp add: core_inv_def hpq_isempty_iff)

lemma mset_insert_level: "mset (insert_level l x xs) = add_mset (l, x) (mset xs)"
proof -
  have "mset (takeWhile P xs) + mset (dropWhile P xs) = mset xs" for P
    by (metis mset_append takeWhile_dropWhile_id)
  then show ?thesis by (simp add: insert_level_def)
qed

lemma core_inv_push: "core_inv s \<Longrightarrow> core_inv (pushRequest E r s)"
  by (auto simp: core_inv_def pushRequest_def hpq.content_push hpq.inv_push mset_insert_level)

lemma wake_inv_push: "wake_inv s \<Longrightarrow> wake_inv (pushRequest E r s)"
  by (simp add: wake_inv_def pushRequest_def)

lemma pool_inv_push [wf_intros]: "pool_inv s \<Longrightarrow> pool_inv (pushRequest E r s)"
  by (simp add: pool_inv_def core_inv_push wake_inv_push)

lemma pool_inv_post: "pool_inv s \<Longrightarrow> post s = Some s' \<Longrightarrow> pool_inv s'"
  by (auto simp: pool_inv_def core_inv_def wake_inv_def post_def split: if_splits)

lemma drain_content:
  "hpq_inv q \<Longrightarrow> n = mObjCount q \<Longrightarrow> drain n q = (rs, q') \<Longrightarrow>
     rs = map snd (hpq_content q) \<and> hpq_inv q' \<and> hpq_content q' = []"
proof (induction n q arbitrary: rs q' rule: drain.induct)
  case (1 q)
  then show ?case by (simp add: hpq_inv_def)
next
  case (2 n q)
  then have ne: "hpq_content q \<noteq> []" by (auto simp: hpq_inv_def)
  then have e: "\<not> hpq_isempty q" using "2.prems"(1) by (simp add: hpq_isempty_iff)
  obtain rs1 q1 where d: "drain n (hpq_pop q) = (rs1, q1)" by fastforce
  have inv: "hpq_inv (hpq_pop q)" and c: "hpq_content (hpq_pop q) = tl (hpq_content q)"
    and t: "hpq_top q = snd (hd (hpq_content q))"
    using hpq_pop_content [OF "2.prems"(1) ne] by simp_all
  have "n = mObjCount (hpq_pop q)" using inv c "2.prems"(1,2) by (simp add: hpq_inv_def)
  from "2.IH" [OF e inv this d] have "rs1 = map snd (tl (hpq_content q))" "hpq_inv q1" "hpq_content q1 = []"
    by (simp_all add: c)
  with "2.prems"(3) e d t ne show ?case by (cases "hpq_content q") auto
qed

lemma pool_inv_clear: "pool_inv s \<Longrightarrow> pool_inv (clearRequests s)"
proof -
  assume inv: "pool_inv s"
  obtain rs q where d: "drain (mObjCount (requests s)) (requests s) = (rs, q)" by fastforce
  have "hpq_inv (requests s)" using inv by (simp add: pool_inv_def core_inv_def)
  from drain_content [OF this refl d] inv show ?thesis
    by (auto simp: clearRequests_def d pool_inv_def core_inv_def wake_inv_def comp_def)
qed


subsection \<open>Every step keeps the invariants\<close>

lemma core_quit:
  assumes "core_inv s"
  shows "core_inv (upd_worker i (\<lambda>w. w\<lparr>bQuit := True\<rparr>) s)"
proof (cases "i < length (workers s)")
  case True
  then have "worker_ok (workers s ! i)" using assms by (simp add: core_inv_def)
  then show ?thesis
    by (intro core_inv_move [OF assms True, of "(workers s ! i)\<lparr>bQuit := True\<rparr>"])
       (simp_all add: worker_ok_def hand_def active_def)
next
  case False
  then have "upd_worker i (\<lambda>w. w\<lparr>bQuit := True\<rparr>) s = s" by (simp add: upd_worker_def list_update_beyond)
  with assms show ?thesis by simp
qed

lemma pool_inv_stop_quit: "pool_inv s \<Longrightarrow> \<not> running s \<Longrightarrow> pool_inv (stop_quit s)"
proof -
  assume inv: "pool_inv s" and nr: "\<not> running s"
  have "core_inv (fold (\<lambda>i. upd_worker i (\<lambda>w. w\<lparr>bQuit := True\<rparr>)) l t) \<and>
      running (fold (\<lambda>i. upd_worker i (\<lambda>w. w\<lparr>bQuit := True\<rparr>)) l t) = running t" if "core_inv t" for l t
    using that by (induction l arbitrary: t) (auto simp: core_quit)
  with inv nr show ?thesis
    by (simp add: stop_quit_def pool_inv_def wake_inv_def core_inv_def)
qed

lemma pool_inv_add_worker: "pool_inv s \<Longrightarrow> pool_inv (add_worker s)"
  by (auto simp: pool_inv_def core_inv_def wake_inv_def add_worker_def new_worker_def worker_ok_def hand_def active_def)

lemma pool_inv_resize: "pool_inv s \<Longrightarrow> pool_inv (resize E n s)"
proof -
  assume inv: "pool_inv s"
  have push: "pool_inv (fold (\<lambda>n. pushRequest E (StopReq n)) l t)" if "pool_inv t" for l t
    using that by (induction l arbitrary: t) (simp_all add: pool_inv_push)
  have add: "pool_inv ((add_worker ^^ k) t)" if "pool_inv t" for k t
    using that by (induction k) (simp_all add: pool_inv_add_worker)
  have "pool_inv (s\<lparr>resizeCount := c\<rparr>)" for c
    using inv by (simp add: pool_inv_def core_inv_def wake_inv_def)
  with inv push add show ?thesis by (simp add: resize_def Let_def)
qed

lemma in_update: "w' \<in> set (ws[i := w]) \<Longrightarrow> w' = w \<or> w' \<in> set ws"
  using set_update_subset_insert by fastforce

lemma awake_update:
  assumes "i < length ws" and "\<not> awake (ws ! i)" and "\<exists>w \<in> set ws. awake w"
  shows "\<exists>w \<in> set (ws[i := w']). awake w"
proof -
  obtain j where j: "j < length ws" "awake (ws ! j)" using assms(3) by (auto simp: in_set_conv_nth)
  then have "j \<noteq> i" using assms(2) by auto
  with j have "ws[i := w'] ! j \<in> set (ws[i := w'])" and "awake (ws[i := w'] ! j)"
    by (metis length_list_update nth_mem, simp)
  then show ?thesis by blast
qed

lemma pool_inv_head:
  assumes inv: "pool_inv s" and i: "i < length (workers s)" and st: "step_head i s = Some s'"
  shows "pool_inv s'"
proof -
  let ?w = "workers s ! i"
  have ok: "worker_ok ?w" and core: "core_inv s" and wake: "wake_inv s"
    using inv i by (simp_all add: pool_inv_def core_inv_def)
  have h: "wphase ?w = AtHead" using st by (auto simp: step_head_def split: if_splits)
  have emp: "hpq_isempty (requests s) \<longleftrightarrow> hpq_content (requests s) = []" using core by (rule content_isempty)
  show ?thesis
  proof (cases "bQuit ?w")
    case True
    let ?w' = "?w\<lparr>wphase := Finished, pReq := None\<rparr>"
    have s': "s' = slave_final i s" using st h True by (simp add: step_head_def)
    have "worker_ok ?w'" by (simp add: worker_ok_def)
    moreover have "hand ?w' = {#}" "active ?w' = active ?w" using h by (simp_all add: hand_def active_def)
    ultimately have "core_inv s'"
      using core hand_update [OF i, of ?w'] active_update [OF i, of ?w'] unfolding s'
      by (auto simp: slave_final_def core_inv_def hand_def ac_simps split: option.splits dest!: in_update)
    moreover have "\<not> awake ?w" using True by (simp add: awake_def)
    then have "wake_inv s'"
      using wake awake_update [OF i, of ?w'] unfolding s'
      by (auto simp: slave_final_def wake_inv_def split: option.splits dest!: in_update)
    ultimately show ?thesis by (simp add: pool_inv_def)
  next
    case False
    have pn: "pReq ?w = None" using ok h False by (auto simp: worker_ok_def)
    define p where "p = (if hpq_isempty (requests s) then Waiting else Locking)"
    have s': "s' = go i p s" using st h False by (auto simp: step_head_def p_def)
    have "core_inv s'"
      unfolding s' go_def
      by (rule core_inv_move [OF core i, of "?w\<lparr>wphase := p\<rparr>"])
         (use pn h in \<open>auto simp: worker_ok_def hand_def active_def p_def\<close>)
    moreover have "wake_inv s'"
    proof (cases "hpq_content (requests s) = []")
      case True
      then show ?thesis
        using wake False unfolding s' go_def wake_inv_def by (auto dest!: in_update)
    next
      case ne: False
      then have "awake (?w\<lparr>wphase := p\<rparr>)" using False emp by (simp add: awake_def p_def)
      then have "\<exists>w \<in> set ((workers s)[i := ?w\<lparr>wphase := p\<rparr>]). awake w"
        using i by (metis set_update_memI)
      then show ?thesis
        using wake False unfolding s' go_def wake_inv_def by (auto dest!: in_update)
    qed
    ultimately show ?thesis by (simp add: pool_inv_def)
  qed
qed

lemma pool_inv_wait:
  assumes inv: "pool_inv s" and i: "i < length (workers s)" and st: "step_wait i s = Some s'"
  shows "pool_inv s'"
proof -
  let ?w = "workers s ! i"
  let ?w' = "?w\<lparr>wphase := AtHead\<rparr>"
  have ok: "worker_ok ?w" and core: "core_inv s" and wake: "wake_inv s"
    using inv i by (simp_all add: pool_inv_def core_inv_def)
  have h: "wphase ?w = Waiting" and s': "s' = go i AtHead (s\<lparr>sem := sem s - 1\<rparr>)"
    using st by (auto simp: step_wait_def split: if_splits)
  have pn: "pReq ?w = None" using ok h by (simp add: worker_ok_def)
  have "core_inv s'"
    unfolding s' go_def
    by (rule core_inv_move [OF core i, of ?w']) (use pn h in \<open>auto simp: worker_ok_def hand_def active_def\<close>)
  moreover have "wake_inv s'"
  proof (cases "running s")
    case True
    then have "\<not> bQuit ?w" using wake i h unfolding wake_inv_def using nth_mem [OF i] by fastforce
    then have "awake ?w'" by (simp add: awake_def)
    then have "\<exists>w \<in> set ((workers s)[i := ?w']). awake w" using i by (metis set_update_memI)
    then show ?thesis
      using wake unfolding s' go_def wake_inv_def by (auto dest!: in_update)
  qed (simp add: s' go_def wake_inv_def)
  ultimately show ?thesis by (simp add: pool_inv_def)
qed


lemma pool_inv_dequeue:
  assumes inv: "pool_inv s" and i: "i < length (workers s)" and st: "step_dequeue i s = Some s'"
  shows "pool_inv s'"
proof -
  let ?w = "workers s ! i" and ?s1 = "s\<lparr>sem := sem s + (mObjCount (requests s) - sem s)\<rparr>"
  have ok: "worker_ok ?w" and core: "core_inv s" and wake: "wake_inv s"
    using inv i by (simp_all add: pool_inv_def core_inv_def)
  have h: "wphase ?w = Locking" using st by (auto simp: step_dequeue_def split: if_splits)
  have pn: "pReq ?w = None" using ok h by (simp add: worker_ok_def)
  have hq: "hpq_inv (requests s)" using core by (simp add: core_inv_def)
  have emp: "hpq_isempty (requests s) \<longleftrightarrow> hpq_content (requests s) = []" using core by (rule content_isempty)
  have nq: "\<forall>w \<in> set (workers s). bQuit w \<longrightarrow> wphase w = AtHead \<or> wphase w = Finished" if "running s"
    using wake that by (simp add: wake_inv_def)
  have iq: "\<not> bQuit ?w" if "running s" using nq [OF that] i h nth_mem [OF i] by fastforce
  show ?thesis
  proof (cases "hpq_content (requests s) = []")
    case True
    let ?w' = "?w\<lparr>wphase := Taken, pReq := None\<rparr>"
    have s': "s' = upd_worker i (\<lambda>w. w\<lparr>wphase := Taken, pReq := None\<rparr>) ?s1"
      using st h emp True by (simp add: step_dequeue_def)
    have "core_inv s'"
      unfolding s'
      by (rule core_inv_move [OF core i, of ?w']) (use pn h in \<open>auto simp: worker_ok_def hand_def active_def\<close>)
    moreover have "wake_inv s'"
      using True nq iq unfolding s' wake_inv_def by (auto dest!: in_update)
    ultimately show ?thesis by (simp add: pool_inv_def)
  next
    case False
    let ?r = "hpq_top (requests s)"
    let ?w' = "?w\<lparr>wphase := Taken, pReq := Some ?r\<rparr>"
    have s': "s' = upd_worker i (\<lambda>w. w\<lparr>wphase := Taken, pReq := Some ?r\<rparr>) (?s1\<lparr>requests := hpq_pop (requests s)\<rparr>)"
      using st h emp False by (simp add: step_dequeue_def)
    note pop = hpq_pop_content [OF hq False]
    obtain l x c where c: "hpq_content (requests s) = (l, x) # c" using False by (cases "hpq_content (requests s)") auto
    have r: "?r = x" using pop(3) c by simp
    have "mset (accepted s) = mset (map snd (tl (hpq_content (requests s)))) + sum_list (map hand ((workers s)[i := ?w']))
        + mset (map fst (finals s))"
      using core hand_update [OF i, of ?w'] pn by (simp add: core_inv_def c hand_def r)
    moreover have "sum_list (map active ((workers s)[i := ?w'])) = sum_list (map active (workers s))"
      using active_update [OF i, of ?w'] h by (simp add: active_def)
    ultimately have "core_inv s'"
      using core pop(1,2) unfolding s' core_inv_def by (auto simp: worker_ok_def dest!: in_update)
    moreover have "mObjCount (requests s) > 0" using hq False by (simp add: hpq_inv_def)
    then have "sem s' > 0" unfolding s' by (cases "sem s") simp_all
    then have "wake_inv s'"
      using nq iq unfolding wake_inv_def by (auto simp: s' dest!: in_update)
    ultimately show ?thesis by (simp add: pool_inv_def)
  qed
qed

lemma pool_inv_taken:
  assumes inv: "pool_inv s" and i: "i < length (workers s)" and st: "step_taken i s = Some s'"
  shows "pool_inv s'"
proof -
  let ?w = "workers s ! i"
  have ok: "worker_ok ?w" and core: "core_inv s" and wake: "wake_inv s"
    using inv i by (simp_all add: pool_inv_def core_inv_def)
  have h: "wphase ?w = Taken" using st by (auto simp: step_taken_def split: if_splits)
  then have nw: "\<not> awake ?w" by (simp add: awake_def)
  show ?thesis
  proof (cases "pReq ?w = None \<or> bQuit ?w")
    case True
    let ?w' = "?w\<lparr>wphase := AtHead\<rparr>"
    have s': "s' = go i AtHead s" using st h True by (auto simp: step_taken_def)
    have "core_inv s'"
      unfolding s' go_def
      by (rule core_inv_move [OF core i, of ?w']) (use True h in \<open>auto simp: worker_ok_def hand_def active_def\<close>)
    moreover have "wake_inv s'"
      using wake awake_update [OF i nw, of ?w'] unfolding s' go_def wake_inv_def by (auto dest!: in_update)
    ultimately show ?thesis by (simp add: pool_inv_def)
  next
    case False
    let ?w' = "?w\<lparr>wphase := Running\<rparr>"
    have s': "s' = go i Running (s\<lparr>activeCount := activeCount s + 1\<rparr>)" using st h False by (auto simp: step_taken_def)
    have "hand ?w' = hand ?w" by (simp add: hand_def)
    then have "core_inv s'"
      using core hand_update [OF i, of ?w'] active_update [OF i, of ?w'] h False
      unfolding s' go_def core_inv_def by (auto simp: worker_ok_def active_def dest!: in_update)
    moreover have "wake_inv s'"
      using wake awake_update [OF i nw, of ?w'] False unfolding s' go_def wake_inv_def by (auto dest!: in_update)
    ultimately show ?thesis by (simp add: pool_inv_def)
  qed
qed

text \<open>Running a request changes the thread's own quit flag at most, and may push a request.\<close>

lemma run_request_effect:
  assumes "core_inv s" and "run_request E i r s = Some (s1, ret)"
  shows "core_inv s1 \<and> running s1 = running s \<and> length (workers s1) = length (workers s) \<and>
     (\<forall>j. j \<noteq> i \<longrightarrow> workers s1 ! j = workers s ! j) \<and> wphase (workers s1 ! i) = wphase (workers s ! i) \<and>
     pReq (workers s1 ! i) = pReq (workers s ! i) \<and>
     (pushers s1 > 0 \<or> hpq_content (requests s1) = hpq_content (requests s) \<and> sem s1 = sem s \<and>
        (pushers s1 > 0 \<longleftrightarrow> pushers s > 0))"
proof (cases r)
  case (StopReq n)
  let ?q = "upd_worker i (\<lambda>w. w\<lparr>bQuit := True\<rparr>) s"
  have s1: "s1 = pushRequest E (CleanReq i) ?q" using assms(2) StopReq by simp
  have "core_inv ?q" using assms(1) by (rule core_quit)
  then have "core_inv s1" unfolding s1 by (rule core_inv_push)
  moreover have "(workers s)[i := (workers s ! i)\<lparr>bQuit := True\<rparr>] ! i = (workers s ! i)\<lparr>bQuit := True\<rparr> \<or>
      (workers s)[i := (workers s ! i)\<lparr>bQuit := True\<rparr>] = workers s"
    by (metis list_update_beyond not_less nth_list_update_eq)
  ultimately show ?thesis by (auto simp: s1 pushRequest_def)
next
  case (CleanReq t)
  then have "s1 = s\<lparr>SThrPool := remove1 t (SThrPool s)\<rparr>" using assms(2) by (auto split: if_splits)
  with assms(1) show ?thesis by (simp add: core_inv_def)
qed (use assms in auto)

lemma pool_inv_run:
  assumes inv: "pool_inv s" and i: "i < length (workers s)" and st: "step_run E i s = Some s'"
  shows "pool_inv s'"
proof -
  let ?w = "workers s ! i"
  have ok: "worker_ok ?w" and core: "core_inv s" and wake: "wake_inv s"
    using inv i by (simp_all add: pool_inv_def core_inv_def)
  have h: "wphase ?w = Running" using st by (auto simp: step_run_def split: if_splits)
  then have nw: "\<not> awake ?w" by (simp add: awake_def)
  obtain r s1 ret where r: "pReq ?w = Some r"
    and run: "(if req_init E r \<and> \<not> bQuit ?w then run_request E i r s else Some (s, - 1)) = Some (s1, ret)"
    and s': "s' = upd_worker i (\<lambda>w. w\<lparr>wphase := AtHead, pReq := None\<rparr>)
        (s1\<lparr>activeCount := activeCount s1 - 1, finals := finals s1 @ [(r, ret, False)]\<rparr>)"
    using st h unfolding step_run_def by (auto split: option.splits)
  have eff: "core_inv s1 \<and> running s1 = running s \<and> length (workers s1) = length (workers s) \<and>
     (\<forall>j. j \<noteq> i \<longrightarrow> workers s1 ! j = workers s ! j) \<and> wphase (workers s1 ! i) = wphase ?w \<and> pReq (workers s1 ! i) = pReq ?w \<and>
     (pushers s1 > 0 \<or> hpq_content (requests s1) = hpq_content (requests s) \<and> sem s1 = sem s \<and> (pushers s1 > 0 \<longleftrightarrow> pushers s > 0))"
  proof (cases "req_init E r \<and> \<not> bQuit ?w")
    case True
    with run have "run_request E i r s = Some (s1, ret)" by simp
    from run_request_effect [OF core this] show ?thesis .
  next
    case False
    with run core show ?thesis by auto
  qed
  let ?w1 = "workers s1 ! i"
  let ?w' = "?w1\<lparr>wphase := AtHead, pReq := None\<rparr>"
  have i1: "i < length (workers s1)" using eff i by simp
  have ws: "workers s' = (workers s1)[i := ?w']" by (simp add: s')
  have "worker_ok ?w'" by (simp add: worker_ok_def)
  moreover have "hand ?w' = {#}" "hand ?w1 = {#r#}" "active ?w' = 0" "active ?w1 = 1"
    using eff r h by (simp_all add: hand_def active_def)
  ultimately have "core_inv s'"
    using eff hand_update [OF i1, of ?w'] active_update [OF i1, of ?w'] unfolding core_inv_def ws
    by (auto simp: s' dest!: in_update)
  moreover have "wake_inv s'"
    unfolding wake_inv_def
  proof (intro impI conjI ballI)
    assume "running s'"
    then have rn: "running s" using eff by (simp add: s')
    have q: "bQuit w \<longrightarrow> wphase w = AtHead \<or> wphase w = Finished" if "w \<in> set (workers s)" for w
      using wake rn that by (simp add: wake_inv_def)
    fix w assume "w \<in> set (workers s')" and bq: "bQuit w"
    then obtain j where j: "j < length (workers s1)" "w = workers s' ! j" by (auto simp: ws in_set_conv_nth)
    show "wphase w = AtHead \<or> wphase w = Finished"
    proof (cases "j = i")
      case True
      then show ?thesis using j by (simp add: ws)
    next
      case False
      then have "w = workers s ! j" using j eff by (simp add: ws)
      then show ?thesis using q bq j(1) eff by simp
    qed
  next
    assume "running s'" and ne: "hpq_content (requests s') \<noteq> []"
    then have rn: "running s" using eff by (simp add: s')
    show "0 < sem s' \<or> 0 < pushers s' \<or> (\<exists>w \<in> set (workers s'). awake w)"
    proof (cases "pushers s1 > 0")
      case True
      then show ?thesis by (simp add: s')
    next
      case False
      then have same: "hpq_content (requests s) \<noteq> []" "sem s1 = sem s" "pushers s = 0"
        using eff ne by (auto simp: s')
      then consider "sem s > 0" | w where "w \<in> set (workers s)" "awake w"
        using wake rn by (auto simp: wake_inv_def)
      then show ?thesis
      proof cases
        case 1
        then show ?thesis using same by (simp add: s')
      next
        case 2
        then obtain j where j: "j < length (workers s)" "workers s ! j = w" by (auto simp: in_set_conv_nth)
        then have "j \<noteq> i" using 2 nw by auto
        then have "workers s' ! j = w" and "j < length (workers s')" using j eff by (simp_all add: ws)
        then show ?thesis using 2 by (metis nth_mem)
      qed
    qed
  qed
  ultimately show ?thesis by (simp add: pool_inv_def)
qed

lemma pool_inv_new: "pool_inv (new_pool n)"
proof -
  have h0: "hand new_worker = {#}" and a0: "active new_worker = 0" by (simp_all add: new_worker_def hand_def active_def)
  have "sum_list (replicate k {#}) = ({#} :: request multiset)" for k by (induction k) simp_all
  note sums = this
  have ok: "worker_ok new_worker" "\<not> bQuit new_worker" by (simp_all add: new_worker_def worker_ok_def)
  have "core_inv (new_pool n)"
    unfolding core_inv_def new_pool_def
    using ok by (simp add: hpq.content_empty hpq.inv_empty) (simp add: h0 a0 sums)
  moreover have "wake_inv (new_pool n)"
    using ok by (simp add: wake_inv_def new_pool_def hpq.content_empty)
  ultimately show ?thesis by (simp add: pool_inv_def)
qed

lemma pool_inv_stop_flag: "pool_inv s \<Longrightarrow> pool_inv (stop_flag s)"
  by (simp add: stop_flag_def pool_inv_def core_inv_def wake_inv_def)

lemma pool_inv_step:
  assumes "pool_inv s" and "pool_step E s x = Some s'"
  shows "pool_inv s'"
proof -
  note keep = pool_inv_push pool_inv_post pool_inv_clear pool_inv_stop_flag pool_inv_stop_quit pool_inv_resize
    pool_inv_head pool_inv_wait pool_inv_dequeue pool_inv_taken pool_inv_run
  show ?thesis
    by (cases x; use assms in \<open>simp add: start_def split: if_splits\<close>; use assms(1) keep in \<open>metis\<close>)
qed

interpretation pool_machine: transition_system "new_pool n" "pool_step E" pool_inv
  for n E
  by unfold_locales (fact pool_inv_new, fact pool_inv_step)

end
