(* ===== verification/Thread_Pool_Props.thy ===== *)
theory Thread_Pool_Props
  imports Thread_Pool
begin

text \<open>
  The properties of the thread pool: accounting of requests, order of execution, progress, and the race of
  two shrinking calls.
\<close>

subsection \<open>Clean-up requests name threads that quit\<close>

definition clean_ok :: "pool \<Rightarrow> request \<Rightarrow> bool" where
  "clean_ok s r \<longleftrightarrow> (\<forall>t. r = CleanReq t \<longrightarrow> t < length (workers s) \<and> bQuit (workers s ! t))"

definition clean_inv :: "pool \<Rightarrow> bool" where
  "clean_inv s \<longleftrightarrow> (\<forall>r \<in> snd ` set (hpq_content (requests s)). clean_ok s r) \<and>
     (\<forall>w \<in> set (workers s). \<forall>r. pReq w = Some r \<longrightarrow> clean_ok s r)"

text \<open>Threads are only added, and a quit flag is never taken back.\<close>

definition quits_kept :: "pool \<Rightarrow> pool \<Rightarrow> bool" where
  "quits_kept s s' \<longleftrightarrow> length (workers s) \<le> length (workers s') \<and>
     (\<forall>t < length (workers s). bQuit (workers s ! t) \<longrightarrow> bQuit (workers s' ! t))"

lemma clean_ok_mono: "clean_ok s r \<Longrightarrow> quits_kept s s' \<Longrightarrow> clean_ok s' r"
  unfolding clean_ok_def quits_kept_def by (metis order_less_le_trans)

lemma clean_invI:
  assumes "clean_inv s" and "quits_kept s s'"
    and "\<And>r. r \<in> snd ` set (hpq_content (requests s')) \<Longrightarrow>
       r \<in> snd ` set (hpq_content (requests s)) \<or> clean_ok s' r"
    and "\<And>w r. w \<in> set (workers s') \<Longrightarrow> pReq w = Some r \<Longrightarrow>
       (\<exists>v \<in> set (workers s). pReq v = Some r) \<or> r \<in> snd ` set (hpq_content (requests s)) \<or> clean_ok s' r"
  shows "clean_inv s'"
proof -
  have old: "clean_ok s' r" if "r \<in> snd ` set (hpq_content (requests s)) \<or> (\<exists>v \<in> set (workers s). pReq v = Some r)" for r
    using that assms(1) clean_ok_mono [OF _ assms(2)] unfolding clean_inv_def by blast
  show ?thesis unfolding clean_inv_def using assms(3,4) old by blast
qed

lemma quits_kept_update:
  assumes "workers s' = (workers s)[i := w]" and "bQuit (workers s ! i) \<longrightarrow> bQuit w"
  shows "quits_kept s s'"
  unfolding quits_kept_def
proof (intro conjI allI impI)
  fix t assume "t < length (workers s)" and "bQuit (workers s ! t)"
  then show "bQuit (workers s' ! t)" using assms by (cases "t = i") simp_all
qed (simp add: assms(1))

lemma quits_kept_refl: "workers s' = workers s \<Longrightarrow> quits_kept s s'"
  by (simp add: quits_kept_def)

lemma quits_kept_trans: "quits_kept s t \<Longrightarrow> quits_kept t u \<Longrightarrow> quits_kept s u"
  unfolding quits_kept_def by (meson order_less_le_trans order_trans)

lemma content_push_set:
  assumes "hpq_inv q"
  shows "snd ` set (hpq_content (hpq_push l r q)) = insert r (snd ` set (hpq_content q))"
proof -
  have "set_mset (mset (insert_level l r (hpq_content q))) = insert (l, r) (set (hpq_content q))"
    by (simp add: mset_insert_level)
  then show ?thesis by (simp add: hpq.content_push [OF assms])
qed

lemma clean_inv_push:
  assumes "clean_inv s" and "hpq_inv (requests s)" and "clean_ok s r"
  shows "clean_inv (pushRequest E r s)"
proof (cases "running s")
  case True
  show ?thesis
  proof (rule clean_invI [OF assms(1)])
    have kept: "quits_kept s (pushRequest E r s)" by (rule quits_kept_refl) (simp add: pushRequest_def)
    then show "quits_kept s (pushRequest E r s)" .
    show "r' \<in> snd ` set (hpq_content (requests s)) \<or> clean_ok (pushRequest E r s) r'"
      if "r' \<in> snd ` set (hpq_content (requests (pushRequest E r s)))" for r'
      using that clean_ok_mono [OF assms(3) kept] True by (auto simp: pushRequest_def content_push_set [OF assms(2)])
  qed (auto simp: pushRequest_def True)
qed (simp add: pushRequest_def assms(1))


lemma clean_inv_update:
  assumes "clean_inv s" and ws: "workers s' = (workers s)[i := w]" and "i < length (workers s)"
    and "bQuit (workers s ! i) \<longrightarrow> bQuit w"
    and "pReq w = None \<or> pReq w = pReq (workers s ! i) \<or> (\<exists>r \<in> snd ` set (hpq_content (requests s)). pReq w = Some r)"
    and "set (hpq_content (requests s')) \<subseteq> set (hpq_content (requests s))"
  shows "clean_inv s'"
proof (rule clean_invI [OF assms(1) quits_kept_update [OF ws assms(4)]])
  show "(\<exists>v \<in> set (workers s). pReq v = Some r) \<or> r \<in> snd ` set (hpq_content (requests s)) \<or> clean_ok s' r"
    if "v \<in> set (workers s')" and "pReq v = Some r" for v r
  proof (cases "v \<in> set (workers s)")
    case False
    then have "v = w" using that(1) in_update [of v "workers s" i w] by (simp add: ws)
    then have "pReq w = Some r" using that(2) by simp
    with assms(5) have "pReq (workers s ! i) = Some r \<or> r \<in> snd ` set (hpq_content (requests s))" by auto
    then show ?thesis using nth_mem [OF assms(3)] by blast
  qed (use that(2) in blast)
qed (use assms(6) in blast)

lemma clean_inv_same:
  "clean_inv s \<Longrightarrow> workers s' = workers s \<Longrightarrow> requests s' = requests s \<Longrightarrow> clean_inv s'"
  by (rule clean_invI) (auto simp: quits_kept_refl)

lemma clean_inv_quit:
  assumes "clean_inv s"
  shows "clean_inv (upd_worker i (\<lambda>w. w\<lparr>bQuit := True\<rparr>) s)"
proof (cases "i < length (workers s)")
  case True
  show ?thesis
    by (rule clean_inv_update [OF assms _ True, of _ "(workers s ! i)\<lparr>bQuit := True\<rparr>"]) simp_all
next
  case False
  then have "upd_worker i (\<lambda>w. w\<lparr>bQuit := True\<rparr>) s = s" by (simp add: upd_worker_def list_update_beyond)
  with assms show ?thesis by simp
qed

lemma clean_inv_stop_quit: "clean_inv s \<Longrightarrow> clean_inv (stop_quit s)"
proof -
  assume inv: "clean_inv s"
  have "clean_inv (fold (\<lambda>i. upd_worker i (\<lambda>w. w\<lparr>bQuit := True\<rparr>)) l t)" if "clean_inv t" for l t
    using that by (induction l arbitrary: t) (simp_all add: clean_inv_quit)
  from clean_inv_same [OF this [OF inv]] show ?thesis by (simp add: stop_quit_def)
qed

lemma clean_inv_clear:
  assumes "clean_inv s" and "pool_inv s"
  shows "clean_inv (clearRequests s)"
proof -
  obtain rs q where d: "drain (mObjCount (requests s)) (requests s) = (rs, q)" by fastforce
  have "hpq_inv (requests s)" using assms(2) by (simp add: pool_inv_def core_inv_def)
  from drain_content [OF this refl d] have "hpq_content q = []" by simp
  then show ?thesis
    by (intro clean_invI [OF assms(1)]) (auto simp: clearRequests_def d quits_kept_refl)
qed

lemma clean_inv_add_worker: "clean_inv s \<Longrightarrow> clean_inv (add_worker s)"
  by (rule clean_invI) (auto simp: add_worker_def quits_kept_def nth_append new_worker_def)

lemma pool_inv_hpq: "pool_inv s \<Longrightarrow> hpq_inv (requests s)"
  by (simp add: pool_inv_def core_inv_def)

lemma clean_inv_resize:
  assumes "clean_inv s" and "pool_inv s"
  shows "clean_inv (resize E n s)"
proof -
  have push: "clean_inv (fold (\<lambda>n. pushRequest E (StopReq n)) l t)" if "clean_inv t" and "pool_inv t" for l t
    using that
    by (induction l arbitrary: t) (simp_all add: pool_inv_push clean_inv_push clean_ok_def pool_inv_hpq)
  have add: "clean_inv ((add_worker ^^ k) t)" "pool_inv ((add_worker ^^ k) t)" if "clean_inv t" "pool_inv t" for k t
    using that by (induction k) (simp_all add: clean_inv_add_worker pool_inv_add_worker)
  have "clean_inv (s\<lparr>resizeCount := c\<rparr>)" for c by (rule clean_inv_same [OF assms(1)]) simp_all
  moreover have "pool_inv (s\<lparr>resizeCount := c\<rparr>)" for c
    using assms(2) by (simp add: pool_inv_def core_inv_def wake_inv_def)
  ultimately show ?thesis using assms(1) push add by (simp add: resize_def Let_def)
qed

lemma clean_inv_slave:
  assumes "clean_inv s" and i: "i < length (workers s)" and pool: "pool_inv s"
  shows "step_head i s = Some s' \<Longrightarrow> clean_inv s'" and "step_wait i s = Some s' \<Longrightarrow> clean_inv s'"
    and "step_taken i s = Some s' \<Longrightarrow> clean_inv s'" and "step_dequeue i s = Some s' \<Longrightarrow> clean_inv s'"
proof -
  note upd = clean_inv_update [OF assms(1) _ i]
  show "step_head i s = Some s' \<Longrightarrow> clean_inv s'"
    by (rule upd [of _ "workers s' ! i"])
       (use i in \<open>auto simp: step_head_def slave_final_def go_def split: if_splits option.splits\<close>)
  show "step_wait i s = Some s' \<Longrightarrow> clean_inv s'"
    by (rule upd [of _ "workers s' ! i"]) (use i in \<open>auto simp: step_wait_def go_def split: if_splits\<close>)
  show "step_taken i s = Some s' \<Longrightarrow> clean_inv s'"
    by (rule upd [of _ "workers s' ! i"]) (use i in \<open>auto simp: step_taken_def go_def split: if_splits\<close>)
  assume st: "step_dequeue i s = Some s'"
  have hq: "hpq_inv (requests s)" using pool by (simp add: pool_inv_def core_inv_def)
  show "clean_inv s'"
  proof (cases "hpq_content (requests s) = []")
    case True
    then show ?thesis
      using st i hpq_isempty_iff [OF hq]
      by (intro upd [of _ "workers s' ! i"]) (auto simp: step_dequeue_def Let_def split: if_splits)
  next
    case False
    note pop = hpq_pop_content [OF hq False]
    have "hpq_top (requests s) \<in> snd ` set (hpq_content (requests s))" using pop(3) False by simp
    moreover have "set (hpq_content (hpq_pop (requests s))) \<subseteq> set (hpq_content (requests s))"
      unfolding pop(1) using False by (meson list.set_sel(2) subsetI)
    moreover have "workers s' = (workers s)[i := (workers s ! i)\<lparr>wphase := Taken, pReq := Some (hpq_top (requests s))\<rparr>]"
      and "requests s' = hpq_pop (requests s)"
      using st hpq_isempty_iff [OF hq] False by (auto simp: step_dequeue_def Let_def split: if_splits)
    ultimately show ?thesis by (intro upd) (assumption, simp, (simp; blast)?, simp)
  qed
qed

lemma clean_inv_run:
  assumes inv: "clean_inv s" and i: "i < length (workers s)" and pool: "pool_inv s" and st: "step_run E i s = Some s'"
  shows "clean_inv s'"
proof -
  have h: "wphase (workers s ! i) = Running" using st by (auto simp: step_run_def split: if_splits)
  obtain r s1 ret where run: "(if req_init E r \<and> \<not> bQuit (workers s ! i) then run_request E i r s else Some (s, - 1)) = Some (s1, ret)"
    and s': "s' = upd_worker i (\<lambda>w. w\<lparr>wphase := AtHead, pReq := None\<rparr>)
        (s1\<lparr>activeCount := activeCount s1 - 1, finals := finals s1 @ [(r, ret, False)]\<rparr>)"
    using h st unfolding step_run_def by (auto split: option.splits)
  have "clean_inv s1 \<and> i < length (workers s1)"
  proof (cases "r")
    case (StopReq n)
    have "core_inv (upd_worker i (\<lambda>w. w\<lparr>bQuit := True\<rparr>) s)" using pool by (simp add: pool_inv_def core_quit)
    moreover have "clean_ok (upd_worker i (\<lambda>w. w\<lparr>bQuit := True\<rparr>) s) (CleanReq i)" using i by (simp add: clean_ok_def)
    ultimately have "clean_inv (pushRequest E (CleanReq i) (upd_worker i (\<lambda>w. w\<lparr>bQuit := True\<rparr>) s))"
      by (intro clean_inv_push clean_inv_quit inv) (simp_all add: core_inv_def)
    then show ?thesis using run StopReq inv i by (auto simp: pushRequest_def split: if_splits)
  next
    case (CleanReq t)
    then have "workers s1 = workers s \<and> requests s1 = requests s" using run by (auto split: if_splits)
    then show ?thesis using clean_inv_same [OF inv] i by simp
  qed (use run inv i in \<open>auto split: if_splits\<close>)
  then have c1: "clean_inv s1" and i1: "i < length (workers s1)" by simp_all
  show ?thesis
    unfolding s' by (rule clean_inv_update [OF c1 _ i1, of _ "(workers s1 ! i)\<lparr>wphase := AtHead, pReq := None\<rparr>"]) simp_all
qed

lemma clean_inv_step:
  assumes "pool_inv s" and "clean_inv s" and "pool_step E s x = Some s'"
  shows "clean_inv s'"
proof (cases x)
  case (Push u)
  have "clean_ok s (User u)" by (simp add: clean_ok_def)
  then have "clean_inv (pushRequest E (User u) s)" by (rule clean_inv_push [OF assms(2) pool_inv_hpq [OF assms(1)]])
  with assms(3) Push show ?thesis by (simp add: start_def)
next
  case (Run i)
  then have "i < length (workers s)" "step_run E i s = Some s'" using assms(3) by (simp_all split: if_splits)
  then show ?thesis by (rule clean_inv_run [OF assms(2) _ assms(1)])
next
  case Post
  then have "workers s' = workers s \<and> requests s' = requests s"
    using assms(3) by (auto simp: post_def split: if_splits)
  then show ?thesis using clean_inv_same [OF assms(2)] by blast
next
  case Stop_flag
  then have "workers s' = workers s \<and> requests s' = requests s" using assms(3) by (auto simp: stop_flag_def)
  then show ?thesis using clean_inv_same [OF assms(2)] by blast
next
  case (Resize n)
  then have "s' = resize E n s" using assms(3) by simp
  then show ?thesis using clean_inv_resize [OF assms(2,1)] by simp
qed (use assms(3) clean_inv_slave [OF assms(2) _ assms(1)] clean_inv_clear [OF assms(2,1)]
       clean_inv_stop_quit [OF assms(2)]
     in \<open>auto split: if_splits\<close>)

interpretation pool_machine_clean: transition_system "new_pool n" "pool_step E" "\<lambda>s. pool_inv s \<and> clean_inv s"
  for n E
proof unfold_locales
  show "pool_inv (new_pool n) \<and> clean_inv (new_pool n)"
    using pool_inv_new by (simp add: clean_inv_def new_pool_def hpq.content_empty) (simp add: new_worker_def)
  show "pool_inv s' \<and> clean_inv s'" if "pool_inv s \<and> clean_inv s" and "pool_step E s x = Some s'" for s x s'
    using that pool_inv_step clean_inv_step by blast
qed


subsection \<open>Accounting\<close>

definition env0 :: renv where
  "env0 = \<lparr>u_prio = (\<lambda>u. of_nat u), u_init = (\<lambda>u. True), u_ret = int\<rparr>"

definition executions :: "pool \<Rightarrow> request multiset" where
  "executions s = mset (map fst (finals s))"

definition in_hands :: "pool \<Rightarrow> request multiset" where
  "in_hands s = sum_list (map hand (workers s))"

definition queued :: "pool \<Rightarrow> request multiset" where
  "queued s = mset (map snd (hpq_content (requests s)))"

text \<open>
  C2. In every state the pool can reach, under any interleaving of the clients and the threads, each accepted
  request is accounted for exactly once: it is queued, or in the hands of a thread, or its \<open>final\<close> was called;
  none is lost and none is finished twice. \<open>activeCount\<close> is the number of threads that execute a request,
  and while the pool runs a queued request always has a wake-up: the semaphore is positive, or a
  caller is about to post, or a thread that has not been told to quit is about to look at the queue.
\<close>

theorem pool_accounts_for_requests:
  assumes "run_ops (pool_step E) (new_pool n) xs = Some s"
  shows "mset (accepted s) = queued s + in_hands s + executions s \<and>
     activeCount s = int (length (filter (\<lambda>w. wphase w = Running) (workers s))) \<and>
     (running s \<and> queued s \<noteq> {#} \<longrightarrow> sem s > 0 \<or> pushers s > 0 \<or> (\<exists>w \<in> set (workers s). awake w))"
proof -
  have inv: "pool_inv s" by (rule pool_machine.reachable_inv [OF assms])
  have "sum_list (map active ws) = length (filter (\<lambda>w. wphase w = Running) ws)" for ws
    by (induction ws) (simp_all add: active_def)
  with inv show ?thesis
    by (simp add: pool_inv_def core_inv_def wake_inv_def queued_def in_hands_def executions_def)
qed

definition demo_ops :: "pool_op list" where
  "demo_ops = [Head 0, Push 7, Push 3, Post, Wait 0, Head 0, Dequeue 0, Take 0, Run 0, Post, Head 1, Dequeue 1]"

definition demo_pool :: pool where
  "demo_pool = the (run_ops (pool_step env0) (new_pool 2) demo_ops)"

lemma demo_runs: "run_ops (pool_step env0) (new_pool 2) demo_ops = Some demo_pool"
proof -
  have "run_ops (pool_step env0) (new_pool 2) demo_ops \<noteq> None" by code_simp
  then show ?thesis by (auto simp: demo_pool_def)
qed

lemma pool_accounts_for_requests_witness:
  "mset (accepted demo_pool) = queued demo_pool + in_hands demo_pool + executions demo_pool \<and>
     map fst (finals demo_pool) = [User 3] \<and> pReq (workers demo_pool ! 1) = Some (User 7)"
proof -
  have "map fst (finals demo_pool) = [User 3] \<and> pReq (workers demo_pool ! 1) = Some (User 7)" by code_simp
  with pool_accounts_for_requests [OF demo_runs] show ?thesis by simp
qed

subsection \<open>Order of execution\<close>

text \<open>
  C9. The queue is a stable priority queue: in every reachable state, the request a slave thread takes has a
  level no other queued request is below, and within each level the requests leave in the
  order in which \<open>pushRequest\<close> put them in.
\<close>

theorem requests_leave_by_priority:
  assumes "run_ops (pool_step E) (new_pool n) xs = Some s"
    and "i < length (workers s)" and "step_dequeue i s = Some s'" and "pReq (workers s' ! i) = Some r"
  shows "\<exists>l rest. hpq_content (requests s) = (l, r) # rest \<and> hpq_content (requests s') = rest \<and>
     (\<forall>p \<in> set rest. l \<le> fst p) \<and>
     (\<forall>k r'. running s' \<longrightarrow> map snd (filter (\<lambda>p. fst p = k) (hpq_content (requests (pushRequest E r' s')))) =
        map snd (filter (\<lambda>p. fst p = k) rest) @ (if k = getPriority E r' then [r'] else []))"
proof -
  have hq: "hpq_inv (requests s)" using pool_machine.reachable_inv [OF assms(1)] by (rule pool_inv_hpq)
  have ne: "hpq_content (requests s) \<noteq> []"
    using assms(2-4) hpq_isempty_iff [OF hq] by (auto simp: step_dequeue_def Let_def split: if_splits)
  then obtain l x rest where c: "hpq_content (requests s) = (l, x) # rest" by (cases "hpq_content (requests s)") auto
  note pop = hpq_pop_content [OF hq ne]
  have s': "requests s' = hpq_pop (requests s)" "r = hpq_top (requests s)"
    using assms(2-4) ne hpq_isempty_iff [OF hq] by (auto simp: step_dequeue_def Let_def split: if_splits)
  have r: "r = x" and rest: "hpq_content (requests s') = rest" using pop(1,3) c s' by simp_all
  have "sorted (map fst ((l, x) # rest))" using hpq.content_sorted [OF hq] by (simp only: c)
  then have "\<forall>p \<in> set rest. l \<le> fst p" by auto
  moreover have "map snd (filter (\<lambda>p. fst p = k) (hpq_content (requests (pushRequest E r' s')))) =
        map snd (filter (\<lambda>p. fst p = k) rest) @ (if k = getPriority E r' then [r'] else [])" if "running s'" for k r'
    using hpq.fifo_in_level [OF pop(2), of k "getPriority E r'" r'] that rest s' by (simp add: pushRequest_def)
  ultimately show ?thesis using c r rest by blast
qed

lemma requests_leave_by_priority_witness:
  "\<exists>s s'. step_dequeue 0 s = Some s' \<and> pReq (workers s' ! 0) = Some (User 3) \<and>
     (\<exists>l rest. hpq_content (requests s) = (l, User 3) # rest \<and> hpq_content (requests s') = rest)"
proof -
  let ?xs = "[Push 7, Push 3, Push 7, Post, Head 0]"
  have "case run_ops (pool_step env0) (new_pool 2) ?xs of None \<Rightarrow> False | Some s \<Rightarrow>
      0 < length (workers s) \<and> (case step_dequeue 0 s of None \<Rightarrow> False | Some s' \<Rightarrow> pReq (workers s' ! 0) = Some (User 3))"
    by code_simp
  then obtain s s' where s: "run_ops (pool_step env0) (new_pool 2) ?xs = Some s"
    and d: "0 < length (workers s)" "step_dequeue 0 s = Some s'" "pReq (workers s' ! 0) = Some (User 3)"
    by (auto split: option.splits)
  from requests_leave_by_priority [OF s d] d show ?thesis by blast
qed


subsection \<open>Progress\<close>

definition slave_ops :: "nat \<Rightarrow> pool_op list" where
  "slave_ops i = [Head i, Wait i, Dequeue i, Take i, Run i]"

definition stuck :: "renv \<Rightarrow> pool \<Rightarrow> bool" where
  "stuck E s \<longleftrightarrow>
     list_all (\<lambda>i. list_all (\<lambda>x. Option.is_none (pool_step E s x)) (slave_ops i)) [0..<length (workers s)]"

lemma stuck_iff: "stuck E s \<longleftrightarrow> (\<forall>i < length (workers s). \<forall>x \<in> set (slave_ops i). pool_step E s x = None)"
  by (auto simp: stuck_def list_all_iff Option.is_none_def)

lemma stuck_worker:
  assumes "pool_inv s" and "clean_inv s" and "running s" and "stuck E s" and i: "i < length (workers s)"
  shows "wphase (workers s ! i) = Finished \<or> wphase (workers s ! i) = Waiting \<and> sem s = 0"
proof -
  have none: "step_head i s = None" "step_wait i s = None" "step_dequeue i s = None" "step_taken i s = None" "step_run E i s = None"
    using assms(4) i by (auto simp: stuck_iff slave_ops_def)
  have no_head: "wphase w \<noteq> AtHead" if "w \<in> set (workers s)" for w
  proof -
    from that obtain j where j: "j < length (workers s)" "workers s ! j = w" by (auto simp: in_set_conv_nth)
    then have "step_head j s = None" using assms(4) by (auto simp: stuck_iff slave_ops_def)
    then show ?thesis using j by (auto simp: step_head_def split: if_splits)
  qed
  have ok: "\<And>w. w \<in> set (workers s) \<Longrightarrow> worker_ok w"
    and quit: "\<And>w. w \<in> set (workers s) \<Longrightarrow> bQuit w \<Longrightarrow> wphase w = AtHead \<or> wphase w = Finished"
    using assms(1,3) by (auto simp: pool_inv_def core_inv_def wake_inv_def)
  show ?thesis
  proof (cases "wphase (workers s ! i)")
    case Running
    then obtain r where r: "pReq (workers s ! i) = Some r" using ok [OF nth_mem [OF i]] by (auto simp: worker_ok_def)
    then obtain t where "r = CleanReq t" and t: "pReq (workers s ! t) \<noteq> None"
      using none(5) Running by (cases r) (auto simp: step_run_def split: if_splits)
    then have "clean_ok s (CleanReq t)" using assms(2) r nth_mem [OF i] unfolding clean_inv_def by blast
    then have tl: "t < length (workers s)" and "bQuit (workers s ! t)" by (simp_all add: clean_ok_def)
    then have "wphase (workers s ! t) = Finished" using quit [OF nth_mem [OF tl]] no_head [OF nth_mem [OF tl]] by blast
    then have "pReq (workers s ! t) = None" using ok [OF nth_mem [OF tl]] by (simp add: worker_ok_def)
    with t show ?thesis by simp
  qed (use none no_head [OF nth_mem [OF i]] in \<open>auto simp: step_wait_def step_dequeue_def step_taken_def Let_def split: if_splits\<close>)
qed

text \<open>
  C1. A running pool never gets stuck with work to do: in every reachable state in which no caller still has to
  post, no thread can take a step, and at least one thread has not ended, every request ever
  accepted has been carried to its \<open>final\<close>, once. (A \<open>CleanRequest\<close> that waits for its thread cannot block
  the pool for ever, and no wake-up is lost.)
\<close>

theorem pool_never_stuck:
  assumes "run_ops (pool_step E) (new_pool n) xs = Some s" and "running s" and "pushers s = 0"
    and "stuck E s" and "list_ex (\<lambda>w. wphase w \<noteq> Finished) (workers s)"
  shows "mset (accepted s) = executions s \<and> queued s = {#}"
proof -
  have pi: "pool_inv s" and ci: "clean_inv s" using pool_machine_clean.reachable_inv [OF assms(1)] by simp_all
  have w: "wphase w = Finished \<or> wphase w = Waiting \<and> sem s = 0" if "w \<in> set (workers s)" for w
    using stuck_worker [OF pi ci assms(2,4)] that by (metis in_set_conv_nth)
  then have "sem s = 0" using assms(5) by (auto simp: list_ex_iff)
  moreover have "\<not> awake w" if "w \<in> set (workers s)" for w using w [OF that] by (auto simp: awake_def)
  ultimately have "hpq_content (requests s) = []" using pi assms(2,3) by (auto simp: pool_inv_def wake_inv_def)
  moreover have "hand w = {#}" if "w \<in> set (workers s)" for w
    using w [OF that] pi that by (auto simp: pool_inv_def core_inv_def worker_ok_def hand_def)
  then have "map hand (workers s) = map (\<lambda>w. {#}) (workers s)" by simp
  then have "sum_list (map hand (workers s)) = {#}" by (simp only: sum_list_0)
  ultimately show ?thesis using pi by (simp add: pool_inv_def core_inv_def executions_def queued_def)
qed

definition idle_ops :: "pool_op list" where
  "idle_ops = [Push 7, Push 3, Post, Post, Head 0, Head 1, Dequeue 0, Dequeue 1, Take 1, Run 1, Take 0, Run 0,
     Head 0, Head 1, Wait 0, Wait 1, Head 0, Head 1]"

lemma pool_never_stuck_witness:
  "\<exists>s. stuck env0 s \<and> mset (accepted s) = executions s \<and> map fst (finals s) = [User 7, User 3]"
proof -
  have "case run_ops (pool_step env0) (new_pool 2) idle_ops of None \<Rightarrow> False | Some s \<Rightarrow>
      running s \<and> pushers s = 0 \<and> stuck env0 s \<and>
      list_ex (\<lambda>w. wphase w \<noteq> Finished) (workers s) \<and> map fst (finals s) = [User 7, User 3]"
    by code_simp
  then obtain s where s: "run_ops (pool_step env0) (new_pool 2) idle_ops = Some s"
    and c: "running s \<and> pushers s = 0 \<and> stuck env0 s \<and>
      list_ex (\<lambda>w. wphase w \<noteq> Finished) (workers s) \<and> map fst (finals s) = [User 7, User 3]"
    by (rule case_SomeE)
  from c have d: "running s" "pushers s = 0" "stuck env0 s" "list_ex (\<lambda>w. wphase w \<noteq> Finished) (workers s)"
    by simp_all
  from pool_never_stuck [OF s d] have "mset (accepted s) = executions s" by (rule conjunct1)
  with c show ?thesis by (intro exI [of _ s]) (elim conjE, intro conjI)
qed

subsection \<open>Shrinking twice\<close>

definition no_control :: "pool_op \<Rightarrow> bool" where
  "no_control x \<longleftrightarrow> (case x of Clear \<Rightarrow> False | Stop_flag \<Rightarrow> False | Stop_quit \<Rightarrow> False | Resize n \<Rightarrow> False | _ \<Rightarrow> True)"

definition dead :: "pool \<Rightarrow> bool" where
  "dead s \<longleftrightarrow> running s \<and> (\<forall>w \<in> set (workers s). wphase w = Finished)"

lemma dead_step:
  assumes "dead s" and "pool_step E s x = Some s'" and "no_control x"
  shows "dead s' \<and> finals s' = finals s"
proof -
  have "wphase (workers s ! i) = Finished" if "i < length (workers s)" for i
    using assms(1) that by (simp add: dead_def)
  with assms show ?thesis
    by (cases x)
       (auto simp: no_control_def start_def pushRequest_def post_def dead_def step_head_def step_wait_def
          step_dequeue_def step_taken_def step_run_def split: if_splits)
qed

lemma dead_run:
  "dead s \<Longrightarrow> run_ops (pool_step E) s ys = Some s' \<Longrightarrow> list_all no_control ys \<Longrightarrow> finals s' = finals s"
  by (induction ys arbitrary: s) (auto split: option.splits dest: dead_step)

definition shrink_ops :: "pool_op list" where
  "shrink_ops = [Resize 2, Resize 2, Resize 2, Post, Post, Post, Head 0, Dequeue 0, Take 0, Run 0, Post, Head 0,
     Head 1, Dequeue 1, Take 1, Run 1, Head 1, Dequeue 1, Take 1, Run 1, Post, Head 1,
     Head 2, Dequeue 2, Take 2, Run 2, Head 2, Dequeue 2, Take 2, Run 2, Post, Head 2]"

text \<open>
  \<open>resize\<close> posts its stop requests from the size the pool has at the moment, without counting those that are
  posted and not yet served. Shrinking a pool of three threads to two, with the call repeated before
  a thread ran, ends every thread: the pool still says it is running and accepts requests, and
  none of them is ever executed.
\<close>

theorem repeated_shrink_kills_pool:
  "\<exists>s. run_ops (pool_step E) (new_pool 3) shrink_ops = Some s \<and> running s \<and> resizeCount s = 2 \<and>
     list_all (\<lambda>w. wphase w = Finished) (workers s) \<and> sem s > 0 \<and> queued s \<noteq> {#} \<and>
     (\<forall>ys s'. list_all no_control ys \<longrightarrow> run_ops (pool_step E) s ys = Some s' \<longrightarrow> finals s' = finals s)"
proof -
  have "case run_ops (pool_step E) (new_pool 3) shrink_ops of None \<Rightarrow> False | Some s \<Rightarrow>
      running s \<and> resizeCount s = 2 \<and> list_all (\<lambda>w. wphase w = Finished) (workers s) \<and> sem s > 0 \<and> hpq_content (requests s) \<noteq> []"
    by code_simp
  then obtain s where s: "run_ops (pool_step E) (new_pool 3) shrink_ops = Some s"
    and c: "running s \<and> resizeCount s = 2 \<and> list_all (\<lambda>w. wphase w = Finished) (workers s) \<and> sem s > 0 \<and> hpq_content (requests s) \<noteq> []"
    by (rule case_SomeE)
  from c have r: "running s" "resizeCount s = 2" and f: "list_all (\<lambda>w. wphase w = Finished) (workers s)"
    and q: "sem s > 0" "hpq_content (requests s) \<noteq> []"
    by simp_all
  then have "dead s" by (simp add: dead_def list_all_iff)
  then have "\<forall>ys s'. list_all no_control ys \<longrightarrow> run_ops (pool_step E) s ys = Some s' \<longrightarrow> finals s' = finals s"
    using dead_run by blast
  moreover have "queued s \<noteq> {#}" using q(2) by (simp add: queued_def)
  ultimately show ?thesis using s r f q(1) by blast
qed

text \<open>After it, a request that is accepted stays unserved whatever the threads do.\<close>

lemma repeated_shrink_kills_pool_witness:
  "\<exists>s s'. run_ops (pool_step env0) (new_pool 3) shrink_ops = Some s \<and>
     run_ops (pool_step env0) s [Push 5, Post] = Some s' \<and> finals s' = finals s"
proof -
  obtain s where s: "run_ops (pool_step env0) (new_pool 3) shrink_ops = Some s" and "running s"
    and fin: "\<And>ys s'. list_all no_control ys \<Longrightarrow> run_ops (pool_step env0) s ys = Some s' \<Longrightarrow> finals s' = finals s"
    using repeated_shrink_kills_pool [of env0] by blast
  then obtain s' where "run_ops (pool_step env0) s [Push 5, Post] = Some s'"
    by (simp add: start_def pushRequest_def post_def)
  moreover from fin [OF _ this] have "finals s' = finals s" by (simp add: no_control_def)
  ultimately show ?thesis using s by blast
qed

end
