(* ===== verification/Scheduler.thy ===== *)
theory Scheduler
  imports Thread_Pool_Props "HOL-Library.Signed_Division"
begin

text \<open>
  The polling timer (PollingTimer.cpp) and the scheduler (Scheduler.cpp), in their POSIX variants, on top of the
  thread pool: the poller moves the tasks whose time has come from its list to the pool's queue. The time of
  day is an argument of each operation.
\<close>

subsection \<open>Timers\<close>

record timeval =
  tv_sec :: int
  tv_usec :: int

record timer =
  t_time :: timeval
  t_active :: bool

definition TIMEOUT_INF :: uint64 where
  "TIMEOUT_INF = - 1"

definition new_timer :: "timeval \<Rightarrow> timer" where
  "new_timer now = \<lparr>t_time = now, t_active = False\<rparr>"

definition incTimer :: "uint64 \<Rightarrow> timer \<Rightarrow> timer" where
  "incTimer timeout t =
     (let secs = sint (ucast (timeout div 1000) :: uint32);
          usecs = sint (ucast (timeout mod 1000) :: uint32) * 1000;
          u = tv_usec (t_time t) + usecs;
          (s1, u1) = (if u > 1000000 then (tv_sec (t_time t) + 1, u smod 1000000) else (tv_sec (t_time t), u))
      in t\<lparr>t_time := \<lparr>tv_sec = s1 + secs, tv_usec = u1\<rparr>, t_active := True\<rparr>)"

definition setTimer :: "timeval \<Rightarrow> uint64 \<Rightarrow> timer \<Rightarrow> timer" where
  "setTimer now timeout t = incTimer timeout (t\<lparr>t_time := now, t_active := False\<rparr>)"

definition endTimer :: "timer \<Rightarrow> timer" where
  "endTimer t = t\<lparr>t_active := False\<rparr>"

definition time_diff :: "timeval \<Rightarrow> timeval \<Rightarrow> int" where
  "time_diff a b = (tv_sec a - tv_sec b) * 1000 + (tv_usec a - tv_usec b) sdiv 1000"

definition getTimer :: "timeval \<Rightarrow> timer \<Rightarrow> uint64" where
  "getTimer now t =
     (if \<not> t_active t then TIMEOUT_INF
      else (let diff = time_diff (t_time t) now in if diff < 0 then 0 else word_of_int diff))"

subsection \<open>The scheduler\<close>

definition MAX_SCHD_POLLTIME :: int where
  "MAX_SCHD_POLLTIME = 10000"

definition MAX_TASK_PRESTARTTIME :: uint64 where
  "MAX_TASK_PRESTARTTIME = 10"

definition MIN_TASK_UPDATETIME :: uint64 where
  "MIN_TASK_UPDATETIME = 1000"

text \<open>Tasks are numbered; an entry \<open>None\<close> of the list is a NULL. \<open>wakeups\<close> is the value of the semaphore.\<close>

record sched =
  taskList :: "nat option list"
  timers :: "(nat \<times> timer) list"
  bQuitPoller :: bool
  wakeups :: nat
  thrpool :: pool

definition wakup :: "sched \<Rightarrow> sched" where
  "wakup s = s\<lparr>wakeups := wakeups s + 1\<rparr>"

definition quitPoller :: "sched \<Rightarrow> sched" where
  "quitPoller s = wakup (s\<lparr>bQuitPoller := True\<rparr>)"

definition timer_of :: "nat \<Rightarrow> sched \<Rightarrow> timer" where
  "timer_of i s = (case map_of (timers s) i of None \<Rightarrow> \<lparr>t_time = \<lparr>tv_sec = 0, tv_usec = 0\<rparr>, t_active = False\<rparr> | Some t \<Rightarrow> t)"

definition bookTask :: "nat \<Rightarrow> sched \<Rightarrow> sched \<times> bool" where
  "bookTask i s =
     (let bFound = List.member (taskList s) (Some i)
      in (wakup (if bFound then s else s\<lparr>taskList := taskList s @ [Some i]\<rparr>), True))"

fun null_first :: "nat \<Rightarrow> nat option list \<Rightarrow> nat option list" where
  "null_first i [] = []"
| "null_first i (x # l) = (if x = Some i then None # l else x # null_first i l)"

definition clearTask :: "nat \<Rightarrow> sched \<Rightarrow> sched \<times> bool" where
  "clearTask i s = (s\<lparr>taskList := null_first i (taskList s)\<rparr>, List.member (taskList s) (Some i))"

definition new_task :: "timeval \<Rightarrow> nat \<Rightarrow> sched \<Rightarrow> sched" where
  "new_task now i s = s\<lparr>timers := smap_set i (endTimer (new_timer now)) (timers s)\<rparr>"

definition delete_task :: "nat \<Rightarrow> sched \<Rightarrow> sched" where
  "delete_task i s = fst (clearTask i (s\<lparr>timers := smap_set i (endTimer (timer_of i s)) (timers s)\<rparr>))"

definition startWait :: "timeval \<Rightarrow> nat \<Rightarrow> uint64 \<Rightarrow> sched \<Rightarrow> sched \<times> bool" where
  "startWait now i waittime s =
     (let timeout = getTimer now (timer_of i s)
      in if timeout \<noteq> - 1 \<and> timeout < MIN_TASK_UPDATETIME then (s, False)
         else bookTask i (s\<lparr>timers := smap_set i (setTimer now waittime (timer_of i s)) (timers s)\<rparr>))"

text \<open>\<open>startAt\<close>: \<open>tcur\<close> and \<open>tstar\<close> are what \<open>mktime\<close> makes of the current and the given time.\<close>

definition startAt :: "int \<Rightarrow> int \<Rightarrow> timeval \<Rightarrow> nat \<Rightarrow> sched \<Rightarrow> sched \<times> bool" where
  "startAt tcur tstar now i s =
     (let timediff = (if tstar > tcur then word_of_int (tstar - tcur) else 0 :: uint64)
      in startWait now i (timediff * 1000) s)"

text \<open>The scan of the poller: what stays in the list, the tasks started in their order, and the sleep time.\<close>

fun scan_tasks :: "bool \<Rightarrow> (nat \<Rightarrow> uint64) \<Rightarrow> nat option list \<Rightarrow> int \<Rightarrow> nat option list \<times> nat list \<times> int" where
  "scan_tasks q rem [] sleepTime = ([], [], sleepTime)"
| "scan_tasks q rem (None # l) sleepTime = scan_tasks q rem l sleepTime"
| "scan_tasks q rem (Some i # l) sleepTime =
     (if q then (Some i # l, [], sleepTime)
      else (let timeout = rem i
            in if timeout \<le> MAX_TASK_PRESTARTTIME
               then (let (kept, started, sl) = scan_tasks q rem l sleepTime in (kept, i # started, sl))
               else (let (kept, started, sl) = scan_tasks q rem l (if sint timeout < sleepTime then sint timeout else sleepTime)
                     in (Some i # kept, started, sl))))"

definition sleep_of :: "int \<Rightarrow> int" where
  "sleep_of sleepTime = (if sleepTime > 10 then sleepTime - 10 else sleepTime)"

text \<open>One round of the poller up to its wait: the new state and the time it is going to sleep.\<close>

definition poll_scan :: "renv \<Rightarrow> timeval \<Rightarrow> sched \<Rightarrow> sched \<times> int" where
  "poll_scan E now s =
     (let (kept, started, sl) = scan_tasks (bQuitPoller s) (\<lambda>i. getTimer now (timer_of i s)) (taskList s) MAX_SCHD_POLLTIME
      in (s\<lparr>taskList := kept, thrpool := fold (\<lambda>i p. fst (start E (User i) p)) started (thrpool s)\<rparr>, sleep_of sl))"

text \<open>The deadline handed to \<open>sem_timedwait\<close>, from the result of \<open>ftime\<close>; \<open>millitm\<close> is an unsigned short.\<close>

definition poll_deadline :: "int \<times> uint16 \<Rightarrow> int \<Rightarrow> int \<times> int" where
  "poll_deadline tb sleepTime =
     (let sec = sleepTime sdiv 1000; msec = sleepTime smod 1000;
          t = fst tb + sec; m = snd tb + word_of_int msec;
          (t', m') = (if m > 999 then (t + 1, m - 1000) else (t, m))
      in (t', uint m' * 1000000))"

text \<open>The wait ends by a wake-up, which is consumed, or by the deadline.\<close>

definition poll_wait :: "sched \<Rightarrow> sched" where
  "poll_wait s = s\<lparr>wakeups := wakeups s - 1\<rparr>"

definition delete_scheduler :: "sched \<Rightarrow> sched" where
  "delete_scheduler s = quitPoller (s\<lparr>taskList := []\<rparr>)"

subsection \<open>Properties of the timer\<close>

definition usecs_of :: "timeval \<Rightarrow> int" where
  "usecs_of t = tv_sec t * 1000000 + tv_usec t"

definition time_ok :: "timeval \<Rightarrow> bool" where
  "time_ok t \<longleftrightarrow> 0 \<le> tv_usec t \<and> tv_usec t \<le> 1000000"

lemma sdiv_bounds: "\<bar>x - x sdiv 1000 * 1000\<bar> < (1000 :: int)"
  by (auto simp: signed_divide_int_def sgn_if abs_if)

text \<open>The difference in milliseconds is off by less than one.\<close>

lemma time_diff_bounds: "\<bar>usecs_of a - usecs_of b - time_diff a b * 1000\<bar> < 1000"
  using sdiv_bounds [of "tv_usec a - tv_usec b"] by (simp add: usecs_of_def time_diff_def algebra_simps)

lemma ucast_small:
  assumes "uint x < 2 ^ 31"
  shows "sint (ucast (x :: uint64) :: uint32) = uint x"
proof -
  have "- (2 ^ 31) \<le> uint x" by (rule order_trans [of _ 0]) simp_all
  with assms have "signed_take_bit 31 (uint x) = uint x" by (simp add: signed_take_bit_int_eq_self_iff)
  then show ?thesis by (simp add: signed_ucast_eq)
qed

lemma ms_parts:
  assumes "0 \<le> x" and "x < 2147483648000"
  shows "x div 1000 < (2 ^ 31 :: int)" and "x mod 1000 < (2 ^ 31 :: int)"
    and "0 \<le> x mod 1000" and "x mod 1000 < 1000" and "x = x div 1000 * 1000 + x mod 1000"
proof -
  show e: "x = x div 1000 * 1000 + x mod 1000" by (rule div_mult_mod_eq [symmetric])
  show m: "0 \<le> x mod 1000" "x mod 1000 < 1000" by (rule pos_mod_sign, simp) (rule pos_mod_bound, simp)
  have "x div 1000 < 2147483648" using assms e m by linarith
  then show "x div 1000 < 2 ^ 31" by simp
  have "x mod 1000 < 2147483648" using m by linarith
  then show "x mod 1000 < 2 ^ 31" by simp
qed

lemma smod_once:
  assumes "1000000 < x" and "x < 2000000"
  shows "x smod 1000000 = x - (1000000 :: int)"
proof -
  have "x smod 1000000 = x mod 1000000" using assms by (simp add: signed_modulo_int_def)
  also have "\<dots> = (x - 1000000) mod 1000000" by (rule minus_mod_self2 [symmetric])
  also have "\<dots> = x - 1000000" using assms by (intro mod_pos_pos_trivial) simp_all
  finally show ?thesis .
qed

text \<open>Setting a timer of less than 2^31 seconds gives exactly the time of expiry, and again an admissible time.\<close>

lemma setTimer_due:
  assumes "time_ok now" and "uint timeout < 2147483648000"
  shows "usecs_of (t_time (setTimer now timeout t)) = usecs_of now + uint timeout * 1000 \<and>
     time_ok (t_time (setTimer now timeout t)) \<and> t_active (setTimer now timeout t)"
proof -
  define a m where "a = uint timeout div 1000" and "m = uint timeout mod 1000"
  note p = ms_parts [OF unsigned_greater_eq assms(2), folded a_def m_def]
  have "uint (timeout div 1000) = a" "uint (timeout mod 1000) = m"
    by (simp_all add: uint_div_distrib uint_mod_distrib a_def m_def)
  then have s: "sint (ucast (timeout div 1000) :: uint32) = a" "sint (ucast (timeout mod 1000) :: uint32) = m"
    using ucast_small [of "timeout div 1000"] ucast_small [of "timeout mod 1000"] p(1,2) by simp_all
  have u: "0 \<le> tv_usec now + m * 1000" "tv_usec now + m * 1000 < 2000000"
    using assms(1) p(3,4) by (simp_all add: time_ok_def)
  show ?thesis
  proof (cases "tv_usec now + m * 1000 > 1000000")
    case True
    then show ?thesis using u p(5)
      by (simp add: setTimer_def incTimer_def s Let_def usecs_of_def time_ok_def smod_once)
  next
    case False
    then show ?thesis using u p(5)
      by (simp add: setTimer_def incTimer_def s Let_def usecs_of_def time_ok_def)
  qed
qed

subsection \<open>One scan of the poller\<close>

definition due :: "(nat \<Rightarrow> uint64) \<Rightarrow> nat \<Rightarrow> bool" where
  "due rem i \<longleftrightarrow> rem i \<le> MAX_TASK_PRESTARTTIME"

definition tasks :: "nat option list \<Rightarrow> nat list" where
  "tasks l = concat (map (\<lambda>x. case x of None \<Rightarrow> [] | Some i \<Rightarrow> [i]) l)"

lemma tasks_simps [simp]: "tasks [] = []" "tasks (None # l) = tasks l" "tasks (Some i # l) = i # tasks l"
  by (simp_all add: tasks_def)

lemma scan_tasks_spec:
  "scan_tasks False rem l m =
     (map Some (filter (\<lambda>i. \<not> due rem i) (tasks l)), filter (due rem) (tasks l),
      foldl (\<lambda>m i. min (sint (rem i)) m) m (filter (\<lambda>i. \<not> due rem i) (tasks l)))"
proof (induction False rem l m rule: scan_tasks.induct)
  case (3 rem i l m)
  have "(if sint (rem i) < m then sint (rem i) else m) = min (sint (rem i)) m" by simp
  with 3 show ?case by (simp add: due_def Let_def)
qed simp_all

lemma foldl_min:
  "foldl (\<lambda>m i. min (f i) m) m xs \<le> (m :: int) \<and> (\<forall>i \<in> set xs. foldl (\<lambda>m i. min (f i) m) m xs \<le> f i)"
proof (induction xs arbitrary: m)
  case (Cons x xs)
  from Cons.IH [of "min (f x) m"] show ?case by auto
qed simp

lemma foldl_min_Min: "foldl (\<lambda>m i. min (f i) m) m xs = Min (insert (m :: int) (f ` set xs))"
proof (induction xs arbitrary: m)
  case (Cons x xs)
  have "Min (insert (min (f x) m) (f ` set xs)) = Min (insert m (insert (f x) (f ` set xs)))"
    by (cases "xs = []") (simp_all add: min.commute min.left_commute)
  with Cons.IH [of "min (f x) m"] show ?case by simp
qed simp

lemma start_pool: "fst (start E (User i) p) = pushRequest E (User i) p"
  by (simp add: start_def)

lemma fold_push:
  "running p \<Longrightarrow> accepted (fold (\<lambda>i p. fst (start E (User i) p)) xs p) = accepted p @ map User xs \<and>
     pushers (fold (\<lambda>i p. fst (start E (User i) p)) xs p) = pushers p + length xs"
proof (induction xs arbitrary: p)
  case (Cons x xs)
  have "running (pushRequest E (User x) p)" using Cons.prems by (simp add: pushRequest_def)
  from Cons.IH [OF this] Cons.prems show ?case by (simp add: start_pool pushRequest_def)
qed simp

lemma getTimer_value:
  assumes "t_active t" and "time_diff (t_time t) now < 2 ^ 62"
  shows "uint (getTimer now t) = max 0 (time_diff (t_time t) now)" and "sint (getTimer now t) = max 0 (time_diff (t_time t) now)"
proof -
  define d where "d = time_diff (t_time t) now"
  have g: "getTimer now t = word_of_int (max 0 d)"
    using assms(1) by (auto simp: getTimer_def d_def Let_def max_def)
  have b: "0 \<le> max 0 d" "max 0 d < 2 ^ 62" using assms(2) by (simp_all add: d_def)
  then have "take_bit 64 (max 0 d) = max 0 d" by (simp add: take_bit_int_eq_self_iff)
  then show "uint (getTimer now t) = max 0 (time_diff (t_time t) now)"
    unfolding g d_def [symmetric] by (simp add: unsigned_of_int)
  have "signed_take_bit 63 (max 0 d) = max 0 d" using b by (simp add: signed_take_bit_int_eq_self_iff)
  then show "sint (getTimer now t) = max 0 (time_diff (t_time t) now)"
    unfolding g d_def [symmetric] by (simp add: signed_of_int)
qed

lemma due_iff: "due rem i \<longleftrightarrow> uint (rem i) \<le> 10"
  by (simp add: due_def MAX_TASK_PRESTARTTIME_def word_le_def)

lemma foldl_min_greater:
  "(k :: int) < m \<Longrightarrow> (\<And>i. i \<in> set xs \<Longrightarrow> k < f i) \<Longrightarrow> k < foldl (\<lambda>m i. min (f i) m) m xs"
  by (induction xs arbitrary: m) auto

lemma tasks_Some [simp]: "tasks (map Some xs) = xs"
  by (induction xs) simp_all

text \<open>
  C14. A scan of the poller hands to the running pool exactly the tasks whose time has come (10 ms or less are left), each once,
  in the order of the list, and keeps the others; empty entries disappear. It then sleeps until 10 ms before the first of the
  remaining tasks is due, or 9990 ms if that is sooner: no longer and no less. A task that was started had less than
  11 ms left in real time, so that no task runs more than 11 ms early.
\<close>

theorem poll_starts_due_tasks:
  assumes "\<not> bQuitPoller s" and "running (thrpool s)" and "poll_scan E now s = (s', sleep)"
    and "\<forall>i \<in> set (tasks (taskList s)). t_active (timer_of i s) \<and> time_diff (t_time (timer_of i s)) now < 2 ^ 62"
  shows "let rem = \<lambda>i. getTimer now (timer_of i s); ready = filter (due rem) (tasks (taskList s))
     in accepted (thrpool s') = accepted (thrpool s) @ map User ready \<and>
        taskList s' = map Some (filter (\<lambda>i. \<not> due rem i) (tasks (taskList s))) \<and>
        sleep = Min (insert 10000 ((\<lambda>i. uint (rem i)) ` set (tasks (taskList s')))) - 10 \<and> 0 < sleep \<and> sleep \<le> 9990 \<and>
        (\<forall>i \<in> set ready. usecs_of (t_time (timer_of i s)) - usecs_of now < 11000)"
proof -
  define rem where "rem = (\<lambda>i. getTimer now (timer_of i s))"
  define ready kept where "ready = filter (due rem) (tasks (taskList s))"
    and "kept = filter (\<lambda>i. \<not> due rem i) (tasks (taskList s))"
  define m where "m = foldl (\<lambda>m i. min (sint (rem i)) m) MAX_SCHD_POLLTIME kept"
  have v: "uint (rem i) = max 0 (time_diff (t_time (timer_of i s)) now)" "sint (rem i) = uint (rem i)"
    if "i \<in> set (tasks (taskList s))" for i
    using getTimer_value [of "timer_of i s" now] assms(4) that by (simp_all add: rem_def)
  have k: "i \<in> set (tasks (taskList s))" "10 < sint (rem i)" if "i \<in> set kept" for i
    using that by (auto simp only: kept_def due_iff v(2) set_filter)
  have m: "10 < m" "m \<le> 10000" "\<And>i. i \<in> set kept \<Longrightarrow> m \<le> uint (rem i)"
    unfolding m_def using foldl_min [of "\<lambda>i. sint (rem i)" MAX_SCHD_POLLTIME kept] k v
    by (auto simp: MAX_SCHD_POLLTIME_def intro: foldl_min_greater)
  have e: "s' = s\<lparr>taskList := map Some kept, thrpool := fold (\<lambda>i p. fst (start E (User i) p)) ready (thrpool s)\<rparr>"
    "sleep = m - 10"
    using assms(1,3) m(1)
    by (simp_all add: poll_scan_def scan_tasks_spec sleep_of_def rem_def [symmetric] ready_def [symmetric]
        kept_def [symmetric] m_def [symmetric])
  have "(\<lambda>i. sint (rem i)) ` set kept = (\<lambda>i. uint (rem i)) ` set kept" using k(1) v(2) by (intro image_cong) auto
  then have mm: "m = Min (insert 10000 ((\<lambda>i. uint (rem i)) ` set kept))"
    by (simp add: m_def foldl_min_Min MAX_SCHD_POLLTIME_def)
  have r: "usecs_of (t_time (timer_of i s)) - usecs_of now < 11000" if "i \<in> set ready" for i
  proof -
    have "time_diff (t_time (timer_of i s)) now \<le> 10"
      using that v(1) [of i] by (simp add: ready_def due_iff)
    then show ?thesis using time_diff_bounds [of "t_time (timer_of i s)" now] by linarith
  qed
  have "accepted (thrpool s') = accepted (thrpool s) @ map User ready"
    using fold_push [OF assms(2), of E ready] by (simp add: e)
  then show ?thesis
    unfolding Let_def rem_def [symmetric] ready_def [symmetric] kept_def [symmetric]
    using m r mm [symmetric] by (simp add: e)
qed

subsection \<open>A history of the scheduler\<close>

datatype sched_op = NewTask timeval nat | DeleteTask nat | StartWait timeval nat uint64 | StartAt int int timeval nat
  | ClearTask nat | Poll timeval | Woken | QuitPoller

fun sched_step :: "renv \<Rightarrow> sched_op \<Rightarrow> sched \<Rightarrow> sched" where
  "sched_step E (NewTask now i) s = new_task now i s"
| "sched_step E (DeleteTask i) s = delete_task i s"
| "sched_step E (StartWait now i w) s = fst (startWait now i w s)"
| "sched_step E (StartAt tcur tstar now i) s = fst (startAt tcur tstar now i s)"
| "sched_step E (ClearTask i) s = fst (clearTask i s)"
| "sched_step E (Poll now) s = fst (poll_scan E now s)"
| "sched_step E Woken s = poll_wait s"
| "sched_step E QuitPoller s = quitPoller s"

text \<open>Operations from a moment on that neither create nor delete task \<open>i\<close>.\<close>

fun later_op :: "timeval \<Rightarrow> nat \<Rightarrow> sched_op \<Rightarrow> bool" where
  "later_op t0 i (NewTask now j) = (j \<noteq> i)"
| "later_op t0 i (DeleteTask j) = (j \<noteq> i)"
| "later_op t0 i (StartWait now j w) = (usecs_of t0 \<le> usecs_of now)"
| "later_op t0 i (StartAt tcur tstar now j) = (usecs_of t0 \<le> usecs_of now)"
| "later_op t0 i (ClearTask j) = True"
| "later_op t0 i (Poll now) = True"
| "later_op t0 i Woken = True"
| "later_op t0 i QuitPoller = True"

definition overdue :: "timeval \<Rightarrow> nat \<Rightarrow> sched \<Rightarrow> bool" where
  "overdue t0 i s \<longleftrightarrow> t_active (timer_of i s) \<and> usecs_of (t_time (timer_of i s)) - usecs_of t0 < 11000 \<and>
     Some i \<notin> set (taskList s)"

definition runs_of :: "nat \<Rightarrow> sched \<Rightarrow> request list" where
  "runs_of i s = filter (\<lambda>r. r = User i) (accepted (thrpool s))"

lemma accepted_fold:
  "accepted (fold (\<lambda>i p. fst (start E (User i) p)) xs p) = accepted p @ (if running p then map User xs else []) \<and>
     running (fold (\<lambda>i p. fst (start E (User i) p)) xs p) = running p"
  by (induction xs arbitrary: p) (simp_all add: start_pool pushRequest_def)

lemma scan_subset:
  "set (fst (scan_tasks q rem l m)) \<subseteq> set l \<and> (\<forall>j \<in> set (fst (snd (scan_tasks q rem l m))). Some j \<in> set l)"
proof (induction q rem l m rule: scan_tasks.induct)
  case (3 q rem i l m)
  then show ?case
    by (cases "rem i \<le> MAX_TASK_PRESTARTTIME") (auto simp: Let_def split: prod.splits)
qed auto

lemma null_first_set: "Some i \<in> set (null_first j l) \<Longrightarrow> Some i \<in> set l"
  by (induction l) (auto split: if_splits)

lemma overdue_getTimer:
  assumes "overdue t0 i s" and "usecs_of t0 \<le> usecs_of now"
  shows "getTimer now (timer_of i s) \<noteq> - 1" and "getTimer now (timer_of i s) < MIN_TASK_UPDATETIME"
proof -
  let ?d = "time_diff (t_time (timer_of i s)) now"
  have d: "?d \<le> 11"
    using assms time_diff_bounds [of "t_time (timer_of i s)" now] unfolding overdue_def by linarith
  have "uint (getTimer now (timer_of i s)) = max 0 ?d"
    using assms(1) d by (intro getTimer_value) (simp_all add: overdue_def)
  then have u: "uint (getTimer now (timer_of i s)) \<le> 11" using d by simp
  then show "getTimer now (timer_of i s) < MIN_TASK_UPDATETIME"
    by (simp add: word_less_def MIN_TASK_UPDATETIME_def)
  show "getTimer now (timer_of i s) \<noteq> - 1"
    using u by (auto simp: unsigned_minus_1_eq_mask mask_eq_exp_minus_1)
qed


lemma overdue_startWait:
  assumes "overdue t0 i s" and "usecs_of t0 \<le> usecs_of now"
  shows "overdue t0 i (fst (startWait now j w s)) \<and> runs_of i (fst (startWait now j w s)) = runs_of i s"
proof (cases "j = i")
  case True
  then have "fst (startWait now j w s) = s"
    using overdue_getTimer [OF assms] by (simp add: startWait_def Let_def)
  then show ?thesis using assms(1) by simp
next
  case False
  then show ?thesis using assms(1)
    by (auto simp: startWait_def Let_def bookTask_def wakup_def overdue_def runs_of_def timer_of_def map_of_smap_set)
qed

lemma overdue_step:
  assumes o: "overdue t0 i s" and l: "later_op t0 i x"
  shows "overdue t0 i (sched_step E x s) \<and> runs_of i (sched_step E x s) = runs_of i s"
proof (cases x)
  case (StartWait now j w)
  with l overdue_startWait [OF o] show ?thesis by simp
next
  case (StartAt tcur tstar now j)
  with l overdue_startWait [OF o] show ?thesis by (simp add: startAt_def Let_def)
next
  case (Poll now)
  let ?r = "scan_tasks (bQuitPoller s) (\<lambda>i. getTimer now (timer_of i s)) (taskList s) MAX_SCHD_POLLTIME"
  have n: "Some i \<notin> set (fst ?r)" "i \<notin> set (fst (snd ?r))"
    using scan_subset [of "bQuitPoller s" "\<lambda>i. getTimer now (timer_of i s)" "taskList s" MAX_SCHD_POLLTIME] o
    by (auto simp: overdue_def)
  have "sched_step E x s = s\<lparr>taskList := fst ?r,
      thrpool := fold (\<lambda>i p. fst (start E (User i) p)) (fst (snd ?r)) (thrpool s)\<rparr>"
    by (simp add: Poll poll_scan_def case_prod_beta Let_def)
  then show ?thesis using o n
    by (auto simp: overdue_def runs_of_def accepted_fold timer_of_def filter_empty_conv)
qed (use o l in \<open>auto simp: overdue_def runs_of_def new_task_def delete_task_def clearTask_def
      poll_wait_def quitPoller_def wakup_def timer_of_def map_of_smap_set dest: null_first_set\<close>)

lemma overdue_steps:
  "overdue t0 i s \<Longrightarrow> list_all (later_op t0 i) xs \<Longrightarrow>
     overdue t0 i (fold (sched_step E) xs s) \<and> runs_of i (fold (sched_step E) xs s) = runs_of i s"
proof (induction xs arbitrary: s)
  case (Cons x xs)
  with overdue_step [of t0 i s x E] Cons.IH [of "sched_step E x s"] show ?case by simp
qed simp

text \<open>
  A task that the poller has started can never be scheduled again: its timer is not ended, so that it reads as due at
  every later moment. Whatever is done with the scheduler afterwards (short of deleting the task), each \<open>startWait\<close> of the
  task returns false and changes nothing, and the poller never hands the task to the pool again.
\<close>

theorem started_task_cannot_be_rescheduled:
  assumes "\<not> bQuitPoller s" and "i \<in> set (tasks (taskList s))"
    and "t_active (timer_of i s)" and "time_diff (t_time (timer_of i s)) t0 < 2 ^ 62"
    and "due (\<lambda>i. getTimer t0 (timer_of i s)) i" and "poll_scan E t0 s = (s', sleep)"
    and "list_all (later_op t0 i) ops" and "usecs_of t0 \<le> usecs_of now"
  shows "startWait now i waittime (fold (sched_step E) ops s') = (fold (sched_step E) ops s', False) \<and>
     runs_of i (fold (sched_step E) ops s') = runs_of i s'"
proof -
  have "time_diff (t_time (timer_of i s)) t0 \<le> 10"
    using assms(3,4,5) by (simp add: due_iff getTimer_value)
  then have "usecs_of (t_time (timer_of i s)) - usecs_of t0 < 11000"
    using time_diff_bounds [of "t_time (timer_of i s)" t0] by linarith
  then have o: "overdue t0 i s'"
    using assms(1,3,5,6) by (auto simp: overdue_def poll_scan_def scan_tasks_spec timer_of_def)
  from overdue_steps [OF o assms(7), of E] have o': "overdue t0 i (fold (sched_step E) ops s')"
    and "runs_of i (fold (sched_step E) ops s') = runs_of i s'" by simp_all
  with overdue_getTimer [OF o' assms(8)] show ?thesis by (simp add: startWait_def Let_def)
qed


text \<open>Two tasks: one due in 5 ms, one in 25 seconds.\<close>

definition demo_time :: "int \<Rightarrow> timeval" where
  "demo_time ms = \<lparr>tv_sec = 5, tv_usec = ms * 1000\<rparr>"

definition demo_timer :: "int \<Rightarrow> int \<Rightarrow> timer" where
  "demo_timer sec ms = \<lparr>t_time = \<lparr>tv_sec = sec, tv_usec = ms * 1000\<rparr>, t_active = True\<rparr>"

definition demo_sched :: sched where
  "demo_sched = \<lparr>taskList = [Some 3, None, Some 2], timers = [(3, demo_timer 5 6), (2, demo_timer 30 1)], bQuitPoller = False,
     wakeups = 0, thrpool = new_pool 1\<rparr>"

lemma demo_timer_of: "timer_of 3 demo_sched = demo_timer 5 6" "timer_of 2 demo_sched = demo_timer 30 1"
  by (simp_all add: timer_of_def demo_sched_def)

lemma demo_diff: "time_diff (t_time (demo_timer 5 6)) (demo_time 1) = 5" "time_diff (t_time (demo_timer 30 1)) (demo_time 1) = 25000"
  by (simp_all add: time_diff_def demo_timer_def demo_time_def signed_divide_int_def)

lemma demo_rem:
  "getTimer (demo_time 1) (timer_of 3 demo_sched) = 5" "getTimer (demo_time 1) (timer_of 2 demo_sched) = 25000"
  by (simp_all add: demo_timer_of getTimer_def demo_diff Let_def) (simp_all add: demo_timer_def)

lemma demo_running: "running (new_pool 1) \<and> accepted (new_pool 1) = []"
  by (simp add: new_pool_def)

lemma poll_starts_due_tasks_witness:
  "\<exists>s'. poll_scan env0 (demo_time 1) demo_sched = (s', 9990) \<and> accepted (thrpool s') = [User 3] \<and> taskList s' = [Some 2]"
proof -
  have t: "tasks (taskList demo_sched) = [3, 2]" by (simp add: demo_sched_def)
  obtain s' sl where p: "poll_scan env0 (demo_time 1) demo_sched = (s', sl)" by fastforce
  have q: "\<not> bQuitPoller demo_sched" "thrpool demo_sched = new_pool 1" by (simp_all add: demo_sched_def)
  have "sl = 9990"
    using p by (simp add: poll_scan_def scan_tasks_spec q t due_def demo_rem MAX_TASK_PRESTARTTIME_def
        MAX_SCHD_POLLTIME_def sleep_of_def)
  moreover have "\<forall>i \<in> set (tasks (taskList demo_sched)). t_active (timer_of i demo_sched) \<and>
      time_diff (t_time (timer_of i demo_sched)) (demo_time 1) < 2 ^ 62"
    by (simp add: t demo_timer_of demo_diff) (simp add: demo_timer_def)
  note poll_starts_due_tasks [OF q(1) _ p this]
  then have "accepted (thrpool s') = [User 3] \<and> taskList s' = [Some 2]"
    by (simp add: q demo_running t due_def demo_rem MAX_TASK_PRESTARTTIME_def)
  ultimately show ?thesis using p by blast
qed

lemma started_task_cannot_be_rescheduled_witness:
  "\<exists>s'. fst (poll_scan env0 (demo_time 1) demo_sched) = s' \<and>
     startWait (demo_time 900) 3 60000 (poll_wait s') = (poll_wait s', False)"
proof -
  obtain s' sl where p: "poll_scan env0 (demo_time 1) demo_sched = (s', sl)" by fastforce
  have "startWait (demo_time 900) 3 60000 (fold (sched_step env0) [Woken] s') = (fold (sched_step env0) [Woken] s', False)"
  proof -
    have a: "t_active (timer_of 3 demo_sched)" "time_diff (t_time (timer_of 3 demo_sched)) (demo_time 1) < 2 ^ 62"
      by (simp_all add: demo_timer_of demo_diff) (simp add: demo_timer_def)
    have b: "\<not> bQuitPoller demo_sched" "3 \<in> set (tasks (taskList demo_sched))" by (simp_all add: demo_sched_def)
    have c: "due (\<lambda>i. getTimer (demo_time 1) (timer_of i demo_sched)) 3"
      by (simp add: due_def demo_rem MAX_TASK_PRESTARTTIME_def)
    have d: "usecs_of (demo_time 1) \<le> usecs_of (demo_time 900)" by (simp add: usecs_of_def demo_time_def)
    show ?thesis
      using started_task_cannot_be_rescheduled [OF b a c p _ d, of "[Woken]" 60000] by simp
  qed
  with p show ?thesis by simp
qed

end
