(* ===== verification/Byte_Codec.thy ===== *)
theory Byte_Codec
  imports Std_String
begin

text \<open>
  The escaping codecs of urlstr.cpp (\<open>URLStr::encode\<close>, \<open>URLStr::decode\<close>) and URLString.cpp (\<open>urlEncode\<close>,
  \<open>urlDecode\<close>). Both write one code per byte; the interface is a locale whose law is that the decoder
  takes the code of a byte off the front of its input.
\<close>

subsection \<open>The interface\<close>

locale byte_codec =
  fixes code :: "char \<Rightarrow> string" and dec :: "string \<Rightarrow> string option" and ok :: "char \<Rightarrow> bool"
  assumes dec_Nil: "dec [] = Some []"
    and dec_code: "ok c \<Longrightarrow> dec (code c @ t) = map_option (Cons c) (dec t)"
begin

lemma decode_encode: "\<forall>c \<in> set s. ok c \<Longrightarrow> dec (concat (map code s)) = Some s"
  by (induction s) (simp_all add: dec_Nil dec_code)

lemma encode_injective:
  assumes "\<forall>c \<in> set s. ok c" and "\<forall>c \<in> set t. ok c" and "concat (map code s) = concat (map code t)"
  shows "s = t"
proof -
  have "Some s = dec (concat (map code s))" by (rule decode_encode [OF assms(1), symmetric])
  also have "\<dots> = Some t" unfolding assms(3) by (rule decode_encode [OF assms(2)])
  finally show ?thesis by simp
qed

end

subsection \<open>Bytes and hexadecimal digits\<close>

abbreviation byte :: "char \<Rightarrow> nat" where
  "byte c \<equiv> of_char c"

text \<open>\<open>hi += (hi < 10) ? '0' : ('a' - 10)\<close>\<close>

definition hex_digit :: "nat \<Rightarrow> char" where
  "hex_digit n = char_of (n + (if n < 10 then 48 else 97 - 10))"

definition is_xdigit :: "nat \<Rightarrow> bool" where
  "is_xdigit n \<longleftrightarrow> 48 \<le> n \<and> n \<le> 57 \<or> 65 \<le> n \<and> n \<le> 70 \<or> 97 \<le> n \<and> n \<le> 102"

definition is_upper :: "nat \<Rightarrow> bool" where
  "is_upper n \<longleftrightarrow> 65 \<le> n \<and> n \<le> 90"

definition is_alpha :: "nat \<Rightarrow> bool" where
  "is_alpha n \<longleftrightarrow> is_upper n \<or> 97 \<le> n \<and> n \<le> 122"

definition is_alnum :: "char \<Rightarrow> bool" where
  "is_alnum c \<longleftrightarrow> is_digit c \<or> is_alpha (byte c)"

lemma byte_zero: "byte c = 0 \<longleftrightarrow> c = CHR 0x00"
  using of_char_eq_iff [of c "CHR 0x00"] by simp

lemma byte_less [simp]: "byte c < 256"
  using nat_of_char_less_256 [of c] by simp

subsection \<open>urlstr.cpp\<close>

definition url_kept :: "char \<Rightarrow> bool" where
  "url_kept c \<longleftrightarrow> is_digit c \<or> is_alpha (byte c) \<or> c \<in> {CHR ''.'', CHR ''-'', CHR ''*'', CHR ''_''}"

definition url_code :: "char \<Rightarrow> string" where
  "url_code c =
     (if url_kept c then [c]
      else if c = CHR '' '' then ''%20''
      else [CHR ''%'', hex_digit (byte c div 16 mod 16), hex_digit (byte c mod 16)])"

text \<open>
  \<open>source\<close> is the buffer behind the pointer; with \<open>len < 0\<close> its C string is taken. The result is the C string
  left in \<open>target\<close>, or \<open>None\<close> for the answer false, which leaves \<open>target\<close> as it was.
\<close>

definition URLStr_encode :: "string option \<Rightarrow> int \<Rightarrow> int \<Rightarrow> string option" where
  "URLStr_encode source outlen len =
     (case source of None \<Rightarrow> None
      | Some buf \<Rightarrow>
          if outlen \<le> 0 then None
          else (let ret = concat (map url_code (if len < 0 then c_str buf else take (nat len) buf))
                in if int (length ret) < outlen then Some ret else None))"

text \<open>
  The value of a digit after the percent sign, in 32-bit arithmetic on the sign-extended byte; \<open>None\<close> where the
  test \<open>& 0xf0\<close> fails. (The classification of a byte above 127 is undefined in C; it is taken as false.)
\<close>

definition nibble :: "char \<Rightarrow> uint32 option" where
  "nibble c =
     (let x = (signed (of_nat (byte c) :: uint8) :: uint32);
          n = unat x;
          v = x - (if is_xdigit n then (if is_alpha n then (if is_upper n then 65 - 10 else 97 - 10) else 48) else 48)
      in if v AND 0xf0 \<noteq> 0 then None else Some v)"

text \<open>
  The loop of \<open>decode\<close>: \<open>room\<close> is what \<open>maxlen\<close> leaves, \<open>None\<close> when it is negative. \<open>None\<close> is the answer false. At the
  end of the source the NUL fails the test as a digit.
\<close>

fun decode_loop :: "nat option \<Rightarrow> string \<Rightarrow> string option" where
  "decode_loop room [] = Some []"
| "decode_loop room (c # s) =
     (if room = Some 0 then Some []
      else (let room' = map_option (\<lambda>k. k - 1) room
            in if c = CHR ''+'' then map_option (Cons (CHR '' '')) (decode_loop room' s)
               else if c = CHR ''%'' then
                 (case s of
                    h # l # s' \<Rightarrow>
                      (case (nibble h, nibble l) of
                         (Some hi, Some lo) \<Rightarrow>
                           map_option (Cons (char_of (unat ((hi * 0x10 + lo) AND 0xff)))) (decode_loop room' s')
                       | _ \<Rightarrow> None)
                  | _ \<Rightarrow> None)
               else map_option (Cons c) (decode_loop room' s)))"

text \<open>The bytes written, and whether there was room for the terminator.\<close>

definition URLStr_decode :: "string \<Rightarrow> int \<Rightarrow> (string \<times> bool) option" where
  "URLStr_decode source maxlen =
     map_option (\<lambda>t. (t, maxlen < 0 \<or> int (length t) < maxlen))
       (decode_loop (if maxlen < 0 then None else Some (nat maxlen)) (c_str source))"

definition nibble_ok :: "nat \<Rightarrow> bool" where
  "nibble_ok n \<longleftrightarrow> nibble (hex_digit n) = Some (of_nat n)"

lemma nibble_hex:
  assumes "n < 16"
  shows "nibble (hex_digit n) = Some (of_nat n)"
proof -
  have "list_all nibble_ok [0..<16]" by code_simp
  moreover have "n \<in> set [0..<16]" unfolding set_upt using assms by simp
  ultimately show ?thesis unfolding list_all_iff by (simp add: nibble_ok_def del: upt.simps)
qed

lemma byte_of_nibbles:
  fixes b :: nat assumes "b < 256"
  shows "unat (((of_nat (b div 16 mod 16) :: uint32) * 0x10 + of_nat (b mod 16)) AND 0xff) = b"
proof -
  have "(of_nat (b div 16 mod 16) :: uint32) * 0x10 + of_nat (b mod 16) = of_nat (b div 16 mod 16 * 16 + b mod 16)"
    by simp
  also have "b div 16 mod 16 * 16 + b mod 16 = b" using assms div_mult_mod_eq [of b 16] by simp
  finally have "(of_nat (b div 16 mod 16) :: uint32) * 0x10 + of_nat (b mod 16) = of_nat b" .
  moreover have "unat ((of_nat b :: uint32) AND 0xff) = b"
  proof -
    have "(0xff :: uint32) = mask 8" by (simp add: mask_eq_exp_minus_1)
    then have "unat ((of_nat b :: uint32) AND 0xff) = unat (take_bit 8 (of_nat b :: uint32))" by (simp only: take_bit_eq_mask)
    also have "\<dots> = b" using assms by (simp add: unsigned_take_bit_eq unsigned_of_nat take_bit_nat_eq_self_iff)
    finally show ?thesis .
  qed
  ultimately show ?thesis by simp
qed

lemma decode_url_code: "decode_loop None (url_code c @ t) = map_option (Cons c) (decode_loop None t)"
proof -
  have "\<not> url_kept (CHR ''+'')" "\<not> url_kept (CHR ''%'')" by code_simp+
  then have plus: "url_kept c \<longrightarrow> c \<noteq> CHR ''+'' \<and> c \<noteq> CHR ''%''" by auto
  have "CHR ''2'' = hex_digit 2" "CHR ''0'' = hex_digit 0" by code_simp+
  then have space: "nibble (CHR ''2'') = Some 2" "nibble (CHR ''0'') = Some 0"
    using nibble_hex [of 2] nibble_hex [of 0] by simp_all
  have sp: "char_of (32::nat) = CHR '' ''" by code_simp
  have c: "c = char_of (unat (((of_nat (byte c div 16 mod 16) :: uint32) * 0x10 + of_nat (byte c mod 16)) AND 0xff))"
    by (simp add: byte_of_nibbles)
  consider "url_kept c" | "\<not> url_kept c" "c = CHR '' ''" | "\<not> url_kept c" "c \<noteq> CHR '' ''" by blast
  then show ?thesis
  proof cases
    case 1
    then show ?thesis using plus by (simp add: url_code_def)
  next
    case 2
    then show ?thesis by (simp add: url_code_def space sp)
  next
    case 3
    then have "url_code c = [CHR ''%'', hex_digit (byte c div 16 mod 16), hex_digit (byte c mod 16)]"
      by (simp add: url_code_def)
    then show ?thesis by (simp add: nibble_hex c [symmetric])
  qed
qed

interpretation urlstr: byte_codec url_code "decode_loop None" "\<lambda>c. True"
  by unfold_locales (simp_all add: decode_url_code)

lemma notin_codes: "(\<And>c. c \<noteq> z \<Longrightarrow> z \<notin> set (f c)) \<Longrightarrow> z \<notin> set s \<Longrightarrow> z \<notin> set (concat (map f s))"
  by (induction s) auto

lemma hex_digit_nz: "n < 16 \<Longrightarrow> CHR 0x00 \<noteq> hex_digit n"
proof -
  assume "n < 16"
  then have "byte (hex_digit n) \<noteq> byte (CHR 0x00)" by (simp add: hex_digit_def)
  then show ?thesis by metis
qed

text \<open>
  \<open>URLStr::decode\<close> is the inverse of \<open>URLStr::encode\<close>: whatever NUL-free string is encoded into a buffer that
  is large enough, decoding gives it back with its terminator. \<open>encode\<close> answers false in just the
  cases in which the code with its terminator does not fit, so it never overruns the buffer.
\<close>

theorem URLStr_codec_roundtrip:
  assumes "CHR 0x00 \<notin> set s" and "0 < outlen"
  shows "(case URLStr_encode (Some s) outlen (- 1) of
       None \<Rightarrow> outlen \<le> int (length (concat (map url_code s)))
     | Some r \<Rightarrow> int (length r) < outlen \<and> URLStr_decode r (- 1) = Some (s, True)) \<and>
     length (concat (map url_code s)) \<le> 3 * length s"
proof -
  have "CHR 0x00 \<notin> set (url_code c)" if "c \<noteq> CHR 0x00" for c
    using that hex_digit_nz [of "byte c div 16 mod 16"] hex_digit_nz [of "byte c mod 16"] by (simp add: url_code_def)
  then have nul: "CHR 0x00 \<notin> set (concat (map url_code s))" using assms(1) by (rule notin_codes)
  have "length (url_code c) \<le> 3" for c by (simp add: url_code_def)
  then have "length (concat (map url_code s)) \<le> 3 * length s" by (induction s) (simp_all add: add_mono)
  then show ?thesis
    using assms urlstr.decode_encode [of s]
    by (simp add: URLStr_encode_def URLStr_decode_def c_str_no_nul [OF assms(1)] c_str_no_nul [OF nul] Let_def)
qed

lemma URLStr_codec_roundtrip_witness:
  "URLStr_encode (Some ''a b&c=1'') 16 (- 1) = Some ''a%20b%26c%3d1'' \<and>
     URLStr_decode ''a%20b%26c%3d1'' (- 1) = Some (''a b&c=1'', True)"
proof -
  have e: "URLStr_encode (Some ''a b&c=1'') 16 (- 1) = Some ''a%20b%26c%3d1''" by code_simp
  with URLStr_codec_roundtrip [of "''a b&c=1''" 16] show ?thesis by simp
qed

subsection \<open>URLString.cpp\<close>

definition urlEncode_code :: "char \<Rightarrow> string" where
  "urlEncode_code c =
     (if c = CHR '' '' then [CHR ''+'']
      else if is_alnum c \<or> c \<in> {CHR ''/'', CHR ''.'', CHR ''-''} then [c]
      else [CHR ''%'', hex_digit (byte c div 16 mod 16), hex_digit (byte c mod 16)])"

text \<open>
  The loop compares \<open>len\<close>, which stays 0, with the unsigned \<open>max - 4\<close>. The result is the string written, with
  its terminator behind it.
\<close>

definition urlEncode :: "string option \<Rightarrow> uint32 \<Rightarrow> string" where
  "urlEncode source mx =
     (case source of None \<Rightarrow> []
      | Some s \<Rightarrow> if 0 < mx - 4 then concat (map urlEncode_code (c_str s)) else [])"

text \<open>\<open>strtol\<close> to the base 16, on the two digits at most that \<open>urlDecode\<close> hands it.\<close>

definition hex_value :: "char \<Rightarrow> nat" where
  "hex_value c = (let n = byte c in if n \<le> 57 then n - 48 else if n \<le> 70 then n - 55 else n - 87)"

definition strtol16 :: "string \<Rightarrow> int" where
  "strtol16 s =
     (let t = dropWhile is_space s;
          (neg, u) = (case t of [] \<Rightarrow> (False, [])
             | c # r \<Rightarrow> if c = CHR ''-'' then (True, r) else if c = CHR ''+'' then (False, r) else (False, t));
          v = (case u of z # x # h # r \<Rightarrow>
                  if z = CHR ''0'' \<and> x \<in> {CHR ''x'', CHR ''X''} \<and> is_xdigit (byte h) then h # r else u
                | _ \<Rightarrow> u);
          n = foldl (\<lambda>a c. 16 * a + int (hex_value c)) 0 (takeWhile (\<lambda>c. is_xdigit (byte c)) v)
      in if neg then - n else n)"

fun urlDecode_loop :: "string \<Rightarrow> string" where
  "urlDecode_loop [] = []"
| "urlDecode_loop (c # s) =
     (if c = CHR ''+'' then CHR '' '' # urlDecode_loop s
      else if c = CHR ''%'' then
        (case s of
           h # l # s' \<Rightarrow> char_of (nat (strtol16 [h, l] mod 256)) # urlDecode_loop s'
         | [h] \<Rightarrow> [char_of (nat (strtol16 [h] mod 256))]
         | [] \<Rightarrow> [char_of (nat (strtol16 [] mod 256))])
      else c # urlDecode_loop s)"

definition urlDecode :: "string \<Rightarrow> string" where
  "urlDecode source = urlDecode_loop (c_str source)"

definition hex_digit_ok :: "nat \<Rightarrow> bool" where
  "hex_digit_ok n \<longleftrightarrow> (let c = hex_digit n in
     is_xdigit (byte c) \<and> hex_value c = n \<and> \<not> is_space c \<and> c \<notin> {CHR ''-'', CHR ''+'', CHR ''x'', CHR ''X''})"

lemma hex_digits:
  assumes "n < 16"
  shows "hex_digit_ok n"
proof -
  have "list_all hex_digit_ok [0..<16]" by code_simp
  moreover have "n \<in> set [0..<16]" unfolding set_upt using assms by simp
  ultimately show ?thesis unfolding list_all_iff by blast
qed

lemma strtol_hex:
  assumes "n < 256"
  shows "strtol16 [hex_digit (n div 16 mod 16), hex_digit (n mod 16)] = int n"
proof -
  let ?h = "hex_digit (n div 16 mod 16)" and ?l = "hex_digit (n mod 16)"
  have "hex_digit_ok (n div 16 mod 16)" "hex_digit_ok (n mod 16)" by (simp_all add: hex_digits)
  then have "strtol16 [?h, ?l] = 16 * int (n div 16 mod 16) + int (n mod 16)"
    by (simp add: strtol16_def hex_digit_ok_def Let_def)
  also have "\<dots> = int (16 * (n div 16 mod 16) + n mod 16)" by (simp only: of_nat_add of_nat_mult of_nat_numeral)
  also have "16 * (n div 16 mod 16) + n mod 16 = n" using assms mult_div_mod_eq [of 16 n] by simp
  finally show ?thesis .
qed

lemma urlDecode_code: "urlDecode_loop (urlEncode_code c @ t) = c # urlDecode_loop t"
proof -
  have "\<not> is_alnum (CHR ''+'')" "\<not> is_alnum (CHR ''%'')" by code_simp+
  then have plain: "is_alnum c \<or> c \<in> {CHR ''/'', CHR ''.'', CHR ''-''} \<Longrightarrow> c \<noteq> CHR ''+'' \<and> c \<noteq> CHR ''%''" by auto
  have "char_of (nat (int (byte c) mod 256)) = c" by (simp add: nat_mod_distrib)
  then show ?thesis
    using plain strtol_hex [of "byte c"] by (simp add: urlEncode_code_def del: strtol16_def)
qed

interpretation urlstring: byte_codec urlEncode_code "\<lambda>s. Some (urlDecode_loop s)" "\<lambda>c. True"
  by unfold_locales (simp_all add: urlDecode_code)

text \<open>
  For every bound but 4 the codec of URLString.cpp is a round trip on NUL-free strings; but the bound has no
  effect: \<open>urlEncode\<close> never counts what it writes, so the output for a given string is
  the same for every \<open>max\<close> other than 4, and a string of \<open>n\<close> bytes can take \<open>3 * n + 1\<close> bytes of a buffer of any
  size.
\<close>

theorem urlEncode_ignores_its_bound:
  assumes "CHR 0x00 \<notin> set s" and "mx \<noteq> 4"
  shows "urlDecode (urlEncode (Some s) mx) = s \<and> urlEncode (Some s) mx = urlEncode (Some s) 5 \<and>
     length (urlEncode (Some (replicate n (CHR ''?''))) mx) = 3 * n"
proof -
  have "mx - 4 \<noteq> 0" using assms(2) by simp
  then have pos: "0 < mx - 4" by (simp only: word_neq_0_conv)
  have nul: "CHR 0x00 \<notin> set (urlEncode_code c)" if "c \<noteq> CHR 0x00" for c
    using that hex_digit_nz [of "byte c div 16 mod 16"] hex_digit_nz [of "byte c mod 16"] by (simp add: urlEncode_code_def)
  then have "CHR 0x00 \<notin> set (concat (map urlEncode_code s))" using assms(1) by (rule notin_codes)
  from c_str_no_nul [OF this] have "urlDecode (concat (map urlEncode_code s)) = s"
    using urlstring.decode_encode [of s] by (simp add: urlDecode_def)
  moreover have "length (urlEncode_code (CHR ''?'')) = 3" by code_simp
  then have "length (concat (map urlEncode_code (replicate n (CHR ''?'')))) = 3 * n" by (induction n) simp_all
  ultimately show ?thesis
    using assms(1) pos by (simp add: urlEncode_def c_str_no_nul)
qed

lemma urlEncode_ignores_its_bound_witness:
  "urlDecode (urlEncode (Some ''a=b c'') 8) = ''a=b c'' \<and>
     length (urlEncode (Some (replicate 100 (CHR ''?''))) 8) = 300"
proof -
  have "CHR 0x00 \<notin> set ''a=b c''" "(8 :: uint32) \<noteq> 4" by simp_all
  from urlEncode_ignores_its_bound [OF this, of 100]
  show ?thesis by (elim conjE, intro conjI) (assumption, simp only: mult_numeral_left_semiring_numeral mult_1)
qed

end
