(* ===== verification/Url_Str.thy ===== *)
theory Url_Str
  imports Byte_Codec Std_Map
begin

text \<open>
  \<open>URLStr\<close> of urlstr.cpp: parsing, the accessors and \<open>generate\<close>. Parsing can fail in two ways that the code
  does not handle: \<open>substr\<close> throws, or the buffer of a failed \<open>decode\<close> is read without a terminator.
\<close>

subsection \<open>State\<close>

record urlstr =
  mVars :: "(string \<times> string) list"
  mProtocol :: string
  mHost :: string
  mPath :: string
  mPathAndParam :: string
  mContent :: string
  mUserName :: string
  mPwd :: string
  mPort :: int
  bCaseSensitiveVars :: bool

datatype url_error = Out_of_range | Unterminated

definition url_new :: "bool \<Rightarrow> urlstr" where
  "url_new cs = \<lparr>mVars = [], mProtocol = [], mHost = [], mPath = [], mPathAndParam = [], mContent = [], mUserName = [],
     mPwd = [], mPort = 0, bCaseSensitiveVars = cs\<rparr>"

definition to_lower :: "char \<Rightarrow> char" where
  "to_lower c = (if is_upper (byte c) then char_of (byte c + 32) else c)"

definition KNOWN_PORTS :: "(string \<times> int) list" where
  "KNOWN_PORTS =
     [(''http'', 80), (''ftp'', 21), (''rtsp'', 554), (''ssh'', 22), (''telnet'', 23), (''smtp'', 25), (''dns'', 53),
      (''gopher'', 34), (''tftp'', 69), (''rtelnet'', 107), (''oncrpc'', 111), (''sftp'', 115), (''ntp'', 123),
      (''snmp'', 161), (''snmptrap'', 162), (''ldap'', 389), (''https'', 443), (''samba'', 445), (''kerberos'', 464),
      (''modbus'', 502), (''syslog'', 514), (''uucp'', 540), (''ftps'', 990), (''docker'', 2375), (''dockers'', 2376),
      (''redis'', 6379)]"

subsection \<open>Parsing\<close>

text \<open>The protocol, the part between it and the question mark (\<open>surl\<close>), and the part with the variables.\<close>

definition split_protocol :: "string \<Rightarrow> urlstr \<Rightarrow> urlstr \<times> string \<times> string" where
  "split_protocol wk u =
     (let qpos = int_pos (find_char (CHR ''?'') wk 0);
          cpos = int_pos (find_char (CHR '':'') wk 0);
          spos = int_pos (find_char (CHR ''/'') wk 0);
          (u1, surl, search) =
            (if cpos > 0 \<and> cpos < spos
             then (u\<lparr>mProtocol := take (nat cpos) wk\<rparr>, the (substr_int wk (cpos + 1) (qpos - cpos - 1)), [])
             else (u, [], wk));
          u2 = (case find_char (CHR ''/'') wk (nat (cpos + 3)) of
                  None \<Rightarrow> u1 | Some p \<Rightarrow> u1\<lparr>mPathAndParam := drop p wk\<rparr>);
          search' = (if qpos \<ge> 0 then drop (nat (qpos + 1)) wk else search)
      in (u2, surl, search'))"

definition split_user :: "string \<Rightarrow> urlstr \<Rightarrow> (urlstr \<times> string) option" where
  "split_user surl u =
     (let pos = int_pos (find_first_of '':'' surl 0);
          upos = int_pos (find_first_of ''@'' surl 0);
          auth = (if pos > 0
                  then (case substr_int surl 2 (pos - 2) of
                          None \<Rightarrow> None
                        | Some n \<Rightarrow>
                            if pos + 1 < upos then map_option (Pair n) (substr_int surl (pos + 1) (upos - pos - 1))
                            else Some (n, []))
                  else map_option (\<lambda>n. (n, [])) (substr_int surl 2 (upos - 2)))
      in (case auth of
            None \<Rightarrow> None
          | Some (n, p) \<Rightarrow>
              map_option (\<lambda>rest. (u\<lparr>mUserName := n, mPwd := p\<rparr>, rest)) (substr_int surl (upos + 1) (- 1))))"

definition split_host :: "string \<Rightarrow> urlstr \<Rightarrow> urlstr" where
  "split_host surl u =
     (let pos = int_pos (find_first_not_of ''/'' surl 0);
          u1 = (if pos = 3 then u\<lparr>mHost := ''localhost'', mPath := drop 3 surl\<rparr>
                else (let s = (if pos \<ge> 0 then drop (nat pos) surl else surl);
                          p = int_pos (find_first_of ''/'' s 0)
                      in if p > 0 then u\<lparr>mHost := take (nat p) s, mPath := drop (nat (p + 1)) s\<rparr>
                         else u\<lparr>mHost := s, mPath := []\<rparr>));
          cp = int_pos (find_last_of '':'' (mHost u1))
      in if cp > 0
         then u1\<lparr>mPort := atoi (drop (nat (cp + 1)) (mHost u1)), mHost := take (nat cp) (mHost u1)\<rparr>
         else u1)"

text \<open>The buffer of a decoded part, as the C string that is read back.\<close>

definition decoded :: "string \<Rightarrow> string option" where
  "decoded s = map_option (\<lambda>r. c_str (fst r)) (URLStr_decode s (- 1))"

definition add_var :: "string \<Rightarrow> urlstr \<Rightarrow> urlstr option" where
  "add_var e u =
     (let q = int_pos (find_char (CHR ''='') e 0);
          var = (if q > 0 then take (nat q) e else e);
          val = (if q > 0 then drop (nat (q + 1)) e else [])
      in case (decoded var, decoded val) of
           (Some k, Some v) \<Rightarrow>
             Some (u\<lparr>mVars := smap_insert (if bCaseSensitiveVars u then k else map to_lower k) v (mVars u)\<rparr>)
         | _ \<Rightarrow> None)"

function parse_vars :: "string \<Rightarrow> urlstr \<Rightarrow> urlstr option" where
  "parse_vars s u =
     (case find_char (CHR ''&'') s 0 of
        None \<Rightarrow> Some u
      | Some p \<Rightarrow>
          (case (if p = 0 then Some u else add_var (take p s) u) of
             None \<Rightarrow> None | Some u' \<Rightarrow> parse_vars (drop (Suc p) s) u'))"
  by pat_completeness auto

termination
  by (relation "measure (\<lambda>(s, u). length s)") (auto simp: find_first_of_Some)

declare parse_vars.simps [simp del]

definition default_port :: "urlstr \<Rightarrow> urlstr" where
  "default_port u =
     (if mPort u \<le> 0
      then (case map_of KNOWN_PORTS (map to_lower (mProtocol u)) of None \<Rightarrow> u | Some p \<Rightarrow> u\<lparr>mPort := p\<rparr>)
      else u)"

definition URLStr_parse :: "string option \<Rightarrow> urlstr \<Rightarrow> url_error + (urlstr \<times> bool)" where
  "URLStr_parse arg u =
     (case arg of
        None \<Rightarrow> Inr (u, False)
      | Some buf \<Rightarrow>
          (let wk = c_str buf in
           if wk = [] then Inr (u, True)
           else (let (u1, surl, search) = split_protocol wk u;
                     upos = int_pos (find_char (CHR ''@'') wk 0)
                 in (case (if upos > 0 \<and> surl \<noteq> [] then split_user surl u1 else Some (u1, surl)) of
                       None \<Rightarrow> Inl Out_of_range
                     | Some (u2, surl2) \<Rightarrow>
                         (let u3 = (if surl2 \<noteq> [] then split_host surl2 u2 else u2);
                              u4 = u3\<lparr>mHost := map to_lower (mHost u3), mContent := search\<rparr>
                          in (case parse_vars (search @ ''&'') u4 of
                                None \<Rightarrow> Inl Unterminated
                              | Some u5 \<Rightarrow> Inr (default_port u5, True)))))))"

subsection \<open>Accessors\<close>

definition getVarname :: "int \<Rightarrow> urlstr \<Rightarrow> string option" where
  "getVarname idx u =
     (let i = (if idx > 0 then min (nat idx) (length (mVars u)) else 0)
      in if i < length (mVars u) then Some (fst (mVars u ! i)) else None)"

definition getVar :: "string option \<Rightarrow> urlstr \<Rightarrow> string" where
  "getVar var u =
     (case var of
        None \<Rightarrow> c_str (mContent u)
      | Some v \<Rightarrow> (case map_of (mVars u) (c_str v) of None \<Rightarrow> [] | Some x \<Rightarrow> c_str x))"

definition setVar :: "string option \<Rightarrow> string option \<Rightarrow> urlstr \<Rightarrow> urlstr" where
  "setVar var val u =
     (case var of
        None \<Rightarrow> u
      | Some v \<Rightarrow>
          if c_str v = [] then u
          else u\<lparr>mVars := smap_set (c_str v) (case val of None \<Rightarrow> [] | Some x \<Rightarrow> c_str x) (mVars u)\<rparr>)"

definition setPort :: "int \<Rightarrow> urlstr \<Rightarrow> urlstr" where
  "setPort v u = (if v = 0 then u else u\<lparr>mPort := v\<rparr>)"

definition url_clear :: "urlstr \<Rightarrow> urlstr" where
  "url_clear u = u\<lparr>mProtocol := [], mHost := [], mPath := [], mVars := []\<rparr>"

subsection \<open>Generating\<close>

definition VAR_BUF_SIZE :: int where
  "VAR_BUF_SIZE = 512"

fun generate_vars :: "bool \<Rightarrow> (string \<times> string) list \<Rightarrow> string option" where
  "generate_vars first [] = Some []"
| "generate_vars first ((k, v) # m) =
     (case (URLStr_encode (Some k) VAR_BUF_SIZE (- 1), URLStr_encode (Some v) VAR_BUF_SIZE (- 1)) of
        (Some ek, Some ev) \<Rightarrow>
          map_option (\<lambda>t. (if first then [] else ''&'') @ ek @ ''='' @ ev @ t) (generate_vars False m)
      | _ \<Rightarrow> None)"

text \<open>The result is \<open>None\<close> where the code answers NULL.\<close>

definition URLStr_generate :: "urlstr \<Rightarrow> string option" where
  "URLStr_generate u =
     (let rest = mHost u @ '':'' @ itoa (mPort u) @ ''/'' @ mPath u;
          base =
            (if mUserName u \<noteq> [] \<and> mProtocol u \<in> {''ftp'', ''http'', ''https'', ''cifs'', ''file''}
             then (if mPwd u \<noteq> [] then mProtocol u @ ''://'' @ mUserName u @ '':'' @ mPwd u @ ''@'' @ rest
                   else mProtocol u @ ''://'' @ mUserName u @ ''@'' @ rest)
             else mProtocol u @ ''://'' @ rest)
      in map_option (\<lambda>t. base @ (if mVars u \<noteq> [] then ''?'' else []) @ t) (generate_vars True (mVars u)))"

end
