(* ===== verification/Url_Props.thy ===== *)
theory Url_Props
  imports Url_Str
begin

text \<open>
  What \<open>generate\<close> writes, \<open>parse\<close> reads back; and the inputs on which \<open>parse\<close> goes wrong.
\<close>

subsection \<open>Characters\<close>

definition url_delims :: "char list" where
  "url_delims = [CHR ''?'', CHR '':'', CHR ''/'', CHR ''@'', CHR ''&'', CHR ''='', CHR 0x00]"

definition plain :: "string \<Rightarrow> bool" where
  "plain s \<longleftrightarrow> list_all (\<lambda>c. c \<notin> {CHR ''?'', CHR '':'', CHR ''/'', CHR ''@'', CHR 0x00}) s"

lemma plainD: "plain s \<Longrightarrow> c \<in> {CHR ''?'', CHR '':'', CHR ''/'', CHR ''@'', CHR 0x00} \<Longrightarrow> c \<notin> set s"
  by (auto simp: plain_def list_all_iff)

lemma plain_append [simp]: "plain (s @ t) \<longleftrightarrow> plain s \<and> plain t"
  by (simp add: plain_def)

lemma plain_nat_dec [simp]: "plain (nat_dec n)"
  using nat_dec_plain [of n] by (auto simp: plain_def list_all_iff)

definition kept_ok :: "nat \<Rightarrow> bool" where
  "kept_ok n \<longleftrightarrow> url_kept (hex_digit n)"

lemma hex_digit_kept: "n < 16 \<Longrightarrow> url_kept (hex_digit n)"
proof -
  assume n: "n < 16"
  have "list_all kept_ok [0..<16]" by code_simp
  moreover have "n \<in> set [0..<16]" unfolding set_upt using n by simp
  ultimately show ?thesis unfolding list_all_iff kept_ok_def by blast
qed

lemma url_code_safe:
  assumes "d \<in> set url_delims"
  shows "d \<notin> set (concat (map url_code s))"
proof -
  have "list_all (\<lambda>d. \<not> url_kept d \<and> d \<noteq> CHR ''%'') url_delims" by code_simp
  then have d: "\<not> url_kept d" "d \<noteq> CHR ''%''" using assms unfolding list_all_iff by blast+
  have "url_kept (CHR ''2'')" "url_kept (CHR ''0'')" by code_simp+
  then have "d \<noteq> CHR ''2''" "d \<noteq> CHR ''0''" using d by blast+
  moreover have "d \<noteq> hex_digit n" if "n < 16" for n using d hex_digit_kept [OF that] by blast
  ultimately have "d \<notin> set (url_code c)" for c using d by (auto simp: url_code_def)
  then show ?thesis by (induction s) simp_all
qed

lemma find_char_from:
  "find_first_of cs (xs @ ys) (length xs) = map_option (\<lambda>n. length xs + n) (find_first_of cs ys 0)"
proof (cases "find_first_of cs ys 0")
  case None
  then have "find_first_of cs (xs @ ys) (length xs) = None"
    unfolding find_first_of_None by (auto simp: nth_append)
  with None show ?thesis by simp
next
  case (Some n)
  then have "find_first_of cs (xs @ ys) (length xs) = Some (length xs + n)"
    unfolding find_first_of_Some by (auto simp: nth_append)
  with Some show ?thesis by simp
qed

subsection \<open>The variables\<close>

definition var_ok :: "bool \<Rightarrow> string \<Rightarrow> string \<Rightarrow> bool" where
  "var_ok cs k v \<longleftrightarrow> k \<noteq> [] \<and> CHR 0x00 \<notin> set k \<and> CHR 0x00 \<notin> set v \<and> (\<not> cs \<longrightarrow> map to_lower k = k) \<and>
     length (concat (map url_code k)) < 512 \<and> length (concat (map url_code v)) < 512"

lemma decoded_code: "CHR 0x00 \<notin> set s \<Longrightarrow> decoded (concat (map url_code s)) = Some s"
  using urlstr.decode_encode [of s] c_str_no_nul [OF url_code_safe [of "CHR 0x00" s]]
  by (simp add: decoded_def URLStr_decode_def url_delims_def c_str_no_nul)

lemma add_var_code:
  assumes "var_ok (bCaseSensitiveVars u) k v"
  shows "add_var (concat (map url_code k) @ CHR ''='' # concat (map url_code v)) u =
     Some (u\<lparr>mVars := smap_insert k v (mVars u)\<rparr>)"
proof -
  have "CHR ''='' \<notin> set (concat (map url_code k))" by (rule url_code_safe) (simp add: url_delims_def)
  then have q: "find_char (CHR ''='') (concat (map url_code k) @ CHR ''='' # concat (map url_code v)) 0 =
      Some (length (concat (map url_code k)))" by (rule find_char_append)
  have "url_code c \<noteq> []" for c by (simp add: url_code_def)
  then have "concat (map url_code k) \<noteq> []" using assms by (cases k) (simp_all add: var_ok_def)
  then have "length (concat (map url_code k)) > 0" by simp
  with assms show ?thesis
    by (simp add: add_var_def q int_pos_def var_ok_def decoded_code Let_def nat_add_distrib del: length_concat length_greater_0_conv)
qed

lemma encode_var: "var_ok cs k v \<Longrightarrow>
   URLStr_encode (Some k) VAR_BUF_SIZE (- 1) = Some (concat (map url_code k)) \<and>
   URLStr_encode (Some v) VAR_BUF_SIZE (- 1) = Some (concat (map url_code v))"
  by (simp add: URLStr_encode_def VAR_BUF_SIZE_def var_ok_def c_str_no_nul Let_def)

lemma generate_vars_False:
  assumes "generate_vars False m = Some t"
  shows "m = [] \<and> t = [] \<or> (\<exists>t'. t = CHR ''&'' # t' \<and> generate_vars True m = Some t')"
  using assms by (cases m) (auto split: option.splits)

lemma parse_generated_vars:
  "\<forall>(k, v) \<in> set m. var_ok (bCaseSensitiveVars u) k v \<Longrightarrow> smap_wf (mVars u @ m) \<Longrightarrow>
     \<exists>t. generate_vars True m = Some t \<and> parse_vars (t @ ''&'') u = Some (u\<lparr>mVars := mVars u @ m\<rparr>) \<and>
        (\<forall>d \<in> set url_delims. d \<in> set t \<longrightarrow> d = CHR ''&'' \<or> d = CHR ''='')"
proof (induction m arbitrary: u)
  case Nil
  have "find_char (CHR ''&'') ''&'' 0 = Some 0" using find_char_append [of "CHR ''&''" "[]" "[]"] by simp
  then have "parse_vars ''&'' u = parse_vars [] u" by (subst parse_vars.simps) simp
  also have "\<dots> = Some u" by (subst parse_vars.simps) simp
  finally show ?case by simp
next
  case (Cons p m)
  obtain k v where p: "p = (k, v)" by fastforce
  let ?ek = "concat (map url_code k)" and ?ev = "concat (map url_code v)"
  have ok: "var_ok (bCaseSensitiveVars u) k v" using Cons.prems(1) by (simp add: p)
  have above: "\<forall>q \<in> set (mVars u). fst q < k" and wf: "smap_wf ((mVars u @ [(k, v)]) @ m)"
    using Cons.prems(2) by (auto simp: p smap_wf_def sorted_wrt_append)
  then have "map_of (mVars u) k = None" by (force simp: map_of_eq_None_iff)
  then have ins: "smap_insert k v (mVars u) = mVars u @ [(k, v)]"
    using smap_set_greatest [OF above] by (simp add: smap_insert_def)
  let ?u1 = "u\<lparr>mVars := mVars u @ [(k, v)]\<rparr>"
  obtain t where t: "generate_vars True m = Some t" "parse_vars (t @ ''&'') ?u1 = Some (u\<lparr>mVars := mVars u @ (k, v) # m\<rparr>)"
    and del: "\<forall>d \<in> set url_delims. d \<in> set t \<longrightarrow> d = CHR ''&'' \<or> d = CHR ''=''"
    using Cons.IH [of ?u1] Cons.prems(1) wf by auto
  define t2 where "t2 = (if m = [] then [] else CHR ''&'' # t)"
  have "generate_vars False m = Some t2"
    using t(1) by (cases m) (auto simp: t2_def split: option.splits)
  then have gen: "generate_vars True (p # m) = Some (?ek @ CHR ''='' # ?ev @ t2)"
    using encode_var [OF ok] by (simp add: p)
  have amp: "CHR ''&'' \<notin> set (?ek @ CHR ''='' # ?ev)"
    using url_code_safe [of "CHR ''&''" k] url_code_safe [of "CHR ''&''" v] by (simp add: url_delims_def)
  have step: "parse_vars ((?ek @ CHR ''='' # ?ev) @ CHR ''&'' # r) u = parse_vars r ?u1" for r
    using find_char_append [OF amp, of r] add_var_code [OF ok]
    by (subst parse_vars.simps) (simp add: ins del: length_concat)
  have "parse_vars [] ?u1 = Some ?u1" by (subst parse_vars.simps) simp
  then have "parse_vars ((?ek @ CHR ''='' # ?ev @ t2) @ ''&'') u = Some (u\<lparr>mVars := mVars u @ (k, v) # m\<rparr>)"
    using step [of "[]"] step [of "t @ ''&''"] t by (cases m) (simp_all add: t2_def)
  moreover have "\<forall>d \<in> set url_delims. d \<in> set (?ek @ CHR ''='' # ?ev @ t2) \<longrightarrow> d = CHR ''&'' \<or> d = CHR ''=''"
    using del url_code_safe [of _ k] url_code_safe [of _ v] by (auto simp: t2_def simp del: set_concat)
  ultimately show ?case using gen by (simp add: p)
qed

subsection \<open>The parts of a URL\<close>

lemma find_first_not_of_0: "s \<noteq> [] \<Longrightarrow> hd s \<notin> set cs \<Longrightarrow> find_first_not_of cs s 0 = Some 0"
  by (cases s) (simp_all add: find_first_not_of_def upt_conv_Cons del: upt_Suc)

lemma find_first_not_of_slashes:
  assumes "s \<noteq> []" and "hd s \<noteq> CHR ''/''"
  shows "find_first_not_of ''/'' (''//'' @ s) 0 = Some 2"
proof -
  have "(''//'' @ s) ! j = CHR ''/''" if "j < 2" for j using less_2_cases [OF that] by auto
  moreover have "(''//'' @ s) ! 2 = hd s" using assms(1) by (simp add: hd_conv_nth)
  moreover have "2 < length (''//'' @ s)" using assms(1) by simp
  ultimately show ?thesis unfolding find_first_not_of_def find_upt_Some using assms(2) by auto
qed

text \<open>\<open>//host:port/path\<close>, with or without the slashes in front.\<close>

lemma split_host_parts:
  assumes "host \<noteq> []" and "plain host" and "sl \<in> {[], ''//''}"
  shows "split_host (sl @ host @ CHR '':'' # nat_dec n @ CHR ''/'' # path) u =
     u\<lparr>mHost := host, mPort := int n, mPath := path\<rparr>"
proof -
  let ?hp = "host @ CHR '':'' # nat_dec n"
  let ?s = "?hp @ CHR ''/'' # path"
  have "hd ?s \<noteq> CHR ''/''" using assms(1) plainD [OF assms(2), of "CHR ''/''"] by (cases host) auto
  then have "find_first_not_of ''/'' (sl @ ?s) 0 = Some (length sl)"
    using assms(3) find_first_not_of_0 [of ?s "''/''"] find_first_not_of_slashes [of ?s] by auto
  moreover have "find_first_of ''/'' ?s 0 = Some (length ?hp)"
    by (rule find_char_append) (use plainD [OF assms(2), of "CHR ''/''"] plainD [OF plain_nat_dec, of "CHR ''/''" n] in simp)
  moreover have "find_last_of '':'' ?hp = Some (length host)"
    by (rule find_last_of_append) (use plainD [OF plain_nat_dec, of "CHR '':''" n] in simp)
  moreover have "atoi (nat_dec n) = int n" using atoi_itoa [of "int n"] by (simp add: itoa_def)
  moreover have "length sl \<noteq> 3" using assms(3) by auto
  ultimately show ?thesis
    using assms(1) by (simp add: split_host_def int_pos_def Let_def nat_add_distrib)
qed

lemma drop_length_append: "drop (length xs) (xs @ ys) = ys"
  by simp

text \<open>\<open>proto://rest?query\<close>.\<close>

lemma split_protocol_parts:
  assumes p: "p \<noteq> []" "plain p" and r: "CHR ''?'' \<notin> set r" "CHR ''/'' \<notin> set a" "r = a @ CHR ''/'' # b"
    and q: "q = [] \<or> q = CHR ''?'' # t"
  shows "split_protocol (p @ ''://'' @ r @ q) u =
     (u\<lparr>mProtocol := p, mPathAndParam := CHR ''/'' # b @ q\<rparr>, ''//'' @ r, drop 1 q)"
proof -
  let ?wk = "p @ ''://'' @ r @ q"
  note pl = plainD [OF p(2)]
  have c: "find_char (CHR '':'') ?wk 0 = Some (length p)" using find_char_append [of "CHR '':''" p] pl by simp
  have "CHR ''/'' \<notin> set (p @ '':'')" using pl by simp
  from find_char_append [OF this, of "CHR ''/'' # r @ q"]
  have sl: "find_char (CHR ''/'') ?wk 0 = Some (Suc (length p))" by simp
  have "?wk = (p @ ''://'') @ (a @ CHR ''/'' # b @ q)" using r(3) by simp
  then have sp: "find_char (CHR ''/'') ?wk (length p + 3) = Some (length p + 3 + length a)"
    using find_char_from [of "''/''" "p @ ''://''" "a @ CHR ''/'' # b @ q"] find_char_append [OF r(2), of "b @ q"]
    by (simp add: numeral_3_eq_3)
  have w: "?wk = (p @ ''://'' @ a) @ (CHR ''/'' # b @ q)" and l: "length p + 3 + length a = length (p @ ''://'' @ a)"
    using r(3) by simp_all
  have pp: "drop (length p + 3 + length a) ?wk = CHR ''/'' # b @ q"
    unfolding w l by (rule drop_length_append)
  have nq: "CHR ''?'' \<notin> set (p @ ''://'' @ r)" using pl r(1) by simp
  have nq: "CHR ''?'' \<notin> set (p @ ''://'' @ r)" using pl r(1) by simp
  have n3: "nat (int (length p) + 3) = length p + 3" and n1: "nat (int (length p) + 1) = length p + 1" by simp_all
  have tk: "take (length p) ?wk = p" and d1: "drop (length p + 1) ?wk = ''//'' @ r @ q" and len: "length p + 1 \<le> length ?wk"
    by simp_all
  define wk where "wk = ?wk"
  note facts = c [folded wk_def] sl [folded wk_def] sp [folded wk_def] pp [folded wk_def] tk [folded wk_def]
    d1 [folded wk_def] len [folded wk_def]
  have sub: "substr_int wk (int (length p) + 1) k = Some (take (if k < 0 then length wk else nat k) (''//'' @ r @ q))" for k
    using facts(7) by (simp only: substr_int_def substr_def n1 facts(6)) simp
  show "split_protocol ?wk u = (u\<lparr>mProtocol := p, mPathAndParam := CHR ''/'' # b @ q\<rparr>, ''//'' @ r, drop 1 q)"
  proof (cases "q = []")
    case True
    then have f: "find_char (CHR ''?'') wk 0 = None" using nq by (intro find_char_absent) (simp add: wk_def)
    have t: "take (length wk) (''//'' @ r @ q) = ''//'' @ r" by (simp add: True wk_def)
    have "split_protocol wk u = (u\<lparr>mProtocol := p, mPathAndParam := CHR ''/'' # b @ q\<rparr>, ''//'' @ r, [])"
      unfolding split_protocol_def Let_def f facts(1,2) int_pos_def option.case n3 facts(3) sub nat_int using p(1) t
      by (simp add: facts)
    then show ?thesis by (simp only: wk_def True drop_Nil)
  next
    case False
    then have q: "q = CHR ''?'' # t" using q by blast
    have f: "find_char (CHR ''?'') wk 0 = Some (length (p @ ''://'' @ r))"
      using find_char_append [OF nq, of t] by (simp add: q wk_def)
    have k: "nat (int (length (p @ ''://'' @ r)) - int (length p) - 1) = length (''//'' @ r)"
      "nat (int (length (p @ ''://'' @ r)) + 1) = Suc (length (p @ ''://'' @ r))" by simp_all
    have "wk = (p @ ''://'' @ r @ ''?'') @ t" and "Suc (length (p @ ''://'' @ r)) = length (p @ ''://'' @ r @ ''?'')"
      by (simp_all add: wk_def q)
    then have d: "drop (Suc (length (p @ ''://'' @ r))) wk = t" by (simp only: drop_length_append)
    have tt: "take (length (''//'' @ r)) (''//'' @ r @ q) = ''//'' @ r" by simp
    have "split_protocol wk u = (u\<lparr>mProtocol := p, mPathAndParam := CHR ''/'' # b @ q\<rparr>, ''//'' @ r, t)"
      unfolding split_protocol_def Let_def f facts(1,2) int_pos_def option.case n3 facts(3) sub nat_int k d using p(1) tt
      by (simp add: facts)
    then show ?thesis by (simp add: wk_def q)
  qed
qed


text \<open>Without a password the first colon is the one before the port.\<close>

lemma split_user_no_password:
  assumes "user \<noteq> []" "plain user" "plain host"
  shows "split_user (''//'' @ user @ ''@'' @ host @ '':'' @ rest) u =
     Some (u\<lparr>mUserName := user @ ''@'' @ host, mPwd := []\<rparr>, host @ '':'' @ rest)"
proof -
  let ?s = "''//'' @ user @ ''@'' @ host @ '':'' @ rest"
  have "CHR '':'' \<notin> set (''//'' @ user @ ''@'' @ host)"
    using plainD [OF assms(2), of "CHR '':''"] plainD [OF assms(3), of "CHR '':''"] by simp
  from find_char_append [OF this, of rest]
  have c: "find_first_of '':'' ?s 0 = Some (3 + length user + length host)" by simp
  have "CHR ''@'' \<notin> set (''//'' @ user)" using plainD [OF assms(2), of "CHR ''@''"] by simp
  from find_char_append [OF this, of "host @ '':'' @ rest"]
  have a: "find_first_of ''@'' ?s 0 = Some (2 + length user)" by simp
  define s where "s = ?s"
  have s1: "substr_int s 2 (int (3 + length user + length host) - 2) = Some (user @ ''@'' @ host)"
    by (simp add: substr_int_def substr_def s_def nat_add_distrib nat_diff_distrib)
  have "s = (''//'' @ user @ ''@'') @ (host @ '':'' @ rest)" and "nat (int (2 + length user) + 1) = length (''//'' @ user @ ''@'')"
    by (simp_all add: s_def)
  then have "drop (nat (int (2 + length user) + 1)) s = host @ '':'' @ rest" by (simp only: drop_length_append)
  then have s3: "substr_int s (int (2 + length user) + 1) (- 1) = Some (host @ '':'' @ rest)"
    by (simp only: substr_int_def substr_def) (simp add: s_def)
  have "int (3 + length user + length host) > 0" "\<not> int (3 + length user + length host) + 1 < int (2 + length user)" by simp_all
  then have "split_user s u = Some (u\<lparr>mUserName := user @ ''@'' @ host, mPwd := []\<rparr>, host @ '':'' @ rest)"
    unfolding split_user_def Let_def c [folded s_def] a [folded s_def] int_pos_def option.case by (simp only: s1 s3) simp
  then show ?thesis by (simp only: s_def)
qed

subsection \<open>Reading back a generated URL\<close>

definition url_wf :: "urlstr \<Rightarrow> bool" where
  "url_wf u \<longleftrightarrow> mProtocol u \<noteq> [] \<and> plain (mProtocol u) \<and> mHost u \<noteq> [] \<and> plain (mHost u) \<and>
     map to_lower (mHost u) = mHost u \<and> 0 < mPort u \<and>
     list_all (\<lambda>c. c \<notin> {CHR ''?'', CHR ''@'', CHR 0x00}) (mPath u) \<and> plain (mUserName u) \<and> plain (mPwd u) \<and>
     smap_wf (mVars u) \<and> list_all (\<lambda>(k, v). var_ok (bCaseSensitiveVars u) k v) (mVars u)"

definition host_text :: "urlstr \<Rightarrow> string" where
  "host_text u = mHost u @ CHR '':'' # nat_dec (nat (mPort u)) @ CHR ''/'' # mPath u"

lemma parse_text:
  assumes wf: "url_wf u" and q: "q = (if mVars u \<noteq> [] then CHR ''?'' # t else [])"
    and t: "generate_vars True (mVars u) = Some t"
    and au: "set au \<inter> {CHR ''?'', CHR ''/'', CHR 0x00} = {}"
    and user: "if au = [] then n = [] \<and> p = [] else CHR ''@'' \<in> set au \<and>
       (\<forall>x. split_user (''//'' @ au @ host_text u) x = Some (x\<lparr>mUserName := n, mPwd := p\<rparr>, host_text u))"
  shows "\<exists>a c. URLStr_parse (Some (mProtocol u @ ''://'' @ au @ host_text u @ q)) (url_new (bCaseSensitiveVars u)) =
     Inr (u\<lparr>mUserName := n, mPwd := p, mPathAndParam := a, mContent := c\<rparr>, True)"
proof -
  let ?u0 = "url_new (bCaseSensitiveVars u)" and ?H = "host_text u"
  let ?wk = "mProtocol u @ ''://'' @ (au @ ?H) @ q"
  have pr: "mProtocol u \<noteq> []" "plain (mProtocol u)" and ho: "mHost u \<noteq> []" "plain (mHost u)"
    and path: "set (mPath u) \<inter> {CHR ''?'', CHR ''@'', CHR 0x00} = {}" and port: "0 < mPort u"
    and low: "map to_lower (mHost u) = mHost u" and vwf: "smap_wf (mVars u)"
    and vok: "\<forall>(k, v) \<in> set (mVars u). var_ok (bCaseSensitiveVars u) k v"
    using wf by (auto simp: url_wf_def list_all_iff)
  let ?u3 = "\<lambda>a c. u\<lparr>mVars := [], mUserName := n, mPwd := p, mPathAndParam := a, mContent := c\<rparr>"
  obtain t' where t': "generate_vars True (mVars u) = Some t'"
    and vars: "\<And>a c. parse_vars (t' @ ''&'') (?u3 a c) = Some (u\<lparr>mUserName := n, mPwd := p, mPathAndParam := a, mContent := c\<rparr>)"
    and del: "\<forall>d \<in> set url_delims. d \<in> set t' \<longrightarrow> d = CHR ''&'' \<or> d = CHR ''=''"
  proof -
    have "\<exists>t. generate_vars True (mVars u) = Some t \<and>
        parse_vars (t @ ''&'') (?u3 a c) = Some (u\<lparr>mUserName := n, mPwd := p, mPathAndParam := a, mContent := c\<rparr>) \<and>
        (\<forall>d \<in> set url_delims. d \<in> set t \<longrightarrow> d = CHR ''&'' \<or> d = CHR ''='')" for a c
      using parse_generated_vars [of "mVars u" "?u3 a c"] vok vwf by simp
    then show thesis using that t by (metis option.inject)
  qed
  have tt: "t' = t" using t t' by simp
  have dq: "drop 1 q = t" using q t by (cases "mVars u") auto
  note plp = plainD [OF pr(2)] and plh = plainD [OF ho(2)] and pld = plainD [OF plain_nat_dec]
  have hs: "CHR ''?'' \<notin> set ?H" "CHR ''@'' \<notin> set ?H" "CHR 0x00 \<notin> set ?H"
    using plh pld path by (auto simp: host_text_def)
  have "CHR ''@'' \<notin> set t" "CHR 0x00 \<notin> set t" using del by (auto simp: url_delims_def tt)
  then have qs: "CHR ''@'' \<notin> set q" "CHR 0x00 \<notin> set q" by (auto simp: q)
  have wk: "c_str ?wk = ?wk" using plp au hs qs by (intro c_str_no_nul) auto
  have ne: "?wk \<noteq> []" by simp
  define b where "b = mPath u"
  have R: "au @ ?H = (au @ mHost u @ CHR '':'' # nat_dec (nat (mPort u))) @ CHR ''/'' # b" by (simp add: host_text_def b_def)
  have "CHR ''?'' \<notin> set (au @ ?H)" "CHR ''/'' \<notin> set (au @ mHost u @ CHR '':'' # nat_dec (nat (mPort u)))"
    using au hs plh pld by auto
  moreover have "q = [] \<or> q = CHR ''?'' # t" using q by auto
  ultimately have sp: "split_protocol ?wk ?u0 =
      (?u0\<lparr>mProtocol := mProtocol u, mPathAndParam := CHR ''/'' # b @ q\<rparr>, ''//'' @ au @ ?H, t)"
    using split_protocol_parts [OF pr _ _ R, of q t ?u0] dq by simp
  let ?u1 = "?u0\<lparr>mProtocol := mProtocol u, mPathAndParam := CHR ''/'' # b @ q\<rparr>"
  have sh: "split_host (sl @ ?H) x = x\<lparr>mHost := mHost u, mPort := mPort u, mPath := mPath u\<rparr>" if "sl \<in> {[], ''//''}" for sl x
    using split_host_parts [OF ho that, of "nat (mPort u)" "mPath u" x] port by (simp add: host_text_def)
  obtain s2 u2 where us: "(if int_pos (find_char (CHR ''@'') ?wk 0) > 0 \<and> ''//'' @ au @ ?H \<noteq> []
        then split_user (''//'' @ au @ ?H) ?u1 else Some (?u1, ''//'' @ au @ ?H)) = Some (u2, s2)"
    and u2: "u2 = ?u1\<lparr>mUserName := n, mPwd := p\<rparr>" and s2: "s2 \<noteq> []" "\<exists>sl. s2 = sl @ ?H \<and> sl \<in> {[], ''//''}"
  proof (cases "au = []")
    case True
    then have "find_char (CHR ''@'') ?wk 0 = None" using plp hs qs by (intro find_char_absent) auto
    with True user show ?thesis
      by (intro that [of ?u1 "''//'' @ ?H"]) (simp_all add: int_pos_def url_new_def)
  next
    case False
    then have at: "CHR ''@'' \<in> set au" and su: "split_user (''//'' @ au @ ?H) ?u1 = Some (?u1\<lparr>mUserName := n, mPwd := p\<rparr>, ?H)"
      using user by simp_all
    obtain a1 a2 where a: "au = a1 @ CHR ''@'' # a2" "CHR ''@'' \<notin> set a1" using split_list_first [OF at] by blast
    have "CHR ''@'' \<notin> set (mProtocol u @ ''://'' @ a1)" using plp a by simp
    from find_char_append [OF this, of "a2 @ ?H @ q"] have "find_char (CHR ''@'') ?wk 0 = Some (length (mProtocol u) + (3 + length a1))"
      by (simp add: a(1))
    with su show ?thesis by (intro that [of "?u1\<lparr>mUserName := n, mPwd := p\<rparr>" ?H]) (simp_all add: int_pos_def host_text_def)
  qed
  have h: "split_host s2 u2 = u2\<lparr>mHost := mHost u, mPort := mPort u, mPath := mPath u\<rparr>" using s2(2) sh by blast
  let ?u4 = "?u3 (CHR ''/'' # b @ q) t"
  have u4: "(split_host s2 u2)\<lparr>mHost := map to_lower (mHost (split_host s2 u2)), mContent := t\<rparr> = ?u4"
    unfolding h using low by (cases u) (simp add: u2 url_new_def)
  have "URLStr_parse (Some ?wk) ?u0 = Inr (default_port (u\<lparr>mUserName := n, mPwd := p, mPathAndParam := CHR ''/'' # b @ q, mContent := t\<rparr>), True)"
    unfolding URLStr_parse_def option.case wk Let_def sp prod.case us if_not_P [OF ne] if_P [OF s2(1)] u4 vars [unfolded tt] by simp
  moreover have "default_port (u\<lparr>mUserName := n, mPwd := p, mPathAndParam := CHR ''/'' # b @ q, mContent := t\<rparr>) =
      u\<lparr>mUserName := n, mPwd := p, mPathAndParam := CHR ''/'' # b @ q, mContent := t\<rparr>"
    using port by (simp add: default_port_def)
  ultimately show ?thesis by auto
qed

definition user_protocols :: "string set" where
  "user_protocols = {''ftp'', ''http'', ''https'', ''cifs'', ''file''}"

lemma generate_text:
  assumes "url_wf u" and "generate_vars True (mVars u) = Some t"
  shows "URLStr_generate u =
     Some (mProtocol u @ ''://'' @
       (if mUserName u \<noteq> [] \<and> mProtocol u \<in> user_protocols
        then mUserName u @ (if mPwd u \<noteq> [] then '':'' @ mPwd u else []) @ ''@'' else []) @
       host_text u @ (if mVars u \<noteq> [] then CHR ''?'' # t else []))"
proof -
  have "itoa (mPort u) = nat_dec (nat (mPort u))" using assms(1) by (simp add: itoa_def url_wf_def)
  moreover have "t = []" if "mVars u = []" using assms(2) that by simp
  ultimately show ?thesis using assms(2) by (simp add: URLStr_generate_def host_text_def user_protocols_def Let_def)
qed

lemma url_wf_vars: "url_wf u \<Longrightarrow> \<exists>t. generate_vars True (mVars u) = Some t"
  using parse_generated_vars [of "mVars u" "u\<lparr>mVars := []\<rparr>"] by (auto simp: url_wf_def list_all_iff)


definition demo_url :: urlstr where
  "demo_url = \<lparr>mVars = [(''a'', ''x=1&y''), (''b'', ''p@q'')], mProtocol = ''http'', mHost = ''host'', mPath = ''dir/file'',
     mPathAndParam = [], mContent = [], mUserName = ''joe'', mPwd = ''secret'', mPort = 88, bCaseSensitiveVars = True\<rparr>"


text \<open>
  Without a password the round trip fails: \<open>parse\<close> looks for the first colon, which is then the one before the
  port, and takes everything up to it for the user. The user name that comes back is the user, the at sign and the
  host, for every well-formed URL with a user and no password.
\<close>

theorem user_without_password_misread:
  assumes "url_wf u" and "mUserName u \<noteq> []" and "mPwd u = []" and "mProtocol u \<in> user_protocols"
  shows "\<exists>g w. URLStr_generate u = Some g \<and> URLStr_parse (Some g) (url_new (bCaseSensitiveVars u)) = Inr (w, True) \<and>
     mUserName w = mUserName u @ ''@'' @ mHost u \<and> mHost w = mHost u"
proof -
  obtain t where t: "generate_vars True (mVars u) = Some t" using url_wf_vars [OF assms(1)] by blast
  note pl = url_wf_def [THEN iffD1, OF assms(1)]
  let ?au = "mUserName u @ ''@''"
  have au: "set ?au \<inter> {CHR ''?'', CHR ''/'', CHR 0x00} = {}" using plainD [of "mUserName u"] pl by auto
  have "if ?au = [] then mUserName u @ ''@'' @ mHost u = [] \<and> [] = [] else CHR ''@'' \<in> set ?au \<and>
       (\<forall>x. split_user (''//'' @ ?au @ host_text u) x = Some (x\<lparr>mUserName := mUserName u @ ''@'' @ mHost u, mPwd := []\<rparr>, host_text u))"
    using assms(2) split_user_no_password [of "mUserName u" "mHost u" "nat_dec (nat (mPort u)) @ CHR ''/'' # mPath u"] pl
    by (simp add: host_text_def)
  from parse_text [OF assms(1) refl t au this] obtain a c where
    p: "URLStr_parse (Some (mProtocol u @ ''://'' @ ?au @ host_text u @ (if mVars u \<noteq> [] then CHR ''?'' # t else [])))
        (url_new (bCaseSensitiveVars u)) =
       Inr (u\<lparr>mUserName := mUserName u @ ''@'' @ mHost u, mPwd := [], mPathAndParam := a, mContent := c\<rparr>, True)"
    by blast
  have "URLStr_generate u = Some (mProtocol u @ ''://'' @ ?au @ host_text u @ (if mVars u \<noteq> [] then CHR ''?'' # t else []))"
    using generate_text [OF assms(1) t] assms(2-4) by simp
  moreover obtain w where "w = u\<lparr>mUserName := mUserName u @ ''@'' @ mHost u, mPwd := [], mPathAndParam := a, mContent := c\<rparr>"
    by blast
  then have "mUserName w = mUserName u @ ''@'' @ mHost u \<and> mHost w = mHost u"
    and "URLStr_parse (Some (mProtocol u @ ''://'' @ ?au @ host_text u @ (if mVars u \<noteq> [] then CHR ''?'' # t else [])))
        (url_new (bCaseSensitiveVars u)) = Inr (w, True)" using p by simp_all
  ultimately show ?thesis by blast
qed

lemma user_without_password_misread_witness:
  "\<exists>w. URLStr_parse (Some ''ftp://joe@host:21/'') (url_new True) = Inr (w, True) \<and> mUserName w = ''joe@host''"
proof -
  let ?u = "demo_url\<lparr>mPwd := [], mProtocol := ''ftp'', mPort := 21, mVars := [], mPath := []\<rparr>"
  have wf: "url_wf ?u" by code_simp
  have u: "mUserName ?u \<noteq> []" "mPwd ?u = []" "mProtocol ?u \<in> user_protocols"
    and f: "mHost ?u = ''host''" "mUserName ?u = ''joe''" "bCaseSensitiveVars ?u = True"
    by (simp_all add: demo_url_def user_protocols_def)
  have gen: "URLStr_generate ?u = Some ''ftp://joe@host:21/''" by code_simp
  obtain g w where g: "URLStr_generate ?u = Some g"
    and w: "URLStr_parse (Some g) (url_new (bCaseSensitiveVars ?u)) = Inr (w, True)"
      "mUserName w = mUserName ?u @ ''@'' @ mHost ?u"
    using user_without_password_misread [OF wf u] by blast
  have "g = ''ftp://joe@host:21/''" using g unfolding gen by (rule option.inject [THEN iffD1, symmetric])
  from w [unfolded this f] show ?thesis by (intro exI [of _ w] conjI) simp_all
qed

end
