(* ===== verification/Base64.thy ===== *)
theory Base64
  imports Byte_Codec
begin

text \<open>
  The base64 codec of URLString.cpp. The bit buffers stay below \<open>2 ^ 25\<close>, so that 32 bits are enough and the
  model computes in \<open>nat\<close>: shifts are multiplications and divisions by powers of two.
\<close>

subsection \<open>Encoding\<close>

definition alphabet :: string where
  "alphabet = ''ABCDEFGHIJKLMNOPQRSTUVWXYZabcdefghijklmnopqrstuvwxyz0123456789+/''"

definition sextet :: "nat \<Rightarrow> nat \<Rightarrow> char" where
  "sextet bits k = alphabet ! (bits div 2 ^ k mod 64)"

text \<open>Source bytes and the room left in the destination; the result is the C string written.\<close>

fun b64_loop :: "string \<Rightarrow> nat \<Rightarrow> string" where
  "b64_loop (a # b # c # s) d =
     (if d > 4
      then (let bits = byte a * 2 ^ 16 + byte b * 2 ^ 8 + byte c
            in [sextet bits 18, sextet bits 12, sextet bits 6, sextet bits 0] @ b64_loop s (d - 4))
      else [])"
| "b64_loop [a, b] d =
     (if d > 4
      then (let bits = byte a * 2 ^ 16 + byte b * 2 ^ 8
            in [sextet bits 18, sextet bits 12, sextet bits 6, CHR ''=''])
      else [])"
| "b64_loop [a] d =
     (if d > 4 then (let bits = byte a * 2 ^ 16 in [sextet bits 18, sextet bits 12, CHR ''='', CHR ''='']) else [])"
| "b64_loop [] d = []"

text \<open>With no room at all nothing is written, not even the terminator (\<open>None\<close>).\<close>

definition b64Encode :: "string \<Rightarrow> nat \<Rightarrow> string option" where
  "b64Encode src dstsize = (if dstsize = 0 then None else Some (b64_loop src dstsize))"

definition b64EncodeStr :: "string \<Rightarrow> string" where
  "b64EncodeStr src = (case b64Encode src ((length src + 2) div 3 * 4 + 1) of None \<Rightarrow> [] | Some t \<Rightarrow> c_str t)"

subsection \<open>Decoding\<close>

text \<open>The table \<open>decoder\<close>.\<close>

definition decoder :: "char \<Rightarrow> nat" where
  "decoder c = (case List.find (\<lambda>i. alphabet ! i = c) [0..<64] of None \<Rightarrow> 64 | Some i \<Rightarrow> i)"

definition uchar :: "nat \<Rightarrow> char" where
  "uchar n = char_of n"

fun b64_dec :: "string \<Rightarrow> nat \<Rightarrow> nat \<Rightarrow> string" where
  "b64_dec [] bits d = []"
| "b64_dec (c # s) bits d =
     (if c = CHR ''='' then
        (if bit bits 18 then (if d < 2 then [] else [uchar (bits div 2 ^ 10), uchar (bits div 2 ^ 2)])
         else if bit bits 12 \<and> d > 0 then [uchar (bits div 2 ^ 4)]
         else [])
      else if decoder c = 64 then b64_dec s bits d
      else (let bits' = bits * 2 ^ 6 + decoder c
            in if bit bits' 24
               then (if d < 3 then []
                     else [uchar (bits' div 2 ^ 16), uchar (bits' div 2 ^ 8), uchar bits'] @ b64_dec s 1 (d - 3))
               else b64_dec s bits' d))"

definition b64Decode :: "string \<Rightarrow> nat \<Rightarrow> string" where
  "b64Decode src dstsize = b64_dec (c_str src) 1 dstsize"

text \<open>The overload on \<open>std::string\<close> builds its result from the C string in the buffer.\<close>

definition b64DecodeStr :: "string \<Rightarrow> string" where
  "b64DecodeStr src = c_str (b64Decode src (length src div 4 * 3))"

subsection \<open>Round trip\<close>

definition alphabet_ok :: "nat \<Rightarrow> bool" where
  "alphabet_ok i \<longleftrightarrow> decoder (alphabet ! i) = i \<and> alphabet ! i \<noteq> CHR ''='' \<and> alphabet ! i \<noteq> CHR 0x00"

lemma alphabet_index:
  assumes "i < 64"
  shows "decoder (alphabet ! i) = i \<and> alphabet ! i \<noteq> CHR ''='' \<and> alphabet ! i \<noteq> CHR 0x00"
proof -
  have "list_all alphabet_ok [0..<64]" by code_simp
  moreover have "i \<in> set [0..<64]" unfolding set_upt using assms by simp
  ultimately show ?thesis unfolding list_all_iff alphabet_ok_def by blast
qed

lemma sextet_char: "sextet bits k \<noteq> CHR ''=''" "sextet bits k \<noteq> CHR 0x00" "decoder (sextet bits k) = bits div 2 ^ k mod 64"
  using alphabet_index [of "bits div 2 ^ k mod 64"] by (simp_all add: sextet_def)

lemma bit_high: "bit (2 ^ k + n) k" if "n < 2 ^ k" for n k :: nat
  using that by (simp add: bit_iff_odd div_add_self1)

lemma bit_low: "\<not> bit n k" if "n < 2 ^ k" for n k :: nat
  using that by (simp add: bit_iff_odd)

lemma uchar_byte: "uchar (256 * n + byte c) = c"
proof -
  have "(256 * n + byte c) mod 256 = byte c" by simp
  then have "char_of (256 * n + byte c) = (char_of (byte c) :: char)" by (metis char_of_mod_256)
  then show ?thesis by (simp add: uchar_def)
qed

lemma b64_dec_sextet:
  "b64_dec (sextet bits k # s) acc d =
     (let bits' = acc * 2 ^ 6 + bits div 2 ^ k mod 64
      in if bit bits' 24
         then (if d < 3 then [] else [uchar (bits' div 2 ^ 16), uchar (bits' div 2 ^ 8), uchar bits'] @ b64_dec s 1 (d - 3))
         else b64_dec s bits' d)"
  using sextet_char [of bits k] less_imp_neq [OF mod_less_divisor, of 64 "bits div 2 ^ k"] by simp

text \<open>After the sextets down to bit \<open>k\<close> the decoder holds a leading one and the bits above \<open>k\<close>.\<close>

lemma next_acc:
  fixes x :: nat
  shows "(2 ^ m + x div 2 ^ (k + 6)) * 2 ^ 6 + x div 2 ^ k mod 64 = 2 ^ (m + 6) + x div 2 ^ k"
proof -
  have "x div 2 ^ (k + 6) = x div 2 ^ k div 64" by (simp add: div_mult2_eq power_add)
  then have "(2 ^ m + x div 2 ^ (k + 6)) * 64 + x div 2 ^ k mod 64 = 2 ^ m * 64 + (x div 2 ^ k div 64 * 64 + x div 2 ^ k mod 64)"
    by (simp add: algebra_simps)
  also have "\<dots> = 2 ^ m * 64 + x div 2 ^ k" by (simp only: div_mult_mod_eq)
  finally show ?thesis by (simp add: power_add)
qed

lemma accs:
  fixes x :: nat
  assumes "x < 2 ^ 24"
  shows "1 * 2 ^ 6 + x div 2 ^ 18 mod 64 = 2 ^ 6 + x div 2 ^ 18"
    and "(2 ^ 6 + x div 2 ^ 18) * 2 ^ 6 + x div 2 ^ 12 mod 64 = 2 ^ 12 + x div 2 ^ 12"
    and "(2 ^ 12 + x div 2 ^ 12) * 2 ^ 6 + x div 2 ^ 6 mod 64 = 2 ^ 18 + x div 2 ^ 6"
    and "(2 ^ 18 + x div 2 ^ 6) * 2 ^ 6 + x div 2 ^ 0 mod 64 = 2 ^ 24 + x"
proof -
  have "x div 2 ^ 24 = 0" using assms by (rule div_less)
  then show "1 * 2 ^ 6 + x div 2 ^ 18 mod 64 = 2 ^ 6 + x div 2 ^ 18" using next_acc [of 0 x 18] by simp
  show "(2 ^ 6 + x div 2 ^ 18) * 2 ^ 6 + x div 2 ^ 12 mod 64 = 2 ^ 12 + x div 2 ^ 12"
    using next_acc [of 6 x 12] by simp
  show "(2 ^ 12 + x div 2 ^ 12) * 2 ^ 6 + x div 2 ^ 6 mod 64 = 2 ^ 18 + x div 2 ^ 6"
    using next_acc [of 12 x 6] by simp
  show "(2 ^ 18 + x div 2 ^ 6) * 2 ^ 6 + x div 2 ^ 0 mod 64 = 2 ^ 24 + x"
    using next_acc [of 18 x 0] by simp
qed

lemma accs_bits:
  fixes x :: nat
  assumes "x < 2 ^ 24"
  shows "\<not> bit (2 ^ 6 + x div 2 ^ 18) 24" and "\<not> bit (2 ^ 12 + x div 2 ^ 12) 24" and "\<not> bit (2 ^ 18 + x div 2 ^ 6) 24"
    and "bit (2 ^ 24 + x) 24" and "bit (2 ^ 18 + x div 2 ^ 6) 18" and "\<not> bit (2 ^ 12 + x div 2 ^ 12) 18"
    and "bit (2 ^ 12 + x div 2 ^ 12) 12"
proof -
  have d: "x div 2 ^ 18 < 2 ^ 6" "x div 2 ^ 12 < 2 ^ 12" "x div 2 ^ 6 < 2 ^ 18"
    using assms by (simp_all add: less_mult_imp_div_less)
  show "\<not> bit (2 ^ 6 + x div 2 ^ 18) 24" "\<not> bit (2 ^ 12 + x div 2 ^ 12) 24" "\<not> bit (2 ^ 18 + x div 2 ^ 6) 24"
    "\<not> bit (2 ^ 12 + x div 2 ^ 12) 18"
    by (rule bit_low, use d in simp)+
  show "bit (2 ^ 24 + x) 24" by (rule bit_high [OF assms])
  show "bit (2 ^ 18 + x div 2 ^ 6) 18" by (rule bit_high [OF d(3)])
  show "bit (2 ^ 12 + x div 2 ^ 12) 12" by (rule bit_high [OF d(2)])
qed

lemma bytes_of:
  fixes a b c :: char
  defines "x \<equiv> byte a * 2 ^ 16 + byte b * 2 ^ 8 + byte c"
  shows "x < 2 ^ 24" and "uchar ((2 ^ 24 + x) div 2 ^ 16) = a" and "uchar ((2 ^ 24 + x) div 2 ^ 8) = b" and "uchar (2 ^ 24 + x) = c"
    and "uchar ((2 ^ 18 + x div 2 ^ 6) div 2 ^ 10) = a" and "uchar ((2 ^ 18 + x div 2 ^ 6) div 2 ^ 2) = b"
    and "uchar ((2 ^ 12 + x div 2 ^ 12) div 2 ^ 4) = a"
proof -
  have lt: "byte a < 256" "byte b < 256" "byte c < 256" by simp_all
  have "byte a * 65536 + byte b * 256 + byte c < 16777216" using lt by linarith
  then show "x < 2 ^ 24" by (simp add: x_def)
  have div: "(r + n * q) div n = q" if "r < n" for r n q :: nat using that by simp
  have "byte b * 256 + byte c < 65536" using lt by linarith
  from div [OF this] have a: "x div 2 ^ 16 = byte a" by (simp add: x_def algebra_simps)
  from div [OF lt(3), of "256 * byte a + byte b"] have b: "x div 2 ^ 8 = 256 * byte a + byte b" by (simp add: x_def algebra_simps)
  have "x = 256 * (256 * byte a + byte b) + byte c" by (simp add: x_def)
  then have "2 ^ 24 + x = 256 * (256 * (256 + byte a) + byte b) + byte c" by simp
  then show "uchar (2 ^ 24 + x) = c" by (simp only: uchar_byte)
  have "(2 ^ 24 + x) div 2 ^ 16 = 256 * 1 + byte a" "(2 ^ 24 + x) div 2 ^ 8 = 256 * (256 + byte a) + byte b"
    using a b by simp_all
  then show "uchar ((2 ^ 24 + x) div 2 ^ 16) = a" "uchar ((2 ^ 24 + x) div 2 ^ 8) = b" by (simp_all only: uchar_byte)
  have "x div 2 ^ 6 div 2 ^ 10 = byte a" "x div 2 ^ 6 div 2 ^ 2 = 256 * byte a + byte b" "x div 2 ^ 12 div 2 ^ 4 = byte a"
    using a b by (simp_all only: div_mult2_eq [symmetric] power_add [symmetric]) simp_all
  then have "(2 ^ 18 + x div 2 ^ 6) div 2 ^ 10 = 256 * 1 + byte a" "(2 ^ 18 + x div 2 ^ 6) div 2 ^ 2 = 256 * (256 + byte a) + byte b"
    "(2 ^ 12 + x div 2 ^ 12) div 2 ^ 4 = 256 * 1 + byte a" by simp_all
  then show "uchar ((2 ^ 18 + x div 2 ^ 6) div 2 ^ 10) = a" "uchar ((2 ^ 18 + x div 2 ^ 6) div 2 ^ 2) = b"
    "uchar ((2 ^ 12 + x div 2 ^ 12) div 2 ^ 4) = a" by (simp_all only: uchar_byte)
qed

lemma b64_dec_eq:
  "b64_dec (CHR ''='' # s) acc d =
     (if bit acc 18 then (if d < 2 then [] else [uchar (acc div 2 ^ 10), uchar (acc div 2 ^ 2)])
      else if bit acc 12 \<and> d > 0 then [uchar (acc div 2 ^ 4)] else [])"
  by simp

lemma dec_group:
  fixes a b c :: char
  defines "x \<equiv> byte a * 2 ^ 16 + byte b * 2 ^ 8 + byte c"
  shows "d \<ge> 3 \<Longrightarrow> b64_dec ([sextet x 18, sextet x 12, sextet x 6, sextet x 0] @ s) 1 d = [a, b, c] @ b64_dec s 1 (d - 3)"
    and "d \<ge> 2 \<Longrightarrow> b64_dec [sextet x 18, sextet x 12, sextet x 6, CHR ''=''] 1 d = [a, b]"
    and "d \<ge> 1 \<Longrightarrow> b64_dec [sextet x 18, sextet x 12, CHR ''='', CHR ''=''] 1 d = [a]"
proof -
  note lt = bytes_of(1) [where a = a and b = b and c = c, folded x_def]
  note bs = bytes_of(2-7) [where a = a and b = b and c = c, folded x_def]
  note ac = accs [OF lt] and bt = accs_bits [OF lt]
  show "d \<ge> 3 \<Longrightarrow> b64_dec ([sextet x 18, sextet x 12, sextet x 6, sextet x 0] @ s) 1 d = [a, b, c] @ b64_dec s 1 (d - 3)"
    by (simp only: append_Cons append_Nil b64_dec_sextet Let_def ac bt if_True if_False bs not_less [symmetric])
  show "d \<ge> 2 \<Longrightarrow> b64_dec [sextet x 18, sextet x 12, sextet x 6, CHR ''=''] 1 d = [a, b]"
    by (simp only: b64_dec_sextet b64_dec_eq Let_def ac bt if_True if_False bs not_less [symmetric])
  show "d \<ge> 1 \<Longrightarrow> b64_dec [sextet x 18, sextet x 12, CHR ''='', CHR ''=''] 1 d = [a]"
    by (simp only: b64_dec_sextet b64_dec_eq Let_def ac bt if_True if_False bs simp_thms) simp
qed

lemma b64_loop_props:
  assumes "(length s + 2) div 3 * 4 < d" and "length s \<le> k"
  shows "b64_dec (b64_loop s d) 1 k = s \<and> length (b64_loop s d) = (length s + 2) div 3 * 4 \<and> CHR 0x00 \<notin> set (b64_loop s d)"
  using assms
proof (induction s d arbitrary: k rule: b64_loop.induct)
  case (1 a b c s d)
  have len: "(length (a # b # c # s) + 2) div 3 = Suc ((length s + 2) div 3)" by simp
  have d: "d > 4" "(length s + 2) div 3 * 4 < d - 4" "length s \<le> k - 3" "k \<ge> 3"
  proof -
    from len "1.prems" show "d > 4" "(length s + 2) div 3 * 4 < d - 4" "length s \<le> k - 3" "k \<ge> 3" by auto
  qed
  have l: "b64_loop (a # b # c # s) d =
      [sextet (byte a * 2 ^ 16 + byte b * 2 ^ 8 + byte c) 18, sextet (byte a * 2 ^ 16 + byte b * 2 ^ 8 + byte c) 12,
       sextet (byte a * 2 ^ 16 + byte b * 2 ^ 8 + byte c) 6, sextet (byte a * 2 ^ 16 + byte b * 2 ^ 8 + byte c) 0] @ b64_loop s (d - 4)"
    using d(1) by (simp only: b64_loop.simps if_True Let_def)
  have "b64_dec (b64_loop (a # b # c # s) d) 1 k = a # b # c # s"
    unfolding l dec_group(1) [OF d(4)] using "1.IH" [OF d(1) refl d(2,3)] by simp
  moreover have "length (b64_loop (a # b # c # s) d) = (length (a # b # c # s) + 2) div 3 * 4"
    unfolding l len using "1.IH" [OF d(1) refl d(2,3)] by simp
  moreover have "CHR 0x00 \<notin> set (b64_loop (a # b # c # s) d)"
    unfolding l using "1.IH" [OF d(1) refl d(2,3)] sextet_char(2) by simp metis
  ultimately show ?case by blast
next
  case (2 a b d)
  then have d: "d > 4" "k \<ge> 2" by simp_all
  have l: "b64_loop [a, b] d =
      [sextet (byte a * 2 ^ 16 + byte b * 2 ^ 8 + byte (CHR 0x00)) 18, sextet (byte a * 2 ^ 16 + byte b * 2 ^ 8 + byte (CHR 0x00)) 12,
       sextet (byte a * 2 ^ 16 + byte b * 2 ^ 8 + byte (CHR 0x00)) 6, CHR ''='']"
    using d(1) by (simp add: Let_def)
  show ?case
    unfolding l dec_group(2) [OF d(2)] using sextet_char(2) by simp metis
next
  case (3 a d)
  then have d: "d > 4" "k \<ge> 1" by simp_all
  have l: "b64_loop [a] d =
      [sextet (byte a * 2 ^ 16 + byte (CHR 0x00) * 2 ^ 8 + byte (CHR 0x00)) 18,
       sextet (byte a * 2 ^ 16 + byte (CHR 0x00) * 2 ^ 8 + byte (CHR 0x00)) 12, CHR ''='', CHR ''='']"
    using d(1) by (simp add: Let_def)
  show ?case
    unfolding l dec_group(3) [OF d(2)] using sextet_char(2) by simp metis
qed simp

text \<open>
  Base64 is a round trip on all byte strings, NULs included: with the documented sizes of the destinations the
  encoder writes exactly four characters for each started group of three bytes and the decoder gives the bytes back.
  The overloads on \<open>std::string\<close> choose the sizes right, but build their result from a C string, so they
  give back only the part before the first NUL.
\<close>

theorem base64_roundtrip:
  assumes "(length s + 2) div 3 * 4 + 1 \<le> dstsize" and "length s \<le> cap"
  shows "(\<exists>t. b64Encode s dstsize = Some t \<and> length t = (length s + 2) div 3 * 4 \<and> b64Decode t cap = s) \<and>
     b64DecodeStr (b64EncodeStr s) = c_str s"
proof -
  have d: "(length s + 2) div 3 * 4 < dstsize" using assms(1) by simp
  note p = b64_loop_props [OF d assms(2)]
  have "(length s + 2) div 3 * 4 < (length s + 2) div 3 * 4 + 1" by simp
  from b64_loop_props [OF this, of "(length s + 2) div 3 * 4 div 4 * 3"]
  have q: "b64_dec (b64_loop s ((length s + 2) div 3 * 4 + 1)) 1 ((length s + 2) div 3 * 4 div 4 * 3) = s"
    "length (b64_loop s ((length s + 2) div 3 * 4 + 1)) = (length s + 2) div 3 * 4"
    "CHR 0x00 \<notin> set (b64_loop s ((length s + 2) div 3 * 4 + 1))" by auto
  have e: "b64EncodeStr s = b64_loop s ((length s + 2) div 3 * 4 + 1)"
    using q(3) by (simp only: b64EncodeStr_def b64Encode_def option.case c_str_no_nul add_is_0 one_neq_zero simp_thms if_False)
  have "b64DecodeStr (b64EncodeStr s) = c_str s"
    unfolding b64DecodeStr_def b64Decode_def e q(2) c_str_no_nul [OF q(3)] q(1) by (rule refl)
  moreover have "b64Encode s dstsize = Some (b64_loop s dstsize)" using d by (simp add: b64Encode_def)
  moreover have "b64Decode (b64_loop s dstsize) cap = s" using p by (simp add: b64Decode_def c_str_no_nul)
  ultimately show ?thesis using p by blast
qed

lemma base64_roundtrip_witness:
  "b64Encode ''Man!'' 9 = Some ''TWFuIQ=='' \<and> b64Decode ''TWFuIQ=='' 4 = ''Man!''"
proof -
  have "b64Encode ''Man!'' 9 = Some ''TWFuIQ==''" by (simp add: b64Encode_def sextet_def alphabet_def Let_def)
  with base64_roundtrip [of "''Man!''" 9 4] show ?thesis by simp
qed

end
