(* ===== verification/Guid.thy ===== *)
theory Guid
  imports Byte_Codec
begin

text \<open>
  Guid.cpp (the Linux variant): the two representations of a UUID and the compact id strings. The functions
  of libuuid are parameters.
\<close>

subsection \<open>Representations\<close>

record guid =
  Data1 :: uint32
  Data2 :: uint16
  Data3 :: uint16
  Data4 :: "uint8 list"
  uuid :: "uint8 list"

text \<open>\<open>uuid_parse\<close> (\<open>None\<close>: it fails and leaves its output alone), \<open>uuid_generate\<close>, \<open>uuid_compare\<close>, \<open>uuid_unparse\<close>.\<close>

record uuid_lib =
  uuid_parse :: "string \<Rightarrow> uint8 list option"
  uuid_generate :: "uint8 list"
  uuid_compare :: "uint8 list \<Rightarrow> uint8 list \<Rightarrow> int"
  uuid_unparse :: "uint8 list \<Rightarrow> string"

definition uuid_zero :: "uint8 list" where
  "uuid_zero = replicate 16 0"

text \<open>The value of bytes in memory order on a little-endian machine, and the bytes of a value.\<close>

fun le_value :: "uint8 list \<Rightarrow> nat" where
  "le_value [] = 0"
| "le_value (b # bs) = unat b + 256 * le_value bs"

fun le_bytes :: "nat \<Rightarrow> nat \<Rightarrow> uint8 list" where
  "le_bytes 0 n = []"
| "le_bytes (Suc k) n = of_nat (n mod 256) # le_bytes k (n div 256)"

text \<open>The loops copy the bytes of the three integers backwards, as a UUID is big-endian.\<close>

definition uuid_to_guid :: "guid \<Rightarrow> guid" where
  "uuid_to_guid g =
     g\<lparr>Data1 := of_nat (le_value (rev (take 4 (uuid g)))),
       Data2 := of_nat (le_value (rev (take 2 (drop 4 (uuid g))))),
       Data3 := of_nat (le_value (rev (take 2 (drop 6 (uuid g))))),
       Data4 := take 8 (drop 8 (uuid g))\<rparr>"

definition guid_to_uuid :: "guid \<Rightarrow> guid" where
  "guid_to_uuid g =
     g\<lparr>uuid := rev (le_bytes 4 (unat (Data1 g))) @ rev (le_bytes 2 (unat (Data2 g))) @ rev (le_bytes 2 (unat (Data3 g))) @ Data4 g\<rparr>"

text \<open>\<open>g\<close> is the memory of the new object.\<close>

definition Guid_string :: "uuid_lib \<Rightarrow> string option \<Rightarrow> guid \<Rightarrow> guid" where
  "Guid_string L arg g =
     (case arg of
        None \<Rightarrow> g\<lparr>uuid := uuid_zero\<rparr>
      | Some s \<Rightarrow>
          (case uuid_parse L (c_str s) of
             Some d \<Rightarrow> uuid_to_guid (g\<lparr>uuid := d\<rparr>)
           | None \<Rightarrow> g\<lparr>uuid := uuid_zero\<rparr>))"

definition Guid_fields :: "uint32 \<Rightarrow> uint16 \<Rightarrow> uint16 \<Rightarrow> uint8 list \<Rightarrow> guid \<Rightarrow> guid" where
  "Guid_fields d1 d2 d3 d4 g = guid_to_uuid (g\<lparr>Data1 := d1, Data2 := d2, Data3 := d3, Data4 := take 8 d4\<rparr>)"

definition Guid_copy :: "guid \<Rightarrow> guid" where
  "Guid_copy rhs = uuid_to_guid rhs"

definition assign_uuid :: "guid \<Rightarrow> guid \<Rightarrow> guid" where
  "assign_uuid src g = uuid_to_guid (g\<lparr>uuid := uuid src\<rparr>)"

definition assign_string :: "uuid_lib \<Rightarrow> string \<Rightarrow> guid \<Rightarrow> guid" where
  "assign_string L s g =
     uuid_to_guid (case uuid_parse L (c_str s) of Some d \<Rightarrow> g\<lparr>uuid := d\<rparr> | None \<Rightarrow> g)"

definition guid_toString :: "uuid_lib \<Rightarrow> guid \<Rightarrow> string" where
  "guid_toString L g = uuid_unparse L (uuid g)"

definition isNil :: "guid \<Rightarrow> bool" where
  "isNil g \<longleftrightarrow> uuid g = uuid_zero"

definition guid_create :: "uuid_lib \<Rightarrow> bool \<Rightarrow> guid \<Rightarrow> guid \<times> bool" where
  "guid_create L nil g =
     (let g' = (if nil then g\<lparr>uuid := uuid_zero\<rparr> else uuid_to_guid (g\<lparr>uuid := uuid_generate L\<rparr>))
      in (g', \<not> nil \<and> \<not> isNil g'))"

definition guid_compare :: "uuid_lib \<Rightarrow> guid \<Rightarrow> guid \<Rightarrow> int" where
  "guid_compare L g rhs = uuid_compare L (uuid g) (uuid rhs)"

definition guid_eq :: "uuid_lib \<Rightarrow> guid \<Rightarrow> guid \<Rightarrow> bool" where
  "guid_eq L g rhs \<longleftrightarrow> guid_compare L g rhs = 0"

definition guid_gt :: "uuid_lib \<Rightarrow> guid \<Rightarrow> guid \<Rightarrow> bool" where
  "guid_gt L g rhs \<longleftrightarrow> guid_compare L g rhs > 0"

definition guid_lt :: "uuid_lib \<Rightarrow> guid \<Rightarrow> guid \<Rightarrow> bool" where
  "guid_lt L g rhs \<longleftrightarrow> guid_compare L g rhs < 0"

definition guid_ne :: "uuid_lib \<Rightarrow> guid \<Rightarrow> guid \<Rightarrow> bool" where
  "guid_ne L g rhs \<longleftrightarrow> \<not> guid_eq L g rhs"

subsection \<open>Compact id strings\<close>

definition idchars :: string where
  "idchars = ''0123456789ABCDEFGHIJKLMNOPQRSTUVWXYZabcdefghijklmnopqrstuvwxyz''"

definition id_base :: "bool \<Rightarrow> nat" where
  "id_base cs = (if cs then 62 else 36)"

text \<open>The digits are written from the end of the buffer while there is room before it.\<close>

fun id_digits :: "nat \<Rightarrow> nat \<Rightarrow> nat \<Rightarrow> string \<Rightarrow> string" where
  "id_digits base 0 n acc = acc"
| "id_digits base (Suc room) n acc = (if n = 0 then acc else id_digits base room (n div base) (idchars ! (n mod base) # acc))"

text \<open>The string left in the buffer; its length is the result. \<open>None\<close> leaves the buffer alone and answers 0.\<close>

definition encodeCompactIdstr :: "uint64 \<Rightarrow> int \<Rightarrow> bool \<Rightarrow> string option" where
  "encodeCompactIdstr i bufSize cs =
     (if bufSize \<le> 0 then None else Some (id_digits (id_base cs) (nat (bufSize - 1)) (unat i) []))"

definition to_upper :: "char \<Rightarrow> char" where
  "to_upper c = (if 97 \<le> byte c \<and> byte c \<le> 122 then char_of (byte c - 32) else c)"

definition id_index :: "nat \<Rightarrow> char \<Rightarrow> nat option" where
  "id_index base c = List.find (\<lambda>i. idchars ! i = c) [0..<base]"

fun decode_id :: "bool \<Rightarrow> uint64 \<Rightarrow> string \<Rightarrow> uint64" where
  "decode_id cs v [] = v"
| "decode_id cs v (c # s) =
     (case id_index (id_base cs) (if cs then c else to_upper c) of
        None \<Rightarrow> v
      | Some i \<Rightarrow> decode_id cs (v * of_nat (id_base cs) + of_nat i) s)"

definition decoderCompactIdstr :: "string \<Rightarrow> bool \<Rightarrow> uint64" where
  "decoderCompactIdstr s cs = decode_id cs 0 (c_str s)"

text \<open>The sixteen bytes in two groups of eight.\<close>

definition toCompactIdstr :: "guid \<Rightarrow> int \<Rightarrow> bool \<Rightarrow> string option" where
  "toCompactIdstr g bufSize cs =
     (case encodeCompactIdstr (of_nat (le_value (take 8 (uuid g)))) bufSize cs of
        None \<Rightarrow> None
      | Some e1 \<Rightarrow>
          map_option (\<lambda>e2. e1 @ e2)
            (encodeCompactIdstr (of_nat (le_value (take 8 (drop 8 (uuid g))))) (bufSize - int (length e1)) cs))"

subsection \<open>The two representations agree\<close>

lemma le_value_bytes: "le_value (le_bytes k n) = n mod 256 ^ k"
proof (induction k arbitrary: n)
  case (Suc k)
  have "le_value (le_bytes (Suc k) n) = n mod 256 + 256 * (n div 256 mod 256 ^ k)"
    by (simp add: Suc.IH unat_of_nat)
  also have "\<dots> = n mod 256 ^ Suc k" by (simp add: mod_mult2_eq)
  finally show ?case .
qed simp

lemma le_value_less: "le_value bs < 256 ^ length bs"
proof (induction bs)
  case (Cons b bs)
  have "unat b < 256" using unsigned_less [of b] by simp
  with Cons show ?case by simp
qed simp

lemma le_bytes_value: "le_bytes (length bs) (le_value bs) = bs"
proof (induction bs)
  case (Cons b bs)
  have "unat b < 256" using unsigned_less [of b] by simp
  with Cons show ?case by simp
qed simp

lemma length_le_bytes [simp]: "length (le_bytes k n) = k"
  by (induction k arbitrary: n) simp_all

definition guid_wf :: "guid \<Rightarrow> bool" where
  "guid_wf g \<longleftrightarrow> length (uuid g) = 16 \<and> length (Data4 g) = 8"

definition guid_ok :: "guid \<Rightarrow> bool" where
  "guid_ok g \<longleftrightarrow> length (uuid g) = 16 \<and> uuid_to_guid g = g"

lemma uuid_to_guid_idem: "uuid_to_guid (uuid_to_guid g) = uuid_to_guid g"
  by (simp add: uuid_to_guid_def)

lemma guid_to_uuid_inverse:
  assumes "length (Data4 g) = 8"
  shows "uuid_to_guid (guid_to_uuid g) = guid_to_uuid g"
proof -
  have "unat (Data1 g) < 2 ^ LENGTH(32)" "unat (Data2 g) < 2 ^ LENGTH(16)" "unat (Data3 g) < 2 ^ LENGTH(16)"
    by (rule unsigned_less)+
  then have "le_value (le_bytes 4 (unat (Data1 g))) = unat (Data1 g)" "le_value (le_bytes 2 (unat (Data2 g))) = unat (Data2 g)"
    "le_value (le_bytes 2 (unat (Data3 g))) = unat (Data3 g)"
    by (simp_all add: le_value_bytes)
  then show ?thesis using assms by (simp add: uuid_to_guid_def guid_to_uuid_def)
qed

lemma uuid_to_guid_inverse:
  assumes "length (uuid g) = 16"
  shows "guid_to_uuid (uuid_to_guid g) = uuid_to_guid g"
proof -
  have val: "le_value (rev (take k l)) < 256 ^ k" if "length (take k l) = k" for k and l :: "uint8 list"
    using le_value_less [of "rev (take k l)"] that by simp
  have bytes: "rev (le_bytes k (le_value (rev (take k l)))) = take k l" if "length (take k l) = k" for k and l :: "uint8 list"
    using le_bytes_value [of "rev (take k l)"] that by simp
  let ?u = "uuid g"
  have len: "length (take 4 ?u) = 4" "length (take 2 (drop 4 ?u)) = 2" "length (take 2 (drop 6 ?u)) = 2"
    using assms by simp_all
  have "unat (Data1 (uuid_to_guid g)) = le_value (rev (take 4 ?u))"
    "unat (Data2 (uuid_to_guid g)) = le_value (rev (take 2 (drop 4 ?u)))"
    "unat (Data3 (uuid_to_guid g)) = le_value (rev (take 2 (drop 6 ?u)))"
    using val [OF len(1)] val [OF len(2)] val [OF len(3)] by (simp_all add: uuid_to_guid_def unat_of_nat)
  moreover have "Data4 (uuid_to_guid g) = take 8 (drop 8 ?u)" "uuid (uuid_to_guid g) = ?u" by (simp_all add: uuid_to_guid_def)
  moreover have "take 4 ?u @ take 2 (drop 4 ?u) @ take 2 (drop 6 ?u) @ take 8 (drop 8 ?u) = ?u"
    using assms append_take_drop_id [of 4 ?u] append_take_drop_id [of 2 "drop 4 ?u"] append_take_drop_id [of 2 "drop 6 ?u"]
    by (simp del: append_take_drop_id)
  ultimately show ?thesis
    by (simp only: guid_to_uuid_def bytes [OF len(1)] bytes [OF len(2)] bytes [OF len(3)]) simp
qed

text \<open>
  C15. The two representations of a \<open>Guid\<close> determine each other: the conversions are mutually inverse, and every way
  to make or assign a \<open>Guid\<close> leaves the two in agreement, with two exceptions: a string that does not parse, and
  \<open>create(true)\<close>, clear the bytes and leave the fields of the object as they were.
\<close>

theorem guid_representations_agree:
  assumes "length (uuid g) = 16" and "length (Data4 g) = 8" and "length d4 \<ge> 8" and "length (uuid_generate L) = 16"
    and "\<forall>d. uuid_parse L (c_str s) = Some d \<longrightarrow> length d = 16"
  shows "guid_to_uuid (uuid_to_guid g) = uuid_to_guid g \<and> uuid_to_guid (guid_to_uuid g) = guid_to_uuid g \<and>
     guid_ok (Guid_fields d1 d2 d3 d4 g) \<and> guid_ok (Guid_copy g) \<and> guid_ok (assign_uuid g h) \<and>
     guid_ok (assign_string L s g) \<and> guid_ok (fst (guid_create L False g)) \<and>
     (uuid_parse L (c_str s) \<noteq> None \<longrightarrow> guid_ok (Guid_string L (Some s) g)) \<and>
     Data1 (fst (guid_create L True g)) = Data1 g \<and> isNil (fst (guid_create L True g)) \<and> \<not> snd (guid_create L True g)"
proof -
  have "guid_ok (uuid_to_guid x)" if "length (uuid x) = 16" for x
    using that uuid_to_guid_idem by (simp add: guid_ok_def) (simp add: uuid_to_guid_def)
  note mk = this
  have "guid_ok (Guid_fields d1 d2 d3 d4 g)"
    using assms(3) guid_to_uuid_inverse [of "g\<lparr>Data1 := d1, Data2 := d2, Data3 := d3, Data4 := take 8 d4\<rparr>"]
    by (simp add: guid_ok_def Guid_fields_def) (simp add: guid_to_uuid_def)
  moreover have "guid_ok (assign_string L s g)"
    using assms(1,5) by (auto simp: assign_string_def intro: mk split: option.splits)
  moreover have "uuid_parse L (c_str s) \<noteq> None \<longrightarrow> guid_ok (Guid_string L (Some s) g)"
    using assms(5) mk [of "g\<lparr>uuid := the (uuid_parse L (c_str s))\<rparr>"] by (auto simp: Guid_string_def)
  ultimately show ?thesis
    using assms(1,2,4) mk [of g] mk [of "h\<lparr>uuid := uuid g\<rparr>"] mk [of "g\<lparr>uuid := uuid_generate L\<rparr>"]
    by (simp add: uuid_to_guid_inverse guid_to_uuid_inverse Guid_copy_def assign_uuid_def guid_create_def isNil_def Let_def)
qed

definition lib0 :: uuid_lib where
  "lib0 = \<lparr>uuid_parse = (\<lambda>s. if s = ''one'' then Some (replicate 16 1) else None), uuid_generate = map of_nat [1..<17],
     uuid_compare = (\<lambda>a b. int (le_value a) - int (le_value b)), uuid_unparse = (\<lambda>d. [])\<rparr>"

definition guid0 :: guid where
  "guid0 = \<lparr>Data1 = 7, Data2 = 8, Data3 = 9, Data4 = replicate 8 1, uuid = uuid_zero\<rparr>"

lemma guid_representations_agree_witness:
  "guid_ok (assign_string lib0 ''one'' guid0) \<and> guid_ok (fst (guid_create lib0 False guid0)) \<and>
     Data1 (fst (guid_create lib0 True guid0)) = 7 \<and> isNil (fst (guid_create lib0 True guid0))"
proof -
  have "length (uuid guid0) = 16" "length (Data4 guid0) = 8" "length (replicate 8 (0 :: uint8)) \<ge> 8"
    "length (uuid_generate lib0) = 16" "\<forall>d. uuid_parse lib0 (c_str ''one'') = Some d \<longrightarrow> length d = 16"
    by (simp_all add: guid0_def lib0_def uuid_zero_def c_str_def)
  note r = guid_representations_agree [OF this]
  have "Data1 guid0 = 7" by (simp add: guid0_def)
  with r show ?thesis by simp
qed

subsection \<open>Compact ids\<close>

definition idchars_ok :: "nat \<Rightarrow> bool" where
  "idchars_ok i \<longleftrightarrow> id_index 62 (idchars ! i) = Some i \<and> idchars ! i \<noteq> CHR 0x00 \<and>
     (i < 36 \<longrightarrow> id_index 36 (to_upper (idchars ! i)) = Some i)"

lemma id_index_char:
  assumes "i < id_base cs"
  shows "id_index (id_base cs) (if cs then idchars ! i else to_upper (idchars ! i)) = Some i \<and> idchars ! i \<noteq> CHR 0x00"
proof -
  have "list_all idchars_ok [0..<62]" by code_simp
  moreover have "i \<in> set [0..<62]" unfolding set_upt using assms by (simp add: id_base_def split: if_splits)
  ultimately have "idchars_ok i" unfolding list_all_iff by blast
  with assms show ?thesis by (simp add: idchars_ok_def id_base_def split: if_splits)
qed

lemma decode_digits:
  assumes "n < id_base cs ^ room"
  shows "decode_id cs 0 (id_digits (id_base cs) room n acc) = decode_id cs (of_nat n) acc"
  using assms
proof (induction room arbitrary: n acc)
  case (Suc room)
  show ?case
  proof (cases "n = 0")
    case False
    have b: "id_base cs > 0" by (simp add: id_base_def)
    have "n div id_base cs < id_base cs ^ room" using Suc.prems b by (simp add: less_mult_imp_div_less mult.commute)
    then have "decode_id cs 0 (id_digits (id_base cs) (Suc room) n acc) =
        decode_id cs (of_nat (n div id_base cs)) (idchars ! (n mod id_base cs) # acc)"
      using Suc.IH False by simp
    also have "\<dots> = decode_id cs (of_nat (n div id_base cs) * of_nat (id_base cs) + of_nat (n mod id_base cs)) acc"
      using id_index_char [of "n mod id_base cs" cs] b by simp
    also have "of_nat (n div id_base cs) * of_nat (id_base cs) + of_nat (n mod id_base cs) = (of_nat n :: uint64)"
      by (simp flip: of_nat_mult of_nat_add)
    finally show ?thesis .
  qed simp
qed simp

lemma id_digits_no_nul: "CHR 0x00 \<notin> set acc \<Longrightarrow> CHR 0x00 \<notin> set (id_digits (id_base cs) room n acc)"
proof (induction room arbitrary: n acc)
  case (Suc room)
  have "idchars ! (n mod id_base cs) \<noteq> CHR 0x00"
    using id_index_char [of "n mod id_base cs" cs] by (simp add: id_base_def split: if_splits)
  with Suc show ?case by simp
qed simp

lemma length_id_digits: "length (id_digits base room n acc) \<le> room + length acc"
proof (induction room arbitrary: n acc)
  case (Suc room)
  from Suc.IH [of "n div base" "idchars ! (n mod base) # acc"] show ?case by simp
qed simp

text \<open>
  A buffer of 14 bytes is enough for the compact id of any 64-bit number, in either alphabet (13 digits to the
  base 36, 11 to the base 62), and decoding the id gives the number back. Whatever the buffer, the encoder stays
  inside it.
\<close>

theorem compact_id_roundtrip:
  assumes "0 < bufSize"
  shows "\<exists>s. encodeCompactIdstr i bufSize cs = Some s \<and> int (length s) < bufSize \<and>
     (14 \<le> bufSize \<longrightarrow> decoderCompactIdstr s cs = i)"
proof -
  let ?room = "nat (bufSize - 1)"
  let ?s = "id_digits (id_base cs) ?room (unat i) []"
  have "length ?s \<le> ?room" using length_id_digits [of "id_base cs" ?room "unat i" "[]"] by simp
  then have "int (length ?s) < bufSize" using assms by simp
  moreover have "decoderCompactIdstr ?s cs = i" if "14 \<le> bufSize"
  proof -
    have "unat i < 2 ^ LENGTH(64)" by (rule unsigned_less)
    also have "(2 :: nat) ^ LENGTH(64) \<le> id_base cs ^ 13" by (simp add: id_base_def)
    also have "id_base cs ^ 13 \<le> id_base cs ^ ?room" using that by (intro power_increasing) (simp_all add: id_base_def)
    finally show ?thesis using decode_digits [of "unat i" cs ?room "[]"] id_digits_no_nul [of "[]" cs ?room "unat i"]
      by (simp add: decoderCompactIdstr_def c_str_no_nul)
  qed
  ultimately show ?thesis using assms by (simp add: encodeCompactIdstr_def)
qed

lemma compact_id_roundtrip_witness:
  "\<exists>s. encodeCompactIdstr 12345 20 False = Some s \<and> decoderCompactIdstr s False = 12345"
  using compact_id_roundtrip [of 20 12345 False] by auto

text \<open>
  The compact string of a GUID does not identify it: it joins the ids of the two halves, which have no fixed
  length, and zero has the empty id. For every number, the GUIDs with this number in the one half and zero
  in the other have the same string.
\<close>

theorem compact_guid_not_injective:
  assumes "length a = 8" and "14 \<le> bufSize" and "uuid g = a @ replicate 8 0" and "uuid h = replicate 8 0 @ a"
  shows "toCompactIdstr g bufSize cs = toCompactIdstr h bufSize cs \<and> toCompactIdstr g bufSize cs \<noteq> None \<and>
     (a \<noteq> replicate 8 0 \<longrightarrow> uuid g \<noteq> uuid h)"
proof -
  have z: "le_value (replicate 8 0) = 0" by (simp add: numeral_eq_Suc)
  have e0: "encodeCompactIdstr 0 k cs = Some []" if "k > 0" for k
    using that by (cases "nat (k - 1)") (simp_all add: encodeCompactIdstr_def)
  obtain s where s: "encodeCompactIdstr (of_nat (le_value a)) bufSize cs = Some s" "int (length s) < bufSize"
    using compact_id_roundtrip [of bufSize "of_nat (le_value a)" cs] assms(2) by auto
  have "toCompactIdstr g bufSize cs = Some s" using assms(1,3) s e0 z by (simp add: toCompactIdstr_def)
  moreover have "toCompactIdstr h bufSize cs = Some s" using assms(1,2,4) s e0 z by (simp add: toCompactIdstr_def)
  ultimately show ?thesis using assms by auto
qed

lemma compact_guid_not_injective_witness:
  "\<exists>g h :: guid. toCompactIdstr g 30 True = toCompactIdstr h 30 True \<and> uuid g \<noteq> uuid h"
proof -
  let ?a = "replicate 8 5 :: uint8 list"
  let ?g = "guid0\<lparr>uuid := ?a @ replicate 8 0\<rparr>" and ?h = "guid0\<lparr>uuid := replicate 8 0 @ ?a\<rparr>"
  have "?a \<noteq> replicate 8 0" by simp
  moreover have "toCompactIdstr ?g 30 True = toCompactIdstr ?h 30 True \<and> toCompactIdstr ?g 30 True \<noteq> None \<and>
      (?a \<noteq> replicate 8 0 \<longrightarrow> uuid ?g \<noteq> uuid ?h)"
    by (rule compact_guid_not_injective) simp_all
  ultimately show ?thesis by blast
qed

end
