(* ===== verification/Buffer_Pool.thy ===== *)
theory Buffer_Pool
  imports Std_Map
begin

text \<open>
  \<open>FreeListHeap\<close> and \<open>BufferPool\<close> of BufferPool.cpp on an explicit memory: each chunk has a header word that holds
  the link of the free list while the chunk is free and the signature of the heap while it is in use (a
  \<open>union\<close> in the code). What \<open>::malloc\<close> returns for the size it is asked for is a parameter of each operation.
  Sizes are \<open>size_t\<close>: numbers below \<open>2 ^ 64\<close>, whose sums and differences wrap.
\<close>

subsection \<open>Sizes\<close>

definition size_add :: "nat \<Rightarrow> nat \<Rightarrow> nat" where
  "size_add a b = (a + b) mod 2 ^ 64"

definition size_sub :: "nat \<Rightarrow> nat \<Rightarrow> nat" where
  "size_sub a b = (a + (2 ^ 64 - b)) mod 2 ^ 64"

lemma size_add_fits: "a + b < 2 ^ 64 \<Longrightarrow> size_add a b = a + b"
  by (simp add: size_add_def)

lemma size_sub_fits:
  assumes "b \<le> a" and "a < 2 ^ 64"
  shows "size_sub a b = a - b"
proof -
  have "a + (2 ^ 64 - b) = (a - b) + 2 ^ 64" using assms by simp
  moreover have "a - b < 2 ^ 64" using assms by simp
  ultimately show ?thesis unfolding size_sub_def by (simp only: mod_add_self2 mod_less)
qed

subsection \<open>The free list\<close>

datatype header = Next "nat option" | Sig

type_synonym memory = "(nat \<times> header) list"

record flist =
  hintSize :: nat
  maxLen :: nat
  freeList :: "nat option"
  listLen :: nat

definition header_size :: nat where
  "header_size = 8"

definition flist_new :: "nat \<Rightarrow> nat \<Rightarrow> flist" where
  "flist_new hint mx = \<lparr>hintSize = hint, maxLen = mx, freeList = None, listLen = 0\<rparr>"

definition next_of :: "memory \<Rightarrow> nat \<Rightarrow> nat option" where
  "next_of h obj = (case map_of h obj of Some (Next n) \<Rightarrow> n | _ \<Rightarrow> None)"

text \<open>What the heap asks \<open>::malloc\<close> for: \<open>sizeof(FreeObject) + hintSize_\<close>.\<close>

definition request_size :: "flist \<Rightarrow> nat" where
  "request_size f = size_add header_size (hintSize f)"

type_synonym sys_malloc = "nat \<Rightarrow> nat option"

definition flist_malloc :: "sys_malloc \<Rightarrow> flist \<Rightarrow> memory \<Rightarrow> nat option \<times> flist \<times> memory" where
  "flist_malloc sys f h =
     (case freeList f of
        Some obj \<Rightarrow> (Some (obj + header_size), f\<lparr>freeList := next_of h obj, listLen := size_sub (listLen f) 1\<rparr>, smap_set obj Sig h)
      | None \<Rightarrow>
          (case sys (request_size f) of
             Some obj \<Rightarrow> (Some (obj + header_size), f, smap_set obj Sig h)
           | None \<Rightarrow> (None, f, h)))"

definition flist_free :: "nat option \<Rightarrow> flist \<Rightarrow> memory \<Rightarrow> bool \<times> flist \<times> memory" where
  "flist_free p f h =
     (case p of
        None \<Rightarrow> (False, f, h)
      | Some a \<Rightarrow>
          (let obj = a - header_size
           in if map_of h obj = Some Sig
              then if listLen f < maxLen f
                   then (True, f\<lparr>freeList := Some obj, listLen := size_add (listLen f) 1\<rparr>, smap_set obj (Next (freeList f)) h)
                   else (True, f, smap_erase obj h)
              else (False, f, h)))"

subsection \<open>The pool\<close>

datatype pool_error = noError | notInited | badAlloc | allInUse | badPtr

record bufpool =
  fheap :: "flist option"
  mem :: memory
  allocated :: "(nat \<times> nat) list"
  bufferSize :: nat
  poolSizeMax :: nat
  alignTo :: nat

definition bufpool_new :: bufpool where
  "bufpool_new = \<lparr>fheap = None, mem = [], allocated = [], bufferSize = 0, poolSizeMax = 0, alignTo = 0\<rparr>"

definition initialize :: "nat \<Rightarrow> nat \<Rightarrow> nat \<Rightarrow> nat \<Rightarrow> bufpool \<Rightarrow> bufpool \<times> bool" where
  "initialize bufSize maxBuffers maxFree al s =
     (if bufSize = 0 \<or> maxBuffers = 0 \<or> maxFree > maxBuffers then (s, False)
      else (case fheap s of
              None \<Rightarrow>
                (s\<lparr>alignTo := al, fheap := Some (flist_new (size_add bufSize al) maxFree), bufferSize := size_add bufSize al,
                   poolSizeMax := maxBuffers\<rparr>, True)
            | Some _ \<Rightarrow> (s, False)))"

text \<open>The first loop of \<open>reserve\<close> takes chunks, the second gives them back in the order of their addresses.\<close>

fun take_chunks :: "sys_malloc list \<Rightarrow> flist \<Rightarrow> memory \<Rightarrow> nat list \<times> flist \<times> memory" where
  "take_chunks [] f h = ([], f, h)"
| "take_chunks (sys # rest) f h =
     (let (p, f1, h1) = flist_malloc sys f h; (ps, f2, h2) = take_chunks rest f1 h1
      in (case p of None \<Rightarrow> ps | Some a \<Rightarrow> a # ps, f2, h2))"

fun give_chunks :: "nat list \<Rightarrow> flist \<Rightarrow> memory \<Rightarrow> flist \<times> memory" where
  "give_chunks [] f h = (f, h)"
| "give_chunks (p # ps) f h = (let (ok, f1, h1) = flist_free (Some p) f h in give_chunks ps f1 h1)"

text \<open>\<open>sys i\<close> is what \<open>::malloc\<close> would do in the \<open>i\<close>-th round.\<close>

definition reserve :: "(nat \<Rightarrow> sys_malloc) \<Rightarrow> nat \<Rightarrow> bufpool \<Rightarrow> bufpool \<times> nat" where
  "reserve sys n s =
     (case fheap s of
        None \<Rightarrow> (s, 0)
      | Some f \<Rightarrow>
          (let n1 = min n (maxLen f); n2 = min n1 (size_sub (poolSizeMax s) (length (allocated s)))
           in if n2 > 0 \<and> n2 > listLen f
              then (let (ps, f1, h1) = take_chunks (map sys [0..<n2]) f (mem s);
                        (f2, h2) = give_chunks (sort (remdups ps)) f1 h1
                    in (s\<lparr>fheap := Some f2, mem := h2\<rparr>, listLen f2))
              else (s, listLen f)))"

definition padding :: "nat \<Rightarrow> nat \<Rightarrow> nat" where
  "padding al p = (if al = 0 then 0 else (let d = al - p mod al in if d = al then 0 else d))"

text \<open>The buffer as pointer and length: \<open>ptr = None\<close> is NULL. On \<open>badAlloc\<close> the pointer is left as it was.\<close>

record buffer =
  ptr :: "nat option"
  len :: nat

definition allocate :: "sys_malloc \<Rightarrow> buffer \<Rightarrow> bufpool \<Rightarrow> bufpool \<times> buffer \<times> pool_error" where
  "allocate sys buf s =
     (case fheap s of
        None \<Rightarrow> (s, \<lparr>ptr = None, len = 0\<rparr>, notInited)
      | Some f \<Rightarrow>
          if length (allocated s) \<ge> poolSizeMax s then (s, \<lparr>ptr = None, len = 0\<rparr>, allInUse)
          else (case flist_malloc sys f (mem s) of
                  (Some p, f1, h1) \<Rightarrow>
                    (let b = p + padding (alignTo s) p
                     in (s\<lparr>fheap := Some f1, mem := h1, allocated := smap_set b p (allocated s)\<rparr>,
                         \<lparr>ptr = Some b, len = size_sub (bufferSize s) (alignTo s)\<rparr>, noError))
                | (None, f1, h1) \<Rightarrow> (s\<lparr>fheap := Some f1, mem := h1\<rparr>, buf\<lparr>len := 0\<rparr>, badAlloc)))"

definition release :: "buffer \<Rightarrow> bufpool \<Rightarrow> bufpool \<times> pool_error" where
  "release buf s =
     (case ptr buf of
        None \<Rightarrow> (s, badPtr)
      | Some b \<Rightarrow>
          (case fheap s of
             None \<Rightarrow> (s, notInited)
           | Some f \<Rightarrow>
               (case map_of (allocated s) b of
                  None \<Rightarrow> (s, badPtr)
                | Some p \<Rightarrow>
                    (let (ok, f1, h1) = flist_free (Some p) f (mem s)
                     in if ok then (s\<lparr>fheap := Some f1, mem := h1, allocated := smap_erase b (allocated s)\<rparr>, noError)
                        else (s\<lparr>fheap := Some f1, mem := h1\<rparr>, badPtr)))))"

definition getStatus :: "bufpool \<Rightarrow> nat \<times> nat \<times> nat" where
  "getStatus s = (length (allocated s), (case fheap s of None \<Rightarrow> 0 | Some f \<Rightarrow> listLen f), poolSizeMax s)"

definition listActiveBuffers :: "bufpool \<Rightarrow> nat list" where
  "listActiveBuffers s = map fst (allocated s)"

text \<open>The destructor of the heap walks the free list.\<close>

fun free_all :: "nat \<Rightarrow> nat option \<Rightarrow> memory \<Rightarrow> memory" where
  "free_all 0 p h = h"
| "free_all (Suc n) None h = h"
| "free_all (Suc n) (Some obj) h = free_all n (next_of h obj) (smap_erase obj h)"

definition bufpool_delete :: "bufpool \<Rightarrow> bufpool" where
  "bufpool_delete s =
     (case fheap s of None \<Rightarrow> s | Some f \<Rightarrow> s\<lparr>mem := free_all (listLen f) (freeList f) (mem s), fheap := None\<rparr>)"

definition showError :: "pool_error \<Rightarrow> string" where
  "showError err =
     (case err of
        noError \<Rightarrow> ''No error''
      | notInited \<Rightarrow> ''The pool is not initialized yet''
      | badAlloc \<Rightarrow> ''Insufficient memory''
      | allInUse \<Rightarrow> ''All buffers are in use''
      | badPtr \<Rightarrow> ''The buffer is not allocated from this pool'')"

subsection \<open>The pool in its environment\<close>

text \<open>
  What is assumed of \<open>::malloc\<close>: the chunks it would return now, of the size it is asked for, do not overlap each other or
  a chunk in use.
\<close>

definition chunk :: "bufpool \<Rightarrow> nat" where
  "chunk s = (case fheap s of None \<Rightarrow> 0 | Some f \<Rightarrow> request_size f)"

definition apart :: "nat \<Rightarrow> nat list \<Rightarrow> bool" where
  "apart k xs \<longleftrightarrow> list_all (\<lambda>a. list_all (\<lambda>b. a = b \<or> a + k \<le> b \<or> b + k \<le> a) xs) xs"

definition sys_ok :: "nat option list \<Rightarrow> bufpool \<Rightarrow> bool" where
  "sys_ok sys s \<longleftrightarrow>
     (let os = concat (map (\<lambda>x. case x of None \<Rightarrow> [] | Some a \<Rightarrow> [a]) sys)
      in distinct (map fst (mem s) @ os) \<and> apart (chunk s) (map fst (mem s) @ os))"

datatype buf_op =
  Init nat nat nat nat | Reserve "nat option list" nat | Allocate "nat option" | Release nat

fun buf_step :: "bufpool \<Rightarrow> buf_op \<Rightarrow> bufpool option" where
  "buf_step s (Init b m f a) =
     (if b < 2 ^ 64 \<and> m < 2 ^ 64 \<and> f < 2 ^ 64 \<and> a < 2 ^ 64 then Some (fst (initialize b m f a s)) else None)"
| "buf_step s (Reserve sys n) =
     (if sys_ok sys s \<and> n \<le> length sys then Some (fst (reserve (\<lambda>i _. sys ! i) n s)) else None)"
| "buf_step s (Allocate sys) =
     (if sys_ok [sys] s then Some (fst (allocate (\<lambda>_. sys) \<lparr>ptr = None, len = 0\<rparr> s)) else None)"
| "buf_step s (Release b) = Some (fst (release \<lparr>ptr = Some b, len = 0\<rparr> s))"

end
