(* ===== verification/Buffer_Pool_Props.thy ===== *)
theory Buffer_Pool_Props
  imports Buffer_Pool
begin

text \<open>
  The chunks of the pool are accounted for: each is in the free list or in use by one buffer. The linked list in
  memory is abstracted to the list of its chunks.
\<close>

subsection \<open>The heap\<close>

fun flinks :: "memory \<Rightarrow> nat option \<Rightarrow> nat list \<Rightarrow> bool" where
  "flinks h p [] \<longleftrightarrow> p = None"
| "flinks h p (obj # fs) \<longleftrightarrow> p = Some obj \<and> (\<exists>n. map_of h obj = Some (Next n) \<and> flinks h n fs)"

definition spaced :: "nat \<Rightarrow> nat set \<Rightarrow> bool" where
  "spaced k X \<longleftrightarrow> (\<forall>a \<in> X. \<forall>b \<in> X. a = b \<or> a + k \<le> b \<or> b + k \<le> a)"

text \<open>\<open>U\<close>: the chunks in use; \<open>C\<close>: those the system would return next.\<close>

definition heap_inv :: "nat \<Rightarrow> flist \<Rightarrow> memory \<Rightarrow> nat set \<Rightarrow> nat set \<Rightarrow> bool" where
  "heap_inv k f h U C \<longleftrightarrow>
     (\<exists>fs. flinks h (freeList f) fs \<and> distinct fs \<and> length fs = listLen f \<and> set fs \<inter> U = {} \<and> fst ` set h = set fs \<union> U) \<and>
     listLen f \<le> maxLen f \<and> maxLen f < 2 ^ 64 \<and> (\<forall>obj \<in> U. map_of h obj = Some Sig) \<and> smap_wf h \<and>
     C \<inter> fst ` set h = {} \<and> spaced k (fst ` set h \<union> C)"

lemma flinks_update: "obj \<notin> set fs \<Longrightarrow> flinks (smap_set obj v h) p fs = flinks h p fs"
  by (induction fs arbitrary: p) (auto simp: map_of_smap_set)

lemma flinks_erase: "obj \<notin> set fs \<Longrightarrow> flinks (smap_erase obj h) p fs = flinks h p fs"
  by (induction fs arbitrary: p) (auto simp: map_of_smap_erase)

lemma flinks_Sig: "flinks h p fs \<Longrightarrow> map_of h obj = Some Sig \<Longrightarrow> obj \<notin> set fs"
  by (induction fs arbitrary: p) auto

lemma spaced_mono: "spaced k X \<Longrightarrow> Y \<subseteq> X \<Longrightarrow> spaced k Y"
  unfolding spaced_def by blast

lemma heap_inv_less:
  assumes "heap_inv k f h U C" and "C' \<subseteq> C"
  shows "heap_inv k f h U C'"
proof -
  have "spaced k (fst ` set h \<union> C')" and "C' \<inter> fst ` set h = {}"
    using assms spaced_mono [of k "fst ` set h \<union> C" "fst ` set h \<union> C'"] by (auto simp: heap_inv_def)
  with assms(1) show ?thesis unfolding heap_inv_def by argo
qed

lemma keys_set: "fst ` set (smap_set a v h) = insert a (fst ` set h)"
  by (rule set_keys_smap_set)

lemma keys_erase: "fst ` set (smap_erase a h) = fst ` set h - {a}"
  by (auto simp: smap_erase_def)

lemma heap_inv_malloc:
  assumes inv: "heap_inv k f h U (set_option sys \<union> C)" and disj: "set_option sys \<inter> C = {}"
    and m: "flist_malloc (\<lambda>_. sys) f h = (Some p, f', h')"
  shows "\<exists>obj. p = obj + header_size \<and> obj \<notin> U \<and> heap_inv k f' h' (insert obj U) C \<and> maxLen f' = maxLen f \<and> hintSize f' = hintSize f"
proof -
  obtain fs where fs: "flinks h (freeList f) fs" "distinct fs" "length fs = listLen f" "set fs \<inter> U = {}"
      "fst ` set h = set fs \<union> U"
    and le: "listLen f \<le> maxLen f" "maxLen f < 2 ^ 64" and sig: "\<forall>obj \<in> U. map_of h obj = Some Sig" and wf: "smap_wf h"
    and new: "(set_option sys \<union> C) \<inter> fst ` set h = {}" and sp: "spaced k (fst ` set h \<union> (set_option sys \<union> C))"
    using inv by (auto simp: heap_inv_def)
  show ?thesis
  proof (cases "freeList f")
    case None
    then have "fs = []" using fs(1) by (cases fs) auto
    obtain obj where sys: "sys = Some obj" using m None by (auto simp: flist_malloc_def split: option.splits)
    have r: "p = obj + header_size" "f' = f" "h' = smap_set obj Sig h" using m None sys by (auto simp: flist_malloc_def)
    have "obj \<notin> U" using new fs(5) by (auto simp: sys)
    moreover have "heap_inv k f' h' (insert obj U) C"
      unfolding heap_inv_def r(2,3) keys_set
      using \<open>fs = []\<close> fs None le sig wf new sp disj
      by (auto simp: sys map_of_smap_set smap_wf_set spaced_def)
    ultimately show ?thesis using r by auto
  next
    case (Some obj)
    then obtain fs' where fsc: "fs = obj # fs'" using fs(1) by (cases fs) auto
    then obtain n where n: "map_of h obj = Some (Next n)" "flinks h n fs'" using fs(1) by auto
    have r: "p = obj + header_size" "f' = f\<lparr>freeList := n, listLen := size_sub (listLen f) 1\<rparr>" "h' = smap_set obj Sig h"
      using m Some n(1) by (auto simp: flist_malloc_def next_of_def)
    have one: "size_sub (listLen f) 1 = listLen f - 1" using fs(3) le by (simp add: fsc size_sub_fits)
    have nu: "obj \<notin> U" using fs(4) by (auto simp: fsc)
    have keys: "insert obj (fst ` set h) = set fs' \<union> insert obj U" "insert obj (fst ` set h) = fst ` set h"
      using fs(5) by (auto simp: fsc)
    have "heap_inv k f' h' (insert obj U) C"
      unfolding heap_inv_def r(2,3) keys_set
    proof (intro conjI exI [of _ fs'])
      show "flinks (smap_set obj Sig h) (freeList (f\<lparr>freeList := n, listLen := size_sub (listLen f) 1\<rparr>)) fs'"
        using n(2) fs(2) by (simp add: flinks_update fsc)
      show "spaced k (insert obj (fst ` set h) \<union> C)" unfolding keys(2) using sp by (auto simp: spaced_def)
      show "\<forall>x \<in> insert obj U. map_of (smap_set obj Sig h) x = Some Sig" using sig by (auto simp: map_of_smap_set)
      show "C \<inter> insert obj (fst ` set h) = {}" unfolding keys(2) using new by blast
      show "insert obj (fst ` set h) = set fs' \<union> insert obj U" by (rule keys(1))
    qed (use fs nu le wf one in \<open>auto simp: fsc smap_wf_set\<close>)
    then show ?thesis using r nu by auto
  qed
qed

lemma heap_inv_free:
  assumes inv: "heap_inv k f h U C" and used: "obj \<in> U"
  shows "\<exists>f' h'. flist_free (Some (obj + header_size)) f h = (True, f', h') \<and> heap_inv k f' h' (U - {obj}) C \<and>
     maxLen f' = maxLen f \<and> hintSize f' = hintSize f \<and> listLen f' = min (maxLen f) (listLen f + 1)"
proof -
  obtain fs where fs: "flinks h (freeList f) fs" "distinct fs" "length fs = listLen f" "set fs \<inter> U = {}"
      "fst ` set h = set fs \<union> U"
    and le: "listLen f \<le> maxLen f" "maxLen f < 2 ^ 64" and sig: "\<forall>x \<in> U. map_of h x = Some Sig" and wf: "smap_wf h"
    and new: "C \<inter> fst ` set h = {}" and sp: "spaced k (fst ` set h \<union> C)"
    using inv by (auto simp: heap_inv_def)
  have s: "map_of h obj = Some Sig" using sig used by blast
  have nf: "obj \<notin> set fs" using fs(4) used by blast
  have key: "insert obj (fst ` set h) = fst ` set h" using fs(5) used by blast
  show ?thesis
  proof (cases "listLen f < maxLen f")
    case True
    let ?f = "f\<lparr>freeList := Some obj, listLen := size_add (listLen f) 1\<rparr>" and ?h = "smap_set obj (Next (freeList f)) h"
    have one: "size_add (listLen f) 1 = listLen f + 1" using True le by (simp add: size_add_fits)
    have "heap_inv k ?f ?h (U - {obj}) C"
      unfolding heap_inv_def keys_set key
    proof (intro conjI exI [of _ "obj # fs"])
      show "flinks ?h (freeList ?f) (obj # fs)" using fs(1) nf by (simp add: flinks_update map_of_smap_set)
      show "\<forall>x \<in> U - {obj}. map_of ?h x = Some Sig" using sig by (simp add: map_of_smap_set)
    qed (use fs nf True le wf new sp used one in \<open>auto simp: smap_wf_set\<close>)
    with True s one show ?thesis by (simp add: flist_free_def)
  next
    case False
    let ?h = "smap_erase obj h"
    have "heap_inv k f ?h (U - {obj}) C"
      unfolding heap_inv_def keys_erase
    proof (intro conjI exI [of _ fs])
      show "flinks ?h (freeList f) fs" using fs(1) nf by (simp add: flinks_erase)
      show "\<forall>x \<in> U - {obj}. map_of ?h x = Some Sig" using sig by (simp add: map_of_smap_erase)
      show "spaced k (fst ` set h - {obj} \<union> C)" using sp by (auto simp: spaced_def)
    qed (use fs nf False le wf new in \<open>auto simp: smap_wf_erase\<close>)
    with False le s show ?thesis by (simp add: flist_free_def)
  qed
qed

lemma flist_malloc_None: "flist_malloc (\<lambda>_. sys) f h = (None, f', h') \<Longrightarrow> f' = f \<and> h' = h"
  by (auto simp: flist_malloc_def split: option.splits)

definition cands :: "nat option list \<Rightarrow> nat list" where
  "cands sys = concat (map (\<lambda>x. case x of None \<Rightarrow> [] | Some a \<Rightarrow> [a]) sys)"

lemma cands_Cons: "cands (x # sys) = (case x of None \<Rightarrow> [] | Some a \<Rightarrow> [a]) @ cands sys"
  by (simp add: cands_def)

lemma take_chunks_inv:
  "heap_inv k f h U (set (cands sys)) \<Longrightarrow> distinct (cands sys) \<Longrightarrow> take_chunks (map (\<lambda>x _. x) sys) f h = (ps, f', h') \<Longrightarrow>
     \<exists>os. ps = map (\<lambda>obj. obj + header_size) os \<and> distinct os \<and> set os \<inter> U = {} \<and> heap_inv k f' h' (U \<union> set os) {} \<and>
       maxLen f' = maxLen f \<and> hintSize f' = hintSize f"
proof (induction sys arbitrary: f h U ps f' h')
  case Nil
  then show ?case by (simp add: cands_def)
next
  case (Cons x sys)
  obtain p f1 h1 where m: "flist_malloc (\<lambda>_. x) f h = (p, f1, h1)" using prod_cases3 by blast
  obtain ps2 f2 h2 where t: "take_chunks (map (\<lambda>x _. x) sys) f1 h1 = (ps2, f2, h2)" using prod_cases3 by blast
  have C: "set (cands (x # sys)) = set_option x \<union> set (cands sys)" "set_option x \<inter> set (cands sys) = {}"
    and d: "distinct (cands sys)"
    using Cons.prems(2) by (auto simp: cands_Cons split: option.splits)
  have r: "ps = (case p of None \<Rightarrow> ps2 | Some a \<Rightarrow> a # ps2)" "f' = f2" "h' = h2"
    using Cons.prems(3) m t by simp_all
  show ?case
  proof (cases p)
    case None
    then have "f1 = f" "h1 = h" using m flist_malloc_None by blast+
    moreover have "heap_inv k f h U (set (cands sys))" using heap_inv_less [OF Cons.prems(1)] C(1) by blast
    ultimately show ?thesis using Cons.IH [OF _ d] t None r by simp
  next
    case (Some a)
    have "heap_inv k f h U (set_option x \<union> set (cands sys))" using Cons.prems(1) C(1) by simp
    from heap_inv_malloc [OF this C(2)] m Some obtain obj where obj: "a = obj + header_size" "obj \<notin> U"
        "heap_inv k f1 h1 (insert obj U) (set (cands sys))" "maxLen f1 = maxLen f" "hintSize f1 = hintSize f" by blast
    from Cons.IH [OF obj(3) d t] obtain os where os: "ps2 = map (\<lambda>obj. obj + header_size) os" "distinct os"
        "set os \<inter> insert obj U = {}" "heap_inv k f2 h2 (insert obj U \<union> set os) {}" "maxLen f2 = maxLen f1" "hintSize f2 = hintSize f1"
      by blast
    have "insert obj U \<union> set os = U \<union> set (obj # os)" by auto
    with os obj Some r show ?thesis by (intro exI [of _ "obj # os"]) auto
  qed
qed

lemma give_chunks_inv:
  "heap_inv k f h U C \<Longrightarrow> distinct os \<Longrightarrow> set os \<subseteq> U \<Longrightarrow> give_chunks (map (\<lambda>obj. obj + header_size) os) f h = (f', h') \<Longrightarrow>
     heap_inv k f' h' (U - set os) C \<and> maxLen f' = maxLen f \<and> hintSize f' = hintSize f \<and>
     listLen f' = min (maxLen f) (listLen f + length os)"
proof (induction os arbitrary: f h U)
  case Nil
  then show ?case by (auto simp: heap_inv_def)
next
  case (Cons obj os)
  then have "obj \<in> U" by simp
  from heap_inv_free [OF Cons.prems(1) this] obtain f1 h1 where
    f1: "flist_free (Some (obj + header_size)) f h = (True, f1, h1)" "heap_inv k f1 h1 (U - {obj}) C"
      "maxLen f1 = maxLen f" "hintSize f1 = hintSize f" "listLen f1 = min (maxLen f) (listLen f + 1)" by blast
  have "heap_inv k f' h' (U - {obj} - set os) C \<and> maxLen f' = maxLen f1 \<and> hintSize f' = hintSize f1 \<and>
      listLen f' = min (maxLen f1) (listLen f1 + length os)"
    using Cons.IH [OF f1(2)] Cons.prems(2-4) f1(1) by auto
  moreover have "U - {obj} - set os = U - set (obj # os)" by auto
  ultimately show ?case using f1 by auto
qed

subsection \<open>The pool\<close>

definition used :: "bufpool \<Rightarrow> nat set" where
  "used s = (\<lambda>e. snd e - header_size) ` set (allocated s)"

definition entry_ok :: "nat \<Rightarrow> nat \<times> nat \<Rightarrow> bool" where
  "entry_ok al e \<longleftrightarrow> header_size \<le> snd e \<and> fst e = snd e + padding al (snd e)"

definition buf_inv :: "bufpool \<Rightarrow> bool" where
  "buf_inv s \<longleftrightarrow>
     (case fheap s of
        None \<Rightarrow> mem s = [] \<and> allocated s = []
      | Some f \<Rightarrow>
          heap_inv (chunk s) f (mem s) (used s) {} \<and> hintSize f = bufferSize s \<and> alignTo s < bufferSize s \<and>
          header_size + bufferSize s < 2 ^ 64 \<and> poolSizeMax s < 2 ^ 64) \<and>
     (\<forall>e \<in> set (allocated s). entry_ok (alignTo s) e) \<and> smap_wf (allocated s) \<and> inj_on snd (set (allocated s)) \<and>
     length (allocated s) \<le> poolSizeMax s"

lemma padding_bounds:
  shows "al > 0 \<Longrightarrow> padding al p < al" and "al > 0 \<Longrightarrow> (p + padding al p) mod al = 0" and "padding 0 p = 0"
proof -
  assume a: "al > 0"
  then have "p mod al < al" by simp
  with a show "padding al p < al" by (auto simp: padding_def Let_def)
  show "(p + padding al p) mod al = 0"
  proof (cases "p mod al = 0")
    case False
    then have "padding al p = al - p mod al" using a by (auto simp: padding_def Let_def)
    moreover have "p = p div al * al + p mod al" by simp
    ultimately have "p + padding al p = p div al * al + al" using \<open>p mod al < al\<close> by linarith
    then show ?thesis by simp
  qed (use a in \<open>simp add: padding_def Let_def\<close>)
qed (simp add: padding_def)

text \<open>The buffer lies inside its chunk, so that buffers in different chunks are disjoint.\<close>

lemma buffer_in_chunk:
  assumes "fheap s = Some f" and "hintSize f = bufferSize s" and "alignTo s < bufferSize s"
    and "header_size + bufferSize s < 2 ^ 64" and "entry_ok (alignTo s) e"
  shows "snd e \<le> fst e \<and> fst e + (bufferSize s - alignTo s) \<le> snd e - header_size + chunk s \<and>
     fst e < snd e - header_size + chunk s"
proof -
  have "padding (alignTo s) (snd e) \<le> alignTo s" using padding_bounds(1) [of "alignTo s" "snd e"] padding_bounds(3) [of "snd e"] by (cases "alignTo s = 0") auto
  moreover have "chunk s = header_size + bufferSize s" using assms(1,2,4) by (simp add: chunk_def request_size_def size_add_fits)
  ultimately show ?thesis using assms(3,5) by (auto simp: entry_ok_def)
qed

lemma disjoint_buffers:
  assumes inv: "buf_inv s" and f: "fheap s = Some f" and sp: "spaced (chunk s) X"
    and e: "entry_ok (alignTo s) e" "entry_ok (alignTo s) e'" "snd e - header_size \<in> X" "snd e' - header_size \<in> X" "snd e \<noteq> snd e'"
  shows "fst e + (bufferSize s - alignTo s) \<le> fst e' \<or> fst e' + (bufferSize s - alignTo s) \<le> fst e"
    and "fst e \<noteq> fst e'"
proof -
  have h: "hintSize f = bufferSize s" "alignTo s < bufferSize s" "header_size + bufferSize s < 2 ^ 64"
    using inv f by (simp_all add: buf_inv_def)
  note b = buffer_in_chunk [OF f h]
  have le: "header_size \<le> snd e" "header_size \<le> snd e'" using e(1,2) by (simp_all add: entry_ok_def)
  then have "snd e - header_size \<noteq> snd e' - header_size" using e(5) by linarith
  then have "snd e - header_size + chunk s \<le> snd e' - header_size \<or> snd e' - header_size + chunk s \<le> snd e - header_size"
    using sp e(3,4) unfolding spaced_def by blast
  then show "fst e + (bufferSize s - alignTo s) \<le> fst e' \<or> fst e' + (bufferSize s - alignTo s) \<le> fst e" "fst e \<noteq> fst e'"
    using b [OF e(1)] b [OF e(2)] le by linarith+
qed

lemma sys_ok_heap:
  assumes "buf_inv s" and "fheap s = Some f" and "sys_ok sys s"
  shows "heap_inv (chunk s) f (mem s) (used s) (set (cands sys))" and "distinct (cands sys)"
proof -
  have "apart (chunk s) (map fst (mem s) @ cands sys)" and d: "distinct (map fst (mem s) @ cands sys)"
    using assms(3) by (simp_all add: sys_ok_def cands_def Let_def)
  then have "spaced (chunk s) (fst ` set (mem s) \<union> set (cands sys))" by (simp add: apart_def spaced_def list_all_iff)
  moreover have "set (cands sys) \<inter> fst ` set (mem s) = {}" using d by auto
  ultimately show "heap_inv (chunk s) f (mem s) (used s) (set (cands sys))"
    using assms(1,2) by (simp add: buf_inv_def heap_inv_def)
  show "distinct (cands sys)" using d by simp
qed

lemma set_smap_set_new: "k \<notin> fst ` set m \<Longrightarrow> set (smap_set k v m) = insert (k, v) (set m)"
  by (induction k v m rule: smap_set.induct) auto

text \<open>The size of a chunk is what the numbers say: neither the padding nor the header makes the sum wrap.\<close>

fun fits :: "buf_op \<Rightarrow> bool" where
  "fits (Init b m f a) \<longleftrightarrow> header_size + (b + a) < 2 ^ 64"
| "fits _ \<longleftrightarrow> True"

lemma buf_inv_initialize:
  assumes "buf_inv s" and "header_size + (b + a) < 2 ^ 64" and "m < 2 ^ 64" and "f < 2 ^ 64"
  shows "buf_inv (fst (initialize b m f a s))"
proof (cases "fheap s")
  case None
  have "size_add b a = b + a" using assms(2) by (simp add: size_add_fits)
  with None assms show ?thesis
    by (auto simp: initialize_def buf_inv_def heap_inv_def flist_new_def used_def spaced_def)
qed (use assms in \<open>auto simp: initialize_def\<close>)

lemma buf_inv_heap:
  assumes "buf_inv s" and "fheap s = Some f" and "heap_inv (chunk s) f' h' (used s) {}" and "hintSize f' = hintSize f"
  shows "buf_inv (s\<lparr>fheap := Some f', mem := h'\<rparr>)"
  using assms by (simp add: buf_inv_def used_def chunk_def request_size_def)

lemma buf_inv_allocate:
  assumes inv: "buf_inv s" and sys: "sys_ok [sys] s"
  shows "buf_inv (fst (allocate (\<lambda>_. sys) buf s))"
proof (cases "fheap s")
  case None
  then show ?thesis using inv by (simp add: allocate_def)
next
  case (Some f)
  have h: "heap_inv (chunk s) f (mem s) (used s) (set (cands [sys]))" by (rule sys_ok_heap [OF inv Some sys])
  have c: "set (cands [sys]) = set_option sys \<union> {}" by (cases sys) (simp_all add: cands_def)
  obtain p f1 h1 where m: "flist_malloc (\<lambda>_. sys) f (mem s) = (p, f1, h1)" using prod_cases3 by blast
  show ?thesis
  proof (cases "poolSizeMax s \<le> length (allocated s)")
    case True
    then show ?thesis using inv Some by (simp add: allocate_def)
  next
    case False
    show ?thesis
    proof (cases p)
      case None
      then have "f1 = f" "h1 = mem s" using m flist_malloc_None by blast+
      moreover have "heap_inv (chunk s) f (mem s) (used s) {}" using inv Some by (simp add: buf_inv_def)
      from buf_inv_heap [OF inv Some this refl] have "buf_inv (s\<lparr>fheap := Some f, mem := mem s\<rparr>)" .
      ultimately show ?thesis using Some False m None by (simp add: allocate_def)
    next
      case (Some a)
      from heap_inv_malloc [OF h [unfolded c]] m Some obtain obj where obj: "a = obj + header_size" "obj \<notin> used s"
          "heap_inv (chunk s) f1 h1 (insert obj (used s)) {}" "hintSize f1 = hintSize f" by auto
      let ?b = "a + padding (alignTo s) a"
      let ?s = "s\<lparr>fheap := Some f1, mem := h1, allocated := smap_set ?b a (allocated s)\<rparr>"
      have s': "fst (allocate (\<lambda>_. sys) buf s) = ?s" using \<open>fheap s = Some f\<close> False m Some by (simp add: allocate_def Let_def)
      have new: "entry_ok (alignTo s) (?b, a)" using obj(1) by (simp add: entry_ok_def)
      have old: "\<forall>e \<in> set (allocated s). entry_ok (alignTo s) e" and inj: "inj_on snd (set (allocated s))"
        using inv by (simp_all add: buf_inv_def)
      obtain fs where keys: "fst ` set h1 = set fs \<union> insert obj (used s)" using obj(3) by (auto simp: heap_inv_def)
      have sp: "spaced (chunk s) (fst ` set h1)" using obj(3) by (simp add: heap_inv_def)
      have diff: "snd e \<noteq> a" if "e \<in> set (allocated s)" for e
      proof
        assume "snd e = a"
        then have "obj \<in> used s" using that obj(1) by (force simp: used_def)
        with obj(2) show False by simp
      qed
      have "?b \<notin> fst ` set (allocated s)"
      proof
        assume "?b \<in> fst ` set (allocated s)"
        then obtain e where e: "e \<in> set (allocated s)" "fst e = ?b" by auto
        then have "snd e - header_size \<in> fst ` set h1" "obj \<in> fst ` set h1" using keys by (auto simp: used_def)
        then have "fst e \<noteq> fst (?b, a)"
          using disjoint_buffers(2) [OF inv \<open>fheap s = Some f\<close> sp _ new] old e(1) diff [OF e(1)] obj(1) by auto
        with e(2) show False by simp
      qed
      then have set': "set (smap_set ?b a (allocated s)) = insert (?b, a) (set (allocated s))"
        and "map_of (allocated s) ?b = None" by (auto simp: set_smap_set_new map_of_eq_None_iff)
      then have len: "length (smap_set ?b a (allocated s)) = Suc (length (allocated s))"
        using inv by (simp add: length_smap_set buf_inv_def domIff)
      have "used ?s = (\<lambda>e. snd e - header_size) ` insert (?b, a) (set (allocated s))" by (simp add: used_def set')
      also have "\<dots> = insert obj (used s)" by (simp add: used_def obj(1))
      finally have "used ?s = insert obj (used s)" .
      moreover have "chunk ?s = chunk s" using \<open>fheap s = Some f\<close> obj(4) by (simp add: chunk_def request_size_def)
      moreover have "inj_on snd (insert (?b, a) (set (allocated s)))" using inj diff by (auto simp: inj_on_insert)
      ultimately show ?thesis
        unfolding s' using inv \<open>fheap s = Some f\<close> False obj(3,4) new old len
        by (simp add: buf_inv_def set' smap_wf_set)
    qed
  qed
qed

lemma buf_inv_release:
  assumes inv: "buf_inv s"
  shows "buf_inv (fst (release buf s))"
proof (cases "ptr buf")
  case None
  then show ?thesis using inv by (simp add: release_def)
next
  case (Some b)
  show ?thesis
  proof (cases "fheap s")
    case None
    then show ?thesis using inv Some by (simp add: release_def)
  next
    case f: (Some f)
    show ?thesis
    proof (cases "map_of (allocated s) b")
      case None
      then show ?thesis using inv Some f by (simp add: release_def)
    next
      case a: (Some a)
      have wf: "smap_wf (allocated s)" and inj: "inj_on snd (set (allocated s))"
        and ok: "\<forall>e \<in> set (allocated s). entry_ok (alignTo s) e" using inv by (simp_all add: buf_inv_def)
      have e: "(b, a) \<in> set (allocated s)" using a by (rule map_of_SomeD)
      then have le: "header_size \<le> a" using ok by (force simp: entry_ok_def)
      have u: "a - header_size \<in> used s" using e by (force simp: used_def)
      have h: "heap_inv (chunk s) f (mem s) (used s) {}" using inv f by (simp add: buf_inv_def)
      from heap_inv_free [OF h u] le obtain f1 h1 where r: "flist_free (Some a) f (mem s) = (True, f1, h1)"
          "heap_inv (chunk s) f1 h1 (used s - {a - header_size}) {}" "hintSize f1 = hintSize f" by auto
      let ?s = "s\<lparr>fheap := Some f1, mem := h1, allocated := smap_erase b (allocated s)\<rparr>"
      have s': "fst (release buf s) = ?s" using Some f a r(1) by (simp add: release_def)
      have set': "set (smap_erase b (allocated s)) = set (allocated s) - {(b, a)}"
        using a map_of_iff_set [OF wf] by (auto simp: smap_erase_def) (metis option.inject)
      have "used ?s = used s - {a - header_size}"
      proof -
        have "snd x - header_size \<noteq> a - header_size" if "x \<in> set (allocated s)" "x \<noteq> (b, a)" for x
        proof -
          have "snd x \<noteq> a" using inj that e by (auto simp: inj_on_def)
          moreover have "header_size \<le> snd x" using ok that(1) by (simp add: entry_ok_def)
          ultimately show ?thesis using le by linarith
        qed
        then show ?thesis unfolding used_def by (simp add: set') force
      qed
      moreover have "chunk ?s = chunk s" using f r(3) by (simp add: chunk_def request_size_def)
      moreover have "length (smap_erase b (allocated s)) \<le> length (allocated s)" by (simp add: smap_erase_def)
      ultimately show ?thesis
        unfolding s' using inv f r(2,3) ok inj
        by (auto simp: buf_inv_def set' smap_wf_erase intro: inj_on_subset)
    qed
  qed
qed

lemma buf_inv_reserve:
  assumes inv: "buf_inv s" and sys: "sys_ok sys s" and n: "n \<le> length sys"
  shows "buf_inv (fst (reserve (\<lambda>i _. sys ! i) n s))"
proof (cases "fheap s")
  case None
  then show ?thesis using inv by (simp add: reserve_def)
next
  case (Some f)
  define n2 where "n2 = min (min n (maxLen f)) (size_sub (poolSizeMax s) (length (allocated s)))"
  show ?thesis
  proof (cases "n2 > 0 \<and> n2 > listLen f")
    case False
    then show ?thesis using inv Some by (auto simp: reserve_def n2_def Let_def)
  next
    case True
    have "n2 \<le> length sys" using n by (simp add: n2_def)
    then have sysn: "map (\<lambda>i _. sys ! i) [0..<n2] = map (\<lambda>x _. x) (take n2 sys)"
      by (intro nth_equalityI) simp_all
    obtain ps f1 h1 where t: "take_chunks (map (\<lambda>x _. x) (take n2 sys)) f (mem s) = (ps, f1, h1)" using prod_cases3 by blast
    obtain f2 h2 where g: "give_chunks (sort (remdups ps)) f1 h1 = (f2, h2)" by fastforce
    have split: "cands sys = cands (take n2 sys) @ cands (drop n2 sys)"
      by (simp add: cands_def flip: concat_append map_append)
    have "heap_inv (chunk s) f (mem s) (used s) (set (cands (take n2 sys)))" and "distinct (cands (take n2 sys))"
      using sys_ok_heap [OF inv Some sys] heap_inv_less by (simp_all add: split)
    from take_chunks_inv [OF this t] obtain os where os: "ps = map (\<lambda>obj. obj + header_size) os" "distinct os"
        "set os \<inter> used s = {}" "heap_inv (chunk s) f1 h1 (used s \<union> set os) {}" "maxLen f1 = maxLen f" "hintSize f1 = hintSize f"
      by blast
    define qs where "qs = map (\<lambda>p. p - header_size) (sort (remdups ps))"
    have ps: "sort (remdups ps) = map (\<lambda>obj. obj + header_size) qs"
      unfolding qs_def by (simp add: comp_def) (rule map_idI [symmetric], use os(1) in auto)
    have qset: "set qs = set os" unfolding qs_def by (force simp: os(1))
    have qd: "distinct qs"
      unfolding qs_def using os(1) by (auto simp: distinct_map inj_on_def)
    have "heap_inv (chunk s) f2 h2 (used s \<union> set os - set qs) {} \<and> hintSize f2 = hintSize f1"
      using give_chunks_inv [OF os(4) qd _ g [unfolded ps]] qset by blast
    moreover have "used s \<union> set os - set qs = used s" using os(3) qset by auto
    ultimately have "buf_inv (s\<lparr>fheap := Some f2, mem := h2\<rparr>)"
      using buf_inv_heap [OF inv Some, of f2 h2] os(6) by simp
    moreover have "fst (reserve (\<lambda>i _. sys ! i) n s) = s\<lparr>fheap := Some f2, mem := h2\<rparr>"
      unfolding reserve_def Some option.case Let_def n2_def [symmetric] if_P [OF True] sysn t prod.case g by simp
    ultimately show ?thesis by simp
  qed
qed

definition fit_step :: "bufpool \<Rightarrow> buf_op \<Rightarrow> bufpool option" where
  "fit_step s x = (if fits x then buf_step s x else None)"

lemma run_fit: "list_all fits xs \<Longrightarrow> run_ops fit_step s xs = run_ops buf_step s xs"
  by (induction xs arbitrary: s) (auto simp: fit_step_def split: option.splits)

lemma buf_inv_step:
  assumes inv: "buf_inv s" and step: "fit_step s x = Some s'"
  shows "buf_inv s'"
proof (cases x)
  case (Init b m f a)
  then have "s' = fst (initialize b m f a s)" "header_size + (b + a) < 2 ^ 64" "m < 2 ^ 64" "f < 2 ^ 64"
    using step by (auto simp: fit_step_def split: if_splits)
  with inv show ?thesis by (simp only: buf_inv_initialize)
qed (use inv step in \<open>auto simp: fit_step_def buf_inv_reserve buf_inv_allocate buf_inv_release split: if_splits\<close>)

interpretation buffer_machine: transition_system bufpool_new fit_step buf_inv
  by unfold_locales (simp add: buf_inv_def bufpool_new_def, fact buf_inv_step)

subsection \<open>Sizes that wrap\<close>

text \<open>
  A pool whose buffer size and alignment exceed the range of \<open>size_t\<close> together with the header is set up all the same: its
  chunks are shorter than a header and a buffer, while the buffers are handed out with the length asked for.
\<close>

lemma wrapped_chunk_is_short:
  assumes "fheap s = None" and "initialize b m f a s = (s', True)" and "b < 2 ^ 64" and "a < 2 ^ 64" and "2 ^ 64 \<le> header_size + (b + a)"
  shows "chunk s' < header_size + b" and "size_sub (bufferSize s') (alignTo s') = b"
proof -
  have s': "fheap s' = Some (flist_new (size_add b a) f)" "bufferSize s' = size_add b a" "alignTo s' = a"
    using assms(1,2) by (auto simp: initialize_def split: if_splits)
  have "chunk s' = (header_size + (b + a)) mod 2 ^ 64"
    by (simp add: s' chunk_def request_size_def flist_new_def size_add_def mod_add_right_eq)
  also have "\<dots> = (header_size + (b + a) - 2 ^ 64) mod 2 ^ 64" using assms(5) by (rule le_mod_geq)
  also have "\<dots> \<le> header_size + (b + a) - 2 ^ 64" by (rule mod_less_eq_dividend)
  also have "\<dots> < header_size + b" using assms(4,5) by linarith
  finally show "chunk s' < header_size + b" .
  have "size_sub (size_add b a) a = ((b + a) mod 2 ^ 64 + (2 ^ 64 - a)) mod 2 ^ 64" by (simp add: size_sub_def size_add_def)
  also have "\<dots> = (b + a + (2 ^ 64 - a)) mod 2 ^ 64" by (rule mod_add_left_eq)
  also have "b + a + (2 ^ 64 - a) = b + 2 ^ 64" using assms(4) by linarith
  also have "(b + 2 ^ 64) mod 2 ^ 64 = b" using assms(3) by (simp only: mod_add_self2 mod_less)
  finally show "size_sub (bufferSize s') (alignTo s') = b" by (simp add: s')
qed

subsection \<open>The properties\<close>

text \<open>
  C12. When the header, the buffer size and the alignment the pool is initialized with sum up to less than \<open>2 ^ 64\<close>: in
  every state the pool can reach, whatever \<open>::malloc\<close> returns (it may fail, and it returns chunks that do not
  overlap those in use), the buffers handed out are aligned as asked and disjoint, at most \<open>maxBuffers\<close> of them are
  out and at most \<open>maxFreeBuffers\<close> are kept, and every chunk taken from the system is in use by one buffer or in the
  free list: none is lost.
\<close>

theorem buffers_sound:
  assumes "run_ops buf_step bufpool_new xs = Some s" and "list_all fits xs" and "fheap s = Some f"
  shows "(\<forall>b \<in> set (listActiveBuffers s). alignTo s \<noteq> 0 \<longrightarrow> b mod alignTo s = 0) \<and>
     (\<forall>b \<in> set (listActiveBuffers s). \<forall>b' \<in> set (listActiveBuffers s). b \<noteq> b' \<longrightarrow>
        b + (bufferSize s - alignTo s) \<le> b' \<or> b' + (bufferSize s - alignTo s) \<le> b) \<and>
     length (allocated s) \<le> poolSizeMax s \<and> listLen f \<le> maxLen f \<and> length (mem s) = listLen f + length (allocated s)"
proof -
  have inv: "buf_inv s" by (rule buffer_machine.reachable_inv [of xs]) (simp add: run_fit assms(1,2))
  then have h: "heap_inv (chunk s) f (mem s) (used s) {}" and ok: "\<forall>e \<in> set (allocated s). entry_ok (alignTo s) e"
    and wfa: "smap_wf (allocated s)" and inj: "inj_on snd (set (allocated s))" and len: "length (allocated s) \<le> poolSizeMax s"
    using assms(3) by (simp_all add: buf_inv_def)
  obtain fs where fs: "distinct fs" "length fs = listLen f" "set fs \<inter> used s = {}" "fst ` set (mem s) = set fs \<union> used s"
    using h by (auto simp: heap_inv_def)
  have sp: "spaced (chunk s) (fst ` set (mem s))" and wfm: "smap_wf (mem s)" and le: "listLen f \<le> maxLen f"
    using h by (simp_all add: heap_inv_def)
  have al: "b mod alignTo s = 0" if "b \<in> set (listActiveBuffers s)" "alignTo s \<noteq> 0" for b
    using that ok padding_bounds(2) [of "alignTo s"] by (auto simp: listActiveBuffers_def entry_ok_def)
  have dj: "b + (bufferSize s - alignTo s) \<le> b' \<or> b' + (bufferSize s - alignTo s) \<le> b"
    if "b \<in> set (listActiveBuffers s)" "b' \<in> set (listActiveBuffers s)" "b \<noteq> b'" for b b'
  proof -
    from that(1) obtain e where e: "e \<in> set (allocated s)" "fst e = b" by (auto simp: listActiveBuffers_def)
    from that(2) obtain e' where e': "e' \<in> set (allocated s)" "fst e' = b'" by (auto simp: listActiveBuffers_def)
    have "snd e \<noteq> snd e'" using inj e e' that(3) by (auto simp: inj_on_def)
    moreover have "snd e - header_size \<in> fst ` set (mem s)" "snd e' - header_size \<in> fst ` set (mem s)"
      using fs(4) e(1) e'(1) by (auto simp: used_def)
    ultimately show ?thesis using disjoint_buffers(1) [OF inv assms(3) sp] ok e e' by blast
  qed
  have "distinct (map snd (allocated s))" using inj smap_wf_distinct [OF wfa] by (simp add: distinct_map)
  moreover have "inj_on (\<lambda>e. snd e - header_size) (set (allocated s))"
  proof (rule inj_onI)
    fix x y assume x: "x \<in> set (allocated s)" and y: "y \<in> set (allocated s)"
      and "snd x - header_size = snd y - header_size"
    moreover have "header_size \<le> snd x" "header_size \<le> snd y" using ok x y by (simp_all add: entry_ok_def)
    ultimately have "snd x = snd y" by linarith
    then show "x = y" using inj x y by (simp add: inj_on_def)
  qed
  ultimately have "card (used s) = length (allocated s)"
    unfolding used_def by (simp add: card_image distinct_card distinct_map)
  moreover have "length (mem s) = card (fst ` set (mem s))"
    using distinct_card [OF smap_wf_distinct [OF wfm]] by simp
  ultimately have "length (mem s) = listLen f + length (allocated s)"
    using fs card_Un_disjoint [of "set fs" "used s"] by (simp add: distinct_card used_def)
  with al dj len le show ?thesis by blast
qed

definition buf_demo :: "buf_op list" where
  "buf_demo = [Init 4 3 2 4, Allocate (Some 1), Allocate (Some 30), Allocate (Some 60), Allocate (Some 90), Release 12,
     Release 12, Release 40, Allocate None]"

lemma buffers_sound_witness:
  "\<exists>s f. run_ops buf_step bufpool_new buf_demo = Some s \<and> fheap s = Some f \<and> listActiveBuffers s = [40, 68] \<and>
     length (mem s) = listLen f + length (allocated s)"
proof -
  have "case run_ops buf_step bufpool_new buf_demo of None \<Rightarrow> False
      | Some s \<Rightarrow> listActiveBuffers s = [40, 68] \<and> (case fheap s of None \<Rightarrow> False | Some f \<Rightarrow> listLen f = 1)"
    by (simp add: buf_demo_def bufpool_new_def initialize_def flist_new_def size_add_def size_sub_def sys_ok_def chunk_def
      request_size_def header_size_def apart_def allocate_def flist_malloc_def next_of_def padding_def release_def flist_free_def
      listActiveBuffers_def smap_erase_def)
  then obtain s where s: "run_ops buf_step bufpool_new buf_demo = Some s"
    and c: "listActiveBuffers s = [40, 68] \<and> (case fheap s of None \<Rightarrow> False | Some f \<Rightarrow> listLen f = 1)" by (rule case_SomeE)
  then obtain f where f: "fheap s = Some f" by (auto split: option.splits)
  have fit: "list_all fits buf_demo" by (simp add: buf_demo_def header_size_def)
  from buffers_sound [OF s fit f] s f c show ?thesis by blast
qed

end
