(* ===== verification/Buffer_List.thy ===== *)
theory Buffer_List
  imports Prelude
begin

text \<open>
  \<open>BufferList\<close> of BufferPool.cpp: a growing sequence of memory blocks. Each block is its bytes (the length of \<open>data\<close>
  is the field \<open>size\<close>) and the number of them that hold payload.
\<close>

subsection \<open>State and operations\<close>

record bd =
  data :: "uint8 list"
  blen :: nat

record buflist =
  bdlist :: "bd list"
  bReference :: bool
  totalSize :: nat

definition bsize :: "bd \<Rightarrow> nat" where
  "bsize b = length (data b)"

definition PAGE_SIZE :: nat where
  "PAGE_SIZE = 4 * 1024"

definition buflist_new :: "bool \<Rightarrow> buflist" where
  "buflist_new ref = \<lparr>bdlist = [], bReference = ref, totalSize = 0\<rparr>"

definition total_length :: "buflist \<Rightarrow> nat" where
  "total_length l = sum_list (map blen (bdlist l))"

definition doJoin :: "uint8 list \<Rightarrow> nat \<Rightarrow> buflist \<Rightarrow> buflist" where
  "doJoin buf n l = l\<lparr>bdlist := bdlist l @ [\<lparr>data = buf, blen = n\<rparr>], totalSize := totalSize l + length buf\<rparr>"

text \<open>\<open>buf = None\<close> is NULL. A negative payload length means the whole buffer.\<close>

definition buffer_join :: "uint8 list option \<Rightarrow> int \<Rightarrow> buflist \<Rightarrow> buflist \<times> nat" where
  "buffer_join buf payloadLen l =
     (case buf of
        None \<Rightarrow> (l, totalSize l)
      | Some b \<Rightarrow>
          if \<not> bReference l \<or> b = [] then (l, totalSize l)
          else (let l' = doJoin b (if payloadLen < 0 then length b else nat payloadLen) l in (l', totalSize l')))"

text \<open>The search for the block that holds an offset: the blocks before it, those from it on, the offset in it.\<close>

fun seek :: "(bd \<Rightarrow> nat) \<Rightarrow> nat \<Rightarrow> nat \<Rightarrow> bd list \<Rightarrow> bd list \<times> bd list \<times> nat" where
  "seek key offset acc [] = ([], [], 0)"
| "seek key offset acc (b # bs) =
     (if acc + key b < offset
      then (let (pre, post, k) = seek key offset (acc + key b) bs in (b # pre, post, k))
      else ([], b # bs, offset - acc))"

fun fill_blocks :: "uint8 list \<Rightarrow> nat \<Rightarrow> bd list \<Rightarrow> bd list \<times> uint8 list" where
  "fill_blocks [] k bs = (bs, [])"
| "fill_blocks buf k [] = ([], buf)"
| "fill_blocks buf k (b # bs) =
     (let n = min (bsize b - k) (length buf);
          b' = (if n > 0 then b\<lparr>data := take k (data b) @ take n buf @ drop (k + n) (data b), blen := k + n\<rparr> else b);
          (bs', left) = fill_blocks (drop n buf) 0 bs
      in (b' # bs', left))"

text \<open>New pages; \<open>junk\<close> is the memory of a fresh one.\<close>

function add_pages :: "uint8 list \<Rightarrow> uint8 list \<Rightarrow> buflist \<Rightarrow> buflist" where
  "add_pages junk buf l =
     (if buf = [] then l
      else (let n = min (length buf) PAGE_SIZE
            in add_pages junk (drop n buf) (doJoin (take n buf @ drop n (take PAGE_SIZE junk)) n l)))"
  by pat_completeness auto

termination
  by (relation "measure (\<lambda>(junk, buf, l). length buf)") (auto simp: PAGE_SIZE_def)

declare add_pages.simps [simp del]

definition fill :: "uint8 list \<Rightarrow> uint8 list \<Rightarrow> nat \<Rightarrow> buflist \<Rightarrow> buflist \<times> nat" where
  "fill junk buf offset l =
     (let (pre, post, k) = seek bsize offset 0 (bdlist l);
          (post', left) = fill_blocks buf k post;
          l1 = l\<lparr>bdlist := pre @ post'\<rparr>
      in if bReference l then (l1, length buf - length left) else (add_pages junk left l1, length buf))"

fun read_blocks :: "nat \<Rightarrow> nat \<Rightarrow> bd list \<Rightarrow> uint8 list" where
  "read_blocks nLeft k [] = []"
| "read_blocks nLeft k (b # bs) =
     (if nLeft = 0 then []
      else (let n = min (blen b - k) nLeft in take n (drop k (data b)) @ read_blocks (nLeft - n) 0 bs))"

text \<open>The bytes read; their number is the result. \<open>readToString\<close> is the same, with \<open>2 ^ 64 - 1\<close> bytes by default.\<close>

definition read :: "nat \<Rightarrow> nat \<Rightarrow> buflist \<Rightarrow> uint8 list" where
  "read offset n l = (let (pre, post, k) = seek blen offset 0 (bdlist l) in read_blocks n k post)"

definition readToString :: "string \<Rightarrow> nat \<Rightarrow> nat \<Rightarrow> buflist \<Rightarrow> string \<times> nat" where
  "readToString str offset n l =
     (let (pre, post, k) = seek blen offset 0 (bdlist l); r = read_blocks n k post
      in (str @ map (\<lambda>b. char_of (unat b)) r, length r))"

definition block :: "nat \<Rightarrow> buflist \<Rightarrow> (uint8 list \<times> nat) option" where
  "block i l = (if i \<ge> length (bdlist l) then None else Some (data (bdlist l ! i), blen (bdlist l ! i)))"

subsection \<open>The bytes it stands for\<close>

definition content :: "bd list \<Rightarrow> uint8 list" where
  "content bs = concat (map (\<lambda>b. take (blen b) (data b)) bs)"

lemma content_Cons [simp]: "content (b # bs) = take (blen b) (data b) @ content bs"
  and content_Nil [simp]: "content [] = []" and content_append: "content (xs @ ys) = content xs @ content ys"
  by (simp_all add: content_def)

definition blocks_ok :: "bd list \<Rightarrow> bool" where
  "blocks_ok bs \<longleftrightarrow> list_all (\<lambda>b. blen b \<le> bsize b) bs"

lemma read_blocks_content:
  "blocks_ok (b # bs) \<Longrightarrow> k \<le> blen b \<Longrightarrow> read_blocks n k (b # bs) = take n (drop k (content (b # bs)))"
proof (induction bs arbitrary: b n k)
  case Nil
  then show ?case by (auto simp: blocks_ok_def bsize_def drop_take min.commute)
next
  case (Cons c bs)
  have le: "blen b \<le> length (data b)" and ok: "blocks_ok (c # bs)" using Cons.prems(1) by (simp_all add: blocks_ok_def bsize_def)
  show ?case
  proof (cases "n = 0")
    case False
    let ?m = "min (blen b - k) n"
    have "read_blocks n k (b # c # bs) = take ?m (drop k (data b)) @ take (n - ?m) (content (c # bs))"
      using False Cons.IH [OF ok, of 0 "n - ?m"] by (simp add: Let_def del: content_Cons)
    also have "take ?m (drop k (data b)) = take n (drop k (take (blen b) (data b)))"
      by (simp add: drop_take min.commute)
    also have "n - ?m = n - length (drop k (take (blen b) (data b)))" using le by simp
    also have "take n (drop k (take (blen b) (data b))) @ take (n - length (drop k (take (blen b) (data b)))) (content (c # bs)) =
        take n (drop k (take (blen b) (data b)) @ content (c # bs))" by (simp only: take_append)
    finally show ?thesis using Cons.prems(2) le by simp
  qed simp
qed

lemma read_content:
  assumes "blocks_ok bs" and "acc \<le> offset" and "seek blen offset acc bs = (pre, post, k)"
  shows "read_blocks n k post = take n (drop (offset - acc) (content bs))"
  using assms
proof (induction bs arbitrary: acc pre)
  case (Cons b bs)
  have le: "blen b \<le> length (data b)" and ok: "blocks_ok bs" using Cons.prems(1) by (simp_all add: blocks_ok_def bsize_def)
  show ?case
  proof (cases "acc + blen b < offset")
    case True
    then obtain pre' where "seek blen offset (acc + blen b) bs = (pre', post, k)"
      using Cons.prems(3) by (auto split: prod.splits)
    from Cons.IH [OF ok _ this] True le show ?thesis by simp
  next
    case False
    then have "post = b # bs" "k = offset - acc" using Cons.prems(3) by simp_all
    with read_blocks_content [OF Cons.prems(1), of k n] False show ?thesis by simp
  qed
qed simp

text \<open>All blocks but the last are full.\<close>

fun tight :: "bd list \<Rightarrow> bool" where
  "tight [] \<longleftrightarrow> True"
| "tight [b] \<longleftrightarrow> blen b \<le> bsize b \<and> 0 < bsize b"
| "tight (b # c # bs) \<longleftrightarrow> blen b = bsize b \<and> 0 < bsize b \<and> tight (c # bs)"

definition full :: "bd list \<Rightarrow> bool" where
  "full bs \<longleftrightarrow> list_all (\<lambda>b. blen b = bsize b \<and> 0 < bsize b) bs"

lemma tight_blocks_ok: "tight bs \<Longrightarrow> blocks_ok bs"
  by (induction bs rule: tight.induct) (simp_all add: blocks_ok_def)

lemma tight_Cons: "tight (b # bs) \<longleftrightarrow> blen b \<le> bsize b \<and> 0 < bsize b \<and> (bs \<noteq> [] \<longrightarrow> blen b = bsize b) \<and> tight bs"
  by (cases bs) auto

lemma tight_full_append: "full xs \<Longrightarrow> tight ys \<Longrightarrow> tight (xs @ ys)"
  by (induction xs) (auto simp: full_def tight_Cons)

lemma full_tight: "full xs \<Longrightarrow> tight xs"
  using tight_full_append [of xs "[]"] by simp

lemma fill_last:
  assumes "blen b \<le> bsize b" and "0 < bsize b" and "fill_blocks buf (blen b) [b] = (bs', left)"
  shows "content bs' @ left = take (blen b) (data b) @ buf \<and> tight bs' \<and> (left \<noteq> [] \<longrightarrow> full bs') \<and> bs' \<noteq> []"
proof (cases buf)
  case Nil
  then show ?thesis using assms by auto
next
  case (Cons x xs)
  let ?n = "min (bsize b - blen b) (length buf)"
  have bs': "bs' = [if ?n > 0 then b\<lparr>data := take (blen b) (data b) @ take ?n buf @ drop (blen b + ?n) (data b), blen := blen b + ?n\<rparr> else b]"
    and left: "left = drop ?n buf"
    using assms(3) Cons by (auto simp: Let_def split: prod.splits) (cases "drop ?n buf"; auto)+
  show ?thesis
  proof (cases "?n > 0")
    case True
    let ?b = "b\<lparr>data := take (blen b) (data b) @ take ?n buf @ drop (blen b + ?n) (data b), blen := blen b + ?n\<rparr>"
    have "bsize ?b = bsize b" using assms(1) by (simp add: bsize_def)
    moreover have "content bs' = take (blen b) (data b) @ take ?n buf" using assms(1) True by (simp add: bs' bsize_def)
    moreover have "blen b + ?n = bsize b" if "left \<noteq> []" using that assms(1) by (simp add: left min_def split: if_splits)
    moreover have "blen b + ?n \<le> bsize b" using assms(1) by simp
    ultimately show ?thesis using assms(2) True by (auto simp: bs' left full_def)
  next
    case False
    then show ?thesis using assms(1,2) Cons by (auto simp: bs' left full_def)
  qed
qed

lemma fill_append:
  assumes "tight bs" and "offset = acc + length (content bs)" and "seek bsize offset acc bs = (pre, post, k)"
    and "fill_blocks buf k post = (post', left)"
  shows "content (pre @ post') @ left = content bs @ buf \<and> tight (pre @ post') \<and> (left \<noteq> [] \<longrightarrow> full (pre @ post'))"
  using assms
proof (induction bs arbitrary: acc pre)
  case Nil
  then have "pre = []" "post = []" "k = 0" by simp_all
  then show ?case using Nil.prems(4) by (cases buf) (auto simp: full_def)
next
  case (Cons b bs)
  have le: "blen b \<le> bsize b" and pos: "0 < bsize b" and t: "tight bs" and fl: "bs \<noteq> [] \<Longrightarrow> blen b = bsize b"
    using Cons.prems(1) by (simp_all add: tight_Cons)
  have off: "offset = acc + blen b + length (content bs)" using Cons.prems(2) le by (simp add: bsize_def)
  show ?case
  proof (cases "acc + bsize b < offset")
    case True
    then have "bs \<noteq> []" using off le by auto
    from fl [OF this] have f: "blen b = bsize b" .
    obtain pre' where pre': "seek bsize offset (acc + bsize b) bs = (pre', post, k)" "pre = b # pre'"
      using True Cons.prems(3) by (auto split: prod.splits)
    from Cons.IH [OF t _ pre'(1) Cons.prems(4)] off f
    have ih: "content (pre' @ post') @ left = content bs @ buf" "tight (pre' @ post')" "left \<noteq> [] \<longrightarrow> full (pre' @ post')" by auto
    have "pre' @ post' = [] \<or> blen b = bsize b" using f by simp
    then show ?thesis using ih f pos by (auto simp: pre'(2) tight_Cons full_def)
  next
    case False
    then have p: "pre = []" "post = b # bs" "k = offset - acc" using Cons.prems(3) by simp_all
    show ?thesis
    proof (cases bs)
      case Nil
      then have "k = blen b" using p(3) off by simp
      then show ?thesis using fill_last [OF le pos] Cons.prems(4) Nil p by simp
    next
      case (Cons c cs)
      then have f: "blen b = bsize b" using fl by simp
      then have e: "content bs = []" and k: "k = bsize b" using False off p(3) by auto
      have c: "blen c \<le> bsize c" "0 < bsize c" "cs \<noteq> [] \<longrightarrow> blen c = bsize c" using t Cons by (simp_all add: tight_Cons)
      have "blen c = 0" using e c(1,2) Cons by (auto simp: bsize_def)
      then have cs: "cs = []" using c by auto
      show ?thesis
      proof (cases buf)
        case Nil
        then show ?thesis using Cons.prems(1,4) p e by auto
      next
        case (Cons x xs)
        then have "post' = b # fst (fill_blocks buf 0 bs)" "left = snd (fill_blocks buf 0 bs)"
          using Cons.prems(4) p k by (auto simp: Let_def split: prod.splits)
        moreover have "fill_blocks buf 0 bs = fill_blocks buf (blen c) [c]" using \<open>bs = c # cs\<close> cs \<open>blen c = 0\<close> by simp
        ultimately show ?thesis
          using fill_last [OF c(1,2), of buf "fst (fill_blocks buf 0 bs)" left] p f pos e \<open>bs = c # cs\<close> \<open>blen c = 0\<close>
          by (auto simp: tight_Cons full_def)
      qed
    qed
  qed
qed

lemma add_pages_content:
  assumes "full (bdlist l)" and "length junk \<ge> PAGE_SIZE"
  shows "content (bdlist (add_pages junk buf l)) = content (bdlist l) @ buf \<and> tight (bdlist (add_pages junk buf l)) \<and>
     bReference (add_pages junk buf l) = bReference l"
  using assms
proof (induction junk buf l rule: add_pages.induct)
  case (1 junk buf l)
  show ?case
  proof (cases "buf = []")
    case True
    then show ?thesis using 1 by (simp add: add_pages.simps full_tight)
  next
    case False
    let ?n = "min (length buf) PAGE_SIZE"
    let ?l = "doJoin (take ?n buf @ drop ?n (take PAGE_SIZE junk)) ?n l"
    let ?b = "\<lparr>data = take ?n buf @ drop ?n (take PAGE_SIZE junk), blen = ?n\<rparr>"
    have step: "add_pages junk buf l = add_pages junk (drop ?n buf) ?l"
      using False by (subst add_pages.simps) (simp only: if_False Let_def)
    have l: "bdlist ?l = bdlist l @ [?b]" "bReference ?l = bReference l" by (simp_all add: doJoin_def)
    have bs: "bsize ?b = PAGE_SIZE" using "1.prems"(2) by (simp add: bsize_def)
    have c: "content (bdlist ?l) = content (bdlist l) @ take ?n buf" unfolding l(1) by (simp add: content_append)
    show ?thesis
    proof (cases "length buf \<le> PAGE_SIZE")
      case True
      then have "add_pages junk buf l = ?l" unfolding step by (simp add: add_pages.simps)
      moreover have "tight (bdlist ?l)" unfolding l(1)
        by (rule tight_full_append [OF "1.prems"(1)]) (use bs in \<open>simp add: PAGE_SIZE_def\<close>)
      ultimately show ?thesis using c l True by simp
    next
      case False
      then have "?n = PAGE_SIZE" by simp
      then have "full (bdlist ?l)" unfolding l(1) using "1.prems"(1) bs by (simp add: full_def) (simp add: PAGE_SIZE_def)
      from "1.IH" [OF \<open>buf \<noteq> []\<close> refl this "1.prems"(2)] show ?thesis unfolding step c l(2) by simp
    qed
  qed
qed

text \<open>
  A growing \<open>BufferList\<close> is a byte string with append and range reads: \<open>fill\<close> at the offset of its length takes the
  whole input and appends it, whatever the fresh pages contain and however the input straddles pages; the list stays in
  shape; and \<open>read\<close> gives the bytes from the offset on, at most \<open>n\<close> of them, for every offset.
\<close>

theorem buffer_list_appends:
  assumes "tight (bdlist l)" and "\<not> bReference l" and "length junk \<ge> PAGE_SIZE"
    and "fill junk buf (length (content (bdlist l))) l = (l', r)"
  shows "r = length buf \<and> content (bdlist l') = content (bdlist l) @ buf \<and> tight (bdlist l') \<and> \<not> bReference l' \<and>
     (\<forall>offset n. read offset n l' = take n (drop offset (content (bdlist l) @ buf)))"
proof -
  obtain pre post k where s: "seek bsize (length (content (bdlist l))) 0 (bdlist l) = (pre, post, k)" using prod_cases3 by blast
  obtain post' left where f: "fill_blocks buf k post = (post', left)" by fastforce
  let ?l1 = "l\<lparr>bdlist := pre @ post'\<rparr>"
  have a: "content (pre @ post') @ left = content (bdlist l) @ buf" "tight (pre @ post')" "left \<noteq> [] \<longrightarrow> full (pre @ post')"
    using fill_append [OF assms(1) _ s f] by simp_all
  have l': "l' = add_pages junk left ?l1" "r = length buf" using assms(2,4) s f by (simp_all add: fill_def)
  have "content (bdlist l') = content (pre @ post') @ left \<and> tight (bdlist l') \<and> bReference l' = bReference l"
  proof (cases "left = []")
    case True
    then show ?thesis using a(2) by (simp add: l'(1) add_pages.simps)
  next
    case False
    then show ?thesis using add_pages_content [of ?l1 junk left] a(3) assms(3) by (simp add: l'(1))
  qed
  then have c: "content (bdlist l') = content (bdlist l) @ buf" and t: "tight (bdlist l')" and "\<not> bReference l'"
    using a(1) assms(2) by simp_all
  moreover have "read offset n l' = take n (drop offset (content (bdlist l')))" for offset n
    using read_content [OF tight_blocks_ok [OF t], of 0 offset] by (auto simp: read_def split: prod.splits)
  ultimately show ?thesis using l'(2) by simp
qed

lemma buffer_list_appends_witness:
  "\<exists>l' l''. fill (replicate PAGE_SIZE 0) [1, 2, 3] 0 (buflist_new False) = (l', 3) \<and>
     fill (replicate PAGE_SIZE 0) [4, 5] 3 l' = (l'', 2) \<and> read 1 3 l'' = [2, 3, 4]"
proof -
  let ?j = "replicate PAGE_SIZE 0 :: uint8 list" and ?l = "buflist_new False"
  obtain l' r where f: "fill ?j [1, 2, 3] 0 ?l = (l', r)" by fastforce
  have "tight (bdlist ?l)" "\<not> bReference ?l" "content (bdlist ?l) = []" by (simp_all add: buflist_new_def)
  with buffer_list_appends [of ?l ?j "[1, 2, 3]" l' r] f
  have l': "r = 3" "content (bdlist l') = [1, 2, 3]" "tight (bdlist l')" "\<not> bReference l'" by simp_all
  obtain l'' r' where g: "fill ?j [4, 5] 3 l' = (l'', r')" by fastforce
  then have "fill ?j [4, 5] (length (content (bdlist l'))) l' = (l'', r')" by (simp add: l'(2) numeral_3_eq_3)
  with buffer_list_appends [of l' ?j "[4, 5]" l'' r'] l'
  have "r' = 2 \<and> read 1 3 l'' = take 3 (drop 1 [1, 2, 3, 4, 5])" by simp
  then show ?thesis using f g l' by auto
qed

text \<open>Writing over the beginning of a block drops what the block held behind the new bytes.\<close>

lemma overwrite_truncates:
  assumes "bdlist l = [b]" and "0 < length buf" and "length buf \<le> bsize b"
  shows "\<exists>l'. fill junk buf 0 l = (l', length buf) \<and> content (bdlist l') = buf"
proof -
  have "seek bsize 0 0 (bdlist l) = ([], [b], 0)" using assms(1) by simp
  moreover obtain b' where "fill_blocks buf 0 [b] = ([b'], [])" "take (blen b') (data b') = buf"
    using assms(2,3) by (cases buf) (auto simp: Let_def bsize_def min_def)
  ultimately show ?thesis by (simp add: fill_def add_pages.simps Let_def)
qed

end
