(* ===== verification/Redis_Reply.thy ===== *)
theory Redis_Reply
  imports Std_String
begin

text \<open>
  The reply side of \<open>RedisClient\<close> (RedisClient.cpp): the commands, the receive buffer, and the machine that cuts
  the received bytes into lines and the lines into replies of the awaiting commands (\<open>OnDataArrived\<close>). The buffer
  is its bytes, stale ones included; the fixed size is the length of that list.
\<close>

subsection \<open>State\<close>

definition rdeOK :: int where "rdeOK = 200"
definition rdeClientError :: int where "rdeClientError = 400"
definition rdeNil :: int where "rdeNil = 404"
definition rdeConnectError :: int where "rdeConnectError = 405"
definition rdeSendError :: int where "rdeSendError = 406"
definition rdeRequestTimeout :: int where "rdeRequestTimeout = 407"
definition rdeClientCanceled :: int where "rdeClientCanceled = 408"
definition rdeServerReturnedError :: int where "rdeServerReturnedError = 500"
definition rdeProtocolMissed :: int where "rdeProtocolMissed = 501"

lemmas rde_defs = rdeOK_def rdeClientError_def rdeNil_def rdeConnectError_def rdeSendError_def rdeRequestTimeout_def
  rdeClientCanceled_def rdeServerReturnedError_def rdeProtocolMissed_def

text \<open>A command, numbered, with its reply context. The constructor does not set \<open>errCode\<close>; a type of NUL means no reply yet.\<close>

record redis_cmd =
  cid :: nat
  command :: string
  replyType :: char
  rtype :: char
  intReply :: int
  bulks :: "string list"
  errCode :: int
  isBulkPayload :: bool
  nBulksLeft :: int
  stampCreated :: int
  stampSent :: int
  stampReceived :: int

definition new_redis_cmd :: "nat \<Rightarrow> int \<Rightarrow> int \<Rightarrow> string \<Rightarrow> char \<Rightarrow> redis_cmd" where
  "new_redis_cmd i junk now cmdstr ty =
     \<lparr>cid = i, command = cmdstr, replyType = ty, rtype = CHR 0x00, intReply = 0, bulks = [], errCode = junk, isBulkPayload = False,
      nBulksLeft = 0, stampCreated = now, stampSent = 0, stampReceived = 0\<rparr>"

subsection \<open>Lines\<close>

abbreviation NUL :: char where "NUL \<equiv> CHR 0x00"
abbreviation CR :: char where "CR \<equiv> CHR 0x0D"
abbreviation LF :: char where "LF \<equiv> CHR 0x0A"

text \<open>\<open>_nextLine\<close>: the start of the line, and the buffer with the line terminated by a NUL.\<close>

definition next_line :: "string \<Rightarrow> nat \<Rightarrow> nat \<Rightarrow> int \<Rightarrow> (nat \<times> string) option" where
  "next_line buf p maxByte minLen =
     (let k = length (takeWhile (\<lambda>c. c = NUL \<or> c = LF) (take maxByte (drop p buf)));
          start = p + k;
          ml = nat (max 0 minLen);
          left = maxByte - k - ml;
          n = length (takeWhile (\<lambda>c. c \<noteq> CR \<and> c \<noteq> LF) (take left (drop (start + ml) buf)))
      in if left - n = 0 then None
         else Some (start, if buf ! (start + ml + n) = CR then buf[start + ml + n := NUL] else buf))"

text \<open>\<open>strlen\<close> at a place of the buffer; \<open>None\<close> if it runs off the end.\<close>

definition line_at :: "string \<Rightarrow> nat \<Rightarrow> string option" where
  "line_at buf start = (if NUL \<in> set (drop start buf) then Some (takeWhile (\<lambda>c. c \<noteq> NUL) (drop start buf)) else None)"

subsection \<open>Replies\<close>

text \<open>A line of a bulk: its length, or its payload. The result: the command, the minimal length of the next line, and
  whether the loop goes on.\<close>

definition bulk_line :: "string \<Rightarrow> int \<Rightarrow> redis_cmd \<Rightarrow> redis_cmd \<times> int \<times> bool" where
  "bulk_line line minLen c =
     (if \<not> isBulkPayload c
      then if hd line \<noteq> CHR ''$'' then (c\<lparr>errCode := rdeProtocolMissed\<rparr>, minLen, False)
           else (let m = atoi (tl line)
                 in if m < 0 then (c\<lparr>bulks := bulks c @ [[]], nBulksLeft := nBulksLeft c - 1\<rparr>, m, True)
                    else (c\<lparr>isBulkPayload := True\<rparr>, m, True))
      else (c\<lparr>bulks := bulks c @ [line], nBulksLeft := nBulksLeft c - 1, isBulkPayload := False\<rparr>, 0, True))"

text \<open>The first line of a reply; a reply of another type than the command expects ends the loop.\<close>

definition reply_head :: "string \<Rightarrow> redis_cmd \<Rightarrow> redis_cmd \<times> int" where
  "reply_head line c =
     (let ty = hd line; arg = tl line; c1 = c\<lparr>rtype := ty, nBulksLeft := 0, isBulkPayload := False\<rparr>
      in if ty = CHR ''-'' then (c1\<lparr>bulks := bulks c1 @ [arg], errCode := rdeServerReturnedError\<rparr>, 0)
         else if ty = CHR ''+'' then (c1\<lparr>bulks := bulks c1 @ [arg], errCode := 0\<rparr>, 0)
         else if ty = CHR '':'' then (c1\<lparr>intReply := atoi arg, errCode := 0\<rparr>, 0)
         else if ty = CHR ''$''
         then (if atoi arg \<le> 0 then (c1\<lparr>errCode := 0\<rparr>, atoi arg)
               else (c1\<lparr>isBulkPayload := True, nBulksLeft := 1\<rparr>, atoi arg))
         else if ty = CHR ''*''
         then (if atoi arg \<le> 0 then (c1\<lparr>errCode := 0\<rparr>, 0) else (c1\<lparr>nBulksLeft := atoi arg\<rparr>, 0))
         else (c1\<lparr>errCode := rdeProtocolMissed\<rparr>, 0))"

definition begin_reply :: "string \<Rightarrow> redis_cmd \<Rightarrow> redis_cmd \<times> int \<times> bool" where
  "begin_reply line c =
     (let (c', m) = reply_head line c
      in (c', m, \<not> (errCode c' = rdeProtocolMissed \<or> rtype c' \<noteq> CHR ''-'' \<and> replyType c' \<noteq> rtype c')))"

text \<open>One non-empty line: the minimal length, the awaiting commands, the completed ones, and whether the loop goes on.\<close>

type_synonym progress = "int \<times> redis_cmd list \<times> redis_cmd list"

definition take_line :: "string \<Rightarrow> progress \<Rightarrow> progress \<times> bool" where
  "take_line line \<sigma> =
     (case \<sigma> of (m, rcv, ready) \<Rightarrow>
        (let c = hd rcv
         in if rtype c \<noteq> NUL \<and> nBulksLeft c > 0
            then (let (c', m', go) = bulk_line line m c in ((m', c' # tl rcv, ready), go))
            else (let (rcv1, ready1) = (if rtype c \<noteq> NUL then (tl rcv, ready @ [c]) else (rcv, ready))
                  in if rcv1 = [] then ((m, [], ready1), False)
                     else (let (c', m', go) = begin_reply line (hd rcv1) in ((m', c' # tl rcv1, ready1), go)))))"

text \<open>The loop over the buffer from \<open>p\<close> to \<open>e\<close>: the buffer, the place reached, and the progress.\<close>

function recv_loop :: "string \<Rightarrow> nat \<Rightarrow> nat \<Rightarrow> progress \<Rightarrow> (string \<times> nat \<times> progress) option" where
  "recv_loop buf p e \<sigma> =
     (if p \<ge> e \<or> fst (snd \<sigma>) = [] then Some (buf, p, \<sigma>)
      else (case next_line buf p (e - p) (fst \<sigma>) of
              None \<Rightarrow> Some (buf, p, \<sigma>)
            | Some (start, buf') \<Rightarrow>
                (case line_at buf' start of
                   None \<Rightarrow> None
                 | Some line \<Rightarrow>
                     (let p' = p + length line + 2
                      in if line = [] then recv_loop buf' p' e \<sigma>
                         else if snd (take_line line \<sigma>) then recv_loop buf' p' e (fst (take_line line \<sigma>))
                         else Some (buf', p', fst (take_line line \<sigma>))))))"
  by pat_completeness auto

termination
  by (relation "measure (\<lambda>(buf, p, e, \<sigma>). e - p)") auto

declare recv_loop.simps [simp del]

text \<open>The end of the loop: the current command may be complete.\<close>

definition finish_reply :: "progress \<Rightarrow> progress" where
  "finish_reply \<sigma> =
     (case \<sigma> of (m, rcv, ready) \<Rightarrow>
        if rcv \<noteq> [] \<and> rtype (hd rcv) \<noteq> NUL \<and> nBulksLeft (hd rcv) \<le> 0 then (m, tl rcv, ready @ [hd rcv]) else \<sigma>)"

subsection \<open>The client\<close>

text \<open>\<open>errors\<close> are the error notifications handed to the thread pool, \<open>replied\<close> the commands whose \<open>OnReply\<close> was called.\<close>

text \<open>The states of the socket that the client tells apart: without a handle (\<open>_so < 0\<close>), connecting, connected.\<close>

datatype sock_state = stInitial | stConnecting | stConnected

record redis_client =
  inbuf :: string
  inseen :: nat
  commandsToSend :: "redis_cmd list"
  commandsToReceive :: "redis_cmd list"
  receivesCmd :: int
  completeCmd :: int
  redisErr :: int
  sendErrors :: nat
  connectTimeout :: int
  messageTimeout :: int
  sockTimeout :: int
  sockState :: sock_state
  errors :: "(redis_cmd \<times> int) list"
  replied :: "redis_cmd list"

definition cancelCommands :: "redis_client \<Rightarrow> redis_client" where
  "cancelCommands s =
     s\<lparr>commandsToSend := [], commandsToReceive := [],
       errors := errors s @ map (\<lambda>c. (c, rdeClientCanceled)) (commandsToSend s @ commandsToReceive s)\<rparr>"

definition redis_disconnect :: "redis_client \<Rightarrow> redis_client" where
  "redis_disconnect s = (cancelCommands s)\<lparr>sockState := stInitial\<rparr>"

definition redis_OnError :: "redis_client \<Rightarrow> redis_client" where
  "redis_OnError s = redis_disconnect s"

text \<open>What \<open>recv\<close> answers: an error (temporary or not), or bytes.\<close>

datatype received = Temporary | Broken | Bytes string

definition room :: "redis_client \<Rightarrow> nat" where
  "room s = (if length (inbuf s) - inseen s = 0 then length (inbuf s) else length (inbuf s) - inseen s)"

definition OnDataArrived :: "int \<Rightarrow> received \<Rightarrow> redis_client \<Rightarrow> redis_client option" where
  "OnDataArrived now r s =
     (let s1 = (if length (inbuf s) - inseen s = 0 then s\<lparr>inseen := 0\<rparr> else s)
      in case r of
           Temporary \<Rightarrow> Some s1
         | Broken \<Rightarrow> Some (redis_OnError s1)
         | Bytes data \<Rightarrow>
             (let seen = inseen s1; e = seen + length data;
                  buf = take seen (inbuf s1) @ data @ drop e (inbuf s1);
                  s2 = s1\<lparr>inbuf := buf, sendErrors := 0\<rparr>
              in if commandsToReceive s2 = [] then Some s2
                 else (case recv_loop buf 0 e (0, commandsToReceive s2, []) of
                         None \<Rightarrow> None
                       | Some (buf', p, \<sigma>) \<Rightarrow>
                           (let (m, rcv, ready) = finish_reply \<sigma>;
                                s3 = s2\<lparr>inbuf := buf', commandsToReceive := rcv,
                                       completeCmd := completeCmd s2 + int (length ready),
                                       replied := replied s2 @ map (\<lambda>c. c\<lparr>stampReceived := now\<rparr>) ready\<rparr>
                            in Some (if p \<le> e
                                     then s3\<lparr>inbuf := take (e - p) (drop p buf') @ drop (e - p) buf', inseen := e - p\<rparr>
                                     else s3)))))"

end
