(* ===== verification/Redis_Props.thy ===== *)
theory Redis_Props
  imports Redis_Reply
begin

text \<open>
  What the reply machine of Redis\_Reply delivers: a stream of well-formed replies reaches the awaiting commands
  whatever its cut into received pieces is, provided that no piece ends between a CR and its LF.
\<close>

subsection \<open>Lines of a buffer\<close>

definition plain :: "string \<Rightarrow> bool" where
  "plain l \<longleftrightarrow> NUL \<notin> set l \<and> CR \<notin> set l \<and> LF \<notin> set l"

definition crlf :: "string list \<Rightarrow> string" where
  "crlf ls = concat (map (\<lambda>l. l @ [CR, LF]) ls)"

lemma crlf_simps [simp]: "crlf [] = []" "crlf (l # ls) = l @ CR # LF # crlf ls" "crlf (xs @ ys) = crlf xs @ crlf ys"
  by (simp_all add: crlf_def)

lemma plain_simps [simp]: "plain []" "plain (x # xs) \<longleftrightarrow> x \<noteq> NUL \<and> x \<noteq> CR \<and> x \<noteq> LF \<and> plain xs"
  "plain (xs @ ys) \<longleftrightarrow> plain xs \<and> plain ys"
  by (auto simp: plain_def)

lemma takeWhile_plain: "plain l \<Longrightarrow> takeWhile (\<lambda>c. c \<noteq> CR \<and> c \<noteq> LF) l = l"
  by (auto simp: plain_def takeWhile_eq_all_conv)

lemma plain_skip: "plain l \<Longrightarrow> takeWhile (\<lambda>c. c = NUL \<or> c = LF) (l @ CR # xs) = []"
  by (cases l) auto

lemma plain_drop: "plain l \<Longrightarrow> plain (drop n l)"
  by (auto simp: plain_def dest: in_set_dropD)

lemma next_line_found:
  assumes "plain l" and "m \<le> int (length l)"
  shows "next_line (pre @ l @ CR # LF # post @ stale) (length pre) (length l + 2 + length post) m =
     Some (length pre, pre @ l @ NUL # LF # post @ stale)"
proof -
  define ml where "ml = nat (max 0 m)"
  have ml: "ml \<le> length l" using assms(2) by (simp add: ml_def)
  let ?buf = "pre @ l @ CR # LF # post @ stale"
  have k: "takeWhile (\<lambda>c. c = NUL \<or> c = LF) (take (length l + 2 + length post) (drop (length pre) ?buf)) = []"
    using plain_skip [OF assms(1)] by simp
  have d: "drop (length pre + ml) ?buf = drop ml l @ CR # LF # post @ stale" using ml by simp
  have t: "take (length l + 2 + length post - ml) (drop ml l @ CR # LF # post @ stale) = drop ml l @ CR # LF # post"
    using ml by simp
  have n: "takeWhile (\<lambda>c. c \<noteq> CR \<and> c \<noteq> LF) (drop ml l @ CR # LF # post) = drop ml l"
    using takeWhile_plain [OF plain_drop [OF assms(1)]] by (simp add: takeWhile_append2 takeWhile_eq_all_conv)
  have i: "length pre + ml + (length l - ml) = length (pre @ l)" using ml by simp
  have c: "?buf ! length (pre @ l) = CR" by (simp add: nth_append)
  have u: "?buf[length (pre @ l) := NUL] = pre @ l @ NUL # LF # post @ stale" by (simp add: list_update_append)
  have left: "length l + 2 + length post - ml - (length l - ml) \<noteq> 0" using ml by simp
  show ?thesis
    unfolding next_line_def Let_def k ml_def [symmetric] list.size(3) add_0_right diff_zero d t n length_drop i c u
    using left by simp
qed

lemma next_line_missing:
  assumes "plain rest" and "rest \<noteq> []"
  shows "next_line (pre @ rest @ stale) (length pre) (length rest) m = None"
proof -
  define ml where "ml = nat (max 0 m)"
  have k: "takeWhile (\<lambda>c. c = NUL \<or> c = LF) (take (length rest) (drop (length pre) (pre @ rest @ stale))) = []"
    using assms by (cases rest) auto
  have t: "take (length rest - ml) (drop (length pre + ml) (pre @ rest @ stale)) = drop ml rest"
    by (cases "ml \<le> length rest") simp_all
  have n: "takeWhile (\<lambda>c. c \<noteq> CR \<and> c \<noteq> LF) (drop ml rest) = drop ml rest"
    by (rule takeWhile_plain [OF plain_drop [OF assms(1)]])
  show ?thesis
    unfolding next_line_def Let_def k ml_def [symmetric] list.size(3) add_0_right diff_zero t n by simp
qed

lemma takeWhile_until: "c \<notin> set l \<Longrightarrow> takeWhile (\<lambda>x. x \<noteq> c) (l @ c # xs) = l"
  by (induction l) auto

lemma line_at_found: "plain l \<Longrightarrow> line_at (pre @ l @ NUL # xs) (length pre) = Some l"
  by (simp add: line_at_def plain_def takeWhile_until)

subsection \<open>The loop over complete lines\<close>

text \<open>The lines one after the other, as long as the machine goes on.\<close>

fun run_lines :: "string list \<Rightarrow> progress \<Rightarrow> progress option" where
  "run_lines [] \<sigma> = Some \<sigma>"
| "run_lines (l # ls) \<sigma> =
     (if fst \<sigma> > int (length l) \<or> fst (snd \<sigma>) = [] then None
      else if l = [] then run_lines ls \<sigma>
      else if snd (take_line l \<sigma>) then run_lines ls (fst (take_line l \<sigma>))
      else None)"

lemma run_lines_append: "run_lines (xs @ ys) \<sigma> = (case run_lines xs \<sigma> of None \<Rightarrow> None | Some \<sigma>' \<Rightarrow> run_lines ys \<sigma>')"
  by (induction xs arbitrary: \<sigma>) auto

text \<open>On a buffer that holds complete lines and the start of one, the loop does what \<open>run_lines\<close> does.\<close>

lemma recv_loop_lines:
  assumes "list_all plain ls" and "plain rest" and "run_lines ls \<sigma> = Some \<sigma>'"
  shows "\<exists>pre'. length pre' = length (pre @ crlf ls) \<and>
     recv_loop (pre @ crlf ls @ rest @ stale) (length pre) (length (pre @ crlf ls @ rest)) \<sigma> =
       Some (pre' @ rest @ stale, length pre', \<sigma>')"
  using assms(1,3)
proof (induction ls arbitrary: pre \<sigma>)
  case Nil
  then have e: "\<sigma>' = \<sigma>" by simp
  have "recv_loop (pre @ rest @ stale) (length pre) (length (pre @ rest)) \<sigma> = Some (pre @ rest @ stale, length pre, \<sigma>)"
  proof (cases "rest = []")
    case True
    then show ?thesis by (simp add: recv_loop.simps)
  next
    case False
    then show ?thesis
      using next_line_missing [OF assms(2) False, of pre stale "fst \<sigma>"] by (subst recv_loop.simps) simp
  qed
  then show ?case by (intro exI [of _ pre]) (simp add: e)
next
  case (Cons l ls)
  have pl: "plain l" "list_all plain ls" using Cons.prems(1) by simp_all
  have m: "fst \<sigma> \<le> int (length l)" "fst (snd \<sigma>) \<noteq> []" using Cons.prems(2) by (simp_all split: if_splits)
  let ?post = "crlf ls @ rest" let ?pre = "pre @ l @ [NUL, LF]"
  have nl: "next_line (pre @ crlf (l # ls) @ rest @ stale) (length pre) (length (pre @ crlf (l # ls) @ rest) - length pre) (fst \<sigma>) =
      Some (length pre, ?pre @ crlf ls @ rest @ stale)"
    using next_line_found [OF pl(1) m(1), of pre ?post stale] by simp
  have la: "line_at (?pre @ crlf ls @ rest @ stale) (length pre) = Some l"
    using line_at_found [OF pl(1), of pre "LF # crlf ls @ rest @ stale"] by simp
  define \<tau> where "\<tau> = (if l = [] then \<sigma> else fst (take_line l \<sigma>))"
  have st: "l \<noteq> [] \<longrightarrow> snd (take_line l \<sigma>)" and run: "run_lines ls \<tau> = Some \<sigma>'"
    using Cons.prems(2) by (simp_all add: \<tau>_def split: if_splits)
  have "recv_loop (pre @ crlf (l # ls) @ rest @ stale) (length pre) (length (pre @ crlf (l # ls) @ rest)) \<sigma> =
      recv_loop (?pre @ crlf ls @ rest @ stale) (length ?pre) (length (?pre @ crlf ls @ rest)) \<tau>"
    using nl la m(2) st by (subst recv_loop.simps) (simp add: \<tau>_def)
  moreover obtain pre' where "length pre' = length (?pre @ crlf ls)"
    "recv_loop (?pre @ crlf ls @ rest @ stale) (length ?pre) (length (?pre @ crlf ls @ rest)) \<tau> =
       Some (pre' @ rest @ stale, length pre', \<sigma>')"
    using Cons.IH [OF pl(2) run, of ?pre] by blast
  ultimately show ?case by (intro exI [of _ pre']) simp
qed

subsection \<open>Well-formed replies\<close>

datatype reply = Inline string | Err string | Int_reply int | Nil_bulk | Empty_bulk | Bulk string
  | Multi "string option list"

fun elem_lines :: "string option \<Rightarrow> string list" where
  "elem_lines None = [''$-1'']"
| "elem_lines (Some s) = [CHR ''$'' # itoa (int (length s)), s]"

fun reply_lines :: "reply \<Rightarrow> string list" where
  "reply_lines (Inline s) = [CHR ''+'' # s]"
| "reply_lines (Err s) = [CHR ''-'' # s]"
| "reply_lines (Int_reply n) = [CHR '':'' # itoa n]"
| "reply_lines Nil_bulk = [''$-1'']"
| "reply_lines Empty_bulk = [''$0'', []]"
| "reply_lines (Bulk s) = [CHR ''$'' # itoa (int (length s)), s]"
| "reply_lines (Multi xs) = (CHR ''*'' # itoa (int (length xs))) # concat (map elem_lines xs)"

definition payload_ok :: "string \<Rightarrow> bool" where
  "payload_ok s \<longleftrightarrow> plain s \<and> s \<noteq> []"

fun reply_ok :: "reply \<Rightarrow> bool" where
  "reply_ok (Inline s) = plain s"
| "reply_ok (Err s) = plain s"
| "reply_ok (Bulk s) = payload_ok s"
| "reply_ok (Int_reply n) = (- (2 ^ 31) \<le> n \<and> n < 2 ^ 31)"
| "reply_ok (Multi xs) = list_all (\<lambda>x. case x of None \<Rightarrow> True | Some s \<Rightarrow> payload_ok s) xs"
| "reply_ok r = True"

fun reply_type :: "reply \<Rightarrow> char" where
  "reply_type (Inline s) = CHR ''+''"
| "reply_type (Err s) = CHR ''-''"
| "reply_type (Int_reply n) = CHR '':''"
| "reply_type (Multi xs) = CHR ''*''"
| "reply_type r = CHR ''$''"

definition elem_bulk :: "string option \<Rightarrow> string" where
  "elem_bulk x = (case x of None \<Rightarrow> [] | Some s \<Rightarrow> s)"

fun reply_bulks :: "reply \<Rightarrow> string list" where
  "reply_bulks (Inline s) = [s]"
| "reply_bulks (Err s) = [s]"
| "reply_bulks (Bulk s) = [s]"
| "reply_bulks (Multi xs) = map elem_bulk xs"
| "reply_bulks r = []"

fun reply_err :: "int \<Rightarrow> reply \<Rightarrow> int" where
  "reply_err junk (Err s) = rdeServerReturnedError"
| "reply_err junk (Bulk s) = junk"
| "reply_err junk (Multi xs) = (if xs = [] then 0 else junk)"
| "reply_err junk r = 0"

definition answered :: "redis_cmd \<Rightarrow> reply \<Rightarrow> redis_cmd" where
  "answered c r = c\<lparr>rtype := reply_type r, intReply := (case r of Int_reply n \<Rightarrow> n | _ \<Rightarrow> 0), bulks := reply_bulks r,
     errCode := reply_err (errCode c) r, isBulkPayload := False, nBulksLeft := 0\<rparr>"

text \<open>A command that awaits its reply, and a reply it can take.\<close>

definition awaits :: "redis_cmd \<Rightarrow> reply \<Rightarrow> bool" where
  "awaits c r \<longleftrightarrow> rtype c = NUL \<and> intReply c = 0 \<and> bulks c = [] \<and> errCode c \<noteq> rdeProtocolMissed \<and> reply_ok r \<and>
     (replyType c = reply_type r \<or> reply_type r = CHR ''-'')"

lemma itoa_plain: "plain (itoa n)"
proof -
  have d: "plain (nat_dec k)" for k
  proof -
    have "is_digit NUL = False" "is_digit CR = False" "is_digit LF = False" by code_simp+
    then show ?thesis using nat_dec_digits [of k] by (auto simp: plain_def)
  qed
  then show ?thesis by (simp add: itoa_def)
qed

lemma reply_lines_plain: "reply_ok r \<Longrightarrow> list_all plain (reply_lines r)"
proof (cases r)
  case (Multi xs)
  assume ok: "reply_ok r"
  have "list_all plain (elem_lines x)" if "x \<in> set xs" for x
    using ok that Multi by (cases x) (auto simp: itoa_plain payload_ok_def list_all_iff)
  then show ?thesis using Multi by (auto simp: itoa_plain list_all_iff)
qed (auto simp: itoa_plain payload_ok_def)

lemma atoi_consts: "atoi ''-1'' = - 1" "atoi ''0'' = 0"
  by code_simp+

text \<open>The elements of a multi-bulk reply.\<close>

lemma run_elems:
  assumes "list_all (\<lambda>x. case x of None \<Rightarrow> True | Some s \<Rightarrow> payload_ok s) xs" and "m \<le> 0"
    and "rtype c = CHR ''*''" and "nBulksLeft c = int (length xs)" and "\<not> isBulkPayload c"
  shows "\<exists>m' \<le> 0. run_lines (concat (map elem_lines xs)) (m, c # rcv, ready) =
     Some (m', c\<lparr>bulks := bulks c @ map elem_bulk xs, nBulksLeft := 0, isBulkPayload := False\<rparr> # rcv, ready)"
  using assms
proof (induction xs arbitrary: m c)
  case Nil
  then show ?case by (intro exI [of _ m]) simp
next
  case (Cons x xs)
  let ?c = "c\<lparr>bulks := bulks c @ [elem_bulk x], nBulksLeft := int (length xs), isBulkPayload := False\<rparr>"
  have "\<exists>k \<le> 0. run_lines (elem_lines x) (m, c # rcv, ready) = Some (k, ?c # rcv, ready)"
  proof (cases x)
    case None
    then show ?thesis using Cons.prems
      by (intro exI [of _ "- 1"]) (simp add: take_line_def bulk_line_def atoi_consts elem_bulk_def)
  next
    case (Some s)
    then show ?thesis using Cons.prems
      by (intro exI [of _ 0]) (simp add: take_line_def bulk_line_def atoi_itoa elem_bulk_def payload_ok_def)
  qed
  then obtain k where k: "k \<le> 0" "run_lines (elem_lines x) (m, c # rcv, ready) = Some (k, ?c # rcv, ready)" by blast
  have "\<exists>m' \<le> 0. run_lines (concat (map elem_lines xs)) (k, ?c # rcv, ready) =
      Some (m', ?c\<lparr>bulks := bulks ?c @ map elem_bulk xs, nBulksLeft := 0, isBulkPayload := False\<rparr> # rcv, ready)"
    using Cons.prems by (intro Cons.IH k(1)) simp_all
  then show ?case by (simp add: run_lines_append k(2))
qed

text \<open>A head of the queue that is answered, and one that is not yet.\<close>

definition complete :: "redis_cmd \<Rightarrow> bool" where
  "complete c \<longleftrightarrow> rtype c \<noteq> NUL \<and> nBulksLeft c \<le> 0"

lemma complete_answered: "complete (answered c r)"
  by (cases r) (simp_all add: complete_def answered_def)

lemma take_line_pops:
  assumes "complete d" and "rcv \<noteq> []" and "rtype (hd rcv) = NUL"
  shows "take_line l (m, d # rcv, ready) = take_line l (m', rcv, ready @ [d])"
  using assms by (cases rcv) (auto simp: take_line_def complete_def)

lemma run_lines_pops:
  assumes "complete d" and "rcv \<noteq> []" and "rtype (hd rcv) = NUL" and "m \<le> 0" and "l \<noteq> []"
  shows "run_lines (l # ls) (m, d # rcv, ready) = run_lines (l # ls) (0, rcv, ready @ [d])"
  using assms take_line_pops [OF assms(1-3), of l m ready 0] by simp

text \<open>A whole reply answers its command.\<close>

lemma run_reply:
  assumes "awaits c r" and "m \<le> 0"
  shows "\<exists>m' \<le> 0. run_lines (reply_lines r) (m, c # rcv, ready) = Some (m', answered c r # rcv, ready)"
proof (cases r)
  case (Multi xs)
  show ?thesis
  proof (cases "xs = []")
    case True
    then show ?thesis using assms Multi
      by (intro exI [of _ 0]) (simp add: take_line_def begin_reply_def reply_head_def atoi_itoa_any answered_def awaits_def rde_defs)
  next
    case False
    let ?c = "c\<lparr>rtype := CHR ''*'', isBulkPayload := False, nBulksLeft := int (length xs)\<rparr>"
    have h: "run_lines (reply_lines r) (m, c # rcv, ready) = run_lines (concat (map elem_lines xs)) (0, ?c # rcv, ready)"
      using assms Multi False
      by (simp add: take_line_def begin_reply_def reply_head_def atoi_itoa_any awaits_def rde_defs)
    obtain k where "k \<le> 0" "run_lines (concat (map elem_lines xs)) (0, ?c # rcv, ready) =
        Some (k, ?c\<lparr>bulks := bulks ?c @ map elem_bulk xs, nBulksLeft := 0, isBulkPayload := False\<rparr> # rcv, ready)"
      using run_elems [of xs 0 ?c rcv ready] assms Multi by (auto simp: awaits_def)
    then show ?thesis using assms(1) Multi False h by (intro exI [of _ k]) (simp add: answered_def awaits_def)
  qed
next
  case (Bulk s)
  then show ?thesis using assms
    by (intro exI [of _ 0])
      (simp add: take_line_def begin_reply_def bulk_line_def reply_head_def atoi_itoa_any answered_def awaits_def payload_ok_def rde_defs)
next
  case Nil_bulk
  then show ?thesis using assms
    by (intro exI [of _ "- 1"]) (simp add: take_line_def begin_reply_def reply_head_def atoi_consts answered_def awaits_def rde_defs)
qed (use assms in \<open>auto simp: take_line_def begin_reply_def reply_head_def atoi_consts atoi_itoa_any answered_def awaits_def rde_defs\<close>)

subsection \<open>A stream of replies\<close>

definition wire_lines :: "reply list \<Rightarrow> string list" where
  "wire_lines rs = concat (map reply_lines rs)"

lemma reply_lines_Cons: "\<exists>l ls. reply_lines r = l # ls \<and> l \<noteq> []"
  by (cases r) auto

lemma run_replies:
  assumes "list_all2 awaits cs rs" and "m \<le> 0"
  shows "\<exists>\<tau>. run_lines (wire_lines rs) (m, cs, ready) = Some \<tau> \<and>
     snd (finish_reply \<tau>) = ([], ready @ map2 answered cs rs)"
  using assms
proof (induction cs rs arbitrary: m ready rule: list_all2_induct)
  case Nil
  then show ?case by (simp add: wire_lines_def finish_reply_def)
next
  case (Cons c cs r rs)
  obtain k where k: "k \<le> 0" "run_lines (reply_lines r) (m, c # cs, ready) = Some (k, answered c r # cs, ready)"
    using run_reply [OF Cons.hyps(1) Cons.prems] by blast
  show ?case
  proof (cases rs)
    case Nil
    then have "cs = []" using Cons.hyps(2) by simp
    then show ?thesis using Nil k(2) complete_answered [of c r]
      by (simp add: wire_lines_def finish_reply_def complete_def)
  next
    case (Cons r' rs')
    then obtain c' cs' where cs: "cs = c' # cs'" "rtype c' = NUL"
      using Cons.hyps(2) by (auto simp: list_all2_Cons2 awaits_def)
    obtain l ls where l: "reply_lines r' = l # ls" "l \<noteq> []" using reply_lines_Cons by blast
    have "run_lines (wire_lines rs) (k, answered c r # cs, ready) = run_lines (wire_lines rs) (0, cs, ready @ [answered c r])"
      using run_lines_pops [OF complete_answered _ _ k(1) l(2), of cs "ls @ wire_lines rs'" c r ready] cs Cons l(1)
      by (simp add: wire_lines_def del: run_lines.simps)
    moreover obtain \<tau> where "run_lines (wire_lines rs) (0, cs, ready @ [answered c r]) = Some \<tau>"
      "snd (finish_reply \<tau>) = ([], (ready @ [answered c r]) @ map2 answered cs rs)"
      using Cons.IH [of 0 "ready @ [answered c r]"] by auto
    ultimately show ?thesis using k(2) by (simp add: wire_lines_def run_lines_append)
  qed
qed

text \<open>Between two received pieces the minimal length is forgotten and a complete head is taken away; that changes nothing.\<close>

definition queue_ok :: "progress \<Rightarrow> bool" where
  "queue_ok \<sigma> \<longleftrightarrow> list_all (\<lambda>c. rtype c = NUL) (tl (fst (snd \<sigma>)))"

lemma take_line_queue: "queue_ok \<sigma> \<Longrightarrow> queue_ok (fst (take_line l \<sigma>))"
  by (cases \<sigma>; cases "fst (snd \<sigma>)")
    (auto simp: take_line_def queue_ok_def Let_def list.pred_set split: prod.splits if_splits dest: list.set_sel(2))

lemma run_lines_queue: "queue_ok \<sigma> \<Longrightarrow> run_lines ls \<sigma> = Some \<tau> \<Longrightarrow> queue_ok \<tau>"
proof (induction ls arbitrary: \<sigma>)
  case (Cons l ls)
  from Cons.prems(2) have "run_lines ls \<sigma> = Some \<tau> \<or> run_lines ls (fst (take_line l \<sigma>)) = Some \<tau>"
    by (simp split: if_splits)
  with Cons.IH Cons.prems(1) take_line_queue show ?case by metis
qed simp

lemma take_line_min:
  "snd (take_line l (m, rcv, ready)) \<Longrightarrow> take_line l (0, rcv, ready) = take_line l (m, rcv, ready)"
  by (auto simp: take_line_def bulk_line_def Let_def split: prod.splits if_splits)

lemma take_line_only:
  "complete c \<Longrightarrow> \<not> snd (take_line l (m, [c], ready))"
  by (simp add: take_line_def complete_def)

lemma finish_reply_complete: "complete c \<Longrightarrow> finish_reply (m, c # rcv, ready) = (m, rcv, ready @ [c])"
  by (simp add: finish_reply_def complete_def)

lemma finish_reply_other: "\<not> complete c \<Longrightarrow> finish_reply (m, c # rcv, ready) = (m, c # rcv, ready)"
  by (simp add: finish_reply_def complete_def)

lemma run_settle:
  assumes "run_lines ls (m, rcv, ready) = Some \<tau>" and "queue_ok (m, rcv, ready)" and "rcv \<noteq> []"
    and "finish_reply (m, rcv, ready) = (m1, rcv1, ready1)"
  shows "(rcv1 = [] \<longrightarrow> list_all (\<lambda>l. l = []) ls \<and> snd (finish_reply \<tau>) = (rcv1, ready1)) \<and>
     (rcv1 \<noteq> [] \<longrightarrow> (\<exists>\<tau>1. run_lines ls (0, rcv1, ready1) = Some \<tau>1 \<and> snd (finish_reply \<tau>1) = snd (finish_reply \<tau>)))"
  using assms(1)
proof (induction ls)
  case Nil
  obtain c rest where rcv: "rcv = c # rest" using assms(3) by (cases rcv) auto
  show ?case
  proof (cases "complete c")
    case True
    then have e: "rcv1 = rest" "ready1 = ready @ [c]" using assms(4) by (simp_all add: rcv finish_reply_complete)
    have "\<not> complete (hd rest)" if "rest \<noteq> []"
      using assms(2) that by (cases rest) (simp_all add: queue_ok_def rcv complete_def)
    then show ?thesis using Nil True e
      by (cases rest) (auto simp: rcv finish_reply_complete finish_reply_other)
  next
    case False
    then show ?thesis using Nil assms(4) by (auto simp: rcv finish_reply_other)
  qed
next
  case (Cons l ls)
  show ?case
  proof (cases "l = []")
    case True
    then have "run_lines ls (m, rcv, ready) = Some \<tau>" using Cons.prems by (simp split: if_splits)
    from Cons.IH [OF this] True show ?thesis by auto
  next
    case False
    obtain c rest where rcv: "rcv = c # rest" using assms(3) by (cases rcv) auto
    have go: "snd (take_line l (m, rcv, ready))" "m \<le> int (length l)" "run_lines ls (fst (take_line l (m, rcv, ready))) = Some \<tau>"
      using Cons.prems False by (simp_all split: if_splits)
    show ?thesis
    proof (cases "complete c")
      case True
      then have e: "rcv1 = rest" "ready1 = ready @ [c]" using assms(4) by (simp_all add: rcv finish_reply_complete)
      have ne: "rest \<noteq> []" using go(1) take_line_only [OF True] by (auto simp: rcv)
      then have "rtype (hd rest) = NUL" using assms(2) by (cases rest) (simp_all add: queue_ok_def rcv)
      from take_line_pops [OF True ne this, of l m ready 0] go ne show ?thesis by (simp add: e rcv False)
    next
      case False2: False
      then have "rcv1 = rcv" "ready1 = ready" using assms(4) by (simp_all add: rcv finish_reply_other)
      then show ?thesis using go take_line_min [OF go(1)] assms(3) False by simp
    qed
  qed
qed

text \<open>Completed commands pile up at the end.\<close>

definition add_ready :: "redis_cmd list \<Rightarrow> progress \<Rightarrow> progress" where
  "add_ready xs \<sigma> = (case \<sigma> of (m, rcv, ready) \<Rightarrow> (m, rcv, xs @ ready))"

lemma take_line_add: "take_line l (add_ready xs \<sigma>) = (case take_line l \<sigma> of (\<sigma>', go) \<Rightarrow> (add_ready xs \<sigma>', go))"
  by (cases \<sigma>) (auto simp: take_line_def add_ready_def Let_def split: prod.splits)

lemma run_lines_add: "run_lines ls (add_ready xs \<sigma>) = map_option (add_ready xs) (run_lines ls \<sigma>)"
  by (induction ls arbitrary: \<sigma>) (simp_all add: take_line_add case_prod_beta, simp_all add: add_ready_def case_prod_beta)

lemma finish_reply_add: "finish_reply (add_ready xs \<sigma>) = add_ready xs (finish_reply \<sigma>)"
  by (cases \<sigma>) (simp add: finish_reply_def add_ready_def)

subsection \<open>Received pieces\<close>

lemma crlf_Cons_cases:
  assumes "x @ y = l @ CR # LF # z" and "x = [] \<or> last x \<noteq> CR"
  obtains (short) w where "l = x @ w" and "y = w @ CR # LF # z"
    | (long) w where "x = l @ CR # LF # w" and "w @ y = z"
proof -
  from assms(1) consider us where "l = x @ us" "y = us @ CR # LF # z" | us where "x = l @ us" "us \<noteq> []" "us @ y = CR # LF # z"
  proof -
    from assms(1) obtain us where "x @ us = l \<and> y = us @ CR # LF # z \<or> x = l @ us \<and> us @ y = CR # LF # z"
      unfolding append_eq_append_conv2 by blast
    then show thesis using that by (cases "us = []") auto
  qed
  then show thesis
  proof cases
    case 1
    then show thesis by (rule short)
  next
    case 2
    then have "us \<noteq> [CR]" using assms(2) by auto
    with 2 obtain w where "us = CR # LF # w" "w @ y = z"
      by (cases us; cases "tl us") auto
    then show thesis using long 2(1) by simp
  qed
qed

text \<open>A piece of a stream of lines that does not end in CR: complete lines, and the start of the next one.\<close>

lemma cut_crlf:
  assumes "x @ y = crlf R" and "list_all plain R" and "x = [] \<or> last x \<noteq> CR"
  shows "\<exists>R1 R2 rest. R = R1 @ R2 \<and> x = crlf R1 @ rest \<and> rest @ y = crlf R2 \<and> plain rest \<and>
     (rest \<noteq> [] \<longrightarrow> R2 \<noteq> [] \<and> length rest \<le> length (hd R2))"
  using assms
proof (induction R arbitrary: x)
  case Nil
  then show ?case by (intro exI [of _ "[]"]) simp
next
  case (Cons l R)
  have e: "x @ y = l @ CR # LF # crlf R" using Cons.prems(1) by simp
  from e Cons.prems(3) show ?case
  proof (cases rule: crlf_Cons_cases)
    case (short w)
    then show ?thesis using Cons.prems(1,2)
      by (intro exI [of _ "[]"] exI [of _ "l # R"] exI [of _ x]) simp
  next
    case (long w)
    have "w = [] \<or> last w \<noteq> CR" using Cons.prems(3) long(1) by (cases w) auto
    then obtain R1 R2 rest where "R = R1 @ R2" "w = crlf R1 @ rest" "rest @ y = crlf R2" "plain rest"
      "rest \<noteq> [] \<longrightarrow> R2 \<noteq> [] \<and> length rest \<le> length (hd R2)"
      using Cons.IH [of w] long(2) Cons.prems(2) by auto
    then show ?thesis using long(1)
      by (intro exI [of _ "l # R1"] exI [of _ R2] exI [of _ rest]) simp
  qed
qed

text \<open>The state of the client in the middle of a stream: the lines still to be processed and the commands they will complete.\<close>

definition unstamped :: "redis_cmd \<Rightarrow> redis_cmd" where
  "unstamped c = c\<lparr>stampReceived := 0\<rparr>"

definition midway :: "redis_client \<Rightarrow> string list \<Rightarrow> string \<Rightarrow> redis_cmd list \<Rightarrow> bool" where
  "midway s R later F \<longleftrightarrow> list_all plain R \<and> inseen s \<le> length (inbuf s) \<and> take (inseen s) (inbuf s) @ later = crlf R \<and>
     (R \<noteq> [] \<longrightarrow> inseen s \<le> length (hd R)) \<and> (R = [] \<longrightarrow> inseen s = 0) \<and>
     queue_ok (0, commandsToReceive s, []) \<and> (commandsToReceive s \<noteq> [] \<longrightarrow> \<not> complete (hd (commandsToReceive s))) \<and>
     (if commandsToReceive s = [] then inseen s = 0 \<and> F = [] \<and> list_all (\<lambda>l. l = []) R
      else \<exists>\<tau>. run_lines R (0, commandsToReceive s, []) = Some \<tau> \<and> snd (finish_reply \<tau>) = ([], F))"

lemma list_all_plain_append: "list_all plain (xs @ ys) \<Longrightarrow> list_all plain xs \<and> list_all plain ys"
  by simp

lemma add_ready_Nil [simp]: "add_ready [] \<sigma> = \<sigma>"
  by (cases \<sigma>) (simp add: add_ready_def)

text \<open>After the complete lines of a piece: the commands completed by it, and the rest of the run.\<close>

lemma run_split:
  assumes "run_lines (R1 @ R2) (0, rcv, []) = Some \<tau>" and "snd (finish_reply \<tau>) = ([], F)"
    and "queue_ok (0, rcv, [])" and "rcv \<noteq> []"
  obtains m' rcv' ready' m2 rcv2 G where "run_lines R1 (0, rcv, []) = Some (m', rcv', ready')"
    and "finish_reply (m', rcv', ready') = (m2, rcv2, G)" and "queue_ok (0, rcv2, []) \<and> (rcv2 \<noteq> [] \<longrightarrow> \<not> complete (hd rcv2))"
    and "rcv2 = [] \<longrightarrow> list_all (\<lambda>l. l = []) R2 \<and> F = G"
    and "rcv2 \<noteq> [] \<longrightarrow> (\<exists>\<tau>' F2. run_lines R2 (0, rcv2, []) = Some \<tau>' \<and> snd (finish_reply \<tau>') = ([], F2) \<and> F = G @ F2)"
proof -
  from assms(1) obtain \<sigma> where r1: "run_lines R1 (0, rcv, []) = Some \<sigma>" and r2: "run_lines R2 \<sigma> = Some \<tau>"
    by (auto simp: run_lines_append split: option.splits)
  obtain m' rcv' ready' where s: "\<sigma> = (m', rcv', ready')" by (cases \<sigma>)
  obtain m2 rcv2 G where f: "finish_reply (m', rcv', ready') = (m2, rcv2, G)" by (cases "finish_reply (m', rcv', ready')")
  have q: "queue_ok (m', rcv', ready')" using run_lines_queue [OF assms(3) r1] by (simp add: s)
  have ne: "rcv' \<noteq> []"
  proof -
    have "fst (snd \<sigma>') \<noteq> [] \<Longrightarrow> run_lines ls \<sigma>' = Some \<tau>' \<Longrightarrow> fst (snd \<tau>') \<noteq> []" for ls \<sigma>' \<tau>'
    proof (induction ls arbitrary: \<sigma>')
      case (Cons l ls)
      have "snd (take_line l \<sigma>') \<Longrightarrow> fst (snd (fst (take_line l \<sigma>'))) \<noteq> []"
        by (cases \<sigma>') (auto simp: take_line_def Let_def split: if_splits prod.splits)
      with Cons show ?case by (simp split: if_splits)
    qed simp
    from this [of "(0, rcv, [])" R1 \<sigma>] r1 assms(4) show ?thesis by (simp add: s)
  qed
  have q2: "queue_ok (0, rcv2, []) \<and> (rcv2 \<noteq> [] \<longrightarrow> \<not> complete (hd rcv2))"
    using q f ne by (cases rcv'; cases "tl rcv'") (auto simp: queue_ok_def finish_reply_def complete_def split: if_splits)
  note st = run_settle [OF r2 [unfolded s] q ne f]
  show thesis
  proof (rule that [OF _ f q2])
    show "run_lines R1 (0, rcv, []) = Some (m', rcv', ready')" using r1 by (simp add: s)
    show "rcv2 = [] \<longrightarrow> list_all (\<lambda>l. l = []) R2 \<and> F = G" using st assms(2) by simp
    show "rcv2 \<noteq> [] \<longrightarrow> (\<exists>\<tau>' F2. run_lines R2 (0, rcv2, []) = Some \<tau>' \<and> snd (finish_reply \<tau>') = ([], F2) \<and> F = G @ F2)"
    proof
      assume "rcv2 \<noteq> []"
      with st obtain \<tau>1 where t: "run_lines R2 (0, rcv2, G) = Some \<tau>1" "snd (finish_reply \<tau>1) = snd (finish_reply \<tau>)"
        by blast
      have "(0, rcv2, G) = add_ready G (0, rcv2, [])" by (simp add: add_ready_def)
      with t(1) obtain \<tau>' where t': "run_lines R2 (0, rcv2, []) = Some \<tau>'" "\<tau>1 = add_ready G \<tau>'"
        by (auto simp: run_lines_add)
      obtain a b r where fr: "finish_reply \<tau>' = (a, b, r)" by (cases "finish_reply \<tau>'")
      then have "finish_reply \<tau>1 = add_ready G (a, b, r)" using t'(2) by (simp only: finish_reply_add)
      then have "b = [] \<and> F = G @ r" using t(2) assms(2) by (simp add: add_ready_def)
      with t'(1) fr show "\<exists>\<tau>' F2. run_lines R2 (0, rcv2, []) = Some \<tau>' \<and> snd (finish_reply \<tau>') = ([], F2) \<and> F = G @ F2"
        by auto
    qed
  qed
qed

lemma midway_step:
  assumes w: "midway s R (d @ later) F" and d: "d \<noteq> []" "last d \<noteq> CR"
    and fits: "\<forall>l \<in> set R. length l + length d \<le> length (inbuf s)"
  shows "\<exists>s' G F2 R2. OnDataArrived now (Bytes d) s = Some s' \<and> midway s' R2 later F2 \<and> F = G @ F2 \<and>
     replied s' = replied s @ map (\<lambda>c. c\<lparr>stampReceived := now\<rparr>) G \<and> set R2 \<subseteq> set R \<and> length (inbuf s') = length (inbuf s)"
proof -
  let ?n = "inseen s" let ?left = "take ?n (inbuf s)"
  have R: "R \<noteq> []" using w d(1) by (auto simp: midway_def)
  then have "length (hd R) + length d \<le> length (inbuf s)" "?n \<le> length (hd R)"
    using w fits hd_in_set [OF R] by (blast, simp add: midway_def)
  then have room: "?n + length d \<le> length (inbuf s)" by linarith
  have pl: "list_all plain R" and cut: "(?left @ d) @ later = crlf R" and len: "length ?left = ?n"
    using w by (simp_all add: midway_def)
  let ?buf = "?left @ d @ drop (?n + length d) (inbuf s)"
  have not_full: "length (inbuf s) - ?n \<noteq> 0" using room d(1) by (cases d) auto
  show ?thesis
  proof (cases "commandsToReceive s = []")
    case True
    then have e: "?n = 0" "F = []" "list_all (\<lambda>l. l = []) R" using w by (simp_all add: midway_def)
    obtain R1 R2 rest where c: "R = R1 @ R2" "d = crlf R1 @ rest" "rest @ later = crlf R2"
      "rest \<noteq> [] \<longrightarrow> R2 \<noteq> [] \<and> length rest \<le> length (hd R2)"
      using cut_crlf [of d later R] cut pl d e(1) by auto
    have "rest = []" using c(4) e(3) c(1) by (cases R2) auto
    let ?s' = "s\<lparr>inbuf := d @ drop (length d) (inbuf s), sendErrors := 0\<rparr>"
    have "OnDataArrived now (Bytes d) s = Some ?s'"
      using not_full True e(1) by (simp add: OnDataArrived_def Let_def)
    moreover have "midway ?s' R2 later []"
      using c(1,3) pl e(1,3) True w \<open>rest = []\<close> by (simp add: midway_def)
    ultimately show ?thesis using c(1) e(2) room by (intro exI [of _ ?s'] exI [of _ "[]"] exI [of _ R2]) auto
  next
    case False
    then obtain \<tau> where run: "run_lines R (0, commandsToReceive s, []) = Some \<tau>" "snd (finish_reply \<tau>) = ([], F)"
      using w by (auto simp: midway_def)
    have q: "queue_ok (0, commandsToReceive s, [])" using w by (simp add: midway_def)
    obtain R1 R2 rest where c: "R = R1 @ R2" "?left @ d = crlf R1 @ rest" "rest @ later = crlf R2" "plain rest"
      "rest \<noteq> [] \<longrightarrow> R2 \<noteq> [] \<and> length rest \<le> length (hd R2)"
      using cut_crlf [OF cut pl] d by auto
    obtain m' rcv' ready' m2 rcv2 G where r: "run_lines R1 (0, commandsToReceive s, []) = Some (m', rcv', ready')"
      "finish_reply (m', rcv', ready') = (m2, rcv2, G)" "queue_ok (0, rcv2, []) \<and> (rcv2 \<noteq> [] \<longrightarrow> \<not> complete (hd rcv2))"
      "rcv2 = [] \<longrightarrow> list_all (\<lambda>l. l = []) R2 \<and> F = G"
      "rcv2 \<noteq> [] \<longrightarrow> (\<exists>\<tau>' F2. run_lines R2 (0, rcv2, []) = Some \<tau>' \<and> snd (finish_reply \<tau>') = ([], F2) \<and> F = G @ F2)"
      by (rule run_split [OF run(1) [unfolded c(1)] run(2) q False])
    let ?stale = "drop (?n + length d) (inbuf s)"
    have pl1: "list_all plain R1" "list_all plain R2" using pl c(1) by simp_all
    obtain pre where pre: "length pre = length (crlf R1)"
      "recv_loop (crlf R1 @ rest @ ?stale) 0 (length (crlf R1 @ rest)) (0, commandsToReceive s, []) =
         Some (pre @ rest @ ?stale, length pre, (m', rcv', ready'))"
      using recv_loop_lines [OF pl1(1) c(4) r(1), of "[]" ?stale] by auto
    have bl: "?left @ d @ xs = crlf R1 @ rest @ xs" for xs using c(2) by (metis append_assoc)
    have el: "?n + length d = length (crlf R1 @ rest)" using c(2) len by (metis length_append)
    let ?s' = "s\<lparr>inbuf := rest @ drop (length rest) (pre @ rest @ ?stale), inseen := length rest, sendErrors := 0,
      commandsToReceive := rcv2, completeCmd := completeCmd s + int (length G),
      replied := replied s @ map (\<lambda>c. c\<lparr>stampReceived := now\<rparr>) G\<rparr>"
    have lp: "recv_loop ?buf 0 (?n + length d) (0, commandsToReceive s, []) =
        Some (pre @ rest @ ?stale, length pre, (m', rcv', ready'))"
      using pre(2) by (simp only: bl el)
    have le: "length pre \<le> ?n + length d" and sub: "?n + length d - length pre = length rest"
      using pre(1) el by simp_all
    have tk: "take (length rest) (drop (length pre) (pre @ rest @ ?stale)) = rest" by simp
    have on: "OnDataArrived now (Bytes d) s = Some ?s'"
      using not_full False r(2) le
      by (simp add: OnDataArrived_def Let_def lp sub tk del: drop_append append_assoc)
    have lenbuf: "length (inbuf ?s') = length (inbuf s)" using pre(1) el room by simp
    have "\<exists>F2. midway ?s' R2 later F2 \<and> F = G @ F2"
    proof (cases "rcv2 = []")
      case True
      then have b: "list_all (\<lambda>l. l = []) R2" "F = G" using r(4) by simp_all
      then have "rest = []" using c(5) by (cases R2) auto
      then have "midway ?s' R2 later []" using True pl1(2) c(3) b(1) r(3) by (simp add: midway_def)
      with b(2) show ?thesis by blast
    next
      case ne: False
      then obtain \<tau>' F2 where t: "run_lines R2 (0, rcv2, []) = Some \<tau>'" "snd (finish_reply \<tau>') = ([], F2)" "F = G @ F2"
        using r(5) by blast
      have "midway ?s' R2 later F2"
        unfolding midway_def using pl1(2) c(3,5) r(3) ne t(1,2) by auto
      with t(3) show ?thesis by blast
    qed
    with on lenbuf c(1) show ?thesis by fastforce
  qed
qed

text \<open>The pieces as they are received, each at its time.\<close>

fun feed :: "(int \<times> string) list \<Rightarrow> redis_client \<Rightarrow> redis_client option" where
  "feed [] s = Some s"
| "feed ((now, d) # ds) s = (case OnDataArrived now (Bytes d) s of None \<Rightarrow> None | Some s' \<Rightarrow> feed ds s')"

lemma feed_midway:
  assumes "midway s R (concat (map snd ds)) F" and "\<forall>d \<in> snd ` set ds. d \<noteq> [] \<and> last d \<noteq> CR"
    and "\<forall>l \<in> set R. \<forall>d \<in> snd ` set ds. length l + length d \<le> length (inbuf s)"
  shows "\<exists>s'. feed ds s = Some s' \<and> inseen s' = 0 \<and> commandsToReceive s' = [] \<and>
     map unstamped (replied s') = map unstamped (replied s) @ map unstamped F"
  using assms
proof (induction ds arbitrary: s R F)
  case Nil
  then have R: "take (inseen s) (inbuf s) = crlf R" and le: "inseen s \<le> length (inbuf s)"
    and hd: "R \<noteq> [] \<longrightarrow> inseen s \<le> length (hd R)"
    by (simp_all add: midway_def)
  have "R = []"
  proof (rule ccontr)
    assume "R \<noteq> []"
    then obtain l ls where "R = l # ls" by (cases R) auto
    then have "length (take (inseen s) (inbuf s)) \<ge> length l + 2" "inseen s \<le> length l" using R hd by simp_all
    then show False using le by simp
  qed
  then have "inseen s = 0" and "commandsToReceive s = [] \<and> F = []"
    using Nil.prems(1) by (auto simp: midway_def finish_reply_def complete_def split: if_splits)
  then show ?case by simp
next
  case (Cons x ds)
  obtain now d where x: "x = (now, d)" by (cases x)
  have d: "d \<noteq> []" "last d \<noteq> CR" "\<forall>l \<in> set R. length l + length d \<le> length (inbuf s)"
    using Cons.prems(2,3) by (simp_all add: x)
  have "midway s R (d @ concat (map snd ds)) F" using Cons.prems(1) by (simp add: x)
  from midway_step [OF this d] obtain s' G F2 R2 where st: "OnDataArrived now (Bytes d) s = Some s'"
    "midway s' R2 (concat (map snd ds)) F2" "F = G @ F2"
    "replied s' = replied s @ map (\<lambda>c. c\<lparr>stampReceived := now\<rparr>) G" "set R2 \<subseteq> set R" "length (inbuf s') = length (inbuf s)"
    by blast
  have "\<forall>l \<in> set R2. \<forall>d \<in> snd ` set ds. length l + length d \<le> length (inbuf s')"
    using Cons.prems(3) st(5,6) by auto
  with Cons.IH [OF st(2)] Cons.prems(2) obtain s'' where "feed ds s' = Some s''" "inseen s'' = 0" "commandsToReceive s'' = []"
    "map unstamped (replied s'') = map unstamped (replied s') @ map unstamped F2"
    by auto
  moreover have "map unstamped (replied s') = map unstamped (replied s) @ map unstamped G"
    by (simp add: st(4) unstamped_def)
  ultimately show ?case using st(1,3) by (simp add: x)
qed

text \<open>
  C16. Replies reach their commands whatever their packaging: let commands await replies \<open>rs\<close> of the types they expect (or errors),
  whose texts hold no CR, LF or NUL and whose multi-bulk elements are not empty, and let the bytes of those replies arrive in
  any pieces that do not end between a CR and its LF (and for which a line and a piece fit in the buffer). Then the
  buffer is never overrun, every command is answered with its own reply, in order, none is left waiting and no byte is left over.
\<close>

theorem replies_survive_chunking:
  assumes "list_all2 awaits (commandsToReceive s) rs" and "inseen s = 0"
    and "concat (map snd ds) = crlf (wire_lines rs)" and "\<forall>d \<in> snd ` set ds. d \<noteq> [] \<and> last d \<noteq> CR"
    and "\<forall>l \<in> set (wire_lines rs). \<forall>d \<in> snd ` set ds. length l + length d \<le> length (inbuf s)"
  shows "\<exists>s'. feed ds s = Some s' \<and> inseen s' = 0 \<and> commandsToReceive s' = [] \<and>
     map unstamped (replied s') = map unstamped (replied s) @ map unstamped (map2 answered (commandsToReceive s) rs)"
proof (rule feed_midway [OF _ assms(4,5)])
  have ok: "\<forall>r \<in> set rs. reply_ok r" "list_all (\<lambda>c. rtype c = NUL) (commandsToReceive s)"
    using assms(1) by (auto simp: awaits_def list_all2_conv_all_nth in_set_conv_nth list_all_length)
  have "list_all plain (wire_lines rs)"
    using ok(1) reply_lines_plain by (auto simp: wire_lines_def list_all_iff)
  moreover have "queue_ok (0, commandsToReceive s, [])"
    using ok(2) by (cases "commandsToReceive s") (simp_all add: queue_ok_def)
  moreover have "commandsToReceive s \<noteq> [] \<longrightarrow> \<not> complete (hd (commandsToReceive s))"
    using ok(2) by (cases "commandsToReceive s") (simp_all add: complete_def)
  moreover have "commandsToReceive s = [] \<Longrightarrow> rs = []" using assms(1) by simp
  ultimately show "midway s (wire_lines rs) (concat (map snd ds)) (map2 answered (commandsToReceive s) rs)"
    using assms(2,3) run_replies [OF assms(1), of 0 "[]"] by (auto simp: midway_def wire_lines_def)
qed

text \<open>A PING and a KEYS await their replies, which come in three pieces.\<close>

definition client0 :: "redis_cmd list \<Rightarrow> redis_client" where
  "client0 cs = \<lparr>inbuf = replicate 60 NUL, inseen = 0, commandsToSend = [], commandsToReceive = cs, receivesCmd = 2, completeCmd = 0,
     redisErr = rdeOK, sendErrors = 0, connectTimeout = 3000, messageTimeout = 5000, sockTimeout = 2500, sockState = stConnected,
     errors = [], replied = []\<rparr>"

definition ping_keys :: "redis_cmd list" where
  "ping_keys = [new_redis_cmd 0 0 1 ''PING'' (CHR ''+''), new_redis_cmd 7 0 1 ''KEYS *'' (CHR ''*'')]"

definition ping_keys_replies :: "reply list" where
  "ping_keys_replies = [Inline ''PONG'', Multi [Some ''ab'', None, Some ''c'']]"

definition pieces :: "(int \<times> string) list" where
  "pieces = [(1, ''+PO''), (2, ''NG'' @ [CR, LF] @ ''*3'' @ [CR, LF] @ ''$2'' @ [CR, LF] @ ''a''),
     (3, ''b'' @ [CR, LF] @ ''$-1'' @ [CR, LF] @ ''$1'' @ [CR, LF] @ ''c'' @ [CR, LF])]"

lemma replies_survive_chunking_witness:
  "\<exists>s'. feed pieces (client0 ping_keys) = Some s' \<and> map bulks (replied s') = [[''PONG''], [''ab'', [], ''c'']]"
proof -
  have a: "list_all2 awaits (commandsToReceive (client0 ping_keys)) ping_keys_replies"
    unfolding client0_def ping_keys_def ping_keys_replies_def new_redis_cmd_def
    by (simp add: awaits_def payload_ok_def rdeProtocolMissed_def)
  have "concat (map snd pieces) = crlf (wire_lines ping_keys_replies)" by code_simp
  moreover have "inseen (client0 ping_keys) = 0 \<and> commandsToReceive (client0 ping_keys) = ping_keys \<and> replied (client0 ping_keys) = []"
    by (simp add: client0_def)
  moreover have "list_all (\<lambda>d. d \<noteq> [] \<and> last d \<noteq> CR) (map snd pieces)" by code_simp
  moreover have "list_all (\<lambda>l. list_all (\<lambda>d. length l + length d \<le> length (inbuf (client0 ping_keys))) (map snd pieces))
      (wire_lines ping_keys_replies)" by code_simp
  ultimately obtain s' where f: "feed pieces (client0 ping_keys) = Some s'"
    and r: "map unstamped (replied s') = map unstamped (map2 answered ping_keys ping_keys_replies)"
    using replies_survive_chunking [OF a, of pieces] by (auto simp: list_all_iff)
  have "map bulks (replied s') = map bulks (map unstamped (replied s'))" by (simp add: unstamped_def comp_def)
  also have "\<dots> = map bulks (map2 answered ping_keys ping_keys_replies)" by (simp only: r, simp add: unstamped_def comp_def)
  also have "\<dots> = [[''PONG''], [''ab'', [], ''c'']]"
    by (simp add: ping_keys_def ping_keys_replies_def answered_def elem_bulk_def)
  finally have "map bulks (replied s') = [[''PONG''], [''ab'', [], ''c'']]" .
  with f show ?thesis by (intro exI conjI)
qed

text \<open>
  Without the condition on the pieces the machine fails: when a piece ends between a CR and its LF while the line began in an
  earlier piece, the bytes of that earlier piece are kept and read again, and the next reply is misread.
\<close>

lemma cut_in_crlf_misread:
  "\<exists>s'. feed [(1, ''+P''), (2, ''ONG'' @ [CR]), (3, [LF] @ ''+OK'' @ [CR, LF])]
       (client0 [new_redis_cmd 0 0 1 ''PING'' (CHR ''+''), new_redis_cmd 7 0 1 ''SET k v'' (CHR ''+'')]) = Some s' \<and>
     map bulks (replied s') = [[''PONG''], [''P'' @ [LF] @ ''+OK'' @ [CR, LF]]]"
proof -
  let ?ds = "[(1, ''+P''), (2, ''ONG'' @ [CR]), (3, [LF] @ ''+OK'' @ [CR, LF])]"
  let ?s = "client0 [new_redis_cmd 0 0 1 ''PING'' (CHR ''+''), new_redis_cmd 7 0 1 ''SET k v'' (CHR ''+'')]"
  let ?P = "\<lambda>s'. map bulks (replied s') = [[''PONG''], [''P'' @ [LF] @ ''+OK'' @ [CR, LF]]]"
  have "case feed ?ds ?s of None \<Rightarrow> False
     | Some s' \<Rightarrow> map bulks (replied s') = [[''PONG''], [''P'' @ [LF] @ ''+OK'' @ [CR, LF]]]"
    by code_simp
  then obtain s' where f: "feed ?ds ?s = Some s'" and r: "?P s'" by (rule case_SomeE)
  from r show ?thesis by (intro exI [of _ s'] conjI f)
qed

text \<open>
  The payload of an empty element of a multi-bulk reply is skipped as an empty line, so the following header is taken for it.
\<close>

lemma empty_element_misread:
  "\<exists>s'. feed [(1, ''*2'' @ [CR, LF] @ ''$0'' @ [CR, LF, CR, LF] @ ''$2'' @ [CR, LF] @ ''ab'' @ [CR, LF])]
       (client0 [new_redis_cmd 7 0 1 ''KEYS *'' (CHR ''*'')]) = Some s' \<and>
     replied s' = [] \<and> map bulks (commandsToReceive s') = [[''$2'']]"
proof -
  let ?ds = "[(1, ''*2'' @ [CR, LF] @ ''$0'' @ [CR, LF, CR, LF] @ ''$2'' @ [CR, LF] @ ''ab'' @ [CR, LF])]"
  let ?s = "client0 [new_redis_cmd 7 0 1 ''KEYS *'' (CHR ''*'')]"
  let ?P = "\<lambda>s'. replied s' = [] \<and> map bulks (commandsToReceive s') = [[''$2'']]"
  have "case feed ?ds ?s of None \<Rightarrow> False
     | Some s' \<Rightarrow> replied s' = [] \<and> map bulks (commandsToReceive s') = [[''$2'']]"
    by code_simp
  then obtain s' where f: "feed ?ds ?s = Some s'" and r: "?P s'" by (rule case_SomeE)
  from r show ?thesis by (intro exI [of _ s'] conjI f) (rule conjunct1, assumption, rule conjunct2, assumption)
qed

end
