(* ===== verification/Crypto_Base64.thy ===== *)
theory Crypto_Base64
  imports Base64
begin

text \<open>
  The class \<open>Base64\<close> of CryptoAlgm.cpp, which the Redis client uses for its values. Masks and shifts of bytes are
  remainders and quotients; a byte is a \<open>char\<close>.
\<close>

subsection \<open>Encoding\<close>

text \<open>The digit for a value of six bits, and the four values of three bytes.\<close>

definition digit64 :: "nat \<Rightarrow> char" where
  "digit64 n = alphabet ! n"

definition obuf :: "nat \<Rightarrow> nat \<Rightarrow> nat \<Rightarrow> nat list" where
  "obuf i0 i1 i2 = [i0 div 4, i0 mod 4 * 16 + i1 div 16, i1 mod 16 * 4 + i2 div 64, i2 mod 64]"

fun encode_groups :: "string \<Rightarrow> string" where
  "encode_groups [] = []"
| "encode_groups [a] = map digit64 (take 2 (obuf (byte a) 0 0)) @ ''==''"
| "encode_groups [a, b] = map digit64 (take 3 (obuf (byte a) (byte b) 0)) @ ''=''"
| "encode_groups (a # b # c # s) = map digit64 (obuf (byte a) (byte b) (byte c)) @ encode_groups s"

text \<open>\<open>mem\<close> is the memory at the source; a length of zero means a C string.\<close>

definition Base64_encode :: "string \<Rightarrow> nat \<Rightarrow> string" where
  "Base64_encode mem n = encode_groups (if n = 0 then c_str mem else take n mem)"

subsection \<open>Decoding\<close>

text \<open>The search in the table stops at its NUL, so that a NUL counts as 64; an unknown character is skipped.\<close>

definition quantum_step :: "nat \<Rightarrow> char \<Rightarrow> nat" where
  "quantum_step x c =
     (case List.find (\<lambda>i. alphabet ! i = c) [0..<64] of
        Some v \<Rightarrow> x * 64 + v
      | None \<Rightarrow> if c = CHR 0x00 then x * 64 + 64 else if c = CHR ''='' then x * 64 else x)"

definition decodeQuantum :: "string \<Rightarrow> string" where
  "decodeQuantum src = (let x = foldl quantum_step 0 (take 4 src) in [uchar (x div 2 ^ 16), uchar (x div 2 ^ 8), uchar x])"

text \<open>All quanta but the last while there is room: what is written and where the source is.\<close>

fun decode_quanta :: "nat \<Rightarrow> string \<Rightarrow> nat \<Rightarrow> nat \<Rightarrow> string \<times> string" where
  "decode_quanta 0 src pos datalen = ([], src)"
| "decode_quanta (Suc n) src pos datalen =
     (if int pos < int datalen - 3
      then (let (out, src') = decode_quanta n (drop 4 src) (pos + 3) datalen in (decodeQuantum src @ out, src'))
      else ([], src))"

text \<open>The bytes written and the new value of \<open>datalen\<close>; \<open>mem\<close> is the memory at the source.\<close>

definition Base64_decode :: "string \<Rightarrow> nat \<Rightarrow> string \<times> nat" where
  "Base64_decode mem datalen =
     (let len = length (takeWhile (\<lambda>c. c \<noteq> CHR ''='' \<and> c \<noteq> CHR 0x00) mem);
          eq = (if take 1 (drop len mem) = ''='' then if take 1 (drop (len + 1) mem) = ''='' then 2 else 1 else 0);
          numQuantums = (len + eq) div 4
      in if numQuantums = 0 then ([], datalen)
         else (let (out, src) = decode_quanta (numQuantums - 1) mem 0 datalen;
                   last_part = take (min (3 - eq) (datalen - length out)) (decodeQuantum src)
               in (out @ last_part, length (out @ last_part))))"

subsection \<open>Round trip\<close>

lemma obuf_less: "a < 256 \<Longrightarrow> b < 256 \<Longrightarrow> c < 256 \<Longrightarrow> list_all (\<lambda>n. n < 64) (obuf a b c)"
proof -
  assume "a < 256" "b < 256" "c < 256"
  then have "a div 4 < 64" "b div 16 < 16" "c div 64 < 4" by (simp_all add: less_mult_imp_div_less)
  moreover have "a mod 4 < 4" "b mod 16 < 16" "c mod 64 < 64" by simp_all
  ultimately have "a mod 4 * 16 + b div 16 < 64" "b mod 16 * 4 + c div 64 < 64" by linarith+
  with \<open>a div 4 < 64\<close> show ?thesis by (simp add: obuf_def)
qed

lemma obuf_value:
  "(((a div 4) * 64 + (a mod 4 * 16 + b div 16)) * 64 + (b mod 16 * 4 + c div 64)) * 64 + c mod 64 = a * 2 ^ 16 + b * 2 ^ 8 + (c :: nat)"
proof -
  have g: "((p * 64 + (q * 16 + r)) * 64 + (t * 4 + u)) * 64 + v = (p * 4 + q) * 2 ^ 16 + (r * 16 + t) * 2 ^ 8 + (u * 64 + v)"
    for p q r t u v :: nat by simp
  show ?thesis by (simp only: g div_mult_mod_eq)
qed

lemma quantum_step_digit: "n < 64 \<Longrightarrow> quantum_step x (digit64 n) = x * 64 + n"
proof -
  assume n: "n < 64"
  have "decoder (alphabet ! n) = n" using alphabet_index [OF n] by simp
  then have "List.find (\<lambda>i. alphabet ! i = alphabet ! n) [0..<64] = Some n"
    using n by (auto simp: decoder_def split: option.splits)
  then show ?thesis by (simp add: quantum_step_def digit64_def)
qed

lemma quantum_step_eq: "quantum_step x CHR ''='' = x * 64"
proof -
  have "List.find (\<lambda>i. alphabet ! i = CHR ''='') [0..<64] = None" by code_simp
  then show ?thesis by (simp add: quantum_step_def)
qed

lemma quantum_bytes:
  fixes a b c :: char
  defines "x \<equiv> byte a * 2 ^ 16 + byte b * 2 ^ 8 + byte c"
  shows "[uchar (x div 2 ^ 16), uchar (x div 2 ^ 8), uchar x] = [a, b, c]"
proof -
  have lt: "byte a < 256" "byte b < 256" "byte c < 256" by simp_all
  have div: "(r + n * q) div n = q" if "r < n" for r n q :: nat using that by simp
  have "byte b * 256 + byte c < 65536" using lt by linarith
  from div [OF this] have "x div 2 ^ 16 = 256 * 0 + byte a" by (simp add: x_def algebra_simps)
  moreover from div [OF lt(3), of "256 * byte a + byte b"] have "x div 2 ^ 8 = 256 * byte a + byte b" by (simp add: x_def algebra_simps)
  moreover have "x = 256 * (256 * byte a + byte b) + byte c" by (simp add: x_def)
  ultimately show ?thesis by (simp only: uchar_byte)
qed

lemma decodeQuantum_group:
  "decodeQuantum (map digit64 (obuf (byte a) (byte b) (byte c)) @ s) = [a, b, c]"
proof -
  have l: "list_all (\<lambda>n. n < 64) (obuf (byte a) (byte b) (byte c))" by (rule obuf_less) simp_all
  have "foldl quantum_step 0 (take 4 (map digit64 (obuf (byte a) (byte b) (byte c)) @ s)) = byte a * 2 ^ 16 + byte b * 2 ^ 8 + byte c"
    using l obuf_value [of "byte a" "byte b" "byte c"] by (simp add: obuf_def quantum_step_digit)
  then show ?thesis unfolding decodeQuantum_def Let_def by (simp only: quantum_bytes)
qed

lemma decodeQuantum_pad:
  "decodeQuantum (map digit64 (take 3 (obuf (byte a) (byte b) 0)) @ CHR ''='' # s) = [a, b, CHR 0x00]"
  "decodeQuantum (map digit64 (take 2 (obuf (byte a) 0 0)) @ CHR ''='' # CHR ''='' # s) = [a, CHR 0x00, CHR 0x00]"
proof -
  have z: "byte (CHR 0x00) = 0" by simp
  have "list_all (\<lambda>n. n < 64) (obuf (byte a) (byte b) 0)" by (rule obuf_less) simp_all
  then have "foldl quantum_step 0 (take 4 (map digit64 (take 3 (obuf (byte a) (byte b) 0)) @ CHR ''='' # s)) =
      byte a * 2 ^ 16 + byte b * 2 ^ 8 + byte (CHR 0x00)"
    using obuf_value [of "byte a" "byte b" 0] by (simp add: obuf_def quantum_step_digit quantum_step_eq)
  then show "decodeQuantum (map digit64 (take 3 (obuf (byte a) (byte b) 0)) @ CHR ''='' # s) = [a, b, CHR 0x00]"
    unfolding decodeQuantum_def Let_def by (simp only: quantum_bytes)
  have "list_all (\<lambda>n. n < 64) (obuf (byte a) 0 0)" by (rule obuf_less) simp_all
  then have "foldl quantum_step 0 (take 4 (map digit64 (take 2 (obuf (byte a) 0 0)) @ CHR ''='' # CHR ''='' # s)) =
      byte a * 2 ^ 16 + byte (CHR 0x00) * 2 ^ 8 + byte (CHR 0x00)"
    using obuf_value [of "byte a" 0 0] by (simp add: obuf_def quantum_step_digit quantum_step_eq)
  then show "decodeQuantum (map digit64 (take 2 (obuf (byte a) 0 0)) @ CHR ''='' # CHR ''='' # s) = [a, CHR 0x00, CHR 0x00]"
    unfolding decodeQuantum_def Let_def by (simp only: quantum_bytes)
qed

subsubsection \<open>The whole text\<close>

lemma digit64_char: "n < 64 \<Longrightarrow> digit64 n \<noteq> CHR ''='' \<and> digit64 n \<noteq> CHR 0x00"
  using alphabet_index [of n] by (simp add: digit64_def)

lemma digits_plain:
  "list_all (\<lambda>n. n < 64) ns \<Longrightarrow> CHR ''='' \<notin> set (map digit64 (take k ns)) \<and> CHR 0x00 \<notin> set (map digit64 (take k ns))"
  using digit64_char by (auto simp: list_all_iff dest!: in_set_takeD) metis+

text \<open>The padding of the text and its number of quanta.\<close>

definition pad_of :: "string \<Rightarrow> nat" where
  "pad_of s = (if length s mod 3 = 0 then 0 else 3 - length s mod 3)"

text \<open>The last group, and the groups before it.\<close>

lemma encode_groups_split:
  "s \<noteq> [] \<Longrightarrow> \<exists>ds. encode_groups s = ds @ replicate (pad_of s) CHR ''='' \<and> CHR ''='' \<notin> set ds \<and> CHR 0x00 \<notin> set ds \<and>
     length ds + pad_of s = (length s + 2) div 3 * 4 \<and> pad_of s \<le> 2 \<and> length s + pad_of s = 3 * ((length s + 2) div 3)"
proof (induction s rule: encode_groups.induct)
  case (2 a)
  have l: "list_all (\<lambda>n. n < 64) (obuf (byte a) 0 0)" by (rule obuf_less) simp_all
  show ?case
    by (intro exI [of _ "map digit64 (take 2 (obuf (byte a) 0 0))"])
      (use digits_plain [OF l, of 2] in \<open>simp add: pad_of_def obuf_def numeral_2_eq_2\<close>)
next
  case (3 a b)
  have l: "list_all (\<lambda>n. n < 64) (obuf (byte a) (byte b) 0)" by (rule obuf_less) simp_all
  show ?case
    by (intro exI [of _ "map digit64 (take 3 (obuf (byte a) (byte b) 0))"])
      (use digits_plain [OF l, of 3] in \<open>simp add: pad_of_def obuf_def\<close>)
next
  case (4 a b c s)
  have l: "list_all (\<lambda>n. n < 64) (obuf (byte a) (byte b) (byte c))" by (rule obuf_less) simp_all
  have p: "pad_of (a # b # c # s) = pad_of s" by (simp add: pad_of_def)
  show ?case
  proof (cases "s = []")
    case True
    then show ?thesis
      by (intro exI [of _ "map digit64 (obuf (byte a) (byte b) (byte c))"])
        (use digits_plain [OF l, of 4] in \<open>simp add: pad_of_def obuf_def\<close>)
  next
    case False
    from "4.IH" [OF False] obtain ds where "encode_groups s = ds @ replicate (pad_of s) CHR ''=''" "CHR ''='' \<notin> set ds" "CHR 0x00 \<notin> set ds"
      "length ds + pad_of s = (length s + 2) div 3 * 4" "pad_of s \<le> 2" "length s + pad_of s = 3 * ((length s + 2) div 3)" by blast
    moreover have "(5 + length s) div 3 = Suc (Suc (Suc (length s)) div 3)" by simp
    ultimately show ?thesis
      by (intro exI [of _ "map digit64 (obuf (byte a) (byte b) (byte c)) @ ds"])
        (use digits_plain [OF l, of 4] in \<open>simp add: p obuf_def\<close>)
  qed
qed simp

lemma decode_quanta_groups:
  assumes "s \<noteq> []" and "pos + length s \<le> datalen"
  shows "\<exists>out src. decode_quanta ((length s + 2) div 3 - 1) (encode_groups s @ t) pos datalen = (out, src) \<and>
     out @ take (3 - pad_of s) (decodeQuantum src) = s \<and> length out + (3 - pad_of s) = length s"
  using assms
proof (induction s arbitrary: pos rule: encode_groups.induct)
  case (2 a)
  then show ?case using decodeQuantum_pad(2) [of a t] by (simp add: pad_of_def numeral_2_eq_2)
next
  case (3 a b)
  then show ?case using decodeQuantum_pad(1) [of a b t] by (simp add: pad_of_def)
next
  case (4 a b c s)
  have p: "pad_of (a # b # c # s) = pad_of s" by (simp add: pad_of_def)
  let ?g = "map digit64 (obuf (byte a) (byte b) (byte c))"
  show ?case
  proof (cases "s = []")
    case True
    then show ?thesis using decodeQuantum_group [of a b c t] by (simp add: pad_of_def)
  next
    case False
    have n: "(length (a # b # c # s) + 2) div 3 - 1 = Suc ((length s + 2) div 3 - 1)"
    proof -
      have "(length (a # b # c # s) + 2) div 3 = Suc ((length s + 2) div 3)" by simp
      moreover have "(length s + 2) div 3 > 0" using False by (cases s) (simp_all add: div_greater_zero_iff)
      ultimately show ?thesis by simp
    qed
    have room: "int pos < int datalen - 3" using "4.prems"(2) False by (cases s) simp_all
    obtain out src where ih: "decode_quanta ((length s + 2) div 3 - 1) (encode_groups s @ t) (pos + 3) datalen = (out, src)"
      "out @ take (3 - pad_of s) (decodeQuantum src) = s" "length out + (3 - pad_of s) = length s"
      using "4.IH" [OF False, of "pos + 3"] "4.prems"(2) by auto
    have d: "drop 4 (?g @ encode_groups s @ t) = encode_groups s @ t" by (simp add: obuf_def)
    have q: "decodeQuantum (?g @ encode_groups s @ t) = [a, b, c]" by (rule decodeQuantum_group)
    have "decode_quanta ((length (a # b # c # s) + 2) div 3 - 1) (encode_groups (a # b # c # s) @ t) pos datalen = ([a, b, c] @ out, src)"
      unfolding n encode_groups.simps append_assoc decode_quanta.simps d q ih(1) using room by simp
    then show ?thesis using ih(2,3) by (simp add: p)
  qed
qed simp

text \<open>
  The \<open>Base64\<close> class is a round trip: the text of \<open>n > 0\<close> bytes, terminated, decodes to them in any destination of
  at least \<open>n\<close> bytes, and the length comes back as \<open>n\<close>; but asked to encode nothing, the encoder takes the source for a C
  string, and the decoder does not set the length when there is nothing to decode.
\<close>

theorem crypto_base64_roundtrip:
  assumes "0 < n" and "n \<le> length mem" and "n \<le> datalen"
  shows "Base64_decode (Base64_encode mem n @ CHR 0x00 # junk) datalen = (take n mem, n) \<and>
     Base64_encode mem 0 = encode_groups (c_str mem) \<and> Base64_decode (CHR 0x00 # junk) datalen = ([], datalen)"
proof -
  let ?s = "take n mem"
  have s: "?s \<noteq> []" "length ?s = n" using assms by auto
  obtain ds where g: "encode_groups ?s = ds @ replicate (pad_of ?s) CHR ''=''" "CHR ''='' \<notin> set ds" "CHR 0x00 \<notin> set ds"
    "length ds + pad_of ?s = (n + 2) div 3 * 4" "pad_of ?s \<le> 2" "n + pad_of ?s = 3 * ((n + 2) div 3)"
    using encode_groups_split [OF s(1)] s(2) by auto
  let ?mem = "Base64_encode mem n @ CHR 0x00 # junk"
  have m: "?mem = ds @ replicate (pad_of ?s) CHR ''='' @ CHR 0x00 # junk" using assms(1) by (simp add: Base64_encode_def g(1))
  have t: "takeWhile (\<lambda>c. c \<noteq> CHR ''='' \<and> c \<noteq> CHR 0x00) (xs @ y # ys) = xs"
    if "CHR ''='' \<notin> set xs" "CHR 0x00 \<notin> set xs" "y = CHR ''='' \<or> y = CHR 0x00" for xs y ys
    using that by (induction xs) auto
  have pads: "pad_of ?s = 0 \<or> pad_of ?s = 1 \<or> pad_of ?s = 2" using g(5) by linarith
  obtain y ys where y: "replicate (pad_of ?s) CHR ''='' @ CHR 0x00 # junk = y # ys" "y = CHR ''='' \<or> y = CHR 0x00"
  proof (cases "pad_of ?s")
    case 0
    show thesis by (rule that [of "CHR 0x00" junk]) (simp_all add: 0)
  next
    case (Suc k)
    show thesis by (rule that [of "CHR ''=''" "replicate k CHR ''='' @ CHR 0x00 # junk"]) (simp_all add: Suc)
  qed
  have len: "takeWhile (\<lambda>c. c \<noteq> CHR ''='' \<and> c \<noteq> CHR 0x00) ?mem = ds"
    unfolding m y(1) by (rule t [OF g(2,3) y(2)])
  have eq: "(if take 1 (drop (length ds) ?mem) = ''='' then if take 1 (drop (length ds + 1) ?mem) = ''='' then 2 else 1 else 0) = pad_of ?s"
  proof -
    have dr: "drop (length ds) ?mem = replicate (pad_of ?s) CHR ''='' @ CHR 0x00 # junk"
      "drop (length ds + 1) ?mem = tl (replicate (pad_of ?s) CHR ''='' @ CHR 0x00 # junk)"
      unfolding m y(1) by (simp, simp)
    from pads show ?thesis unfolding dr by (elim disjE) (simp_all add: numeral_2_eq_2)
  qed
  have nq: "(length ds + pad_of ?s) div 4 = (n + 2) div 3" using g(4) by simp
  have pos: "(n + 2) div 3 \<noteq> 0" using assms(1) by (simp add: div_eq_0_iff)
  obtain out src where d: "decode_quanta ((n + 2) div 3 - 1) (encode_groups ?s @ CHR 0x00 # junk) 0 datalen = (out, src)"
    "out @ take (3 - pad_of ?s) (decodeQuantum src) = ?s" "length out + (3 - pad_of ?s) = n"
    using decode_quanta_groups [OF s(1), of 0 datalen "CHR 0x00 # junk"] s(2) assms(3) by auto
  have mn: "min (3 - pad_of ?s) (datalen - length out) = 3 - pad_of ?s" using d(3) assms(3) by simp
  have me: "?mem = encode_groups ?s @ CHR 0x00 # junk" using assms(1) by (simp add: Base64_encode_def)
  have "Base64_decode ?mem datalen = (?s, length ?s)"
    unfolding Base64_decode_def Let_def len eq nq unfolding me d(1) by (simp only: pos if_False prod.case mn d(2))
  moreover have "Base64_decode (CHR 0x00 # junk) datalen = ([], datalen)" by (simp add: Base64_decode_def)
  ultimately show ?thesis using s(2) by (simp add: Base64_encode_def)
qed

lemma crypto_base64_roundtrip_witness:
  "Base64_decode (Base64_encode (''hello'' @ [CHR 0x00]) 6 @ [CHR 0x00]) 6 = (''hello'' @ [CHR 0x00], 6)"
  using crypto_base64_roundtrip [of 6 "''hello'' @ [CHR 0x00]" 6 "[]"] by simp

end
