(* ===== verification/Redis_Client.thy ===== *)
theory Redis_Client
  imports Redis_Props Crypto_Base64 "HOL-Library.Multiset"
begin

text \<open>
  The sending side of \<open>RedisClient\<close> (RedisClient.cpp): the queues of commands, sending and reconnecting, the
  commands themselves, the values they carry, and the synchronous calls. What the socket answers is an argument of
  each operation, the bzip2 library a parameter.
\<close>

subsection \<open>Sending\<close>

definition MAX_SEND_ERROR_COUNT :: nat where "MAX_SEND_ERROR_COUNT = 10"
definition MAX_PENDING_REQUESTS :: nat where "MAX_PENDING_REQUESTS = 1000"
definition DEFAULT_CLIENT_TIMEOUT :: int where "DEFAULT_CLIENT_TIMEOUT = 5000"
definition DEFAULT_CONNECT_TIMEOUT :: int where "DEFAULT_CONNECT_TIMEOUT = 3000"

text \<open>The time, the state of the socket after \<open>connect\<close>, what successive calls of \<open>send\<close> answer, and whether a failure of
  the first was \<open>EWOULDBLOCK\<close>.\<close>

record send_env =
  e_now :: int
  e_connect :: sock_state
  e_sends :: "int list"
  e_wouldblock :: bool

definition setClientTimeout :: "int \<Rightarrow> int \<Rightarrow> redis_client \<Rightarrow> redis_client" where
  "setClientTimeout conn msg s =
     (let m = (if msg \<le> 2 then DEFAULT_CLIENT_TIMEOUT else msg); c = (if conn \<le> 0 then DEFAULT_CLIENT_TIMEOUT else conn)
      in s\<lparr>messageTimeout := m, connectTimeout := c, sockTimeout := m div 2\<rparr>)"

definition sendLine :: "send_env \<Rightarrow> string \<Rightarrow> redis_client \<Rightarrow> redis_client \<times> int" where
  "sendLine E cmd s =
     (if cmd = [] then (s, - 1)
      else (let ret = (case e_sends E of [] \<Rightarrow> - 1 | r # _ \<Rightarrow> r)
            in if ret < 0
               then (if ret = - 1 \<and> e_wouldblock E \<and> list_ex (\<lambda>r. r \<ge> 0) (take 5 (drop 1 (e_sends E))) then (s, 1)
                     else (let s1 = s\<lparr>sendErrors := sendErrors s + 1\<rparr>
                           in (if sendErrors s1 > MAX_SEND_ERROR_COUNT then redis_OnError s1 else s1, - 3)))
               else if ret < int (length cmd + 2) then (s, - 4)
               else (s, ret)))"

text \<open>Pending commands that are too old, or too many, are given up: these, and the queue that is left.\<close>

fun expire :: "int \<Rightarrow> int \<Rightarrow> redis_cmd list \<Rightarrow> redis_cmd list \<times> redis_cmd list" where
  "expire tmo now [] = ([], [])"
| "expire tmo now (c # q) =
     (if (tmo \<le> 0 \<or> stampCreated c > now - tmo) \<and> length (c # q) < MAX_PENDING_REQUESTS then ([], c # q)
      else (let (gone, q') = expire tmo now q in (c # gone, q')))"

definition enqueue :: "int \<Rightarrow> redis_cmd \<Rightarrow> redis_client \<Rightarrow> redis_client" where
  "enqueue now c s =
     (let (gone, q) = expire (sockTimeout s) now (commandsToSend s @ [c])
      in s\<lparr>commandsToSend := q, errors := errors s @ map (\<lambda>c. (c, rdeConnectError)) gone\<rparr>)"

definition fail_cmd :: "redis_cmd \<Rightarrow> int \<Rightarrow> redis_client \<Rightarrow> redis_client" where
  "fail_cmd c err s = s\<lparr>redisErr := err, errors := errors s @ [(c, err)]\<rparr>"

definition send_now :: "send_env \<Rightarrow> redis_cmd \<Rightarrow> redis_client \<Rightarrow> redis_client \<times> bool" where
  "send_now E c s =
     (if messageTimeout s > 0 \<and> e_now E - stampCreated c > messageTimeout s then (fail_cmd c rdeRequestTimeout s, False)
      else (let (s1, ret) = sendLine E (command c) s
            in if ret < 0 then (fail_cmd c rdeSendError s1, False)
               else (s1\<lparr>commandsToReceive := commandsToReceive s1 @ [c\<lparr>stampSent := e_now E\<rparr>], receivesCmd := receivesCmd s1 + 1,
                       redisErr := rdeOK\<rparr>, True)))"

text \<open>\<open>sendCommand\<close>; the result is false where the code answers NULL. \<open>connect\<close> sets the timeout of the socket.\<close>

definition sendCommand :: "send_env \<Rightarrow> redis_cmd \<Rightarrow> redis_client \<Rightarrow> redis_client \<times> bool" where
  "sendCommand E c s0 =
     (let s = s0\<lparr>redisErr := rdeSendError\<rparr>
      in if commandsToSend s \<noteq> [] \<or> sockState s = stConnecting then (enqueue (e_now E) c s, True)
         else if sockState s = stInitial
         then (let s1 = s\<lparr>sockState := e_connect E, sockTimeout := connectTimeout s\<rparr>
               in case e_connect E of
                    stInitial \<Rightarrow> (fail_cmd c rdeConnectError s1, False)
                  | stConnecting \<Rightarrow> (enqueue (e_now E) c s1, True)
                  | stConnected \<Rightarrow> send_now E c s1)
         else send_now E c s)"

text \<open>The commands that waited for the connection; the \<open>i\<close>-th meets the environment \<open>E i\<close>.\<close>

fun flush :: "(nat \<Rightarrow> send_env) \<Rightarrow> nat \<Rightarrow> int \<Rightarrow> redis_cmd list \<Rightarrow> redis_client \<Rightarrow> redis_client" where
  "flush E i now [] s = s"
| "flush E i now (c # q) s =
     flush E (Suc i) now q
       (if stampCreated c + sockTimeout s < now then s\<lparr>errors := errors s @ [(c, rdeRequestTimeout)]\<rparr>
        else fst (sendCommand (E i) c s))"

definition redis_OnConnected :: "(nat \<Rightarrow> send_env) \<Rightarrow> int \<Rightarrow> redis_client \<Rightarrow> redis_client" where
  "redis_OnConnected E now s =
     flush E 0 now (commandsToSend s)
       (s\<lparr>sockState := stConnected, sockTimeout := messageTimeout s div 2, inseen := 0, commandsToSend := []\<rparr>)"

subsection \<open>Histories\<close>

datatype redis_op = Send send_env redis_cmd | Arrive int received | ConnectedOp "nat \<Rightarrow> send_env" int | Disconnect

fun redis_step :: "redis_client \<Rightarrow> redis_op \<Rightarrow> redis_client option" where
  "redis_step s (Send E c) = Some (fst (sendCommand E c s))"
| "redis_step s (Arrive now r) = OnDataArrived now r s"
| "redis_step s (ConnectedOp E now) = Some (redis_OnConnected E now s)"
| "redis_step s Disconnect = Some (redis_disconnect s)"

text \<open>Where a command can be.\<close>

definition held :: "redis_client \<Rightarrow> nat multiset" where
  "held s = mset (map cid (commandsToSend s @ commandsToReceive s @ replied s @ map fst (errors s)))"

fun submitted :: "redis_op list \<Rightarrow> nat multiset" where
  "submitted [] = {#}"
| "submitted (Send E c # xs) = add_mset (cid c) (submitted xs)"
| "submitted (x # xs) = submitted xs"

lemma held_cancel: "held (redis_disconnect s) = held s"
  by (simp add: held_def redis_disconnect_def cancelCommands_def comp_def)

lemma held_fail: "held (fail_cmd c err s) = add_mset (cid c) (held s)"
  by (simp add: held_def fail_cmd_def)

lemma expire_parts: "expire tmo now q = (gone, q') \<Longrightarrow> q = gone @ q'"
  by (induction q arbitrary: gone q') (auto split: if_splits prod.splits)

lemma held_enqueue: "held (enqueue now c s) = add_mset (cid c) (held s)"
proof -
  obtain gone q where e: "expire (sockTimeout s) now (commandsToSend s @ [c]) = (gone, q)" by fastforce
  from arg_cong [OF expire_parts [OF e], of "\<lambda>l. mset (map cid l)"]
  have "mset (map cid gone) + mset (map cid q) = add_mset (cid c) (mset (map cid (commandsToSend s)))" by simp
  then show ?thesis by (simp add: enqueue_def held_def e comp_def ac_simps)
qed

lemma held_sendLine: "held (fst (sendLine E cmd s)) = held s"
proof -
  have "held (s\<lparr>sendErrors := n\<rparr>) = held s" for n by (simp add: held_def)
  then show ?thesis by (simp add: sendLine_def Let_def redis_OnError_def held_cancel)
qed

lemma held_send_now: "held (fst (send_now E c s)) = add_mset (cid c) (held s)"
proof (cases "messageTimeout s > 0 \<and> e_now E - stampCreated c > messageTimeout s")
  case True
  then show ?thesis by (simp add: send_now_def held_fail)
next
  case False
  obtain s1 ret where l: "sendLine E (command c) s = (s1, ret)" by fastforce
  then have "held s1 = held s" using held_sendLine [of E "command c" s] by simp
  moreover have "held (s1\<lparr>commandsToReceive := commandsToReceive s1 @ [c\<lparr>stampSent := t\<rparr>], receivesCmd := n, redisErr := rdeOK\<rparr>) =
      add_mset (cid c) (held s1)" for t n by (simp add: held_def)
  ultimately show ?thesis using False by (auto simp: send_now_def l held_fail)
qed

lemma held_sendCommand: "held (fst (sendCommand E c s)) = add_mset (cid c) (held s)"
proof -
  have "held (s\<lparr>redisErr := e\<rparr>) = held s" "held (s\<lparr>redisErr := e, sockState := st, sockTimeout := t\<rparr>) = held s" for e st t
    by (simp_all add: held_def)
  then show ?thesis
    by (auto simp: sendCommand_def Let_def held_enqueue held_fail held_send_now split: sock_state.splits)
qed

lemma held_flush: "held (flush E i now q s) = held s + mset (map cid q)"
proof (induction q arbitrary: i s)
  case (Cons c q)
  have "held (s\<lparr>errors := errors s @ [(c, rdeRequestTimeout)]\<rparr>) = add_mset (cid c) (held s)" by (simp add: held_def)
  then show ?case by (simp add: Cons.IH held_sendCommand)
qed simp

lemma held_OnConnected: "held (redis_OnConnected E now s) = held s"
  unfolding redis_OnConnected_def held_flush by (simp add: held_def)

text \<open>The reply machine moves commands from the queue to the completed ones.\<close>

definition in_progress :: "progress \<Rightarrow> nat list" where
  "in_progress \<sigma> = (case \<sigma> of (m, rcv, ready) \<Rightarrow> map cid (ready @ rcv))"

lemma cid_bulk_line: "cid (fst (bulk_line l m c)) = cid c"
  by (simp add: bulk_line_def Let_def)

lemma cid_begin_reply: "cid (fst (begin_reply l c)) = cid c"
  by (simp add: begin_reply_def reply_head_def Let_def case_prod_beta)

lemma in_progress_take_line:
  assumes "fst (snd \<sigma>) \<noteq> []"
  shows "in_progress (fst (take_line l \<sigma>)) = in_progress \<sigma>"
proof -
  obtain m c rcv ready where s: "\<sigma> = (m, c # rcv, ready)" using assms by (cases \<sigma>; cases "fst (snd \<sigma>)") auto
  show ?thesis
  proof (cases rcv)
    case Nil
    then show ?thesis
      by (auto simp: s take_line_def in_progress_def cid_bulk_line cid_begin_reply case_prod_beta)
  next
    case (Cons d rest)
    then show ?thesis
      by (auto simp: s take_line_def in_progress_def cid_bulk_line cid_begin_reply case_prod_beta)
  qed
qed

lemma in_progress_recv_loop:
  "recv_loop buf p e \<sigma> = Some (buf', p', \<sigma>') \<Longrightarrow> in_progress \<sigma>' = in_progress \<sigma>"
proof (induction buf p e \<sigma> rule: recv_loop.induct)
  case (1 buf p e \<sigma>)
  show ?case
  proof (cases "p \<ge> e \<or> fst (snd \<sigma>) = []")
    case True
    then show ?thesis using "1.prems" by (simp add: recv_loop.simps)
  next
    case False
    show ?thesis
    proof (cases "next_line buf p (e - p) (fst \<sigma>)")
      case None
      then show ?thesis using "1.prems" False by (simp add: recv_loop.simps)
    next
      case (Some x)
      obtain start buf1 where x: "x = (start, buf1)" by fastforce
      obtain line where line: "line_at buf1 start = Some line"
        using "1.prems" False Some x by (cases "line_at buf1 start") (simp_all add: recv_loop.simps [of buf])
      have step: "in_progress (fst (take_line line \<sigma>)) = in_progress \<sigma>"
        using False by (intro in_progress_take_line) simp
      consider "line = []" | "line \<noteq> []" "snd (take_line line \<sigma>)" | "line \<noteq> []" "\<not> snd (take_line line \<sigma>)" by blast
      then show ?thesis
      proof cases
        case 1
        then have "recv_loop buf1 (p + length line + 2) e \<sigma> = Some (buf', p', \<sigma>')"
          using "1.prems" False Some x line by (simp add: recv_loop.simps [of buf])
        from "1.IH"(1) [OF False Some [unfolded x] refl line refl 1 this] show ?thesis .
      next
        case 2
        then have "recv_loop buf1 (p + length line + 2) e (fst (take_line line \<sigma>)) = Some (buf', p', \<sigma>')"
          using "1.prems" False Some x line by (simp add: recv_loop.simps [of buf])
        from "1.IH"(2) [OF False Some [unfolded x] refl line refl 2 this] step show ?thesis by simp
      next
        case 3
        then have "\<sigma>' = fst (take_line line \<sigma>)"
          using "1.prems" False Some x line by (simp add: recv_loop.simps [of buf])
        with step show ?thesis by simp
      qed
    qed
  qed
qed

lemma in_progress_finish: "in_progress (finish_reply \<sigma>) = in_progress \<sigma>"
  by (cases \<sigma>; cases "fst (snd \<sigma>)") (auto simp: finish_reply_def in_progress_def)

lemma held_replied:
  assumes "mset (map cid ready) + mset (map cid rcv) = mset (map cid (commandsToReceive s))"
  shows "held (s\<lparr>inbuf := b, commandsToReceive := rcv, completeCmd := n, replied := replied s @ map (\<lambda>c. c\<lparr>stampReceived := t\<rparr>) ready,
     inseen := k\<rparr>) = held s"
  using assms by (simp add: held_def comp_def ac_simps)

lemma held_arrived:
  assumes "OnDataArrived now r s = Some s'"
  shows "held s' = held s"
proof -
  define s1 where "s1 = (if length (inbuf s) - inseen s = 0 then s\<lparr>inseen := 0\<rparr> else s)"
  have h1: "held s1 = held s" by (simp add: s1_def held_def)
  show ?thesis
  proof (cases r)
    case Temporary
    have "OnDataArrived now r s = Some s1"
      unfolding OnDataArrived_def Let_def Temporary received.case s1_def [symmetric] by (rule refl)
    then show ?thesis using assms h1 by simp
  next
    case Broken
    have "OnDataArrived now r s = Some (redis_disconnect s1)"
      unfolding OnDataArrived_def Let_def Broken received.case s1_def [symmetric] redis_OnError_def by (rule refl)
    then show ?thesis using assms h1 held_cancel [of s1] by simp
  next
    case (Bytes data)
    define e where "e = inseen s1 + length data"
    define buf where "buf = take (inseen s1) (inbuf s1) @ data @ drop e (inbuf s1)"
    define s2 where "s2 = s1\<lparr>inbuf := buf, sendErrors := 0\<rparr>"
    have h2: "held s2 = held s" and rs: "commandsToReceive s2 = commandsToReceive s1"
      using h1 by (simp_all add: s2_def held_def)
    have eq: "OnDataArrived now r s =
        (if commandsToReceive s2 = [] then Some s2
         else (case recv_loop buf 0 e (0, commandsToReceive s2, []) of
                 None \<Rightarrow> None
               | Some (buf', p, \<sigma>) \<Rightarrow>
                   (let (m, rcv, ready) = finish_reply \<sigma>;
                        s3 = s2\<lparr>inbuf := buf', commandsToReceive := rcv, completeCmd := completeCmd s2 + int (length ready),
                               replied := replied s2 @ map (\<lambda>c. c\<lparr>stampReceived := now\<rparr>) ready\<rparr>
                    in Some (if p \<le> e
                             then s3\<lparr>inbuf := take (e - p) (drop p buf') @ drop (e - p) buf', inseen := e - p\<rparr>
                             else s3))))"
      unfolding OnDataArrived_def Let_def Bytes received.case s1_def [symmetric] e_def [symmetric] buf_def [symmetric] s2_def [symmetric]
      by (rule refl)
    show ?thesis
    proof (cases "commandsToReceive s2 = []")
      case True
      then show ?thesis using assms h2 unfolding eq by simp
    next
      case False
      then obtain buf' p \<sigma> where l: "recv_loop buf 0 e (0, commandsToReceive s2, []) = Some (buf', p, \<sigma>)"
        using assms unfolding eq by (auto split: option.splits)
      obtain m rcv ready where f: "finish_reply \<sigma> = (m, rcv, ready)" by (cases "finish_reply \<sigma>")
      have "in_progress (m, rcv, ready) = in_progress (0, commandsToReceive s2, [])"
        using in_progress_recv_loop [OF l] in_progress_finish [of \<sigma>] by (simp add: f)
      then have "mset (map cid ready) + mset (map cid rcv) = mset (map cid (commandsToReceive s2))"
        by (metis in_progress_def old.prod.case append_Nil map_append mset_append)
      note held_replied [OF this, where b = "inbuf s'" and n = "completeCmd s2 + int (length ready)" and t = now and k = "inseen s'"]
      moreover have "s' = s2\<lparr>inbuf := inbuf s', commandsToReceive := rcv, completeCmd := completeCmd s2 + int (length ready),
          replied := replied s2 @ map (\<lambda>c. c\<lparr>stampReceived := now\<rparr>) ready, inseen := inseen s'\<rparr>"
        using assms False unfolding eq l f by (cases s2) (auto simp: f Let_def split: if_splits)
      ultimately have "held s' = held s2"
        by (metis (no_types))
      then show ?thesis by (simp add: h2)
    qed
  qed
qed

lemma held_run: "run_ops redis_step s xs = Some s' \<Longrightarrow> held s' = held s + submitted xs"
proof (induction xs arbitrary: s)
  case (Cons x xs)
  then obtain t where t: "redis_step s x = Some t" "run_ops redis_step t xs = Some s'" by (auto split: option.splits)
  have "held t = held s + submitted [x]"
    using t(1) by (cases x) (auto simp: held_sendCommand held_OnConnected held_cancel held_arrived)
  moreover have "submitted (x # xs) = submitted [x] + submitted xs" by (cases x) simp_all
  ultimately show ?case using Cons.IH [OF t(2)] by (simp add: ac_simps)
qed simp

subsection \<open>The commands\<close>

text \<open>The bzip2 library: a whole buffer compressed into a page of 64 KB, or not; and back.\<close>

record bz2 =
  bz_compress :: "string \<Rightarrow> string option"
  bz_init :: bool
  bz_decompress :: "string \<Rightarrow> string option"

definition REDIS_RECV_BUF_SIZE :: nat where "REDIS_RECV_BUF_SIZE = 64 * 1024"

text \<open>
  What is documented of the library: what it compressed is decompressed to what it was, if the page it is decompressed into has
  room left, and does not come to its end in a page that is too small.
\<close>

definition bz_page_law :: "bz2 \<Rightarrow> string \<Rightarrow> bool" where
  "bz_page_law B x \<longleftrightarrow>
     (case bz_compress B x of
        None \<Rightarrow> True
      | Some p \<Rightarrow> p \<noteq> [] \<and> (length x < REDIS_RECV_BUF_SIZE \<longrightarrow> bz_decompress B p = Some x) \<and>
          (REDIS_RECV_BUF_SIZE < length x \<longrightarrow> bz_decompress B p = None))"

definition redis_encode :: "bz2 \<Rightarrow> string \<Rightarrow> nat \<Rightarrow> string" where
  "redis_encode B mem n =
     (case bz_compress B (take n mem) of
        Some page \<Rightarrow> ''bz2:'' @ Base64_encode page (length page)
      | None \<Rightarrow> Base64_encode mem n)"

text \<open>What is written to the target (\<open>None\<close>: nothing), and the result; \<open>src\<close> is a C string, \<open>junk\<close> what follows it.\<close>

definition redis_decode :: "bz2 \<Rightarrow> string \<Rightarrow> string \<Rightarrow> nat \<Rightarrow> string option \<times> nat" where
  "redis_decode B src junk maxlen =
     (if take 4 src = ''bz2:''
      then (let (out, tlen) = Base64_decode (drop 4 src @ CHR 0x00 # junk) maxlen
            in if \<not> bz_init B then (Some out, 0)
               else (case bz_decompress B out of Some page \<Rightarrow> (Some page, length page) | None \<Rightarrow> (Some out, tlen)))
      else (None, maxlen))"

text \<open>The text of each command and the type of reply it expects; the arguments are C strings.\<close>

definition cmd_MONITOR :: "string \<times> char" where "cmd_MONITOR = (''MONITOR'', CHR ''+'')"
definition cmd_PING :: "string \<times> char" where "cmd_PING = (''PING'', CHR ''+'')"
definition cmd_INFO :: "string \<times> char" where "cmd_INFO = (''INFO'', CHR ''$'')"

definition cmd_SLAVEOF :: "string option \<Rightarrow> int \<Rightarrow> string \<times> char" where
  "cmd_SLAVEOF host port =
     (case host of
        None \<Rightarrow> (''SLAVEOF no one'', CHR ''+'')
      | Some h \<Rightarrow> if port = 0 then (''SLAVEOF no one'', CHR ''+'')
                  else (take 97 (''SLAVEOF '' @ h @ '' '' @ itoa port), CHR ''+''))"

definition cmd_SET :: "bz2 \<Rightarrow> string \<Rightarrow> string \<Rightarrow> nat \<Rightarrow> string \<times> char" where
  "cmd_SET B k mem n = (''SET '' @ k @ '' '' @ redis_encode B mem n, CHR ''+'')"

definition cmd_DEL :: "string \<Rightarrow> string \<times> char" where
  "cmd_DEL k = (''DEL '' @ k, CHR ''+'')"

definition cmd_GETSET :: "bz2 \<Rightarrow> string \<Rightarrow> string \<Rightarrow> nat \<Rightarrow> string \<times> char" where
  "cmd_GETSET B k mem n = (''GETSET '' @ k @ '' '' @ redis_encode B mem n, CHR ''$'')"

definition cmd_GET :: "string \<Rightarrow> string \<times> char" where
  "cmd_GET k = (''GET '' @ k, CHR ''$'')"

definition cmd_SETAddRm :: "bz2 \<Rightarrow> string \<Rightarrow> string \<Rightarrow> string \<Rightarrow> nat \<Rightarrow> string \<times> char" where
  "cmd_SETAddRm B cmd k mem n = (cmd @ '' '' @ k @ '' '' @ redis_encode B mem n, CHR '':'')"

definition cmd_SADD :: "bz2 \<Rightarrow> string \<Rightarrow> string \<Rightarrow> nat \<Rightarrow> string \<times> char" where
  "cmd_SADD B k mem n = cmd_SETAddRm B ''SADD'' k mem n"

definition cmd_SREM :: "bz2 \<Rightarrow> string \<Rightarrow> string \<Rightarrow> nat \<Rightarrow> string \<times> char" where
  "cmd_SREM B k mem n = cmd_SETAddRm B ''SREM'' k mem n"

definition cmd_Multikey :: "string \<Rightarrow> string list \<Rightarrow> string \<times> char" where
  "cmd_Multikey cmd keys = (cmd @ concat (map (\<lambda>k. CHR '' '' # k) keys), CHR ''*'')"

definition cmd_SMEMBERS :: "string \<Rightarrow> string \<times> char" where
  "cmd_SMEMBERS k = cmd_Multikey ''SMEMBERS'' [k]"

definition cmd_KEYS :: "string \<Rightarrow> string \<times> char" where
  "cmd_KEYS pattern = cmd_Multikey ''KEYS'' [pattern]"

definition cmd_EXPIRE :: "string \<Rightarrow> int \<Rightarrow> string \<times> char" where
  "cmd_EXPIRE k seconds = (''PEXPIRE '' @ k @ take 30 ('' '' @ itoa seconds), CHR '':'')"

text \<open>\<open>sendCommand\<close> on a text: an empty one is not sent.\<close>

definition send_text :: "send_env \<Rightarrow> nat \<Rightarrow> int \<Rightarrow> string \<times> char \<Rightarrow> redis_client \<Rightarrow> redis_client \<times> bool" where
  "send_text E i junk cmd s =
     (if fst cmd = [] then (s, False) else sendCommand E (new_redis_cmd i junk (e_now E) (fst cmd) (snd cmd)) s)"

text \<open>The constructor, on a receive buffer of any contents; \<open>ok\<close>: the address of the server was resolved.\<close>

definition redis_new :: "send_env \<Rightarrow> int \<Rightarrow> string \<Rightarrow> bool \<Rightarrow> redis_client" where
  "redis_new E junk buf ok =
     (let s = setClientTimeout DEFAULT_CONNECT_TIMEOUT DEFAULT_CLIENT_TIMEOUT
                \<lparr>inbuf = buf, inseen = 0, commandsToSend = [], commandsToReceive = [], receivesCmd = 0, completeCmd = 0,
                 redisErr = rdeOK, sendErrors = 0, connectTimeout = 0, messageTimeout = 0, sockTimeout = 0, sockState = stInitial,
                 errors = [], replied = []\<rparr>;
          s1 = (if ok then fst (send_text E 0 junk cmd_PING s) else s)
      in s1\<lparr>receivesCmd := 0, completeCmd := 0\<rparr>)"

subsection \<open>Synchronous calls\<close>

text \<open>\<open>wait\<close>: a reply was dispatched, or the event of a synchronous command was signalled, by a reply or by an error.\<close>

definition cmd_wait :: "bool \<Rightarrow> bool \<Rightarrow> redis_cmd \<Rightarrow> bool" where
  "cmd_wait hasEvent signalled c = (if stampReceived c > 0 then True else if \<not> hasEvent then False else signalled)"

text \<open>\<open>SYNC_WAIT_ASSERT_RET\<close>, on the command as it is after the wait.\<close>

definition sync_result :: "redis_cmd option \<Rightarrow> bool \<Rightarrow> int" where
  "sync_result cmd signalled =
     (case cmd of
        None \<Rightarrow> rdeClientError
      | Some c \<Rightarrow>
          if \<not> cmd_wait True signalled c then rdeRequestTimeout
          else if rtype c = CHR ''-'' then rdeServerReturnedError else rdeOK)"

text \<open>
  \<open>SET\<close>, \<open>DEL\<close>, \<open>SADD\<close> and \<open>SREM\<close> give that result; \<open>GET\<close> also what is written to the value and the length
  (\<open>None\<close>: left as they were), \<open>SMEMBERS\<close> and \<open>KEYS\<close> the list.
\<close>

definition sync_GET :: "bz2 \<Rightarrow> string \<Rightarrow> redis_cmd option \<Rightarrow> bool \<Rightarrow> int \<times> string option \<times> nat option" where
  "sync_GET B junk cmd signalled =
     (let r = sync_result cmd signalled
      in if r \<noteq> rdeOK then (r, None, None)
         else (case cmd of
                 None \<Rightarrow> (r, None, None)
               | Some c \<Rightarrow>
                   (case bulks c of
                      [] \<Rightarrow> (rdeNil, None, Some 0)
                    | b # _ \<Rightarrow> (case redis_decode B (c_str b) junk (length (c_str b)) of (v, n) \<Rightarrow> (rdeOK, v, Some n)))))"

definition sync_list :: "redis_cmd option \<Rightarrow> bool \<Rightarrow> int \<times> string list option" where
  "sync_list cmd signalled =
     (let r = sync_result cmd signalled
      in if r \<noteq> rdeOK then (r, None) else (rdeOK, map_option bulks cmd))"

end
