(* ===== verification/Redis_Client_Props.thy ===== *)
theory Redis_Client_Props
  imports Redis_Client
begin

text \<open>
  Properties of the Redis client: no command is lost or answered twice, values survive the store, and what a
  synchronous call makes of a lost connection.
\<close>

text \<open>
  C17. No command is lost: in every state the client can reach, by sending, connecting, reconnecting, errors and data in any
  order, each command that was submitted is in exactly one place: waiting for the connection, awaiting its reply,
  replied to, or reported with an error. (Commands are counted by their number, as a multiset.)
\<close>

theorem redis_accounts_for_commands:
  assumes "run_ops redis_step (redis_new E junk buf ok) xs = Some s"
  shows "mset (map cid (commandsToSend s)) + mset (map cid (commandsToReceive s)) + mset (map cid (replied s)) +
     mset (map (cid \<circ> fst) (errors s)) = submitted xs + (if ok then {#0#} else {#})"
proof -
  have set: "held (s\<lparr>receivesCmd := a, completeCmd := b\<rparr>) = held s" for s :: redis_client and a b
    by (simp add: held_def)
  have "held (redis_new E junk buf ok) = (if ok then {#0#} else {#})"
  proof (cases ok)
    case True
    then show ?thesis
      unfolding redis_new_def Let_def set
      by (simp add: send_text_def cmd_PING_def held_sendCommand new_redis_cmd_def) (simp add: held_def setClientTimeout_def Let_def)
  next
    case False
    then show ?thesis
      unfolding redis_new_def Let_def set by (simp add: held_def setClientTimeout_def Let_def)
  qed
  with held_run [OF assms] show ?thesis by (simp add: held_def comp_def ac_simps)
qed

text \<open>A client that connects at once, sends a GET, gets one reply, and loses the connection.\<close>

definition env_ok :: "nat \<Rightarrow> send_env" where
  "env_ok i = \<lparr>e_now = 10, e_connect = stConnected, e_sends = [20], e_wouldblock = False\<rparr>"

definition redis_demo :: "redis_op list" where
  "redis_demo = [Send (env_ok 0) (new_redis_cmd 7 0 10 ''GET k'' (CHR ''$'')), Arrive 11 (Bytes (''+PONG'' @ [CR, LF])), Arrive 12 Broken]"

lemma redis_accounts_for_commands_witness:
  "\<exists>s. run_ops redis_step (redis_new (env_ok 0) 0 (replicate 40 NUL) True) redis_demo = Some s \<and>
     map cid (replied s) = [0] \<and> map (cid \<circ> fst) (errors s) = [7]"
proof -
  have "case run_ops redis_step (redis_new (env_ok 0) 0 (replicate 40 NUL) True) redis_demo of None \<Rightarrow> False
     | Some s \<Rightarrow> map cid (replied s) = [0] \<and> commandsToSend s = [] \<and> commandsToReceive s = []" by code_simp
  then obtain s where s: "run_ops redis_step (redis_new (env_ok 0) 0 (replicate 40 NUL) True) redis_demo = Some s"
    and r: "map cid (replied s) = [0] \<and> commandsToSend s = [] \<and> commandsToReceive s = []" by (rule case_SomeE)
  have sub: "submitted redis_demo = {#7#}" by (simp add: redis_demo_def new_redis_cmd_def)
  have "mset (map (cid \<circ> fst) (errors s)) = {#7#}"
    using redis_accounts_for_commands [OF s] r unfolding sub by simp
  then have "map (cid \<circ> fst) (errors s) = [7]" by (simp only: mset_single_iff)
  with s r show ?thesis by (intro exI conjI) (assumption, simp, assumption)
qed

definition colon_free :: "nat \<Rightarrow> bool" where
  "colon_free n \<longleftrightarrow> CHR '':'' \<noteq> digit64 n"

lemma digit64_colon: "n < 64 \<Longrightarrow> colon_free n"
proof -
  assume "n < 64"
  moreover have "list_all colon_free [0..<64]" by code_simp
  moreover have "n \<in> set [0..<64]" unfolding set_upt using \<open>n < 64\<close> by simp
  ultimately show ?thesis unfolding list_all_iff by blast
qed

lemma no_colon: "CHR '':'' \<notin> set (encode_groups s)"
proof (induction s rule: encode_groups.induct)
  case (2 a)
  have "list_all (\<lambda>n. n < 64) (obuf (byte a) 0 0)" by (rule obuf_less) simp_all
  then have "list_all colon_free (obuf (byte a) 0 0)" by (simp add: obuf_def digit64_colon)
  then show ?case by (simp add: obuf_def colon_free_def numeral_2_eq_2)
next
  case (3 a b)
  have "list_all (\<lambda>n. n < 64) (obuf (byte a) (byte b) 0)" by (rule obuf_less) simp_all
  then have "list_all colon_free (obuf (byte a) (byte b) 0)" by (simp add: obuf_def digit64_colon)
  then show ?case by (simp add: obuf_def colon_free_def)
next
  case (4 a b c s)
  have "list_all (\<lambda>n. n < 64) (obuf (byte a) (byte b) (byte c))" by (rule obuf_less) simp_all
  then have "list_all colon_free (obuf (byte a) (byte b) (byte c))" by (simp add: obuf_def digit64_colon)
  with 4 show ?case by (simp add: obuf_def colon_free_def)
qed simp

lemma value_roundtrip:
  assumes "bz_page_law B (take n mem)" and "bz_init B" and "n \<noteq> REDIS_RECV_BUF_SIZE"
    and "0 < n" and "n \<le> length mem" and "rtype c = CHR ''$''" and "stampReceived c > 0" and "bulks c = [redis_encode B mem n]"
  shows "sync_GET B junk (Some c) True =
     (case bz_compress B (take n mem) of
        Some p \<Rightarrow> if n < REDIS_RECV_BUF_SIZE then (rdeOK, Some (take n mem), Some n) else (rdeOK, Some p, Some (length p))
      | None \<Rightarrow> (rdeOK, None, Some ((n + 2) div 3 * 4)))"
proof -
  have r: "sync_result (Some c) True = rdeOK" using assms(6,7) by (simp add: sync_result_def cmd_wait_def)
  have plain: "CHR 0x00 \<notin> set (encode_groups s)" "length (encode_groups s) = (length s + 2) div 3 * 4" if "s \<noteq> []" for s
    using encode_groups_split [OF that] by auto
  have get: "sync_GET B junk (Some c) True =
      (case redis_decode B (c_str (redis_encode B mem n)) junk (length (c_str (redis_encode B mem n))) of (v, k) \<Rightarrow> (rdeOK, v, Some k))"
    by (simp add: sync_GET_def r assms(8))
  show ?thesis
  proof (cases "bz_compress B (take n mem)")
    case None
    have s: "take n mem \<noteq> []" using assms(4,5) by auto
    have e: "redis_encode B mem n = encode_groups (take n mem)"
      using None assms(4) by (simp add: redis_encode_def Base64_encode_def)
    have "c_str (redis_encode B mem n) = redis_encode B mem n" unfolding e by (rule c_str_no_nul [OF plain(1) [OF s]])
    moreover have "take 4 (redis_encode B mem n) \<noteq> ''bz2:''"
    proof
      assume "take 4 (redis_encode B mem n) = ''bz2:''"
      then have "CHR '':'' \<in> set (take 4 (encode_groups (take n mem)))" by (simp add: e)
      then show False using no_colon by (metis in_set_takeD)
    qed
    ultimately show ?thesis
      unfolding get redis_decode_def using None assms(5) plain(2) [OF s] by (simp add: e)
  next
    case (Some p)
    have p: "bz_decompress B p = (if n < REDIS_RECV_BUF_SIZE then Some (take n mem) else None)" "p \<noteq> []"
      using assms(1,3,5) Some by (auto simp: bz_page_law_def)
    have e: "redis_encode B mem n = ''bz2:'' @ Base64_encode p (length p)" using Some by (simp add: redis_encode_def)
    have b: "Base64_encode p (length p) = encode_groups p" using p(2) by (simp add: Base64_encode_def)
    have "CHR 0x00 \<notin> set (redis_encode B mem n)" unfolding e b using plain(1) [OF p(2)] by simp
    then have cs: "c_str (redis_encode B mem n) = redis_encode B mem n" by (rule c_str_no_nul)
    have len: "length p \<le> length (redis_encode B mem n)" unfolding e b using plain(2) [OF p(2)] by simp
    have d: "Base64_decode (Base64_encode p (length p) @ CHR 0x00 # junk) (length (redis_encode B mem n)) = (p, length p)"
      using crypto_base64_roundtrip [of "length p" p "length (redis_encode B mem n)" junk] p(2) len by simp
    have "redis_decode B (redis_encode B mem n) junk (length (redis_encode B mem n)) =
        (if n < REDIS_RECV_BUF_SIZE then (Some (take n mem), n) else (Some p, length p))"
      unfolding redis_decode_def using d p(1) assms(2,5) by (simp add: e)
    then show ?thesis unfolding get cs using Some by simp
  qed
qed

text \<open>A toy compression: any value of one byte, as that byte twice.\<close>

definition bz_demo :: bz2 where
  "bz_demo = \<lparr>bz_compress = (\<lambda>x. case x of [c] \<Rightarrow> Some [c, c] | _ \<Rightarrow> None), bz_init = True,
     bz_decompress = (\<lambda>p. case p of [c, d] \<Rightarrow> Some [c] | _ \<Rightarrow> None)\<rparr>"

definition get_demo :: "string \<Rightarrow> redis_cmd" where
  "get_demo b = (new_redis_cmd 1 0 5 ''GET k'' (CHR ''$''))\<lparr>rtype := CHR ''$'', bulks := [b], stampReceived := 9\<rparr>"

text \<open>
  A lost connection looks like success: when the client disconnects, every command that waits or awaits its reply is
  reported as cancelled, which signals the event of a synchronous call; the call then finds no error reply, so that
  \<open>SET\<close> and \<open>DEL\<close> report success although nothing was stored, and \<open>GET\<close> reports that the key does not exist.
\<close>

theorem cancelled_call_reports_success:
  assumes "c \<in> set (commandsToSend s @ commandsToReceive s)" and "rtype c = NUL" and "bulks c = []" and "stampReceived c = 0"
  shows "(c, rdeClientCanceled) \<in> set (errors (redis_disconnect s)) \<and> replied (redis_disconnect s) = replied s \<and>
     sync_result (Some c) True = rdeOK \<and> sync_GET B junk (Some c) True = (rdeNil, None, Some 0) \<and>
     sync_result (Some c) False = rdeRequestTimeout"
proof -
  have "sync_result (Some c) True = rdeOK" "sync_result (Some c) False = rdeRequestTimeout"
    using assms(2,4) by (simp_all add: sync_result_def cmd_wait_def)
  moreover have "sync_GET B junk (Some c) True = (rdeNil, None, Some 0)"
    using calculation(1) assms(3) by (simp add: sync_GET_def)
  moreover have "(c, rdeClientCanceled) \<in> set (errors (redis_disconnect s))"
    using assms(1) by (auto simp: redis_disconnect_def cancelCommands_def)
  ultimately show ?thesis by (simp add: redis_disconnect_def cancelCommands_def)
qed

lemma cancelled_call_reports_success_witness:
  "sync_result (Some (new_redis_cmd 7 0 1 ''KEYS *'' (CHR ''*''))) True = rdeOK \<and>
     map fst (errors (redis_disconnect (client0 ping_keys))) = ping_keys"
  using cancelled_call_reports_success [of "new_redis_cmd 7 0 1 ''KEYS *'' (CHR ''*'')" "client0 ping_keys"]
  by (simp add: client0_def ping_keys_def new_redis_cmd_def redis_disconnect_def cancelCommands_def)

end
