(* ===== verification/Redis_Evictor.thy ===== *)
theory Redis_Evictor
  imports Evictor_Model Redis_Client_Props
begin

text \<open>
  \<open>RedisEvictor\<close> of RedisClient.cpp: the evictor whose store is a Redis server, reached by synchronous calls. The server itself is
  not modelled: the results of the calls and the replies are arguments.
\<close>

subsection \<open>The two operations\<close>

text \<open>The results of the calls, one per item, are an argument; the result counts the successful ones.\<close>

fun redis_saved :: "streamed list \<Rightarrow> int list \<Rightarrow> nat" where
  "redis_saved (x # batch) (r # rs) =
     (if st_status x \<in> {Created, Modified, Destroyed} \<and> r = rdeOK then 1 else 0) + redis_saved batch rs"
| "redis_saved batch rs = 0"

definition load_error :: "int \<Rightarrow> error" where
  "load_error rc =
     (if rc = rdeOK then eeOK else if rc = rdeNil then eeNotFound
      else if rc = rdeRequestTimeout then eeTimeout else eeConnectErr)"

text \<open>\<open>loadFromStore\<close> from the outcome of \<open>GET\<close>; \<open>recvBuf\<close> is the memory of the new buffer.\<close>

definition redis_load :: "string \<Rightarrow> int \<times> string option \<times> nat option \<Rightarrow> error \<times> string" where
  "redis_load recvBuf res =
     (case res of (rc, v, n) \<Rightarrow>
        if rc \<noteq> rdeOK then (load_error rc, [])
        else (eeOK, take (case n of None \<Rightarrow> length recvBuf | Some k \<Rightarrow> k) (case v of None \<Rightarrow> recvBuf | Some b \<Rightarrow> b @ drop (length b) recvBuf)))"

lemma redis_saved_all:
  "redis_saved batch (replicate (length batch) rdeOK) = length (filter (\<lambda>x. st_status x \<in> {Created, Modified, Destroyed}) batch)"
  by (induction batch) simp_all

subsection \<open>What is loaded\<close>

text \<open>
  C18. What \<open>loadFromStore\<close> makes of the reply that holds the text \<open>SET\<close> sent for an object, into memory that the text fits in. A
  value that bzip2 compressed comes back byte for byte if it is shorter than the page of 64 KB; of a longer one the compressed
  bytes are handed out, as a success. A value that bzip2 did not compress into the page is lost: its plain base64 is not decoded,
  and as many bytes as the text is long are taken from the new memory as it was found, as a success, too.
\<close>

theorem redis_object_roundtrip:
  assumes "bz_page_law B (take n mem)" and "bz_init B" and "n \<noteq> REDIS_RECV_BUF_SIZE"
    and "0 < n" and "n \<le> length mem" and "rtype c = CHR ''$''" and "stampReceived c > 0" and "bulks c = [redis_encode B mem n]"
  shows "redis_load recvBuf (sync_GET B junk (Some c) True) =
     (eeOK, case bz_compress B (take n mem) of
        Some p \<Rightarrow> if n < REDIS_RECV_BUF_SIZE then take n mem else p
      | None \<Rightarrow> take ((n + 2) div 3 * 4) recvBuf)"
  using assms(5) unfolding value_roundtrip [OF assms]
  by (cases "bz_compress B (take n mem)") (simp_all add: redis_load_def rde_defs)

theorem redis_object_roundtrip_witness:
  "redis_load ''????????'' (sync_GET bz_demo [] (Some (get_demo (redis_encode bz_demo ''x'' 1))) True) = (eeOK, ''x'') \<and>
     redis_load ''????????'' (sync_GET bz_demo [] (Some (get_demo (redis_encode bz_demo ''xyz'' 3))) True) = (eeOK, ''????'')"
proof -
  have law: "bz_page_law bz_demo ''x''" "bz_page_law bz_demo ''xyz''" and i: "bz_init bz_demo"
    by (simp_all add: bz_page_law_def bz_demo_def REDIS_RECV_BUF_SIZE_def)
  show ?thesis
    using redis_object_roundtrip [of bz_demo 1 "''x''" "get_demo (redis_encode bz_demo ''x'' 1)" "''????????''" "[]"]
      redis_object_roundtrip [of bz_demo 3 "''xyz''" "get_demo (redis_encode bz_demo ''xyz'' 3)" "''????????''" "[]"] law i
    by (simp add: REDIS_RECV_BUF_SIZE_def get_demo_def bz_demo_def)
qed

end
