(* ===== verification/RW_Lock.thy ===== *)
theory RW_Lock
  imports Prelude
begin

text \<open>
  The read/write lock of rwlock\_Linux.cpp: a mutex over the count of readers and a semaphore over the data. The
  functions are cut at the points where they block; parties that use the lock interleave at these points.
\<close>

subsection \<open>The lock\<close>

text \<open>\<open>count_lock\<close>: whether some thread holds the mutex across a blocking call; \<open>data_lock\<close>: the value of the semaphore.\<close>

record rwlock =
  count_lock :: bool
  data_lock :: nat
  read_count :: int

definition create_rwlock :: rwlock where
  "create_rwlock = \<lparr>count_lock = False, data_lock = 1, read_count = 0\<rparr>"

text \<open>The absolute time to wait for, from the time of day (seconds and milliseconds) and the time-out.\<close>

definition deadline :: "int \<Rightarrow> int \<Rightarrow> uint32 \<Rightarrow> int \<times> int" where
  "deadline time millitm timeo =
     (let sec = uint (timeo div 1000); msec = uint (timeo mod 1000); t = time + sec; ms = millitm + msec
      in if ms > 999 then (t + 1, (ms - 1000) * 1000000) else (t, ms * 1000000))"

text \<open>\<open>rwlock_lock_read\<close> up to its wait: \<open>None\<close> while the mutex is taken; the first reader keeps it and goes on to wait for
  the semaphore, the others have the lock. Then the end of the wait, by a time-out or by the semaphore.\<close>

definition lock_read_enter :: "rwlock \<Rightarrow> (rwlock \<times> bool) option" where
  "lock_read_enter l =
     (if count_lock l then None
      else (let l1 = l\<lparr>read_count := read_count l + 1\<rparr>
            in if read_count l1 = 1 then Some (l1\<lparr>count_lock := True\<rparr>, True) else Some (l1, False)))"

definition lock_read_wait :: "bool \<Rightarrow> rwlock \<Rightarrow> (rwlock \<times> int) option" where
  "lock_read_wait timedout l =
     (if timedout then Some (l\<lparr>count_lock := False, read_count := read_count l - 1\<rparr>, 0)
      else if data_lock l > 0 then Some (l\<lparr>count_lock := False, data_lock := data_lock l - 1\<rparr>, 1)
      else None)"

definition lock_write :: "bool \<Rightarrow> rwlock \<Rightarrow> (rwlock \<times> int) option" where
  "lock_write timedout l =
     (if timedout then Some (l, 0)
      else if data_lock l > 0 then Some (l\<lparr>data_lock := data_lock l - 1\<rparr>, 1)
      else None)"

definition unlock_read :: "rwlock \<Rightarrow> (rwlock \<times> int) option" where
  "unlock_read l =
     (if count_lock l then None
      else if read_count l = 0 then Some (l, 0)
      else (let l1 = l\<lparr>read_count := read_count l - 1\<rparr>
            in Some (if read_count l1 = 0 then l1\<lparr>data_lock := data_lock l1 + 1\<rparr> else l1, 1)))"

text \<open>The result of \<open>sem_post\<close> is handed on: 0.\<close>

definition unlock_write :: "rwlock \<Rightarrow> rwlock \<times> int" where
  "unlock_write l = (l\<lparr>data_lock := data_lock l + 1\<rparr>, 0)"

text \<open>The test takes the semaphore for a moment; \<open>Inr\<close> when it still has to be given back, with result 0.\<close>

definition locked_write_try :: "rwlock \<Rightarrow> int + rwlock" where
  "locked_write_try l =
     (if read_count l \<noteq> 0 then Inl 0
      else if data_lock l = 0 then Inl 1
      else Inr (l\<lparr>data_lock := data_lock l - 1\<rparr>))"

definition locked_write_post :: "rwlock \<Rightarrow> rwlock" where
  "locked_write_post l = l\<lparr>data_lock := data_lock l + 1\<rparr>"

definition locked_read :: "int \<Rightarrow> rwlock \<Rightarrow> int" where
  "locked_read r l = (if r \<noteq> 0 then r else if read_count l > 0 then 1 else 0)"

text \<open>\<open>XRWLock\<close> asserts that each result is not 0; \<open>None\<close> is a failed assertion.\<close>

definition asserted :: "rwlock \<times> int \<Rightarrow> rwlock option" where
  "asserted r = (if snd r \<noteq> 0 then Some (fst r) else None)"

definition unlockWrite :: "rwlock \<Rightarrow> rwlock option" where
  "unlockWrite l = asserted (unlock_write l)"

subsection \<open>Parties that share a lock\<close>

datatype rw_phase = Idle | ReadWait | Reading | WriteWait | Writing | Testing

record rw_sys =
  lock :: rwlock
  parties :: "rw_phase list"

datatype rw_op =
  LockRead nat | ReadGot nat | ReadTimeout nat | LockWrite nat | WriteGot nat | WriteTimeout nat
| UnlockRead nat | UnlockWrite nat | TestLocked nat | TestPost nat

fun party :: "rw_op \<Rightarrow> nat" where
  "party (LockRead i) = i" | "party (ReadGot i) = i" | "party (ReadTimeout i) = i" | "party (LockWrite i) = i"
| "party (WriteGot i) = i" | "party (WriteTimeout i) = i" | "party (UnlockRead i) = i" | "party (UnlockWrite i) = i"
| "party (TestLocked i) = i" | "party (TestPost i) = i"

definition enter :: "nat \<Rightarrow> rw_phase \<Rightarrow> rw_sys \<Rightarrow> rwlock \<Rightarrow> rw_sys" where
  "enter i p s l = \<lparr>lock = l, parties = (parties s)[i := p]\<rparr>"

text \<open>One step of a party in a given phase. A party unlocks what it has locked.\<close>

fun rw_act :: "rw_sys \<Rightarrow> rw_op \<Rightarrow> rw_phase \<Rightarrow> rw_sys option" where
  "rw_act s (LockRead i) p =
     (if p = Idle then map_option (\<lambda>(l, waits). enter i (if waits then ReadWait else Reading) s l) (lock_read_enter (lock s)) else None)"
| "rw_act s (ReadGot i) p =
     (if p = ReadWait then map_option (\<lambda>(l, r). enter i Reading s l) (lock_read_wait False (lock s)) else None)"
| "rw_act s (ReadTimeout i) p =
     (if p = ReadWait then map_option (\<lambda>(l, r). enter i Idle s l) (lock_read_wait True (lock s)) else None)"
| "rw_act s (LockWrite i) p = (if p = Idle then Some (enter i WriteWait s (lock s)) else None)"
| "rw_act s (WriteGot i) p =
     (if p = WriteWait then map_option (\<lambda>(l, r). enter i Writing s l) (lock_write False (lock s)) else None)"
| "rw_act s (WriteTimeout i) p =
     (if p = WriteWait then map_option (\<lambda>(l, r). enter i Idle s l) (lock_write True (lock s)) else None)"
| "rw_act s (UnlockRead i) p =
     (if p = Reading then map_option (\<lambda>(l, r). enter i Idle s l) (unlock_read (lock s)) else None)"
| "rw_act s (UnlockWrite i) p = (if p = Writing then Some (enter i Idle s (fst (unlock_write (lock s)))) else None)"
| "rw_act s (TestLocked i) p =
     (if p = Idle then (case locked_write_try (lock s) of Inl r \<Rightarrow> Some s | Inr l \<Rightarrow> Some (enter i Testing s l)) else None)"
| "rw_act s (TestPost i) p = (if p = Testing then Some (enter i Idle s (locked_write_post (lock s))) else None)"

definition rw_step :: "rw_sys \<Rightarrow> rw_op \<Rightarrow> rw_sys option" where
  "rw_step s x = (if party x < length (parties s) then rw_act s x (parties s ! party x) else None)"

definition rw_init :: "nat \<Rightarrow> rw_sys" where
  "rw_init n = \<lparr>lock = create_rwlock, parties = replicate n Idle\<rparr>"

subsection \<open>The invariant\<close>

definition in_phase :: "rw_phase \<Rightarrow> rw_sys \<Rightarrow> nat" where
  "in_phase p s = count_list (parties s) p"

definition rw_inv :: "rw_sys \<Rightarrow> bool" where
  "rw_inv s \<longleftrightarrow>
     data_lock (lock s) + in_phase Writing s + in_phase Testing s + min 1 (in_phase Reading s) = 1 \<and>
     read_count (lock s) = int (in_phase Reading s) + int (in_phase ReadWait s) \<and>
     in_phase ReadWait s = (if count_lock (lock s) then 1 else 0) \<and>
     (count_lock (lock s) \<longrightarrow> in_phase Reading s = 0)"

lemma count_list_nth_pos: "i < length xs \<Longrightarrow> count_list xs (xs ! i) > 0"
  by (metis count_list_0_iff gr0I nth_mem)

lemma count_list_update:
  "i < length xs \<Longrightarrow> count_list (xs[i := x]) y = count_list xs y - (if xs ! i = y then 1 else 0) + (if x = y then 1 else 0)"
proof (induction xs arbitrary: i)
  case (Cons a xs)
  then show ?case
    using count_list_nth_pos [of "i - 1" xs] by (cases i) (auto simp: algebra_simps)
qed simp

lemma in_phase_enter [simp]:
  "i < length (parties s) \<Longrightarrow>
   in_phase p (enter i q s l) = in_phase p s - (if parties s ! i = p then 1 else 0) + (if q = p then 1 else 0)"
  by (simp add: in_phase_def enter_def count_list_update)

lemma lock_enter [simp]: "lock (enter i q s l) = l"
  by (simp add: enter_def)

lemma enter_parties: "parties (enter i q s l) = (parties s)[i := q]"
  by (simp add: enter_def)

lemma in_phase_pos: "i < length (parties s) \<Longrightarrow> parties s ! i = p \<Longrightarrow> in_phase p s > 0"
  by (metis in_phase_def count_list_0_iff gr0I nth_mem)

lemma in_phase_nth: "in_phase p s > 0 \<Longrightarrow> \<exists>i<length (parties s). parties s ! i = p"
  by (metis in_phase_def count_list_0_iff in_set_conv_nth less_irrefl)

lemmas rw_ops = lock_read_enter_def lock_read_wait_def lock_write_def unlock_read_def unlock_write_def
  locked_write_try_def locked_write_post_def

lemma rw_inv_act:
  assumes "rw_inv s" and "i < length (parties s)" and "parties s ! i = p" and "rw_act s x p = Some s'" and "party x = i"
  shows "rw_inv s'"
  using assms(4,1,2,3,5) in_phase_pos [OF assms(2,3)]
  by (cases x) (auto simp: rw_inv_def rw_ops Let_def min_def split: if_splits)

lemma rw_inv_step: "rw_inv s \<Longrightarrow> rw_step s x = Some s' \<Longrightarrow> rw_inv s'"
  by (auto simp: rw_step_def intro: rw_inv_act split: if_splits)

lemma rw_inv_init: "rw_inv (rw_init n)"
  by (induction n) (auto simp: rw_inv_def rw_init_def in_phase_def create_rwlock_def count_list_0_iff)

interpretation rw: transition_system "rw_init n" rw_step rw_inv
  by unfold_locales (auto intro: rw_inv_init rw_inv_step)

lemma length_rw_act: "rw_act s x p = Some s' \<Longrightarrow> length (parties s') = length (parties s)"
  by (cases x) (auto simp: enter_def split: sum.splits if_splits)

lemma length_rw_step: "rw_step s x = Some s' \<Longrightarrow> length (parties s') = length (parties s)"
  by (auto simp: rw_step_def length_rw_act split: if_splits)

subsection \<open>Exclusion\<close>

text \<open>
  C19. A party that writes is alone: no other party reads, writes or holds the semaphore for a test, whatever the order
  of the steps that led there.
\<close>

theorem writer_excludes_others:
  assumes "run_ops rw_step (rw_init n) xs = Some s"
    and "i < length (parties s)" and "j < length (parties s)" and "i \<noteq> j" and "parties s ! i = Writing"
  shows "parties s ! j \<notin> {Reading, Writing, Testing}"
proof -
  have inv: "rw_inv s"
    using assms(1) by (rule rw.reachable_inv)
  then have one: "in_phase Writing s = 1" and none: "in_phase Reading s = 0" "in_phase Testing s = 0"
    using in_phase_pos [OF assms(2,5)] by (auto simp: rw_inv_def min_def split: if_splits)
  have "in_phase Writing (enter i Idle s (lock s)) = 0"
    using assms(2,5) one by simp
  moreover have "parties (enter i Idle s (lock s)) ! j = parties s ! j"
    using assms(4) by (simp add: enter_def)
  ultimately have "parties s ! j \<noteq> Writing"
    using in_phase_pos [of j "enter i Idle s (lock s)" Writing] assms(3) by (auto simp: enter_def)
  then show ?thesis
    using in_phase_pos [OF assms(3)] none by auto
qed

definition rw_demo :: "rw_op list" where
  "rw_demo = [LockRead 0, ReadGot 0, LockRead 1, LockWrite 2, UnlockRead 0, UnlockRead 1, WriteGot 2]"

theorem writer_excludes_others_witness:
  "\<exists>s. run_ops rw_step (rw_init 3) rw_demo = Some s \<and> parties s ! 2 = Writing \<and> parties s ! 0 \<notin> {Reading, Writing, Testing}"
proof -
  have "case run_ops rw_step (rw_init 3) rw_demo of None \<Rightarrow> False | Some s \<Rightarrow> length (parties s) = 3 \<and> parties s ! 2 = Writing"
    by code_simp
  then obtain s where s: "run_ops rw_step (rw_init 3) rw_demo = Some s" "length (parties s) = 3 \<and> parties s ! 2 = Writing"
    by (rule case_SomeE)
  show ?thesis
    using s writer_excludes_others [OF s(1), of 2 0] by (intro exI [of _ s]) simp
qed

subsection \<open>Progress\<close>

definition releases :: "rw_op \<Rightarrow> bool" where
  "releases x \<longleftrightarrow> (case x of UnlockRead i \<Rightarrow> True | UnlockWrite i \<Rightarrow> True | TestPost i \<Rightarrow> True | _ \<Rightarrow> False)"

definition holders :: "rw_sys \<Rightarrow> nat" where
  "holders s = in_phase Reading s + in_phase Writing s + in_phase Testing s"

text \<open>While the semaphore is taken, some holder can give back what it holds.\<close>

lemma holder_can_release:
  assumes inv: "rw_inv s" and taken: "data_lock (lock s) = 0"
  obtains x j s' where "releases x" and "party x = j" and "j < length (parties s)" and "parties s ! j \<in> {Reading, Writing, Testing}"
    and "rw_step s x = Some s'" and "holders s' < holders s" and "parties s' = (parties s)[j := Idle]"
proof -
  consider "in_phase Reading s > 0" | "in_phase Writing s > 0" | "in_phase Testing s > 0"
    using inv taken by (fastforce simp: rw_inv_def min_def split: if_splits)
  then show thesis
  proof cases
    case 1
    then obtain j where j: "j < length (parties s)" "parties s ! j = Reading"
      using in_phase_nth by blast
    have "\<not> count_lock (lock s)" and "read_count (lock s) \<noteq> 0"
      using inv 1 by (auto simp: rw_inv_def)
    then obtain l r where l: "unlock_read (lock s) = Some (l, r)"
      by (auto simp: unlock_read_def Let_def)
    show thesis
      by (rule that [of "UnlockRead j" j "enter j Idle s l"]) (use j l 1 in \<open>auto simp: releases_def rw_step_def holders_def enter_parties\<close>)
  next
    case 2
    then obtain j where j: "j < length (parties s)" "parties s ! j = Writing"
      using in_phase_nth by blast
    show thesis
      by (rule that [of "UnlockWrite j" j "enter j Idle s (fst (unlock_write (lock s)))"])
        (use j 2 in \<open>auto simp: releases_def rw_step_def holders_def enter_parties\<close>)
  next
    case 3
    then obtain j where j: "j < length (parties s)" "parties s ! j = Testing"
      using in_phase_nth by blast
    show thesis
      by (rule that [of "TestPost j" j "enter j Idle s (locked_write_post (lock s))"])
        (use j 3 in \<open>auto simp: releases_def rw_step_def holders_def enter_parties\<close>)
  qed
qed

definition waiting :: "rw_phase \<Rightarrow> bool" where
  "waiting p \<longleftrightarrow> p = ReadWait \<or> p = WriteWait"

definition granted :: "rw_phase \<Rightarrow> rw_phase" where
  "granted p = (if p = ReadWait then Reading else Writing)"

definition grant :: "nat \<Rightarrow> rw_phase \<Rightarrow> rw_op" where
  "grant i p = (if p = ReadWait then ReadGot i else WriteGot i)"

lemma grant_when_free:
  assumes "waiting p" and "i < length (parties s)" and "parties s ! i = p" and "data_lock (lock s) > 0"
  shows "\<exists>s'. rw_step s (grant i p) = Some s' \<and> parties s' ! i = granted p"
  using assms by (auto simp: waiting_def grant_def granted_def rw_step_def rw_ops enter_parties)

lemma waiter_proceeds:
  assumes "rw_inv s" and "waiting p" and "i < length (parties s)" and "parties s ! i = p"
  shows "\<exists>ys s'. run_ops rw_step s (ys @ [grant i p]) = Some s' \<and> list_all releases ys \<and> parties s' ! i = granted p"
  using assms(1,3,4)
proof (induction "holders s" arbitrary: s rule: less_induct)
  case less
  show ?case
  proof (cases "data_lock (lock s) = 0")
    case False
    then obtain s' where "rw_step s (grant i p) = Some s'" and "parties s' ! i = granted p"
      using grant_when_free [OF assms(2) less.prems(2,3)] by auto
    then show ?thesis
      by (intro exI [of _ "[]"] exI [of _ s']) simp
  next
    case True
    obtain x j t where x: "releases x" "j < length (parties s)" "parties s ! j \<in> {Reading, Writing, Testing}"
      "rw_step s x = Some t" "holders t < holders s" "parties t = (parties s)[j := Idle]"
      using holder_can_release [OF less.prems(1) True] by metis
    have "j \<noteq> i"
      using x(3) less.prems(3) assms(2) by (auto simp: waiting_def)
    then obtain ys s' where ys: "run_ops rw_step t (ys @ [grant i p]) = Some s'" "list_all releases ys" "parties s' ! i = granted p"
      using less.hyps [OF x(5) rw_inv_step [OF less.prems(1) x(4)]] less.prems x(6) by auto
    show ?thesis
      using ys x by (intro exI [of _ "x # ys"] exI [of _ s']) simp
  qed
qed

text \<open>
  C20. No deadlock: in every reachable state, a party that waits gets the lock when the parties that hold something give
  it back, without any other step and without a time-out.
\<close>

theorem waiting_party_gets_lock:
  assumes "run_ops rw_step (rw_init n) xs = Some s"
    and "i < length (parties s)" and "parties s ! i = p" and "waiting p"
  shows "\<exists>ys s'. run_ops rw_step s (ys @ [grant i p]) = Some s' \<and> list_all releases ys \<and> parties s' ! i = granted p"
  using rw.reachable_inv [OF assms(1)] assms(4,2,3) by (rule waiter_proceeds)

theorem waiting_party_gets_lock_witness:
  "\<exists>s ys s'. run_ops rw_step (rw_init 3) [LockRead 0, ReadGot 0, LockRead 1, LockWrite 2] = Some s \<and>
     run_ops rw_step s (ys @ [WriteGot 2]) = Some s' \<and> list_all releases ys \<and> parties s' ! 2 = Writing"
proof -
  have "case run_ops rw_step (rw_init 3) [LockRead 0, ReadGot 0, LockRead 1, LockWrite 2] of None \<Rightarrow> False
          | Some s \<Rightarrow> length (parties s) = 3 \<and> parties s ! 2 = WriteWait"
    by code_simp
  then obtain s where s: "run_ops rw_step (rw_init 3) [LockRead 0, ReadGot 0, LockRead 1, LockWrite 2] = Some s"
      "length (parties s) = 3 \<and> parties s ! 2 = WriteWait"
    by (rule case_SomeE)
  show ?thesis
    using waiting_party_gets_lock [OF s(1), of 2 WriteWait] s by (simp add: waiting_def grant_def granted_def)
qed

subsection \<open>What the lock does not do\<close>

text \<open>Readers that overlap keep a writer waiting: this turn of two readers leads back to the same state.\<close>

definition starved :: rw_sys where
  "starved = \<lparr>lock = \<lparr>count_lock = False, data_lock = 0, read_count = 1\<rparr>, parties = [Reading, Idle, WriteWait]\<rparr>"

definition reader_turn :: "rw_op list" where
  "reader_turn = [LockRead 1, UnlockRead 0, LockRead 0, UnlockRead 1]"

lemma starved_reachable: "run_ops rw_step (rw_init 3) [LockRead 0, ReadGot 0, LockWrite 2] = Some starved"
  by code_simp

lemma reader_turn_cycle: "run_ops rw_step starved reader_turn = Some starved"
  by code_simp

lemma readers_starve_writer: "run_ops rw_step starved (concat (replicate k reader_turn)) = Some starved"
  by (induction k) (simp_all add: run_ops_append reader_turn_cycle)

text \<open>While the first reader waits for the semaphore, it holds the mutex: every other reader blocks before its own
  time-out starts.\<close>

lemma reader_blocks_behind_waiting_reader: "count_lock l \<Longrightarrow> lock_read_enter l = None \<and> unlock_read l = None"
  by (simp add: lock_read_enter_def unlock_read_def)

text \<open>\<open>unlock_write\<close> does not check who calls it: called by a party that holds nothing, it admits a writer beside a
  reader. And \<open>XRWLock::unlockWrite\<close> takes its result 0 for a failure.\<close>

definition foreign_unlock :: "rw_sys \<Rightarrow> rw_sys" where
  "foreign_unlock s = s\<lparr>lock := fst (unlock_write (lock s))\<rparr>"

lemma foreign_unlock_breaks_exclusion:
  "map_option parties (rw_step (foreign_unlock starved) (WriteGot 2)) = Some [Reading, Idle, Writing]"
  by code_simp

lemma unlockWrite_always_asserts: "unlockWrite l = None"
  by (simp add: unlockWrite_def asserted_def unlock_write_def)

text \<open>The deadline is the current time plus the time-out, to the millisecond, and a valid \<open>timespec\<close>.\<close>

lemma deadline_exact:
  assumes "0 \<le> ms" and "ms < 1000" and "deadline t ms timeo = (sec, nsec)"
  shows "sec * 1000 + nsec div 1000000 = t * 1000 + ms + uint timeo" and "0 \<le> nsec" and "nsec < 1000000000"
proof -
  have u: "uint (timeo div 1000) = uint timeo div 1000" "uint (timeo mod 1000) = uint timeo mod 1000"
    by (simp_all add: uint_div uint_mod)
  have b: "0 \<le> uint timeo mod 1000" "uint timeo mod 1000 < 1000" "uint timeo = 1000 * (uint timeo div 1000) + uint timeo mod 1000"
    by simp_all
  show "sec * 1000 + nsec div 1000000 = t * 1000 + ms + uint timeo" "0 \<le> nsec" "nsec < 1000000000"
    using assms b by (auto simp: deadline_def Let_def u split: if_splits)
qed

end
