(* ===== verification/Http_Message.thy ===== *)
theory Http_Message
  imports Url_Str
begin

text \<open>
  \<open>HttpMessage\<close> of HttpConnection.h and HttpConnection.cpp (eloop/Http/LibHttp), and the text of its start line and
  headers. The names of the methods come from the HTTP parser and are a parameter.
\<close>

subsection \<open>Data\<close>

datatype msg_type = MSG_REQUEST | MSG_RESPONSE | MSG_BOTH
datatype http_method = HTTPDELETE | GET | POST | PUT | OPTIONS
datatype msg_phase = hmpNil | hmpStarted | hmpHeaders | hmpBody | hmpCompleted
datatype http_encoding = heNone | heFormUrlEncoded | heFormMultiparts

record http_message =
  connId :: string
  msgType :: msg_type
  msgMethod :: http_method
  msgUri :: string
  msgQstr :: string
  headers :: "(string \<times> string) list"
  declaredBodyLength :: int
  msgPhase :: msg_phase
  httpVMajor :: nat
  httpVMinor :: nat
  statusCode :: int
  statusText :: string
  boundary :: string
  msgEncoding :: http_encoding
  msgFlags :: uint32

text \<open>The constructor leaves the encoding as it finds it in memory.\<close>

definition new_message :: "http_encoding \<Rightarrow> msg_type \<Rightarrow> string \<Rightarrow> http_message" where
  "new_message found ty cid =
     \<lparr>connId = cid, msgType = ty, msgMethod = GET, msgUri = [], msgQstr = [], headers = [], declaredBodyLength = 0,
       msgPhase = hmpNil, httpVMajor = 1, httpVMinor = 0, statusCode = 0, statusText = [], boundary = [],
       msgEncoding = found, msgFlags = 0\<rparr>"

definition F_CHUNKED :: uint32 where "F_CHUNKED = 1"
definition F_CONNECTION_KEEP_ALIVE :: uint32 where "F_CONNECTION_KEEP_ALIVE = 2"

definition scOK :: int where "scOK = 200"
definition scNotFound :: int where "scNotFound = 404"
definition scBadRequest :: int where "scBadRequest = 400"
definition scRequestTimeout :: int where "scRequestTimeout = 408"
definition scPartialContent :: int where "scPartialContent = 206"
definition scInternalServerError :: int where "scInternalServerError = 500"
definition scHTTPVersionNotSupported :: int where "scHTTPVersionNotSupported = 505"
definition errNullBundary :: int where "errNullBundary = 1000"
definition errBodyDecode :: int where "errBodyDecode = 1001"
definition errMIMEPart :: int where "errMIMEPart = 1002"
definition errBodyEnd :: int where "errBodyEnd = 1003"
definition errHTTPParse :: int where "errHTTPParse = 1004"
definition errBackendProcess :: int where "errBackendProcess = - 100"
definition errBindFail :: int where "errBindFail = - 104"
definition errConnectFail :: int where "errConnectFail = - 105"
definition errConnectTimeout :: int where "errConnectTimeout = - 106"
definition errSendConflict :: int where "errSendConflict = - 107"
definition errAsyncInProgress :: int where "errAsyncInProgress = - 200"

definition HTTP_STATUSCODE :: "int \<Rightarrow> bool" where
  "HTTP_STATUSCODE e \<longleftrightarrow> 100 \<le> e \<and> e \<le> 999"

definition HTTP_SUCC :: "int \<Rightarrow> bool" where
  "HTTP_SUCC e \<longleftrightarrow> 200 \<le> e \<and> e < 300"

definition status_texts :: "(int \<times> string) list" where
  "status_texts =
     [(100, ''Continue''), (101, ''Switching Protocols''), (200, ''OK''), (201, ''Created''), (202, ''Accepted''),
      (203, ''Non-Authoritative Information''), (204, ''No Content''), (205, ''Reset Content''), (206, ''Partial Content''),
      (300, ''Multiple Choices''), (301, ''Moved Permanently''), (302, ''Found''), (303, ''See Other''), (304, ''Not Modified''),
      (305, ''Use Proxy''), (307, ''Temporary Redirect''), (400, ''Bad Request''), (401, ''Unauthorized''),
      (402, ''Payment Required''), (403, ''Forbidden''), (404, ''Not Found''), (405, ''Method Not Allowed''),
      (406, ''Not Acceptable''), (407, ''Proxy Authentication Required''), (408, ''Request Timeout''), (409, ''Conflict''),
      (410, ''Gone''), (411, ''Length Required''), (412, ''Precondition Failed''), (413, ''Request Entity Too Large''),
      (414, ''Request-URI Too Long''), (415, ''Unsupported Media Type''), (416, ''Requested Range Not Satisfiable''),
      (417, ''Expectation Failed''), (500, ''Internal Server Error''), (501, ''Not Implemented''), (502, ''Bad Gateway''),
      (503, ''Service Unavailable''), (504, ''Gateway Timeout''), (505, ''HTTP Version Not Supported''),
      (1000, ''boundary is null''),
      (1001, ''Bad post data that can't be decoded. encoding=application/x-www-form-urlencoded''),
      (1002, ''Bad format of post data. Can't position the begin of the body part. encoding=multipart/form-data''),
      (1003, ''Bad format of post data. Can't find the body end.'')]"

definition code2status :: "int \<Rightarrow> string" where
  "code2status e = (case map_of status_texts e of Some t \<Rightarrow> t | None \<Rightarrow> ''errUnknown'')"

subsection \<open>Accessors\<close>

definition keepAlive :: "http_message \<Rightarrow> bool" where
  "keepAlive m \<longleftrightarrow> msgFlags m AND F_CONNECTION_KEEP_ALIVE \<noteq> 0"

definition chunked :: "http_message \<Rightarrow> bool" where
  "chunked m \<longleftrightarrow> msgFlags m AND F_CHUNKED \<noteq> 0"

definition contentLength :: "http_message \<Rightarrow> int" where
  "contentLength m = (if chunked m then 0 else declaredBodyLength m)"

definition hasContentBody :: "http_message \<Rightarrow> bool" where
  "hasContentBody m \<longleftrightarrow> chunked m \<or> contentLength m > 0"

definition get_header :: "string \<Rightarrow> http_message \<Rightarrow> string" where
  "get_header k m = (case map_of (headers m) k of None \<Rightarrow> [] | Some v \<Rightarrow> v)"

definition set_header :: "string \<Rightarrow> string \<Rightarrow> http_message \<Rightarrow> http_message" where
  "set_header k v m = m\<lparr>headers := smap_set k v (headers m)\<rparr>"

definition eraseHeader :: "string \<Rightarrow> http_message \<Rightarrow> http_message" where
  "eraseHeader k m = m\<lparr>headers := smap_erase k (headers m)\<rparr>"

definition msg_uri :: "http_message \<Rightarrow> string" where
  "msg_uri m = (if msgQstr m = [] then msgUri m else msgUri m @ ''?'' @ msgQstr m)"

text \<open>\<open>chopURI\<close>: host, port, path and query; a URL with a colon goes through \<open>URLStr\<close>.\<close>

definition chopURI :: "string \<Rightarrow> url_error + (string \<times> int \<times> string \<times> string)" where
  "chopURI uristr =
     (let (uri, qstr) = (case find_first_of ''?&'' uristr 0 of
            None \<Rightarrow> (uristr, [])
          | Some p \<Rightarrow> (take p uristr, drop (p + 1) uristr))
      in case find_char (CHR '':'') uri 0 of
           None \<Rightarrow> Inr ([], - 1, uri, qstr)
         | Some _ \<Rightarrow>
             (case URLStr_parse (Some uri) (url_new True) of
                Inl e \<Rightarrow> Inl e
              | Inr (u, _) \<Rightarrow> Inr (c_str (mHost u), mPort u, c_str (mPath u), qstr)))"

subsection \<open>Text\<close>

definition hex_char :: "uint64 \<Rightarrow> char" where
  "hex_char u = ''0123456789ABCDEF'' ! unat (u AND 0xF)"

function hex_loop :: "uint64 \<Rightarrow> string \<Rightarrow> string" where
  "hex_loop u ret = (if u = 0 then ret else hex_loop (drop_bit 4 u) (hex_char u # ret))"
  by pat_completeness auto

termination
proof (relation "measure (\<lambda>(u, ret). unat u)")
  fix u :: uint64 assume "u \<noteq> 0"
  then have "0 < unat u" by (simp add: unat_gt_0)
  then have "unat u div 16 < unat u" by simp
  then show "((drop_bit 4 u, hex_char u # ret), (u, ret)) \<in> measure (\<lambda>(u, ret). unat u)" for ret
    by (simp add: unat_drop_bit_eq drop_bit_eq_div unat_div)
qed simp

declare hex_loop.simps [simp del]

definition uint2hex :: "uint64 \<Rightarrow> nat \<Rightarrow> char \<Rightarrow> string" where
  "uint2hex u alignLen padding =
     (let ret = hex_loop u [] in if ret = [] then ''0'' else replicate (alignLen - length ret) padding @ ret)"

definition EOL :: string where
  "EOL = [CHR 0x0D, CHR 0x0A]"

definition formatStartLine :: "(http_method \<Rightarrow> string) \<Rightarrow> http_message \<Rightarrow> string" where
  "formatStartLine name m =
     (if msgType m = MSG_RESPONSE
      then ''HTTP/1.1 '' @ itoa (statusCode m) @ '' '' @ code2status (statusCode m) @ EOL
      else name (msgMethod m) @ '' '' @ (if msgMethod m \<noteq> POST then msgUri m @ msgQstr m else msgUri m) @ '' HTTP/1.1'' @ EOL)"

text \<open>The headers of the message are brought in line with its flags before they are written.\<close>

definition settle_headers :: "http_message \<Rightarrow> http_message" where
  "settle_headers m =
     (let m1 = (if chunked m then eraseHeader ''Content-Length'' (set_header ''Transfer-Encoding'' ''chunked'' m)
                else (let m0 = eraseHeader ''Transfer-Encoding'' m
                      in if contentLength m \<le> 0 then eraseHeader ''Content-Length'' m0
                         else set_header ''Content-Length'' (itoa (contentLength m)) m0))
      in set_header ''Connection'' (if keepAlive m then ''keep-alive'' else ''close'') m1)"

definition header_lines :: "(string \<times> string) list \<Rightarrow> string" where
  "header_lines hs = concat (map (\<lambda>(k, v). k @ '': '' @ v @ EOL) hs)"

definition formatMsgHeaders :: "http_message \<Rightarrow> http_message \<times> string" where
  "formatMsgHeaders m = (let m' = settle_headers m in (m', header_lines (headers m') @ EOL))"

subsection \<open>Properties of the texts\<close>

definition hex_digit_value :: "char \<Rightarrow> nat" where
  "hex_digit_value c = (if is_digit c then of_char c - 48 else of_char c - 55)"

definition hex_value :: "string \<Rightarrow> nat" where
  "hex_value s = foldl (\<lambda>a c. 16 * a + hex_digit_value c) 0 s"

lemma unat_shift_less: "u \<noteq> 0 \<Longrightarrow> unat (drop_bit 4 u) < unat (u :: uint64)"
  by (simp add: unat_drop_bit_eq drop_bit_eq_div unat_div unat_gt_0)

lemma hex_loop_append: "hex_loop u ret = hex_loop u [] @ ret"
proof (induction "unat u" arbitrary: u ret rule: less_induct)
  case less
  show ?case
  proof (cases "u = 0")
    case True
    then show ?thesis by (simp add: hex_loop.simps)
  next
    case False
    then have "hex_loop (drop_bit 4 u) r = hex_loop (drop_bit 4 u) [] @ r" for r
      by (intro less.hyps unat_shift_less)
    from this [of "hex_char u # ret"] this [of "[hex_char u]"] show ?thesis
      using False hex_loop.simps [of u ret] hex_loop.simps [of u "[]"] by simp
  qed
qed

lemma hex_char_value: "hex_digit_value (hex_char u) = unat u mod 16"
proof -
  have "list_all (\<lambda>n. hex_digit_value (''0123456789ABCDEF'' ! n) = n) [0..<16]"
    by code_simp
  moreover have "u AND 0xF = take_bit 4 u"
    by (simp add: take_bit_eq_mask mask_eq_exp_minus_1)
  then have "unat (u AND 0xF) = unat u mod 16"
    by (simp add: take_bit_eq_mod unat_mod)
  ultimately show ?thesis
    by (simp add: list_all_iff hex_char_def)
qed

lemma hex_value_snoc: "hex_value (s @ [c]) = 16 * hex_value s + hex_digit_value c"
  by (simp add: hex_value_def)


lemma hex_loop_value: "hex_value (hex_loop u []) = unat u"
proof (induction "unat u" arbitrary: u rule: less_induct)
  case less
  show ?case
  proof (cases "u = 0")
    case True
    then show ?thesis by (simp add: hex_loop.simps hex_value_def)
  next
    case False
    have "hex_loop u [] = hex_loop (drop_bit 4 u) [] @ [hex_char u]"
      using False hex_loop.simps [of u "[]"] hex_loop_append [of "drop_bit 4 u" "[hex_char u]"] by simp
    then have "hex_value (hex_loop u []) = 16 * unat (drop_bit 4 u) + unat u mod 16"
      using less.hyps [OF unat_shift_less [OF False]] by (simp add: hex_value_snoc hex_char_value)
    also have "unat (drop_bit 4 u) = unat u div 16"
      by (simp add: unat_drop_bit_eq drop_bit_eq_div unat_div)
    finally show ?thesis by simp
  qed
qed

lemma hex_value_zeros: "hex_value (replicate n CHR ''0'' @ s) = hex_value s"
proof (induction n)
  case (Suc n)
  have "hex_digit_value CHR ''0'' = 0" by code_simp
  with Suc show ?case by (simp add: hex_value_def)
qed simp

text \<open>
  The hexadecimal text of a number reads back as the number, padded to the wanted width; 0 is never padded.
\<close>

theorem uint2hex_reads_back:
  "hex_value (uint2hex u n CHR ''0'') = unat u \<and>
   length (uint2hex u n CHR ''0'') = (if u = 0 then 1 else max n (length (hex_loop u [])))"
proof (cases "u = 0")
  case True
  have "hex_value ''0'' = 0" by code_simp
  with True show ?thesis by (simp add: uint2hex_def hex_loop.simps)
next
  case False
  then have "hex_loop u [] \<noteq> []"
    using hex_loop.simps [of u "[]"] hex_loop_append [of "drop_bit 4 u" "[hex_char u]"] by simp
  with False show ?thesis
    by (auto simp: uint2hex_def Let_def hex_value_zeros hex_loop_value)
qed

definition framing_headers :: "string set" where
  "framing_headers = {''Transfer-Encoding'', ''Content-Length'', ''Connection''}"

text \<open>
  The written headers announce the body the way it is sent: chunked, or with its length if that is positive, or not at
  all, never both; the connection header follows the flag; all other headers are written as they were set.
\<close>

theorem headers_announce_body:
  "let hs = headers (fst (formatMsgHeaders m)) in
     snd (formatMsgHeaders m) = header_lines hs @ EOL \<and>
     map_of hs ''Transfer-Encoding'' = (if chunked m then Some ''chunked'' else None) \<and>
     map_of hs ''Content-Length'' = (if \<not> chunked m \<and> declaredBodyLength m > 0 then Some (itoa (declaredBodyLength m)) else None) \<and>
     map_of hs ''Connection'' = Some (if keepAlive m then ''keep-alive'' else ''close'') \<and>
     map_of hs |` (- framing_headers) = map_of (headers m) |` (- framing_headers)"
  by (auto simp: formatMsgHeaders_def settle_headers_def Let_def set_header_def eraseHeader_def contentLength_def
      framing_headers_def restrict_map_def fun_eq_iff std_simps chunked_def keepAlive_def)

text \<open>
  The start line of a request without body puts the query right behind the path: the question mark that \<open>chopURI\<close>
  took away is not written again.
\<close>

theorem request_line_loses_question_mark:
  assumes "set path \<inter> {CHR ''?'', CHR ''&'', CHR '':''} = {}" and "chopURI (path @ ''?'' @ q) = Inr (host, port, uri, qstr)"
    and "msgType m = MSG_REQUEST" and "msgMethod m = GET" and "msgUri m = uri" and "msgQstr m = qstr"
  shows "formatStartLine name m = name GET @ '' '' @ path @ q @ '' HTTP/1.1'' @ EOL"
proof -
  have "find_first_of ''?&'' (path @ ''?'' @ q) 0 = Some (length path)"
    using assms(1) by (fastforce simp: find_first_of_Some nth_append in_set_conv_nth)
  moreover have "find_char CHR '':'' path 0 = None"
    using assms(1) by (simp add: find_char_absent)
  ultimately have "uri = path \<and> qstr = q"
    using assms(2) by (simp add: chopURI_def)
  then show ?thesis
    using assms by (simp add: formatStartLine_def)
qed

theorem request_line_loses_question_mark_witness:
  "formatStartLine (\<lambda>_. ''GET'') (new_message heNone MSG_REQUEST []\<lparr>msgUri := ''/a'', msgQstr := ''b=1''\<rparr>)
     = ''GET /ab=1 HTTP/1.1'' @ EOL"
proof -
  have "chopURI (''/a'' @ ''?'' @ ''b=1'') = Inr ([], - 1, ''/a'', ''b=1'')" by code_simp
  then show ?thesis
    using request_line_loses_question_mark [of "''/a''" "''b=1''" "[]" "- 1" "''/a''" "''b=1''" _ "\<lambda>_. ''GET''"]
    by (simp add: new_message_def)
qed

end
