(* ===== verification/Http_Send.thy ===== *)
theory Http_Send
  imports Http_Message
begin

text \<open>
  The sending side of \<open>HttpConnection\<close> (HttpConnection.cpp): the message goes out phase by phase, each time the
  connection reports that it wrote something. The bytes handed to the TCP connection are collected in \<open>wire\<close>; the
  notifications of the base class are recorded. Payloads are shorter than \<open>2 ^ 31\<close> bytes.
\<close>

subsection \<open>State\<close>

record http_conn =
  outMsg :: "http_message option"
  payloadOut :: "string list"
  offsetSent :: int
  outOpen :: bool
  active :: bool
  wire :: string
  submitted :: "http_message list"
  payloadNotes :: "(int \<times> int) list"

text \<open>\<open>_offsetBodyPlayloadSent\<close> is not initialised: \<open>found\<close> is what it holds.\<close>

definition conn_new :: "int \<Rightarrow> http_conn" where
  "conn_new found =
     \<lparr>outMsg = None, payloadOut = [], offsetSent = found, outOpen = True, active = True, wire = [], submitted = [], payloadNotes = []\<rparr>"

definition enqueueSend :: "string \<Rightarrow> http_conn \<Rightarrow> http_conn" where
  "enqueueSend data s = (if active s then s\<lparr>wire := wire s @ data\<rparr> else s)"

definition set_phase :: "msg_phase \<Rightarrow> http_message \<Rightarrow> http_conn \<Rightarrow> http_conn" where
  "set_phase p m s = s\<lparr>outMsg := Some (m\<lparr>msgPhase := p\<rparr>)\<rparr>"

subsection \<open>Sending\<close>

text \<open>\<open>%x\<close> reads the low 32 bits of the length.\<close>

definition chunk_header :: "nat \<Rightarrow> string" where
  "chunk_header len = map to_lower (uint2hex (take_bit 32 (of_nat len)) 0 CHR '' '') @ EOL"

definition chunk_text :: "string \<Rightarrow> string" where
  "chunk_text c = (if c = [] then [] else chunk_header (length c) @ c)"

definition payload_size :: "string list \<Rightarrow> int" where
  "payload_size cs = int (length (concat cs))"

definition chunk_end :: string where
  "chunk_end = ''0'' @ EOL @ EOL"

text \<open>The case of \<open>hmpBody\<close>: the state, the bytes sent in this call, and whether the loop goes on.\<close>

definition send_body :: "http_message \<Rightarrow> http_conn \<Rightarrow> int \<Rightarrow> int \<Rightarrow> http_conn \<times> int \<times> bool" where
  "send_body m s off n =
     (if \<not> chunked m
      then (let n' = n + payload_size (payloadOut s);
                s' = (enqueueSend (concat (payloadOut s)) s)\<lparr>payloadOut := []\<rparr>
            in (if n' + off \<ge> declaredBodyLength m then set_phase hmpCompleted m s' else set_phase hmpBody m s', n', True))
      else if payloadOut s = [] then (set_phase hmpCompleted m (enqueueSend chunk_end s), n, False)
      else (set_phase hmpBody m ((enqueueSend (concat (map chunk_text (payloadOut s))) s)\<lparr>payloadOut := []\<rparr>),
            n + payload_size (payloadOut s), False))"

text \<open>One round of the loop: the state, the offset, the bytes sent, the completed message, and \<open>retry\<close>.\<close>

definition send_phase :: "(http_method \<Rightarrow> string) \<Rightarrow> http_conn \<Rightarrow> int \<Rightarrow> int \<Rightarrow> http_conn \<times> int \<times> int \<times> http_message option \<times> bool" where
  "send_phase name s off n =
     (case outMsg s of
        None \<Rightarrow> (s, off, n, None, False)
      | Some m \<Rightarrow>
          (case msgPhase m of
             hmpCompleted \<Rightarrow> (s\<lparr>outMsg := None\<rparr>, off, n, Some m, False)
           | hmpHeaders \<Rightarrow>
               if \<not> hasContentBody m then (set_phase hmpCompleted m s, off, n, None, True)
               else (case send_body m s off n of (s', n', retry) \<Rightarrow> (s', off, n', None, retry))
           | hmpBody \<Rightarrow> (case send_body m s off n of (s', n', retry) \<Rightarrow> (s', off, n', None, retry))
           | _ \<Rightarrow>
               (let (m', hs) = formatMsgHeaders m
                in ((set_phase hmpHeaders m' (enqueueSend (formatStartLine name m @ hs) s))\<lparr>offsetSent := 0\<rparr>, 0, n, None, False))))"

partial_function (option) send_loop ::
  "(http_method \<Rightarrow> string) \<Rightarrow> http_conn \<Rightarrow> int \<Rightarrow> int \<Rightarrow> (http_conn \<times> int \<times> http_message option) option" where
  "send_loop name s off n =
     (case send_phase name s off n of
        (s', off', n', fin, retry) \<Rightarrow> if retry then send_loop name s' off' n' else Some (s', n', fin))"

declare send_loop.simps [code]

text \<open>\<open>None\<close>: the call does not return.\<close>

definition sendByPhase :: "(http_method \<Rightarrow> string) \<Rightarrow> http_conn \<Rightarrow> (http_conn \<times> bool) option" where
  "sendByPhase name s =
     (case outMsg s of
        None \<Rightarrow> Some (s, False)
      | Some _ \<Rightarrow>
          (case send_loop name s (offsetSent s) 0 of
             None \<Rightarrow> None
           | Some (s1, n, fin) \<Rightarrow>
               (let s2 = (if n > 0 then s1\<lparr>offsetSent := offsetSent s1 + n, payloadNotes := payloadNotes s1 @ [(n, offsetSent s1 + n)]\<rparr>
                          else s1);
                    s3 = (case fin of None \<Rightarrow> s2 | Some m \<Rightarrow> s2\<lparr>submitted := submitted s2 @ [m]\<rparr>)
                in Some (s3, True))))"

datatype send_error = Never_returns | Null_pointer

definition sendMessage :: "(http_method \<Rightarrow> string) \<Rightarrow> http_message \<Rightarrow> http_conn \<Rightarrow> send_error + (http_conn \<times> int)" where
  "sendMessage name m s =
     (if outMsg s \<noteq> None then Inr (s, errSendConflict)
      else (case sendByPhase name (s\<lparr>outMsg := Some m\<rparr>) of
              None \<Rightarrow> Inl Never_returns
            | Some (s', _) \<Rightarrow> (case outMsg s' of None \<Rightarrow> Inl Null_pointer | Some m' \<Rightarrow> Inr (s', statusCode m'))))"

text \<open>False when the payload is not taken.\<close>

definition pushOutgoingPayload :: "string \<Rightarrow> bool \<Rightarrow> http_conn \<Rightarrow> http_conn \<times> bool" where
  "pushOutgoingPayload data bEnd s =
     (if data = [] \<or> \<not> outOpen s then (s, False)
      else (s\<lparr>payloadOut := payloadOut s @ [data], outOpen := \<not> bEnd\<rparr>, True))"

definition OnWrote :: "(http_method \<Rightarrow> string) \<Rightarrow> http_conn \<Rightarrow> http_conn option" where
  "OnWrote name s = map_option fst (sendByPhase name s)"

definition http_OnConnected :: "(http_method \<Rightarrow> string) \<Rightarrow> http_conn \<Rightarrow> http_conn option" where
  "http_OnConnected name s =
     map_option fst (sendByPhase name (s\<lparr>outMsg := map_option (\<lambda>m. m\<lparr>msgPhase := hmpStarted\<rparr>) (outMsg s)\<rparr>))"

datatype http_op = SendOp http_message | PushOp string bool | WroteOp | ConnectedOp

fun http_step :: "(http_method \<Rightarrow> string) \<Rightarrow> http_conn \<Rightarrow> http_op \<Rightarrow> http_conn option" where
  "http_step name s (SendOp m) = (case sendMessage name m s of Inl _ \<Rightarrow> None | Inr (s', _) \<Rightarrow> Some s')"
| "http_step name s (PushOp d e) = Some (fst (pushOutgoingPayload d e s))"
| "http_step name s WroteOp = OnWrote name s"
| "http_step name s ConnectedOp = http_OnConnected name s"

subsection \<open>When a call returns\<close>

definition body_missing :: "http_conn \<Rightarrow> int \<Rightarrow> bool" where
  "body_missing s done \<longleftrightarrow>
     (case outMsg s of
        None \<Rightarrow> False
      | Some m \<Rightarrow> (msgPhase m = hmpBody \<or> msgPhase m = hmpHeaders \<and> hasContentBody m) \<and> \<not> chunked m \<and>
          done + payload_size (payloadOut s) < declaredBodyLength m)"

lemma payload_size_nonneg [simp]: "0 \<le> payload_size cs"
  by (simp add: payload_size_def)

lemma payload_size_Nil [simp]: "payload_size [] = 0"
  by (simp add: payload_size_def)

lemma chunked_phase [simp]: "chunked (m\<lparr>msgPhase := p\<rparr>) = chunked m" "contentLength (m\<lparr>msgPhase := p\<rparr>) = contentLength m"
  "hasContentBody (m\<lparr>msgPhase := p\<rparr>) = hasContentBody m"
  by (simp_all add: chunked_def contentLength_def hasContentBody_def)

lemma enqueueSend_fields [simp]:
  "outMsg (enqueueSend d s) = outMsg s" "payloadOut (enqueueSend d s) = payloadOut s" "offsetSent (enqueueSend d s) = offsetSent s"
  "outOpen (enqueueSend d s) = outOpen s" "active (enqueueSend d s) = active s" "submitted (enqueueSend d s) = submitted s"
  by (simp_all add: enqueueSend_def)

lemma set_phase_fields [simp]:
  "outMsg (set_phase p m s) = Some (m\<lparr>msgPhase := p\<rparr>)" "payloadOut (set_phase p m s) = payloadOut s"
  "offsetSent (set_phase p m s) = offsetSent s" "outOpen (set_phase p m s) = outOpen s" "active (set_phase p m s) = active s"
  "submitted (set_phase p m s) = submitted s" "wire (set_phase p m s) = wire s"
  by (simp_all add: set_phase_def)

text \<open>A round that starts with too little of the body ends in such a state, and goes on.\<close>

lemma missing_round:
  assumes "body_missing s (off + n)" and "send_phase name s off n = (s', off', n', fin, retry)"
  shows "retry \<and> body_missing s' (off' + n')"
  using assms by (auto simp: body_missing_def send_phase_def send_body_def Let_def split: option.splits if_splits)

lemma send_loop_result_complete:
  assumes "send_loop name s off n = Some r"
  shows "\<not> body_missing s (off + n)"
  using assms
proof (induction name s off n r rule: send_loop.raw_induct [rotated, consumes 1, case_names step])
  case (step loop name s off n r)
  obtain s' off' n' fin retry where p: "send_phase name s off n = (s', off', n', fin, retry)"
    by (metis prod_cases5)
  show ?case
  proof
    assume "body_missing s (off + n)"
    then have *: "retry" "body_missing s' (off' + n')"
      using missing_round [OF _ p] by blast+
    then have "loop name s' off' n' = Some r"
      using step(2) p by simp
    then show False using step(1) *(2) by blast
  qed
qed

lemma missing_never_ends: "body_missing s (off + n) \<Longrightarrow> send_loop name s off n = None"
  using send_loop_result_complete by (cases "send_loop name s off n") auto

lemma send_loop_completed: "outMsg s = Some m \<Longrightarrow> msgPhase m = hmpCompleted \<Longrightarrow>
   send_loop name s off n = Some (s\<lparr>outMsg := None\<rparr>, n, Some m)"
  by (subst send_loop.simps) (simp add: send_phase_def)

lemma send_loop_returns:
  assumes "\<not> body_missing s (off + n)"
  shows "send_loop name s off n \<noteq> None"
proof (cases "outMsg s")
  case None
  then show ?thesis by (subst send_loop.simps) (simp add: send_phase_def)
next
  case (Some m)
  show ?thesis
    using assms Some
    by (subst send_loop.simps)
       (auto simp: send_phase_def send_body_def body_missing_def Let_def send_loop_completed algebra_simps
         split: msg_phase.splits prod.splits)
qed

text \<open>
  C22. A call of \<open>sendByPhase\<close> fails to return exactly when it is the turn of the body (the headers are out and the message
  has a body, or the body has begun), the body is not chunked, and what was sent of it together with what is queued is less
  than the declared length: the loop then goes on without waiting for more payload. So the call that writes the headers
  returns whatever is queued, and so do those of chunked messages.
\<close>

theorem sendByPhase_returns_iff:
  "sendByPhase name s = None \<longleftrightarrow>
     (\<exists>m. outMsg s = Some m \<and> (msgPhase m = hmpBody \<or> msgPhase m = hmpHeaders \<and> hasContentBody m) \<and> \<not> chunked m \<and>
        offsetSent s + payload_size (payloadOut s) < declaredBodyLength m)"
proof (cases "outMsg s")
  case None
  then show ?thesis by (simp add: sendByPhase_def body_missing_def)
next
  case (Some m)
  then show ?thesis
    using missing_never_ends [of s "offsetSent s" 0 name] send_loop_returns [of s "offsetSent s" 0 name]
    by (cases "send_loop name s (offsetSent s) 0") (auto simp: sendByPhase_def body_missing_def Let_def)
qed


subsection \<open>What goes out\<close>

definition announcement :: "(http_method \<Rightarrow> string) \<Rightarrow> http_message \<Rightarrow> string" where
  "announcement name m = formatStartLine name m @ snd (formatMsgHeaders m)"

lemma settle_fields [simp]:
  "msgFlags (settle_headers m) = msgFlags m" "declaredBodyLength (settle_headers m) = declaredBodyLength m"
  "statusCode (settle_headers m) = statusCode m" "chunked (settle_headers m) = chunked m"
  "contentLength (settle_headers m) = contentLength m" "hasContentBody (settle_headers m) = hasContentBody m"
  by (simp_all add: settle_headers_def set_header_def eraseHeader_def Let_def chunked_def contentLength_def hasContentBody_def)

lemma declared_phase [simp]: "declaredBodyLength (m\<lparr>msgPhase := p\<rparr>) = declaredBodyLength m"
  by simp

definition announced :: "(http_method \<Rightarrow> string) \<Rightarrow> http_message \<Rightarrow> http_conn \<Rightarrow> http_conn" where
  "announced name m s =
     (set_phase hmpHeaders (settle_headers m) (enqueueSend (announcement name m) s))\<lparr>offsetSent := 0\<rparr>"

lemma sendMessage_announces:
  assumes "outMsg s = None" and "msgPhase m \<in> {hmpNil, hmpStarted}"
  shows "sendMessage name m s = Inr (announced name m s, statusCode m)"
proof -
  have "send_loop name (s\<lparr>outMsg := Some m\<rparr>) off 0 = Some (announced name m s, 0, None)" for off
    using assms
    by (subst send_loop.simps)
       (auto simp: send_phase_def formatMsgHeaders_def Let_def announced_def announcement_def enqueueSend_def set_phase_def)
  then show ?thesis
    using assms(1) by (simp add: sendMessage_def sendByPhase_def announced_def)
qed

lemma wire_announced: "active s \<Longrightarrow> wire (announced name m s) = wire s @ announcement name m"
  by (simp add: announced_def enqueueSend_def)

lemma announced_fields [simp]:
  "outMsg (announced name m s) = Some (settle_headers m\<lparr>msgPhase := hmpHeaders\<rparr>)" "payloadOut (announced name m s) = payloadOut s"
  "offsetSent (announced name m s) = 0" "outOpen (announced name m s) = outOpen s" "active (announced name m s) = active s"
  "submitted (announced name m s) = submitted s"
  by (simp_all add: announced_def)

lemma queued_body_goes_out:
  assumes "outMsg s = None" and "active s" and "msgPhase m = hmpNil" and "\<not> chunked m"
    and "0 < declaredBodyLength m" and "declaredBodyLength m \<le> payload_size (payloadOut s)"
  shows "\<exists>s1 s2. sendMessage name m s = Inr (s1, statusCode m) \<and> OnWrote name s1 = Some s2 \<and>
     wire s2 = wire s @ announcement name m @ concat (payloadOut s) \<and> payloadOut s2 = [] \<and> outMsg s2 = None \<and>
     submitted s2 = submitted s @ [settle_headers m\<lparr>msgPhase := hmpCompleted\<rparr>]"
proof -
  define s1 where "s1 = announced name m s"
  define n where "n = payload_size (payloadOut s)"
  define m1 where "m1 = settle_headers m\<lparr>msgPhase := hmpCompleted\<rparr>"
  define s2 where "s2 = ((enqueueSend (concat (payloadOut s)) s1)\<lparr>payloadOut := []\<rparr>)\<lparr>outMsg := Some m1\<rparr>"
  have "hasContentBody m" using assms(4,5) by (simp add: hasContentBody_def contentLength_def)
  then have "send_phase name s1 0 0 = (s2, 0, n, None, True)"
    using assms by (simp add: send_phase_def send_body_def s1_def s2_def n_def m1_def Let_def set_phase_def)
  then have "send_loop name s1 0 0 = send_loop name s2 0 n"
    by (subst send_loop.simps) simp
  also have "\<dots> = Some (s2\<lparr>outMsg := None\<rparr>, n, Some m1)"
    by (rule send_loop_completed) (simp_all add: s2_def m1_def)
  finally have l: "send_loop name s1 0 0 = Some (s2\<lparr>outMsg := None\<rparr>, n, Some m1)" .
  have "n > 0" using assms(5,6) by (simp add: n_def)
  with l have "OnWrote name s1 = Some (s2\<lparr>outMsg := None, offsetSent := n, submitted := submitted s @ [m1],
      payloadNotes := payloadNotes s2 @ [(n, n)]\<rparr>)"
    by (simp add: OnWrote_def sendByPhase_def s1_def s2_def)
  moreover have "wire s2 = wire s @ announcement name m @ concat (payloadOut s)"
    using assms(2) by (simp add: s2_def s1_def enqueueSend_def wire_announced)
  ultimately show ?thesis
    using sendMessage_announces [OF assms(1), of m name] assms(3) by (simp add: s1_def s2_def m1_def)
qed

text \<open>
  C23. A message of known length whose body is queued goes out as its start line, its headers and exactly the queued body,
  in the order in which it was queued, and is then itself reported as submitted (with the headers that were settled for the
  wire), after one notification from the connection.
\<close>

theorem queued_body_delivered:
  assumes "outMsg s = None" and "active s" and "msgPhase m = hmpNil" and "\<not> chunked m"
    and "0 < declaredBodyLength m" and "declaredBodyLength m \<le> payload_size (payloadOut s)"
  shows "\<exists>s1 s2. sendMessage name m s = Inr (s1, statusCode m) \<and> OnWrote name s1 = Some s2 \<and>
     wire s2 = wire s @ announcement name m @ concat (payloadOut s) \<and> payloadOut s2 = [] \<and> outMsg s2 = None \<and>
     submitted s2 = submitted s @ [settle_headers m\<lparr>msgPhase := hmpCompleted\<rparr>]"
  by (rule queued_body_goes_out) (fact assms)+

definition demo_response :: http_message where
  "demo_response = new_message heNone MSG_RESPONSE ''c1''\<lparr>declaredBodyLength := 5, statusCode := 200\<rparr>"

theorem queued_body_delivered_witness:
  "\<exists>s1 s2. sendMessage (\<lambda>_. ''GET'') demo_response (fst (pushOutgoingPayload ''hello'' True (conn_new 7))) = Inr (s1, 200) \<and>
     OnWrote (\<lambda>_. ''GET'') s1 = Some s2 \<and> wire s2 = announcement (\<lambda>_. ''GET'') demo_response @ ''hello'' \<and> payloadOut s2 = [] \<and>
     outMsg s2 = None \<and> submitted s2 = [settle_headers demo_response\<lparr>msgPhase := hmpCompleted\<rparr>]"
  using queued_body_delivered [of "fst (pushOutgoingPayload ''hello'' True (conn_new 7))" demo_response "\<lambda>_. ''GET''"]
  by (simp add: pushOutgoingPayload_def conn_new_def demo_response_def new_message_def chunked_def payload_size_def)

text \<open>
  The end of a body closes the connection for payloads, and nothing opens it again: the payload of the next message is
  refused, and the call that should send it never returns.
\<close>

theorem next_message_never_sent:
  assumes "\<not> outOpen s" and "payloadOut s = []" and "outMsg s = None" and "msgPhase m = hmpNil"
    and "\<not> chunked m" and "0 < declaredBodyLength m"
  shows "run_ops (http_step name) s (SendOp m # map (\<lambda>(d, e). PushOp d e) pushes @ [WroteOp]) = None"
proof -
  let ?s1 = "announced name m s"
  have "run_ops (http_step name) t (map (\<lambda>(d, e). PushOp d e) pushes @ xs) = run_ops (http_step name) t xs" if "\<not> outOpen t" for t xs
    using that by (induction pushes) (auto simp: pushOutgoingPayload_def)
  then have "run_ops (http_step name) ?s1 (map (\<lambda>(d, e). PushOp d e) pushes @ [WroteOp]) = run_ops (http_step name) ?s1 [WroteOp]"
    using assms(1) by simp
  moreover have "body_missing ?s1 (offsetSent ?s1)"
    using assms by (simp add: body_missing_def hasContentBody_def contentLength_def)
  then have "sendByPhase name ?s1 = None"
    using missing_never_ends [of ?s1 0 0 name] by (simp add: sendByPhase_def)
  ultimately show ?thesis
    using sendMessage_announces [OF assms(3), of m name] assms(4) by (simp add: OnWrote_def)
qed

theorem next_message_never_sent_witness:
  "\<exists>s. run_ops (http_step (\<lambda>_. ''GET'')) (conn_new 0) [PushOp ''hello'' True, SendOp demo_response, WroteOp] = Some s \<and>
     run_ops (http_step (\<lambda>_. ''GET'')) s [SendOp demo_response, PushOp ''world'' True, WroteOp] = None"
proof -
  have "case run_ops (http_step (\<lambda>_. ''GET'')) (conn_new 0) [PushOp ''hello'' True, SendOp demo_response, WroteOp] of None \<Rightarrow> False
      | Some s \<Rightarrow> \<not> outOpen s \<and> payloadOut s = [] \<and> outMsg s = None"
    by code_simp
  then obtain s where s: "run_ops (http_step (\<lambda>_. ''GET'')) (conn_new 0) [PushOp ''hello'' True, SendOp demo_response, WroteOp] = Some s"
      "\<not> outOpen s \<and> payloadOut s = [] \<and> outMsg s = None"
    by (rule case_SomeE)
  show ?thesis
    using s next_message_never_sent [of s demo_response "\<lambda>_. ''GET''" "[(''world'', True)]"]
    by (intro exI [of _ s]) (simp add: demo_response_def new_message_def chunked_def)
qed

end
