(* ===== verification/Http_Chunked.thy ===== *)
theory Http_Chunked
  imports Http_Send
begin

text \<open>
  What \<open>sendByPhase\<close> writes for a chunked message, against a reader of the chunked transfer coding as HTTP/1.1 defines it
  (each chunk is its length in hexadecimal, CR LF, the data, CR LF).
\<close>

subsection \<open>A reader of the transfer coding\<close>

definition is_hex :: "char \<Rightarrow> bool" where
  "is_hex c \<longleftrightarrow> c \<in> set ''0123456789abcdefABCDEF''"

definition hex_nat :: "char \<Rightarrow> nat" where
  "hex_nat c = (if of_char c < (65 :: nat) then of_char c - 48 else if of_char c < (97 :: nat) then of_char c - 55 else of_char c - 87)"

definition read_hex :: "string \<Rightarrow> nat" where
  "read_hex s = foldl (\<lambda>a c. 16 * a + hex_nat c) 0 s"

function dechunk :: "string \<Rightarrow> (string \<times> string) option" where
  "dechunk s =
     (let h = takeWhile is_hex s; n = read_hex h; d = drop (length h + 2) s
      in if h = [] \<or> take 2 (drop (length h) s) \<noteq> EOL then None
         else if n = 0 then (if take 2 d = EOL then Some ([], drop 2 d) else None)
         else if take 2 (drop n d) \<noteq> EOL then None
         else map_option (\<lambda>(b, r). (take n d @ b, r)) (dechunk (drop (n + 2) d)))"
  by pat_completeness auto

termination
proof (relation "measure length")
  fix s :: string and h n d
  assume h: "h = takeWhile is_hex s" and d: "d = drop (length h + 2) s" and "\<not> (h = [] \<or> take 2 (drop (length h) s) \<noteq> EOL)"
  then have "h \<noteq> []" by simp
  then have "0 < length s" using h by (cases s) auto
  then show "(drop (n + 2) d, s) \<in> measure length" using d by simp
qed simp

declare dechunk.simps [simp del]

subsection \<open>The written chunks\<close>

definition hex_ok :: "nat \<Rightarrow> bool" where
  "hex_ok n \<longleftrightarrow> (let c = to_lower (''0123456789ABCDEF'' ! n) in is_hex c \<and> hex_nat c = n)"

lemma lower_hex_char: "is_hex (to_lower (hex_char u)) \<and> hex_nat (to_lower (hex_char u)) = hex_digit_value (hex_char u)"
proof -
  have ok: "list_all hex_ok [0..<16]" and up: "list_all (\<lambda>n. hex_digit_value (''0123456789ABCDEF'' ! n) = n) [0..<16]"
    by code_simp+
  have "u AND 0xF = take_bit 4 u"
    by (simp add: take_bit_eq_mask mask_eq_exp_minus_1)
  then have "unat (u AND 0xF) < 16"
    by (simp add: take_bit_eq_mod unat_mod)
  then have "unat (u AND 0xF) \<in> set [0..<16]" unfolding set_upt by simp
  with ok up show ?thesis
    unfolding list_all_iff hex_char_def by (auto simp: hex_ok_def Let_def)
qed

lemma hex_loop_chars: "c \<in> set (hex_loop u []) \<Longrightarrow> \<exists>v. c = hex_char v"
proof (induction "unat u" arbitrary: u rule: less_induct)
  case less
  show ?case
  proof (cases "u = 0")
    case True
    then show ?thesis using less.prems by (simp add: hex_loop.simps)
  next
    case False
    have "hex_loop u [] = hex_loop (drop_bit 4 u) [] @ [hex_char u]"
      using False hex_loop.simps [of u "[]"] hex_loop_append [of "drop_bit 4 u" "[hex_char u]"] by simp
    then show ?thesis using less.hyps [OF unat_shift_less [OF False]] less.prems by auto
  qed
qed

lemma read_lower: "\<forall>c \<in> set s. \<exists>v. c = hex_char v \<Longrightarrow> read_hex (map to_lower s) = hex_value s"
proof (induction s rule: rev_induct)
  case (snoc c s)
  then show ?case
    using lower_hex_char by (auto simp: read_hex_def hex_value_def)
qed (simp add: read_hex_def hex_value_def)

lemma header_digits:
  assumes "0 < n" and "n < 2 ^ 32"
  obtains h where "chunk_header n = h @ EOL" and "h \<noteq> []" and "\<forall>c \<in> set h. is_hex c" and "read_hex h = n"
proof
  let ?u = "take_bit 32 (of_nat n) :: uint64"
  let ?r = "hex_loop ?u []"
  have u: "unat ?u = n"
    using assms(2) by (simp add: unsigned_take_bit_eq take_bit_eq_mod unat_of_nat unat_mod)
  then have "?u \<noteq> 0" using assms(1) by auto
  then have r: "?r \<noteq> []"
    using hex_loop.simps [of ?u "[]"] hex_loop_append [of "drop_bit 4 ?u" "[hex_char ?u]"] by simp
  then show "chunk_header n = map to_lower ?r @ EOL" by (simp add: chunk_header_def uint2hex_def)
  show "map to_lower ?r \<noteq> []" using r by simp
  show "\<forall>c \<in> set (map to_lower ?r). is_hex c" using hex_loop_chars lower_hex_char by fastforce
  show "read_hex (map to_lower ?r) = n"
    using read_lower [of ?r] hex_loop_chars hex_loop_value [of ?u] u by auto
qed

lemma EOL_not_hex: "take 2 (c # s) = EOL \<Longrightarrow> \<not> is_hex c"
  by (auto simp: EOL_def is_hex_def)

text \<open>What follows the data of a chunk starts with a digit.\<close>

lemma rest_starts_with_digit:
  assumes "\<forall>c \<in> set cs. length c < 2 ^ 32"
  shows "\<exists>d t. concat (map chunk_text cs) @ chunk_end = d # t \<and> is_hex d"
  using assms
proof (induction cs)
  case Nil
  show ?case by (simp add: chunk_end_def is_hex_def)
next
  case (Cons c cs)
  show ?case
  proof (cases "c = []")
    case True
    then show ?thesis using Cons by (simp add: chunk_text_def)
  next
    case False
    have "0 < length c" "length c < 2 ^ 32" using Cons.prems False by auto
    then obtain h where h: "chunk_header (length c) = h @ EOL" "h \<noteq> []" "\<forall>c \<in> set h. is_hex c"
      by (rule header_digits) blast
    then show ?thesis using False by (cases h) (auto simp: chunk_text_def)
  qed
qed

lemma EOL_head: "EOL = CHR 0x0D # [CHR 0x0A]" "\<not> is_hex (CHR 0x0D)"
  by (auto simp: EOL_def is_hex_def)

lemma chunks_not_readable:
  assumes "\<forall>c \<in> set cs. length c < 2 ^ 32" and "\<exists>c \<in> set cs. c \<noteq> []"
  shows "dechunk (concat (map chunk_text cs) @ chunk_end) = None"
  using assms
proof (induction cs)
  case (Cons c cs)
  show ?case
  proof (cases "c = []")
    case True
    then show ?thesis using Cons by (simp add: chunk_text_def)
  next
    case False
    define rest where "rest = concat (map chunk_text cs) @ chunk_end"
    obtain d t where rest: "rest = d # t" "is_hex d"
      using rest_starts_with_digit [of cs] Cons.prems by (auto simp: rest_def)
    have "0 < length c" "length c < 2 ^ 32" using Cons.prems False by auto
    then obtain h where h: "chunk_header (length c) = h @ EOL" "h \<noteq> []" "\<forall>c \<in> set h. is_hex c" "read_hex h = length c"
      by (rule header_digits) blast
    have body: "concat (map chunk_text (c # cs)) @ chunk_end = h @ EOL @ c @ rest"
      using False h(1) by (simp add: chunk_text_def rest_def)
    have tw: "takeWhile is_hex (h @ EOL @ c @ rest) = h"
      using h(3) by (simp add: EOL_head takeWhile_append2)
    have len: "length EOL = 2" by (simp add: EOL_def)
    have "take 2 (drop (length c) (drop (length h + 2) (h @ EOL @ c @ rest))) \<noteq> EOL"
      using EOL_not_hex [of d t] rest len by auto
    then show ?thesis
      using False h unfolding body by (subst dechunk.simps) (simp add: tw Let_def)
  qed
qed simp


lemma OnWrote_chunks:
  assumes "outMsg s = Some m" and "msgPhase m \<in> {hmpHeaders, hmpBody}" and "chunked m" and "active s" and "payloadOut s \<noteq> []"
  shows "\<exists>s'. OnWrote name s = Some s' \<and> wire s' = wire s @ concat (map chunk_text (payloadOut s)) \<and> payloadOut s' = [] \<and>
     outMsg s' = Some (m\<lparr>msgPhase := hmpBody\<rparr>) \<and> active s' \<and> submitted s' = submitted s"
proof -
  have "send_loop name s off 0 =
    Some (set_phase hmpBody m ((enqueueSend (concat (map chunk_text (payloadOut s))) s)\<lparr>payloadOut := []\<rparr>),
      payload_size (payloadOut s), None)" for off
    using assms
    by (subst send_loop.simps) (auto simp: send_phase_def send_body_def hasContentBody_def)
  then show ?thesis
    using assms by (auto simp: OnWrote_def sendByPhase_def enqueueSend_def set_phase_def)
qed

lemma OnWrote_chunk_end:
  assumes "outMsg s = Some m" and "msgPhase m = hmpBody" and "chunked m" and "active s" and "payloadOut s = []"
  shows "\<exists>s' m'. OnWrote name s = Some s' \<and> wire s' = wire s @ chunk_end \<and> submitted s' = submitted s \<and>
     outMsg s' = Some m' \<and> msgPhase m' = hmpCompleted"
proof -
  have "send_loop name s off 0 = Some (set_phase hmpCompleted m (enqueueSend chunk_end s), 0, None)" for off
    using assms by (subst send_loop.simps) (simp add: send_phase_def send_body_def)
  then show ?thesis
    using assms by (auto simp: OnWrote_def sendByPhase_def enqueueSend_def set_phase_def)
qed

lemma OnWrote_completed:
  assumes "outMsg s = Some m" and "msgPhase m = hmpCompleted"
  shows "\<exists>s'. OnWrote name s = Some s' \<and> wire s' = wire s \<and> submitted s' = submitted s @ [m] \<and> outMsg s' = None"
  using assms by (simp add: OnWrote_def sendByPhase_def send_loop_completed)

text \<open>
  A chunked message goes out, chunk after chunk and with the closing chunk, but no line end is written behind the data
  of a chunk: unless all of the body is empty, a reader of the chunked transfer coding rejects it.
\<close>

theorem chunked_body_unreadable:
  assumes "outMsg s = None" and "active s" and "msgPhase m = hmpNil" and "chunked m"
    and "\<forall>c \<in> set (payloadOut s). length c < 2 ^ 32" and "\<exists>c \<in> set (payloadOut s). c \<noteq> []"
  shows "\<exists>s' m' body. run_ops (http_step name) s [SendOp m, WroteOp, WroteOp, WroteOp] = Some s' \<and>
     wire s' = wire s @ announcement name m @ body \<and> body = concat (map chunk_text (payloadOut s)) @ chunk_end \<and>
     submitted s' = submitted s @ [m'] \<and> dechunk body = None"
proof -
  let ?s1 = "announced name m s"
  have ne: "payloadOut ?s1 \<noteq> []" using assms(6) by auto
  obtain s2 where s2: "OnWrote name ?s1 = Some s2" "wire s2 = wire ?s1 @ concat (map chunk_text (payloadOut ?s1))"
      "payloadOut s2 = []" "outMsg s2 = Some (settle_headers m\<lparr>msgPhase := hmpBody\<rparr>)" "active s2" "submitted s2 = submitted s"
    using OnWrote_chunks [of ?s1 "settle_headers m\<lparr>msgPhase := hmpHeaders\<rparr>" name] assms(2,4) ne by auto
  obtain s3 m3 where s3: "OnWrote name s2 = Some s3" "wire s3 = wire s2 @ chunk_end" "submitted s3 = submitted s2"
      "outMsg s3 = Some m3" "msgPhase m3 = hmpCompleted"
    using OnWrote_chunk_end [OF s2(4) _ _ s2(5,3), of name] assms(4) by auto
  obtain s4 where "OnWrote name s3 = Some s4" "wire s4 = wire s3" "submitted s4 = submitted s3 @ [m3]"
    using OnWrote_completed [OF s3(4,5), of name] by auto
  with s2 s3 show ?thesis
    using sendMessage_announces [OF assms(1), of m name] assms(2,3) chunks_not_readable [OF assms(5,6)]
    by (simp add: wire_announced)
qed

definition demo_chunked :: http_message where
  "demo_chunked = new_message heNone MSG_RESPONSE ''c1''\<lparr>msgFlags := F_CHUNKED, statusCode := 200\<rparr>"

theorem chunked_body_unreadable_witness:
  "\<exists>s' body. run_ops (http_step (\<lambda>_. ''GET'')) (fst (pushOutgoingPayload ''hello'' True (conn_new 0)))
       [SendOp demo_chunked, WroteOp, WroteOp, WroteOp] = Some s' \<and> body = chunk_text ''hello'' @ chunk_end \<and> dechunk body = None"
  using chunked_body_unreadable [of "fst (pushOutgoingPayload ''hello'' True (conn_new 0))" demo_chunked "\<lambda>_. ''GET''"]
  by (simp add: pushOutgoingPayload_def conn_new_def demo_chunked_def new_message_def chunked_def F_CHUNKED_def) blast

end
