(* ===== verification/Mime_Reader.thy ===== *)
theory Mime_Reader
  imports Std_String
begin

text \<open>
  \<open>MIMEReader\<close> of HttpConnection.cpp (eloop/Http/LibHttp): the table of the Knuth-Morris-Pratt search, the search for
  the end of a line across pieces of data, and the line reader on top of it. Strings are shorter than \<open>2 ^ 31\<close>.
\<close>

subsection \<open>The table\<close>

text \<open>The inner loop of \<open>KnuthMorrisPratt\<close> falls back along the table, which the outer loop is still filling; that it ends
  depends on the table.\<close>

partial_function (option) kmp_back :: "string \<Rightarrow> int list \<Rightarrow> nat \<Rightarrow> int \<Rightarrow> int option" where
  "kmp_back x nx i j = (if j > - 1 \<and> x ! i \<noteq> x ! nat j then kmp_back x nx i (nx ! nat j) else Some j)"

definition kmp_entry :: "string \<Rightarrow> int list \<Rightarrow> nat \<Rightarrow> int \<Rightarrow> int" where
  "kmp_entry x nx i j = (if i < length x \<and> x ! i = x ! nat j then nx ! nat j else j)"

function kmp_loop :: "string \<Rightarrow> nat \<Rightarrow> int \<Rightarrow> int list \<Rightarrow> int list option" where
  "kmp_loop x i j nx =
     (if i < length x
      then (case kmp_back x nx i j of
              None \<Rightarrow> None
            | Some k \<Rightarrow> kmp_loop x (i + 1) (k + 1) (nx[i + 1 := kmp_entry x nx (i + 1) (k + 1)]))
      else Some nx)"
  by pat_completeness auto

termination
  by (relation "measure (\<lambda>(x, i, j, nx). length x - i)") auto

declare kmp_loop.simps [simp del]

definition KnuthMorrisPratt :: "string \<Rightarrow> int list option" where
  "KnuthMorrisPratt x = kmp_loop x 0 (- 1) ((replicate (length x + 1) 0)[0 := - 1])"

subsection \<open>The search\<close>

text \<open>Here the index is unsigned (\<open>size_t\<close>), and so is the comparison with \<open>- 1\<close>.\<close>

partial_function (option) search_back :: "string \<Rightarrow> int list \<Rightarrow> uint64 \<Rightarrow> char \<Rightarrow> uint64 option" where
  "search_back t nx i c =
     (if i > - 1 \<and> t ! unat i \<noteq> c then search_back t nx (word_of_int (nx ! unat i)) c else Some i)"

fun search_loop :: "string \<Rightarrow> int list \<Rightarrow> uint64 \<Rightarrow> nat \<Rightarrow> string \<Rightarrow> (uint64 \<times> nat) option" where
  "search_loop t nx i j [] = Some (i, j)"
| "search_loop t nx i j (c # data) =
     (case search_back t nx i c of
        None \<Rightarrow> None
      | Some k \<Rightarrow> if unat (k + 1) \<ge> length t then Some (k + 1, j + 1) else search_loop t nx (k + 1) (j + 1) data)"

record mime_reader =
  mr_line :: string
  mr_got :: bool
  mr_target :: string
  mr_next :: "int list"
  mr_locked :: uint64

text \<open>What was found to be ordinary text: the start of the target that earlier pieces had matched, and the start of this
  piece; then what is left of the piece.\<close>

record search_result =
  released :: string
  prefix_part :: string
  suffix_part :: string

definition mime_search :: "mime_reader \<Rightarrow> string \<Rightarrow> (mime_reader \<times> bool \<times> search_result) option" where
  "mime_search r data =
     (case search_loop (mr_target r) (mr_next r) (mr_locked r) 0 data of
        None \<Rightarrow> None
      | Some (i, j) \<Rightarrow>
          (let vPos = mr_locked r + of_nat j - i;
               (rel, pre) = (if vPos > mr_locked r then (take (unat (mr_locked r)) (mr_target r), take (unat (of_nat j - i)) data)
                             else (take (unat vPos) (mr_target r), []));
               found = (unat i \<ge> length (mr_target r))
           in Some (r\<lparr>mr_locked := (if found then 0 else i)\<rparr>, found,
                    \<lparr>released = rel, prefix_part = pre, suffix_part = drop j data\<rparr>)))"

text \<open>The answer of \<open>getLine\<close>: the line once its end was seen, and the data behind it.\<close>

definition getLine :: "mime_reader \<Rightarrow> string \<Rightarrow> (mime_reader \<times> string option \<times> string) option" where
  "getLine r data =
     (if mr_got r then Some (r, Some (c_str (mr_line r)), data)
      else (case mime_search r data of
              None \<Rightarrow> None
            | Some (r1, found, sr) \<Rightarrow>
                (let r2 = r1\<lparr>mr_line := mr_line r1 @ released sr @ prefix_part sr, mr_got := found\<rparr>
                 in Some (r2, (if found then Some (c_str (mr_line r2)) else None), suffix_part sr))))"

definition mime_clear :: "mime_reader \<Rightarrow> mime_reader" where
  "mime_clear r = r\<lparr>mr_line := [], mr_got := False, mr_locked := 0\<rparr>"

definition CRLF :: string where
  "CRLF = [CHR 0x0D, CHR 0x0A]"

lemma length_CRLF [simp]: "length CRLF = 2"
  by (simp add: CRLF_def)

definition mime_new :: "mime_reader option" where
  "mime_new =
     map_option (\<lambda>nx. \<lparr>mr_line = [], mr_got = False, mr_target = CRLF, mr_next = nx, mr_locked = 0\<rparr>) (KnuthMorrisPratt CRLF)"

subsection \<open>What the table holds\<close>

text \<open>A border of the first \<open>i\<close> characters: a shorter prefix that is also their end.\<close>

definition is_border :: "string \<Rightarrow> nat \<Rightarrow> nat \<Rightarrow> bool" where
  "is_border x i b \<longleftrightarrow> b < i \<and> (\<forall>k<b. x ! k = x ! (i - b + k))"

text \<open>The greatest number with a property, \<open>- 1\<close> if there is none.\<close>

definition greatest :: "(nat \<Rightarrow> bool) \<Rightarrow> int \<Rightarrow> bool" where
  "greatest P v \<longleftrightarrow> - 1 \<le> v \<and> (v \<ge> 0 \<longrightarrow> P (nat v)) \<and> (\<forall>b. P b \<longrightarrow> int b \<le> v)"

definition fallback :: "string \<Rightarrow> nat \<Rightarrow> nat \<Rightarrow> bool" where
  "fallback x i b \<longleftrightarrow> is_border x i b \<and> (i < length x \<longrightarrow> x ! b \<noteq> x ! i)"

lemma border_less: "is_border x i b \<Longrightarrow> b < i"
  by (simp add: is_border_def)

lemma borderD: "is_border x i b \<Longrightarrow> k < b \<Longrightarrow> x ! k = x ! (i - b + k)"
  by (simp add: is_border_def)

lemma border_trans:
  assumes "is_border x i j" and "is_border x j b"
  shows "is_border x i b"
proof -
  have less: "j < i" "b < j"
    using assms by (simp_all add: is_border_def)
  have "x ! k = x ! (i - b + k)" if "k < b" for k
  proof -
    have "x ! k = x ! (j - b + k)" using assms(2) that by (rule borderD)
    also have "\<dots> = x ! (i - j + (j - b + k))" using assms(1) that less by (intro borderD) auto
    also have "i - j + (j - b + k) = i - b + k" using less by simp
    finally show ?thesis .
  qed
  with less show ?thesis by (simp add: is_border_def)
qed

lemma border_nested:
  assumes "is_border x i j" and "is_border x i b" and "b < j"
  shows "is_border x j b"
proof -
  have less: "j < i"
    using assms by (simp add: is_border_def)
  have "x ! k = x ! (j - b + k)" if "k < b" for k
  proof -
    have "x ! k = x ! (i - b + k)" using assms(2) that by (rule borderD)
    also have "i - b + k = i - j + (j - b + k)" using less assms(3) by simp
    also have "x ! \<dots> = x ! (j - b + k)" using assms(1,3) that less by (intro borderD [symmetric]) auto
    finally show ?thesis .
  qed
  with assms(3) show ?thesis by (simp add: is_border_def)
qed

lemma border_Suc: "is_border x (Suc i) (Suc b) \<longleftrightarrow> is_border x i b \<and> x ! b = x ! i"
proof
  assume "is_border x (Suc i) (Suc b)"
  then have *: "b < i" "\<forall>k\<le>b. x ! k = x ! (i - b + k)"
    by (auto simp: is_border_def less_Suc_eq_le)
  then show "is_border x i b \<and> x ! b = x ! i"
    using *(2) [rule_format, of b] by (simp add: is_border_def)
next
  assume *: "is_border x i b \<and> x ! b = x ! i"
  show "is_border x (Suc i) (Suc b)"
    unfolding is_border_def
  proof (intro conjI allI impI)
    show "Suc b < Suc i" using * by (simp add: is_border_def)
    fix k assume "k < Suc b"
    then show "x ! k = x ! (Suc i - Suc b + k)"
      using * by (cases "k = b") (auto simp: is_border_def)
  qed
qed

lemma border_0: "is_border x i 0 \<longleftrightarrow> 0 < i"
  by (simp add: is_border_def)

text \<open>The inner loop: it stops at the greatest border that the next character extends.\<close>

lemma kmp_back_ends:
  assumes nx: "\<forall>k<length x. k \<le> i \<longrightarrow> greatest (fallback x k) (nx ! k)" and i: "i < length x"
    and j: "- 1 \<le> j" "j \<ge> 0 \<longrightarrow> is_border x i (nat j)" "\<forall>b. is_border x i b \<and> j < int b \<longrightarrow> x ! b \<noteq> x ! i"
  shows "\<exists>v. kmp_back x nx i j = Some v \<and> greatest (\<lambda>b. is_border x i b \<and> x ! b = x ! i) v"
  using j
proof (induction "nat (j + 1)" arbitrary: j rule: less_induct)
  case less
  show ?case
  proof (cases "j > - 1 \<and> x ! i \<noteq> x ! nat j")
    case False
    have "greatest (\<lambda>b. is_border x i b \<and> x ! b = x ! i) j"
      using less.prems False by (auto simp: greatest_def not_less [symmetric])
    then show ?thesis
      using False by (subst kmp_back.simps) auto
  next
    case True
    define l where "l = nx ! nat j"
    have bj: "is_border x i (nat j)" and "nat j < i"
      using less.prems(2) True border_less by fastforce+
    then have l: "greatest (fallback x (nat j)) l"
      using nx i by (simp add: l_def)
    have "l < j"
      using l True unfolding greatest_def fallback_def is_border_def by (cases "l \<ge> 0") auto
    moreover have "- 1 \<le> l"
      using l by (simp add: greatest_def)
    moreover have "l \<ge> 0 \<longrightarrow> is_border x i (nat l)"
      using l border_trans [OF bj] by (auto simp: greatest_def fallback_def)
    moreover have "x ! b \<noteq> x ! i" if b: "is_border x i b" "l < int b" for b
    proof (cases "int b" j rule: linorder_cases)
      case greater
      then show ?thesis using less.prems(3) b by blast
    next
      case equal
      then show ?thesis using True by auto
    next
      case less
      then have "is_border x (nat j) b"
        using border_nested [OF bj b(1)] by simp
      then have "x ! b = x ! nat j"
        using l b(2) \<open>nat j < i\<close> i by (auto simp: greatest_def fallback_def)
      then show ?thesis using True by auto
    qed
    ultimately have "\<exists>v. kmp_back x nx i l = Some v \<and> greatest (\<lambda>b. is_border x i b \<and> x ! b = x ! i) v"
      by (intro less.hyps) auto
    then show ?thesis
      using True by (subst kmp_back.simps) (simp add: l_def)
  qed
qed


lemma greatest_border_Suc:
  assumes "greatest (\<lambda>b. is_border x i b \<and> x ! b = x ! i) v"
  shows "greatest (is_border x (Suc i)) (v + 1)"
proof -
  have "is_border x (Suc i) (nat (v + 1))" if "v + 1 \<ge> 0"
  proof (cases "v = - 1")
    case True
    then show ?thesis by (simp add: border_0)
  next
    case False
    then have "nat (v + 1) = Suc (nat v)" using that by simp
    then show ?thesis using assms False that by (simp add: greatest_def border_Suc)
  qed
  moreover have "int b \<le> v + 1" if "is_border x (Suc i) b" for b
    using that assms by (cases b) (auto simp: greatest_def border_Suc)
  ultimately show ?thesis using assms by (simp add: greatest_def)
qed

lemma kmp_entry_ok:
  assumes nx: "\<forall>k\<le>i. greatest (fallback x k) (nx ! k)" and j: "greatest (is_border x (Suc i)) j" "j \<ge> 0"
  shows "greatest (fallback x (Suc i)) (kmp_entry x nx (Suc i) j)"
proof (cases "Suc i < length x \<and> x ! Suc i = x ! nat j")
  case False
  then show ?thesis
    using j by (auto simp: kmp_entry_def greatest_def fallback_def)
next
  case True
  have bj: "is_border x (Suc i) (nat j)" using j by (simp add: greatest_def)
  then have "nat j \<le> i" and len: "nat j < length x" using True by (auto simp: is_border_def)
  then have l: "greatest (fallback x (nat j)) (nx ! nat j)" using nx by simp
  have "fallback x (Suc i) b \<longleftrightarrow> fallback x (nat j) b" for b
  proof
    assume b: "fallback x (Suc i) b"
    then have "b \<noteq> nat j" and "int b \<le> j" using True j by (auto simp: fallback_def greatest_def)
    then have "b < nat j" by simp
    then show "fallback x (nat j) b" using b border_nested [OF bj] True len by (auto simp: fallback_def)
  next
    assume "fallback x (nat j) b"
    then show "fallback x (Suc i) b" using border_trans [OF bj] True len by (auto simp: fallback_def)
  qed
  then have "fallback x (Suc i) = fallback x (nat j)" by blast
  then show ?thesis using True l by (simp add: kmp_entry_def)
qed

lemma kmp_loop_fills:
  assumes "i \<le> length x" and "length nx = Suc (length x)" and "\<forall>k\<le>i. greatest (fallback x k) (nx ! k)"
    and "greatest (is_border x i) j"
  shows "\<exists>nx'. kmp_loop x i j nx = Some nx' \<and> length nx' = Suc (length x) \<and> (\<forall>k\<le>length x. greatest (fallback x k) (nx' ! k))"
  using assms
proof (induction x i j nx rule: kmp_loop.induct)
  case (1 x i j nx)
  show ?case
  proof (cases "i < length x")
    case False
    then show ?thesis using "1.prems" by (subst kmp_loop.simps) (simp add: le_antisym)
  next
    case True
    have start: "- 1 \<le> j" "j \<ge> 0 \<longrightarrow> is_border x i (nat j)" "\<forall>b. is_border x i b \<and> j < int b \<longrightarrow> x ! b \<noteq> x ! i"
      using "1.prems"(4) by (auto simp: greatest_def)
    obtain v where v: "kmp_back x nx i j = Some v" "greatest (\<lambda>b. is_border x i b \<and> x ! b = x ! i) v"
      using kmp_back_ends [of x i nx j] "1.prems"(3) True start by blast
    define nx1 where "nx1 = nx[i + 1 := kmp_entry x nx (i + 1) (v + 1)]"
    have j1: "greatest (is_border x (i + 1)) (v + 1)"
      using greatest_border_Suc [OF v(2)] by simp
    have "v + 1 \<ge> 0" using v(2) by (simp add: greatest_def)
    then have e: "greatest (fallback x (Suc i)) (kmp_entry x nx (Suc i) (v + 1))"
      using kmp_entry_ok [OF "1.prems"(3)] j1 by simp
    have "\<forall>k\<le>i + 1. greatest (fallback x k) (nx1 ! k)"
      using "1.prems"(2,3) e True by (auto simp: nx1_def nth_list_update le_Suc_eq)
    then show ?thesis
      using "1.IH" [OF True v(1)] "1.prems"(2) j1 True v(1) by (subst kmp_loop.simps) (simp add: nx1_def)
  qed
qed

lemma kmp_table_filled:
  "\<exists>nx. KnuthMorrisPratt x = Some nx \<and> length nx = length x + 1 \<and> (\<forall>k\<le>length x. greatest (fallback x k) (nx ! k))"
proof -
  have "greatest (fallback x 0) (- 1)" and "greatest (is_border x 0) (- 1)"
    by (auto simp: greatest_def fallback_def is_border_def)
  then show ?thesis
    using kmp_loop_fills [of 0 x "(replicate (length x + 1) 0)[0 := - 1]" "- 1"] by (auto simp: KnuthMorrisPratt_def)
qed

text \<open>
  C21. The table is computed, and it is the table of the search: at \<open>k\<close> it holds the longest border of the first \<open>k\<close>
  characters that is not followed by the character at \<open>k\<close>, and at the end the longest border of the whole.
\<close>

theorem kmp_table_correct:
  "\<exists>nx. KnuthMorrisPratt x = Some nx \<and> length nx = length x + 1 \<and> (\<forall>k\<le>length x. greatest (fallback x k) (nx ! k))"
  by (rule kmp_table_filled)

theorem kmp_table_correct_witness:
  "\<exists>nx. KnuthMorrisPratt ''abab'' = Some nx \<and> greatest (fallback ''abab'' 4) (nx ! 4)"
  using kmp_table_correct [of "''abab''"] by auto

subsection \<open>What the search does with it\<close>

lemma search_back_stays [simp]: "search_back t nx i c = Some i"
  by (subst search_back.simps) (simp add: not_less)

lemma search_loop_counts:
  assumes "unat i < length t" and "length t < 2 ^ 64"
  shows "search_loop t nx i j data =
     Some (if length t \<le> unat i + length data then (of_nat (length t), j + (length t - unat i))
           else (i + of_nat (length data), j + length data))"
  using assms
proof (induction t nx i j data rule: search_loop.induct)
  case (2 t nx i j c data)
  have i1: "unat (i + 1) = unat i + 1"
    using 2(2,3) by (simp add: unat_word_ariths)
  show ?case
  proof (cases "unat i + 1 \<ge> length t")
    case True
    then have "unat i + 1 = length t" using 2(2) by simp
    then have "of_nat (unat (i + 1)) = (of_nat (length t) :: uint64)" using i1 by simp
    then have "i + 1 = of_nat (length t)" by simp
    then show ?thesis using True \<open>unat i + 1 = length t\<close> i1 by auto
  next
    case False
    then have "search_loop t nx (i + 1) (j + 1) data =
      Some (if length t \<le> unat (i + 1) + length data then (of_nat (length t), j + 1 + (length t - unat (i + 1)))
           else (i + 1 + of_nat (length data), j + 1 + length data))"
      by (intro 2(1)) (use i1 2(3) in auto)
    moreover have "j + 1 + (length t - unat (i + 1)) = j + (length t - unat i)" using False i1 by simp
    ultimately show ?thesis using False i1 by (simp add: algebra_simps)
  qed
qed simp

lemma search_counts:
  assumes "unat (mr_locked r) < length (mr_target r)" and "length (mr_target r) < 2 ^ 31"
  shows "mime_search r data =
     Some (if length (mr_target r) \<le> unat (mr_locked r) + length data
           then (r\<lparr>mr_locked := 0\<rparr>, True,
                 \<lparr>released = [], prefix_part = [], suffix_part = drop (length (mr_target r) - unat (mr_locked r)) data\<rparr>)
           else (r\<lparr>mr_locked := mr_locked r + of_nat (length data)\<rparr>, False, \<lparr>released = [], prefix_part = [], suffix_part = []\<rparr>))"
proof -
  let ?m = "length (mr_target r)" and ?L = "mr_locked r"
  have m: "?m < 2 ^ 64" using assms(2) by simp
  have um: "unat (of_nat ?m :: uint64) = ?m" using m by (simp add: unat_of_nat)
  have "?L + of_nat (?m - unat ?L) - of_nat ?m = (0 :: uint64)"
    using assms(1) by (simp add: of_nat_diff)
  moreover have "unat (?L + of_nat (length data)) = unat ?L + length data" if "\<not> ?m \<le> unat ?L + length data"
  proof -
    have "?L + of_nat (length data) = of_nat (unat ?L + length data)" by simp
    then have "unat (?L + of_nat (length data)) = (unat ?L + length data) mod 2 ^ 64" by (simp only: unat_of_nat) simp
    then show ?thesis using that m by (simp add: not_le)
  qed
  ultimately show ?thesis
    using assms(1) um by (auto simp: mime_search_def search_loop_counts [OF assms(1) m] not_less)
qed

text \<open>
  Because \<open>i > -1\<close> never holds for the unsigned index, the search does not look at its data: it reports the target as
  soon as it has counted as many bytes as the target has, and hands out no text before it.
\<close>

theorem search_ignores_its_data:
  assumes "unat (mr_locked r) < length (mr_target r)" and "length (mr_target r) < 2 ^ 31"
  shows "mime_search r data =
     Some (if length (mr_target r) \<le> unat (mr_locked r) + length data
           then (r\<lparr>mr_locked := 0\<rparr>, True,
                 \<lparr>released = [], prefix_part = [], suffix_part = drop (length (mr_target r) - unat (mr_locked r)) data\<rparr>)
           else (r\<lparr>mr_locked := mr_locked r + of_nat (length data)\<rparr>, False, \<lparr>released = [], prefix_part = [], suffix_part = []\<rparr>))"
  using assms by (rule search_counts)

definition reader_demo :: mime_reader where
  "reader_demo = \<lparr>mr_line = [], mr_got = False, mr_target = CRLF, mr_next = [- 1, 0, 0], mr_locked = 0\<rparr>"

theorem search_ignores_its_data_witness:
  "mime_search reader_demo ''abcdef'' = Some (reader_demo, True, \<lparr>released = [], prefix_part = [], suffix_part = ''cdef''\<rparr>)"
  using search_ignores_its_data [of reader_demo "''abcdef''"] by (simp add: reader_demo_def CRLF_def)

lemma mime_new_CRLF:
  obtains r where "mime_new = Some r" and "mr_line r = []" and "\<not> mr_got r" and "mr_target r = CRLF" and "mr_locked r = 0"
  using kmp_table_filled [of CRLF] by (auto simp: mime_new_def)


definition mime_fresh :: "mime_reader \<Rightarrow> bool" where
  "mime_fresh r \<longleftrightarrow> mr_line r = [] \<and> \<not> mr_got r \<and> mr_target r = CRLF \<and> mr_locked r = 0"

lemma mime_new_fresh: "\<exists>r. mime_new = Some r \<and> mime_fresh r"
  using mime_new_CRLF unfolding mime_fresh_def by metis

lemma mime_clear_fresh: "mr_target r = CRLF \<Longrightarrow> mime_fresh (mime_clear r)"
  by (simp add: mime_fresh_def mime_clear_def)

text \<open>So every line is blank: two bytes are taken for its end, whatever they are.\<close>

lemma getLine_blank:
  assumes "mime_fresh r" and "2 \<le> length data"
  shows "\<exists>r'. getLine r data = Some (r', Some [], drop 2 data) \<and> mr_target r' = CRLF"
  using assms by (simp add: getLine_def mime_fresh_def search_counts c_str_def)

lemma getLine_short:
  assumes "mime_fresh r" and "length data < 2"
  shows "\<exists>r'. getLine r data = Some (r', None, []) \<and> mr_target r' = CRLF"
  using assms by (simp add: getLine_def mime_fresh_def search_counts)

end
