(* ===== verification/Http_Receive.thy ===== *)
theory Http_Receive
  imports Http_Message Mime_Reader
begin

text \<open>
  The receiving side of \<open>HttpConnection\<close> (HttpConnection.cpp): the callbacks of the HTTP parser, and what is made of a form
  in the body of a message. The parser is third-party code: a parameter says which callbacks it makes for given bytes.
\<close>

subsection \<open>Forms\<close>

function split_from :: "string \<Rightarrow> string \<Rightarrow> nat \<Rightarrow> string list" where
  "split_from d s pos =
     (case find_first_not_of d s pos of
        None \<Rightarrow> []
      | Some a \<Rightarrow>
          (case find_first_of d s a of
             None \<Rightarrow> [drop a s]
           | Some b \<Rightarrow> take (b - a) (drop a s) # split_from d s b))"
  by pat_completeness auto

termination
proof (relation "measure (\<lambda>(d, s, pos). length s - pos)")
  fix d s :: string and pos a b
  assume "find_first_not_of d s pos = Some a" and "find_first_of d s a = Some b"
  then have "pos \<le> a" and "a \<le> b" and "a \<noteq> b" and "b < length s"
    by (auto simp: find_first_not_of_Some find_first_of_Some)
  then show "((d, s, b), d, s, pos) \<in> measure (\<lambda>(d, s, pos). length s - pos)" by simp
qed simp

declare split_from.simps [simp del]

definition mime_split :: "string \<Rightarrow> string \<Rightarrow> string list" where
  "mime_split s d = split_from d s 0"

definition mime_trim :: "string \<Rightarrow> string \<Rightarrow> string" where
  "mime_trim s d = rev (dropWhile (\<lambda>c. c \<in> set d) (rev (dropWhile (\<lambda>c. c \<in> set d) s)))"

record mime_part =
  part_name :: string
  part_filename :: string
  part_type :: string
  part_transfer :: string

definition empty_part :: mime_part where
  "empty_part = \<lparr>part_name = [], part_filename = [], part_type = [], part_transfer = []\<rparr>"

definition same_word :: "string \<Rightarrow> string \<Rightarrow> bool" where
  "same_word s t \<longleftrightarrow> map to_lower (c_str s) = map to_lower t"

definition part_param :: "string \<Rightarrow> mime_part \<Rightarrow> mime_part" where
  "part_param prm p =
     (let (k, v) = (case find_char CHR ''='' prm 0 of
            None \<Rightarrow> ([], [])
          | Some pos \<Rightarrow> (mime_trim (take pos prm) '' '', mime_trim (drop (pos + 1) prm) ('' '' @ [CHR 0x22])))
      in if same_word k ''name'' then p\<lparr>part_name := v\<rparr> else if same_word k ''filename'' then p\<lparr>part_filename := v\<rparr> else p)"

definition part_header :: "string \<Rightarrow> mime_part \<Rightarrow> mime_part" where
  "part_header hdr p =
     (if take 20 hdr = ''Content-disposition:'' then fold part_param (mime_split (drop 20 hdr) '';'') p
      else if take 13 hdr = ''Content-Type:'' then p\<lparr>part_type := mime_trim (drop 13 hdr) '' ''\<rparr>
      else if take 26 hdr = ''Content-Transfer-Encoding:'' then p\<lparr>part_transfer := mime_trim (drop 26 hdr) '' ''\<rparr>
      else p)"

text \<open>The header lines of a part, up to a blank one; then the parts, where \<open>p\<close> is the rest of the buffer. The value of a
  part is the C string from its start on. \<open>None\<close>: a loop does not end.\<close>

partial_function (option) part_headers :: "mime_reader \<Rightarrow> string \<Rightarrow> mime_part \<Rightarrow> (mime_part \<times> string) option" where
  "part_headers r p part =
     (case getLine r p of
        None \<Rightarrow> None
      | Some (r1, line, p1) \<Rightarrow>
          (case line of
             None \<Rightarrow> Some (part, p1)
           | Some hdr \<Rightarrow> if hdr = [] then Some (part, p1) else part_headers (mime_clear r1) p1 (part_header hdr part)))"

partial_function (option) multipart :: "string \<Rightarrow> string \<Rightarrow> string \<Rightarrow> (string \<times> int) option" where
  "multipart b p q =
     (if p = [] \<or> take 2 (drop (length b + 2) p) = ''--'' then Some (q, scOK)
      else (case (case mime_new of None \<Rightarrow> None | Some r \<Rightarrow> getLine r p) of
              None \<Rightarrow> None
            | Some (r1, line, p1) \<Rightarrow>
                if line = None then Some (q, errMIMEPart)
                else (case part_headers (mime_clear r1) p1 empty_part of
                        None \<Rightarrow> None
                      | Some (part, p2) \<Rightarrow>
                          (case find_str (EOL @ ''--'' @ b) p2 0 of
                             None \<Rightarrow> Some (q, errBodyEnd)
                           | Some e \<Rightarrow> multipart b (drop (e + 2) p2) (q @ part_name part @ ''='' @ c_str p2 @ ''&'')))))"

definition decode_multipart :: "string \<Rightarrow> string \<Rightarrow> string \<Rightarrow> (string \<times> int) option" where
  "decode_multipart b body q =
     (case find_str (''--'' @ b) body 0 of None \<Rightarrow> Some (q, scOK) | Some pos \<Rightarrow> multipart b (drop pos body) q)"

definition decode_urlencoded :: "string \<Rightarrow> string \<Rightarrow> url_error + (string \<times> int)" where
  "decode_urlencoded body q =
     (case URLStr_parse (Some body) (url_new True) of
        Inl e \<Rightarrow> Inl e
      | Inr (u, ok) \<Rightarrow>
          if \<not> ok then Inr (q, errBodyDecode)
          else Inr (q @ concat (map (\<lambda>(k, v). k @ ''='' @ v @ ''&'') (mVars u)), scOK))"

subsection \<open>What becomes of the parts\<close>

lemma getLine_fresh:
  assumes "mime_fresh r"
  obtains r' line where "getLine r p = Some (r', line, drop 2 p)" and "line = (if 2 \<le> length p then Some [] else None)"
    and "mr_target r' = CRLF"
  using getLine_blank [OF assms, of p] getLine_short [OF assms, of p] by (cases "2 \<le> length p") auto

lemma part_headers_stop:
  assumes "mime_fresh r"
  shows "part_headers r p part = Some (part, drop 2 p)"
proof -
  obtain r' line where "getLine r p = Some (r', line, drop 2 p)" "line = (if 2 \<le> length p then Some [] else None)"
    using assms by (rule getLine_fresh)
  then show ?thesis by (subst part_headers.simps) simp
qed

lemma multipart_round:
  "multipart b p q =
     (if p = [] \<or> take 2 (drop (length b + 2) p) = ''--'' then Some (q, scOK)
      else if length p < 2 then Some (q, errMIMEPart)
      else (case find_str (EOL @ ''--'' @ b) (drop 4 p) 0 of
              None \<Rightarrow> Some (q, errBodyEnd)
            | Some e \<Rightarrow> multipart b (drop (e + 6) p) (q @ ''='' @ c_str (drop 4 p) @ ''&'')))"
proof -
  obtain r where r: "mime_new = Some r" "mime_fresh r" using mime_new_fresh by blast
  obtain r' line where l: "getLine r p = Some (r', line, drop 2 p)" "line = (if 2 \<le> length p then Some [] else None)"
      "mr_target r' = CRLF"
    using r(2) by (rule getLine_fresh)
  have "part_headers (mime_clear r') (drop 2 p) empty_part = Some (empty_part, drop 4 p)"
    using part_headers_stop [OF mime_clear_fresh [OF l(3)]] by simp
  moreover have "drop (e + 2) (drop 4 p) = drop (e + 6) p" for e
    by (simp add: add.commute)
  moreover have "part_name empty_part = []"
    by (simp add: empty_part_def)
  moreover have "(case mime_new of None \<Rightarrow> None | Some r \<Rightarrow> getLine r p) = Some (r', line, drop 2 p)"
    by (simp add: r(1) l(1))
  moreover have "line = None \<longleftrightarrow> length p < 2"
    using l(2) by simp
  ultimately show ?thesis
    by (subst multipart.simps) (simp only: option.case prod.case append_Nil)
qed

lemma multipart_unnamed:
  "\<exists>vs e. multipart b p q = Some (q @ concat (map (\<lambda>v. ''='' @ v @ ''&'') vs), e)"
proof (induction "length p" arbitrary: p q rule: less_induct)
  case less
  have one: "\<exists>vs e'. Some (q, e) = Some (q @ concat (map (\<lambda>v. ''='' @ v @ ''&'') vs), e')" for e :: int
    by (intro exI [of _ "[]"]) simp
  show ?case
  proof (cases "p = [] \<or> take 2 (drop (length b + 2) p) = ''--'' \<or> length p < 2 \<or> find_str (EOL @ ''--'' @ b) (drop 4 p) 0 = None")
    case True
    then show ?thesis using one by (subst multipart_round) auto
  next
    case False
    then obtain e where e: "find_str (EOL @ ''--'' @ b) (drop 4 p) 0 = Some e" by auto
    have "length (drop (e + 6) p) < length p" using False by (cases p) auto
    then obtain vs e' where "multipart b (drop (e + 6) p) (q @ ''='' @ c_str (drop 4 p) @ ''&'') =
        Some ((q @ ''='' @ c_str (drop 4 p) @ ''&'') @ concat (map (\<lambda>v. ''='' @ v @ ''&'') vs), e')"
      using less by blast
    then show ?thesis
      using False e by (subst multipart_round) (auto intro!: exI [of _ "c_str (drop 4 p) # vs"])
  qed
qed

text \<open>
  Decoding a multipart form returns for every body, and never finds the name of a part: what it appends to the query
  are values without names.
\<close>

theorem multipart_names_lost:
  "\<exists>vs e. decode_multipart b body q = Some (q @ concat (map (\<lambda>v. ''='' @ v @ ''&'') vs), e)"
proof (cases "find_str (''--'' @ b) body 0")
  case None
  then show ?thesis by (auto simp: decode_multipart_def intro!: exI [of _ "[]"])
next
  case (Some pos)
  then show ?thesis using multipart_unnamed [of b "drop pos body" q] by (simp add: decode_multipart_def)
qed

end
