(* ===== verification/Http_Parser.thy ===== *)
theory Http_Parser
  imports Http_Receive
begin

text \<open>
  \<open>NestedParser\<close> and the parser callbacks of \<open>HttpConnection\<close> (HttpConnection.cpp). The parser library is a parameter:
  for given bytes, the callbacks it makes, each with the count of bytes and the error that it reports if that callback
  asks it to stop, and the count and error when none does.
\<close>

subsection \<open>State\<close>

record parser_info =
  p_content_length :: uint64
  p_flags :: uint32
  p_status :: int
  p_method :: http_method
  p_major :: nat
  p_minor :: nat
  p_errno :: int

datatype parser_event =
  EvBegin | EvUrl string | EvStatus string | EvField string | EvValue string | EvHeaders parser_info | EvBody string
| EvChunkHeader | EvChunkComplete | EvComplete

record 'p parser_lib =
  lib_init :: 'p
  lib_execute :: "'p \<Rightarrow> string \<Rightarrow> 'p \<times> (parser_event \<times> nat \<times> int) list \<times> nat \<times> int"

text \<open>The members of \<open>NestedParser\<close>, the payloads received, and what was reported to the application.\<close>

record recv_state =
  np_msg :: "http_message option"
  headerName :: string
  headerValue :: string
  np_url :: string
  payloadReceived :: "string list"
  received :: "http_message list"
  recv_errors :: "(int \<times> string) list"

text \<open>What the code does not handle: an exception of a string operation, a NULL message, a loop without end.\<close>

datatype recv_error = Threw url_error | No_message | Endless

record recv_env =
  re_passive :: bool
  re_ident :: string
  re_found :: http_encoding
  re_on_headers :: "http_message \<Rightarrow> int"

definition np_reset :: "recv_env \<Rightarrow> recv_state \<Rightarrow> recv_state" where
  "np_reset E s =
     s\<lparr>np_msg := Some (new_message (re_found E) (if re_passive E then MSG_REQUEST else MSG_RESPONSE) (re_ident E)\<lparr>msgPhase := hmpStarted\<rparr>),
       headerName := [], headerValue := []\<rparr>"

definition recv_new :: recv_state where
  "recv_new = \<lparr>np_msg = None, headerName = [], headerValue = [], np_url = [], payloadReceived = [], received = [], recv_errors = []\<rparr>"

definition OnMessagingError :: "int \<Rightarrow> string \<Rightarrow> recv_state \<Rightarrow> recv_state" where
  "OnMessagingError e t s = s\<lparr>recv_errors := recv_errors s @ [(e, t)]\<rparr>"

subsection \<open>Callbacks\<close>

definition onParser_Url :: "string \<Rightarrow> recv_state \<Rightarrow> recv_state" where
  "onParser_Url t s = s\<lparr>np_url := np_url s @ t\<rparr>"

definition onParser_HeaderField :: "string \<Rightarrow> recv_state \<Rightarrow> recv_state" where
  "onParser_HeaderField t s = s\<lparr>headerName := headerName s @ t, headerValue := []\<rparr>"

text \<open>A further piece of a value is appended to the local copy.\<close>

definition onParser_HeaderValue :: "string \<Rightarrow> http_message \<Rightarrow> recv_state \<Rightarrow> recv_state" where
  "onParser_HeaderValue t m s =
     (if headerValue s \<noteq> [] then s\<lparr>headerValue := headerValue s @ t\<rparr>
      else s\<lparr>np_msg := Some (set_header (headerName s) t m), headerName := [], headerValue := t\<rparr>)"

text \<open>The loop over the headers, as far as it goes for a message without errors; then its result.\<close>

fun scan_headers :: "(string \<times> string) list \<Rightarrow> http_message \<Rightarrow> http_message \<times> int" where
  "scan_headers [] m = (m, scOK)"
| "scan_headers ((k, v) # hs) m =
     (if c_str k \<noteq> ''Content-Type'' then scan_headers hs m
      else if find_str ''application/x-www-form-urlencoded'' (c_str v) 0 \<noteq> None
           then scan_headers hs (m\<lparr>msgEncoding := heFormUrlEncoded\<rparr>)
      else if find_str ''multipart/form-data'' (c_str v) 0 = None then scan_headers hs (m\<lparr>msgEncoding := heNone\<rparr>)
      else (let b = (case find_str ''boundary='' (c_str v) 0 of None \<Rightarrow> [] | Some p \<Rightarrow> mime_trim (drop (p + 9) (c_str v)) '' '');
                m1 = m\<lparr>boundary := b, msgEncoding := heFormMultiparts\<rparr>
            in if b = [] then (m1, errNullBundary) else scan_headers hs m1))"

definition take_info :: "parser_info \<Rightarrow> http_message \<Rightarrow> http_message" where
  "take_info i m =
     m\<lparr>msgMethod := p_method i, declaredBodyLength := sint (p_content_length i), httpVMajor := p_major i, httpVMinor := p_minor i,
       statusCode := p_status i, msgFlags := p_flags i\<rparr>"

definition onParser_HeadersCompleted :: "recv_env \<Rightarrow> parser_info \<Rightarrow> http_message \<Rightarrow> recv_state \<Rightarrow> recv_error + (recv_state \<times> int)" where
  "onParser_HeadersCompleted E i m s =
     (case chopURI (np_url s) of
        Inl e \<Rightarrow> Inl (Threw e)
      | Inr (host, port, uri, qstr) \<Rightarrow>
          (case scan_headers (headers m) (take_info i m\<lparr>msgUri := uri, msgQstr := qstr\<rparr>) of
             (m1, res) \<Rightarrow>
               (let s1 = s\<lparr>np_msg := Some m1\<rparr>
                in if \<not> HTTP_SUCC res then Inr (OnMessagingError res (code2status res) s1, - 2)
                   else if p_errno i \<noteq> 0
                        then Inr (OnMessagingError errHTTPParse (''http parse error('' @ itoa (p_errno i) @ '')'') s1, - 2)
                   else if re_on_headers E m1 = 0 then Inr (s1, errBackendProcess)
                   else Inr (s1, 0))))"

definition decode_body :: "http_message \<Rightarrow> recv_state \<Rightarrow> recv_error + (string \<times> int)" where
  "decode_body m s =
     (case msgEncoding m of
        heNone \<Rightarrow> Inr (msgQstr m, scOK)
      | heFormUrlEncoded \<Rightarrow>
          (case payloadReceived s of
             [] \<Rightarrow> Inr (msgQstr m, scOK)
           | body # _ \<Rightarrow> (case decode_urlencoded body (msgQstr m) of Inl e \<Rightarrow> Inl (Threw e) | Inr r \<Rightarrow> Inr r))
      | heFormMultiparts \<Rightarrow>
          (case payloadReceived s of
             [] \<Rightarrow> Inr (msgQstr m, scOK)
           | body # _ \<Rightarrow> (case decode_multipart (boundary m) body (msgQstr m) of None \<Rightarrow> Inl Endless | Some r \<Rightarrow> Inr r)))"

definition onParser_MessageComplete :: "http_message \<Rightarrow> recv_state \<Rightarrow> recv_error + (recv_state \<times> int)" where
  "onParser_MessageComplete m s =
     (case decode_body m s of
        Inl e \<Rightarrow> Inl e
      | Inr (q, res) \<Rightarrow>
          (let m1 = m\<lparr>msgQstr := q\<rparr>; s1 = s\<lparr>np_msg := Some m1\<rparr>
           in if \<not> HTTP_SUCC res then Inr (OnMessagingError res (code2status res) s1, - 1)
              else Inr (s1\<lparr>np_msg := None, received := received s @ [m1]\<rparr>, - 1)))"

definition OnBodyPayloadReceived :: "string \<Rightarrow> recv_state \<Rightarrow> recv_state \<times> int" where
  "OnBodyPayloadReceived d s = (s\<lparr>payloadReceived := payloadReceived s @ [d]\<rparr>, errAsyncInProgress)"

definition onParser_Body :: "string \<Rightarrow> recv_state \<Rightarrow> recv_state \<times> int" where
  "onParser_Body d s =
     (case OnBodyPayloadReceived d s of (s', r) \<Rightarrow> (s', if r = 0 \<or> r = errAsyncInProgress then 0 else - 1))"

definition popReceivedPayload :: "recv_state \<Rightarrow> recv_state \<times> string option" where
  "popReceivedPayload s =
     (case payloadReceived s of [] \<Rightarrow> (s, None) | d # ds \<Rightarrow> (s\<lparr>payloadReceived := ds\<rparr>, Some d))"

text \<open>One callback: the new state and its answer, which stops the parser unless it is 0.\<close>

fun with_msg :: "recv_state \<Rightarrow> (http_message \<Rightarrow> recv_error + 'a) \<Rightarrow> recv_error + 'a" where
  "with_msg s f = (case np_msg s of None \<Rightarrow> Inl No_message | Some m \<Rightarrow> f m)"

fun callback :: "recv_env \<Rightarrow> parser_event \<Rightarrow> recv_state \<Rightarrow> recv_error + (recv_state \<times> int)" where
  "callback E EvBegin s = with_msg s (\<lambda>m. Inr (s\<lparr>np_msg := Some (m\<lparr>msgPhase := hmpStarted\<rparr>)\<rparr>, 0))"
| "callback E (EvUrl t) s = Inr (onParser_Url t s, 0)"
| "callback E (EvStatus t) s = with_msg s (\<lambda>m. Inr (s\<lparr>np_msg := Some (m\<lparr>statusText := statusText m @ t\<rparr>)\<rparr>, 0))"
| "callback E (EvField t) s = Inr (onParser_HeaderField t s, 0)"
| "callback E (EvValue t) s =
     (if headerValue s \<noteq> [] then Inr (s\<lparr>headerValue := headerValue s @ t\<rparr>, 0)
      else with_msg s (\<lambda>m. Inr (onParser_HeaderValue t m s, 0)))"
| "callback E (EvHeaders i) s = with_msg s (\<lambda>m. onParser_HeadersCompleted E i (m\<lparr>msgPhase := hmpBody\<rparr>) s)"
| "callback E (EvBody d) s = with_msg s (\<lambda>m. Inr (onParser_Body d s))"
| "callback E EvChunkHeader s = Inr (s, 0)"
| "callback E EvChunkComplete s = Inr (s, 0)"
| "callback E EvComplete s = with_msg s (\<lambda>m. onParser_MessageComplete (m\<lparr>msgPhase := hmpCompleted\<rparr>) s)"

fun callbacks :: "recv_env \<Rightarrow> (parser_event \<times> nat \<times> int) list \<Rightarrow> nat \<times> int \<Rightarrow> recv_state \<Rightarrow> recv_error + (recv_state \<times> nat \<times> int)" where
  "callbacks E [] fin s = Inr (s, fin)"
| "callbacks E ((ev, stop) # evs) fin s =
     (case callback E ev s of
        Inl e \<Rightarrow> Inl e
      | Inr (s', r) \<Rightarrow> if r \<noteq> 0 then Inr (s', stop) else callbacks E evs fin s')"

text \<open>\<open>parse\<close>; \<open>None\<close>: it calls itself without end.\<close>

definition needs_reset :: "recv_state \<Rightarrow> bool" where
  "needs_reset s = (case np_msg s of None \<Rightarrow> True | Some m \<Rightarrow> msgPhase m = hmpCompleted)"

partial_function (option) np_parse ::
  "'p parser_lib \<Rightarrow> (int \<Rightarrow> string) \<Rightarrow> recv_env \<Rightarrow> 'p \<Rightarrow> string \<Rightarrow> recv_state \<Rightarrow> (recv_error + ('p \<times> recv_state)) option" where
  "np_parse L descr E p data s =
     (let (p0, s0) = (if needs_reset s then (lib_init L, np_reset E s) else (p, s));
          (p1, evs, fin) = lib_execute L p0 data
      in case callbacks E evs fin s0 of
           Inl e \<Rightarrow> Some (Inl e)
         | Inr (s1, nparsed, errno) \<Rightarrow>
             if nparsed = length data then Some (Inr (p1, s1))
             else (case np_msg s1 of
                     None \<Rightarrow> Some (Inl No_message)
                   | Some m \<Rightarrow>
                       if msgPhase m = hmpCompleted then np_parse L descr E p1 (drop nparsed data) s1
                       else Some (Inr (p1, OnMessagingError errno (''parse error:'' @ descr errno) s1))))"


subsection \<open>Requests on one connection\<close>

text \<open>The callbacks for a request without a body: the URL, headers, the end of the headers, the end of the message.\<close>

definition header_events :: "(string \<times> string) list \<Rightarrow> (parser_event \<times> nat \<times> int) list" where
  "header_events hs = concat (map (\<lambda>(k, v). [(EvField k, 0, 0), (EvValue v, 0, 0)]) hs)"

definition request_events :: "string \<Rightarrow> (string \<times> string) list \<Rightarrow> parser_info \<Rightarrow> nat \<Rightarrow> (parser_event \<times> nat \<times> int) list" where
  "request_events u hs i n = (EvBegin, 0, 0) # (EvUrl u, 0, 0) # header_events hs @ [(EvHeaders i, 0, 0), (EvComplete, n, 0)]"

definition plain_headers :: "(string \<times> string) list \<Rightarrow> bool" where
  "plain_headers hs \<longleftrightarrow> (\<forall>(k, v) \<in> set hs. c_str k \<noteq> ''Content-Type'')"

lemma plain_headers_set: "plain_headers hs \<Longrightarrow> c_str k \<noteq> ''Content-Type'' \<Longrightarrow> plain_headers (smap_set k v hs)"
  using set_smap_set [of k v hs] by (auto simp: plain_headers_def)

lemma scan_plain: "plain_headers hs \<Longrightarrow> scan_headers hs m = (m, scOK)"
  by (induction hs m rule: scan_headers.induct) (auto simp: plain_headers_def)

lemma callbacks_headers:
  assumes "plain_headers hs" and "np_msg s = Some m" and "plain_headers (headers m)" and "headerName s = []"
  shows "\<exists>s' m'. callbacks E (header_events hs @ evs) fin s = callbacks E evs fin s' \<and> np_msg s' = Some m' \<and>
     plain_headers (headers m') \<and> np_url s' = np_url s \<and> payloadReceived s' = payloadReceived s \<and> received s' = received s"
  using assms
proof (induction hs arbitrary: s m)
  case Nil
  then show ?case by (auto simp: header_events_def)
next
  case (Cons h hs)
  obtain k v where h: "h = (k, v)" by fastforce
  define s1 where "s1 = onParser_HeaderValue v m (onParser_HeaderField k s)"
  have s1: "np_msg s1 = Some (set_header k v m)" "headerName s1 = []" "np_url s1 = np_url s" "payloadReceived s1 = payloadReceived s"
      "received s1 = received s"
    using Cons.prems by (simp_all add: s1_def onParser_HeaderValue_def onParser_HeaderField_def)
  have "c_str k \<noteq> ''Content-Type''"
    using Cons.prems(1) h by (simp add: plain_headers_def)
  then have p: "plain_headers (headers (set_header k v m))" "plain_headers hs"
    using Cons.prems(1) plain_headers_set [OF Cons.prems(3)] by (simp_all add: set_header_def) (simp add: plain_headers_def)
  have "callbacks E (header_events (h # hs) @ evs) fin s = callbacks E (header_events hs @ evs) fin s1"
    using Cons.prems by (simp add: header_events_def h s1_def onParser_HeaderField_def onParser_HeaderValue_def)
  then show ?case
    using Cons.IH [OF p(2) s1(1) p(1) s1(2)] s1 by auto
qed

lemma request_callbacks:
  assumes hs: "plain_headers hs" and i: "p_errno i = 0" and E: "\<forall>m. re_on_headers E m \<noteq> 0"
    and s: "np_msg s = Some m" "headers m = []" "headerName s = []" "payloadReceived s = []"
    and plain: "set (np_url s @ u) \<inter> {CHR ''?'', CHR ''&'', CHR '':''} = {}"
  shows "\<exists>s' m'. callbacks E (request_events u hs i n) fin s = Inr (s', n, 0) \<and> np_msg s' = None \<and>
     received s' = received s @ [m'] \<and> msgUri m' = np_url s @ u \<and> np_url s' = np_url s @ u \<and> payloadReceived s' = []"
proof -
  define s1 where "s1 = onParser_Url u (s\<lparr>np_msg := Some (m\<lparr>msgPhase := hmpStarted\<rparr>)\<rparr>)"
  obtain s2 m2 where s2: "callbacks E (header_events hs @ [(EvHeaders i, 0, 0), (EvComplete, n, 0)]) fin s1 =
        callbacks E [(EvHeaders i, 0, 0), (EvComplete, n, 0)] fin s2"
      "np_msg s2 = Some m2" "plain_headers (headers m2)" "np_url s2 = np_url s1" "payloadReceived s2 = payloadReceived s1" "received s2 = received s1"
    using callbacks_headers [OF hs, of s1 "m\<lparr>msgPhase := hmpStarted\<rparr>" E "[(EvHeaders i, 0, 0), (EvComplete, n, 0)]" fin] s
    by (auto simp: s1_def onParser_Url_def plain_headers_def)
  have url: "np_url s1 = np_url s @ u" by (simp add: s1_def onParser_Url_def)
  have "find_first_of ''?&'' (np_url s @ u) 0 = None" and "find_char CHR '':'' (np_url s @ u) 0 = None"
    using plain by (auto simp: find_first_of_None in_set_conv_nth simp del: set_append)
  then have chop: "chopURI (np_url s2) = Inr ([], - 1, np_url s @ u, [])"
    using s2(4) url by (simp add: chopURI_def)
  have ok: "HTTP_SUCC scOK" by (simp add: HTTP_SUCC_def scOK_def)
  define m3 where "m3 = take_info i (m2\<lparr>msgPhase := hmpBody\<rparr>)\<lparr>msgUri := np_url s @ u, msgQstr := []\<rparr>"
  have "onParser_HeadersCompleted E i (m2\<lparr>msgPhase := hmpBody\<rparr>) s2 = Inr (s2\<lparr>np_msg := Some m3\<rparr>, 0)"
    using i E s2(3) ok by (simp add: onParser_HeadersCompleted_def chop scan_plain m3_def)
  moreover have "decode_body (m3\<lparr>msgPhase := hmpCompleted\<rparr>) (s2\<lparr>np_msg := Some m3\<rparr>) = Inr ([], scOK)"
    using s2(5) s(4) by (simp add: decode_body_def m3_def s1_def onParser_Url_def split: http_encoding.splits)
  ultimately have "callbacks E [(EvHeaders i, 0, 0), (EvComplete, n, 0)] fin s2 =
      Inr (s2\<lparr>np_msg := None, received := received s2 @ [m3\<lparr>msgPhase := hmpCompleted, msgQstr := []\<rparr>]\<rparr>, n, 0)"
    using s2(2) ok by (simp add: onParser_MessageComplete_def)
  then show ?thesis
    using s2 s url by (simp add: request_events_def s1_def onParser_Url_def m3_def)
qed


lemma parse_request:
  assumes lib: "lib_execute L (lib_init L) d = (p', request_events u hs i (length d), fin)"
    and hs: "plain_headers hs" and i: "p_errno i = 0" and E: "\<forall>m. re_on_headers E m \<noteq> 0"
    and s: "np_msg s = None" "payloadReceived s = []"
    and plain: "set (np_url s @ u) \<inter> {CHR ''?'', CHR ''&'', CHR '':''} = {}"
  shows "\<exists>s' m'. np_parse L descr E p d s = Some (Inr (p', s')) \<and> np_msg s' = None \<and> payloadReceived s' = [] \<and>
     received s' = received s @ [m'] \<and> msgUri m' = np_url s @ u \<and> np_url s' = np_url s @ u"
proof -
  have "\<exists>m. np_msg (np_reset E s) = Some m \<and> headers m = []"
    by (simp add: np_reset_def new_message_def)
  then obtain m where "np_msg (np_reset E s) = Some m" "headers m = []" by blast
  then obtain s' m' where "callbacks E (request_events u hs i (length d)) fin (np_reset E s) = Inr (s', length d, 0)"
      "np_msg s' = None" "received s' = received s @ [m']" "msgUri m' = np_url s @ u" "np_url s' = np_url s @ u" "payloadReceived s' = []"
    using request_callbacks [OF hs i E, of "np_reset E s" m u "length d" fin] s plain by (auto simp: np_reset_def)
  then show ?thesis
    using lib s(1) by (subst np_parse.simps) (auto simp: needs_reset_def)
qed

text \<open>
  The URL is not cleared between the messages of a connection: the second request of a client is served under the
  URLs of both requests, one behind the other.
\<close>

theorem second_request_gets_both_urls:
  assumes "lib_execute L (lib_init L) d1 = (p1, request_events u1 hs1 i1 (length d1), fin1)"
    and "lib_execute L (lib_init L) d2 = (p2, request_events u2 hs2 i2 (length d2), fin2)"
    and "plain_headers hs1" and "plain_headers hs2" and "p_errno i1 = 0" and "p_errno i2 = 0" and "\<forall>m. re_on_headers E m \<noteq> 0"
    and "set (u1 @ u2) \<inter> {CHR ''?'', CHR ''&'', CHR '':''} = {}"
  shows "\<exists>s1 s2 m1 m2. np_parse L descr E p d1 recv_new = Some (Inr (p1, s1)) \<and> np_parse L descr E p1 d2 s1 = Some (Inr (p2, s2)) \<and>
     received s2 = [m1, m2] \<and> msgUri m1 = u1 \<and> msgUri m2 = u1 @ u2"
proof -
  have "set u1 \<inter> {CHR ''?'', CHR ''&'', CHR '':''} = {}" using assms(8) by auto
  then obtain s1 m1 where s1: "np_parse L descr E p d1 recv_new = Some (Inr (p1, s1))" "np_msg s1 = None" "payloadReceived s1 = []"
      "received s1 = [m1]" "msgUri m1 = u1" "np_url s1 = u1"
    using parse_request [OF assms(1,3,5,7), of recv_new descr p] by (auto simp: recv_new_def)
  then show ?thesis
    using parse_request [OF assms(2,4,6,7) s1(2,3), of descr p1] assms(8) by auto
qed

definition demo_info :: parser_info where
  "demo_info = \<lparr>p_content_length = 0, p_flags = 2, p_status = 0, p_method = GET, p_major = 1, p_minor = 1, p_errno = 0\<rparr>"

text \<open>A parser that takes its whole input for the URL of a request.\<close>

definition demo_lib :: "unit parser_lib" where
  "demo_lib = \<lparr>lib_init = (), lib_execute = (\<lambda>_ d. ((), request_events d [(''Host'', ''h'')] demo_info (length d), (length d, 0)))\<rparr>"

definition demo_env :: recv_env where
  "demo_env = \<lparr>re_passive = True, re_ident = ''c1'', re_found = heNone, re_on_headers = (\<lambda>_. errAsyncInProgress)\<rparr>"

theorem second_request_gets_both_urls_witness:
  "\<exists>s1 s2 m1 m2. np_parse demo_lib (\<lambda>_. []) demo_env () ''/a'' recv_new = Some (Inr ((), s1)) \<and>
     np_parse demo_lib (\<lambda>_. []) demo_env () ''/b'' s1 = Some (Inr ((), s2)) \<and>
     received s2 = [m1, m2] \<and> msgUri m1 = ''/a'' \<and> msgUri m2 = ''/a/b''"
  using second_request_gets_both_urls [of demo_lib "''/a''" "()" "''/a''" "[(''Host'', ''h'')]" demo_info "(2, 0)"
      "''/b''" "()" "''/b''" "[(''Host'', ''h'')]" demo_info "(2, 0)" demo_env "\<lambda>_. []" "()"]
  by (simp add: demo_lib_def demo_env_def demo_info_def plain_headers_def c_str_def errAsyncInProgress_def)

subsection \<open>Pieces and pipelines\<close>

text \<open>A header value that arrives in two pieces is stored without the second.\<close>

lemma header_value_cut:
  assumes "np_msg s = Some m" and "headerName s = []" and "a \<noteq> []"
  shows "\<exists>s' m'. callbacks E [(EvField k, 0, 0), (EvValue a, 0, 0), (EvValue b, 0, 0)] fin s = Inr (s', fin) \<and>
     np_msg s' = Some m' \<and> get_header k m' = a"
  using assms by (simp add: onParser_HeaderField_def onParser_HeaderValue_def get_header_def set_header_def std_simps)

text \<open>When more bytes follow a complete message, \<open>parse\<close> goes on to a message that is NULL by then.\<close>

lemma pipelined_request_fails:
  assumes "lib_execute L (lib_init L) d = (p', request_events u hs i n, fin)" and "n < length d"
    and "plain_headers hs" and "p_errno i = 0" and "\<forall>m. re_on_headers E m \<noteq> 0"
    and "np_msg s = None" and "payloadReceived s = []" and "set (np_url s @ u) \<inter> {CHR ''?'', CHR ''&'', CHR '':''} = {}"
  shows "np_parse L descr E p d s = Some (Inl No_message)"
proof -
  have "\<exists>m. np_msg (np_reset E s) = Some m \<and> headers m = []"
    by (simp add: np_reset_def new_message_def)
  then obtain m where "np_msg (np_reset E s) = Some m" "headers m = []" by blast
  then obtain s' where "callbacks E (request_events u hs i n) fin (np_reset E s) = Inr (s', n, 0)" "np_msg s' = None"
    using request_callbacks [OF assms(3,4,5), of "np_reset E s" m u n fin] assms(7,8) by (auto simp: np_reset_def)
  then show ?thesis
    using assms(1,2,6) by (subst np_parse.simps) (auto simp: needs_reset_def)
qed

end
