(* ===== verification/Http_Server.thy ===== *)
theory Http_Server
  imports Http_Send "HOL-Library.Signed_Division"
begin

text \<open>
  HttpServer.h and HttpServer.cpp (eloop/Http/LibHttp): the table of mounted applications, responses, the passive
  connection that serves requests, and the statistics. Regular expressions, applications and handlers are parameters; the
  date text and the time are arguments.
\<close>

subsection \<open>Mounted applications\<close>

record 'a mount_dir =
  uriEx :: string
  md_app :: "'a option"
  md_props :: "(string \<times> string) list"

type_synonym 'a vsites = "(string \<times> 'a mount_dir list) list"

definition DEFAULT_SITE :: string where
  "DEFAULT_SITE = ''.''"

definition site_name :: "string option \<Rightarrow> string" where
  "site_name v = (case v of None \<Rightarrow> DEFAULT_SITE | Some s \<Rightarrow> if c_str s = [] then DEFAULT_SITE else c_str s)"

definition mount :: "string \<Rightarrow> 'a option \<Rightarrow> (string \<times> string) list \<Rightarrow> string option \<Rightarrow> 'a vsites \<Rightarrow> 'a vsites \<times> bool" where
  "mount ex app props v sites =
     (let site = site_name v;
          dirs = (case map_of sites site of None \<Rightarrow> [] | Some ds \<Rightarrow> ds)
      in (smap_set site (dirs @ [\<lparr>uriEx = ex, md_app = app, md_props = props\<rparr>]) sites, True))"

definition unmount :: "string \<Rightarrow> string option \<Rightarrow> 'a vsites \<Rightarrow> 'a vsites \<times> bool" where
  "unmount ex v sites =
     (case map_of sites (site_name v) of
        None \<Rightarrow> (sites, False)
      | Some ds \<Rightarrow> (smap_set (site_name v) (filter (\<lambda>d. uriEx d \<noteq> ex) ds) sites, \<exists>d \<in> set ds. uriEx d = ex))"

text \<open>The outer \<open>None\<close>: neither the site nor the default site exists, and the code reads behind the end of the map.
  \<open>matches\<close> is \<open>None\<close> for an expression that does not compile.\<close>

definition createHandler ::
  "(string \<Rightarrow> string \<Rightarrow> bool option) \<Rightarrow> 'a vsites \<Rightarrow> http_message \<Rightarrow> string \<Rightarrow> ('a \<times> (string \<times> string) list) option option" where
  "createHandler matches sites req site =
     (let u = msg_uri req; uri = (case find_first_of ''?#'' u 0 of None \<Rightarrow> u | Some p \<Rightarrow> take p u)
      in case (case map_of sites site of None \<Rightarrow> map_of sites DEFAULT_SITE | Some ds \<Rightarrow> Some ds) of
           None \<Rightarrow> None
         | Some ds \<Rightarrow>
             Some (case List.find (\<lambda>d. matches (uriEx d) uri = Some True) ds of
                     None \<Rightarrow> None
                   | Some d \<Rightarrow> map_option (\<lambda>a. (a, md_props d)) (md_app d)))"

subsection \<open>Responses\<close>

record response =
  resp_msg :: http_message
  stampPosted :: int
  resp_txnId :: string
  bodyBytesPushed :: int

definition Header_RequestId :: string where
  "Header_RequestId = ''X-Request-ID''"

definition new_response :: "(http_method \<Rightarrow> string) \<Rightarrow> http_encoding \<Rightarrow> http_message \<Rightarrow> response" where
  "new_response name found req =
     (let m = new_message found MSG_RESPONSE (connId req);
          t = get_header Header_RequestId req;
          made = take 97 (name (msgMethod req) @ ''@'' @ c_str (connId req))
      in if t \<noteq> [] then \<lparr>resp_msg = m, stampPosted = 0, resp_txnId = t, bodyBytesPushed = 0\<rparr>
         else \<lparr>resp_msg = set_header Header_RequestId made m, stampPosted = 0, resp_txnId = made, bodyBytesPushed = 0\<rparr>)"

definition setResponseError :: "int \<Rightarrow> string option \<Rightarrow> http_message \<Rightarrow> http_message \<times> int" where
  "setResponseError code warning m =
     (let m1 = m\<lparr>statusCode := code\<rparr>
      in (case warning of None \<Rightarrow> eraseHeader ''Warning'' m1 | Some w \<Rightarrow> set_header ''Warning'' w m1, code))"

definition declareContentLength :: "int \<Rightarrow> string option \<Rightarrow> bool \<Rightarrow> response \<Rightarrow> response \<times> int" where
  "declareContentLength len ctype chunk r =
     (let m1 = resp_msg r\<lparr>declaredBodyLength := len\<rparr>;
          m2 = (case ctype of None \<Rightarrow> m1 | Some t \<Rightarrow> set_header ''Content-Type'' t m1);
          m3 = (if chunk then set_header ''Transfer-Encoding'' ''chunked'' (m2\<lparr>declaredBodyLength := 0, msgFlags := msgFlags m2 OR F_CHUNKED\<rparr>)
                else m2)
      in (r\<lparr>resp_msg := m3\<rparr>, declaredBodyLength m3))"

text \<open>The lengths are compared unsigned.\<close>

definition body_ends :: "response \<Rightarrow> nat \<Rightarrow> bool" where
  "body_ends r len \<longleftrightarrow>
     \<not> chunked (resp_msg r) \<and> (word_of_int (bodyBytesPushed r) + of_nat len :: uint64) \<ge> word_of_int (contentLength (resp_msg r))"

text \<open>\<open>post\<close>: the connection takes the message over; \<open>None\<close> for the connection when it is closed already.\<close>

definition resp_post :: "(http_method \<Rightarrow> string) \<Rightarrow> int \<Rightarrow> string \<Rightarrow> int \<Rightarrow> string \<Rightarrow> response \<Rightarrow> http_conn option
    \<Rightarrow> send_error + (response \<times> http_conn option \<times> int)" where
  "resp_post name now date status body r c =
     (if stampPosted r \<noteq> 0 then Inr (r, c, scInternalServerError)
      else (let r1 = r\<lparr>stampPosted := now\<rparr>
            in case c of
                 None \<Rightarrow> Inr (r1, None, scInternalServerError)
               | Some conn \<Rightarrow>
                   (let m = (set_header ''Date'' date (resp_msg r1))\<lparr>statusCode := (if HTTP_STATUSCODE status then status else scInternalServerError)\<rparr>;
                        (conn1, pushed) =
                          (if body \<noteq> [] then (fst (pushOutgoingPayload body (body_ends r1 (length body)) conn), length body) else (conn, 0));
                        r2 = r1\<lparr>resp_msg := m, bodyBytesPushed := bodyBytesPushed r1 + int pushed\<rparr>
                    in (case sendMessage name m conn1 of
                          Inl e \<Rightarrow> Inl e
                        | Inr (conn2, ret) \<Rightarrow> Inr (r2, Some conn2, ret)))))"

definition pushBody :: "string \<Rightarrow> bool \<Rightarrow> response \<Rightarrow> http_conn option \<Rightarrow> http_conn option \<times> int" where
  "pushBody data chunkedEnd r c =
     (if data = [] then (c, scBadRequest)
      else (case c of
              None \<Rightarrow> (None, scInternalServerError)
            | Some conn \<Rightarrow>
                (let e = (if body_ends r (length data) then True else chunkedEnd)
                 in (Some (fst (pushOutgoingPayload data e conn)), if e then scOK else scPartialContent))))"

subsection \<open>The passive connection\<close>

record 'a passive_conn =
  pc_conn :: http_conn
  pc_handler :: "('a \<times> (string \<times> string) list) option"
  pc_keepAlive :: bool
  pc_idleTimeout :: int
  pc_stampSent :: int
  pc_stampRecv :: int

record 'a server_env =
  sv_name :: "http_method \<Rightarrow> string"
  sv_server :: string
  sv_found :: http_encoding
  sv_matches :: "string \<Rightarrow> string \<Rightarrow> bool option"
  sv_sites :: "'a vsites"
  sv_on_request :: "'a \<times> (string \<times> string) list \<Rightarrow> int"
  sv_watchDog :: int

definition no_handler_text :: string where
  "no_handler_text = ''no associated handler''"

datatype serve_error = Send_failed send_error | No_site

definition posted :: "'a passive_conn \<Rightarrow> send_error + (response \<times> http_conn option \<times> int) \<Rightarrow> serve_error + ('a passive_conn \<times> int)" where
  "posted s r =
     (case r of
        Inl e \<Rightarrow> Inl (Send_failed e)
      | Inr (_, None, ret) \<Rightarrow> Inr (s, ret)
      | Inr (_, Some c, ret) \<Rightarrow> Inr (s\<lparr>pc_conn := c\<rparr>, ret))"

definition OnHeadersReceived ::
  "'a server_env \<Rightarrow> int \<Rightarrow> string \<Rightarrow> http_message \<Rightarrow> 'a passive_conn \<Rightarrow> serve_error + ('a passive_conn \<times> int)" where
  "OnHeadersReceived E now date req s =
     (let r0 = new_response (sv_name E) (sv_found E) req;
          r = r0\<lparr>resp_msg := set_header ''Server'' (sv_server E) (resp_msg r0\<lparr>statusCode := scInternalServerError\<rparr>)\<rparr>
      in if httpVMajor req \<noteq> 1 \<and> httpVMinor req > 1
         then posted s (resp_post (sv_name E) now date scHTTPVersionNotSupported [] r (Some (pc_conn s)))
         else (case createHandler (sv_matches E) (sv_sites E) req DEFAULT_SITE of
                 None \<Rightarrow> Inl No_site
               | Some None \<Rightarrow>
                   posted (s\<lparr>pc_handler := None\<rparr>) (resp_post (sv_name E) now date scNotFound no_handler_text r (Some (pc_conn s)))
               | Some (Some h) \<Rightarrow>
                   (let status = sv_on_request E h; s1 = s\<lparr>pc_handler := Some h, pc_keepAlive := keepAlive req\<rparr>
                    in if status = errAsyncInProgress then Inr (s1, errAsyncInProgress)
                       else posted (s1\<lparr>pc_handler := None\<rparr>) (resp_post (sv_name E) now date status [] r (Some (pc_conn s))))))"

definition pc_keeps_alive :: "'a passive_conn \<Rightarrow> bool" where
  "pc_keeps_alive s \<longleftrightarrow> pc_keepAlive s \<and> pc_idleTimeout s > 0"

text \<open>Whether the timer disconnects; the idle time is narrowed to an \<open>int\<close>.\<close>

definition pc_OnTimer :: "'a server_env \<Rightarrow> int \<Rightarrow> 'a passive_conn \<Rightarrow> bool" where
  "pc_OnTimer E now s =
     (if \<not> pc_keepAlive s then outMsg (pc_conn s) = None \<and> pc_stampSent s > 0 \<and> now - pc_stampSent s > sv_watchDog E
      else pc_idleTimeout s > 0 \<and> sint (word_of_int (now - max (pc_stampSent s) (pc_stampRecv s)) :: 32 word) > pc_idleTimeout s)"

subsection \<open>Statistics\<close>

datatype resp_code = RESP_OTHER | RESP_2XX | RESP_400 | RESP_403 | RESP_404 | RESP_405 | RESP_500 | RESP_501 | RESP_503
datatype stat_method = METHOD_UNKNOWN | METHOD_GET | METHOD_POST | METHOD_PUT | METHOD_DELETE

record counters =
  respCount :: "resp_code \<Rightarrow> int"
  totalCount :: int
  maxLatencyInMs_Header :: int
  avgLatencyInMs_Header :: int
  subtotalLatencyInMs_Header :: int
  maxLatencyInMs_Body :: int
  avgLatencyInMs_Body :: int
  subtotalLatencyInMs_Body :: int

definition counters0 :: counters where
  "counters0 = \<lparr>respCount = (\<lambda>_. 0), totalCount = 0, maxLatencyInMs_Header = 0, avgLatencyInMs_Header = 0, subtotalLatencyInMs_Header = 0,
     maxLatencyInMs_Body = 0, avgLatencyInMs_Body = 0, subtotalLatencyInMs_Body = 0\<rparr>"

definition stats_reset :: "stat_method \<Rightarrow> counters" where
  "stats_reset = (\<lambda>_. counters0)"

definition errCodeToRespCode :: "int \<Rightarrow> resp_code" where
  "errCodeToRespCode e =
     (if e sdiv 100 = 2 then RESP_2XX
      else case map_of [(400, RESP_400), (403, RESP_403), (404, RESP_404), (405, RESP_405), (500, RESP_500), (501, RESP_501), (503, RESP_503)] e of
             None \<Rightarrow> RESP_OTHER | Some c \<Rightarrow> c)"

fun stat_of :: "http_method \<Rightarrow> stat_method" where
  "stat_of GET = METHOD_GET" | "stat_of POST = METHOD_POST" | "stat_of PUT = METHOD_PUT"
| "stat_of HTTPDELETE = METHOD_DELETE" | "stat_of OPTIONS = METHOD_UNKNOWN"

fun nameOfMethod :: "stat_method \<Rightarrow> string" where
  "nameOfMethod METHOD_GET = ''GET''" | "nameOfMethod METHOD_POST = ''POST''" | "nameOfMethod METHOD_PUT = ''PUT''"
| "nameOfMethod METHOD_DELETE = ''DELETE''" | "nameOfMethod METHOD_UNKNOWN = ''UNKOWN''"

definition count_one :: "int \<Rightarrow> int \<Rightarrow> int \<Rightarrow> counters \<Rightarrow> counters" where
  "count_one e hdr body c =
     (let total = totalCount c + 1; rc = errCodeToRespCode e; sh = subtotalLatencyInMs_Header c + hdr; sb = subtotalLatencyInMs_Body c + body
      in \<lparr>respCount = (respCount c)(rc := respCount c rc + 1), totalCount = total,
          maxLatencyInMs_Header = max (maxLatencyInMs_Header c) hdr, avgLatencyInMs_Header = (if total = 0 then 0 else sh sdiv total),
          subtotalLatencyInMs_Header = sh, maxLatencyInMs_Body = max (maxLatencyInMs_Body c) body,
          avgLatencyInMs_Body = (if total = 0 then 0 else sb sdiv total), subtotalLatencyInMs_Body = sb\<rparr>)"

definition addCounter :: "http_method \<Rightarrow> int \<Rightarrow> int \<Rightarrow> int \<Rightarrow> (stat_method \<Rightarrow> counters) \<Rightarrow> stat_method \<Rightarrow> counters" where
  "addCounter mtd e hdr body st = st(stat_of mtd := count_one e hdr body (st (stat_of mtd)))"

subsection \<open>Mounting\<close>

lemma createHandler_unfold:
  "map_of sites DEFAULT_SITE = Some ds \<Longrightarrow>
   createHandler matches sites req DEFAULT_SITE =
     Some (case List.find (\<lambda>d. matches (uriEx d) (case find_first_of ''?#'' (msg_uri req) 0 of None \<Rightarrow> msg_uri req | Some p \<Rightarrow> take p (msg_uri req)) = Some True) ds of
             None \<Rightarrow> None | Some d \<Rightarrow> map_option (\<lambda>a. (a, md_props d)) (md_app d))"
  by (simp add: createHandler_def Let_def)

lemma find_snoc: "List.find P (xs @ [x]) = (case List.find P xs of None \<Rightarrow> if P x then Some x else None | Some y \<Rightarrow> Some y)"
  by (induction xs) auto

text \<open>A later mount never takes a request from an earlier one, so a mount that an earlier expression covers is never reached.\<close>

lemma mount_keeps_earlier:
  assumes "createHandler matches sites req DEFAULT_SITE = Some (Some h)"
  shows "createHandler matches (fst (mount ex app props None sites)) req DEFAULT_SITE = Some (Some h)"
proof -
  obtain ds where ds: "map_of sites DEFAULT_SITE = Some ds"
    using assms by (cases "map_of sites DEFAULT_SITE") (auto simp: createHandler_def Let_def)
  then have "map_of (fst (mount ex app props None sites)) DEFAULT_SITE = Some (ds @ [\<lparr>uriEx = ex, md_app = app, md_props = props\<rparr>])"
    by (simp add: mount_def site_name_def Let_def std_simps)
  then show ?thesis
    using assms by (auto simp: createHandler_unfold [OF ds] createHandler_unfold find_snoc split: option.splits)
qed

subsection \<open>A body that was not declared\<close>

lemma declared_zero_ends: "contentLength (resp_msg r) = 0 \<Longrightarrow> \<not> chunked (resp_msg r) \<Longrightarrow> body_ends r n"
  by (simp add: body_ends_def)

definition posted_msg :: "string \<Rightarrow> int \<Rightarrow> response \<Rightarrow> http_message" where
  "posted_msg date status r =
     (set_header ''Date'' date (resp_msg r))\<lparr>statusCode := (if HTTP_STATUSCODE status then status else scInternalServerError)\<rparr>"

lemma set_header_fields [simp]:
  "msgPhase (set_header k v m) = msgPhase m" "msgFlags (set_header k v m) = msgFlags m" "chunked (set_header k v m) = chunked m" "contentLength (set_header k v m) = contentLength m"
  "declaredBodyLength (set_header k v m) = declaredBodyLength m" "hasContentBody (set_header k v m) = hasContentBody m"
  by (simp_all add: set_header_def chunked_def contentLength_def hasContentBody_def)

lemma posted_msg_fields [simp]:
  "msgPhase (posted_msg date st r) = msgPhase (resp_msg r)" "chunked (posted_msg date st r) = chunked (resp_msg r)"
  "declaredBodyLength (posted_msg date st r) = declaredBodyLength (resp_msg r)" "contentLength (posted_msg date st r) = contentLength (resp_msg r)"
  "hasContentBody (posted_msg date st r) = hasContentBody (resp_msg r)"
  "statusCode (posted_msg date st r) = (if HTTP_STATUSCODE st then st else scInternalServerError)"
  by (simp_all add: posted_msg_def chunked_def contentLength_def hasContentBody_def set_header_def)

lemma resp_post_sends:
  assumes "stampPosted r = 0" and "outMsg c = None" and "msgPhase (resp_msg r) = hmpNil"
  shows "\<exists>r'. resp_post name now date st body r (Some c) =
     Inr (r', Some (announced name (posted_msg date st r) (fst (pushOutgoingPayload body (body_ends r (length body)) c))), statusCode (posted_msg date st r))"
proof -
  have o: "outMsg (fst (pushOutgoingPayload body b c)) = None" for b
    using assms(2) by (simp add: pushOutgoingPayload_def)
  have e: "body_ends (r\<lparr>stampPosted := now\<rparr>) n = body_ends r n" for n
    by (simp add: body_ends_def)
  have n: "fst (pushOutgoingPayload [] b c) = c" for b by (simp add: pushOutgoingPayload_def)
  have m: "msgPhase (posted_msg date st r) \<in> {hmpNil, hmpStarted}" using assms(3) by simp
  show ?thesis
    using sendMessage_announces [OF o m, of name] sendMessage_announces [OF assms(2) m, of name] assms(1)
    by (cases "body = []") (simp_all add: resp_post_def e n Let_def posted_msg_def n)
qed

text \<open>After a body on a message that declares none, the text stays queued behind a closed gate.\<close>

lemma undeclared_body_stays:
  assumes "stampPosted r = 0" "msgPhase (resp_msg r) = hmpNil" "\<not> chunked (resp_msg r)" "declaredBodyLength (resp_msg r) = 0"
    and "outMsg c = None" "active c" "outOpen c" "body \<noteq> []"
  shows "\<exists>r' c1 c2 st'. resp_post name now date st body r (Some c) = Inr (r', Some c1, st') \<and> OnWrote name c1 = Some c2 \<and>
     wire c2 = wire c @ announcement name (posted_msg date st r) \<and> payloadOut c2 = payloadOut c @ [body] \<and> \<not> outOpen c2 \<and>
     outMsg c2 = None \<and> active c2"
proof -
  let ?m = "posted_msg date st r"
  let ?c0 = "c\<lparr>payloadOut := payloadOut c @ [body], outOpen := False\<rparr>"
  let ?c1 = "announced name ?m ?c0"
  have l0: "contentLength (resp_msg r) = 0" using assms(3,4) by (simp add: contentLength_def)
  have p: "fst (pushOutgoingPayload body (body_ends r (length body)) c) = ?c0"
    using assms(7,8) declared_zero_ends [OF l0 assms(3)] by (simp add: pushOutgoingPayload_def)
  obtain r' where r': "resp_post name now date st body r (Some c) = Inr (r', Some ?c1, statusCode ?m)"
    using resp_post_sends [OF assms(1) assms(5) assms(2), of name now date st body] unfolding p by blast
  have nb: "\<not> hasContentBody (settle_headers ?m)" using assms(3) l0 by (simp add: hasContentBody_def)
  let ?m1 = "(settle_headers ?m)\<lparr>msgPhase := hmpCompleted\<rparr>"
  have ph: "send_phase name ?c1 0 0 = (set_phase hmpCompleted (settle_headers ?m\<lparr>msgPhase := hmpHeaders\<rparr>) ?c1, 0, 0, None, True)"
    using nb by (simp add: send_phase_def)
  have "send_loop name ?c1 0 0 = Some ((set_phase hmpCompleted (settle_headers ?m\<lparr>msgPhase := hmpHeaders\<rparr>) ?c1)\<lparr>outMsg := None\<rparr>, 0, Some ?m1)"
    by (subst send_loop.simps) (simp add: ph send_loop_completed)
  then have w: "OnWrote name ?c1 = Some ((set_phase hmpCompleted (settle_headers ?m\<lparr>msgPhase := hmpHeaders\<rparr>) ?c1)
      \<lparr>outMsg := None, submitted := submitted c @ [?m1]\<rparr>)"
    by (simp add: OnWrote_def sendByPhase_def)
  show ?thesis
    by (intro exI conjI, rule r', rule w) (simp_all add: assms(6) wire_announced)
qed

text \<open>A message whose own body is refused takes its body from what is queued.\<close>

lemma refused_body_replaced:
  assumes "stampPosted r = 0" "msgPhase (resp_msg r) = hmpNil" "\<not> chunked (resp_msg r)"
    and "0 < declaredBodyLength (resp_msg r)" "outMsg c = None" "active c" "\<not> outOpen c"
  shows "\<exists>r' c1 st'. resp_post name now date st body r (Some c) = Inr (r', Some c1, st') \<and>
     (if declaredBodyLength (resp_msg r) \<le> payload_size (payloadOut c)
      then \<exists>c2. OnWrote name c1 = Some c2 \<and> wire c2 = wire c @ announcement name (posted_msg date st r) @ concat (payloadOut c)
      else OnWrote name c1 = None)"
proof -
  let ?m = "posted_msg date st r"
  have p: "fst (pushOutgoingPayload body b c) = c" for b using assms(7) by (simp add: pushOutgoingPayload_def)
  obtain r' where r': "resp_post name now date st body r (Some c) = Inr (r', Some (announced name ?m c), statusCode ?m)"
    using resp_post_sends [OF assms(1) assms(5) assms(2), of name now date st body] unfolding p by blast
  have ph: "msgPhase ?m \<in> {hmpNil, hmpStarted}" using assms(2) by simp
  have "if declaredBodyLength (resp_msg r) \<le> payload_size (payloadOut c)
      then \<exists>c2. OnWrote name (announced name ?m c) = Some c2 \<and> wire c2 = wire c @ announcement name ?m @ concat (payloadOut c)
      else OnWrote name (announced name ?m c) = None"
  proof (cases "declaredBodyLength (resp_msg r) \<le> payload_size (payloadOut c)")
    case True
    then show ?thesis
      using queued_body_goes_out [of c ?m name] sendMessage_announces [OF assms(5) ph, of name] assms by auto
  next
    case False
    then have "body_missing (announced name ?m c) 0"
      using assms by (simp add: body_missing_def hasContentBody_def contentLength_def)
    then show ?thesis
      using False missing_never_ends [of "announced name ?m c" 0 0 name] by (simp add: OnWrote_def sendByPhase_def)
  qed
  with r' show ?thesis by blast
qed

lemma new_response_fields [simp]:
  "stampPosted (new_response name found req) = 0" "msgPhase (resp_msg (new_response name found req)) = hmpNil"
  "msgFlags (resp_msg (new_response name found req)) = 0" "declaredBodyLength (resp_msg (new_response name found req)) = 0"
  by (simp_all add: new_response_def new_message_def set_header_def Let_def)

lemma no_handler_text_size [simp]: "payload_size [no_handler_text] = 21" "no_handler_text \<noteq> []"
  by (simp_all add: payload_size_def no_handler_text_def)

lemma OnHeadersReceived_not_found:
  assumes "createHandler (sv_matches E) (sv_sites E) req DEFAULT_SITE = Some None" and "httpVMajor req = 1"
    and "outMsg (pc_conn s) = None" "active (pc_conn s)" "outOpen (pc_conn s)"
  shows "\<exists>s1 st c1 m. OnHeadersReceived E now date req s = Inr (s1, st) \<and> OnWrote (sv_name E) (pc_conn s1) = Some c1 \<and>
     wire c1 = wire (pc_conn s) @ announcement (sv_name E) m \<and> statusCode m = scNotFound \<and>
     payloadOut c1 = payloadOut (pc_conn s) @ [no_handler_text] \<and> \<not> outOpen c1 \<and> outMsg c1 = None \<and> active c1"
proof -
  define r where "r = (let r0 = new_response (sv_name E) (sv_found E) req
    in r0\<lparr>resp_msg := set_header ''Server'' (sv_server E) (resp_msg r0\<lparr>statusCode := scInternalServerError\<rparr>)\<rparr>)"
  have r: "stampPosted r = 0" "msgPhase (resp_msg r) = hmpNil" "\<not> chunked (resp_msg r)" "declaredBodyLength (resp_msg r) = 0"
    by (simp_all add: r_def Let_def chunked_def)
  obtain r' c1 c2 st where *: "resp_post (sv_name E) now date scNotFound no_handler_text r (Some (pc_conn s)) = Inr (r', Some c1, st)"
      "OnWrote (sv_name E) c1 = Some c2" "wire c2 = wire (pc_conn s) @ announcement (sv_name E) (posted_msg date scNotFound r)"
      "payloadOut c2 = payloadOut (pc_conn s) @ [no_handler_text]" "\<not> outOpen c2" "outMsg c2 = None" "active c2"
    using undeclared_body_stays [OF r assms(3-5) no_handler_text_size(2), of "sv_name E" now date scNotFound] by blast
  have "OnHeadersReceived E now date req s = Inr (s\<lparr>pc_handler := None, pc_conn := c1\<rparr>, st)"
    using assms(1,2) *(1) by (simp add: OnHeadersReceived_def posted_def r_def Let_def)
  moreover have "statusCode (posted_msg date scNotFound r) = scNotFound"
    by (simp add: HTTP_STATUSCODE_def scNotFound_def)
  ultimately show ?thesis using *(2-)
    by (intro exI [of _ "s\<lparr>pc_handler := None, pc_conn := c1\<rparr>"] exI [of _ st] exI [of _ c2] exI [of _ "posted_msg date scNotFound r"])
       simp
qed

text \<open>
  A request without a handler is answered with 404, but its text is queued without being declared: it stays behind, and
  the next answer on the connection goes out with this text as its body in place of its own, or, when it declares more than
  the 21 bytes of the text, its sending never returns.
\<close>

theorem not_found_text_answers_next_request:
  assumes "createHandler (sv_matches E) (sv_sites E) req DEFAULT_SITE = Some None" and "httpVMajor req = 1"
    and "outMsg (pc_conn s) = None" "active (pc_conn s)" "outOpen (pc_conn s)" "payloadOut (pc_conn s) = []"
    and "stampPosted r = 0" "msgPhase (resp_msg r) = hmpNil" "\<not> chunked (resp_msg r)" "0 < declaredBodyLength (resp_msg r)"
  shows "\<exists>s1 st1 c1 r' c2 st2. OnHeadersReceived E now date req s = Inr (s1, st1) \<and> OnWrote (sv_name E) (pc_conn s1) = Some c1 \<and>
     resp_post (sv_name E) now' date' status body r (Some c1) = Inr (r', Some c2, st2) \<and>
     (if declaredBodyLength (resp_msg r) \<le> 21
      then \<exists>c3. OnWrote (sv_name E) c2 = Some c3 \<and>
             wire c3 = wire c1 @ announcement (sv_name E) (posted_msg date' status r) @ no_handler_text
      else OnWrote (sv_name E) c2 = None)"
proof -
  obtain s1 st1 c1 where 1: "OnHeadersReceived E now date req s = Inr (s1, st1)" "OnWrote (sv_name E) (pc_conn s1) = Some c1"
      "payloadOut c1 = [no_handler_text]" "\<not> outOpen c1" "outMsg c1 = None" "active c1"
    using OnHeadersReceived_not_found [OF assms(1-5), of now date] assms(6) by auto
  obtain r' c2 st2 where 2: "resp_post (sv_name E) now' date' status body r (Some c1) = Inr (r', Some c2, st2)"
      "if declaredBodyLength (resp_msg r) \<le> payload_size (payloadOut c1)
       then \<exists>c3. OnWrote (sv_name E) c2 = Some c3 \<and>
         wire c3 = wire c1 @ announcement (sv_name E) (posted_msg date' status r) @ concat (payloadOut c1)
       else OnWrote (sv_name E) c2 = None"
    using refused_body_replaced [OF assms(7-10) 1(5,6,4), of "sv_name E" now' date' status body] by blast
  show ?thesis
    by (intro exI conjI, rule 1(1), rule 1(2), rule 2(1)) (use 2(2) 1(3) in \<open>auto split: if_splits\<close>)
qed

definition demo_server :: "nat server_env" where
  "demo_server = \<lparr>sv_name = (\<lambda>_. ''GET''), sv_server = ''eloop'', sv_found = heNone, sv_matches = (\<lambda>e u. Some (e = u)),
     sv_sites = fst (mount ''/a'' (Some 1) [] None []), sv_on_request = (\<lambda>_. errAsyncInProgress), sv_watchDog = 1000\<rparr>"

definition demo_get :: "string \<Rightarrow> http_message" where
  "demo_get u = new_message heNone MSG_REQUEST ''c1''\<lparr>msgUri := u, msgFlags := F_CONNECTION_KEEP_ALIVE\<rparr>"

definition demo_pc :: "nat passive_conn" where
  "demo_pc = \<lparr>pc_conn = conn_new 0, pc_handler = None, pc_keepAlive = False, pc_idleTimeout = 60000, pc_stampSent = 0, pc_stampRecv = 0\<rparr>"

definition demo_answer :: response where
  "demo_answer = fst (declareContentLength 21 (Some ''text/plain'') False (new_response (\<lambda>_. ''GET'') heNone (demo_get ''/a'')))"

theorem not_found_text_answers_next_request_witness:
  "\<exists>s1 st1 c1 r' c2 st2 c3. OnHeadersReceived demo_server 5 ''today'' (demo_get ''/b'') demo_pc = Inr (s1, st1) \<and>
     OnWrote (sv_name demo_server) (pc_conn s1) = Some c1 \<and>
     resp_post (sv_name demo_server) 9 ''today'' 200 ''the answer to the 2nd'' demo_answer (Some c1) = Inr (r', Some c2, st2) \<and>
     OnWrote (sv_name demo_server) c2 = Some c3 \<and>
     wire c3 = wire c1 @ announcement (sv_name demo_server) (posted_msg ''today'' 200 demo_answer) @ no_handler_text"
proof -
  have h: "createHandler (sv_matches demo_server) (sv_sites demo_server) (demo_get ''/b'') DEFAULT_SITE = Some None" by code_simp
  have r: "stampPosted demo_answer = 0" "msgPhase (resp_msg demo_answer) = hmpNil" "\<not> chunked (resp_msg demo_answer)"
      "declaredBodyLength (resp_msg demo_answer) = 21"
    by code_simp+
  show ?thesis
    using not_found_text_answers_next_request [OF h, of demo_pc demo_answer 5 "''today''" 9 "''today''" 200 "''the answer to the 2nd''"] r
    by (simp add: demo_get_def new_message_def demo_pc_def conn_new_def)
qed

subsection \<open>Versions and statistics\<close>

text \<open>Version 2.0 is served as 1.1 is: the guard asks for both numbers to be out of range.\<close>

lemma version_two_served:
  assumes "w \<le> 1"
  shows "OnHeadersReceived E now date (req\<lparr>httpVMajor := v, httpVMinor := w\<rparr>) s =
     OnHeadersReceived E now date (req\<lparr>httpVMajor := 1, httpVMinor := 1\<rparr>) s"
proof -
  have "new_response n f (req\<lparr>httpVMajor := v, httpVMinor := w\<rparr>) = new_response n f (req\<lparr>httpVMajor := 1, httpVMinor := 1\<rparr>)" for n f
    by (simp add: new_response_def get_header_def)
  moreover have "createHandler mt st (req\<lparr>httpVMajor := v, httpVMinor := w\<rparr>) d = createHandler mt st (req\<lparr>httpVMajor := 1, httpVMinor := 1\<rparr>) d"
    for mt d and st :: "'a vsites"
    by (simp add: createHandler_def msg_uri_def)
  ultimately show ?thesis using assms by (simp add: OnHeadersReceived_def keepAlive_def Let_def split: option.split)
qed

definition resp_codes :: "resp_code list" where
  "resp_codes = [RESP_OTHER, RESP_2XX, RESP_400, RESP_403, RESP_404, RESP_405, RESP_500, RESP_501, RESP_503]"

lemma respCount_bump: "(\<Sum>a \<leftarrow> resp_codes. if a = c then (f :: resp_code \<Rightarrow> int) c + 1 else f a) = sum_list (map f resp_codes) + 1"
  by (cases c) (simp_all add: resp_codes_def)

fun served :: "(http_method \<times> int \<times> int \<times> int) list \<Rightarrow> (stat_method \<Rightarrow> counters)" where
  "served [] = stats_reset"
| "served ((m, e, h, b) # xs) = addCounter m e h b (served xs)"

definition calls_of :: "stat_method \<Rightarrow> (http_method \<times> int \<times> int \<times> int) list \<Rightarrow> (http_method \<times> int \<times> int \<times> int) list" where
  "calls_of k xs = filter (\<lambda>(m, _). stat_of m = k) xs"

text \<open>Every call is counted once under its method and once under its code; totals and averages are those of the method's calls.\<close>

lemma stats_add_up:
  "totalCount (served xs k) = int (length (calls_of k xs)) \<and>
   sum_list (map (respCount (served xs k)) resp_codes) = totalCount (served xs k) \<and>
   subtotalLatencyInMs_Header (served xs k) = (\<Sum>(m, e, h, b) \<leftarrow> calls_of k xs. h) \<and>
   subtotalLatencyInMs_Body (served xs k) = (\<Sum>(m, e, h, b) \<leftarrow> calls_of k xs. b) \<and>
   avgLatencyInMs_Header (served xs k) = subtotalLatencyInMs_Header (served xs k) sdiv totalCount (served xs k)"
proof (induction xs rule: served.induct)
  case 1
  then show ?case by (simp add: stats_reset_def counters0_def calls_of_def resp_codes_def)
next
  case (2 m e h b xs)
  then show ?case by (auto simp: addCounter_def count_one_def calls_of_def Let_def respCount_bump)
qed

end
