(* ===== verification/Http_Client.thy ===== *)
theory Http_Client
  imports Http_Send Std_Map
begin

text \<open>
  HttpClient.h and HttpClient.cpp (eloop/Http/LibHttp): requests, downloads and the user agent that drives them from its event
  loop. Requests live in a table under their connection id. The clock is a parameter that gives the reading of each call;
  binding and connecting are parameters; call-backs of the application are recorded.
\<close>

subsection \<open>Requests\<close>

text \<open>\<open>rq_stream\<close>: for a download (\<open>HttpStream\<close>) the time of its last data. \<open>rq_event\<close>: a waiting caller, and whether it was
  signalled. \<open>rq_results\<close>: the results that the call-back saw.\<close>

record http_request =
  rq_msg :: http_message
  rq_conn :: http_conn
  rq_ident :: string
  rq_txnId :: string
  rq_host :: string
  rq_port :: int
  rq_localIP :: string
  rq_localPort :: int
  rq_resp :: http_message
  rq_body :: string
  rq_cb :: bool
  rq_event :: "bool option"
  rq_stamp :: int
  rq_timeout :: int
  rq_stream :: "int option"
  rq_results :: "int list"

text \<open>The largest \<open>timeout_t\<close>, in the \<open>int32\<close> that holds it.\<close>

definition TIMEOUT_INF :: int where "TIMEOUT_INF = - 1"

definition TIMER_INTERVAL :: int where "TIMER_INTERVAL = 100"

definition encode_param :: "string \<times> string \<Rightarrow> string" where
  "encode_param p =
     (if fst p = [] then []
      else (case URLStr_encode (Some (fst p)) 510 (- 1) of
              None \<Rightarrow> []
            | Some k \<Rightarrow> (case URLStr_encode (Some (snd p)) 510 (- 1) of None \<Rightarrow> [] | Some v \<Rightarrow> ''&'' @ k @ ''='' @ v)))"

definition join_query :: "string \<Rightarrow> (string \<times> string) list \<Rightarrow> string" where
  "join_query q params =
     (let paramstr = concat (map encode_param params)
      in if paramstr = [] then q else if length q > 1 then q @ paramstr else drop 1 paramstr)"

definition set_headers :: "(string \<times> string) list \<Rightarrow> http_message \<Rightarrow> http_message" where
  "set_headers hs m = fold (\<lambda>(k, v) m. if k = [] then m else set_header k v m) hs m"

definition push_chunk :: "string \<Rightarrow> http_conn \<Rightarrow> http_conn" where
  "push_chunk d c = c\<lparr>payloadOut := payloadOut c @ [d]\<rparr>"

text \<open>\<open>found\<close> is what the members that the constructors leave uninitialised hold.\<close>

definition request_new ::
  "(http_method \<Rightarrow> string) \<Rightarrow> string \<Rightarrow> http_encoding \<times> int \<Rightarrow> string \<Rightarrow> http_method \<Rightarrow> string \<Rightarrow> string \<Rightarrow> (string \<times> string) list
     \<Rightarrow> (string \<times> string) list \<Rightarrow> url_error + http_request" where
  "request_new name agent found ident mtd url body params hdrs =
     (case chopURI url of
        Inl e \<Rightarrow> Inl e
      | Inr (host, port, uri, q) \<Rightarrow>
          (let m0 = set_header ''User-Agent'' agent (new_message (fst found) MSG_REQUEST []\<lparr>msgMethod := mtd, msgUri := uri\<rparr>);
               m1 = (if find_first_not_of ''0123456789.'' host 0 \<noteq> None then set_header ''Host'' host m0 else m0);
               qstr = join_query q params;
               c0 = conn_new (snd found);
               c1 = (if length qstr > 1 \<and> mtd = POST then push_chunk (qstr @ EOL) c0 else c0);
               c2 = (if body \<noteq> [] then push_chunk body c1 else c1)
           in Inr \<lparr>rq_msg = (set_headers hdrs m1)\<lparr>msgQstr := qstr\<rparr>, rq_conn = c2, rq_ident = ident,
                rq_txnId = take 77 (ident @ '':'' @ name mtd @ ''['') @ url @ '']'', rq_host = host, rq_port = (if port \<le> 0 then 80 else port),
                rq_localIP = ''0.0.0.0'', rq_localPort = 0, rq_resp = new_message (fst found) MSG_RESPONSE [], rq_body = [], rq_cb = False,
                rq_event = None, rq_stamp = 0, rq_timeout = TIMEOUT_INF, rq_stream = None, rq_results = []\<rparr>))"

definition stream_new ::
  "(http_method \<Rightarrow> string) \<Rightarrow> string \<Rightarrow> http_encoding \<times> int \<Rightarrow> string \<Rightarrow> string \<Rightarrow> (string \<times> string) list \<Rightarrow> (string \<times> string) list
     \<Rightarrow> url_error + http_request" where
  "stream_new name agent found ident url params hdrs =
     (case request_new name agent found ident GET url [] params hdrs of Inl e \<Rightarrow> Inl e | Inr r \<Rightarrow> Inr (r\<lparr>rq_stream := Some 0\<rparr>))"

definition takeClientIP :: "string option \<Rightarrow> int \<Rightarrow> http_request \<Rightarrow> http_request" where
  "takeClientIP ip port r = r\<lparr>rq_localIP := (case ip of None \<Rightarrow> rq_localIP r | Some s \<Rightarrow> c_str s), rq_localPort := max port 0\<rparr>"

definition as_int :: "int \<Rightarrow> int" where
  "as_int x = sint (word_of_int x :: 32 word)"

definition finite_timeout :: "http_request \<Rightarrow> bool" where
  "finite_timeout r \<longleftrightarrow> rq_timeout r > 0 \<and> rq_timeout r \<noteq> TIMEOUT_INF"

definition request_time_left :: "int \<Rightarrow> http_request \<Rightarrow> int" where
  "request_time_left now r = (if finite_timeout r then as_int (rq_stamp r + rq_timeout r - now) else 60000)"

definition getTimeLeft :: "int \<Rightarrow> http_request \<Rightarrow> int" where
  "getTimeLeft now r =
     (case rq_stream r of
        None \<Rightarrow> request_time_left now r
      | Some t \<Rightarrow> if t > rq_stamp r \<and> finite_timeout r then as_int (t + rq_timeout r - now) else request_time_left now r)"

definition setResult :: "int \<Rightarrow> string option \<Rightarrow> http_request \<Rightarrow> http_request" where
  "setResult err warning r =
     (let m = rq_resp r\<lparr>statusCode := err\<rparr>
      in r\<lparr>rq_resp := (case warning of None \<Rightarrow> eraseHeader ''Warning'' m | Some w \<Rightarrow> set_header ''Warning'' (c_str w) m)\<rparr>)"

definition startRequest :: "(string \<Rightarrow> int \<Rightarrow> int) \<Rightarrow> (string \<Rightarrow> int \<Rightarrow> int) \<Rightarrow> string \<Rightarrow> http_request \<Rightarrow> http_request \<times> bool" where
  "startRequest bind4 connect4 bindIP r =
     (let r1 = (setResult errBindFail None r)\<lparr>rq_localPort := max (rq_localPort r) 0\<rparr>;
          ip = (if rq_localIP r = [] then bindIP else rq_localIP r)
      in if ip \<noteq> [] \<and> ip \<noteq> ''0.0.0.0'' \<and> bind4 ip (rq_localPort r1) < 0 then (r1, False)
         else (let r2 = setResult errConnectFail None r1
               in if connect4 (rq_host r) (rq_port r) < 0 then (r2, False) else (setResult errConnectTimeout None r2, True)))"

subsection \<open>The user agent\<close>

record user_agent =
  ua_reqs :: "(string \<times> http_request) list"
  ua_outgoings :: "string list"
  ua_awaits :: "(string \<times> string) list"

record agent_env =
  ae_agent :: string
  ae_name :: "http_method \<Rightarrow> string"
  ae_bindIP :: string
  ae_bind4 :: "string \<Rightarrow> int \<Rightarrow> int"
  ae_connect4 :: "string \<Rightarrow> int \<Rightarrow> int"

definition ua_new :: user_agent where
  "ua_new = \<lparr>ua_reqs = [], ua_outgoings = [], ua_awaits = []\<rparr>"

definition upd_req :: "string \<Rightarrow> (http_request \<Rightarrow> http_request) \<Rightarrow> user_agent \<Rightarrow> user_agent" where
  "upd_req i f ua = (case map_of (ua_reqs ua) i of None \<Rightarrow> ua | Some r \<Rightarrow> ua\<lparr>ua_reqs := smap_set i (f r) (ua_reqs ua)\<rparr>)"

definition ua_enqueue :: "string \<Rightarrow> user_agent \<Rightarrow> user_agent" where
  "ua_enqueue i ua = ua\<lparr>ua_outgoings := ua_outgoings ua @ [i]\<rparr>"

definition subscribe :: "bool \<Rightarrow> int \<Rightarrow> int \<Rightarrow> http_request \<Rightarrow> http_request" where
  "subscribe cb timeout now r =
     setResult scRequestTimeout None (r\<lparr>rq_cb := cb, rq_stamp := now, rq_timeout := (if timeout \<le> 0 then TIMEOUT_INF else timeout)\<rparr>)"

definition subscribeResult :: "string \<Rightarrow> bool \<Rightarrow> int \<Rightarrow> int \<Rightarrow> user_agent \<Rightarrow> user_agent" where
  "subscribeResult i cb timeout now ua = ua_enqueue i (upd_req i (subscribe cb timeout now) ua)"

text \<open>\<open>waitResult\<close>, up to where it blocks and from there on.\<close>

definition wait_enter :: "string \<Rightarrow> int \<Rightarrow> int \<Rightarrow> user_agent \<Rightarrow> user_agent" where
  "wait_enter i timeout now ua =
     subscribeResult i False (if timeout > 0 then timeout + TIMER_INTERVAL * 2 else timeout) now (upd_req i (\<lambda>r. r\<lparr>rq_event := Some False\<rparr>) ua)"

definition wait_leave :: "bool \<Rightarrow> http_request \<Rightarrow> http_request \<times> int" where
  "wait_leave signalled r = (if signalled then (r, statusCode (rq_resp r)) else (setResult scRequestTimeout None r, scRequestTimeout))"

definition deliver :: "http_request \<Rightarrow> http_request" where
  "deliver r = r\<lparr>rq_conn := rq_conn r\<lparr>active := False\<rparr>, rq_event := map_option (\<lambda>_. True) (rq_event r),
     rq_results := rq_results r @ (if rq_cb r then [statusCode (rq_resp r)] else [])\<rparr>"

definition dispatchResult :: "string \<Rightarrow> user_agent \<Rightarrow> user_agent" where
  "dispatchResult i ua = (let ua1 = upd_req i deliver ua in ua1\<lparr>ua_awaits := smap_erase i (ua_awaits ua1)\<rparr>)"

definition start_one :: "agent_env \<Rightarrow> string \<Rightarrow> user_agent \<Rightarrow> user_agent" where
  "start_one E i ua =
     upd_req i (\<lambda>r. fst (startRequest (ae_bind4 E) (ae_connect4 E) (ae_bindIP E) r)) (ua\<lparr>ua_awaits := smap_set i i (ua_awaits ua)\<rparr>)"

definition start_all :: "agent_env \<Rightarrow> user_agent \<Rightarrow> user_agent" where
  "start_all E ua = (fold (start_one E) (ua_outgoings ua) ua)\<lparr>ua_outgoings := []\<rparr>"

text \<open>The loop over the waiting requests: \<open>left k r\<close> is the time left of request \<open>r\<close> at the \<open>k\<close>-th reading of the clock. The
  \<open>continue\<close> of the code does not move on to the next request. \<open>None\<close>: the loop does not end.\<close>

partial_function (option) expire_loop ::
  "(nat \<Rightarrow> string \<Rightarrow> int) \<Rightarrow> nat \<Rightarrow> (string \<times> string) list \<Rightarrow> string list \<Rightarrow> ((string \<times> string) list \<times> string list) option" where
  "expire_loop left k aw expired =
     (case aw of
        [] \<Rightarrow> Some (aw, expired)
      | (i, r) # rest \<Rightarrow>
          if left k r > 0 then expire_loop left (Suc k) aw expired
          else expire_loop left (Suc k) rest (expired @ [r]))"

declare expire_loop.simps [code]

definition time_left :: "(nat \<Rightarrow> int) \<Rightarrow> user_agent \<Rightarrow> nat \<Rightarrow> string \<Rightarrow> int" where
  "time_left clock ua k i = (case map_of (ua_reqs ua) i of None \<Rightarrow> 0 | Some r \<Rightarrow> getTimeLeft (clock k) r)"

definition ua_poll :: "agent_env \<Rightarrow> (nat \<Rightarrow> int) \<Rightarrow> user_agent \<Rightarrow> user_agent option" where
  "ua_poll E clock ua =
     (let ua1 = start_all E ua
      in case expire_loop (time_left clock ua1) 0 (ua_awaits ua1) [] of
           None \<Rightarrow> None
         | Some (aw, expired) \<Rightarrow> Some (fold dispatchResult expired (ua1\<lparr>ua_awaits := aw\<rparr>)))"

subsection \<open>What the connection reports\<close>

definition req_OnMessagingError :: "string \<Rightarrow> int \<Rightarrow> string \<Rightarrow> user_agent \<Rightarrow> user_agent" where
  "req_OnMessagingError i err desc ua =
     (case map_of (ua_reqs ua) i of
        None \<Rightarrow> ua
      | Some r \<Rightarrow> if rq_stream r \<noteq> None then ua else dispatchResult i (upd_req i (setResult err (Some desc)) ua))"

definition req_body :: "string \<Rightarrow> http_request \<Rightarrow> http_request" where
  "req_body d r = r\<lparr>rq_body := rq_body r @ d\<rparr>"

definition stream_body :: "int \<Rightarrow> http_request \<Rightarrow> http_request" where
  "stream_body now r = r\<lparr>rq_stream := Some now\<rparr>"

definition req_OnBodyPayload :: "int \<Rightarrow> string \<Rightarrow> http_request \<Rightarrow> http_request" where
  "req_OnBodyPayload now d r = (case rq_stream r of None \<Rightarrow> req_body d r | Some _ \<Rightarrow> stream_body now r)"

text \<open>\<open>HttpRequest::OnMessageReceived\<close>, with the pieces of the body that are still queued. It takes its message by value and so
  does not override the virtual function of the connection, which takes a reference and does nothing.\<close>

definition req_OnMessageReceived :: "string \<Rightarrow> http_message \<Rightarrow> string list \<Rightarrow> user_agent \<Rightarrow> user_agent" where
  "req_OnMessageReceived i m chunks ua =
     dispatchResult i (upd_req i (\<lambda>r. setResult (statusCode m) None (r\<lparr>rq_resp := m, rq_body := rq_body r @ concat chunks\<rparr>)) ua)"

definition conn_OnMessageReceived :: "http_message \<Rightarrow> user_agent \<Rightarrow> user_agent" where
  "conn_OnMessageReceived m ua = ua"

definition on_conn :: "(http_conn \<Rightarrow> http_conn option) \<Rightarrow> string \<Rightarrow> user_agent \<Rightarrow> user_agent option" where
  "on_conn f i ua =
     (case map_of (ua_reqs ua) i of
        None \<Rightarrow> Some ua
      | Some r \<Rightarrow> (case f (rq_conn r) of None \<Rightarrow> None | Some c \<Rightarrow> Some (upd_req i (\<lambda>r. r\<lparr>rq_conn := c\<rparr>) ua)))"

text \<open>The constructor may throw; then there is no request.\<close>

definition add_req :: "url_error + http_request \<Rightarrow> user_agent \<Rightarrow> user_agent" where
  "add_req r ua = (case r of Inl _ \<Rightarrow> ua | Inr r \<Rightarrow> ua\<lparr>ua_reqs := smap_set (rq_ident r) r (ua_reqs ua)\<rparr>)"

datatype ua_op =
    CreateRequest http_encoding int string http_method string string "(string \<times> string) list" "(string \<times> string) list"
  | CreateStream http_encoding int string string "(string \<times> string) list" "(string \<times> string) list"
  | Subscribe string bool int int
  | Wait string int int
  | PollAt "nat \<Rightarrow> int"
  | TcpConnected string
  | TcpWrote string
  | GotBody string int string
  | GotMessage string http_message
  | GotError string int string

fun ua_step :: "agent_env \<Rightarrow> user_agent \<Rightarrow> ua_op \<Rightarrow> user_agent option" where
  "ua_step E ua (CreateRequest enc off i mtd url body params hdrs) =
     Some (add_req (request_new (ae_name E) (ae_agent E) (enc, off) i mtd url body params hdrs) ua)"
| "ua_step E ua (CreateStream enc off i url params hdrs) =
     Some (add_req (stream_new (ae_name E) (ae_agent E) (enc, off) i url params hdrs) ua)"
| "ua_step E ua (Subscribe i cb t now) = Some (subscribeResult i cb t now ua)"
| "ua_step E ua (Wait i t now) = Some (wait_enter i t now ua)"
| "ua_step E ua (PollAt clock) = ua_poll E clock ua"
| "ua_step E ua (TcpConnected i) = on_conn (\<lambda>c. http_OnConnected (ae_name E) (c\<lparr>active := True\<rparr>)) i ua"
| "ua_step E ua (TcpWrote i) = on_conn (OnWrote (ae_name E)) i ua"
| "ua_step E ua (GotBody i now d) = Some (upd_req i (req_OnBodyPayload now d) ua)"
| "ua_step E ua (GotMessage i m) = Some (conn_OnMessageReceived m ua)"
| "ua_step E ua (GotError i err desc) = Some (req_OnMessagingError i err desc ua)"

subsection \<open>The loop over the waiting requests\<close>

lemma expire_loop_result:
  assumes "expire_loop left k aw ex = Some res"
  shows "res = ([], ex @ map snd aw) \<and> (\<forall>r \<in> set (map snd aw). \<exists>k'. left k' r \<le> 0)"
  using assms
proof (induction left k aw ex res rule: expire_loop.raw_induct [rotated, consumes 1, case_names step])
  case (step loop left k aw ex res)
  show ?case
  proof (cases aw)
    case Nil
    then show ?thesis using step(2) by simp
  next
    case (Cons p rest)
    obtain i r where p: "p = (i, r)" by (cases p)
    show ?thesis
    proof (cases "left k r > 0")
      case True
      then have "loop left (Suc k) aw ex = Some res" using step(2) Cons p by simp
      from step(1) [OF this] show ?thesis .
    next
      case False
      then have "loop left (Suc k) rest (ex @ [r]) = Some res" using step(2) Cons p by simp
      from step(1) [OF this] show ?thesis using False Cons p by (auto simp: not_less)
    qed
  qed
qed

lemma expire_loop_stuck:
  assumes "r \<in> set (map snd aw)" and "\<And>k. left k r > 0"
  shows "expire_loop left k aw ex = None"
proof (cases "expire_loop left k aw ex")
  case (Some res)
  from expire_loop_result [OF this] assms(1) obtain k' where "left k' r \<le> 0" by blast
  with assms(2) [of k'] show ?thesis by simp
qed simp

lemma expire_loop_late:
  assumes "\<And>k' r. K \<le> k' \<Longrightarrow> r \<in> set (map snd aw) \<Longrightarrow> left k' r \<le> 0" and "K \<le> k"
  shows "expire_loop left k aw ex = Some ([], ex @ map snd aw)"
  using assms
proof (induction aw arbitrary: k ex)
  case Nil
  then show ?case by (subst expire_loop.simps) simp
next
  case (Cons p aw)
  obtain i r where p: "p = (i, r)" by (cases p)
  have "left k r \<le> 0" using Cons.prems(1) [of k r] Cons.prems(2) p by simp
  moreover have "expire_loop left (Suc k) aw (ex @ [r]) = Some ([], (ex @ [r]) @ map snd aw)"
    by (rule Cons.IH) (use Cons.prems in auto)
  ultimately show ?case by (subst expire_loop.simps) (simp add: p)
qed

text \<open>It ends as soon as the time of every request is up for good.\<close>

lemma expire_loop_ends:
  assumes "\<And>k' r. K \<le> k' \<Longrightarrow> r \<in> set (map snd aw) \<Longrightarrow> left k' r \<le> 0"
  shows "expire_loop left k aw ex = Some ([], ex @ map snd aw)"
  using assms
proof (induction "K - k" arbitrary: k aw ex)
  case 0
  then show ?case using expire_loop_late [of K aw left k ex] by simp
next
  case (Suc d)
  show ?case
  proof (cases aw)
    case Nil
    then show ?thesis by (subst expire_loop.simps) simp
  next
    case (Cons p aw')
    obtain i r where p: "p = (i, r)" by (cases p)
    have d: "d = K - Suc k" using Suc.hyps(2) by simp
    have "expire_loop left (Suc k) aw ex = Some ([], ex @ map snd aw)"
      by (rule Suc.hyps(1) [OF d]) (rule Suc.prems)
    moreover have "expire_loop left (Suc k) aw' (ex @ [r]) = Some ([], (ex @ [r]) @ map snd aw')"
      by (rule Suc.hyps(1) [OF d], rule Suc.prems) (auto simp: Cons)
    ultimately show ?thesis by (subst expire_loop.simps) (simp add: Cons p)
  qed
qed

subsection \<open>Tables\<close>

lemma map_of_upd_req [simp]:
  "map_of (ua_reqs (upd_req i f ua)) j = (if j = i then map_option f (map_of (ua_reqs ua) i) else map_of (ua_reqs ua) j)"
  by (auto simp: upd_req_def std_simps split: option.split)

lemma upd_req_fields [simp]: "ua_outgoings (upd_req i f ua) = ua_outgoings ua" "ua_awaits (upd_req i f ua) = ua_awaits ua"
  by (auto simp: upd_req_def split: option.split)

definition all_reqs :: "(http_request \<Rightarrow> bool) \<Rightarrow> user_agent \<Rightarrow> bool" where
  "all_reqs P ua \<longleftrightarrow> (\<forall>i r. map_of (ua_reqs ua) i = Some r \<longrightarrow> P r)"

lemma all_reqs_upd: "all_reqs P ua \<Longrightarrow> (\<And>r. P r \<Longrightarrow> P (f r)) \<Longrightarrow> all_reqs P (upd_req i f ua)"
  by (auto simp: all_reqs_def)

lemma all_reqs_queues [simp]: "all_reqs P (ua\<lparr>ua_awaits := a\<rparr>) = all_reqs P ua" "all_reqs P (ua\<lparr>ua_outgoings := q\<rparr>) = all_reqs P ua"
  by (simp_all add: all_reqs_def)

lemma dispatch_reqs [simp]:
  "map_of (ua_reqs (dispatchResult i ua)) j = (if j = i then map_option deliver (map_of (ua_reqs ua) i) else map_of (ua_reqs ua) j)"
  "ua_outgoings (dispatchResult i ua) = ua_outgoings ua" "ua_awaits (dispatchResult i ua) = smap_erase i (ua_awaits ua)"
  by (simp_all add: dispatchResult_def Let_def)

lemma dispatch_list:
  "distinct is \<Longrightarrow> map_of (ua_reqs (fold dispatchResult is ua)) j =
     (if j \<in> set is then map_option deliver (map_of (ua_reqs ua) j) else map_of (ua_reqs ua) j)"
  by (induction "is" arbitrary: ua) auto

lemma dispatch_list_queues [simp]:
  "ua_outgoings (fold dispatchResult is ua) = ua_outgoings ua"
  "ua_awaits ua = [] \<Longrightarrow> ua_awaits (fold dispatchResult is ua) = []"
  by (induction "is" arbitrary: ua) (auto simp: smap_erase_def)

definition awaits_ok :: "user_agent \<Rightarrow> bool" where
  "awaits_ok ua \<longleftrightarrow> smap_wf (ua_awaits ua) \<and> (\<forall>k v. map_of (ua_awaits ua) k = Some v \<longrightarrow> v = k)"

lemma awaits_ok_values: "awaits_ok ua \<Longrightarrow> map snd (ua_awaits ua) = map fst (ua_awaits ua)"
  by (auto simp: awaits_ok_def map_of_iff_set)

lemma awaits_ok_start: "awaits_ok ua \<Longrightarrow> awaits_ok (start_one E i ua)"
  by (auto simp: awaits_ok_def start_one_def std_simps smap_wf_set)

lemma awaits_ok_fold: "awaits_ok ua \<Longrightarrow> awaits_ok (fold (start_one E) is ua)"
  by (induction "is" arbitrary: ua) (auto intro: awaits_ok_start)

lemma awaits_ok_start_all: "awaits_ok ua \<Longrightarrow> awaits_ok (start_all E ua)"
  using awaits_ok_fold [of ua E] by (simp add: start_all_def awaits_ok_def)

lemma awaits_ok_dispatch: "awaits_ok ua \<Longrightarrow> awaits_ok (dispatchResult i ua)"
  by (auto simp: awaits_ok_def std_simps smap_wf_erase split: if_splits)

lemma awaits_ok_poll: "awaits_ok ua \<Longrightarrow> ua_poll E clock ua = Some ua' \<Longrightarrow> awaits_ok ua'"
  by (auto simp: ua_poll_def awaits_ok_def Let_def dest!: expire_loop_result split: option.splits)

lemma queues_of_ops [simp]:
  "ua_awaits (subscribeResult i cb t now ua) = ua_awaits ua" "ua_awaits (wait_enter i t now ua) = ua_awaits ua"
  "ua_awaits (add_req q ua) = ua_awaits ua"
  by (simp_all add: subscribeResult_def wait_enter_def ua_enqueue_def add_req_def split: sum.split)

lemma on_conn_awaits: "on_conn f i ua = Some ua' \<Longrightarrow> ua_awaits ua' = ua_awaits ua"
  by (auto simp: on_conn_def split: option.splits)

interpretation agent: transition_system ua_new "ua_step E" awaits_ok for E
proof
  show "awaits_ok ua_new" by (simp add: awaits_ok_def ua_new_def)
  show "awaits_ok ua'" if "awaits_ok ua" "ua_step E ua x = Some ua'" for ua x ua'
    using that
    by (cases x) (auto simp: req_OnMessagingError_def conn_OnMessageReceived_def awaits_ok_def on_conn_awaits std_simps smap_wf_erase
        dest: awaits_ok_poll [unfolded awaits_ok_def, rotated] split: option.splits if_splits)
qed

definition same_times :: "http_request \<Rightarrow> http_request \<Rightarrow> bool" where
  "same_times r r' \<longleftrightarrow> rq_timeout r' = rq_timeout r \<and> rq_stamp r' = rq_stamp r \<and> rq_stream r' = rq_stream r \<and> rq_cb r' = rq_cb r \<and>
     rq_results r' = rq_results r"

lemma same_times_left: "same_times r r' \<Longrightarrow> getTimeLeft now r' = getTimeLeft now r"
  unfolding same_times_def getTimeLeft_def request_time_left_def finite_timeout_def by (elim conjE) (simp only:)

lemma start_same_times: "same_times r (fst (startRequest b c ip r))"
  by (simp add: same_times_def startRequest_def setResult_def Let_def)

lemma start_list:
  "map_of (ua_reqs ua) j = Some r \<Longrightarrow> \<exists>r'. map_of (ua_reqs (fold (start_one E) is ua)) j = Some r' \<and> same_times r r'"
proof (induction "is" arbitrary: ua r)
  case Nil
  then show ?case by (simp add: same_times_def)
next
  case (Cons i "is")
  have "\<exists>r1. map_of (ua_reqs (start_one E i ua)) j = Some r1 \<and> same_times r r1"
  proof (cases "j = i")
    case True
    then show ?thesis using Cons.prems by (simp add: start_one_def) (metis start_same_times)
  next
    case False
    then show ?thesis using Cons.prems by (simp add: start_one_def same_times_def)
  qed
  then obtain r1 where "map_of (ua_reqs (start_one E i ua)) j = Some r1" "same_times r r1" by blast
  with Cons.IH [of "start_one E i ua" r1] show ?case by (auto simp: same_times_def)
qed

lemma start_keys: "fst ` set (ua_awaits (start_all E ua)) = set (ua_outgoings ua) \<union> fst ` set (ua_awaits ua)"
proof -
  have "fst ` set (ua_awaits (fold (start_one E) is ua)) = set is \<union> fst ` set (ua_awaits ua)" for "is"
    by (induction "is" arbitrary: ua) (auto simp: start_one_def set_keys_smap_set)
  then show ?thesis by (simp add: start_all_def)
qed

definition waiting :: "user_agent \<Rightarrow> string set" where
  "waiting ua = set (ua_outgoings ua) \<union> fst ` set (ua_awaits ua)"

lemma poll_result:
  assumes "awaits_ok ua" and "ua_poll E clock ua = Some ua'" and "i \<in> waiting ua" and "map_of (ua_reqs ua) i = Some r"
  shows "ua_awaits ua' = [] \<and> ua_outgoings ua' = [] \<and> rq_timeout r > 0 \<and> (\<exists>k. getTimeLeft (clock k) r \<le> 0) \<and>
     (\<exists>r' c. map_of (ua_reqs ua') i = Some r' \<and> rq_results r' = rq_results r @ (if rq_cb r then [c] else []))"
proof -
  define ua1 where "ua1 = start_all E ua"
  obtain r1 where r1: "map_of (ua_reqs ua1) i = Some r1" "same_times r r1"
    using start_list [OF assms(4), of E "ua_outgoings ua"] by (auto simp: ua1_def start_all_def)
  have ok: "awaits_ok ua1" using awaits_ok_start_all [OF assms(1)] by (simp add: ua1_def)
  then have vals: "map snd (ua_awaits ua1) = map fst (ua_awaits ua1)" by (rule awaits_ok_values)
  have i: "i \<in> set (map snd (ua_awaits ua1))"
    unfolding vals using assms(3) start_keys [of E ua] by (simp add: ua1_def waiting_def)
  have dist: "distinct (map snd (ua_awaits ua1))"
    unfolding vals using ok by (simp add: awaits_ok_def smap_wf_distinct)
  obtain res where e: "expire_loop (time_left clock ua1) 0 (ua_awaits ua1) [] = Some res"
    using assms(2) by (auto simp: ua_poll_def ua1_def Let_def split: option.splits)
  note res = expire_loop_result [OF e]
  obtain k where "time_left clock ua1 k i \<le> 0" using res i by blast
  then have k: "getTimeLeft (clock k) r \<le> 0"
    using r1 by (simp add: time_left_def same_times_left)
  then have t: "rq_timeout r > 0" by (auto simp: getTimeLeft_def request_time_left_def finite_timeout_def split: option.splits if_splits)
  have "ua' = fold dispatchResult (map snd (ua_awaits ua1)) (ua1\<lparr>ua_awaits := []\<rparr>)"
    using assms(2) e res by (simp add: ua_poll_def ua1_def Let_def)
  moreover have "ua_outgoings ua1 = []" by (simp add: ua1_def start_all_def)
  ultimately show ?thesis
    using k t i dist r1 by (auto simp: dispatch_list deliver_def same_times_def)
qed

text \<open>
  C24. The poll of the user agent returns only when the time of every request that waits is up: none of them has an infinite
  time-out, and all of them have been answered with the result they had, whether or not a response arrived. As the loop of
  the agent is the one that would receive responses, it can receive none in between.
\<close>

theorem poll_outlasts_every_timeout:
  assumes "run_ops (ua_step E) ua_new ops = Some ua" and "i \<in> waiting ua" and "map_of (ua_reqs ua) i = Some r"
  shows "case ua_poll E clock ua of
      None \<Rightarrow> \<exists>j \<in> waiting ua. \<forall>K. \<exists>k \<ge> K. time_left clock (start_all E ua) k j > 0
    | Some ua' \<Rightarrow> ua_awaits ua' = [] \<and> ua_outgoings ua' = [] \<and> rq_timeout r > 0 \<and> (\<exists>k. getTimeLeft (clock k) r \<le> 0) \<and>
       (\<exists>r' c. map_of (ua_reqs ua') i = Some r' \<and> rq_results r' = rq_results r @ (if rq_cb r then [c] else []))"
proof -
  have ok: "awaits_ok ua" by (rule agent.reachable_inv [OF assms(1)])
  show ?thesis
  proof (cases "ua_poll E clock ua")
    case (Some ua')
    then show ?thesis using poll_result [OF ok Some assms(2,3)] by simp
  next
    case None
    let ?ua1 = "start_all E ua"
    have e: "expire_loop (time_left clock ?ua1) 0 (ua_awaits ?ua1) [] = None"
      using None by (auto simp: ua_poll_def Let_def split: option.splits prod.splits)
    have "set (map snd (ua_awaits ?ua1)) = waiting ua"
      unfolding awaits_ok_values [OF awaits_ok_start_all [OF ok]] using start_keys [of E ua] by (simp add: waiting_def)
    moreover have "\<exists>j \<in> set (map snd (ua_awaits ?ua1)). \<forall>K. \<exists>k \<ge> K. time_left clock ?ua1 k j > 0"
    proof (rule ccontr)
      assume "\<not> ?thesis"
      then have "\<forall>j \<in> set (map snd (ua_awaits ?ua1)). \<exists>K. \<forall>k \<ge> K. time_left clock ?ua1 k j \<le> 0" by (auto simp: not_less)
      then obtain f where f: "\<forall>j \<in> set (map snd (ua_awaits ?ua1)). \<forall>k \<ge> f j. time_left clock ?ua1 k j \<le> 0"
        by (rule bchoice [THEN exE])
      define K where "K = Max (insert 0 (f ` set (map snd (ua_awaits ?ua1))))"
      have "f j \<le> K" if "j \<in> set (map snd (ua_awaits ?ua1))" for j
        unfolding K_def by (rule Max_ge) (use that in auto)
      then have "time_left clock ?ua1 k j \<le> 0" if "K \<le> k" "j \<in> set (map snd (ua_awaits ?ua1))" for k j
        using f that by (meson order_trans)
      from expire_loop_ends [of K "ua_awaits ?ua1" "time_left clock ?ua1", OF this] e show False by simp
    qed
    ultimately show ?thesis using None by simp
  qed
qed

definition demo_env :: agent_env where
  "demo_env = \<lparr>ae_agent = ''eloop'', ae_name = (\<lambda>_. ''GET''), ae_bindIP = [], ae_bind4 = (\<lambda>_ _. 0), ae_connect4 = (\<lambda>_ _. 0)\<rparr>"

definition demo_ops :: "int \<Rightarrow> ua_op list" where
  "demo_ops t = [CreateRequest heNone 0 ''r1'' GET ''/index'' [] [(''k'', ''v'')] [], Subscribe ''r1'' True t 500]"

lemma demo_agent:
  "\<exists>ua r. run_ops (ua_step demo_env) ua_new (demo_ops t) = Some ua \<and> ''r1'' \<in> waiting ua \<and> map_of (ua_reqs ua) ''r1'' = Some r \<and>
     rq_timeout r = (if t \<le> 0 then TIMEOUT_INF else t) \<and> rq_cb r \<and> rq_results r = []"
proof -
  obtain q where q: "request_new (ae_name demo_env) (ae_agent demo_env) (heNone, 0) ''r1'' GET ''/index'' [] [(''k'', ''v'')] [] = Inr q"
      "rq_ident q = ''r1'' \<and> rq_results q = []"
  proof -
    have "case request_new (ae_name demo_env) (ae_agent demo_env) (heNone, 0) ''r1'' GET ''/index'' [] [(''k'', ''v'')] [] of
        Inl _ \<Rightarrow> False | Inr q \<Rightarrow> rq_ident q = ''r1'' \<and> rq_results q = []"
      by code_simp
    then show ?thesis using that by (auto split: sum.splits)
  qed
  show ?thesis
    using q by (simp add: demo_ops_def add_req_def ua_new_def subscribeResult_def ua_enqueue_def waiting_def subscribe_def setResult_def Let_def)
qed

theorem poll_outlasts_every_timeout_witness:
  "\<exists>ua r. run_ops (ua_step demo_env) ua_new (demo_ops (- 1)) = Some ua \<and> map_of (ua_reqs ua) ''r1'' = Some r \<and>
     (\<forall>clock. ua_poll demo_env clock ua = None)"
proof -
  obtain ua r where *: "run_ops (ua_step demo_env) ua_new (demo_ops (- 1)) = Some ua" "''r1'' \<in> waiting ua"
      "map_of (ua_reqs ua) ''r1'' = Some r" "rq_timeout r = - 1"
    using demo_agent [of "- 1"] by (auto simp: TIMEOUT_INF_def)
  have "ua_poll demo_env clock ua = None" for clock
    using poll_outlasts_every_timeout [OF *(1-3), of clock] *(4) by (cases "ua_poll demo_env clock ua") auto
  with * show ?thesis by blast
qed

subsection \<open>Answers never arrive\<close>

definition client_codes :: "int set" where
  "client_codes = {0, scRequestTimeout, errBindFail, errConnectFail, errConnectTimeout}"

definition unsent :: "int set \<Rightarrow> http_request \<Rightarrow> bool" where
  "unsent S r \<longleftrightarrow> outMsg (rq_conn r) = None \<and> wire (rq_conn r) = [] \<and> statusCode (rq_resp r) \<in> S \<and> set (rq_results r) \<subseteq> S"

fun op_errors :: "ua_op \<Rightarrow> int set" where
  "op_errors (GotError i err desc) = {err}"
| "op_errors _ = {}"

lemma setResult_status [simp]: "statusCode (rq_resp (setResult e w r)) = e" "rq_conn (setResult e w r) = rq_conn r"
  "rq_results (setResult e w r) = rq_results r" "rq_cb (setResult e w r) = rq_cb r"
  by (auto simp: setResult_def Let_def set_header_def eraseHeader_def split: option.split)

lemma unsent_setResult: "unsent S r \<Longrightarrow> e \<in> S \<Longrightarrow> unsent S (setResult e w r)"
  by (simp add: unsent_def)

lemma unsent_deliver: "unsent S r \<Longrightarrow> unsent S (deliver r)"
  by (auto simp: unsent_def deliver_def)

lemma unsent_start: "unsent S r \<Longrightarrow> client_codes \<subseteq> S \<Longrightarrow> unsent S (fst (startRequest b c ip r))"
  by (auto simp: unsent_def startRequest_def client_codes_def Let_def)

lemma unsent_new:
  assumes "request_new name agent found i mtd url body params hdrs = Inr r" and "0 \<in> S"
  shows "unsent S r"
  using assms
  by (auto simp: request_new_def unsent_def conn_new_def push_chunk_def new_message_def Let_def split: sum.splits if_splits)

lemma unsent_stream:
  assumes "stream_new name agent found i url params hdrs = Inr r" and "0 \<in> S"
  shows "unsent S r"
  using assms unsent_new [of name agent found i GET url "[]" params hdrs _ S]
  by (auto simp: stream_new_def unsent_def split: sum.splits)

lemma sendByPhase_idle: "outMsg c = None \<Longrightarrow> sendByPhase name c = Some (c, False)"
  by (simp add: sendByPhase_def)

lemma unsent_fold:
  assumes "all_reqs (unsent S) ua" and "\<And>i ua. all_reqs (unsent S) ua \<Longrightarrow> all_reqs (unsent S) (f i ua)"
  shows "all_reqs (unsent S) (fold f is ua)"
  using assms by (induction "is" arbitrary: ua) auto

lemma unsent_start_all: "all_reqs (unsent S) ua \<Longrightarrow> client_codes \<subseteq> S \<Longrightarrow> all_reqs (unsent S) (start_all E ua)"
  by (auto simp: start_all_def start_one_def intro!: unsent_fold all_reqs_upd unsent_start)

lemma unsent_dispatch: "all_reqs (unsent S) ua \<Longrightarrow> all_reqs (unsent S) (dispatchResult i ua)"
  by (auto simp: dispatchResult_def Let_def intro!: all_reqs_upd unsent_deliver)

lemma unsent_poll:
  assumes "all_reqs (unsent S) ua" "client_codes \<subseteq> S" "ua_poll E clock ua = Some ua'"
  shows "all_reqs (unsent S) ua'"
proof -
  obtain aw ex where "ua' = fold dispatchResult ex (start_all E ua\<lparr>ua_awaits := aw\<rparr>)"
    using assms(3) by (auto simp: ua_poll_def Let_def split: option.splits prod.splits)
  then show ?thesis
    using assms(1,2) by (auto intro!: unsent_fold unsent_dispatch unsent_start_all)
qed

lemma unsent_on_conn:
  assumes "all_reqs (unsent S) ua" "on_conn f i ua = Some ua'"
    and "\<And>c c'. outMsg c = None \<Longrightarrow> f c = Some c' \<Longrightarrow> outMsg c' = None \<and> wire c' = wire c"
  shows "all_reqs (unsent S) ua'"
proof (cases "map_of (ua_reqs ua) i")
  case (Some r)
  then obtain c where c: "f (rq_conn r) = Some c" and ua': "ua' = upd_req i (\<lambda>r. r\<lparr>rq_conn := c\<rparr>) ua"
    using assms(2) by (auto simp: on_conn_def split: option.splits)
  have "unsent S r" using assms(1) Some by (simp add: all_reqs_def)
  then have "outMsg c = None \<and> wire c = []" using assms(3) [OF _ c] by (simp add: unsent_def)
  then show ?thesis unfolding ua' by (intro all_reqs_upd assms(1)) (simp add: unsent_def)
qed (use assms in \<open>simp add: on_conn_def\<close>)

lemma unsent_add:
  assumes "all_reqs (unsent S) ua" and "\<And>r. q = Inr r \<Longrightarrow> unsent S r"
  shows "all_reqs (unsent S) (add_req q ua)"
  using assms by (auto simp: add_req_def all_reqs_def std_simps split: sum.split)

lemma unsent_subscribe: "all_reqs (unsent S) ua \<Longrightarrow> client_codes \<subseteq> S \<Longrightarrow> all_reqs (unsent S) (subscribeResult i cb t now ua)"
  unfolding subscribeResult_def ua_enqueue_def
  by (simp, rule all_reqs_upd) (auto simp: subscribe_def unsent_def client_codes_def)

lemma unsent_step:
  assumes "all_reqs (unsent S) ua" and "client_codes \<subseteq> S" and "op_errors x \<subseteq> S" and "ua_step E ua x = Some ua'"
  shows "all_reqs (unsent S) ua'"
proof (cases x)
  case (CreateRequest e off i mtd url body params hdrs)
  then show ?thesis using assms unsent_new [of "ae_name E" "ae_agent E" "(e, off)" i mtd url body params hdrs _ S]
    by (auto simp: client_codes_def intro!: unsent_add)
next
  case (CreateStream e off i url params hdrs)
  then show ?thesis using assms unsent_stream [of "ae_name E" "ae_agent E" "(e, off)" i url params hdrs _ S]
    by (auto simp: client_codes_def intro!: unsent_add)
next
  case (Subscribe i cb t now)
  then show ?thesis using assms by (auto intro: unsent_subscribe)
next
  case (Wait i t now)
  then show ?thesis using assms
    by (auto simp: wait_enter_def unsent_def intro!: unsent_subscribe all_reqs_upd)
next
  case (PollAt clock)
  then show ?thesis using assms unsent_poll by auto
next
  case (TcpConnected i)
  then have s: "on_conn (\<lambda>c. http_OnConnected (ae_name E) (c\<lparr>active := True\<rparr>)) i ua = Some ua'" using assms by simp
  show ?thesis
    by (rule unsent_on_conn [OF assms(1) s]) (auto simp: http_OnConnected_def sendByPhase_idle)
next
  case (TcpWrote i)
  then have s: "on_conn (OnWrote (ae_name E)) i ua = Some ua'" using assms by simp
  show ?thesis
    by (rule unsent_on_conn [OF assms(1) s]) (auto simp: OnWrote_def sendByPhase_idle)
next
  case (GotBody i now d)
  then show ?thesis using assms
    by (auto simp: req_OnBodyPayload_def req_body_def stream_body_def unsent_def intro!: all_reqs_upd split: option.splits)
next
  case (GotMessage i m)
  then show ?thesis using assms by (simp add: conn_OnMessageReceived_def)
next
  case (GotError i err desc)
  then show ?thesis using assms
    by (auto simp: req_OnMessagingError_def intro!: unsent_dispatch all_reqs_upd unsent_setResult split: option.splits)
qed

lemma unsent_run:
  "all_reqs (unsent S) ua \<Longrightarrow> client_codes \<subseteq> S \<Longrightarrow> (\<Union>x \<in> set ops. op_errors x) \<subseteq> S \<Longrightarrow> run_ops (ua_step E) ua ops = Some ua' \<Longrightarrow>
   all_reqs (unsent S) ua'"
  by (induction ops arbitrary: ua) (auto split: option.splits dest: unsent_step)

text \<open>
  Whatever happens to a client, also when its connections open and whole responses come in, no request puts a byte on its
  connection, and every result that an application is given is one of the client's own codes or a reported error, never the
  status of a response.
\<close>

theorem no_request_is_sent_or_answered:
  assumes "run_ops (ua_step E) ua_new ops = Some ua" and "map_of (ua_reqs ua) i = Some r"
  shows "wire (rq_conn r) = [] \<and> set (rq_results r) \<subseteq> client_codes \<union> (\<Union>x \<in> set ops. op_errors x)"
proof -
  have "all_reqs (unsent (client_codes \<union> (\<Union>x \<in> set ops. op_errors x))) ua"
    by (rule unsent_run [OF _ _ _ assms(1)]) (auto simp: all_reqs_def ua_new_def)
  then show ?thesis using assms(2) by (auto simp: all_reqs_def unsent_def)
qed

theorem no_request_is_sent_or_answered_witness:
  "\<exists>ua r. run_ops (ua_step demo_env) ua_new
      (demo_ops 1000 @ [TcpConnected ''r1'', GotMessage ''r1'' (new_message heNone MSG_RESPONSE []\<lparr>statusCode := 200\<rparr>), PollAt (\<lambda>_. 2000)]) = Some ua \<and>
    map_of (ua_reqs ua) ''r1'' = Some r \<and> rq_results r = [errConnectTimeout] \<and> wire (rq_conn r) = [] \<and> set (rq_results r) \<subseteq> client_codes"
proof -
  let ?ops = "demo_ops 1000 @ [TcpConnected ''r1'', GotMessage ''r1'' (new_message heNone MSG_RESPONSE []\<lparr>statusCode := 200\<rparr>), PollAt (\<lambda>_. 2000)]"
  have "case run_ops (ua_step demo_env) ua_new ?ops of None \<Rightarrow> False
      | Some ua \<Rightarrow> (case map_of (ua_reqs ua) ''r1'' of None \<Rightarrow> False | Some r \<Rightarrow> rq_results r = [errConnectTimeout])"
    by code_simp
  then obtain ua where ua: "run_ops (ua_step demo_env) ua_new ?ops = Some ua"
      "case map_of (ua_reqs ua) ''r1'' of None \<Rightarrow> False | Some r \<Rightarrow> rq_results r = [errConnectTimeout]"
    by (rule case_SomeE)
  then obtain r where r: "map_of (ua_reqs ua) ''r1'' = Some r" "rq_results r = [errConnectTimeout]" by (auto split: option.splits)
  show ?thesis
    using no_request_is_sent_or_answered [OF ua(1) r(1)] ua(1) r
    by (intro exI [of _ ua] exI [of _ r]) (simp add: client_codes_def)
qed

end
