(* ===== verification/Tcp_Server.thy ===== *)
theory Tcp_Server
  imports Std_Map
begin

text \<open>
  TCPServer.h and TCPServer.cpp (eloop/Http/LibHttp): the loop that pings what it watches, connections with a queue of
  buffers to send, and the server that spreads connections over its loops. The calls of libuv are parameters: what a write,
  a bind or a listen answers; a write takes over the buffers it is given (AbstractStream copies them).
\<close>

subsection \<open>The loop\<close>

definition LOOP_HEARTBEAT_MIN :: int where "LOOP_HEARTBEAT_MIN = 200"
definition LOOP_HEARTBEAT_MAX :: int where "LOOP_HEARTBEAT_MAX = 5000"

record int_loop =
  pingMap :: "(string \<times> bool) list"
  wakees :: "string list"
  il_quit :: bool
  msHeartbeat :: int

definition loop_new :: "int \<Rightarrow> int_loop" where
  "loop_new ms =
     \<lparr>pingMap = [], wakees = [], il_quit = False,
      msHeartbeat = (if ms < LOOP_HEARTBEAT_MIN then LOOP_HEARTBEAT_MIN else if ms > LOOP_HEARTBEAT_MAX then LOOP_HEARTBEAT_MAX else ms)\<rparr>"

text \<open>\<open>pingMap\<close> tells for each identifier whether its observer is there, that is, not a null pointer.\<close>

definition watch :: "string \<Rightarrow> int_loop \<Rightarrow> int_loop" where
  "watch i l = l\<lparr>pingMap := smap_set i True (pingMap l)\<rparr>"

definition unwatch :: "string \<Rightarrow> int_loop \<Rightarrow> int_loop" where
  "unwatch i l = l\<lparr>pingMap := smap_erase i (pingMap l)\<rparr>"

definition loop_ping :: "string \<Rightarrow> int_loop \<Rightarrow> int_loop" where
  "loop_ping i l = l\<lparr>wakees := wakees l @ [i]\<rparr>"

definition collect_wakees :: "int_loop \<Rightarrow> (string \<times> bool) list" where
  "collect_wakees l =
     fold (\<lambda>i m. if map_of m i \<noteq> None then m else (case map_of (pingMap l) i of Some True \<Rightarrow> smap_insert i True m | _ \<Rightarrow> m)) (wakees l) []"

text \<open>The set that is collected, and who is pinged: the code collects one and goes through the other.\<close>

definition to_wake :: "bool \<Rightarrow> int_loop \<Rightarrow> (string \<times> bool) list" where
  "to_wake heartbeat l = (if heartbeat then pingMap l else collect_wakees l)"

definition loop_poll :: "bool \<Rightarrow> int_loop \<Rightarrow> int_loop \<times> string list" where
  "loop_poll heartbeat l = ((if heartbeat then l else l\<lparr>wakees := []\<rparr>), map fst (pingMap l))"

definition OnWakedUp :: "int_loop \<Rightarrow> int_loop \<times> string list \<times> bool" where
  "OnWakedUp l = (case loop_poll False l of (l', ps) \<Rightarrow> (l', ps, il_quit l'))"

definition loop_OnDeactived :: "int_loop \<Rightarrow> int_loop" where
  "loop_OnDeactived l = l\<lparr>pingMap := []\<rparr>"

definition loop_quit :: "int_loop \<Rightarrow> int_loop" where
  "loop_quit l = l\<lparr>il_quit := True\<rparr>"

subsection \<open>Connections\<close>

definition MAX_CSEQ :: int where "MAX_CSEQ = 0x0fffffff"
definition MAX_BUFS_PER_SEND :: nat where "MAX_BUFS_PER_SEND = 10"

text \<open>\<open>tc_written\<close>: the buffers of each call of \<open>write\<close> that was accepted.\<close>

record tcp_conn =
  tc_ident :: string
  tc_queue :: "string list"
  tc_active :: bool
  tc_connected :: bool
  tc_busy :: int
  tc_lastCSeq :: int
  tc_written :: "string list list"

definition tcp_new :: "string \<Rightarrow> tcp_conn" where
  "tcp_new i = \<lparr>tc_ident = i, tc_queue = [], tc_active = False, tc_connected = False, tc_busy = 0, tc_lastCSeq = 1, tc_written = []\<rparr>"

definition tcp_enqueueSend :: "string \<Rightarrow> tcp_conn \<Rightarrow> tcp_conn \<times> int" where
  "tcp_enqueueSend d c =
     (if d = [] then (c, 0) else if \<not> tc_active c then (c, 0) else (c\<lparr>tc_queue := tc_queue c @ [d]\<rparr>, int (length d)))"

fun take_bufs :: "nat \<Rightarrow> nat \<Rightarrow> nat \<Rightarrow> string list \<Rightarrow> string list \<times> string list" where
  "take_bufs maxlen bytes n [] = ([], [])"
| "take_bufs maxlen bytes n (b # q) =
     (if maxlen > 0 \<and> bytes < maxlen \<and> n < MAX_BUFS_PER_SEND
      then (if b = [] then take_bufs maxlen bytes n q
            else (case take_bufs maxlen (bytes + length b) (n + 1) q of (t, r) \<Rightarrow> (b # t, r)))
      else ([], b # q))"

text \<open>\<open>onerr\<close> is what the subclass does on an error of the connection; \<open>ret\<close> what \<open>write\<close> answers.\<close>

definition sendNext :: "(int \<Rightarrow> tcp_conn \<Rightarrow> tcp_conn) \<Rightarrow> int \<Rightarrow> int \<Rightarrow> nat \<Rightarrow> tcp_conn \<Rightarrow> tcp_conn" where
  "sendNext onerr now ret maxlen c =
     (if \<not> tc_active c \<or> \<not> tc_connected c then c\<lparr>tc_queue := []\<rparr>
      else if now - tc_busy c < 1000 then c
      else (case take_bufs maxlen 0 0 (tc_queue c) of
              (bufs, rest) \<Rightarrow>
                if bufs = [] then c\<lparr>tc_queue := rest\<rparr>
                else (let c1 = c\<lparr>tc_queue := rest, tc_busy := now\<rparr>
                      in if ret < 0 then onerr ret c1 else c1\<lparr>tc_written := tc_written c1 @ [bufs]\<rparr>)))"

definition SEND_MAX :: nat where "SEND_MAX = 16 * 1024"

definition tcp_OnPing :: "(int \<Rightarrow> tcp_conn \<Rightarrow> tcp_conn) \<Rightarrow> int \<Rightarrow> int \<Rightarrow> tcp_conn \<Rightarrow> tcp_conn" where
  "tcp_OnPing onerr now ret c = sendNext onerr now ret SEND_MAX c"

definition tcp_OnWrote :: "(int \<Rightarrow> tcp_conn \<Rightarrow> tcp_conn) \<Rightarrow> int \<Rightarrow> int \<Rightarrow> tcp_conn \<Rightarrow> tcp_conn" where
  "tcp_OnWrote onerr now ret c = sendNext onerr now ret SEND_MAX (c\<lparr>tc_busy := 0\<rparr>)"

text \<open>A connection starts to read when it is connected, which makes its handle active.\<close>

definition tcp_OnConnected :: "tcp_conn \<Rightarrow> tcp_conn" where
  "tcp_OnConnected c = c\<lparr>tc_connected := True, tc_active := True\<rparr>"

definition tcp_disconnect :: "bool \<Rightarrow> tcp_conn \<Rightarrow> tcp_conn" where
  "tcp_disconnect bShutdown c = (let c1 = c\<lparr>tc_queue := []\<rparr> in if bShutdown then c1 else c1\<lparr>tc_active := False\<rparr>)"

definition tcp_OnDeactived :: "tcp_conn \<Rightarrow> tcp_conn" where
  "tcp_OnDeactived c = c\<lparr>tc_connected := False\<rparr>"

definition tcp_OnShutdown :: "tcp_conn \<Rightarrow> tcp_conn" where
  "tcp_OnShutdown c = c\<lparr>tc_active := False\<rparr>"

text \<open>\<open>AtomicInt::add\<close> answers the new value.\<close>

definition cseq_ok :: "int \<Rightarrow> bool" where
  "cseq_ok v \<longleftrightarrow> v > 0 \<and> v < MAX_CSEQ"

definition lastCSeq :: "int \<Rightarrow> int \<times> int" where
  "lastCSeq n =
     (let v = n + 1
      in if cseq_ok v then (v, v)
         else (let v2 = v + 1 in if cseq_ok v2 then (v2, v2) else (let v3 = 1 + 1 in (v3, v3))))"

datatype tcp_op = EnqueueOp string | PingOp int int | TcpWroteOp int int | ConnectOp | DisconnectOp bool | ShutdownOp | DeactivedOp

fun tcp_step :: "(int \<Rightarrow> tcp_conn \<Rightarrow> tcp_conn) \<Rightarrow> tcp_conn \<Rightarrow> tcp_op \<Rightarrow> tcp_conn" where
  "tcp_step onerr c (EnqueueOp d) = fst (tcp_enqueueSend d c)"
| "tcp_step onerr c (PingOp now ret) = tcp_OnPing onerr now ret c"
| "tcp_step onerr c (TcpWroteOp now ret) = tcp_OnWrote onerr now ret c"
| "tcp_step onerr c ConnectOp = tcp_OnConnected c"
| "tcp_step onerr c (DisconnectOp b) = tcp_disconnect b c"
| "tcp_step onerr c ShutdownOp = tcp_OnShutdown c"
| "tcp_step onerr c DeactivedOp = tcp_OnDeactived c"

subsection \<open>The server\<close>

datatype server_mode = SINGLE_LOOP_MODE | MULTIPE_LOOP_MODE

text \<open>Loops are known by the CPU they were asked to run on. \<open>sv_idxLoop\<close> is not initialised.\<close>

record tcp_server =
  sv_mode :: server_mode
  sv_cpuIds :: string
  sv_host :: string
  sv_port :: int
  soService :: bool
  thrdLoops :: "int list"
  idxLoop :: nat
  connMap :: "(string \<times> tcp_conn) list"

function cpu_tokens :: "string \<Rightarrow> string list" where
  "cpu_tokens s = (if s = [] then [] else takeWhile (\<lambda>c. c \<noteq> CHR '','') s # cpu_tokens (drop 1 (dropWhile (\<lambda>c. c \<noteq> CHR '','') s)))"
  by pat_completeness auto

termination
proof (relation "measure length")
  fix s :: string assume "s \<noteq> []"
  then have "length (drop 1 (dropWhile (\<lambda>c. c \<noteq> CHR '','') s)) < length s"
    using length_dropWhile_le [of "\<lambda>c. c \<noteq> CHR '','' " s] by (cases s) auto
  then show "(drop 1 (dropWhile (\<lambda>c. c \<noteq> CHR '','') s), s) \<in> measure length" by simp
qed simp

declare cpu_tokens.simps [simp del]

definition tcp_start :: "(string \<Rightarrow> int \<Rightarrow> int) \<Rightarrow> int \<Rightarrow> tcp_server \<Rightarrow> tcp_server \<times> bool" where
  "tcp_start bind4 listened s =
     (if soService s then (s, True)
      else (let s1 = s\<lparr>thrdLoops := thrdLoops s @ (if sv_mode s \<noteq> MULTIPE_LOOP_MODE then [- 1] else map atoi (cpu_tokens (sv_cpuIds s)))\<rparr>
            in if thrdLoops s1 = [] then (s1, False)
               else (let s2 = s1\<lparr>soService := True\<rparr>
                     in if bind4 (sv_host s) (sv_port s) < 0 then (s2, False)
                        else if listened < 0 then (s2, False) else (s2, True))))"

definition tcp_stop :: "tcp_server \<Rightarrow> tcp_server \<times> bool" where
  "tcp_stop s = (s\<lparr>soService := False, thrdLoops := []\<rparr>, True)"

definition addConn :: "tcp_conn \<Rightarrow> tcp_server \<Rightarrow> tcp_server" where
  "addConn c s = s\<lparr>connMap := smap_set (tc_ident c) c (connMap s)\<rparr>"

definition delConn :: "tcp_conn \<Rightarrow> tcp_server \<Rightarrow> tcp_server" where
  "delConn c s = s\<lparr>connMap := smap_erase (tc_ident c) (connMap s)\<rparr>"

definition findConn :: "string \<Rightarrow> tcp_server \<Rightarrow> tcp_conn option" where
  "findConn i s = map_of (connMap s) i"

text \<open>The loop that an accepted connection is given to; \<open>None\<close> when there is none or accepting failed.\<close>

definition doAccept :: "int \<Rightarrow> tcp_server \<Rightarrow> tcp_server \<times> int option" where
  "doAccept status s =
     (if status \<noteq> 0 then (s, None)
      else if thrdLoops s = [] then (s, None)
      else (let k = (idxLoop s + 1) mod length (thrdLoops s) in (s\<lparr>idxLoop := k\<rparr>, Some (thrdLoops s ! k))))"

subsection \<open>What a connection writes\<close>

lemma take_bufs_concat: "take_bufs m b n q = (t, r) \<Longrightarrow> concat t @ concat r = concat q"
  by (induction m b n q arbitrary: t r rule: take_bufs.induct) (auto split: if_splits prod.splits)

lemma take_bufs_bounds:
  "take_bufs m b n q = (t, r) \<Longrightarrow> n \<le> MAX_BUFS_PER_SEND \<Longrightarrow>
     n + length t \<le> MAX_BUFS_PER_SEND \<and> [] \<notin> set t \<and> (t \<noteq> [] \<longrightarrow> b + length (concat (butlast t)) < m)"
proof (induction m b n q arbitrary: t r rule: take_bufs.induct)
  case (2 maxlen bytes n b q)
  show ?case
  proof (cases "maxlen > 0 \<and> bytes < maxlen \<and> n < MAX_BUFS_PER_SEND \<and> b \<noteq> []")
    case True
    obtain t' r' where t': "take_bufs maxlen (bytes + length b) (n + 1) q = (t', r')" by (metis surj_pair)
    then have "t = b # t'" using 2(3) True by simp
    moreover have "(n + 1) + length t' \<le> MAX_BUFS_PER_SEND \<and> [] \<notin> set t' \<and>
        (t' \<noteq> [] \<longrightarrow> (bytes + length b) + length (concat (butlast t')) < maxlen)"
      using 2(2) [OF _ _ t'] True by simp
    ultimately show ?thesis using True by auto
  next
    case False
    then show ?thesis using 2(1) 2(3,4) by (auto split: if_splits)
  qed
qed auto

lemma take_bufs_shrinks:
  assumes "q \<noteq> []" and "b < m" and "n < MAX_BUFS_PER_SEND"
  shows "length (snd (take_bufs m b n q)) < length q"
proof -
  have le: "length (snd (take_bufs m b n q)) \<le> length q" for b n q
    by (induction m b n q rule: take_bufs.induct) (auto split: prod.splits)
  obtain x q' where q: "q = x # q'" using assms(1) by (cases q) auto
  show ?thesis
    using assms(2,3) le [of b n q'] le [of "b + length x" "n + 1" q'] by (auto simp: q split: prod.splits)
qed

definition bytes_of :: "tcp_conn \<Rightarrow> string" where
  "bytes_of c = concat (concat (tc_written c)) @ concat (tc_queue c)"

definition writes_bounded :: "tcp_conn \<Rightarrow> bool" where
  "writes_bounded c \<longleftrightarrow>
     (\<forall>w \<in> set (tc_written c). w \<noteq> [] \<and> length w \<le> MAX_BUFS_PER_SEND \<and> length (concat (butlast w)) < SEND_MAX)"

definition up :: "tcp_conn \<Rightarrow> bool" where
  "up c \<longleftrightarrow> tc_active c \<and> tc_connected c"

lemma sendNext_up:
  assumes "up c" and "0 \<le> ret" and "writes_bounded c"
  shows "up (sendNext e now ret SEND_MAX c) \<and> bytes_of (sendNext e now ret SEND_MAX c) = bytes_of c \<and>
     writes_bounded (sendNext e now ret SEND_MAX c)"
proof -
  obtain t r where tr: "take_bufs SEND_MAX 0 0 (tc_queue c) = (t, r)" by (metis surj_pair)
  show ?thesis
    using assms take_bufs_concat [OF tr] take_bufs_bounds [OF tr]
    by (auto simp: sendNext_def up_def bytes_of_def writes_bounded_def tr Let_def)
qed

lemma sendNext_progress:
  assumes "up c" and "1000 \<le> now - tc_busy c" and "0 \<le> ret" and "tc_queue c \<noteq> []"
  shows "length (tc_queue (sendNext e now ret SEND_MAX c)) < length (tc_queue c)"
  using assms take_bufs_shrinks [of "tc_queue c" 0 SEND_MAX 0]
  by (auto simp: sendNext_def up_def SEND_MAX_def MAX_BUFS_PER_SEND_def Let_def split: prod.splits)

text \<open>The operations of a connection that stays up, and the data they accept.\<close>

fun undisturbed :: "tcp_op \<Rightarrow> bool" where
  "undisturbed (EnqueueOp d) = True"
| "undisturbed (PingOp now ret) = (0 \<le> ret)"
| "undisturbed (TcpWroteOp now ret) = (0 \<le> ret)"
| "undisturbed _ = False"

fun data_of :: "tcp_op \<Rightarrow> string" where
  "data_of (EnqueueOp d) = d"
| "data_of _ = []"

definition tcp_run :: "(int \<Rightarrow> tcp_conn \<Rightarrow> tcp_conn) \<Rightarrow> tcp_op list \<Rightarrow> tcp_conn \<Rightarrow> tcp_conn" where
  "tcp_run e ops c = fold (\<lambda>x c. tcp_step e c x) ops c"

lemma tcp_step_up:
  assumes "up c" "writes_bounded c" "undisturbed x"
  shows "up (tcp_step e c x) \<and> writes_bounded (tcp_step e c x) \<and> bytes_of (tcp_step e c x) = bytes_of c @ data_of x"
  using assms sendNext_up [of c] sendNext_up [of "c\<lparr>tc_busy := 0\<rparr>"]
  by (cases x) (auto simp: tcp_enqueueSend_def tcp_OnPing_def tcp_OnWrote_def up_def bytes_of_def writes_bounded_def)

lemma tcp_run_up:
  "up c \<Longrightarrow> writes_bounded c \<Longrightarrow> list_all undisturbed ops \<Longrightarrow>
     up (tcp_run e ops c) \<and> writes_bounded (tcp_run e ops c) \<and> bytes_of (tcp_run e ops c) = bytes_of c @ concat (map data_of ops)"
proof (induction ops arbitrary: c)
  case (Cons x ops)
  then have "up (tcp_step e c x)" "writes_bounded (tcp_step e c x)" "bytes_of (tcp_step e c x) = bytes_of c @ data_of x"
    using tcp_step_up [of c x e] by simp_all
  with Cons.IH [of "tcp_step e c x"] Cons.prems show ?case by (simp add: tcp_run_def)
qed (simp add: tcp_run_def)

lemma wrote_drains:
  "up c \<Longrightarrow> writes_bounded c \<Longrightarrow> 1000 \<le> now \<Longrightarrow> length (tc_queue c) \<le> n \<Longrightarrow>
     tc_queue (tcp_run e (replicate n (TcpWroteOp now 0)) c) = []"
proof (induction n arbitrary: c)
  case (Suc n)
  let ?c = "tcp_OnWrote e now 0 c"
  have "up (c\<lparr>tc_busy := 0\<rparr>)" "writes_bounded (c\<lparr>tc_busy := 0\<rparr>)"
    using Suc.prems(1,2) by (simp_all add: up_def writes_bounded_def)
  from sendNext_up [OF this(1) order_refl this(2), of e now] have "up ?c" "writes_bounded ?c"
    unfolding tcp_OnWrote_def by blast+
  moreover have "length (tc_queue ?c) \<le> n"
  proof (cases "tc_queue c = []")
    case True
    then show ?thesis by (simp add: tcp_OnWrote_def sendNext_def Let_def)
  next
    case False
    then show ?thesis
      using sendNext_progress [of "c\<lparr>tc_busy := 0\<rparr>" now 0 e] Suc.prems by (simp add: tcp_OnWrote_def up_def)
  qed
  ultimately show ?case using Suc.IH [of ?c] Suc.prems(3) by (simp add: tcp_run_def)
qed (simp add: tcp_run_def)

text \<open>
  C25. While a connection is up, what it hands to the socket is what was enqueued, byte for byte and in order, in calls of at
  most ten buffers; and after as many completed writes as buffers are waiting, everything enqueued has been handed over.
\<close>

theorem tcp_delivers_in_order:
  assumes "tc_active c" "tc_connected c" "tc_queue c = []" "tc_written c = []" and "list_all undisturbed ops" and "1000 \<le> now"
  shows "concat (concat (tc_written (tcp_run e ops c))) @ concat (tc_queue (tcp_run e ops c)) = concat (map data_of ops) \<and>
     (let c' = tcp_run e (replicate (length (tc_queue (tcp_run e ops c))) (TcpWroteOp now 0)) (tcp_run e ops c)
      in concat (concat (tc_written c')) = concat (map data_of ops) \<and> list_all (\<lambda>w. length w \<le> 10) (tc_written c'))"
proof -
  let ?c1 = "tcp_run e ops c" and ?ws = "replicate (length (tc_queue (tcp_run e ops c))) (TcpWroteOp now 0)"
  have 1: "up ?c1" "writes_bounded ?c1" "bytes_of ?c1 = concat (map data_of ops)"
    using tcp_run_up [of c ops e] assms by (simp_all add: up_def writes_bounded_def bytes_of_def)
  have "list_all undisturbed ?ws" "concat (map data_of ?ws) = []" by (simp_all add: list_all_iff)
  with tcp_run_up [OF 1(1,2), of ?ws e] 1(3)
  have 2: "writes_bounded (tcp_run e ?ws ?c1)" "bytes_of (tcp_run e ?ws ?c1) = concat (map data_of ops)" by simp_all
  have "tc_queue (tcp_run e ?ws ?c1) = []" by (rule wrote_drains [OF 1(1,2) assms(6)]) simp
  with 1 2 show ?thesis by (simp add: bytes_of_def writes_bounded_def list_all_iff MAX_BUFS_PER_SEND_def Let_def)
qed

theorem tcp_delivers_in_order_witness:
  "let c = tcp_OnConnected (tcp_new ''c1''); ops = [EnqueueOp ''GET '', PingOp 5000 0, EnqueueOp ''/a'', EnqueueOp '' HTTP''];
       c1 = tcp_run (\<lambda>_ c. c) ops c; c' = tcp_run (\<lambda>_ c. c) (replicate (length (tc_queue c1)) (TcpWroteOp 6000 0)) c1
   in concat (concat (tc_written c')) = ''GET /a HTTP'' \<and> list_all (\<lambda>w. length w \<le> 10) (tc_written c')"
proof -
  define c where "c = tcp_OnConnected (tcp_new ''c1'')"
  define ops where "ops = [EnqueueOp ''GET '', PingOp 5000 0, EnqueueOp ''/a'', EnqueueOp '' HTTP'']"
  have c: "tc_active c" "tc_connected c" "tc_queue c = []" "tc_written c = []" "list_all undisturbed ops" "concat (map data_of ops) = ''GET /a HTTP''"
    by (simp_all add: c_def ops_def tcp_OnConnected_def tcp_new_def)
  have n: "(1000::int) \<le> 6000" by simp
  show ?thesis
    unfolding c_def [symmetric] ops_def [symmetric] Let_def
    using tcp_delivers_in_order [OF c(1-5) n, of "\<lambda>_ c. c"] unfolding c(6) Let_def by (rule conjunct2)
qed

text \<open>Data that is enqueued before the connection is established is thrown away by the next ping; a failed write loses its buffers.\<close>

lemma early_data_lost: "\<not> tc_connected c \<Longrightarrow> tc_queue (tcp_OnPing e now ret c) = []"
  by (simp add: tcp_OnPing_def sendNext_def)

subsection \<open>Sequence numbers, loops and the server\<close>

text \<open>Sequence numbers count from 2 up to \<open>MAX_CSEQ - 1\<close> and start again, so that they repeat after \<open>MAX_CSEQ - 2\<close> calls.\<close>

lemma lastCSeq_next:
  "1 \<le> n \<Longrightarrow> n < MAX_CSEQ \<Longrightarrow> lastCSeq n = (let v = (if n = MAX_CSEQ - 1 then 2 else n + 1) in (v, v)) \<and> 2 \<le> snd (lastCSeq n) \<and> snd (lastCSeq n) < MAX_CSEQ"
  by (auto simp: lastCSeq_def cseq_ok_def MAX_CSEQ_def Let_def)

lemma lastCSeq_cycle:
  "((\<lambda>n. fst (lastCSeq n)) ^^ k) 2 = 2 + int k mod (MAX_CSEQ - 2)"
proof (induction k)
  case (Suc k)
  let ?m = "int k mod (MAX_CSEQ - 2)"
  have "0 \<le> ?m" "?m < MAX_CSEQ - 2" by (simp_all add: MAX_CSEQ_def)
  moreover have "(?m + 1) mod (MAX_CSEQ - 2) = (if ?m = MAX_CSEQ - 3 then 0 else ?m + 1)"
    using calculation by (auto simp: mod_pos_pos_trivial)
  ultimately have "fst (lastCSeq (2 + ?m)) = 2 + (?m + 1) mod (MAX_CSEQ - 2)"
    using lastCSeq_next [of "2 + ?m"] by (auto simp: Let_def)
  then show ?case using Suc by (simp add: mod_add_right_eq add.commute)
qed simp

text \<open>Connections go to the loops in turn.\<close>

fun accepts :: "nat \<Rightarrow> tcp_server \<Rightarrow> tcp_server \<times> int option list" where
  "accepts 0 s = (s, [])"
| "accepts (Suc n) s = (case doAccept 0 s of (s1, l) \<Rightarrow> (case accepts n s1 of (s2, ls) \<Rightarrow> (s2, l # ls)))"

lemma accepts_in_turn:
  assumes "thrdLoops s \<noteq> []" and "k < n"
  shows "snd (accepts n s) ! k = Some (thrdLoops s ! ((idxLoop s + k + 1) mod length (thrdLoops s)))"
  using assms
proof (induction n arbitrary: s k)
  case (Suc n)
  let ?s1 = "s\<lparr>idxLoop := (idxLoop s + 1) mod length (thrdLoops s)\<rparr>"
  have d: "doAccept 0 s = (?s1, Some (thrdLoops s ! ((idxLoop s + 1) mod length (thrdLoops s))))"
    using Suc.prems by (simp add: doAccept_def Let_def)
  have "((idxLoop s + 1) mod length (thrdLoops s) + j + 1) mod length (thrdLoops s) = (idxLoop s + Suc j + 1) mod length (thrdLoops s)" for j
    by (metis add.assoc add_Suc_right mod_add_left_eq plus_1_eq_Suc)
  then show ?case
    using Suc.IH [of ?s1 "k - 1"] Suc.prems by (cases k) (auto simp: d split: prod.split)
qed simp

text \<open>After a start that failed to bind or to listen, the next one reports success without trying again.\<close>

lemma start_after_failed_bind:
  assumes "\<not> soService s" and "thrdLoops (fst (tcp_start b1 l1 s)) \<noteq> []"
  shows "snd (tcp_start b2 l2 (fst (tcp_start b1 l1 s)))"
  using assms by (auto simp: tcp_start_def Let_def)

text \<open>A poll pings every connection of the loop, whichever were to be woken.\<close>

lemma poll_pings_all: "snd (loop_poll hb (loop_ping i l)) = map fst (pingMap l)"
  by (simp add: loop_poll_def loop_ping_def)

end
