(* ===== verification/Rtsp_Message.thy ===== *)
theory Rtsp_Message
  imports Str_Helper Url_Str
begin

text \<open>
  Messages of RTSP (eloop/Http/LibHttp: RTSPMessage.cpp and the class of RTSPConnection.h), their methods and status codes,
  and the text that \<open>toRaw\<close> writes. The date is an argument.
\<close>

subsection \<open>Messages\<close>

datatype rtsp_type = RTSP_MSG_REQUEST | RTSP_MSG_RESPONSE

datatype rtsp_method =
  mtdUNKNOWN | mtdSETUP | mtdPLAY | mtdPAUSE | mtdTEARDOWN | mtdGET_PARAMETER | mtdSET_PARAMETER | mtdDESCRIBE | mtdOPTIONS | mtdANNOUNCE

record rtsp_message =
  rm_connId :: string
  rm_type :: rtsp_type
  rm_headers :: "(string \<times> string) list"
  rm_bodyLen :: uint32
  rm_body :: string
  rm_cSeq :: uint32
  rm_raw :: string
  rm_status :: string
  rm_code :: int
  rm_method :: rtsp_method
  rm_url :: string
  rm_version :: string

text \<open>\<open>found\<close>: what the members without an initial value hold.\<close>

definition rtsp_new :: "int \<times> rtsp_method \<Rightarrow> string \<Rightarrow> rtsp_type \<Rightarrow> rtsp_message" where
  "rtsp_new found cid ty =
     \<lparr>rm_connId = cid, rm_type = ty, rm_headers = [], rm_bodyLen = 0, rm_body = [], rm_cSeq = - 1, rm_raw = [], rm_status = [],
      rm_code = fst found, rm_method = snd found, rm_url = [], rm_version = []\<rparr>"

fun methodToStr :: "rtsp_method \<Rightarrow> string" where
  "methodToStr mtdSETUP = ''SETUP''"
| "methodToStr mtdPLAY = ''PLAY''"
| "methodToStr mtdPAUSE = ''PAUSE''"
| "methodToStr mtdTEARDOWN = ''TEARDOWN''"
| "methodToStr mtdGET_PARAMETER = ''GET_PARAMETER''"
| "methodToStr mtdSET_PARAMETER = ''SET_PARAMETER''"
| "methodToStr mtdDESCRIBE = ''DESCRIBE''"
| "methodToStr mtdANNOUNCE = ''ANNOUNCE''"
| "methodToStr mtdOPTIONS = ''OPTIONS''"
| "methodToStr mtdUNKNOWN = ''UNKNOWN''"

definition known_methods :: "rtsp_method list" where
  "known_methods = [mtdSETUP, mtdPLAY, mtdPAUSE, mtdTEARDOWN, mtdGET_PARAMETER, mtdSET_PARAMETER, mtdDESCRIBE, mtdANNOUNCE, mtdOPTIONS]"

definition strToMethod :: "string \<Rightarrow> rtsp_method" where
  "strToMethod s =
     (case List.find (\<lambda>m. map to_lower (c_str s) = map to_lower (methodToStr m)) known_methods of None \<Rightarrow> mtdUNKNOWN | Some m \<Rightarrow> m)"

definition RtspCode2Str :: "(int \<times> string) list" where
  "RtspCode2Str =
     [(100, ''Continue''), (200, ''OK''), (201, ''Created''), (250, ''Low on Storage Space''), (300, ''Multiple Choices''),
      (301, ''Moved Permanently''), (302, ''Moved Temporarily''), (303, ''See Other''), (304, ''Not Modified''), (305, ''Use Proxy''),
      (400, ''Bad Request''), (401, ''Unauthorized''), (402, ''Payment Required''), (403, ''Forbidden''), (404, ''Not Found''),
      (405, ''Method Not Allowed''), (406, ''Not Acceptable''), (407, ''Proxy Authentication Required''), (408, ''Request Time-out''),
      (410, ''Gone''), (411, ''Length Required''), (412, ''Precondition Failed''), (413, ''Request Entity Too Large''),
      (414, ''Request-URI Too Large''), (415, ''Unsupported Media Type''), (451, ''Parameter Not Understood''),
      (452, ''Conference Not Found''), (453, ''Not Enough Bandwidth''), (454, ''Session Not Found''),
      (455, ''Method Not Valid in This State''), (456, ''Header Field Not Valid for Resource''), (457, ''Invalid Range''),
      (458, ''Parameter Is Read-Only''), (459, ''Aggregate operation not allowed''), (460, ''Only aggregate operation allowed''),
      (461, ''Unsupported transport''), (462, ''Destination unreachable''), (500, ''Internal Server Error''), (501, ''Not Implemented''),
      (502, ''Bad Gateway''), (503, ''Service Unavailable''), (504, ''Gateway Time-out''), (505, ''Rtsp Version not supported''),
      (551, ''Option not supported'')]"

definition rtsp_code2status :: "int \<Rightarrow> string" where
  "rtsp_code2status c = (case map_of RtspCode2Str c of None \<Rightarrow> ''unknown'' | Some s \<Rightarrow> s)"

definition rtsp_header :: "string \<Rightarrow> rtsp_message \<Rightarrow> string" where
  "rtsp_header k m = (case map_of (rm_headers m) k of None \<Rightarrow> [] | Some v \<Rightarrow> v)"

definition rtsp_set_header :: "string \<Rightarrow> string \<Rightarrow> rtsp_message \<Rightarrow> rtsp_message" where
  "rtsp_set_header k v m = m\<lparr>rm_headers := (if v = [] then smap_erase k (rm_headers m) else smap_set k v (rm_headers m))\<rparr>"

text \<open>The declared length, read as an \<open>int\<close>; adding to the body sets it to the size of the body so far.\<close>

definition rtsp_contentLength :: "rtsp_message \<Rightarrow> int" where
  "rtsp_contentLength m = sint (rm_bodyLen m)"

definition set_contentLength :: "int \<Rightarrow> rtsp_message \<Rightarrow> rtsp_message" where
  "set_contentLength n m = m\<lparr>rm_bodyLen := word_of_int n\<rparr>"

definition appendBody :: "string \<Rightarrow> rtsp_message \<Rightarrow> rtsp_message" where
  "appendBody d m = (if d = [] then m else m\<lparr>rm_body := rm_body m @ d, rm_bodyLen := of_nat (length (rm_body m @ d))\<rparr>)"

definition setBody :: "string \<Rightarrow> rtsp_message \<Rightarrow> rtsp_message" where
  "setBody d m = m\<lparr>rm_body := d, rm_bodyLen := of_nat (length d)\<rparr>"

definition rtsp_less :: "rtsp_message \<Rightarrow> rtsp_message \<Rightarrow> bool" where
  "rtsp_less i j \<longleftrightarrow> rm_cSeq i < rm_cSeq j"

subsection \<open>Text\<close>

definition line_term :: string where
  "line_term = [CHR 0x0D, CHR 0x0A]"

definition rtsp_start_line :: "rtsp_message \<Rightarrow> string" where
  "rtsp_start_line m =
     (if rm_type m \<noteq> RTSP_MSG_RESPONSE then methodToStr (rm_method m) @ '' '' @ rm_url m @ '' '' @ ''RTSP/1.0''
      else ''RTSP/1.0'' @ '' '' @ itoa (rm_code m) @ '' '' @ rm_status m)"

definition rtsp_settle :: "string \<Rightarrow> rtsp_message \<Rightarrow> rtsp_message" where
  "rtsp_settle date m =
     (let m0 = (if rm_type m = RTSP_MSG_RESPONSE \<and> rm_status m = [] then m\<lparr>rm_status := rtsp_code2status (rm_code m)\<rparr> else m);
          h1 = (if rm_bodyLen m0 = 0 then smap_erase ''Content-Length'' (rm_headers m0)
                else smap_set ''Content-Length'' (itoa (uint (rm_bodyLen m0))) (rm_headers m0));
          h2 = smap_set ''Date'' date h1;
          h3 = (if rm_cSeq m0 > 0 then smap_set ''CSeq'' (itoa (uint (rm_cSeq m0))) h2 else h2)
      in m0\<lparr>rm_headers := h3\<rparr>)"

definition rtsp_header_lines :: "(string \<times> string) list \<Rightarrow> string" where
  "rtsp_header_lines hs = concat (map (\<lambda>(k, v). k @ '': '' @ v @ line_term) hs)"

definition toRaw :: "string \<Rightarrow> rtsp_message \<Rightarrow> rtsp_message \<times> string" where
  "toRaw date m =
     (if rm_raw m \<noteq> [] then (m, rm_raw m)
      else (let m1 = rtsp_settle date m;
                raw = rtsp_start_line m1 @ line_term @ rtsp_header_lines (rm_headers m1) @ line_term @ rm_body m1
            in (m1\<lparr>rm_raw := raw\<rparr>, raw)))"

subsection \<open>Pairs\<close>

text \<open>\<open>splitStrPair\<close>: pairs of key and value between delimiters; \<open>None\<close> is \<open>npos\<close>.\<close>

definition at_or_end :: "string \<Rightarrow> nat option \<Rightarrow> nat" where
  "at_or_end s p = (case p of None \<Rightarrow> length s | Some n \<Rightarrow> n)"

definition one_pair :: "string \<Rightarrow> nat \<Rightarrow> nat option \<Rightarrow> nat option \<Rightarrow> string \<times> string" where
  "one_pair s cur eq del =
     (case eq of
        Some e \<Rightarrow>
          if (case del of None \<Rightarrow> True | Some d \<Rightarrow> e < d)
          then (take (e - cur) (drop cur s), take (at_or_end s del - e - 1) (drop (e + 1) s))
          else (take (at_or_end s del - cur) (drop cur s), [])
      | None \<Rightarrow> (take (at_or_end s del - cur) (drop cur s), []))"

function split_pairs :: "string \<Rightarrow> string \<Rightarrow> nat \<Rightarrow> (string \<times> string) list" where
  "split_pairs s delim cur =
     (let del = find_str delim s cur;
          (k, v) = one_pair s cur (find_char CHR ''='' s cur) del;
          k' = fst (TrimExtra k ('' '' @ [CHR 0x09])); v' = fst (TrimExtra v ('' '' @ [CHR 0x09]));
          rest = (case del of None \<Rightarrow> [] | Some d \<Rightarrow> if delim = [] then [] else split_pairs s delim (d + length delim))
      in if k' = [] then rest else (k', v') # rest)"
  by pat_completeness auto

termination
  by (relation "measure (\<lambda>(s, delim, cur). Suc (length s) - cur)")
    (auto dest!: find_str_Some [OF sym] simp: Suc_diff_le simp flip: length_greater_0_conv)

declare split_pairs.simps [simp del]

text \<open>With an empty delimiter the loop of the code does not end: \<open>None\<close>.\<close>

definition splitStrPair :: "string \<Rightarrow> string \<Rightarrow> (string \<times> string) list option" where
  "splitStrPair s delim = (if s = [] then Some [] else if delim = [] then None else Some (split_pairs s delim 0))"

end
