(* ===== verification/Rtsp_Parse.thy ===== *)
theory Rtsp_Parse
  imports Rtsp_Message Tcp_Server
begin

text \<open>
  \<open>RTSPConnection\<close> (RTSPConnection.h, RTSPConnection.cpp): how received bytes become messages, how requests are sent and
  what awaits a response. The parser works in the receive buffer, where it writes string terminators; the list of bytes
  from the reading position on stands for it. The clock and the date text are arguments.
\<close>

subsection \<open>Lines\<close>

definition is_blank :: "char \<Rightarrow> bool" where
  "is_blank c \<longleftrightarrow> c = CHR '' '' \<or> c = CHR 0x09"

definition rtsp_trim :: "string \<Rightarrow> string" where
  "rtsp_trim s = rev (dropWhile is_blank (rev (dropWhile is_blank (c_str s))))"

text \<open>\<open>nextLine\<close>: how many bytes were skipped, the line up to its end or first NUL, and the buffer with the NUL written at
  the end of the line.\<close>

definition is_skipped :: "char \<Rightarrow> bool" where
  "is_skipped c \<longleftrightarrow> c = CHR 0x00 \<or> c = CHR 0x0A"

definition is_eol :: "char \<Rightarrow> bool" where
  "is_eol c \<longleftrightarrow> c = CHR 0x0D \<or> c = CHR 0x0A"

definition nextLine :: "string \<Rightarrow> (nat \<times> string \<times> string) option" where
  "nextLine buf =
     (let k = length (takeWhile is_skipped buf); body = drop k buf; m = length (takeWhile (\<lambda>c. \<not> is_eol c) body)
      in if m = length body then None else Some (k, c_str (take m body), buf[k + m := CHR 0x00]))"

subsection \<open>Messages from lines\<close>

record parser_msg =
  pm_startLine :: string
  pm_headerCompleted :: bool
  pm_bodyRead :: nat
  pm_msg :: rtsp_message

definition pm_fresh :: "int \<times> rtsp_method \<Rightarrow> parser_msg" where
  "pm_fresh found = \<lparr>pm_startLine = [], pm_headerCompleted = False, pm_bodyRead = 0, pm_msg = rtsp_new found [] RTSP_MSG_REQUEST\<rparr>"

text \<open>A header line: its effect on the message, and the NUL that is written over the colon.\<close>

definition store_header :: "string \<Rightarrow> string \<Rightarrow> rtsp_message \<Rightarrow> rtsp_message" where
  "store_header k v m =
     (let m1 = (if k \<noteq> [] \<and> v \<noteq> [] then rtsp_set_header k v m else m);
          m2 = (if k = ''Content-Length'' then set_contentLength (atoi v) m1 else m1)
      in if k = ''CSeq'' then m2\<lparr>rm_cSeq := word_of_int (atoi v)\<rparr> else m2)"

definition take_header :: "string \<Rightarrow> rtsp_message \<Rightarrow> rtsp_message" where
  "take_header line m =
     (case find_char CHR '':'' line 0 of None \<Rightarrow> m | Some p \<Rightarrow> store_header (rtsp_trim (take p line)) (rtsp_trim (drop (p + 1) line)) m)"

definition cut_colon :: "nat \<Rightarrow> string \<Rightarrow> string \<Rightarrow> string" where
  "cut_colon k line buf = (case find_char CHR '':'' line 0 of None \<Rightarrow> buf | Some p \<Rightarrow> buf[k + p := CHR 0x00])"

lemma nextLine_length: "nextLine buf = Some (k, line, buf1) \<Longrightarrow> length buf1 = length buf"
  by (auto simp: nextLine_def Let_def split: if_splits)

lemma cut_colon_length [simp]: "length (cut_colon k line buf) = length buf"
  by (simp add: cut_colon_def split: option.split)

text \<open>The lines of a header: the rest of the buffer, the message, and whether the end of the data was met first. The position
  moves on by the length of the line and two, whatever was skipped before the line.\<close>

function header_loop :: "string \<Rightarrow> parser_msg \<Rightarrow> string \<times> parser_msg \<times> bool" where
  "header_loop buf cur =
     (if buf = [] then (buf, cur, False)
      else case nextLine buf of
             None \<Rightarrow> (buf, cur, True)
           | Some (k, line, buf1) \<Rightarrow>
               if line = [] then
                 (if pm_startLine cur \<noteq> [] then (drop 2 buf1, cur\<lparr>pm_headerCompleted := True\<rparr>, False) else header_loop (drop 2 buf1) cur)
               else if pm_startLine cur = [] then header_loop (drop (length line + 2) buf1) (cur\<lparr>pm_startLine := line\<rparr>)
               else header_loop (drop (length line + 2) (cut_colon k line buf1)) (cur\<lparr>pm_msg := take_header line (pm_msg cur)\<rparr>))"
  by pat_completeness auto

termination
  by (relation "measure (\<lambda>(buf, cur). length buf)") (auto dest!: nextLine_length)

declare header_loop.simps [simp del]

lemma header_loop_consumes:
  "header_loop buf cur = (buf', cur', fin) \<Longrightarrow> length buf' \<le> length buf \<and> (buf \<noteq> [] \<longrightarrow> length buf' < length buf \<or> fin)"
proof (induction buf cur arbitrary: buf' cur' fin rule: header_loop.induct)
  case (1 buf cur)
  show ?case
  proof (cases "buf = [] \<or> nextLine buf = None")
    case True
    then show ?thesis using 1(4) by (subst (asm) header_loop.simps) (auto split: if_splits)
  next
    case False
    then obtain k line buf1 where n: "buf \<noteq> []" "nextLine buf = Some (k, line, buf1)" by (cases "nextLine buf") auto
    note l = nextLine_length [OF n(2)]
    have pos: "0 < length buf" using n by simp
    consider (blank) "line = []" "pm_startLine cur \<noteq> []"
      | (bad) "line = []" "pm_startLine cur = []"
      | (first) "line \<noteq> []" "pm_startLine cur = []"
      | (hdr) "line \<noteq> []" "pm_startLine cur \<noteq> []" by blast
    then show ?thesis
    proof cases
      case blank
      then show ?thesis using 1(4) n l pos by (subst (asm) header_loop.simps) auto
    next
      case bad
      then have "header_loop (drop 2 buf1) cur = (buf', cur', fin)"
        using 1(4) n by (subst (asm) header_loop.simps) simp
      from 1(1) [OF n(1,2) refl refl bad(1) _ this] bad l pos show ?thesis by auto
    next
      case first
      then have "header_loop (drop (length line + 2) buf1) (cur\<lparr>pm_startLine := line\<rparr>) = (buf', cur', fin)"
        using 1(4) n by (subst (asm) header_loop.simps) simp
      from 1(2) [OF n(1,2) refl refl first this] l pos show ?thesis by auto
    next
      case hdr
      then have "header_loop (drop (length line + 2) (cut_colon k line buf1)) (cur\<lparr>pm_msg := take_header line (pm_msg cur)\<rparr>) = (buf', cur', fin)"
        using 1(4) n by (subst (asm) header_loop.simps) simp
      from 1(3) [OF n(1,2) refl refl hdr this] l pos show ?thesis by auto
    qed
  qed
qed

text \<open>The start line: \<open>None\<close> for the answer false. The code looks for the protocol with \<open>find() <= 0\<close>.\<close>

definition parseStartLine :: "string \<Rightarrow> rtsp_message \<Rightarrow> rtsp_message option" where
  "parseStartLine startLine m =
     (if startLine = [] then None
      else (let p = dropWhile is_blank (c_str startLine); cmd = takeWhile (\<lambda>c. \<not> is_blank c) p; q = drop (length cmd + 1) p;
                cmdName = rtsp_trim cmd
            in case find_str ''RTSP/'' q 0 of
                 None \<Rightarrow>
                   if find_str ''RTSP/'' cmdName 0 = Some 0 then None
                   else (let code = takeWhile (\<lambda>c. \<not> is_blank c) q
                         in Some (m\<lparr>rm_type := RTSP_MSG_RESPONSE, rm_status := rtsp_trim (drop (length code) q), rm_code := atoi code,
                              rm_version := cmdName\<rparr>))
               | Some i \<Rightarrow>
                   Some (m\<lparr>rm_type := RTSP_MSG_REQUEST, rm_method := strToMethod cmdName,
                     rm_url := rtsp_trim (if i = 0 then q else take (i - 1) q), rm_version := rtsp_trim (drop i q)\<rparr>)))"

subsection \<open>Parsing what was read\<close>

record parse_out =
  po_resps :: "rtsp_message list"
  po_reqs :: "rtsp_message list"
  po_errors :: "string list"

definition no_out :: parse_out where
  "no_out = \<lparr>po_resps = [], po_reqs = [], po_errors = []\<rparr>"

text \<open>The part of the body that is there; what becomes of a message whose body is complete.\<close>

definition body_step :: "string \<Rightarrow> parser_msg \<Rightarrow> string \<times> parser_msg" where
  "body_step buf cur =
     (let cl = rtsp_contentLength (pm_msg cur); want = (if cl > 0 then nat (cl - int (pm_bodyRead cur)) else 0); len = min want (length buf)
      in (drop len buf, cur\<lparr>pm_msg := appendBody (take len buf) (pm_msg cur), pm_bodyRead := pm_bodyRead cur + len\<rparr>))"

definition finish_msg :: "parser_msg \<Rightarrow> parse_out \<Rightarrow> parse_out" where
  "finish_msg cur out =
     (if rm_cSeq (pm_msg cur) \<le> 0 then out
      else case parseStartLine (pm_startLine cur) (pm_msg cur) of
             None \<Rightarrow> out\<lparr>po_errors := po_errors out @ [pm_startLine cur]\<rparr>
           | Some m \<Rightarrow>
               if rm_type m = RTSP_MSG_REQUEST then out\<lparr>po_reqs := po_reqs out @ [m]\<rparr> else out\<lparr>po_resps := po_resps out @ [m]\<rparr>)"

lemma body_step_length:
  "body_step buf cur = (buf1, cur1) \<Longrightarrow> length buf1 \<le> length buf \<and>
     (int (pm_bodyRead cur1) < rtsp_contentLength (pm_msg cur1) \<longrightarrow>
        buf \<noteq> [] \<or> rtsp_contentLength (pm_msg cur) = 0 \<longrightarrow> length buf1 < length buf)"
  by (cases "min (if rtsp_contentLength (pm_msg cur) > 0 then nat (rtsp_contentLength (pm_msg cur) - int (pm_bodyRead cur)) else 0) (length buf) = 0")
     (auto simp: body_step_def Let_def appendBody_def min_def split: if_splits)

definition parse_measure :: "((int \<times> rtsp_method) \<times> string \<times> parser_msg \<times> bool \<times> parse_out) rel" where
  "parse_measure = measures [\<lambda>(found, buf, cur, fin, out). length buf, \<lambda>(found, buf, cur, fin, out). if fin then 0 else 1,
     \<lambda>(found, buf, cur, fin, out). if pm_headerCompleted cur then 1 else 0]"

function parse_loop :: "int \<times> rtsp_method \<Rightarrow> string \<Rightarrow> parser_msg \<Rightarrow> bool \<Rightarrow> parse_out \<Rightarrow> string \<times> parser_msg \<times> parse_out" where
  "parse_loop found buf cur fin out =
     (if buf \<noteq> [] \<and> \<not> fin \<or> pm_headerCompleted cur \<and> rtsp_contentLength (pm_msg cur) = 0
      then (if pm_headerCompleted cur
            then (case body_step buf cur of
                    (buf1, cur1) \<Rightarrow>
                      if int (pm_bodyRead cur1) < rtsp_contentLength (pm_msg cur1) then parse_loop found buf1 cur1 fin out
                      else parse_loop found buf1 (pm_fresh found) fin (finish_msg cur1 out))
            else (case header_loop buf cur of (buf1, cur1, fin1) \<Rightarrow> parse_loop found buf1 cur1 fin1 out))
      else (buf, cur, out))"
  by pat_completeness auto

termination
  by (relation parse_measure)
    (auto simp: parse_measure_def pm_fresh_def dest!: body_step_length [OF sym] header_loop_consumes [OF sym])

declare parse_loop.simps [simp del]

subsection \<open>The connection\<close>

datatype rtsp_event =
    ResponseEv rtsp_message
  | RequestEv rtsp_message
  | RequestDoneEv uint32 int
  | ParseErrorEv string
  | ConnectEv string

definition RtspReqTimeout :: int where "RtspReqTimeout = - 10002"
definition RTSP_RECV_BUF_SIZE :: nat where "RTSP_RECV_BUF_SIZE = 8 * 1024"

text \<open>\<open>rc_seen\<close>: the bytes in the receive buffer that are not parsed yet. \<open>rc_found\<close>: what uninitialised members of messages hold.\<close>

record rtsp_conn =
  rc_tcp :: tcp_conn
  rc_seen :: string
  rc_cur :: parser_msg
  rc_awaits :: "(uint32 \<times> rtsp_message \<times> int) list"
  rc_timeout :: int
  rc_reqList :: "rtsp_message list"
  rc_found :: "int \<times> rtsp_method"
  rc_events :: "rtsp_event list"

definition rtsp_conn_new :: "string \<Rightarrow> int \<Rightarrow> int \<times> rtsp_method \<Rightarrow> rtsp_conn" where
  "rtsp_conn_new i timeout found =
     \<lparr>rc_tcp = tcp_new i, rc_seen = [], rc_cur = pm_fresh found, rc_awaits = [], rc_timeout = timeout, rc_reqList = [], rc_found = found,
      rc_events = []\<rparr>"

definition notify :: "rtsp_event \<Rightarrow> rtsp_conn \<Rightarrow> rtsp_conn" where
  "notify e c = c\<lparr>rc_events := rc_events c @ [e]\<rparr>"

definition rtsp_doAllocate :: "rtsp_conn \<Rightarrow> rtsp_conn \<times> nat" where
  "rtsp_doAllocate c =
     (let c1 = (if RTSP_RECV_BUF_SIZE \<le> length (rc_seen c) then c\<lparr>rc_seen := []\<rparr> else c) in (c1, RTSP_RECV_BUF_SIZE - length (rc_seen c1)))"

definition deliver_response :: "rtsp_message \<Rightarrow> rtsp_conn \<Rightarrow> rtsp_conn" where
  "deliver_response resp c =
     (let r = resp\<lparr>rm_connId := tc_ident (rc_tcp c)\<rparr>
      in case map_of (rc_awaits c) (rm_cSeq r) of
           None \<Rightarrow> c
         | Some _ \<Rightarrow> (notify (RequestDoneEv (rm_cSeq r) (rm_code r)) (notify (ResponseEv r) c))\<lparr>rc_awaits := smap_erase (rm_cSeq r) (rc_awaits c)\<rparr>)"

definition deliver_request :: "rtsp_message \<Rightarrow> rtsp_conn \<Rightarrow> rtsp_conn" where
  "deliver_request req c = notify (RequestEv (req\<lparr>rm_connId := tc_ident (rc_tcp c)\<rparr>)) c"

text \<open>\<open>parse\<close>: \<open>buf\<close> is what the buffer holds up to the end of what was read. \<open>std::sort\<close> may order messages of equal number
  in any way; here they keep their order.\<close>

definition rtsp_parse :: "string \<Rightarrow> rtsp_conn \<Rightarrow> rtsp_conn" where
  "rtsp_parse buf c =
     (case parse_loop (rc_found c) buf (rc_cur c) False no_out of
        (rest, cur, out) \<Rightarrow>
          (let c1 = fold (\<lambda>l. notify (ParseErrorEv l)) (po_errors out) (c\<lparr>rc_seen := rest, rc_cur := cur\<rparr>);
               c2 = fold deliver_response (sort_key rm_cSeq (po_resps out)) c1
           in fold deliver_request (po_reqs out) c2))"

text \<open>A negative \<open>nread\<close> is an error of the socket; the code adds it to the bytes it has.\<close>

definition rtsp_OnRead :: "int \<Rightarrow> string \<Rightarrow> rtsp_conn \<Rightarrow> rtsp_conn" where
  "rtsp_OnRead nread data c =
     (if nread = 0 then c
      else rtsp_parse (if nread > 0 then rc_seen c @ data else take (nat (int (length (rc_seen c)) + nread)) (rc_seen c)) c)"

definition rtsp_receive :: "string \<Rightarrow> rtsp_conn \<Rightarrow> rtsp_conn" where
  "rtsp_receive data c = (case rtsp_doAllocate c of (c1, room) \<Rightarrow> rtsp_OnRead (int (length (take room data))) (take room data) c1)"

definition sendRequest :: "int \<Rightarrow> string \<Rightarrow> int \<Rightarrow> bool \<Rightarrow> rtsp_message \<Rightarrow> rtsp_conn \<Rightarrow> rtsp_conn \<times> rtsp_message \<times> int" where
  "sendRequest now date timeout expectResp req c =
     (if \<not> tc_connected (rc_tcp c) then (notify (ConnectEv (rm_url req)) (c\<lparr>rc_reqList := rc_reqList c @ [req]\<rparr>), req, 0)
      else (let (n, cseq) = lastCSeq (tc_lastCSeq (rc_tcp c));
                req1 = req\<lparr>rm_cSeq := word_of_int cseq\<rparr>;
                c1 = c\<lparr>rc_tcp := rc_tcp c\<lparr>tc_lastCSeq := n\<rparr>\<rparr>;
                c2 = (if expectResp
                      then (let t = (if timeout > 0 then timeout else rc_timeout c)
                            in c1\<lparr>rc_timeout := t, rc_awaits := smap_insert (rm_cSeq req1) (req1, now + t) (rc_awaits c1)\<rparr>)
                      else c1);
                (req2, raw) = toRaw date req1
            in (c2\<lparr>rc_tcp := fst (tcp_enqueueSend raw (rc_tcp c2))\<rparr>, req2, cseq)))"

text \<open>\<open>OnConnected\<close> erases from a vector behind an iterator that was moved on already: the iterator then stands one element
  further, and beyond the end after the last one. \<open>None\<close>: it reads there.\<close>

function flush_requests :: "int \<Rightarrow> string \<Rightarrow> nat \<Rightarrow> rtsp_message list \<Rightarrow> rtsp_conn \<Rightarrow> rtsp_conn option" where
  "flush_requests now date i rs c =
     (if i = length rs then Some c
      else if i > length rs then None
      else flush_requests now date (Suc i) (take i rs @ drop (Suc i) rs) (fst (sendRequest now date 500 True (rs ! i) c)))"
  by pat_completeness auto

termination
  by (relation "measure (\<lambda>(now, date, i, rs, c). length rs)") auto

declare flush_requests.simps [simp del]

definition rtsp_OnConnected :: "int \<Rightarrow> string \<Rightarrow> rtsp_conn \<Rightarrow> rtsp_conn option" where
  "rtsp_OnConnected now date c =
     (let c1 = c\<lparr>rc_tcp := tcp_OnConnected (rc_tcp c)\<rparr>
      in map_option (\<lambda>c2. c2\<lparr>rc_reqList := []\<rparr>) (flush_requests now date 0 (rc_reqList c1) c1))"

definition rtsp_OnTimer :: "int \<Rightarrow> rtsp_conn \<Rightarrow> rtsp_conn" where
  "rtsp_OnTimer now c =
     fold (\<lambda>(k, _). notify (RequestDoneEv k RtspReqTimeout)) (filter (\<lambda>(k, r, e). e < now) (rc_awaits c))
       (c\<lparr>rc_awaits := filter (\<lambda>(k, r, e). \<not> e < now) (rc_awaits c)\<rparr>)"

end
