(* ===== verification/Rtsp_Props.thy ===== *)
theory Rtsp_Props
  imports Rtsp_Parse
begin

text \<open>What arrives: requests written by \<open>toRaw\<close> are read back, responses are not, and where a message is cut matters.\<close>

subsection \<open>Lines\<close>

definition text_ok :: "string \<Rightarrow> bool" where
  "text_ok s \<longleftrightarrow> set s \<inter> {CHR 0x00, CHR 0x0D, CHR 0x0A} = {}"

definition trimmed :: "string \<Rightarrow> bool" where
  "trimmed s \<longleftrightarrow> s \<noteq> [] \<and> \<not> is_blank (hd s) \<and> \<not> is_blank (last s)"

lemma text_ok_c_str: "text_ok s \<Longrightarrow> c_str s = s"
  by (auto simp: text_ok_def c_str_no_nul)

lemma text_ok_append [simp]: "text_ok (s @ t) \<longleftrightarrow> text_ok s \<and> text_ok t"
  by (auto simp: text_ok_def)

lemma nextLine_text:
  assumes "text_ok l"
  shows "nextLine (l @ line_term @ rest) = Some (0, l, l @ CHR 0x00 # CHR 0x0A # rest)"
proof -
  let ?b = "l @ CHR 0x0D # CHR 0x0A # rest"
  have k: "takeWhile is_skipped ?b = []"
    using assms by (cases l) (auto simp: is_skipped_def text_ok_def)
  have m: "takeWhile (\<lambda>c. \<not> is_eol c) ?b = l"
    using assms by (subst takeWhile_append2) (auto simp: text_ok_def is_eol_def)
  have "nextLine ?b = Some (0, l, l @ CHR 0x00 # CHR 0x0A # rest)"
    unfolding nextLine_def Let_def k using m text_ok_c_str [OF assms] by (simp add: list_update_append)
  then show ?thesis by (simp add: line_term_def)
qed

lemma dropWhile_blank_id: "trimmed s \<Longrightarrow> dropWhile is_blank s = s"
  by (cases s) (auto simp: trimmed_def)

lemma rtsp_trim_id: "trimmed s \<Longrightarrow> text_ok s \<Longrightarrow> rtsp_trim s = s"
proof -
  assume s: "trimmed s" "text_ok s"
  then have "dropWhile is_blank (rev s) = rev s" by (cases s rule: rev_cases) (auto simp: trimmed_def)
  with s show ?thesis by (simp add: rtsp_trim_def text_ok_c_str dropWhile_blank_id)
qed

lemma rtsp_trim_space: "trimmed s \<Longrightarrow> text_ok s \<Longrightarrow> rtsp_trim (CHR '' '' # s) = s"
proof -
  assume s: "trimmed s" "text_ok s"
  then have "c_str (CHR '' '' # s) = CHR '' '' # s" by (intro text_ok_c_str) (auto simp: text_ok_def)
  moreover have "is_blank (CHR '' '')" by (simp add: is_blank_def)
  ultimately have "rtsp_trim (CHR '' '' # s) = rtsp_trim s"
    using s by (simp add: rtsp_trim_def text_ok_c_str)
  with rtsp_trim_id s show ?thesis by simp
qed

subsection \<open>Headers\<close>

definition header_ok :: "string \<times> string \<Rightarrow> bool" where
  "header_ok p \<longleftrightarrow> trimmed (fst p) \<and> text_ok (fst p) \<and> CHR '':'' \<notin> set (fst p) \<and> trimmed (snd p) \<and> text_ok (snd p)"

lemma take_header_line: "header_ok (k, v) \<Longrightarrow> take_header (k @ '': '' @ v) m = store_header k v m"
  by (simp add: take_header_def header_ok_def rtsp_trim_id rtsp_trim_space)

lemma header_loop_start:
  assumes "text_ok l" "l \<noteq> []" "pm_startLine cur = []"
  shows "header_loop (l @ line_term @ rest) cur = header_loop rest (cur\<lparr>pm_startLine := l\<rparr>)"
  using assms by (subst header_loop.simps) (simp add: nextLine_text)

lemma header_loop_line:
  assumes "header_ok (k, v)" "pm_startLine cur \<noteq> []"
  shows "header_loop ((k @ '': '' @ v @ line_term) @ rest) cur = header_loop rest (cur\<lparr>pm_msg := store_header k v (pm_msg cur)\<rparr>)"
proof -
  let ?l = "k @ '': '' @ v"
  have l: "text_ok ?l" "?l \<noteq> []" using assms(1) by (auto simp: header_ok_def) (auto simp: text_ok_def)
  have "find_char CHR '':'' ?l 0 = Some (length k)" using assms(1) by (simp add: header_ok_def)
  then have "drop (length ?l + 2) (cut_colon 0 ?l (?l @ CHR 0x00 # CHR 0x0A # rest)) = rest"
    by (simp add: cut_colon_def numeral_eq_Suc)
  with l assms show ?thesis
    using nextLine_text [OF l(1), of rest] take_header_line [OF assms(1)]
    by (subst header_loop.simps) simp
qed

definition store_all :: "(string \<times> string) list \<Rightarrow> rtsp_message \<Rightarrow> rtsp_message" where
  "store_all hs m = fold (\<lambda>(k, v). store_header k v) hs m"

lemma header_loop_lines:
  assumes "list_all header_ok hs" "pm_startLine cur \<noteq> []"
  shows "header_loop (rtsp_header_lines hs @ line_term @ rest) cur =
     (rest, cur\<lparr>pm_msg := store_all hs (pm_msg cur), pm_headerCompleted := True\<rparr>, False)"
  using assms
proof (induction hs arbitrary: cur)
  case Nil
  then show ?case using nextLine_text [of "[]" rest]
    by (subst header_loop.simps) (simp add: rtsp_header_lines_def store_all_def text_ok_def line_term_def)
next
  case (Cons p hs)
  obtain k v where p: "p = (k, v)" by (cases p)
  have "header_loop (rtsp_header_lines (p # hs) @ line_term @ rest) cur =
      header_loop (rtsp_header_lines hs @ line_term @ rest) (cur\<lparr>pm_msg := store_header k v (pm_msg cur)\<rparr>)"
    using header_loop_line [of k v cur "rtsp_header_lines hs @ line_term @ rest"] Cons.prems
    by (simp add: p rtsp_header_lines_def)
  with Cons.IH [of "cur\<lparr>pm_msg := store_header k v (pm_msg cur)\<rparr>"] Cons.prems show ?case by (simp add: p store_all_def)
qed

text \<open>What a sorted list of headers leaves in a message.\<close>

lemma smap_set_last: "\<forall>p \<in> set m. fst p < k \<Longrightarrow> smap_set k v m = m @ [(k, v)]"
  by (induction k v m rule: smap_set.induct) auto

lemma smap_rebuilt: "smap_wf hs \<Longrightarrow> fold (\<lambda>(k, v). smap_set k v) hs [] = hs"
proof (induction hs rule: rev_induct)
  case (snoc p hs)
  then have "smap_wf hs" "\<forall>q \<in> set hs. fst q < fst p" by (auto simp: smap_wf_def sorted_wrt_append)
  with snoc.IH show ?case by (cases p) (simp add: smap_set_last)
qed simp

lemma store_all_headers:
  "list_all header_ok hs \<Longrightarrow> rm_headers (store_all hs m) = fold (\<lambda>(k, v). smap_set k v) hs (rm_headers m)"
proof (induction hs arbitrary: m)
  case (Cons p hs)
  then show ?case
    by (cases p) (auto simp: store_all_def store_header_def header_ok_def trimmed_def rtsp_set_header_def set_contentLength_def Let_def)
qed (simp add: store_all_def)

lemma store_all_numbers:
  "list_all header_ok hs \<Longrightarrow> distinct (map fst hs) \<Longrightarrow>
     rm_bodyLen (store_all hs m) = (case map_of hs ''Content-Length'' of None \<Rightarrow> rm_bodyLen m | Some v \<Rightarrow> word_of_int (atoi v)) \<and>
     rm_cSeq (store_all hs m) = (case map_of hs ''CSeq'' of None \<Rightarrow> rm_cSeq m | Some v \<Rightarrow> word_of_int (atoi v))"
proof (induction hs arbitrary: m)
  case (Cons p hs)
  obtain k v where p: "p = (k, v)" by (cases p)
  have h: "rm_bodyLen (store_header k v m) = (if k = ''Content-Length'' then word_of_int (atoi v) else rm_bodyLen m)"
      "rm_cSeq (store_header k v m) = (if k = ''CSeq'' then word_of_int (atoi v) else rm_cSeq m)"
    by (auto simp: store_header_def set_contentLength_def rtsp_set_header_def Let_def)
  have "store_all (p # hs) m = store_all hs (store_header k v m)" by (simp add: store_all_def p)
  moreover have "map_of hs k = None" using Cons.prems by (simp add: p map_of_eq_None_iff)
  ultimately show ?case using Cons.IH [of "store_header k v m"] Cons.prems h by (auto simp: p split: option.split)
qed (simp add: store_all_def)

lemma store_all_rest [simp]:
  "rm_connId (store_all hs m) = rm_connId m" "rm_type (store_all hs m) = rm_type m" "rm_body (store_all hs m) = rm_body m"
  "rm_raw (store_all hs m) = rm_raw m" "rm_status (store_all hs m) = rm_status m" "rm_code (store_all hs m) = rm_code m"
  "rm_method (store_all hs m) = rm_method m" "rm_url (store_all hs m) = rm_url m" "rm_version (store_all hs m) = rm_version m"
  by (induction hs arbitrary: m; force simp: store_all_def store_header_def set_contentLength_def rtsp_set_header_def Let_def)+

subsection \<open>One message\<close>

definition head_of :: "string \<Rightarrow> (string \<times> string) list \<Rightarrow> string" where
  "head_of start hs = start @ line_term @ rtsp_header_lines hs @ line_term"

text \<open>The message after its header, and after the piece \<open>b\<close> of its body.\<close>

definition with_body :: "int \<times> rtsp_method \<Rightarrow> string \<Rightarrow> (string \<times> string) list \<Rightarrow> string \<Rightarrow> parser_msg" where
  "with_body found start hs b =
     \<lparr>pm_startLine = start, pm_headerCompleted = True, pm_bodyRead = length b,
      pm_msg = appendBody b (store_all hs (rtsp_new found [] RTSP_MSG_REQUEST))\<rparr>"

lemma appendBody_first: "rm_body m = [] \<Longrightarrow> length b < 2 ^ 31 \<Longrightarrow> b \<noteq> [] \<Longrightarrow> rtsp_contentLength (appendBody b m) = int (length b)"
  by (simp add: appendBody_def rtsp_contentLength_def signed_of_nat signed_take_bit_int_eq_self)

lemma parse_one:
  assumes "text_ok start" "start \<noteq> []" "list_all header_ok hs"
    and n: "rtsp_contentLength (store_all hs (rtsp_new found [] RTSP_MSG_REQUEST)) = int n" "n < 2 ^ 31"
    and b: "length b = n \<or> b \<noteq> [] \<and> length b < n \<and> rest = []"
  shows "parse_loop found (head_of start hs @ b @ rest) (pm_fresh found) False out =
     parse_loop found rest (pm_fresh found) False (finish_msg (with_body found start hs b) out)"
proof -
  let ?m0 = "rtsp_new found [] RTSP_MSG_REQUEST"
  let ?c1 = "\<lparr>pm_startLine = start, pm_headerCompleted = True, pm_bodyRead = 0, pm_msg = store_all hs ?m0\<rparr>"
  have "header_loop (head_of start hs @ b @ rest) (pm_fresh found) = (b @ rest, ?c1, False)"
    using header_loop_start [of start "pm_fresh found" "rtsp_header_lines hs @ line_term @ b @ rest"]
      header_loop_lines [OF assms(3), of "pm_fresh found\<lparr>pm_startLine := start\<rparr>" "b @ rest"] assms(1,2)
    by (simp add: head_of_def pm_fresh_def)
  moreover have "head_of start hs \<noteq> []" using assms(2) by (simp add: head_of_def)
  ultimately have 1: "parse_loop found (head_of start hs @ b @ rest) (pm_fresh found) False out = parse_loop found (b @ rest) ?c1 False out"
    by (subst parse_loop.simps) (simp add: pm_fresh_def)
  have len: "min n (length (b @ rest)) = length b" using b by auto
  have w: "(if rtsp_contentLength (pm_msg ?c1) > 0 then nat (rtsp_contentLength (pm_msg ?c1) - int (pm_bodyRead ?c1)) else 0) = n"
    using n by simp
  have step: "body_step (b @ rest) ?c1 = (rest, with_body found start hs b)"
    unfolding body_step_def Let_def w len by (simp add: with_body_def)
  have "\<not> int (length b) < rtsp_contentLength (pm_msg (with_body found start hs b))"
  proof (cases "b = []")
    case True
    then show ?thesis using b n by (simp add: with_body_def appendBody_def)
  next
    case False
    have "length b < 2 ^ 31" using b n(2) by auto
    then show ?thesis using appendBody_first [of "store_all hs ?m0" b] False by (simp add: with_body_def rtsp_new_def)
  qed
  moreover have "b @ rest \<noteq> [] \<or> rtsp_contentLength (store_all hs ?m0) = 0" using b n(1) by auto
  ultimately have 2: "parse_loop found (b @ rest) ?c1 False out =
      parse_loop found rest (pm_fresh found) False (finish_msg (with_body found start hs b) out)"
    by (subst parse_loop.simps) (use step in \<open>auto simp: with_body_def\<close>)
  show ?thesis using 1 2 by simp
qed

subsection \<open>Start lines\<close>

definition no_protocol :: "string \<Rightarrow> bool" where
  "no_protocol s \<longleftrightarrow> find_str ''RTSP/'' s 0 = None"

lemma find_protocol:
  assumes "no_protocol url"
  shows "find_str ''RTSP/'' (url @ '' RTSP/1.0'') 0 = Some (length url + 1)"
proof -
  let ?q = "url @ '' RTSP/1.0''"
  have "take 5 (drop j ?q) \<noteq> ''RTSP/''" if j: "j < length url + 1" for j
  proof (cases "j + 5 \<le> length url")
    case True
    then have "take 5 (drop j ?q) = take 5 (drop j url)" by simp
    then show ?thesis using assms True by (auto simp: no_protocol_def find_str_None numeral_eq_Suc)
  next
    case False
    then have i: "length url - j < 5" using j by simp
    have "take 5 (drop j ?q) ! (length url - j) = CHR '' ''" using j i by (simp add: nth_append)
    moreover have "''RTSP/'' ! i \<noteq> CHR '' ''" if "i < 5" for i
      using that by (auto simp: less_Suc_eq numeral_eq_Suc)
    ultimately show ?thesis using i by metis
  qed
  moreover have "take 5 (drop (length url + 1) ?q) = ''RTSP/''" by simp
  ultimately have "List.find (\<lambda>i. take 5 (drop i ?q) = ''RTSP/'') [0..<Suc (length ?q)] = Some (length url + 1)"
    unfolding find_upt_Some by (intro conjI allI impI) (simp_all del: take_append drop_append)
  moreover have l: "length ''RTSP/'' = 5" by simp
  ultimately show ?thesis unfolding find_str_def l by blast
qed

lemma methodToStr_ok [simp]:
  "text_ok (methodToStr m)" "methodToStr m \<noteq> []" "takeWhile (\<lambda>c. \<not> is_blank c) (methodToStr m) = methodToStr m"
  "trimmed (methodToStr m)"
  by (cases m; simp add: text_ok_def is_blank_def trimmed_def)+

lemma to_lower_letters:
  "to_lower c = (if CHR ''A'' \<le> c \<and> c \<le> CHR ''Z'' then char_of (of_char c + 32 :: nat) else c)"
  by (simp add: to_lower_def is_upper_def less_eq_char_def)

lemma strToMethod_inverse [simp]: "strToMethod (methodToStr m) = m"
  by (cases m) (simp_all add: strToMethod_def known_methods_def c_str_def to_lower_letters)

lemma dropWhile_method [simp]: "dropWhile is_blank (methodToStr m @ r) = methodToStr m @ r"
  by (cases m) (simp_all add: is_blank_def)

lemma parse_request_line:
  assumes "text_ok url" "trimmed url" "no_protocol url"
  shows "parseStartLine (methodToStr mt @ '' '' @ url @ '' RTSP/1.0'') m =
     Some (m\<lparr>rm_type := RTSP_MSG_REQUEST, rm_method := mt, rm_url := url, rm_version := ''RTSP/1.0''\<rparr>)"
proof -
  have t: "text_ok (methodToStr mt @ '' '' @ url @ '' RTSP/1.0'')" using assms(1) by simp (simp add: text_ok_def)
  have v: "rtsp_trim ''RTSP/1.0'' = ''RTSP/1.0''" by code_simp
  have c: "takeWhile (\<lambda>c. \<not> is_blank c) (methodToStr mt @ CHR '' '' # r) = methodToStr mt" for r
    by (cases mt) (simp_all add: is_blank_def)
  show ?thesis
    using assms find_protocol [OF assms(3)] text_ok_c_str [OF t] c v
    by (simp add: parseStartLine_def Let_def rtsp_trim_id)
qed

lemma parse_status_line:
  assumes "text_ok r" "no_protocol r"
  shows "parseStartLine (''RTSP/1.0 '' @ r) m = None"
proof -
  have t: "text_ok (''RTSP/1.0 '' @ r)" using assms(1) by simp (simp add: text_ok_def)
  have "find_str ''RTSP/'' (rtsp_trim ''RTSP/1.0'') 0 = Some 0" by code_simp
  moreover have "takeWhile (\<lambda>c. \<not> is_blank c) (''RTSP/1.0 '' @ r) = ''RTSP/1.0''" "dropWhile is_blank (''RTSP/1.0 '' @ r) = ''RTSP/1.0 '' @ r"
    by (simp_all add: is_blank_def)
  ultimately show ?thesis using assms(2) text_ok_c_str [OF t]
    by (simp add: parseStartLine_def Let_def no_protocol_def)
qed

subsection \<open>What toRaw writes\<close>

lemma list_all_smap_set: "list_all P m \<Longrightarrow> P (k, v) \<Longrightarrow> list_all P (smap_set k v m)"
  by (induction k v m rule: smap_set.induct) auto

lemma list_all_smap_erase: "list_all P m \<Longrightarrow> list_all P (smap_erase k m)"
  by (auto simp: smap_erase_def list_all_iff)

lemma itoa_text: "trimmed (itoa (uint x)) \<and> text_ok (itoa (uint x))"
proof -
  have d: "\<forall>c \<in> set (nat_dec n). is_digit c" "nat_dec n \<noteq> []" for n using nat_dec_digits [of n] by auto
  have "\<not> is_blank c \<and> c \<notin> {CHR 0x00, CHR 0x0D, CHR 0x0A}" if "is_digit c" for c
    using that by (auto simp: is_digit_def is_blank_def less_eq_char_def)
  then show ?thesis
    using d [of "nat (uint x)"] hd_in_set [of "nat_dec (nat (uint x))"] last_in_set [of "nat_dec (nat (uint x))"]
    by (auto simp: itoa_def trimmed_def text_ok_def)
qed

definition message_ok :: "string \<Rightarrow> rtsp_message \<Rightarrow> bool" where
  "message_ok date m \<longleftrightarrow> rm_raw m = [] \<and> smap_wf (rm_headers m) \<and> list_all header_ok (rm_headers m) \<and> text_ok date \<and> trimmed date \<and>
     length (rm_body m) < 2 ^ 31 \<and> rm_bodyLen m = of_nat (length (rm_body m)) \<and> rm_cSeq m \<noteq> 0"

definition settled :: "string \<Rightarrow> rtsp_message \<Rightarrow> (string \<times> string) list" where
  "settled date m = rm_headers (rtsp_settle date m)"

lemma settled_ok:
  assumes "message_ok date m"
  shows "smap_wf (settled date m)" and "list_all header_ok (settled date m)"
    and "map_of (settled date m) ''Content-Length'' = (if rm_bodyLen m = 0 then None else Some (itoa (uint (rm_bodyLen m))))"
    and "map_of (settled date m) ''CSeq'' = Some (itoa (uint (rm_cSeq m)))"
proof -
  have pos: "0 < rm_cSeq m" using assms by (simp add: message_ok_def word_gt_0)
  have h: "header_ok (''Content-Length'', itoa (uint x))" "header_ok (''CSeq'', itoa (uint x))" "header_ok (''Date'', date)" for x :: uint32
    using assms itoa_text [of x] by (auto simp: header_ok_def message_ok_def trimmed_def text_ok_def is_blank_def)
  show "smap_wf (settled date m)"
    using assms pos by (auto simp: settled_def rtsp_settle_def Let_def message_ok_def intro!: smap_wf_set smap_wf_erase)
  show "list_all header_ok (settled date m)"
    using assms pos h by (auto simp: settled_def rtsp_settle_def Let_def message_ok_def intro!: list_all_smap_set list_all_smap_erase)
  show "map_of (settled date m) ''Content-Length'' = (if rm_bodyLen m = 0 then None else Some (itoa (uint (rm_bodyLen m))))"
    and "map_of (settled date m) ''CSeq'' = Some (itoa (uint (rm_cSeq m)))"
    using pos by (auto simp: settled_def rtsp_settle_def Let_def std_simps)
qed

lemma rtsp_settle_fields [simp]:
  "rm_type (rtsp_settle date m) = rm_type m" "rm_body (rtsp_settle date m) = rm_body m" "rm_method (rtsp_settle date m) = rm_method m"
  "rm_url (rtsp_settle date m) = rm_url m" "rm_code (rtsp_settle date m) = rm_code m"
  "rm_status (rtsp_settle date m) = (if rm_type m = RTSP_MSG_RESPONSE \<and> rm_status m = [] then rtsp_code2status (rm_code m) else rm_status m)"
  by (simp_all add: rtsp_settle_def Let_def)

definition raw_of :: "string \<Rightarrow> rtsp_message \<Rightarrow> string" where
  "raw_of date m = snd (toRaw date m)"

lemma raw_split: "message_ok date m \<Longrightarrow> raw_of date m = head_of (rtsp_start_line (rtsp_settle date m)) (settled date m) @ rm_body m"
  by (simp add: raw_of_def toRaw_def message_ok_def head_of_def settled_def Let_def)

lemma stored_settled:
  assumes "message_ok date m"
  shows "rm_headers (store_all (settled date m) (rtsp_new found [] t)) = settled date m"
    and "rm_cSeq (store_all (settled date m) (rtsp_new found [] t)) = rm_cSeq m"
    and "rtsp_contentLength (store_all (settled date m) (rtsp_new found [] t)) = int (length (rm_body m))"
    and "rm_bodyLen (store_all (settled date m) (rtsp_new found [] t)) = rm_bodyLen m"
proof -
  note ok = settled_ok [OF assms]
  show "rm_headers (store_all (settled date m) (rtsp_new found [] t)) = settled date m"
    using store_all_headers [OF ok(2)] smap_rebuilt [OF ok(1)] by (simp add: rtsp_new_def)
  note n = store_all_numbers [OF ok(2) smap_wf_distinct [OF ok(1)], of "rtsp_new found [] t"]
  show "rm_cSeq (store_all (settled date m) (rtsp_new found [] t)) = rm_cSeq m"
    using n ok(4) by (simp add: atoi_itoa)
  show l: "rm_bodyLen (store_all (settled date m) (rtsp_new found [] t)) = rm_bodyLen m"
    using n ok(3) by (auto simp: atoi_itoa rtsp_new_def)
  show "rtsp_contentLength (store_all (settled date m) (rtsp_new found [] t)) = int (length (rm_body m))"
    unfolding rtsp_contentLength_def l using assms
    by (simp add: message_ok_def signed_of_nat signed_take_bit_int_eq_self)
qed

text \<open>The message of a request as the other side has it.\<close>

definition received :: "int \<times> rtsp_method \<Rightarrow> string \<Rightarrow> string \<Rightarrow> rtsp_message \<Rightarrow> rtsp_message" where
  "received found cid date m =
     \<lparr>rm_connId = cid, rm_type = RTSP_MSG_REQUEST, rm_headers = settled date m, rm_bodyLen = rm_bodyLen m, rm_body = rm_body m,
      rm_cSeq = rm_cSeq m, rm_raw = [], rm_status = [], rm_code = fst found, rm_method = rm_method m, rm_url = rm_url m,
      rm_version = ''RTSP/1.0''\<rparr>"

definition request_ok :: "string \<Rightarrow> rtsp_message \<Rightarrow> bool" where
  "request_ok date m \<longleftrightarrow>
     message_ok date m \<and> rm_type m = RTSP_MSG_REQUEST \<and> text_ok (rm_url m) \<and> trimmed (rm_url m) \<and> no_protocol (rm_url m)"

definition response_ok :: "string \<Rightarrow> rtsp_message \<Rightarrow> bool" where
  "response_ok date m \<longleftrightarrow>
     message_ok date m \<and> rm_type m = RTSP_MSG_RESPONSE \<and> text_ok (itoa (rm_code m) @ '' '' @ rm_status (rtsp_settle date m)) \<and>
     no_protocol (itoa (rm_code m) @ '' '' @ rm_status (rtsp_settle date m))"

lemma start_line_request:
  assumes "request_ok date m"
  shows "rtsp_start_line (rtsp_settle date m) = methodToStr (rm_method m) @ '' '' @ rm_url m @ '' RTSP/1.0''"
    and "text_ok (rtsp_start_line (rtsp_settle date m))" "rtsp_start_line (rtsp_settle date m) \<noteq> []"
proof -
  show l: "rtsp_start_line (rtsp_settle date m) = methodToStr (rm_method m) @ '' '' @ rm_url m @ '' RTSP/1.0''"
    using assms by (simp add: rtsp_start_line_def request_ok_def)
  show "text_ok (rtsp_start_line (rtsp_settle date m))" "rtsp_start_line (rtsp_settle date m) \<noteq> []"
    unfolding l using assms by (auto simp: request_ok_def) (auto simp: text_ok_def)
qed

lemma start_line_response:
  assumes "response_ok date m"
  shows "rtsp_start_line (rtsp_settle date m) = ''RTSP/1.0 '' @ itoa (rm_code m) @ '' '' @ rm_status (rtsp_settle date m)"
    and "text_ok (rtsp_start_line (rtsp_settle date m))" "rtsp_start_line (rtsp_settle date m) \<noteq> []"
proof -
  show l: "rtsp_start_line (rtsp_settle date m) = ''RTSP/1.0 '' @ itoa (rm_code m) @ '' '' @ rm_status (rtsp_settle date m)"
    using assms by (simp add: rtsp_start_line_def response_ok_def)
  show "text_ok (rtsp_start_line (rtsp_settle date m))" "rtsp_start_line (rtsp_settle date m) \<noteq> []"
    unfolding l using assms by (auto simp: response_ok_def text_ok_def)
qed

text \<open>A request, with its body or with the first piece of it.\<close>

lemma finish_request:
  assumes "request_ok date m" and "b = rm_body m \<or> b \<noteq> []"
  shows "finish_msg (with_body found (rtsp_start_line (rtsp_settle date m)) (settled date m) b) out =
     out\<lparr>po_reqs := po_reqs out @
       [(received found [] date m)\<lparr>rm_body := b, rm_bodyLen := of_nat (length b)\<rparr>]\<rparr>"
proof -
  have ok: "message_ok date m" using assms(1) by (simp add: request_ok_def)
  let ?m0 = "store_all (settled date m) (rtsp_new found [] RTSP_MSG_REQUEST)"
  have c: "\<not> rm_cSeq m \<le> 0" using ok by (simp add: message_ok_def)
  have p: "parseStartLine (rtsp_start_line (rtsp_settle date m)) x =
      Some (x\<lparr>rm_type := RTSP_MSG_REQUEST, rm_method := rm_method m, rm_url := rm_url m, rm_version := ''RTSP/1.0''\<rparr>)" for x
    unfolding start_line_request(1) [OF assms(1)] using assms(1) by (intro parse_request_line) (simp_all add: request_ok_def)
  have s: "rm_cSeq (appendBody b ?m0) = rm_cSeq m"
    using stored_settled(2) [OF ok] by (simp add: appendBody_def)
  have b: "(appendBody b ?m0)\<lparr>rm_type := RTSP_MSG_REQUEST, rm_method := rm_method m, rm_url := rm_url m, rm_version := ''RTSP/1.0''\<rparr> =
      (received found [] date m)\<lparr>rm_body := b, rm_bodyLen := of_nat (length b)\<rparr>"
    using stored_settled [OF ok, of found RTSP_MSG_REQUEST] assms(2) ok
    by (cases "b = []") (auto simp: received_def appendBody_def message_ok_def rtsp_new_def intro!: rtsp_message.equality)
  show ?thesis
    unfolding finish_msg_def using c p s b by (simp add: with_body_def received_def)
qed

lemma finish_response:
  assumes "response_ok date m"
  shows "finish_msg (with_body found (rtsp_start_line (rtsp_settle date m)) (settled date m) b) out =
     out\<lparr>po_errors := po_errors out @ [rtsp_start_line (rtsp_settle date m)]\<rparr>"
proof -
  have ok: "message_ok date m" using assms by (simp add: response_ok_def)
  have c: "\<not> rm_cSeq m \<le> 0" using ok by (simp add: message_ok_def)
  have l: "text_ok (itoa (rm_code m) @ '' '' @ rm_status (rtsp_settle date m))" "no_protocol (itoa (rm_code m) @ '' '' @ rm_status (rtsp_settle date m))"
    using assms unfolding response_ok_def by blast+
  have "parseStartLine (rtsp_start_line (rtsp_settle date m)) x = None" for x
    unfolding start_line_response(1) [OF assms] by (rule parse_status_line [OF l])
  then show ?thesis
    using c stored_settled(2) [OF ok] by (simp add: finish_msg_def with_body_def appendBody_def)
qed

lemma parse_requests:
  assumes "list_all (request_ok date) ms"
  shows "parse_loop found (concat (map (raw_of date) ms)) (pm_fresh found) False out =
     ([], pm_fresh found, out\<lparr>po_reqs := po_reqs out @ map (received found [] date) ms\<rparr>)"
  using assms
proof (induction ms arbitrary: out)
  case Nil
  then show ?case by (subst parse_loop.simps) (simp add: pm_fresh_def)
next
  case (Cons m ms)
  then have r: "request_ok date m" by simp
  then have ok: "message_ok date m" by (simp add: request_ok_def)
  let ?s = "rtsp_start_line (rtsp_settle date m)"
  have lt: "length (rm_body m) < 2 ^ 31" using ok by (simp add: message_ok_def)
  have "parse_loop found (concat (map (raw_of date) (m # ms))) (pm_fresh found) False out =
      parse_loop found (concat (map (raw_of date) ms)) (pm_fresh found) False (finish_msg (with_body found ?s (settled date m) (rm_body m)) out)"
    using parse_one [OF start_line_request(2,3) [OF r] settled_ok(2) [OF ok] stored_settled(3) [OF ok] lt, of "rm_body m"]
    by (simp add: raw_split [OF ok])
  moreover have "(received found [] date m)\<lparr>rm_body := rm_body m, rm_bodyLen := of_nat (length (rm_body m))\<rparr> = received found [] date m"
    using ok by (simp add: received_def message_ok_def)
  ultimately show ?case
    using Cons.IH [of "out\<lparr>po_reqs := po_reqs out @ [received found [] date m]\<rparr>"] Cons.prems finish_request [OF r, of "rm_body m" found out] by simp
qed

lemma parse_responses:
  assumes "list_all (response_ok date) ms"
  shows "parse_loop found (concat (map (raw_of date) ms)) (pm_fresh found) False out =
     ([], pm_fresh found, out\<lparr>po_errors := po_errors out @ map (\<lambda>m. rtsp_start_line (rtsp_settle date m)) ms\<rparr>)"
  using assms
proof (induction ms arbitrary: out)
  case Nil
  then show ?case by (subst parse_loop.simps) (simp add: pm_fresh_def)
next
  case (Cons m ms)
  then have r: "response_ok date m" by simp
  then have ok: "message_ok date m" by (simp add: response_ok_def)
  let ?s = "rtsp_start_line (rtsp_settle date m)"
  have lt: "length (rm_body m) < 2 ^ 31" using ok by (simp add: message_ok_def)
  have "parse_loop found (concat (map (raw_of date) (m # ms))) (pm_fresh found) False out =
      parse_loop found (concat (map (raw_of date) ms)) (pm_fresh found) False (finish_msg (with_body found ?s (settled date m) (rm_body m)) out)"
    using parse_one [OF start_line_response(2,3) [OF r] settled_ok(2) [OF ok] stored_settled(3) [OF ok] lt, of "rm_body m"]
    by (simp add: raw_split [OF ok])
  then show ?case
    using Cons.IH [of "out\<lparr>po_errors := po_errors out @ [?s]\<rparr>"] Cons.prems finish_response [OF r, of found "rm_body m" out] by simp
qed

subsection \<open>Connections\<close>

definition idle :: "rtsp_conn \<Rightarrow> bool" where
  "idle c \<longleftrightarrow> rc_seen c = [] \<and> rc_cur c = pm_fresh (rc_found c)"

lemma rtsp_receive_fits:
  assumes "rc_seen c = []" "length data \<le> RTSP_RECV_BUF_SIZE" "data \<noteq> []"
  shows "rtsp_receive data c = rtsp_parse data c"
  using assms by (simp add: rtsp_receive_def rtsp_doAllocate_def rtsp_OnRead_def RTSP_RECV_BUF_SIZE_def Let_def)

lemma notify_fields [simp]:
  "rc_seen (notify e c) = rc_seen c" "rc_cur (notify e c) = rc_cur c" "rc_awaits (notify e c) = rc_awaits c" "rc_tcp (notify e c) = rc_tcp c"
  "rc_found (notify e c) = rc_found c" "rc_events (notify e c) = rc_events c @ [e]" "rc_reqList (notify e c) = rc_reqList c"
  by (simp_all add: notify_def)

lemma fold_notify [simp]:
  "rc_seen (fold (\<lambda>x. notify (f x)) xs c) = rc_seen c" "rc_cur (fold (\<lambda>x. notify (f x)) xs c) = rc_cur c"
  "rc_awaits (fold (\<lambda>x. notify (f x)) xs c) = rc_awaits c" "rc_tcp (fold (\<lambda>x. notify (f x)) xs c) = rc_tcp c"
  "rc_events (fold (\<lambda>x. notify (f x)) xs c) = rc_events c @ map f xs" "rc_found (fold (\<lambda>x. notify (f x)) xs c) = rc_found c"
  by (induction xs arbitrary: c) simp_all

lemma fold_deliver_request [simp]:
  "rc_seen (fold deliver_request xs c) = rc_seen c" "rc_cur (fold deliver_request xs c) = rc_cur c"
  "rc_events (fold deliver_request xs c) = rc_events c @ map (\<lambda>r. RequestEv (r\<lparr>rm_connId := tc_ident (rc_tcp c)\<rparr>)) xs"
  "rc_awaits (fold deliver_request xs c) = rc_awaits c"
  by (induction xs arbitrary: c) (simp_all add: deliver_request_def)

lemma raw_not_empty: "list_all (message_ok date) ms \<Longrightarrow> ms \<noteq> [] \<Longrightarrow> concat (map (raw_of date) ms) \<noteq> []"
  by (cases ms) (auto simp: raw_split head_of_def line_term_def)

text \<open>
  C26. Requests that \<open>toRaw\<close> wrote, read in one piece by an idle connection, are delivered in order, each with its method, URL,
  headers, number and body as they were, and leave nothing in the buffer.
\<close>

theorem rtsp_requests_roundtrip:
  assumes "idle c" and "list_all (request_ok date) ms" and "ms \<noteq> []" and "length (concat (map (raw_of date) ms)) \<le> 8192"
  shows "rc_events (rtsp_receive (concat (map (raw_of date) ms)) c) =
      rc_events c @ map (\<lambda>m. RequestEv (received (rc_found c) (tc_ident (rc_tcp c)) date m)) ms \<and>
    idle (rtsp_receive (concat (map (raw_of date) ms)) c) \<and> rc_awaits (rtsp_receive (concat (map (raw_of date) ms)) c) = rc_awaits c"
proof -
  have ok: "list_all (message_ok date) ms" using assms(2) by (simp add: list_all_iff request_ok_def)
  have f: "length (concat (map (raw_of date) ms)) \<le> RTSP_RECV_BUF_SIZE" using assms(4) by (simp add: RTSP_RECV_BUF_SIZE_def)
  have "rc_seen c = []" using assms(1) by (simp add: idle_def)
  note r = rtsp_receive_fits [OF this f raw_not_empty [OF ok assms(3)]]
  have i: "rc_cur c = pm_fresh (rc_found c)" using assms(1) by (simp add: idle_def)
  have c: "(received fd [] date m)\<lparr>rm_connId := i\<rparr> = received fd i date m" for fd i m by (simp add: received_def)
  have fold_found: "rc_found (fold deliver_request xs c) = rc_found c" for xs c
    by (induction xs arbitrary: c) (simp_all add: deliver_request_def)
  show ?thesis
    unfolding r rtsp_parse_def i parse_requests [OF assms(2)]
    by (simp add: no_out_def Let_def idle_def fold_found comp_def c i)
qed

text \<open>
  Every response that arrives at an idle connection is reported as an error of its status line: no request that awaits is
  answered, and once its time has passed each of them is reported as timed out.
\<close>

theorem rtsp_responses_rejected:
  assumes "idle c" and "list_all (response_ok date) ms" and "ms \<noteq> []" and "length (concat (map (raw_of date) ms)) \<le> 8192"
    and "list_all (\<lambda>(k, r, e). e < now) (rc_awaits c)"
  shows "rc_events (rtsp_OnTimer now (rtsp_receive (concat (map (raw_of date) ms)) c)) =
      rc_events c @ map (\<lambda>m. ParseErrorEv (rtsp_start_line (rtsp_settle date m))) ms @
        map (\<lambda>(k, r, e). RequestDoneEv k RtspReqTimeout) (rc_awaits c) \<and>
    rc_awaits (rtsp_OnTimer now (rtsp_receive (concat (map (raw_of date) ms)) c)) = []"
proof -
  have ok: "list_all (message_ok date) ms" using assms(2) by (simp add: list_all_iff response_ok_def)
  have f: "length (concat (map (raw_of date) ms)) \<le> RTSP_RECV_BUF_SIZE" using assms(4) by (simp add: RTSP_RECV_BUF_SIZE_def)
  have "rc_seen c = []" using assms(1) by (simp add: idle_def)
  note r = rtsp_receive_fits [OF this f raw_not_empty [OF ok assms(3)]]
  have i: "rc_cur c = pm_fresh (rc_found c)" using assms(1) by (simp add: idle_def)
  let ?c = "rtsp_receive (concat (map (raw_of date) ms)) c"
  have 1: "rc_events ?c = rc_events c @ map (\<lambda>m. ParseErrorEv (rtsp_start_line (rtsp_settle date m))) ms" "rc_awaits ?c = rc_awaits c"
    unfolding r rtsp_parse_def i parse_responses [OF assms(2)] by (simp_all add: no_out_def Let_def comp_def)
  have "filter (\<lambda>(k, r, e). e < now) (rc_awaits c) = rc_awaits c" "filter (\<lambda>(k, r, e). \<not> e < now) (rc_awaits c) = []"
    using assms(5) by (auto simp: list_all_iff filter_id_conv filter_empty_conv)
  moreover have "rc_events (fold (\<lambda>(k, _). notify (RequestDoneEv k RtspReqTimeout)) xs d) =
      rc_events d @ map (\<lambda>(k, r, e). RequestDoneEv k RtspReqTimeout) xs \<and>
      rc_awaits (fold (\<lambda>(k, _). notify (RequestDoneEv k RtspReqTimeout)) xs d) = rc_awaits d" for xs :: "(uint32 \<times> rtsp_message \<times> int) list" and d
    by (induction xs arbitrary: d) auto
  ultimately show ?thesis by (simp add: rtsp_OnTimer_def 1)
qed

text \<open>
  When the body of a request arrives in two pieces, the request is delivered with the first piece alone, as if it were
  the whole body.
\<close>

theorem rtsp_split_body_truncated:
  assumes "idle c" and "request_ok date m" and "rm_body m = b1 @ b2" "b1 \<noteq> []" "b2 \<noteq> []"
    and "raw_of date m = first @ b2" "length first \<le> 8192"
  shows "rc_events (rtsp_receive first c) =
     rc_events c @ [RequestEv ((received (rc_found c) (tc_ident (rc_tcp c)) date m)\<lparr>rm_body := b1, rm_bodyLen := of_nat (length b1)\<rparr>)]"
proof -
  have ok: "message_ok date m" using assms(2) by (simp add: request_ok_def)
  let ?s = "rtsp_start_line (rtsp_settle date m)"
  have first: "first = head_of ?s (settled date m) @ b1 @ []"
    using assms(3,6) raw_split [OF ok] by simp
  have f: "length first \<le> RTSP_RECV_BUF_SIZE" using assms(7) by (simp add: RTSP_RECV_BUF_SIZE_def)
  have "rc_seen c = []" "first \<noteq> []" using assms(1,4) by (simp_all add: idle_def first)
  note r = rtsp_receive_fits [OF this(1) f this(2)]
  have i: "rc_cur c = pm_fresh (rc_found c)" using assms(1) by (simp add: idle_def)
  have lt: "length (rm_body m) < 2 ^ 31" using ok by (simp add: message_ok_def)
  have "parse_loop (rc_found c) first (pm_fresh (rc_found c)) False no_out =
      parse_loop (rc_found c) [] (pm_fresh (rc_found c)) False
        (finish_msg (with_body (rc_found c) ?s (settled date m) b1) no_out)"
    unfolding first
    by (rule parse_one [OF start_line_request(2,3) [OF assms(2)] settled_ok(2) [OF ok] stored_settled(3) [OF ok] lt])
       (use assms(3-5) in auto)
  also have "\<dots> = ([], pm_fresh (rc_found c), no_out\<lparr>po_reqs :=
      [(received (rc_found c) [] date m)\<lparr>rm_body := b1, rm_bodyLen := of_nat (length b1)\<rparr>]\<rparr>)"
    using finish_request [OF assms(2), of b1] assms(4) by (subst parse_loop.simps) (simp add: pm_fresh_def no_out_def)
  finally show ?thesis
    unfolding r rtsp_parse_def i by (simp add: no_out_def Let_def received_def deliver_request_def)
qed

subsection \<open>Requests that wait for the connection\<close>

fun alternate :: "'a list \<Rightarrow> 'a list" where
  "alternate [] = []"
| "alternate [x] = [x]"
| "alternate (x # y # xs) = x # alternate xs"

definition send_queued :: "int \<Rightarrow> string \<Rightarrow> rtsp_message \<Rightarrow> rtsp_conn \<Rightarrow> rtsp_conn" where
  "send_queued now date r c = fst (sendRequest now date 500 True r c)"

lemma flush_at:
  "i \<le> length rs \<Longrightarrow> flush_requests now date i rs c =
     (if even (length rs - i) then Some (fold (send_queued now date) (alternate (drop i rs)) c) else None)"
proof (induction "length rs - i" arbitrary: i rs c rule: less_induct)
  case less
  show ?case
  proof (cases "i = length rs")
    case True
    then show ?thesis by (subst flush_requests.simps) simp
  next
    case False
    then have i: "i < length rs" using less.prems by simp
    let ?rs = "take i rs @ drop (Suc i) rs"
    have f: "flush_requests now date i rs c = flush_requests now date (Suc i) ?rs (send_queued now date (rs ! i) c)"
      using i by (subst flush_requests.simps) (simp add: send_queued_def)
    have l: "length ?rs = length rs - 1" using i by simp
    show ?thesis
    proof (cases "length rs = Suc i")
      case True
      then show ?thesis unfolding f using l by (subst flush_requests.simps) simp
    next
      case False
      then have "Suc i \<le> length ?rs" "length ?rs - Suc i < length rs - i" using i l by simp_all
      moreover have "drop i rs = rs ! i # rs ! Suc i # drop (Suc (Suc i)) rs"
        using False i by (simp add: Cons_nth_drop_Suc)
      moreover have "drop (Suc i) ?rs = drop (Suc (Suc i)) rs" using i by (simp add: drop_Suc [of i] drop_drop) (metis drop_Suc drop_drop add.commute plus_1_eq_Suc)
      moreover have "length rs - i = Suc (Suc (length ?rs - Suc i))" using False i l by simp
      ultimately show ?thesis unfolding f using less.hyps [of ?rs "Suc i"] by simp
    qed
  qed
qed

text \<open>
  Of the requests that were queued before the connection was there, only every second one is sent when it opens, and when
  their number is odd the loop runs beyond the end of the queue.
\<close>

theorem connecting_drops_every_second_request:
  "rtsp_OnConnected now date c =
     (if even (length (rc_reqList c))
      then Some ((fold (send_queued now date) (alternate (rc_reqList c)) (c\<lparr>rc_tcp := tcp_OnConnected (rc_tcp c)\<rparr>))\<lparr>rc_reqList := []\<rparr>)
      else None)"
  by (simp add: rtsp_OnConnected_def flush_at Let_def)

subsection \<open>Witnesses\<close>

definition demo_request :: "rtsp_method \<Rightarrow> uint32 \<Rightarrow> string \<Rightarrow> rtsp_message" where
  "demo_request mt n b =
     setBody b ((rtsp_new (0, mtdUNKNOWN) [] RTSP_MSG_REQUEST)\<lparr>rm_method := mt, rm_url := ''rtsp://h/a'', rm_cSeq := n,
       rm_headers := [(''Session'', ''s1'')]\<rparr>)"

definition demo_rtsp :: rtsp_conn where
  "demo_rtsp = rtsp_conn_new ''c1'' 500 (0, mtdUNKNOWN)"

lemma demo_request_ok: "n \<noteq> 0 \<Longrightarrow> length b < 100 \<Longrightarrow> request_ok ''today'' (demo_request mt n b)"
proof -
  assume "n \<noteq> 0" "length b < 100"
  moreover have "no_protocol ''rtsp://h/a''" by code_simp
  ultimately show ?thesis
    by (simp add: request_ok_def message_ok_def demo_request_def setBody_def rtsp_new_def header_ok_def trimmed_def text_ok_def is_blank_def)
qed

lemma demo_idle: "idle demo_rtsp"
  by (simp add: idle_def demo_rtsp_def rtsp_conn_new_def)

lemma demo_fields [simp]: "rc_events demo_rtsp = []" "rc_found demo_rtsp = (0, mtdUNKNOWN)" "tc_ident (rc_tcp demo_rtsp) = ''c1''"
  by (simp_all add: demo_rtsp_def rtsp_conn_new_def tcp_new_def)

definition demo_requests :: "rtsp_message list" where
  "demo_requests = [demo_request mtdSETUP 2 [], demo_request mtdANNOUNCE 3 ''hello'']"

theorem rtsp_requests_roundtrip_witness:
  "rc_events (rtsp_receive (concat (map (raw_of ''today'') demo_requests)) demo_rtsp) =
     map (\<lambda>m. RequestEv (received (0, mtdUNKNOWN) ''c1'' ''today'' m)) demo_requests"
proof -
  have ok: "list_all (request_ok ''today'') demo_requests" "demo_requests \<noteq> []" by (simp_all add: demo_requests_def demo_request_ok)
  have l: "length (concat (map (raw_of ''today'') demo_requests)) \<le> 8192" by code_simp
  show ?thesis using rtsp_requests_roundtrip [OF demo_idle ok l] by simp
qed

definition demo_answers :: "rtsp_message list" where
  "demo_answers = [(rtsp_new (200, mtdSETUP) [] RTSP_MSG_RESPONSE)\<lparr>rm_cSeq := 2\<rparr>]"

definition demo_awaiting :: rtsp_conn where
  "demo_awaiting = demo_rtsp\<lparr>rc_awaits := [(2, demo_request mtdSETUP 2 [], 100)]\<rparr>"

theorem rtsp_responses_rejected_witness:
  "rc_events (rtsp_OnTimer 200 (rtsp_receive (concat (map (raw_of ''today'') demo_answers)) demo_awaiting)) =
     [ParseErrorEv ''RTSP/1.0 200 OK'', RequestDoneEv 2 RtspReqTimeout]"
proof -
  have a: "idle demo_awaiting" using demo_idle by (simp add: demo_awaiting_def idle_def)
  have n: "itoa 200 @ '' '' @ rtsp_code2status 200 = ''200 OK''" by code_simp
  have p: "no_protocol ''200 OK''" by code_simp
  have ok: "list_all (response_ok ''today'') demo_answers" "demo_answers \<noteq> []"
    using n p by (simp_all add: demo_answers_def response_ok_def message_ok_def rtsp_new_def trimmed_def text_ok_def is_blank_def)
  have l: "length (concat (map (raw_of ''today'') demo_answers)) \<le> 8192" by code_simp
  have t: "list_all (\<lambda>(k, r, e). e < 200) (rc_awaits demo_awaiting)" by (simp add: demo_awaiting_def)
  have s: "map (\<lambda>m. rtsp_start_line (rtsp_settle ''today'' m)) demo_answers = [''RTSP/1.0 200 OK'']" by code_simp
  show ?thesis
    using rtsp_responses_rejected [OF a ok l t] s by (simp add: demo_awaiting_def demo_answers_def)
qed

theorem rtsp_split_body_truncated_witness:
  "\<exists>first. raw_of ''today'' (demo_request mtdANNOUNCE 3 ''hello'') = first @ ''llo'' \<and>
     rc_events (rtsp_receive first demo_rtsp) =
       [RequestEv ((received (0, mtdUNKNOWN) ''c1'' ''today'' (demo_request mtdANNOUNCE 3 ''hello''))\<lparr>rm_body := ''he'', rm_bodyLen := 2\<rparr>)]"
proof -
  let ?m = "demo_request mtdANNOUNCE 3 ''hello''"
  have ok: "request_ok ''today'' ?m" by (simp add: demo_request_ok)
  then have mok: "message_ok ''today'' ?m" by (simp add: request_ok_def)
  have b: "rm_body ?m = ''he'' @ ''llo''" by (simp add: demo_request_def setBody_def)
  define first where "first = head_of (rtsp_start_line (rtsp_settle ''today'' ?m)) (settled ''today'' ?m) @ ''he''"
  have r: "raw_of ''today'' ?m = first @ ''llo''" using raw_split [OF mok] b by (simp add: first_def)
  have "length (raw_of ''today'' ?m) \<le> 8192" by code_simp
  then have l: "length first \<le> 8192" unfolding r by simp
  show ?thesis
    using rtsp_split_body_truncated [OF demo_idle ok b _ _ r l] r by (intro exI [of _ first]) simp
qed

end
