(* ===== verification/Rtsp_Server.thy ===== *)
theory Rtsp_Server
  imports Rtsp_Message Tcp_Server Http_Server
begin

text \<open>
  RTSPServer.h and RTSPServer.cpp (eloop/Http/LibHttp): sessions, requests that await their response, the dispatch of a
  request and the default handler. Applications decide by the functions of \<open>rtsp_env\<close>; regular expressions, the clock and
  fresh session identifiers are arguments.
\<close>

subsection \<open>State\<close>

record rtsp_response =
  rr_msg :: rtsp_message
  rr_req :: rtsp_message
  rr_stamp :: int
  rr_isResp :: bool

text \<open>Responses are known by a number. \<open>rs_posted\<close> records the posts that were carried out, with their codes.\<close>

record 'a rtsp_server =
  rs_tcp :: tcp_server
  rs_vsites :: "'a vsites"
  rs_sessions :: "(string \<times> (string \<times> string) list) list"
  rs_maxSession :: nat
  rs_awaits :: "nat list"
  rs_resps :: "(nat \<times> rtsp_response) list"
  rs_next :: nat
  rs_posted :: "(nat \<times> int) list"

record 'a rtsp_env =
  re_server :: string
  re_procTimeout :: int
  re_maxPendings :: int
  re_matches :: "string \<Rightarrow> string \<Rightarrow> bool option"
  re_newSession :: "'a \<Rightarrow> string \<Rightarrow> (string \<times> string) list option"
  re_on :: "'a \<Rightarrow> rtsp_method \<Rightarrow> rtsp_message \<Rightarrow> rtsp_message \<Rightarrow> (rtsp_message \<times> int) option"
  re_session :: "'a \<Rightarrow> rtsp_method \<Rightarrow> rtsp_message \<Rightarrow> (string \<times> string) list \<Rightarrow> rtsp_message \<Rightarrow> (rtsp_message \<times> int) option"

definition rcOK :: int where "rcOK = 200"
definition rcObjectNotFound :: int where "rcObjectNotFound = 404"
definition rcMethodNotAllowed :: int where "rcMethodNotAllowed = 405"
definition rcSessNotFound :: int where "rcSessNotFound = 454"
definition rcInternalError :: int where "rcInternalError = 500"
definition rcNotImplement :: int where "rcNotImplement = 501"
definition rcServiceUnavail :: int where "rcServiceUnavail = 503"
definition rcProcessTimeout :: int where "rcProcessTimeout = 504"
definition Err_AsyncHandling :: int where "Err_AsyncHandling = - 200"
definition DUMMY_PROCESS_TIMEOUT :: int where "DUMMY_PROCESS_TIMEOUT = 60 * 1000"

definition RTSP_RET_SUCC :: "int \<Rightarrow> bool" where
  "RTSP_RET_SUCC r \<longleftrightarrow> r \<ge> 200 \<and> r < 300"

definition rtsp_server_new :: "tcp_server \<Rightarrow> nat \<Rightarrow> 'a rtsp_server" where
  "rtsp_server_new t mx =
     \<lparr>rs_tcp = t, rs_vsites = [], rs_sessions = [], rs_maxSession = mx, rs_awaits = [], rs_resps = [], rs_next = 0, rs_posted = []\<rparr>"

subsection \<open>The default handler\<close>

text \<open>\<open>None\<close>: an exception of the string class.\<close>

definition rfind_slash :: "string \<Rightarrow> nat option" where
  "rfind_slash s = find_last_of [CHR ''/''] s"

definition onOptions :: "rtsp_message \<Rightarrow> (rtsp_message \<times> int) option" where
  "onOptions resp = Some (rtsp_set_header ''Public'' ''OPTIONS, DESCRIBE, ANNOUNCE, SETUP, TEARDOWN, PLAY, PAUSE'' resp, rcOK)"

definition onDescribe :: "(string \<Rightarrow> string) \<Rightarrow> rtsp_message \<Rightarrow> rtsp_message \<Rightarrow> (rtsp_message \<times> int) option" where
  "onDescribe mediaSDP req resp =
     (let url = rm_url req; mid = (case rfind_slash url of None \<Rightarrow> url | Some p \<Rightarrow> drop (p + 1) url); sdp = mediaSDP mid
      in Some (appendBody sdp (rtsp_set_header ''Content-length'' (itoa (int (length sdp)))
           (rtsp_set_header ''Content-type'' ''application/sdp'' (rtsp_set_header ''Content-base'' url resp))), rcOK))"

definition base_on :: "(string \<Rightarrow> string) \<Rightarrow> rtsp_method \<Rightarrow> rtsp_message \<Rightarrow> rtsp_message \<Rightarrow> (rtsp_message \<times> int) option" where
  "base_on mediaSDP mt req resp =
     (case mt of
        mtdOPTIONS \<Rightarrow> onOptions resp
      | mtdANNOUNCE \<Rightarrow> Some (resp, rcOK)
      | mtdDESCRIBE \<Rightarrow> onDescribe mediaSDP req resp
      | mtdGET_PARAMETER \<Rightarrow> Some (resp, rcMethodNotAllowed)
      | mtdSET_PARAMETER \<Rightarrow> Some (resp, rcOK)
      | _ \<Rightarrow> Some (resp, rcMethodNotAllowed))"

definition procSessionSetup :: "rtsp_message \<Rightarrow> rtsp_message \<Rightarrow> (rtsp_message \<times> int) option" where
  "procSessionSetup req resp =
     (case rfind_slash (rm_url req) of
        None \<Rightarrow> None
      | Some _ \<Rightarrow> Some (rtsp_set_header ''Transport'' (rtsp_header ''Transport'' req) resp, rcOK))"

definition procSessionPlay :: "(string \<times> string) list \<Rightarrow> rtsp_message \<Rightarrow> (rtsp_message \<times> int) option" where
  "procSessionPlay props resp =
     Some (rtsp_set_header ''RTP-Info'' (case map_of props ''sys.streamKey'' of None \<Rightarrow> [] | Some s \<Rightarrow> s) resp, rcOK)"

definition base_session ::
  "rtsp_method \<Rightarrow> rtsp_message \<Rightarrow> (string \<times> string) list \<Rightarrow> rtsp_message \<Rightarrow> (rtsp_message \<times> int) option" where
  "base_session mt req props resp =
     (case mt of
        mtdSETUP \<Rightarrow> procSessionSetup req resp
      | mtdPLAY \<Rightarrow> procSessionPlay props resp
      | mtdUNKNOWN \<Rightarrow> Some (resp, rcMethodNotAllowed)
      | mtdOPTIONS \<Rightarrow> Some (resp, rcMethodNotAllowed)
      | _ \<Rightarrow> Some (resp, rcNotImplement))"

subsection \<open>Sessions and pending requests\<close>

definition findSession :: "string \<Rightarrow> 'a rtsp_server \<Rightarrow> (string \<times> string) list option" where
  "findSession i s = map_of (rs_sessions s) i"

definition addSession :: "string \<Rightarrow> (string \<times> string) list \<Rightarrow> 'a rtsp_server \<Rightarrow> 'a rtsp_server" where
  "addSession i props s = (case map_of (rs_sessions s) i of Some _ \<Rightarrow> s | None \<Rightarrow> s\<lparr>rs_sessions := smap_set i props (rs_sessions s)\<rparr>)"

definition removeSession :: "string \<Rightarrow> 'a rtsp_server \<Rightarrow> 'a rtsp_server" where
  "removeSession i s = s\<lparr>rs_sessions := smap_erase i (rs_sessions s)\<rparr>"

definition getSessionCount :: "'a rtsp_server \<Rightarrow> nat" where
  "getSessionCount s = length (rs_sessions s)"

definition setMaxSession :: "nat \<Rightarrow> 'a rtsp_server \<Rightarrow> 'a rtsp_server" where
  "setMaxSession n s = s\<lparr>rs_maxSession := n\<rparr>"

definition addReq :: "nat \<Rightarrow> 'a rtsp_server \<Rightarrow> 'a rtsp_server" where
  "addReq i s = (if i \<in> set (rs_awaits s) then s else s\<lparr>rs_awaits := rs_awaits s @ [i]\<rparr>)"

definition removeReq :: "nat \<Rightarrow> 'a rtsp_server \<Rightarrow> 'a rtsp_server" where
  "removeReq i s = s\<lparr>rs_awaits := filter (\<lambda>j. j \<noteq> i) (rs_awaits s)\<rparr>"

definition getPendingRequest :: "'a rtsp_server \<Rightarrow> int" where
  "getPendingRequest s = int (length (rs_awaits s))"

definition rtsp_mount :: "string \<Rightarrow> 'a option \<Rightarrow> (string \<times> string) list \<Rightarrow> string option \<Rightarrow> 'a rtsp_server \<Rightarrow> 'a rtsp_server \<times> bool" where
  "rtsp_mount ex app props v s = (case mount ex app props v (rs_vsites s) of (vs, r) \<Rightarrow> (s\<lparr>rs_vsites := vs\<rparr>, r))"

definition rtsp_unmount :: "string \<Rightarrow> string option \<Rightarrow> 'a rtsp_server \<Rightarrow> 'a rtsp_server \<times> bool" where
  "rtsp_unmount ex v s = (case unmount ex v (rs_vsites s) of (vs, r) \<Rightarrow> (s\<lparr>rs_vsites := vs\<rparr>, r))"

text \<open>The outer \<open>None\<close>: neither the site nor the default site exists.\<close>

definition rtsp_createHandler ::
  "(string \<Rightarrow> string \<Rightarrow> bool option) \<Rightarrow> 'a vsites \<Rightarrow> rtsp_message \<Rightarrow> string \<Rightarrow> 'a option option" where
  "rtsp_createHandler matches sites req site =
     (let u = rm_url req; uri = (case find_first_of ''?#'' u 0 of None \<Rightarrow> u | Some p \<Rightarrow> take p u)
      in case (case map_of sites site of None \<Rightarrow> map_of sites DEFAULT_SITE | Some ds \<Rightarrow> Some ds) of
           None \<Rightarrow> None
         | Some ds \<Rightarrow> Some (case List.find (\<lambda>d. matches (uriEx d) uri = Some True) ds of None \<Rightarrow> None | Some d \<Rightarrow> md_app d))"

subsection \<open>Responses\<close>

definition rtsp_response_new :: "int \<Rightarrow> int \<times> rtsp_method \<Rightarrow> rtsp_message \<Rightarrow> rtsp_response" where
  "rtsp_response_new now found req =
     \<lparr>rr_msg = (rtsp_set_header ''Method-Code'' (methodToStr (rm_method req)) (rtsp_new found (rm_connId req) RTSP_MSG_RESPONSE))
        \<lparr>rm_cSeq := rm_cSeq req\<rparr>, rr_req = req, rr_stamp = now, rr_isResp = False\<rparr>"

definition new_resp :: "int \<Rightarrow> int \<times> rtsp_method \<Rightarrow> rtsp_message \<Rightarrow> 'a rtsp_server \<Rightarrow> 'a rtsp_server \<times> nat" where
  "new_resp now found req s =
     (let i = rs_next s
      in (addReq i (s\<lparr>rs_resps := smap_set i (rtsp_response_new now found req) (rs_resps s), rs_next := i + 1\<rparr>), i))"

definition upd_resp :: "nat \<Rightarrow> (rtsp_message \<Rightarrow> rtsp_message) \<Rightarrow> 'a rtsp_server \<Rightarrow> 'a rtsp_server" where
  "upd_resp i f s =
     (case map_of (rs_resps s) i of None \<Rightarrow> s | Some r \<Rightarrow> s\<lparr>rs_resps := smap_set i (r\<lparr>rr_msg := f (rr_msg r)\<rparr>) (rs_resps s)\<rparr>)"

definition resp_TimeLeft :: "int \<Rightarrow> int \<Rightarrow> rtsp_response \<Rightarrow> int" where
  "resp_TimeLeft timeout now r =
     (if timeout \<le> 0 then DUMMY_PROCESS_TIMEOUT else sint (word_of_int (timeout - (now - rr_stamp r)) :: 32 word))"

definition with_request_id :: "rtsp_message \<Rightarrow> rtsp_message \<Rightarrow> rtsp_message" where
  "with_request_id req m =
     (if rtsp_header ''X-Request-ID'' m \<noteq> [] then m
      else rtsp_set_header ''X-Request-ID'' (take 97 (methodToStr (rm_method req) @ ''('' @ itoa (sint (rm_cSeq req)) @ '')@'' @ c_str (rm_connId req))) m)"

definition send_to_conn :: "string \<Rightarrow> string \<Rightarrow> 'a rtsp_server \<Rightarrow> 'a rtsp_server" where
  "send_to_conn cid raw s =
     (case findConn cid (rs_tcp s) of
        None \<Rightarrow> s
      | Some c \<Rightarrow> s\<lparr>rs_tcp := (rs_tcp s)\<lparr>connMap := smap_set cid (fst (tcp_enqueueSend raw c)) (connMap (rs_tcp s))\<rparr>\<rparr>)"

definition post_code :: "int \<Rightarrow> int" where
  "post_code c = (if c < 100 \<or> c > 999 then rcInternalError else c)"

definition rtsp_post :: "string \<Rightarrow> int \<Rightarrow> string option \<Rightarrow> nat \<Rightarrow> 'a rtsp_server \<Rightarrow> 'a rtsp_server" where
  "rtsp_post date code err i s =
     (case map_of (rs_resps s) i of
        None \<Rightarrow> s
      | Some r \<Rightarrow>
          if rr_isResp r then s
          else (let m1 = with_request_id (rr_req r) (rr_msg r);
                    m2 = m1\<lparr>rm_code := post_code code\<rparr>;
                    m3 = (case err of None \<Rightarrow> m2 | Some e \<Rightarrow> m2\<lparr>rm_status := c_str e\<rparr>);
                    (m4, raw) = toRaw date m3;
                    s1 = removeReq i s
                in send_to_conn (rm_connId m4) raw
                     (s1\<lparr>rs_resps := smap_set i (r\<lparr>rr_msg := m4, rr_isResp := True\<rparr>) (rs_resps s1), rs_posted := rs_posted s1 @ [(i, post_code code)]\<rparr>)))"

definition checkReqStatus :: "'a rtsp_env \<Rightarrow> string \<Rightarrow> int \<Rightarrow> 'a rtsp_server \<Rightarrow> 'a rtsp_server" where
  "checkReqStatus E date now s =
     (let expired = (\<lambda>i. case map_of (rs_resps s) i of None \<Rightarrow> False | Some r \<Rightarrow> \<not> resp_TimeLeft (re_procTimeout E) now r > 0)
      in fold (rtsp_post date rcProcessTimeout None) (filter expired (rs_awaits s)) (s\<lparr>rs_awaits := filter (\<lambda>i. \<not> expired i) (rs_awaits s)\<rparr>))"

subsection \<open>A request\<close>

text \<open>The outcome of the dispatch: the code to post, or \<open>None\<close> when the request is handled later.\<close>

datatype rtsp_error = No_default_site | String_exception

definition handled :: "nat \<Rightarrow> 'a rtsp_server \<Rightarrow> (rtsp_message \<times> int) option \<Rightarrow> rtsp_error + ('a rtsp_server \<times> int)" where
  "handled i s r = (case r of None \<Rightarrow> Inl String_exception | Some (m, code) \<Rightarrow> Inr (upd_resp i (\<lambda>_. m) s, code))"

definition resp_of :: "nat \<Rightarrow> 'a rtsp_server \<Rightarrow> rtsp_message" where
  "resp_of i s = (case map_of (rs_resps s) i of None \<Rightarrow> rtsp_new (0, mtdUNKNOWN) [] RTSP_MSG_RESPONSE | Some r \<Rightarrow> rr_msg r)"

definition dispatch_setup :: "'a rtsp_env \<Rightarrow> 'a \<Rightarrow> string \<Rightarrow> rtsp_message \<Rightarrow> nat \<Rightarrow> 'a rtsp_server \<Rightarrow> rtsp_error + ('a rtsp_server \<times> int)" where
  "dispatch_setup E app sid req i s =
     (let s1 = upd_resp i (rtsp_set_header ''Session'' sid) s
      in case re_newSession E app sid of
           None \<Rightarrow> Inr (s1, rcInternalError)
         | Some props \<Rightarrow>
             (case handled i s1 (re_session E app mtdSETUP req props (resp_of i s1)) of
                Inl e \<Rightarrow> Inl e
              | Inr (s2, code) \<Rightarrow>
                  if code = Err_AsyncHandling \<or> RTSP_RET_SUCC code
                  then Inr (addSession sid props (upd_resp i (rtsp_set_header ''Session'' sid) s2), code)
                  else Inr (s2, code)))"

definition dispatch_request ::
  "'a rtsp_env \<Rightarrow> string \<Rightarrow> rtsp_message \<Rightarrow> nat \<Rightarrow> 'a rtsp_server \<Rightarrow> rtsp_error + ('a rtsp_server \<times> int)" where
  "dispatch_request E sid req i s0 =
     (let sess = rtsp_header ''Session'' req;
          s = upd_resp i (\<lambda>m. rtsp_set_header ''Session'' sess (rtsp_set_header ''Server'' (re_server E) m)) s0;
          pendings = getPendingRequest s
      in if pendings > 2 \<and> re_maxPendings E > 2 \<and> pendings \<ge> re_maxPendings E then Inr (s, rcServiceUnavail)
         else (case rtsp_createHandler (re_matches E) (rs_vsites s) req DEFAULT_SITE of
                 None \<Rightarrow> Inl No_default_site
               | Some None \<Rightarrow> Inr (s, rcObjectNotFound)
               | Some (Some app) \<Rightarrow>
                   if sess \<noteq> []
                   then (case findSession sess s of
                           None \<Rightarrow> Inr (s, rcSessNotFound)
                         | Some props \<Rightarrow> handled i s (re_session E app (rm_method req) req props (resp_of i s)))
                   else if rm_method req = mtdSETUP then dispatch_setup E app sid req i s
                   else if rm_method req \<in> {mtdOPTIONS, mtdANNOUNCE, mtdDESCRIBE, mtdGET_PARAMETER, mtdSET_PARAMETER}
                   then handled i s (re_on E app (rm_method req) req (resp_of i s))
                   else Inr (s, rcMethodNotAllowed)))"

definition rtsp_OnRequest ::
  "'a rtsp_env \<Rightarrow> int \<Rightarrow> string \<Rightarrow> string \<Rightarrow> int \<times> rtsp_method \<Rightarrow> rtsp_message \<Rightarrow> 'a rtsp_server \<Rightarrow> rtsp_error + 'a rtsp_server" where
  "rtsp_OnRequest E now date sid found req s =
     (case new_resp now found req s of
        (s1, i) \<Rightarrow>
          (case dispatch_request E sid req i s1 of
             Inl e \<Rightarrow> Inl e
           | Inr (s2, code) \<Rightarrow>
               if code = Err_AsyncHandling then Inr s2
               else Inr (rtsp_post date (if code < 100 then rcInternalError else code) None i s2)))"

text \<open>What happens to a server: applications are mounted, a request arrives (with the time and the fresh identifier), a handler
  posts later, the timer ticks, connections come and go.\<close>

datatype 'a rtsp_srv_op =
    Mounted string "'a option" "(string \<times> string) list" "string option"
  | Unmounted string "string option"
  | Arrives int string "int \<times> rtsp_method" rtsp_message
  | PostLater int "string option" nat
  | TimerAt int
  | ConnUp tcp_conn
  | ConnDown tcp_conn
  | SessionDestroyed string

fun srv_step :: "'a rtsp_env \<Rightarrow> string \<Rightarrow> 'a rtsp_server \<Rightarrow> 'a rtsp_srv_op \<Rightarrow> 'a rtsp_server option" where
  "srv_step E date s (Arrives now sid found req) =
     (case rtsp_OnRequest E now date sid found req s of Inl _ \<Rightarrow> None | Inr s' \<Rightarrow> Some s')"
| "srv_step E date s (Mounted ex app props v) = Some (fst (rtsp_mount ex app props v s))"
| "srv_step E date s (Unmounted ex v) = Some (fst (rtsp_unmount ex v s))"
| "srv_step E date s (PostLater code err i) = Some (rtsp_post date code err i s)"
| "srv_step E date s (TimerAt now) = Some (checkReqStatus E date now s)"
| "srv_step E date s (ConnUp c) = Some (s\<lparr>rs_tcp := addConn c (rs_tcp s)\<rparr>)"
| "srv_step E date s (ConnDown c) = Some (s\<lparr>rs_tcp := delConn c (rs_tcp s)\<rparr>)"
| "srv_step E date s (SessionDestroyed sid) = Some (removeSession sid s)"

subsection \<open>Every request is answered once\<close>

definition posted_ids :: "'a rtsp_server \<Rightarrow> nat set" where
  "posted_ids s = fst ` set (rs_posted s)"

definition resps_ok :: "nat \<Rightarrow> nat set \<Rightarrow> (nat \<times> rtsp_response) list \<Rightarrow> bool" where
  "resps_ok n P rs \<longleftrightarrow>
     (\<forall>i. case map_of rs i of None \<Rightarrow> i \<ge> n | Some r \<Rightarrow> i < n \<and> (rr_isResp r \<longleftrightarrow> i \<in> P))"

text \<open>\<open>X\<close>: responses that were taken from the list and are about to be posted.\<close>

definition srv_inv :: "nat set \<Rightarrow> 'a rtsp_server \<Rightarrow> bool" where
  "srv_inv X s \<longleftrightarrow>
     distinct (map fst (rs_posted s)) \<and> list_all (\<lambda>(i, c). 100 \<le> c \<and> c \<le> 999) (rs_posted s) \<and>
     distinct (rs_awaits s) \<and> set (rs_awaits s) \<inter> posted_ids s = {} \<and> X \<inter> posted_ids s = {} \<and>
     set (rs_awaits s) \<union> X \<union> posted_ids s = {..<rs_next s} \<and> resps_ok (rs_next s) (posted_ids s) (rs_resps s)"

lemma posted_ids_simps [simp]:
  "posted_ids (s\<lparr>rs_resps := a\<rparr>) = posted_ids s" "posted_ids (s\<lparr>rs_awaits := b\<rparr>) = posted_ids s"
  "posted_ids (s\<lparr>rs_next := c\<rparr>) = posted_ids s" "posted_ids (s\<lparr>rs_tcp := d\<rparr>) = posted_ids s"
  "posted_ids (s\<lparr>rs_sessions := e\<rparr>) = posted_ids s"
  "posted_ids (s\<lparr>rs_vsites := v\<rparr>) = posted_ids s"
  "posted_ids (s\<lparr>rs_posted := f\<rparr>) = fst ` set f"
  by (simp_all add: posted_ids_def)

lemma resps_ok_lookup:
  "resps_ok n P rs \<Longrightarrow> map_of rs i = Some r \<Longrightarrow> i < n \<and> (rr_isResp r \<longleftrightarrow> i \<in> P)"
  "resps_ok n P rs \<Longrightarrow> map_of rs i = None \<Longrightarrow> n \<le> i"
  by (drule resps_ok_def [THEN iffD1, THEN spec, of _ _ _ i], simp)+

lemma resps_ok_update:
  assumes "resps_ok n P rs" and "i < n" and "rr_isResp r \<longleftrightarrow> i \<in> P'" and "P' - {i} = P - {i}"
  shows "resps_ok n P' (smap_set i r rs)"
  unfolding resps_ok_def
proof
  fix j
  show "case map_of (smap_set i r rs) j of None \<Rightarrow> n \<le> j | Some r \<Rightarrow> j < n \<and> rr_isResp r = (j \<in> P')"
  proof (cases "j = i")
    case True
    then show ?thesis using assms by (simp add: std_simps)
  next
    case False
    then have "j \<in> P' \<longleftrightarrow> j \<in> P" using assms(4) by blast
    then show ?thesis using False resps_ok_lookup [OF assms(1), of j]
      by (cases "map_of rs j") (auto simp: std_simps)
  qed
qed

lemma resps_ok_new:
  assumes "resps_ok n P rs" and "n \<notin> P" and "\<not> rr_isResp r"
  shows "resps_ok (n + 1) P (smap_set n r rs)"
  unfolding resps_ok_def
proof
  fix i
  show "case map_of (smap_set n r rs) i of None \<Rightarrow> n + 1 \<le> i | Some r \<Rightarrow> i < n + 1 \<and> rr_isResp r = (i \<in> P)"
  proof (cases "i = n")
    case True
    then show ?thesis using assms by (simp add: std_simps)
  next
    case False
    then show ?thesis using resps_ok_lookup [OF assms(1), of i]
      by (cases "map_of rs i") (auto simp: std_simps)
  qed
qed

lemma upd_resp_inv: "srv_inv X s \<Longrightarrow> srv_inv X (upd_resp i f s)"
  using resps_ok_lookup [of "rs_next s" "posted_ids s" "rs_resps s" i]
  by (auto simp: srv_inv_def upd_resp_def intro!: resps_ok_update split: option.split)

lemma session_inv: "srv_inv X s \<Longrightarrow> srv_inv X (addSession i p s)" "srv_inv X s \<Longrightarrow> srv_inv X (removeSession i s)"
  "srv_inv X s \<Longrightarrow> srv_inv X (s\<lparr>rs_tcp := t\<rparr>)"
  "srv_inv X s \<Longrightarrow> srv_inv X (s\<lparr>rs_vsites := v\<rparr>)"
  by (simp_all add: addSession_def removeSession_def srv_inv_def split: option.split)

lemma send_to_conn_inv: "srv_inv X s \<Longrightarrow> srv_inv X (send_to_conn c raw s)"
  by (simp add: send_to_conn_def session_inv split: option.split)

lemma new_resp_inv:
  assumes "srv_inv X s" and "new_resp now found req s = (s', i)"
  shows "srv_inv X s'"
proof -
  have f: "rs_next s \<notin> set (rs_awaits s) \<union> X \<union> posted_ids s" using assms(1) by (auto simp: srv_inv_def)
  then have s': "s' = s\<lparr>rs_resps := smap_set (rs_next s) (rtsp_response_new now found req) (rs_resps s), rs_next := rs_next s + 1,
      rs_awaits := rs_awaits s @ [rs_next s]\<rparr>"
    using assms(2) by (auto simp: new_resp_def addReq_def Let_def)
  have "resps_ok (rs_next s + 1) (posted_ids s) (smap_set (rs_next s) (rtsp_response_new now found req) (rs_resps s))"
    using assms(1) f by (intro resps_ok_new) (auto simp: srv_inv_def rtsp_response_new_def)
  then show ?thesis using assms(1) f by (simp add: srv_inv_def s') (auto simp: lessThan_Suc)
qed

lemma post_inv:
  assumes "srv_inv X s"
  shows "srv_inv (X - {i}) (rtsp_post date code err i s)"
proof (cases "map_of (rs_resps s) i")
  case None
  have "resps_ok (rs_next s) (posted_ids s) (rs_resps s)" "X \<subseteq> {..<rs_next s}" using assms by (auto simp: srv_inv_def)
  then have "i \<notin> X" using resps_ok_lookup(2) [OF _ None] by fastforce
  then show ?thesis using assms None by (simp add: rtsp_post_def)
next
  case (Some r)
  have ok: "resps_ok (rs_next s) (posted_ids s) (rs_resps s)" using assms by (simp add: srv_inv_def)
  note r = resps_ok_lookup(1) [OF ok Some]
  show ?thesis
  proof (cases "rr_isResp r")
    case True
    then have "X - {i} = X" using assms r by (auto simp: srv_inv_def)
    then show ?thesis using assms Some True by (simp add: rtsp_post_def)
  next
    case False
    have c: "100 \<le> post_code code \<and> post_code code \<le> 999" by (simp add: post_code_def rcInternalError_def)
    have *: "srv_inv (X - {i}) (s\<lparr>rs_awaits := filter (\<lambda>j. j \<noteq> i) (rs_awaits s),
        rs_resps := smap_set i (r\<lparr>rr_msg := m, rr_isResp := True\<rparr>) (rs_resps s), rs_posted := rs_posted s @ [(i, post_code code)]\<rparr>)"
      (is "srv_inv _ ?t") for m
    proof -
      have i: "i \<notin> posted_ids s" using r False by simp
      have "posted_ids ?t = insert i (posted_ids s)" by (auto simp: posted_ids_def)
      moreover have "resps_ok (rs_next s) (insert i (posted_ids s)) (rs_resps ?t)"
        using r by (auto intro!: resps_ok_update [OF ok])
      moreover have "(set (rs_awaits s) - {i}) \<union> (X - {i}) \<union> insert i (posted_ids s) = {..<rs_next s}"
        using assms r unfolding srv_inv_def by blast
      moreover have "distinct (map fst (rs_posted ?t))" using assms i by (simp add: srv_inv_def posted_ids_def)
      moreover have "list_all (\<lambda>(i, c). 100 \<le> c \<and> c \<le> 999) (rs_posted ?t)" using assms c by (simp add: srv_inv_def)
      moreover have "distinct (rs_awaits ?t)" "set (rs_awaits ?t) = set (rs_awaits s) - {i}" "rs_next ?t = rs_next s"
        using assms by (auto simp: srv_inv_def)
      moreover have "set (rs_awaits s) \<inter> posted_ids s = {}" "X \<inter> posted_ids s = {}" using assms by (simp_all add: srv_inv_def)
      then have "(set (rs_awaits s) - {i}) \<inter> insert i (posted_ids s) = {}" "(X - {i}) \<inter> insert i (posted_ids s) = {}" by blast+
      ultimately show ?thesis unfolding srv_inv_def by metis
    qed
    show ?thesis using Some False
      by (auto simp: rtsp_post_def Let_def removeReq_def intro!: send_to_conn_inv * split: prod.split)
  qed
qed

lemma post_all_inv: "srv_inv X s \<Longrightarrow> srv_inv (X - set is) (fold (rtsp_post date code err) is s)"
proof (induction "is" arbitrary: X s)
  case (Cons i "is")
  show ?case using Cons.IH [OF post_inv [OF Cons.prems, of i date code err]] by (simp add: Diff_insert2 [symmetric] insert_commute)
qed simp

lemma checkReqStatus_inv:
  assumes "srv_inv {} s"
  shows "srv_inv {} (checkReqStatus E date now s)"
proof -
  define ex where "ex = (\<lambda>i. case map_of (rs_resps s) i of None \<Rightarrow> False | Some r \<Rightarrow> \<not> resp_TimeLeft (re_procTimeout E) now r > 0)"
  have "srv_inv (set (filter ex (rs_awaits s))) (s\<lparr>rs_awaits := filter (\<lambda>i. \<not> ex i) (rs_awaits s)\<rparr>)"
    using assms by (simp add: srv_inv_def) blast
  from post_all_inv [OF this, of "filter ex (rs_awaits s)"] show ?thesis
    by (simp add: checkReqStatus_def Let_def ex_def)
qed

lemma handled_inv: "srv_inv X s \<Longrightarrow> handled i s r = Inr (s', c) \<Longrightarrow> srv_inv X s'"
  by (auto simp: handled_def upd_resp_inv split: option.splits)

lemma dispatch_setup_inv: "srv_inv X s \<Longrightarrow> dispatch_setup E app sid req i s = Inr (s', c) \<Longrightarrow> srv_inv X s'"
  by (auto simp: dispatch_setup_def Let_def intro!: session_inv upd_resp_inv
      elim!: handled_inv [rotated] split: option.splits sum.splits if_splits)

lemma dispatch_request_inv:
  assumes "srv_inv X s" and "dispatch_request E sid req i s = Inr (s', c)"
  shows "srv_inv X s'"
  using assms(2) upd_resp_inv [OF assms(1)]
  by (auto simp: dispatch_request_def Let_def split: option.splits if_splits elim: handled_inv [rotated] dispatch_setup_inv [rotated])

lemma OnRequest_inv:
  assumes "srv_inv {} s" and "rtsp_OnRequest E now date sid found req s = Inr s'"
  shows "srv_inv {} s'"
proof -
  obtain s1 i where n: "new_resp now found req s = (s1, i)" by fastforce
  obtain s2 c where d: "dispatch_request E sid req i s1 = Inr (s2, c)"
    using assms(2) n by (auto simp: rtsp_OnRequest_def split: sum.splits)
  have "srv_inv {} s2" by (rule dispatch_request_inv [OF new_resp_inv [OF assms(1) n] d])
  then show ?thesis using assms(2) n d post_inv [of "{}" s2 i date] by (auto simp: rtsp_OnRequest_def split: if_splits)
qed

interpretation rtsp_machine: transition_system "rtsp_server_new t mx" "srv_step E date" "srv_inv {}"
  for t mx E date
proof unfold_locales
  show "srv_inv {} (rtsp_server_new t mx)"
    by (simp add: srv_inv_def rtsp_server_new_def posted_ids_def resps_ok_def)
  show "srv_inv {} s'" if "srv_inv {} s" "srv_step E date s x = Some s'" for s x s'
    using that by (cases x) (auto simp: rtsp_mount_def rtsp_unmount_def intro: session_inv OnRequest_inv checkReqStatus_inv
        post_inv [where X = "{}", simplified] split: sum.splits prod.splits)
qed

text \<open>
  C27. After any sequence of requests, posts by handlers, timer ticks, connections and ended sessions, every request that came
  in is either still pending or was answered, and none was answered twice, however often handlers and the timer post: the code
  that was sent is one of 100 to 999.
\<close>

theorem rtsp_answers_once:
  assumes "run_ops (srv_step E date) (rtsp_server_new t mx) ops = Some s"
  shows "distinct (map fst (rs_posted s)) \<and>
     set (rs_awaits s) \<inter> fst ` set (rs_posted s) = {} \<and>
     set (rs_awaits s) \<union> fst ` set (rs_posted s) = {..<rs_next s} \<and>
     list_all (\<lambda>(i, c). 100 \<le> c \<and> c \<le> 999) (rs_posted s)"
  using rtsp_machine.reachable_inv [OF assms] by (simp add: srv_inv_def posted_ids_def)

definition demo_rtsp :: "unit rtsp_env" where
  "demo_rtsp = \<lparr>re_server = ''eloop'', re_procTimeout = 5000, re_maxPendings = 100, re_matches = (\<lambda>_ _. Some True),
     re_newSession = (\<lambda>_ _. Some []), re_on = (\<lambda>_ m req resp. if rm_cSeq req = 1 then Some (resp, Err_AsyncHandling) else base_on (\<lambda>_. []) m req resp),
     re_session = (\<lambda>_ m req props resp. base_session m req props resp)\<rparr>"

definition demo_req :: "uint32 \<Rightarrow> rtsp_message" where
  "demo_req n = (rtsp_new (0, mtdOPTIONS) ''c'' RTSP_MSG_REQUEST)\<lparr>rm_cSeq := n\<rparr>"

definition demo_run :: "unit rtsp_srv_op list" where
  "demo_run = [Mounted ''.*'' (Some ()) [] None, Arrives 0 ''s'' (0, mtdUNKNOWN) (demo_req 1), Arrives 1 ''s'' (0, mtdUNKNOWN) (demo_req 2)]"

definition demo_tcp :: tcp_server where
  "demo_tcp = \<lparr>sv_mode = SINGLE_LOOP_MODE, sv_cpuIds = [], sv_host = [], sv_port = 554, soService = True, thrdLoops = [0], idxLoop = 0,
     connMap = []\<rparr>"

lemma rtsp_demo_runs:
  "case run_ops (srv_step demo_rtsp []) (rtsp_server_new demo_tcp 0) demo_run of None \<Rightarrow> False
   | Some s \<Rightarrow> rs_posted s = [(1, 200)] \<and> rs_awaits s = [0] \<and> map_option rr_stamp (map_of (rs_resps s) 0) = Some 0"
  by code_simp

theorem rtsp_answers_once_witness:
  "\<exists>s. run_ops (srv_step demo_rtsp []) (rtsp_server_new demo_tcp 0) demo_run = Some s \<and> rs_posted s = [(1, 200)] \<and>
     rs_awaits s = [0] \<and> set (rs_awaits s) \<union> fst ` set (rs_posted s) = {..<rs_next s}"
proof -
  obtain s where s: "run_ops (srv_step demo_rtsp []) (rtsp_server_new demo_tcp 0) demo_run = Some s" and
      f: "rs_posted s = [(1, 200)]" "rs_awaits s = [0]"
    using rtsp_demo_runs by (auto split: option.splits)
  show ?thesis using s f rtsp_answers_once [OF s] by blast
qed

subsection \<open>Time-outs\<close>

lemma post_effect:
  assumes "srv_inv X s" and "i < rs_next s" and "i \<notin> posted_ids s"
  shows "rs_posted (rtsp_post date code err i s) = rs_posted s @ [(i, post_code code)]"
    and "rs_awaits (rtsp_post date code err i s) = filter (\<lambda>j. j \<noteq> i) (rs_awaits s)"
    and "rs_next (rtsp_post date code err i s) = rs_next s"
proof -
  have ok: "resps_ok (rs_next s) (posted_ids s) (rs_resps s)" using assms(1) by (simp add: srv_inv_def)
  obtain r where r: "map_of (rs_resps s) i = Some r" "\<not> rr_isResp r"
    using resps_ok_lookup [OF ok, of i] assms(2,3) by (cases "map_of (rs_resps s) i") auto
  then show "rs_posted (rtsp_post date code err i s) = rs_posted s @ [(i, post_code code)]"
    and "rs_awaits (rtsp_post date code err i s) = filter (\<lambda>j. j \<noteq> i) (rs_awaits s)"
    and "rs_next (rtsp_post date code err i s) = rs_next s"
    by (simp_all add: rtsp_post_def Let_def send_to_conn_def removeReq_def split: prod.split option.split)
qed

lemma post_all_effect:
  assumes "srv_inv X s" and "distinct is" and "set is \<subseteq> {..<rs_next s} - posted_ids s" and "rs_awaits s = []"
  shows "rs_posted (fold (rtsp_post date code err) is s) = rs_posted s @ map (\<lambda>i. (i, post_code code)) is \<and>
    rs_awaits (fold (rtsp_post date code err) is s) = []"
  using assms
proof (induction "is" arbitrary: X s)
  case (Cons i "is")
  have i: "i < rs_next s" "i \<notin> posted_ids s" using Cons.prems(3) by auto
  note e = post_effect [OF Cons.prems(1) i, of date code err]
  have "set is \<subseteq> {..<rs_next (rtsp_post date code err i s)} - posted_ids (rtsp_post date code err i s)"
    using Cons.prems(2,3) by (auto simp: posted_ids_def e)
  from Cons.IH [OF post_inv [OF Cons.prems(1)] _ this] Cons.prems(2,4) show ?case by (simp add: e)
qed simp

definition overdue :: "'a rtsp_env \<Rightarrow> int \<Rightarrow> rtsp_response \<Rightarrow> bool" where
  "overdue E now r \<longleftrightarrow> re_procTimeout E \<le> now - rr_stamp r \<and> now - rr_stamp r \<le> re_procTimeout E + 2 ^ 31"

lemma int_of_32: "- (2 ^ 31) \<le> x \<Longrightarrow> x \<le> 0 \<Longrightarrow> sint (word_of_int x :: 32 word) = x"
  by (simp add: signed_of_int signed_take_bit_int_eq_self)

lemma overdue_TimeLeft:
  assumes "0 < re_procTimeout E" and "overdue E now r"
  shows "\<not> resp_TimeLeft (re_procTimeout E) now r > 0"
proof -
  let ?d = "re_procTimeout E - (now - rr_stamp r)"
  have d: "- (2 ^ 31) \<le> ?d" "?d \<le> 0" using assms(2) by (simp_all add: overdue_def)
  have "resp_TimeLeft (re_procTimeout E) now r = ?d" using assms(1) unfolding resp_TimeLeft_def int_of_32 [OF d] by simp
  then show ?thesis using d by simp
qed

lemma all_overdue_answered:
  assumes inv: "srv_inv {} s" and t: "0 < re_procTimeout E"
    and o: "list_all (\<lambda>i. case map_of (rs_resps s) i of None \<Rightarrow> False | Some r \<Rightarrow> overdue E now r) (rs_awaits s)"
  shows "rs_awaits (checkReqStatus E date now s) = [] \<and>
    rs_posted (checkReqStatus E date now s) = rs_posted s @ map (\<lambda>i. (i, rcProcessTimeout)) (rs_awaits s)"
proof -
  define ex where "ex = (\<lambda>i. case map_of (rs_resps s) i of None \<Rightarrow> False | Some r \<Rightarrow> \<not> resp_TimeLeft (re_procTimeout E) now r > 0)"
  have all: "ex i" if "i \<in> set (rs_awaits s)" for i
    using o that overdue_TimeLeft [OF t] by (auto simp: ex_def list_all_iff split: option.splits)
  let ?s = "s\<lparr>rs_awaits := []\<rparr>"
  have i: "srv_inv (set (rs_awaits s)) ?s" using inv by (simp add: srv_inv_def)
  have "distinct (rs_awaits s)" "set (rs_awaits s) \<subseteq> {..<rs_next ?s} - posted_ids ?s"
    using inv by (auto simp: srv_inv_def)
  note e = post_all_effect [OF i this]
  have "filter ex (rs_awaits s) = rs_awaits s" "filter (\<lambda>i. \<not> ex i) (rs_awaits s) = []"
    using all by (simp_all add: filter_id_conv filter_empty_conv)
  then have "checkReqStatus E date now s = fold (rtsp_post date rcProcessTimeout None) (rs_awaits s) ?s"
    by (simp add: checkReqStatus_def Let_def ex_def [symmetric])
  then show ?thesis using e [of date rcProcessTimeout None] by (simp add: post_code_def rcProcessTimeout_def)
qed

text \<open>Without a time limit nothing ever expires.\<close>

lemma no_limit_no_timeout:
  assumes "re_procTimeout E \<le> 0"
  shows "checkReqStatus E date now s = s"
proof -
  have "(\<lambda>i. case map_of (rs_resps s) i of None \<Rightarrow> False | Some r \<Rightarrow> \<not> resp_TimeLeft (re_procTimeout E) now r > 0) = (\<lambda>_. False)"
    using assms by (auto simp: fun_eq_iff resp_TimeLeft_def DUMMY_PROCESS_TIMEOUT_def split: option.split)
  then show ?thesis by (simp add: checkReqStatus_def)
qed

text \<open>
  C28. When the timer runs late enough that every pending request is past the time limit, and by less than \<open>2^31\<close>
  milliseconds, each of them is answered with 504, in the order of arrival, and none is left.
\<close>

theorem late_timer_answers_all:
  assumes "run_ops (srv_step E date) (rtsp_server_new t mx) ops = Some s" and "0 < re_procTimeout E"
    and "list_all (\<lambda>i. case map_of (rs_resps s) i of None \<Rightarrow> False | Some r \<Rightarrow> overdue E now r) (rs_awaits s)"
  shows "rs_awaits (checkReqStatus E date now s) = [] \<and>
    rs_posted (checkReqStatus E date now s) = rs_posted s @ map (\<lambda>i. (i, rcProcessTimeout)) (rs_awaits s)"
  by (rule all_overdue_answered [OF rtsp_machine.reachable_inv [OF assms(1)] assms(2,3)])

theorem late_timer_answers_all_witness:
  "\<exists>s. run_ops (srv_step demo_rtsp []) (rtsp_server_new demo_tcp 0) demo_run = Some s \<and> rs_awaits s = [0] \<and>
     rs_posted (checkReqStatus demo_rtsp [] 6000 s) = [(1, 200), (0, 504)]"
proof -
  obtain s where s: "run_ops (srv_step demo_rtsp []) (rtsp_server_new demo_tcp 0) demo_run = Some s" and
      f: "rs_posted s = [(1, 200)]" "rs_awaits s = [0]" "map_option rr_stamp (map_of (rs_resps s) 0) = Some 0"
    using rtsp_demo_runs by (auto split: option.splits)
  have "rs_posted (checkReqStatus demo_rtsp [] 6000 s) = rs_posted s @ map (\<lambda>i. (i, rcProcessTimeout)) (rs_awaits s)"
    by (rule late_timer_answers_all [OF s, THEN conjunct2]) (use f in \<open>auto simp: demo_rtsp_def overdue_def\<close>)
  then show ?thesis using s f by (simp add: rcProcessTimeout_def)
qed

end
