(* ===== verification/Lipc_Message.thy ===== *)
theory Lipc_Message
  imports Complex_Main Std_Map Std_String Byte_Codec
begin

text \<open>
  The values of jsoncpp (eloop/json) as far as LIPC.cpp uses them, and its messages. Where jsoncpp throws the result is
  \<open>None\<close>. Reading and writing of JSON text and the text of real numbers are arguments. An integer value stands for the signed
  and the unsigned kind alike.
\<close>

subsection \<open>JSON values\<close>

datatype json =
    J_null
  | J_bool bool
  | J_int int
  | J_real rat
  | J_str string
  | J_arr "json list"
  | J_obj "(string \<times> json) list"

fun jfind :: "string \<Rightarrow> json \<Rightarrow> json option option" where
  "jfind k J_null = Some None"
| "jfind k (J_obj m) = Some (map_of m k)"
| "jfind k _ = None"

definition isMember :: "string \<Rightarrow> json \<Rightarrow> bool option" where
  "isMember k j = map_option (\<lambda>r. r \<noteq> None) (jfind k j)"

text \<open>\<open>j[k]\<close> of a constant value, and \<open>j[k] = v\<close>.\<close>

definition jget :: "string \<Rightarrow> json \<Rightarrow> json option" where
  "jget k j = (case jfind k j of None \<Rightarrow> None | Some None \<Rightarrow> Some J_null | Some (Some v) \<Rightarrow> Some v)"

fun jset :: "string \<Rightarrow> json \<Rightarrow> json \<Rightarrow> json option" where
  "jset k v J_null = Some (J_obj [(k, v)])"
| "jset k v (J_obj m) = Some (J_obj (smap_set k v m))"
| "jset k v _ = None"

definition minInt :: int where "minInt = - (2 ^ 31)"
definition maxInt :: int where "maxInt = 2 ^ 31 - 1"
definition maxUInt :: int where "maxUInt = 2 ^ 32 - 1"

definition in_range :: "rat \<Rightarrow> int \<Rightarrow> int \<Rightarrow> bool" where
  "in_range d lo hi \<longleftrightarrow> of_int lo \<le> d \<and> d \<le> of_int hi"

text \<open>Conversion of a number drops its fraction.\<close>

definition trunc :: "rat \<Rightarrow> int" where
  "trunc d = (if d < 0 then - \<lfloor>- d\<rfloor> else \<lfloor>d\<rfloor>)"

fun asInt :: "json \<Rightarrow> int option" where
  "asInt (J_int n) = (if minInt \<le> n \<and> n \<le> maxInt then Some n else None)"
| "asInt (J_real d) = (if in_range d minInt maxInt then Some (trunc d) else None)"
| "asInt J_null = Some 0"
| "asInt (J_bool b) = Some (if b then 1 else 0)"
| "asInt _ = None"

fun asUInt :: "json \<Rightarrow> int option" where
  "asUInt (J_int n) = (if 0 \<le> n \<and> n \<le> maxUInt then Some n else None)"
| "asUInt (J_real d) = (if in_range d 0 maxUInt then Some (trunc d) else None)"
| "asUInt J_null = Some 0"
| "asUInt (J_bool b) = Some (if b then 1 else 0)"
| "asUInt _ = None"

fun asString :: "(rat \<Rightarrow> string) \<Rightarrow> json \<Rightarrow> string option" where
  "asString real_text J_null = Some []"
| "asString real_text (J_str s) = Some s"
| "asString real_text (J_bool b) = Some (if b then ''true'' else ''false'')"
| "asString real_text (J_int n) = Some (itoa n)"
| "asString real_text (J_real d) = Some (real_text d)"
| "asString real_text _ = None"

subsection \<open>Messages\<close>

definition LIPC_OK :: int where "LIPC_OK = 200"
definition LIPC_CLIENT_ERROR :: int where "LIPC_CLIENT_ERROR = 400"
definition LIPC_CLIENT_CLOSED :: int where "LIPC_CLIENT_CLOSED = 405"
definition LIPC_REQUEST_TIMEOUT :: int where "LIPC_REQUEST_TIMEOUT = 408"
definition LIPC_PARSING_ERROR :: int where "LIPC_PARSING_ERROR = - 32700"
definition LIPC_METHOD_NOT_FOUND :: int where "LIPC_METHOD_NOT_FOUND = - 32601"
definition LIPC_NONE :: int where "LIPC_NONE = 3"

text \<open>\<open>lm_cSeq\<close> is unsigned, the constructor takes an \<open>int\<close>.\<close>

record lipc_message =
  lm_msg :: json
  lm_cSeq :: uint32

definition lipc_message_new :: "int \<Rightarrow> json \<Rightarrow> lipc_message" where
  "lipc_message_new cseq msg = \<lparr>lm_msg = msg, lm_cSeq = word_of_int cseq\<rparr>"

definition lipc_errDesc :: "int \<Rightarrow> string" where
  "lipc_errDesc code =
     (if code = LIPC_OK then ''OK''
      else if code = LIPC_CLIENT_ERROR then ''client error''
      else if code = LIPC_REQUEST_TIMEOUT then ''request timeout''
      else if code = 409 then ''request conflict''
      else if code = 501 then ''not implemented''
      else if code = 503 then ''service unavailable''
      else if code = 505 then ''unsupported version''
      else if code = - 33000 then ''invalid fd''
      else if code = - 33001 then ''invalid fd-type''
      else if code = LIPC_PARSING_ERROR then ''parse error''
      else if code = - 32600 then ''invalid JSON-RPC request''
      else if code = LIPC_METHOD_NOT_FOUND then ''method not found''
      else if code = - 32602 then ''invalid params''
      else if code = - 32603 then ''internal error''
      else ''server error'')"

definition set_msg :: "string \<Rightarrow> json \<Rightarrow> lipc_message \<Rightarrow> lipc_message option" where
  "set_msg k v m = map_option (\<lambda>j. m\<lparr>lm_msg := j\<rparr>) (jset k v (lm_msg m))"

definition setErrorCode :: "int \<Rightarrow> string \<Rightarrow> lipc_message \<Rightarrow> lipc_message option" where
  "setErrorCode code errMsg m =
     set_msg ''error'' (J_obj [(''code'', J_int code), (''message'', J_str (if errMsg = [] then lipc_errDesc code else errMsg))]) m"

text \<open>A member with a default, and its conversion.\<close>

definition member_or :: "string \<Rightarrow> (json \<Rightarrow> 'b option) \<Rightarrow> 'b \<Rightarrow> json \<Rightarrow> 'b option" where
  "member_or k conv d j = (case jfind k j of None \<Rightarrow> None | Some None \<Rightarrow> Some d | Some (Some v) \<Rightarrow> conv v)"

definition getErrorCode :: "lipc_message \<Rightarrow> int option" where
  "getErrorCode m = member_or ''error'' (member_or ''code'' asInt LIPC_OK) LIPC_OK (lm_msg m)"

definition getCSeq :: "lipc_message \<Rightarrow> int option" where
  "getCSeq m = (if lm_cSeq m > 0 then Some (sint (lm_cSeq m)) else member_or ''id'' asInt (- 1) (lm_msg m))"

definition setFd :: "int \<Rightarrow> int \<Rightarrow> lipc_message \<Rightarrow> lipc_message option" where
  "setFd fd type m = (case set_msg ''fd'' (J_int fd) m of None \<Rightarrow> None | Some m1 \<Rightarrow> set_msg ''fd_type'' (J_int type) m1)"

definition getFd :: "lipc_message \<Rightarrow> int option" where
  "getFd m = member_or ''fd'' asInt (- 1) (lm_msg m)"

definition getFdType :: "lipc_message \<Rightarrow> int option" where
  "getFdType m = member_or ''fd_type'' asUInt LIPC_NONE (lm_msg m)"

definition hasFd :: "lipc_message \<Rightarrow> bool option" where
  "hasFd m = isMember ''fd'' (lm_msg m)"

definition lipc_empty :: "lipc_message \<Rightarrow> bool" where
  "lipc_empty m \<longleftrightarrow> lm_msg m = J_null"

definition lipc_toString :: "(json \<Rightarrow> string) \<Rightarrow> lipc_message \<Rightarrow> (lipc_message \<times> string) option" where
  "lipc_toString write m =
     (if lm_msg m = J_null then Some (m, [])
      else (case (if lm_cSeq m > 0 then set_msg ''id'' (J_int (uint (lm_cSeq m))) m else Some m) of
              None \<Rightarrow> None
            | Some m1 \<Rightarrow> map_option (\<lambda>m2. (m2, write (lm_msg m2))) (set_msg ''jsonrpc'' (J_str ''2.0'') m1)))"

definition lipc_fromString :: "(string \<Rightarrow> json option) \<Rightarrow> string \<Rightarrow> lipc_message \<Rightarrow> lipc_message \<times> bool" where
  "lipc_fromString parse s m = (case parse s of None \<Rightarrow> (m\<lparr>lm_msg := J_null\<rparr>, False) | Some j \<Rightarrow> (m\<lparr>lm_msg := j\<rparr>, True))"

definition setParam :: "json \<Rightarrow> lipc_message \<Rightarrow> lipc_message option" where
  "setParam v = set_msg ''params'' v"

definition getParam :: "lipc_message \<Rightarrow> json option" where
  "getParam m = jget ''params'' (lm_msg m)"

definition getMethod :: "(rat \<Rightarrow> string) \<Rightarrow> lipc_message \<Rightarrow> string option" where
  "getMethod real_text m = member_or ''method'' (asString real_text) [] (lm_msg m)"

definition lipc_setResult :: "json \<Rightarrow> lipc_message \<Rightarrow> lipc_message option" where
  "lipc_setResult v = set_msg ''result'' v"

definition lipc_getResult :: "lipc_message \<Rightarrow> json option" where
  "lipc_getResult m = jget ''result'' (lm_msg m)"

subsection \<open>Laws of the members\<close>

lemma jfind_jset: "jset k v j = Some j' \<Longrightarrow> jfind k' j' = (if k' = k then Some (Some v) else jfind k' j)"
  by (cases j) (auto simp: std_simps)

lemma set_msg_Some: "set_msg k v m = Some m' \<longleftrightarrow> (\<exists>j. jset k v (lm_msg m) = Some j \<and> m' = m\<lparr>lm_msg := j\<rparr>)"
  by (auto simp: set_msg_def)

lemma jfind_set_msg:
  "set_msg k v m = Some m' \<Longrightarrow>
     (\<forall>k'. jfind k' (lm_msg m') = (if k' = k then Some (Some v) else jfind k' (lm_msg m))) \<and> lm_cSeq m' = lm_cSeq m"
  by (auto simp: set_msg_Some jfind_jset)

text \<open>Values that have members: the other kinds make every access throw.\<close>

definition is_struct :: "json \<Rightarrow> bool" where
  "is_struct j \<longleftrightarrow> (case j of J_null \<Rightarrow> True | J_obj _ \<Rightarrow> True | _ \<Rightarrow> False)"

lemma jfind_throws: "jfind k j = None \<longleftrightarrow> \<not> is_struct j"
  by (cases j) (simp_all add: is_struct_def)

lemma jset_total: "is_struct j \<longleftrightarrow> jset k v j \<noteq> None"
  by (cases j) (simp_all add: is_struct_def)

lemma setFd_getFd:
  assumes "setFd fd ty m = Some m'" and "minInt \<le> fd" "fd \<le> maxInt" and "0 \<le> ty" "ty \<le> maxUInt"
  shows "getFd m' = Some fd \<and> getFdType m' = Some ty \<and> hasFd m' = Some True"
  using assms by (auto simp: setFd_def getFd_def getFdType_def hasFd_def isMember_def member_or_def dest!: jfind_set_msg split: option.splits)

lemma setErrorCode_getErrorCode:
  assumes "setErrorCode code e m = Some m'" and "minInt \<le> code" "code \<le> maxInt"
  shows "getErrorCode m' = Some code"
  using assms by (auto simp: setErrorCode_def getErrorCode_def member_or_def dest!: jfind_set_msg)

subsection \<open>Hexadecimal text of 64-bit values\<close>

definition hex_upper :: "nat \<Rightarrow> char" where
  "hex_upper n = char_of (n + (if n < 10 then 48 else 65 - 10))"

fun hex_text :: "nat \<Rightarrow> string" where
  "hex_text n = (if n < 16 then [hex_upper n] else hex_text (n div 16) @ [hex_upper (n mod 16)])"

declare hex_text.simps [simp del]

definition hexstr :: "uint64 \<Rightarrow> bool \<Rightarrow> string" where
  "hexstr v prefix0X = (if prefix0X then ''0X'' else []) @ hex_text (unat v)"

text \<open>\<open>%llX\<close> reads white space, a sign and a prefix like \<open>strtoull\<close>; a value beyond 64 bits becomes the greatest one. Without a
  digit nothing is stored.\<close>

definition scan_hex :: "string \<Rightarrow> uint64 option" where
  "scan_hex s =
     (let t = dropWhile is_space s;
          (neg, u) = (case t of [] \<Rightarrow> (False, []) | c # r \<Rightarrow> if c = CHR ''-'' then (True, r) else if c = CHR ''+'' then (False, r) else (False, t));
          v = (if take 2 u = ''0x'' \<or> take 2 u = ''0X'' then drop 2 u else u);
          ds = takeWhile (\<lambda>c. is_xdigit (byte c)) v;
          n = foldl (\<lambda>a c. 16 * a + hex_value c) 0 ds
      in if ds = [] then None
         else if n \<ge> 2 ^ 64 then Some (- 1) else Some (if neg then - of_nat n else of_nat n))"

definition hexvalue :: "string \<Rightarrow> uint64" where
  "hexvalue s =
     (let z = c_str s;
          p = (case find_str ''0x'' z 0 of
                 Some i \<Rightarrow> drop (i + 2) z
               | None \<Rightarrow> (case find_str ''0X'' z 0 of Some i \<Rightarrow> drop (i + 2) z | None \<Rightarrow> z))
      in case scan_hex p of None \<Rightarrow> 0 | Some v \<Rightarrow> v)"

definition hex_upper_ok :: "nat \<Rightarrow> bool" where
  "hex_upper_ok d \<longleftrightarrow> (let c = hex_upper d in
     is_xdigit (byte c) \<and> hex_value c = d \<and> \<not> is_space c \<and> c \<notin> {CHR ''-'', CHR ''+'', CHR ''x'', CHR ''X'', CHR 0x00})"

lemma hex_upper_ok: "d < 16 \<Longrightarrow> hex_upper_ok d"
proof -
  assume "d < 16"
  moreover have "list_all hex_upper_ok [0..<16]" by code_simp
  ultimately show ?thesis by (simp add: list_all_iff)
qed

lemma hex_text_digits: "\<forall>c \<in> set (hex_text n). is_xdigit (byte c) \<and> \<not> is_space c \<and> c \<notin> {CHR ''-'', CHR ''+'', CHR ''x'', CHR ''X'', CHR 0x00}"
proof (induction n rule: hex_text.induct)
  case (1 n)
  then show ?case using hex_upper_ok [of n] hex_upper_ok [of "n mod 16"]
    by (subst hex_text.simps) (auto simp: hex_upper_ok_def Let_def)
qed

lemma hex_text_not_Nil [simp]: "hex_text n \<noteq> []"
  by (subst hex_text.simps) simp

lemma hex_text_value: "foldl (\<lambda>a c. 16 * a + hex_value c) 0 (hex_text n) = n"
proof (induction n rule: hex_text.induct)
  case (1 n)
  show ?case
  proof (cases "n < 16")
    case True
    then show ?thesis using hex_upper_ok [of n] by (subst hex_text.simps) (simp add: hex_upper_ok_def Let_def)
  next
    case False
    then have "foldl (\<lambda>a c. 16 * a + hex_value c) 0 (hex_text n) = 16 * (n div 16) + hex_value (hex_upper (n mod 16))"
      using 1 by (subst hex_text.simps) simp
    also have "hex_value (hex_upper (n mod 16)) = n mod 16" using hex_upper_ok [of "n mod 16"] by (simp add: hex_upper_ok_def Let_def)
    finally show ?thesis by simp
  qed
qed

lemma scan_hex_text:
  assumes "n < 2 ^ 64"
  shows "scan_hex (hex_text n) = Some (of_nat n)"
proof -
  note d = hex_text_digits [of n]
  obtain c u where cu: "hex_text n = c # u" by (cases "hex_text n") simp_all
  have c: "\<not> is_space c" "c \<noteq> CHR ''-''" "c \<noteq> CHR ''+''" using d by (simp_all add: cu)
  have "\<not> (take 2 (hex_text n) = ''0x'' \<or> take 2 (hex_text n) = ''0X'')" using d by (cases u) (auto simp: cu)
  moreover have "takeWhile (\<lambda>c. is_xdigit (byte c)) (hex_text n) = hex_text n" using d by (simp add: takeWhile_eq_all_conv)
  moreover have "dropWhile is_space (hex_text n) = hex_text n" using c by (simp add: cu)
  moreover have "(case hex_text n of [] \<Rightarrow> (False, []) | c # r \<Rightarrow>
      if c = CHR ''-'' then (True, r) else if c = CHR ''+'' then (False, r) else (False, hex_text n)) = (False, hex_text n)"
    using c by (simp add: cu)
  ultimately show ?thesis using assms
    by (simp only: scan_hex_def Let_def case_prod_conv if_False hex_text_value hex_text_not_Nil not_le [symmetric] not_True_eq_False
        refl option.inject simp_thms)
qed

lemma find_str_absent: "c \<in> set p \<Longrightarrow> c \<notin> set s \<Longrightarrow> find_str p s pos = None"
proof (rule ccontr)
  assume c: "c \<in> set p" "c \<notin> set s" and "find_str p s pos \<noteq> None"
  then obtain i where "find_str p s pos = Some i" by blast
  then have "take (length p) (drop i s) = p" using find_str_Some by blast
  then have "c \<in> set (take (length p) (drop i s))" using c(1) by simp
  from in_set_dropD [OF in_set_takeD [OF this]] show False using c(2) by contradiction
qed

text \<open>
  Every 64-bit value, negative ones included, is read back from its hexadecimal text, with and without the prefix.
\<close>

theorem hexvalue_inverts_hexstr: "hexvalue (hexstr v b) = v"
proof -
  note d = hex_text_digits [of "unat v"]
  have v: "scan_hex (hex_text (unat v)) = Some v" using scan_hex_text [of "unat v"] unsigned_less [of v] by simp
  have z: "c_str (hexstr v b) = hexstr v b" using d by (intro c_str_no_nul) (auto simp: hexstr_def)
  have x: "find_str ''0x'' (hexstr v b) 0 = None" using d by (intro find_str_absent [of "CHR ''x''"]) (auto simp: hexstr_def)
  show ?thesis
  proof (cases b)
    case True
    have "find_str ''0X'' (''0X'' @ hex_text (unat v)) 0 = Some 0"
      by (simp add: find_str_def find_upt_Some del: upt_Suc)
    then show ?thesis using True z x v by (simp add: hexvalue_def hexstr_def)
  next
    case False
    have "find_str ''0X'' (hex_text (unat v)) 0 = None" using d by (intro find_str_absent [of "CHR ''X''"]) auto
    then show ?thesis using False z x v by (simp add: hexvalue_def hexstr_def)
  qed
qed

end
