(* ===== verification/Unix_Socket.thy ===== *)
theory Unix_Socket
  imports Std_String Time_Util
begin

text \<open>
  UnixSocket.cpp (eloop): messages on a local socket, each in a frame \<open>~length:text,\<close>. The received bytes are those of one
  read, with the two bytes that stand behind them in the buffer; \<open>None\<close> where the code throws or reads what was never
  received. The results of writing and of waking the loop are arguments.
\<close>

subsection \<open>State\<close>

definition ELOOP_RECV_BUF_SIZE :: nat where "ELOOP_RECV_BUF_SIZE = 32 * 1024"
definition lipcParseError :: int where "lipcParseError = - 4396"

datatype us_event = Us_message string | Us_error int

text \<open>\<open>us_events\<close> and \<open>us_written\<close> record what was handed to the owner and to the pipe.\<close>

record unix_socket =
  us_buf :: string
  us_outgoings :: "(string \<times> int) list"
  us_active :: bool
  us_events :: "us_event list"
  us_written :: "(string \<times> int) list"

definition us_new :: unix_socket where
  "us_new = \<lparr>us_buf = [], us_outgoings = [], us_active = True, us_events = [], us_written = []\<rparr>"

definition us_raise :: "us_event list \<Rightarrow> unix_socket \<Rightarrow> unix_socket" where
  "us_raise es s = s\<lparr>us_events := us_events s @ es\<rparr>"

subsection \<open>Sending\<close>

definition us_encode :: "string \<Rightarrow> string" where
  "us_encode src = ''~'' @ itoa (int (length src)) @ '':'' @ src @ '',''"

definition us_send :: "(string \<Rightarrow> int \<Rightarrow> int) \<Rightarrow> string \<Rightarrow> int \<Rightarrow> unix_socket \<Rightarrow> unix_socket \<times> int" where
  "us_send wr msg fd s =
     (if length msg \<ge> ELOOP_RECV_BUF_SIZE then (s, - 1)
      else (let dest = us_encode msg; ret = wr dest fd
            in (if ret < 0 then s else s\<lparr>us_written := us_written s @ [(dest, fd)]\<rparr>, ret)))"

definition us_AsyncSend :: "int \<Rightarrow> string \<Rightarrow> int \<Rightarrow> unix_socket \<Rightarrow> unix_socket \<times> int" where
  "us_AsyncSend woken msg fd s =
     (if length msg \<ge> ELOOP_RECV_BUF_SIZE then (s, - 1)
      else if \<not> us_active s then (s, - 1)
      else (s\<lparr>us_outgoings := us_outgoings s @ [(msg, fd)]\<rparr>, woken))"

fun us_pump :: "(string \<Rightarrow> int \<Rightarrow> int) \<Rightarrow> nat \<Rightarrow> unix_socket \<Rightarrow> unix_socket" where
  "us_pump wr 0 s = s"
| "us_pump wr (Suc i) s =
     (case us_outgoings s of
        [] \<Rightarrow> s
      | (m, fd) # q \<Rightarrow>
          (case us_send wr m fd (s\<lparr>us_outgoings := q\<rparr>) of
             (s1, ret) \<Rightarrow> us_pump wr i (if ret < 0 then us_raise [Us_error ret] s1 else s1)))"

definition us_OnWakedUp :: "(string \<Rightarrow> int \<Rightarrow> int) \<Rightarrow> unix_socket \<Rightarrow> unix_socket" where
  "us_OnWakedUp wr s = (if \<not> us_active s then s\<lparr>us_outgoings := []\<rparr> else us_pump wr 1000 s)"

definition us_OnWrote :: "(string \<Rightarrow> int \<Rightarrow> int) \<Rightarrow> unix_socket \<Rightarrow> unix_socket" where
  "us_OnWrote wr s =
     (case us_outgoings s of [] \<Rightarrow> s | (m, fd) # q \<Rightarrow> fst (us_send wr m fd (s\<lparr>us_outgoings := q\<rparr>)))"

subsection \<open>Receiving\<close>

definition strchr :: "char \<Rightarrow> string \<Rightarrow> string option" where
  "strchr c s = (case dropWhile (\<lambda>x. x \<noteq> c) s of [] \<Rightarrow> None | t \<Rightarrow> Some t)"

text \<open>\<open>sscanf(s, "~%d:", &len)\<close>; the colon behind the number is not looked at.\<close>

definition frame_len :: "string \<Rightarrow> int option" where
  "frame_len s = (case scan_lit CHR ''~'' s of None \<Rightarrow> None | Some t \<Rightarrow> map_option fst (scan_int (length t) t))"

lemma strchr_Some: "strchr c s = Some t \<Longrightarrow> length t \<le> length s \<and> t \<noteq> [] \<and> hd t = c"
proof -
  assume "strchr c s = Some t"
  then have t: "t = dropWhile (\<lambda>x. x \<noteq> c) s" "t \<noteq> []" by (auto simp: strchr_def split: list.splits)
  then show ?thesis using hd_dropWhile [of "\<lambda>x. x \<noteq> c" s] length_dropWhile_le [of "\<lambda>x. x \<noteq> c" s] by simp
qed

text \<open>
  The second half of \<open>processMessage\<close> on the text from \<open>tempBuf\<close> to the end: the events, and what \<open>_buf\<close> is set to, if it is.
  \<open>behind\<close> is the byte that \<open>tempBuf\<close> points at when the comma of the last frame has not arrived.
\<close>

definition then_frames :: "us_event \<Rightarrow> (us_event list \<times> string option) option \<Rightarrow> (us_event list \<times> string option) option" where
  "then_frames e r = (case r of None \<Rightarrow> None | Some (es, b) \<Rightarrow> Some (e # es, b))"

function frames :: "char \<Rightarrow> string \<Rightarrow> (us_event list \<times> string option) option" where
  "frames behind s =
     (if s = [] then Some ([], None)
      else if hd s \<noteq> CHR ''~'' then
        (case strchr CHR ''~'' s of
           None \<Rightarrow> Some ([Us_error lipcParseError], None)
         | Some t \<Rightarrow> then_frames (Us_error lipcParseError) (frames behind t))
      else
        (case strchr CHR '':'' s of
           None \<Rightarrow> Some ([], Some s)
         | Some d \<Rightarrow>
             (case frame_len s of
                None \<Rightarrow>
                  (case strchr CHR ''~'' d of
                     None \<Rightarrow> Some ([Us_error lipcParseError], None)
                   | Some t \<Rightarrow> then_frames (Us_error lipcParseError) (frames behind t))
              | Some len \<Rightarrow>
                  if len < 0 then None
                  else if len > int (length d) - 1 then
                    (case strchr CHR ''~'' d of
                       None \<Rightarrow> Some ([], Some s)
                     | Some t \<Rightarrow> then_frames (Us_error lipcParseError) (frames behind t))
                  else if len = int (length d) - 1 \<and> behind \<noteq> CHR 0x00 then None
                  else then_frames (Us_message (take (nat len) (tl d))) (frames behind (drop (nat len + 1) (tl d))))))"
  by pat_completeness auto
termination
proof (relation "measure (\<lambda>(_, s). length s)")
  have shorter: "length t < length s" if "strchr c s = Some t" "hd s \<noteq> c" for c s t
  proof (cases s)
    case Nil
    then show ?thesis using that by (simp add: strchr_def)
  next
    case (Cons x u)
    then have "strchr c u = Some t" using that by (simp add: strchr_def)
    then show ?thesis using strchr_Some Cons by fastforce
  qed
  show "((behind, t), behind, s) \<in> measure (\<lambda>(_, s). length s)"
    if "hd s \<noteq> CHR ''~''" "strchr CHR ''~'' s = Some t" for behind s t
    using shorter that by simp
  show "((behind, t), behind, s) \<in> measure (\<lambda>(_, s). length s)"
    if "\<not> hd s \<noteq> CHR ''~''" "strchr CHR '':'' s = Some d" "strchr CHR ''~'' d = Some t" for behind s d t
    using shorter [of "CHR '':''" s d] strchr_Some [of "CHR ''~''" d t] that by simp
  show "((behind, t), behind, s) \<in> measure (\<lambda>(_, s). length s)"
    if "\<not> hd s \<noteq> CHR ''~''" "strchr CHR '':'' s = Some d" "strchr CHR ''~'' d = Some t" for behind s d t
    using shorter [of "CHR '':''" s d] strchr_Some [of "CHR ''~''" d t] that by simp
  show "((behind, drop (nat len + 1) (tl d)), behind, s) \<in> measure (\<lambda>(_, s). length s)"
    if "\<not> hd s \<noteq> CHR ''~''" "strchr CHR '':'' s = Some d" for behind s d len
    using shorter [of "CHR '':''" s d] that by simp
qed simp_all

declare frames.simps [simp del]

text \<open>The first half, when \<open>_buf\<close> holds the start of a frame: events, and the text to go on with.\<close>

definition buffered :: "string \<Rightarrow> string \<Rightarrow> us_event list \<times> string option" where
  "buffered buf s =
     (case strchr CHR ''~'' s of
        None \<Rightarrow> ([Us_error lipcParseError], None)
      | Some t \<Rightarrow>
          (let b0 = buf @ take (length s - length t) s;
               (es, b, len) = (case frame_len b0 of None \<Rightarrow> ([Us_error lipcParseError], [], 0) | Some n \<Rightarrow> ([], b0, n))
           in (case find_char CHR '':'' b 0 of
                 None \<Rightarrow> (es @ [Us_error lipcParseError], Some t)
               | Some index \<Rightarrow>
                   if (of_int len :: uint64) = of_nat (length b) - of_nat index - 2
                   then (es @ [Us_message (if len < 0 then drop (index + 1) b else take (nat len) (drop (index + 1) b))], Some t)
                   else (es @ [Us_error lipcParseError], Some t))))"

definition processMessage :: "char \<times> char \<Rightarrow> string \<Rightarrow> unix_socket \<Rightarrow> unix_socket option" where
  "processMessage after data s =
     (if CHR 0x00 \<in> set data \<or> fst after \<noteq> CHR 0x00 then Some ((us_raise [Us_error lipcParseError] s)\<lparr>us_buf := []\<rparr>)
      else if data = [] then Some (us_raise [Us_error 0] s)
      else (let (es, rest) = (if us_buf s \<noteq> [] then buffered (us_buf s) data else ([], Some data));
                s1 = (us_raise es s)\<lparr>us_buf := []\<rparr>
            in (case rest of
                  None \<Rightarrow> Some s1
                | Some t \<Rightarrow>
                    (case frames (snd after) t of
                       None \<Rightarrow> None
                     | Some (fs, b) \<Rightarrow>
                         Some ((us_raise fs s1)\<lparr>us_buf := (case b of None \<Rightarrow> [] | Some x \<Rightarrow> x)\<rparr>)))))"

text \<open>The receive buffer is cleared before each read; \<open>g\<close> is what the five bytes behind it hold.\<close>

definition bytes_after :: "char \<times> char \<Rightarrow> nat \<Rightarrow> char \<times> char" where
  "bytes_after g n =
     (if n < ELOOP_RECV_BUF_SIZE then CHR 0x00 else fst g, if n + 1 < ELOOP_RECV_BUF_SIZE then CHR 0x00 else snd g)"

definition us_OnRead :: "char \<times> char \<Rightarrow> int + string \<Rightarrow> unix_socket \<Rightarrow> unix_socket option" where
  "us_OnRead g r s =
     (case r of
        Inl e \<Rightarrow> Some (us_raise [Us_error e] s)
      | Inr data \<Rightarrow> if data = [] then Some (us_raise [Us_error 0] s) else processMessage (bytes_after g (length data)) data s)"

subsection \<open>Frames\<close>

abbreviation digits_of :: "string \<Rightarrow> string" where
  "digits_of m \<equiv> nat_dec (length m)"

lemma us_encode_unfold: "us_encode m = CHR ''~'' # digits_of m @ CHR '':'' # m @ '',''"
  by (simp add: us_encode_def itoa_def)

lemma digits_no_mark: "CHR '':'' \<notin> set (digits_of m)" "CHR ''~'' \<notin> set (digits_of m)" "CHR 0x00 \<notin> set (digits_of m)"
  using nat_dec_plain [of "length m"] nat_dec_digits [of "length m"] by (auto simp: is_digit_def less_eq_char_def)

lemma strchr_skip: "c \<notin> set xs \<Longrightarrow> strchr c (xs @ c # ys) = Some (c # ys)"
  by (induction xs) (auto simp: strchr_def)

lemma strchr_absent: "strchr c xs = None \<longleftrightarrow> c \<notin> set xs"
  by (induction xs) (simp_all add: strchr_def)

lemma scan_nat_dec:
  assumes "length (nat_dec n) \<le> w" and "t = [] \<or> \<not> is_digit (hd t)"
  shows "scan_int w (nat_dec n @ t) = Some (int n, t)"
proof -
  have d: "\<forall>c \<in> set (nat_dec n). is_digit c" by (rule nat_dec_digits)
  obtain c u where cu: "nat_dec n = c # u" by (cases "nat_dec n") simp_all
  then have "is_digit c" using d by simp
  then have c: "\<not> is_space c" "c \<noteq> CHR ''-''" "c \<noteq> CHR ''+''" using is_digit_plain by auto
  have "takeWhile is_digit (take w (nat_dec n @ t)) = nat_dec n"
  proof (cases t)
    case Nil
    then show ?thesis using d assms(1) by (simp add: takeWhile_eq_all_conv)
  next
    case (Cons x xs)
    then show ?thesis using d assms by (auto simp: takeWhile_append take_Cons' )
  qed
  then show ?thesis using c digits_value_nat_dec [of n] by (simp add: scan_int_def cu Let_def)
qed

lemma frame_len_digits: "frame_len (CHR ''~'' # digits_of m @ CHR '':'' # r) = Some (int (length m))"
  using scan_nat_dec [of "length m" "length (digits_of m @ CHR '':'' # r)" "CHR '':'' # r"]
  by (simp add: frame_len_def scan_lit_def is_digit_def less_eq_char_def)

lemma strchr_colon: "strchr CHR '':'' (CHR ''~'' # digits_of m @ CHR '':'' # r) = Some (CHR '':'' # r)"
  using strchr_skip [of "CHR '':''" "CHR ''~'' # digits_of m" r] digits_no_mark by simp

lemma frames_Nil [simp]: "frames b [] = Some ([], None)"
  by (simp add: frames.simps)

lemma frames_encode: "frames b (us_encode m @ r) = then_frames (Us_message m) (frames b r)"
  by (subst frames.simps) (simp add: us_encode_unfold strchr_colon frame_len_digits)

text \<open>A frame without its comma, and the pieces before that.\<close>

lemma frames_no_comma: "frames CHR 0x00 (CHR ''~'' # digits_of m @ CHR '':'' # m) = Some ([Us_message m], None)"
  by (subst frames.simps) (simp add: strchr_colon frame_len_digits then_frames_def)

lemma frames_partial:
  assumes "k < length m" and "CHR ''~'' \<notin> set m"
  shows "frames b (CHR ''~'' # digits_of m @ CHR '':'' # take k m) = Some ([], Some (CHR ''~'' # digits_of m @ CHR '':'' # take k m))"
proof -
  have "CHR ''~'' \<notin> set (CHR '':'' # take k m)" using assms(2) by (auto dest: in_set_takeD)
  then have "strchr CHR ''~'' (CHR '':'' # take k m) = None" by (simp only: strchr_absent not_False_eq_True)
  then show ?thesis using assms(1) by (subst frames.simps) (simp add: strchr_colon frame_len_digits)
qed

lemma frames_head:
  assumes "CHR '':'' \<notin> set xs"
  shows "frames b (CHR ''~'' # xs) = Some ([], Some (CHR ''~'' # xs))"
proof -
  have "strchr CHR '':'' (CHR ''~'' # xs) = None" using assms by (simp add: strchr_absent)
  then show ?thesis by (subst frames.simps) simp
qed

lemma frames_all: "frames b (concat (map us_encode ms)) = Some (map Us_message ms, None)"
  by (induction ms) (simp_all add: frames_encode then_frames_def)

lemma us_encode_no_nul: "CHR 0x00 \<notin> set m \<Longrightarrow> CHR 0x00 \<notin> set (us_encode m)"
  using digits_no_mark by (simp add: us_encode_unfold)

lemma us_encode_not_Nil [simp]: "us_encode m \<noteq> []"
  by (simp add: us_encode_def)

text \<open>What one read does on an empty buffer.\<close>

lemma read_empty:
  assumes "us_buf s = []" and "CHR 0x00 \<notin> set d" and "d \<noteq> []" and "length d + 1 < ELOOP_RECV_BUF_SIZE"
  shows "us_OnRead g (Inr d) s =
    (case frames CHR 0x00 d of None \<Rightarrow> None | Some (es, b) \<Rightarrow> Some ((us_raise es s)\<lparr>us_buf := (case b of None \<Rightarrow> [] | Some x \<Rightarrow> x)\<rparr>))"
  using assms by (auto simp: us_OnRead_def processMessage_def bytes_after_def us_raise_def split: option.split)

text \<open>
  C29. Messages without NUL bytes whose frames arrive in one read, and leave two bytes of the buffer free, are handed over
  unchanged and in order, whatever they hold; nothing stays in the buffer and no error is reported.
\<close>

theorem frames_roundtrip:
  assumes "us_buf s = []" and "ms \<noteq> []" and "\<forall>m \<in> set ms. CHR 0x00 \<notin> set m"
    and "length (concat (map us_encode ms)) + 1 < ELOOP_RECV_BUF_SIZE"
  shows "us_OnRead g (Inr (concat (map us_encode ms))) s = Some (us_raise (map Us_message ms) s)"
proof -
  have "CHR 0x00 \<notin> set (concat (map us_encode ms))" using assms(3) us_encode_no_nul by auto
  moreover have "concat (map us_encode ms) \<noteq> []" using assms(2) by (cases ms) simp_all
  ultimately show ?thesis using assms(1,4) by (simp add: read_empty frames_all us_raise_def)
qed

theorem frames_roundtrip_witness:
  "us_OnRead (CHR ''x'', CHR ''y'') (Inr ''~3:a~b,~0:,'') us_new = Some (us_raise [Us_message ''a~b'', Us_message []] us_new)"
proof -
  have e: "concat (map us_encode [''a~b'', []]) = ''~3:a~b,~0:,''" by code_simp
  show ?thesis
    using frames_roundtrip [of us_new "[''a~b'', []]" "(CHR ''x'', CHR ''y'')"] unfolding e by (simp add: us_new_def ELOOP_RECV_BUF_SIZE_def)
qed

text \<open>A read that brings no tilde ends what was begun.\<close>

lemma read_rest:
  assumes "us_buf s \<noteq> []" and "CHR 0x00 \<notin> set d" and "d \<noteq> []" and "CHR ''~'' \<notin> set d" and "length d < ELOOP_RECV_BUF_SIZE"
  shows "us_OnRead g (Inr d) s = Some ((us_raise [Us_error lipcParseError] s)\<lparr>us_buf := []\<rparr>)"
proof -
  have "strchr CHR ''~'' d = None" using assms(4) by (simp add: strchr_absent)
  then show ?thesis using assms by (simp add: us_OnRead_def processMessage_def bytes_after_def buffered_def us_raise_def)
qed

lemma frames_comma: "frames b '','' = Some ([Us_error lipcParseError], None)"
  by (subst frames.simps) (simp add: strchr_def)

text \<open>The two pieces of a frame: cut before the colon, in the text, or before the comma.\<close>

lemma frame_cut:
  assumes "xs @ ys = us_encode m" and "xs \<noteq> []" and "ys \<noteq> []"
  obtains (head) zs where "xs = CHR ''~'' # zs" and "CHR '':'' \<notin> set zs" and "set zs \<subseteq> set (digits_of m)"
    and "set ys \<subseteq> set (digits_of m) \<union> {CHR '':'', CHR '',''} \<union> set m" and "ys \<noteq> '',''"
  | (body) k where "k < length m" and "xs = CHR ''~'' # digits_of m @ CHR '':'' # take k m" and "ys = drop k m @ '',''"
  | (comma) "xs = CHR ''~'' # digits_of m @ CHR '':'' # m" and "ys = '',''"
proof -
  let ?h = "CHR ''~'' # digits_of m @ '':''"
  have e: "xs @ ys = ?h @ m @ '',''" using assms(1) by (simp add: us_encode_unfold)
  consider us where "xs @ us = ?h" "us \<noteq> []" "us @ m @ '','' = ys" | us where "xs = ?h @ us" "us @ ys = m @ '',''"
  proof -
    obtain us where "xs = ?h @ us \<and> us @ ys = m @ '','' \<or> xs @ us = ?h \<and> ys = us @ m @ '',''"
      using e by (auto simp only: append_eq_append_conv2)
    then show thesis using that by (cases us) fastforce+
  qed
  then show ?thesis
  proof cases
    case 1
    obtain zs where zs: "xs = CHR ''~'' # zs" "zs @ us = digits_of m @ '':''"
      using 1(1) assms(2) by (cases xs) auto
    obtain vs where "us = vs @ '':''" "zs @ vs = digits_of m"
      using zs(2) 1(2) by (cases us rule: rev_cases) auto
    then have "set zs \<subseteq> set (digits_of m)" "set vs \<subseteq> set (digits_of m)"
      using set_append [of zs vs] by auto
    then show ?thesis using head zs(1) digits_no_mark(1) [of m] 1(3) \<open>us = vs @ '':''\<close> by fastforce
  next
    case 2
    show ?thesis
    proof (cases "length us < length m")
      case True
      have "us = take (length us) m"
        using arg_cong [OF 2(2), of "take (length us)"] True by simp
      moreover have "ys = drop (length us) m @ '',''"
        using arg_cong [OF 2(2), of "drop (length us)"] True by simp
      ultimately show ?thesis using body [OF True] 2(1) by simp
    next
      case False
      have "length us + length ys = length m + 1" using arg_cong [OF 2(2), of length] by simp
      then have "length us = length m" using False assms(3) by (cases ys) auto
      then have "us = m" "ys = '',''" using 2(2) by simp_all
      then show ?thesis using comma 2(1) by simp
    qed
  qed
qed

lemma strchr_frames: "ms \<noteq> [] \<Longrightarrow> CHR ''~'' \<notin> set ys \<Longrightarrow>
   strchr CHR ''~'' (ys @ concat (map us_encode ms)) = Some (concat (map us_encode ms))"
  by (cases ms) (simp_all add: us_encode_unfold strchr_skip)

text \<open>A read that brings the rest of a frame and further frames completes what was begun.\<close>

lemma buffered_completes:
  assumes "xs @ ys = us_encode m" and "CHR ''~'' \<notin> set ys" and "ms \<noteq> []"
  shows "buffered xs (ys @ concat (map us_encode ms)) = ([Us_message m], Some (concat (map us_encode ms)))"
proof -
  define d where "d = CHR ''~'' # digits_of m"
  have f: "find_char CHR '':'' (us_encode m) 0 = Some (length d)"
    using find_char_append [of "CHR '':''" d "m @ '',''"] digits_no_mark(1) [of m] by (simp add: us_encode_unfold d_def)
  have l: "length (us_encode m) = length d + length m + 2" "drop (length d + 1) (us_encode m) = m @ '',''"
    by (simp_all add: us_encode_unfold d_def)
  have n: "(of_int (int (length m)) :: uint64) = of_nat (length (us_encode m)) - of_nat (length d) - 2"
    by (simp add: l(1))
  have g: "frame_len (us_encode m) = Some (int (length m))" by (simp add: us_encode_unfold frame_len_digits)
  show ?thesis
    using strchr_frames [OF assms(3,2)] n
    by (simp add: buffered_def assms(1) g f l(2) [simplified])
qed

lemma read_completes:
  assumes "xs @ ys = us_encode m" and "xs \<noteq> []" and "CHR ''~'' \<notin> set ys" and "ms \<noteq> []" and "us_buf s = xs"
    and "CHR 0x00 \<notin> set (ys @ concat (map us_encode ms))" and "length (ys @ concat (map us_encode ms)) + 1 < ELOOP_RECV_BUF_SIZE"
  shows "us_OnRead g (Inr (ys @ concat (map us_encode ms))) s = Some ((us_raise (Us_message m # map Us_message ms) s)\<lparr>us_buf := []\<rparr>)"
proof -
  have "ys @ concat (map us_encode ms) \<noteq> []" using assms(4) by (cases ms) simp_all
  moreover have "us_buf s \<noteq> []" using assms(2,5) by simp
  ultimately show ?thesis
    using assms(4,6,7) buffered_completes [OF assms(1,3,4)]
    by (simp add: us_OnRead_def processMessage_def bytes_after_def assms(5) frames_all us_raise_def del: set_append length_append)
qed

lemma frames_after_comma:
  "ms \<noteq> [] \<Longrightarrow> frames b ('','' @ concat (map us_encode ms)) = Some (Us_error lipcParseError # map Us_message ms, None)"
  using strchr_frames [of ms "'',''"] by (subst frames.simps) (simp add: frames_all then_frames_def)

text \<open>
  C30. What becomes of a frame that two reads bring, the second of them with further whole frames or none. When only the comma was
  missing, the message is handed over by the first read and the comma is reported as a parse error. When more was missing, the
  message arrives if another frame stands behind it in the second read, and is lost with a parse error if it is the last one.
  The frames behind it are handed over in any case. (The message that is cut holds no tilde and no message a NUL.)
\<close>

theorem cut_frame_outcome:
  assumes "xs @ ys = us_encode m" and "xs \<noteq> []" and "ys \<noteq> []" and "CHR 0x00 \<notin> set m" and "CHR ''~'' \<notin> set m"
    and "\<forall>x \<in> set ms. CHR 0x00 \<notin> set x"
    and "length xs + 1 < ELOOP_RECV_BUF_SIZE" and "length (ys @ concat (map us_encode ms)) + 1 < ELOOP_RECV_BUF_SIZE" and "us_buf s = []"
  shows "\<exists>s1 s2. us_OnRead g (Inr xs) s = Some s1 \<and> us_OnRead g (Inr (ys @ concat (map us_encode ms))) s1 = Some s2 \<and> us_buf s2 = [] \<and>
    us_events s2 = us_events s @
      (if ys = '','' then [Us_message m, Us_error lipcParseError] else if ms = [] then [Us_error lipcParseError] else [Us_message m]) @
      map Us_message ms"
proof -
  let ?zs = "ys @ concat (map us_encode ms)"
  have "CHR 0x00 \<notin> set (xs @ ys)" using us_encode_no_nul [OF assms(4)] assms(1) by simp
  then have nul: "CHR 0x00 \<notin> set xs" "CHR 0x00 \<notin> set ys" "CHR 0x00 \<notin> set ?zs" using assms(6) us_encode_no_nul by auto
  note first = read_empty [OF assms(9) nul(1) assms(2,7), of g]
  have held: ?thesis if "frames CHR 0x00 xs = Some ([], Some xs)" "CHR ''~'' \<notin> set ys" "ys \<noteq> '',''"
  proof -
    have r1: "us_OnRead g (Inr xs) s = Some (s\<lparr>us_buf := xs\<rparr>)" using first that(1) by (simp add: us_raise_def)
    show ?thesis
    proof (cases "ms = []")
      case True
      have "us_OnRead g (Inr ys) (s\<lparr>us_buf := xs\<rparr>) = Some ((us_raise [Us_error lipcParseError] (s\<lparr>us_buf := xs\<rparr>))\<lparr>us_buf := []\<rparr>)"
        by (rule read_rest) (use assms(2,3,8) nul that True in simp_all)
      then show ?thesis using r1 that(3) True by (simp add: us_raise_def)
    next
      case False
      have "us_OnRead g (Inr ?zs) (s\<lparr>us_buf := xs\<rparr>) =
          Some ((us_raise (Us_message m # map Us_message ms) (s\<lparr>us_buf := xs\<rparr>))\<lparr>us_buf := []\<rparr>)"
        by (rule read_completes [OF assms(1,2) that(2) False _ nul(3) assms(8)]) simp
      then show ?thesis using r1 that(3) False by (simp add: us_raise_def)
    qed
  qed
  show ?thesis
    using assms(1-3)
  proof (cases rule: frame_cut)
    case (head zs)
    have "CHR ''~'' \<notin> set ys" using head(4) digits_no_mark(2) [of m] assms(5) by auto
    then show ?thesis using held frames_head [OF head(2)] head(1,5) by simp
  next
    case (body k)
    have "CHR ''~'' \<notin> set ys" using assms(5) by (auto simp: body(3) dest: in_set_dropD)
    moreover have "ys \<noteq> '',''" using body(1,3) by simp
    ultimately show ?thesis using held frames_partial [OF body(1) assms(5)] body(2) by simp
  next
    case comma
    have f: "us_OnRead g (Inr xs) s = Some ((us_raise [Us_message m] s)\<lparr>us_buf := []\<rparr>)"
      using first frames_no_comma by (simp add: comma(1))
    have "frames CHR 0x00 ?zs = Some (Us_error lipcParseError # map Us_message ms, None)"
      using frames_after_comma [of ms] frames_comma by (cases "ms = []") (simp_all add: comma(2))
    then have "us_OnRead g (Inr ?zs) ((us_raise [Us_message m] s)\<lparr>us_buf := []\<rparr>) =
        Some ((us_raise (Us_error lipcParseError # map Us_message ms) ((us_raise [Us_message m] s)\<lparr>us_buf := []\<rparr>))\<lparr>us_buf := []\<rparr>)"
      using read_empty [OF _ nul(3) _ assms(8), of "(us_raise [Us_message m] s)\<lparr>us_buf := []\<rparr>" g] assms(3) by simp
    then show ?thesis using f by (simp add: us_raise_def comma(2))
  qed
qed

theorem cut_frame_outcome_witness:
  "(\<exists>s1 s2. us_OnRead (CHR ''x'', CHR ''y'') (Inr ''~5:he'') us_new = Some s1 \<and> us_OnRead (CHR ''x'', CHR ''y'') (Inr ''llo,'') s1 = Some s2 \<and>
     us_buf s2 = [] \<and> us_events s2 = [Us_error lipcParseError]) \<and>
   (\<exists>s1 s2. us_OnRead (CHR ''x'', CHR ''y'') (Inr ''~5:he'') us_new = Some s1 \<and> us_OnRead (CHR ''x'', CHR ''y'') (Inr ''llo,~3:abc,'') s1 = Some s2 \<and>
     us_buf s2 = [] \<and> us_events s2 = [Us_message ''hello'', Us_message ''abc''])"
proof -
  have e: "''~5:he'' @ ''llo,'' = us_encode ''hello''" and a: "us_encode ''abc'' = ''~3:abc,''" by code_simp+
  note cut = cut_frame_outcome [OF e, where s = us_new and g = "(CHR ''x'', CHR ''y'')"]
  show ?thesis
    using cut [of "[]"] cut [of "[''abc'']"] by (simp add: a us_new_def ELOOP_RECV_BUF_SIZE_def)
qed

subsection \<open>What fits\<close>

lemma length_nat_dec_5:
  assumes "10000 \<le> n" and "n < 100000"
  shows "length (nat_dec n) = 5"
proof -
  have "length (nat_dec n) = length (nat_dec (n div 10)) + 1" if "10 \<le> n" for n
    using that by (subst nat_dec.simps) simp
  moreover have "length (nat_dec n) = 1" if "n < 10" for n using that by (subst nat_dec.simps) simp
  ultimately have "length (nat_dec n) = 5" if "10 \<le> n div 10 div 10 div 10" "n div 10 div 10 div 10 div 10 < 10"
    using that by simp
  then show ?thesis using assms by linarith
qed

lemma us_send_written:
  "us_send wr m fd s = (s', ret) \<Longrightarrow> 0 \<le> ret \<Longrightarrow> us_written s' = us_written s @ [(us_encode m, fd)] \<and> length m < ELOOP_RECV_BUF_SIZE"
  by (auto simp: us_send_def Let_def split: if_splits)

text \<open>
  A message of 32761 to 32767 bytes is accepted and written, though its frame is longer than any buffer the peer reads into;
  for shorter messages of five digits the frame fits.
\<close>

theorem send_accepts_what_no_read_holds:
  assumes "10000 \<le> length m" and "length m < ELOOP_RECV_BUF_SIZE" and "0 \<le> wr (us_encode m) fd"
  shows "us_written (fst (us_send wr m fd s)) = us_written s @ [(us_encode m, fd)] \<and> snd (us_send wr m fd s) \<ge> 0 \<and>
    (length (us_encode m) > ELOOP_RECV_BUF_SIZE \<longleftrightarrow> length m > 32760)"
proof -
  have "length (us_encode m) = length m + 8"
    using length_nat_dec_5 [of "length m"] assms(1,2) by (simp add: us_encode_unfold ELOOP_RECV_BUF_SIZE_def)
  then show ?thesis using assms by (auto simp: us_send_def Let_def ELOOP_RECV_BUF_SIZE_def)
qed

theorem send_accepts_what_no_read_holds_witness:
  "length (us_encode (replicate 32761 CHR ''x'')) > ELOOP_RECV_BUF_SIZE \<and>
     us_written (fst (us_send (\<lambda>_ _. 0) (replicate 32761 CHR ''x'') 0 us_new)) = [(us_encode (replicate 32761 CHR ''x''), 0)]"
  using send_accepts_what_no_read_holds [of "replicate 32761 CHR ''x''" "\<lambda>_ _. 0" 0 us_new]
  by (simp add: ELOOP_RECV_BUF_SIZE_def) (simp add: us_new_def)

subsection \<open>Order of what is sent\<close>

text \<open>Everything that was accepted, written or still queued, in order.\<close>

definition us_accepted :: "unix_socket \<Rightarrow> (string \<times> int) list" where
  "us_accepted s = us_written s @ map (\<lambda>(m, fd). (us_encode m, fd)) (us_outgoings s)"

definition us_fits :: "unix_socket \<Rightarrow> bool" where
  "us_fits s \<longleftrightarrow> list_all (\<lambda>(m, _). length m < ELOOP_RECV_BUF_SIZE) (us_outgoings s)"

lemma AsyncSend_accepts:
  "us_AsyncSend w m fd s = (s', ret) \<Longrightarrow> us_fits s \<Longrightarrow>
     us_fits s' \<and> (us_accepted s' = us_accepted s \<or> us_accepted s' = us_accepted s @ [(us_encode m, fd)])"
  by (auto simp: us_AsyncSend_def us_fits_def us_accepted_def split: if_splits)

lemma send_front:
  assumes "\<And>d fd. 0 \<le> wr d fd" and "length m < ELOOP_RECV_BUF_SIZE" and "us_outgoings s = (m, fd) # q"
  shows "us_accepted (fst (us_send wr m fd (s\<lparr>us_outgoings := q\<rparr>))) = us_accepted s"
    and "0 \<le> snd (us_send wr m fd (s\<lparr>us_outgoings := q\<rparr>))"
    and "us_outgoings (fst (us_send wr m fd (s\<lparr>us_outgoings := q\<rparr>))) = q"
  using assms by (auto simp: us_send_def us_accepted_def Let_def not_less leD)

lemma pump_keeps_order:
  assumes "\<And>d fd. 0 \<le> wr d fd" and "us_fits s"
  shows "us_accepted (us_pump wr n s) = us_accepted s \<and> us_outgoings (us_pump wr n s) = drop n (us_outgoings s)"
  using assms(2)
proof (induction n arbitrary: s)
  case (Suc n)
  show ?case
  proof (cases "us_outgoings s")
    case (Cons p q)
    obtain m fd where p: "p = (m, fd)" by (cases p)
    obtain s1 ret where r: "us_send wr m fd (s\<lparr>us_outgoings := q\<rparr>) = (s1, ret)" by fastforce
    have m: "length m < ELOOP_RECV_BUF_SIZE" using Suc.prems by (simp add: us_fits_def Cons p)
    have f: "us_accepted s1 = us_accepted s" "0 \<le> ret" "us_outgoings s1 = q"
      using send_front [of wr m s fd q] assms(1) m Cons by (simp_all add: r p)
    have "us_fits s1" using Suc.prems f(3) by (simp add: us_fits_def Cons)
    then show ?thesis using Suc.IH [of s1] f by (simp add: Cons p r)
  qed simp
qed simp

text \<open>On an active pipe whose writes succeed, wake-ups write everything in order, a thousand messages at a time.\<close>

lemma wakeups_send_all:
  assumes "\<And>d fd. 0 \<le> wr d fd" and "us_fits s" and "us_active s"
  shows "us_accepted (us_OnWakedUp wr s) = us_accepted s"
    and "us_outgoings (us_OnWakedUp wr s) = drop 1000 (us_outgoings s)"
  using pump_keeps_order [OF assms(1,2)] assms(3) unfolding us_OnWakedUp_def by simp_all

end
