(* ===== verification/Lipc.thy ===== *)
theory Lipc
  imports Lipc_Message Unix_Socket Tcp_Server
begin

text \<open>
  LIPC.cpp: the service that answers JSON-RPC requests on local sockets, and the client that keeps its requests until they are
  answered, time out or the connection closes. Arguments are the JSON reader and writer, the writes of the pipe, the file
  descriptors that the kernel hands over, and what the child class of the service does with a request. \<open>None\<close> where jsoncpp
  throws: nothing on the way to the event loop catches it. A new connection of the client is modelled as its constructor means it:
  the code passes \<open>_client.loop()\<close> and \<open>_client._log\<close> to the base class before the member \<open>_client\<close> is initialised, which is undefined
  behaviour.
\<close>

subsection \<open>State\<close>

record lipc_env =
  le_parse :: "string \<Rightarrow> json option"
  le_write :: "json \<Rightarrow> string"
  le_real :: "rat \<Rightarrow> string"
  le_send :: "string \<Rightarrow> int \<Rightarrow> int"
  le_wake :: int
  le_acceptfd :: int
  le_exec :: "string \<Rightarrow> lipc_message \<Rightarrow> lipc_message \<Rightarrow> (lipc_message \<times> bool) list"

record lipc_service =
  ls_clients :: "(string \<times> unix_socket) list"
  ls_quit :: bool

record await =
  aw_req :: lipc_message
  aw_expiration :: int
  aw_method :: string

text \<open>\<open>lc_done\<close> and \<open>lc_responses\<close> record the calls of \<open>OnRequestDone\<close> and \<open>OnResponse\<close>.\<close>

record lipc_client =
  lc_awaits :: "(int \<times> await) list"
  lc_timeout :: int
  lc_lastCSeq :: int
  lc_conn :: "unix_socket option"
  lc_stampConnected :: int
  lc_stampLastConnect :: int
  lc_peer :: string
  lc_done :: "(int \<times> int) list"
  lc_responses :: "(string \<times> json) list"

subsection \<open>The service\<close>

definition lipc_send :: "lipc_env \<Rightarrow> bool \<Rightarrow> string \<Rightarrow> int \<Rightarrow> unix_socket \<Rightarrow> unix_socket \<times> int" where
  "lipc_send E bAsync msg fd c = (if bAsync then us_AsyncSend (le_wake E) msg fd c else us_send (le_send E) msg fd c)"

definition sendResp :: "lipc_env \<Rightarrow> string \<Rightarrow> int \<Rightarrow> string \<Rightarrow> bool \<Rightarrow> lipc_service \<Rightarrow> lipc_service" where
  "sendResp E msg fd connId bAsync s =
     (if ls_quit s then s
      else s\<lparr>ls_clients := map (\<lambda>(i, c). if i = connId then (i, fst (lipc_send E bAsync msg fd c)) else (i, c)) (ls_clients s)\<rparr>)"

definition addConn_ls :: "string \<Rightarrow> unix_socket \<Rightarrow> lipc_service \<Rightarrow> lipc_service" where
  "addConn_ls i c s = s\<lparr>ls_clients := ls_clients s @ [(i, c)]\<rparr>"

definition delConn_ls :: "string \<Rightarrow> lipc_service \<Rightarrow> lipc_service" where
  "delConn_ls i s = s\<lparr>ls_clients := filter (\<lambda>p. fst p \<noteq> i) (ls_clients s)\<rparr>"

definition stopServing :: "lipc_service \<Rightarrow> lipc_service" where
  "stopServing s = s\<lparr>ls_quit := True\<rparr>"

definition lipc_post :: "lipc_env \<Rightarrow> string \<Rightarrow> bool \<Rightarrow> lipc_message \<Rightarrow> lipc_service \<Rightarrow> lipc_service option" where
  "lipc_post E connId bAsync resp s =
     (if lm_cSeq resp \<le> 0 then Some s
      else (case lipc_toString (le_write E) resp of
              None \<Rightarrow> None
            | Some (resp1, text) \<Rightarrow>
                (case getFd resp of None \<Rightarrow> None | Some fd \<Rightarrow> Some (sendResp E text fd connId bAsync s))))"

definition postException ::
  "lipc_env \<Rightarrow> string \<Rightarrow> int \<Rightarrow> string \<Rightarrow> bool \<Rightarrow> lipc_message \<Rightarrow> lipc_service \<Rightarrow> lipc_service option" where
  "postException E connId code errMsg bAsync resp s =
     (case setErrorCode code errMsg resp of None \<Rightarrow> None | Some r \<Rightarrow> lipc_post E connId bAsync r s)"

fun post_all :: "lipc_env \<Rightarrow> string \<Rightarrow> (lipc_message \<times> bool) list \<Rightarrow> lipc_service \<Rightarrow> lipc_service option" where
  "post_all E connId [] s = Some s"
| "post_all E connId ((r, b) # rs) s = (case lipc_post E connId b r s of None \<Rightarrow> None | Some s1 \<Rightarrow> post_all E connId rs s1)"

definition passive_message :: "lipc_env \<Rightarrow> string \<Rightarrow> json \<Rightarrow> lipc_service \<Rightarrow> lipc_service option" where
  "passive_message E connId msg s =
     (case member_or ''id'' asUInt (- 1) msg of
        None \<Rightarrow> None
      | Some cseq \<Rightarrow>
          (let resp = lipc_message_new cseq J_null
           in case member_or ''method'' (asString (le_real E)) [] msg of
                None \<Rightarrow> None
              | Some methodName \<Rightarrow>
                  if methodName = [] then postException E connId LIPC_METHOD_NOT_FOUND (lipc_errDesc LIPC_METHOD_NOT_FOUND) False resp s
                  else (let req = lipc_message_new 0 msg
                        in case hasFd req of
                             None \<Rightarrow> None
                           | Some has \<Rightarrow>
                               (case (if has then (case getFdType req of None \<Rightarrow> None | Some ty \<Rightarrow> setFd (le_acceptfd E) ty req) else Some req) of
                                  None \<Rightarrow> None
                                | Some req1 \<Rightarrow> post_all E connId (le_exec E methodName req1 resp) s))))"

fun messages_loop :: "(json \<Rightarrow> 's \<Rightarrow> 's option) \<Rightarrow> json list \<Rightarrow> 's \<Rightarrow> 's option" where
  "messages_loop f [] s = Some s"
| "messages_loop f (j # js) s = (case f j s of None \<Rightarrow> None | Some s1 \<Rightarrow> messages_loop f js s1)"

definition passive_OnMessage :: "lipc_env \<Rightarrow> string \<Rightarrow> string \<Rightarrow> lipc_service \<Rightarrow> lipc_service option" where
  "passive_OnMessage E connId text s =
     (case le_parse E text of
        None \<Rightarrow> postException E connId LIPC_PARSING_ERROR [] True (lipc_message_new 0 J_null) s
      | Some doc \<Rightarrow> (case doc of J_arr js \<Rightarrow> messages_loop (passive_message E connId) js s | _ \<Rightarrow> passive_message E connId doc s))"

subsection \<open>The client\<close>

definition lipc_client_new :: "int \<Rightarrow> lipc_client" where
  "lipc_client_new timeout =
     \<lparr>lc_awaits = [], lc_timeout = timeout, lc_lastCSeq = 1, lc_conn = None, lc_stampConnected = 0, lc_stampLastConnect = 0,
      lc_peer = [], lc_done = [], lc_responses = []\<rparr>"

definition OnRequestDone :: "int \<Rightarrow> int \<Rightarrow> lipc_client \<Rightarrow> lipc_client" where
  "OnRequestDone cseq ret c = c\<lparr>lc_done := lc_done c @ [(cseq, ret)]\<rparr>"

definition OnConnectionClosed :: "lipc_client \<Rightarrow> lipc_client" where
  "OnConnectionClosed c =
     fold (\<lambda>i. OnRequestDone i LIPC_CLIENT_CLOSED) (map fst (lc_awaits c)) (c\<lparr>lc_awaits := []\<rparr>)"

definition doDisconnect :: "lipc_client \<Rightarrow> lipc_client" where
  "doDisconnect c = (OnConnectionClosed (c\<lparr>lc_stampConnected := 0\<rparr>))\<lparr>lc_conn := None\<rparr>"

definition lipc_connect :: "string \<Rightarrow> lipc_client \<Rightarrow> lipc_client" where
  "lipc_connect pipeName c = c\<lparr>lc_peer := pipeName\<rparr>"

definition lipc_disconnect :: "lipc_client \<Rightarrow> lipc_client" where
  "lipc_disconnect c = doDisconnect (c\<lparr>lc_peer := [], lc_stampLastConnect := 0\<rparr>)"

definition lipc_poll :: "int \<Rightarrow> lipc_client \<Rightarrow> lipc_client" where
  "lipc_poll now c =
     (let expired = map fst (filter (\<lambda>p. aw_expiration (snd p) < now) (lc_awaits c));
          c1 = fold (\<lambda>i. OnRequestDone i LIPC_REQUEST_TIMEOUT) expired
                 (c\<lparr>lc_awaits := filter (\<lambda>p. \<not> aw_expiration (snd p) < now) (lc_awaits c)\<rparr>)
      in if lc_stampConnected c1 \<le> 0
         then if lc_peer c1 \<noteq> [] \<and> now - lc_stampLastConnect c1 > 5000
              then (doDisconnect (c1\<lparr>lc_stampLastConnect := now\<rparr>))\<lparr>lc_conn := Some us_new\<rparr>
              else c1
         else c1)"

definition lipc_OnConnected :: "int \<Rightarrow> bool \<Rightarrow> lipc_client \<Rightarrow> lipc_client" where
  "lipc_OnConnected now success c =
     (let c1 = c\<lparr>lc_stampConnected := now\<rparr> in if success then c1 else lipc_disconnect c1)"

text \<open>
  \<open>sendRequest\<close> may be called by other threads than the one of the event loop (LIPC.h, at \<open>_lkAwaits\<close>). Its steps, between which such a
  thread can be interrupted: drawing a number (which is set on the request object that the caller passed, too), entering the
  request into the table under the lock, handing the text to the connection, and, when that failed, reporting the request and
  taking it from the table, under the lock again.
\<close>

definition draw_request :: "int \<Rightarrow> string \<Rightarrow> int \<Rightarrow> lipc_message \<Rightarrow> lipc_client \<Rightarrow> lipc_client \<times> int \<times> await" where
  "draw_request now methodName timeout req c =
     (case lastCSeq (lc_lastCSeq c) of
        (n, seq) \<Rightarrow>
          (let tmo = (if timeout > 0 then timeout else lc_timeout c)
           in (c\<lparr>lc_lastCSeq := n, lc_timeout := tmo\<rparr>, seq,
               \<lparr>aw_req = req\<lparr>lm_cSeq := word_of_int seq\<rparr>, aw_expiration = now + tmo, aw_method = methodName\<rparr>)))"

definition insert_request :: "int \<Rightarrow> await \<Rightarrow> lipc_client \<Rightarrow> lipc_client" where
  "insert_request seq ar c = c\<lparr>lc_awaits := smap_insert seq ar (lc_awaits c)\<rparr>"

definition register_request :: "int \<Rightarrow> string \<Rightarrow> int \<Rightarrow> lipc_message \<Rightarrow> lipc_client \<Rightarrow> lipc_client \<times> lipc_message" where
  "register_request now methodName timeout req c =
     (case draw_request now methodName timeout req c of (c0, seq, ar) \<Rightarrow> (insert_request seq ar c0, aw_req ar))"

text \<open>The third step: the state, the request, the result, and whether the failure is to be reported.\<close>

definition sr_transmit ::
  "lipc_env \<Rightarrow> string \<Rightarrow> lipc_message \<Rightarrow> bool \<Rightarrow> lipc_client \<Rightarrow> (lipc_client \<times> lipc_message \<times> int \<times> bool) option" where
  "sr_transmit E methodName req1 bAsync c1 =
     (case lc_conn c1 of
        None \<Rightarrow> Some (c1, req1, - 1, False)
      | Some conn \<Rightarrow>
          if methodName = [] then Some (c1, req1, - 1, False)
          else (case lipc_toString (le_write E) req1 of
                  None \<Rightarrow> None
                | Some (req2, text) \<Rightarrow>
                    (case getFd req1 of
                       None \<Rightarrow> None
                     | Some fd \<Rightarrow>
                         (case lipc_send E bAsync text fd conn of
                            (conn1, ret) \<Rightarrow>
                              Some (c1\<lparr>lc_conn := Some conn1\<rparr>, req2, if ret < 0 then ret else sint (lm_cSeq req2), ret < 0)))))"

definition sr_report :: "int \<Rightarrow> lipc_client \<Rightarrow> lipc_client" where
  "sr_report seq c = OnRequestDone seq LIPC_CLIENT_ERROR c"

definition sr_erase :: "int \<Rightarrow> lipc_client \<Rightarrow> lipc_client" where
  "sr_erase seq c = c\<lparr>lc_awaits := smap_erase seq (lc_awaits c)\<rparr>"

text \<open>All of them in a row, as on the thread of the loop.\<close>

definition lipc_sendRequest ::
  "lipc_env \<Rightarrow> int \<Rightarrow> string \<Rightarrow> lipc_message \<Rightarrow> int \<Rightarrow> bool \<Rightarrow> bool \<Rightarrow> lipc_client \<Rightarrow> (lipc_client \<times> lipc_message \<times> int) option" where
  "lipc_sendRequest E now methodName req timeout bAsync expectResp c =
     (case set_msg ''method'' (J_str methodName) req of
        None \<Rightarrow> None
      | Some req0 \<Rightarrow>
          (case (if expectResp then register_request now methodName timeout req0 c else (c, req0)) of
             (c1, req1) \<Rightarrow>
               (case sr_transmit E methodName req1 bAsync c1 of
                  None \<Rightarrow> None
                | Some (c2, req2, ret, failed) \<Rightarrow>
                    (let seq = uint (lm_cSeq req2)
                     in Some (if failed then sr_erase seq (sr_report seq c2) else c2, req2, ret)))))"

lemma lipc_sendRequest_unfold:
  "lipc_sendRequest E now methodName req timeout bAsync expectResp c =
     (case set_msg ''method'' (J_str methodName) req of
        None \<Rightarrow> None
      | Some req0 \<Rightarrow>
          (case (if expectResp then register_request now methodName timeout req0 c else (c, req0)) of
             (c1, req1) \<Rightarrow>
               (case lc_conn c1 of
                  None \<Rightarrow> Some (c1, req1, - 1)
                | Some conn \<Rightarrow>
                    if methodName = [] then Some (c1, req1, - 1)
                    else (case lipc_toString (le_write E) req1 of
                            None \<Rightarrow> None
                          | Some (req2, text) \<Rightarrow>
                              (case getFd req1 of
                                 None \<Rightarrow> None
                               | Some fd \<Rightarrow>
                                   (case lipc_send E bAsync text fd conn of
                                      (conn1, ret) \<Rightarrow>
                                        (let c2 = c1\<lparr>lc_conn := Some conn1\<rparr>; seq = uint (lm_cSeq req2)
                                         in if ret < 0
                                            then (let c3 = OnRequestDone seq LIPC_CLIENT_ERROR c2
                                                  in Some (c3\<lparr>lc_awaits := smap_erase seq (lc_awaits c3)\<rparr>, req2, ret))
                                            else Some (c2, req2, sint (lm_cSeq req2)))))))))"
  by (simp add: lipc_sendRequest_def sr_transmit_def sr_report_def sr_erase_def Let_def split: option.split prod.split)

definition client_message :: "lipc_env \<Rightarrow> json \<Rightarrow> lipc_client \<Rightarrow> lipc_client option" where
  "client_message E msg c =
     (case member_or ''id'' asInt (- 1) msg of
        None \<Rightarrow> None
      | Some cseq \<Rightarrow>
          if cseq \<le> 0 then Some c
          else (let resp = \<lparr>lm_msg = msg, lm_cSeq = word_of_int cseq\<rparr>
                in case hasFd resp of
                     None \<Rightarrow> None
                   | Some has \<Rightarrow>
                       (case (if has then (case getFdType resp of None \<Rightarrow> None | Some ty \<Rightarrow> setFd (le_acceptfd E) ty resp) else Some resp) of
                          None \<Rightarrow> None
                        | Some resp1 \<Rightarrow>
                            (case map_of (lc_awaits c) cseq of
                               None \<Rightarrow> Some c
                             | Some aw \<Rightarrow>
                                 (let c1 = c\<lparr>lc_responses := lc_responses c @ [(aw_method aw, lm_msg resp1)]\<rparr>
                                  in case getErrorCode resp1 of
                                       None \<Rightarrow> None
                                     | Some err \<Rightarrow>
                                         (let c2 = OnRequestDone cseq err c1
                                          in Some (c2\<lparr>lc_awaits := smap_erase cseq (lc_awaits c2)\<rparr>)))))))"

definition client_OnMessage :: "lipc_env \<Rightarrow> string \<Rightarrow> lipc_client \<Rightarrow> lipc_client option" where
  "client_OnMessage E text c =
     (case le_parse E text of
        None \<Rightarrow> Some c
      | Some doc \<Rightarrow> (case doc of J_arr js \<Rightarrow> messages_loop (client_message E) js c | _ \<Rightarrow> client_message E doc c))"

end
