(* ===== verification/Lipc_Props.thy ===== *)
theory Lipc_Props
  imports Lipc
begin

text \<open>
  What callers of LIPC see: every request that expects a response is reported once when all calls are made on the thread of the
  event loop, as here (Lipc_Threads has callers on other threads), a call that both sides carry out completes,
  and the messages and errors that end a side.
\<close>

subsection \<open>The client as a machine\<close>

text \<open>Applications make a new request object for each call.\<close>

datatype lipc_op =
    L_connect string
  | L_disconnect
  | L_poll int
  | L_send int string json int bool bool
  | L_connected int bool
  | L_message string
  | L_closed
  | L_error

fun lipc_step :: "lipc_env \<Rightarrow> lipc_client \<Rightarrow> lipc_op \<Rightarrow> lipc_client option" where
  "lipc_step E c (L_connect n) = Some (lipc_connect n c)"
| "lipc_step E c L_disconnect = Some (lipc_disconnect c)"
| "lipc_step E c (L_poll now) = Some (lipc_poll now c)"
| "lipc_step E c (L_send now m j t a e) =
     (case lipc_sendRequest E now m (lipc_message_new 0 j) t a e c of None \<Rightarrow> None | Some (c1, _, _) \<Rightarrow> Some c1)"
| "lipc_step E c (L_connected now ok) = Some (lipc_OnConnected now ok c)"
| "lipc_step E c (L_message t) = client_OnMessage E t c"
| "lipc_step E c L_closed = Some (OnConnectionClosed c)"
| "lipc_step E c L_error = Some (lipc_disconnect c)"

text \<open>
  Of the numbers given out so far, the requests in \<open>aw\<close> wait, those in \<open>dn\<close> were reported, and those in \<open>X\<close> were taken from
  the waiting ones and are about to be reported. Calls that expect no response have no number.
\<close>

definition reported :: "(int \<times> int) list \<Rightarrow> int list" where
  "reported dn = filter (\<lambda>i. i \<noteq> 0) (map fst dn)"

definition acc_ok :: "int set \<Rightarrow> int \<Rightarrow> (int \<times> await) list \<Rightarrow> (int \<times> int) list \<Rightarrow> bool" where
  "acc_ok X n aw dn \<longleftrightarrow>
     1 \<le> n \<and> distinct (reported dn) \<and> smap_wf aw \<and>
     fst ` set aw \<inter> set (reported dn) = {} \<and> X \<inter> set (reported dn) = {} \<and> fst ` set aw \<inter> X = {} \<and>
     fst ` set aw \<union> X \<union> set (reported dn) = {2..n}"

definition lipc_acc :: "lipc_client \<Rightarrow> bool" where
  "lipc_acc c \<longleftrightarrow> acc_ok {} (lc_lastCSeq c) (lc_awaits c) (lc_done c)"

lemma acc_report:
  assumes "acc_ok X n aw dn" and "i \<in> X"
  shows "acc_ok (X - {i}) n aw (dn @ [(i, r)])"
proof -
  have i: "i \<noteq> 0" "i \<notin> set (reported dn)" using assms unfolding acc_ok_def by fastforce+
  then have "reported (dn @ [(i, r)]) = reported dn @ [i]" by (simp add: reported_def)
  then show ?thesis using assms i by (auto simp: acc_ok_def)
qed

lemma acc_report_all: "acc_ok (set is) n aw dn \<Longrightarrow> distinct is \<Longrightarrow> acc_ok {} n aw (dn @ map (\<lambda>i. (i, r)) is)"
proof (induction "is" arbitrary: dn)
  case (Cons i "is")
  have "acc_ok (set (i # is) - {i}) n aw (dn @ [(i, r)])" by (rule acc_report [OF Cons.prems(1)]) simp
  moreover have "set (i # is) - {i} = set is" using Cons.prems(2) by auto
  ultimately have "acc_ok (set is) n aw (dn @ [(i, r)])" by simp
  from Cons.IH [OF this] Cons.prems(2) show ?case by simp
qed simp

lemma acc_zero: "acc_ok X n aw (dn @ [(0, r)]) = acc_ok X n aw dn"
  by (simp add: acc_ok_def reported_def)

lemma acc_take:
  assumes "acc_ok {} n aw dn"
  shows "acc_ok (set (map fst (filter P aw))) n (filter (\<lambda>p. \<not> P p) aw) dn" and "distinct (map fst (filter P aw))"
proof -
  have w: "smap_wf aw" using assms by (simp add: acc_ok_def)
  then have d: "distinct (map fst aw)" by (rule smap_wf_distinct)
  then show "distinct (map fst (filter P aw))" by (rule distinct_map_filter)
  have "fst ` set (filter (\<lambda>p. \<not> P p) aw) \<inter> fst ` set (filter P aw) = {}"
    using d by (auto simp: distinct_map dest: inj_onD)
  moreover have "smap_wf (filter (\<lambda>p. \<not> P p) aw)" using w
    by (auto simp: smap_wf_def sorted_wrt_map intro: sorted_wrt_filter)
  moreover have "fst ` set (filter (\<lambda>p. \<not> P p) aw) \<union> fst ` set (filter P aw) = fst ` set aw" by auto
  ultimately show "acc_ok (set (map fst (filter P aw))) n (filter (\<lambda>p. \<not> P p) aw) dn"
    using assms unfolding acc_ok_def by auto
qed

lemma acc_all: "acc_ok {} n aw dn \<Longrightarrow> acc_ok {} n (filter (\<lambda>p. \<not> P p) aw) (dn @ map (\<lambda>i. (i, r)) (map fst (filter P aw)))"
  by (rule acc_report_all [OF acc_take])

lemma filter_key: "distinct (map fst m) \<Longrightarrow> i \<in> fst ` set m \<Longrightarrow> map fst (filter (\<lambda>p. fst p = i) m) = [i]"
proof (induction m)
  case (Cons p m)
  show ?case
  proof (cases "fst p = i")
    case True
    then have "\<forall>q \<in> set m. fst q \<noteq> i" using Cons.prems(1) by (metis distinct.simps(2) image_eqI list.simps(9) set_map)
    then have "filter (\<lambda>p. fst p = i) m = []" by (simp add: filter_empty_conv)
    then show ?thesis using True by simp
  next
    case False
    then show ?thesis using Cons by auto
  qed
qed simp

lemma acc_finish: "acc_ok {} n aw dn \<Longrightarrow> i \<in> fst ` set aw \<Longrightarrow> acc_ok {} n (smap_erase i aw) (dn @ [(i, r)])"
  using acc_all [of n aw dn "\<lambda>p. fst p = i" r] filter_key [of aw i]
  by (simp add: smap_erase_def acc_ok_def [of _ n aw] smap_wf_distinct)

lemma acc_new:
  assumes "acc_ok {} n aw dn"
  shows "acc_ok {} (n + 1) (smap_set (n + 1) ar aw) dn"
proof -
  have *: "1 \<le> n" "fst ` set aw \<union> set (reported dn) = {2..n}" using assms by (simp_all add: acc_ok_def)
  then have "insert (n + 1) (fst ` set aw) \<union> set (reported dn) = {2..n + 1}" "n + 1 \<notin> {2..n}" by auto
  then have "insert (n + 1) (fst ` set aw) \<union> set (reported dn) = {2..n + 1}" "n + 1 \<notin> set (reported dn)" using * by blast+
  then show ?thesis using assms * by (simp add: acc_ok_def set_keys_smap_set smap_wf_set)
qed

lemma fold_done: "fold (\<lambda>i. OnRequestDone i r) is c = c\<lparr>lc_done := lc_done c @ map (\<lambda>i. (i, r)) is\<rparr>"
  by (induction "is" arbitrary: c) (simp_all add: OnRequestDone_def)

lemma acc_closed: "lipc_acc c \<Longrightarrow> lipc_acc (OnConnectionClosed c)"
  using acc_all [of "lc_lastCSeq c" "lc_awaits c" "lc_done c" "\<lambda>_. True"]
  by (simp add: OnConnectionClosed_def fold_done lipc_acc_def comp_def)

lemma acc_disconnect: "lipc_acc c \<Longrightarrow> lipc_acc (doDisconnect c)" "lipc_acc c \<Longrightarrow> lipc_acc (lipc_disconnect c)"
  using acc_closed [of "c\<lparr>lc_stampConnected := 0\<rparr>"] acc_closed [of "c\<lparr>lc_peer := [], lc_stampLastConnect := 0, lc_stampConnected := 0\<rparr>"]
  by (simp_all add: doDisconnect_def lipc_disconnect_def lipc_acc_def)

lemma acc_poll: "lipc_acc c \<Longrightarrow> lipc_acc (lipc_poll now c)"
proof -
  assume a: "lipc_acc c"
  define c1 where "c1 = c\<lparr>lc_awaits := filter (\<lambda>p. \<not> aw_expiration (snd p) < now) (lc_awaits c),
      lc_done := lc_done c @ map (\<lambda>i. (i, LIPC_REQUEST_TIMEOUT)) (map fst (filter (\<lambda>p. aw_expiration (snd p) < now) (lc_awaits c)))\<rparr>"
  have c1: "lipc_acc c1" using acc_all [of _ _ _ "\<lambda>p. aw_expiration (snd p) < now"] a by (simp add: lipc_acc_def c1_def)
  then have "lipc_acc (doDisconnect (c1\<lparr>lc_stampLastConnect := now\<rparr>))" by (intro acc_disconnect) (simp add: lipc_acc_def)
  moreover have "lipc_poll now c = (if lc_stampConnected c1 \<le> 0 \<and> lc_peer c1 \<noteq> [] \<and> now - lc_stampLastConnect c1 > 5000
      then (doDisconnect (c1\<lparr>lc_stampLastConnect := now\<rparr>))\<lparr>lc_conn := Some us_new\<rparr> else c1)"
    by (simp add: lipc_poll_def fold_done Let_def c1_def)
  ultimately show ?thesis using c1 by (simp add: lipc_acc_def)
qed

lemma acc_message:
  assumes "lipc_acc c" and "client_message E j c = Some c'"
  shows "lipc_acc c' \<and> lc_lastCSeq c' = lc_lastCSeq c"
proof -
  have fin: "acc_ok {} (lc_lastCSeq c) (smap_erase i (lc_awaits c)) (lc_done c @ [(i, r)])"
    if "map_of (lc_awaits c) i = Some aw" for i aw r
    by (rule acc_finish) (use assms(1) map_of_SomeD [OF that] in \<open>force simp: lipc_acc_def\<close>)+
  show ?thesis using assms
    by (auto simp: client_message_def Let_def lipc_acc_def OnRequestDone_def split: option.splits if_splits intro: fin)
qed

lemma acc_messages:
  "lipc_acc c \<Longrightarrow> messages_loop (client_message E) js c = Some c' \<Longrightarrow> lipc_acc c' \<and> lc_lastCSeq c' = lc_lastCSeq c"
proof (induction js arbitrary: c)
  case (Cons j js)
  then obtain c1 where c1: "client_message E j c = Some c1" "messages_loop (client_message E) js c1 = Some c'"
    by (auto split: option.splits)
  then show ?case using acc_message [OF Cons.prems(1) c1(1)] Cons.IH [of c1] by simp
qed simp

lemma acc_OnMessage: "lipc_acc c \<Longrightarrow> client_OnMessage E t c = Some c' \<Longrightarrow> lipc_acc c' \<and> lc_lastCSeq c' = lc_lastCSeq c"
  using acc_message [of c E _ c'] acc_messages [of c E _ c']
  by (simp add: client_OnMessage_def split: option.splits json.splits)

lemma acc_numbers: "lipc_acc c \<Longrightarrow> 1 \<le> lc_lastCSeq c \<and> (\<forall>i \<in> fst ` set (lc_awaits c). 2 \<le> i \<and> i \<le> lc_lastCSeq c)"
proof -
  assume "lipc_acc c"
  then have "1 \<le> lc_lastCSeq c" "fst ` set (lc_awaits c) \<subseteq> {2..lc_lastCSeq c}" unfolding lipc_acc_def acc_ok_def by blast+
  then show ?thesis by auto
qed

lemma register_fields:
  assumes "lipc_acc c" and "lc_lastCSeq c < MAX_CSEQ - 1"
  shows "register_request now m t req c =
      (c\<lparr>lc_lastCSeq := lc_lastCSeq c + 1, lc_timeout := (if t > 0 then t else lc_timeout c),
         lc_awaits := smap_set (lc_lastCSeq c + 1)
           \<lparr>aw_req = req\<lparr>lm_cSeq := word_of_int (lc_lastCSeq c + 1)\<rparr>, aw_expiration = now + (if t > 0 then t else lc_timeout c), aw_method = m\<rparr>
           (lc_awaits c)\<rparr>, req\<lparr>lm_cSeq := word_of_int (lc_lastCSeq c + 1)\<rparr>)"
proof -
  have "lc_lastCSeq c + 1 \<notin> fst ` set (lc_awaits c)" "1 \<le> lc_lastCSeq c" using acc_numbers [OF assms(1)] by fastforce+
  then have "map_of (lc_awaits c) (lc_lastCSeq c + 1) = None" by (simp add: map_of_eq_None_iff)
  then show ?thesis using lastCSeq_next [of "lc_lastCSeq c"] assms(2) \<open>1 \<le> lc_lastCSeq c\<close>
    by (simp add: register_request_def draw_request_def insert_request_def Let_def smap_insert_def)
qed

lemma uint_seq:
  assumes "1 \<le> n" and "n < MAX_CSEQ"
  shows "uint (word_of_int n :: uint32) = n" and "sint (word_of_int n :: uint32) = n" and "(0 :: uint32) < word_of_int n"
proof -
  show u: "uint (word_of_int n :: uint32) = n" using assms by (simp add: MAX_CSEQ_def uint_word_of_int)
  show "sint (word_of_int n :: uint32) = n" using assms by (simp add: MAX_CSEQ_def signed_of_int signed_take_bit_int_eq_self)
  show "(0 :: uint32) < word_of_int n" using u assms(1) by (simp add: word_less_def)
qed

definition await_of :: "int \<Rightarrow> string \<Rightarrow> int \<Rightarrow> lipc_message \<Rightarrow> lipc_client \<Rightarrow> await" where
  "await_of now m t req c =
     \<lparr>aw_req = req, aw_expiration = now + (if t > 0 then t else lc_timeout c), aw_method = m\<rparr>"

text \<open>A call, by what became of the number it got and of the connection.\<close>

lemma send_cases:
  assumes "lipc_acc c" and "lc_lastCSeq c < MAX_CSEQ - 1"
    and "lipc_sendRequest E now m (lipc_message_new 0 j) t a e c = Some (c', req, ret)"
  shows "lipc_acc c' \<and> lc_lastCSeq c' \<le> lc_lastCSeq c + 1"
proof -
  obtain j0 where q: "set_msg ''method'' (J_str m) (lipc_message_new 0 j) = Some \<lparr>lm_msg = j0, lm_cSeq = 0\<rparr>"
    using assms(3) by (auto simp: lipc_sendRequest_unfold set_msg_def lipc_message_new_def split: option.splits)
  let ?req0 = "\<lparr>lm_msg = j0, lm_cSeq = 0 :: uint32\<rparr>"
  define c1 where "c1 = fst (if e then register_request now m t ?req0 c else (c, ?req0))"
  define req1 where "req1 = snd (if e then register_request now m t ?req0 c else (c, ?req0))"
  have p: "(if e then register_request now m t ?req0 c else (c, ?req0)) = (c1, req1)" by (simp add: c1_def req1_def)
  have n: "1 \<le> lc_lastCSeq c" using acc_numbers [OF assms(1)] by simp
  have reg: "lipc_acc c1 \<and> lc_lastCSeq c1 \<le> lc_lastCSeq c + 1 \<and>
      (if e then uint (lm_cSeq req1) \<in> fst ` set (lc_awaits c1) else uint (lm_cSeq req1) = 0)"
  proof (cases e)
    case True
    have "uint (word_of_int (lc_lastCSeq c + 1) :: uint32) = lc_lastCSeq c + 1"
      by (rule uint_seq) (use n assms(2) in \<open>simp_all\<close>)
    then show ?thesis using True acc_new assms(1)
      by (simp add: c1_def req1_def register_fields [OF assms(1,2)] lipc_acc_def set_keys_smap_set)
  next
    case False
    then show ?thesis using assms(1) by (simp add: c1_def req1_def)
  qed
  have fin: "acc_ok {} (lc_lastCSeq c1) (smap_erase (uint (lm_cSeq req1)) (lc_awaits c1)) (lc_done c1 @ [(uint (lm_cSeq req1), r)])" for r
  proof (cases e)
    case True
    then show ?thesis using reg acc_finish by (simp add: lipc_acc_def)
  next
    case False
    then have "\<forall>p \<in> set (lc_awaits c1). fst p \<noteq> 0" using reg acc_numbers [of c1] by fastforce
    then have "smap_erase 0 (lc_awaits c1) = lc_awaits c1" by (simp add: smap_erase_def filter_id_conv)
    then show ?thesis using reg False by (simp add: acc_zero lipc_acc_def)
  qed
  have two: "lm_cSeq req2 = lm_cSeq req1" if "lipc_toString w req1 = Some (req2, tx)" for w req2 tx
    using that by (auto simp: lipc_toString_def set_msg_Some split: if_splits option.splits)
  show ?thesis
  proof (cases "lc_conn c1")
    case None
    then show ?thesis using assms(3) reg by (simp add: lipc_sendRequest_unfold q p)
  next
    case (Some conn)
    show ?thesis
    proof (cases "m = []")
      case True
      then show ?thesis using assms(3) reg Some by (simp add: lipc_sendRequest_unfold q [unfolded True] p [unfolded True])
    next
      case False
      obtain req2 tx where t: "lipc_toString (le_write E) req1 = Some (req2, tx)"
        using assms(3) False Some by (auto simp: lipc_sendRequest_unfold q p split: option.splits)
      obtain fd where fd: "getFd req1 = Some fd"
        using assms(3) False Some t by (auto simp: lipc_sendRequest_unfold q p split: option.splits)
      obtain conn1 r where s: "lipc_send E a tx fd conn = (conn1, r)" by fastforce
      have "c' = (if r < 0 then c1\<lparr>lc_conn := Some conn1, lc_done := lc_done c1 @ [(uint (lm_cSeq req1), LIPC_CLIENT_ERROR)],
            lc_awaits := smap_erase (uint (lm_cSeq req1)) (lc_awaits c1)\<rparr> else c1\<lparr>lc_conn := Some conn1\<rparr>)"
        using assms(3) False Some t fd s two [OF t] by (simp add: lipc_sendRequest_unfold q p Let_def OnRequestDone_def split: if_splits)
      then show ?thesis using reg fin by (simp add: lipc_acc_def)
    qed
  qed
qed

lemma acc_step:
  assumes "lipc_acc c" and "lc_lastCSeq c < MAX_CSEQ - 1" and "lipc_step E c x = Some c'"
  shows "lipc_acc c' \<and> lc_lastCSeq c' \<le> lc_lastCSeq c + 1"
proof -
  have d: "lc_lastCSeq (OnConnectionClosed d) = lc_lastCSeq d" "lc_lastCSeq (lipc_disconnect d) = lc_lastCSeq d" for d
    by (simp_all add: OnConnectionClosed_def lipc_disconnect_def doDisconnect_def fold_done)
  show ?thesis
  proof (cases x)
    case (L_connect n)
    then show ?thesis using assms by (auto simp: lipc_connect_def lipc_acc_def)
  next
    case (L_poll now)
    then show ?thesis using assms acc_poll
      by (auto simp: lipc_poll_def Let_def fold_done doDisconnect_def d)
  next
    case (L_send now m j t a e)
    then show ?thesis using assms send_cases [OF assms(1,2)] by (auto split: option.splits)
  next
    case (L_connected now ok)
    have "lipc_acc (c\<lparr>lc_stampConnected := now\<rparr>)" using assms(1) by (simp add: lipc_acc_def)
    then show ?thesis using L_connected assms acc_disconnect(2) by (auto simp: lipc_OnConnected_def Let_def d)
  next
    case (L_message t)
    then show ?thesis using assms acc_OnMessage by fastforce
  qed (use assms acc_disconnect acc_closed d in auto)
qed

lemma acc_run:
  assumes "lipc_acc c" and "lc_lastCSeq c + int (length ops) < MAX_CSEQ" and "run_ops (lipc_step E) c ops = Some c'"
  shows "lipc_acc c'"
  using assms
proof (induction ops arbitrary: c)
  case (Cons x ops)
  then obtain c1 where c1: "lipc_step E c x = Some c1" "run_ops (lipc_step E) c1 ops = Some c'" by (auto split: option.splits)
  have "lipc_acc c1 \<and> lc_lastCSeq c1 \<le> lc_lastCSeq c + 1" using acc_step [OF _ _ c1(1)] Cons.prems by simp
  then show ?case using Cons.IH [of c1] Cons.prems(2) c1(2) by simp
qed simp

text \<open>
  Whatever happens to a client, up to \<open>MAX_CSEQ - 2\<close> calls and events, when the calls are made on the thread of the event loop,
  so that none is interrupted by an event: every call that expects a response got a number of
  its own and either still waits or was reported, and none was reported twice, whatever the peer answers.
\<close>

theorem lipc_accounts_for_requests:
  assumes "run_ops (lipc_step E) (lipc_client_new timeout) ops = Some c" and "int (length ops) < MAX_CSEQ - 1"
  shows "distinct (reported (lc_done c)) \<and> distinct (map fst (lc_awaits c)) \<and>
     fst ` set (lc_awaits c) \<inter> set (reported (lc_done c)) = {} \<and>
     fst ` set (lc_awaits c) \<union> set (reported (lc_done c)) = {2..lc_lastCSeq c}"
proof -
  have "lipc_acc c" by (rule acc_run [OF _ _ assms(1)])
    (use assms(2) in \<open>simp_all add: lipc_client_new_def lipc_acc_def acc_ok_def reported_def\<close>)
  then show ?thesis by (simp add: lipc_acc_def acc_ok_def smap_wf_distinct)
qed

subsection \<open>A call on both sides\<close>

text \<open>What one read does: the messages of its frames go to the owner of the connection. A parse error makes the client delete its
  connection while \<open>processMessage\<close> still runs on it; the service asks for a shutdown, which is left out.\<close>

fun handle_events :: "(string \<Rightarrow> 's \<Rightarrow> 's option) \<Rightarrow> (int \<Rightarrow> 's \<Rightarrow> 's option) \<Rightarrow> us_event list \<Rightarrow> 's \<Rightarrow> 's option" where
  "handle_events f g [] s = Some s"
| "handle_events f g (Us_message t # es) s = (case f t s of None \<Rightarrow> None | Some s1 \<Rightarrow> handle_events f g es s1)"
| "handle_events f g (Us_error e # es) s = (case g e s of None \<Rightarrow> None | Some s1 \<Rightarrow> handle_events f g es s1)"

definition service_OnRead :: "lipc_env \<Rightarrow> char \<times> char \<Rightarrow> string \<Rightarrow> string \<Rightarrow> lipc_service \<Rightarrow> lipc_service option" where
  "service_OnRead E g i data s =
     (case map_of (ls_clients s) i of
        None \<Rightarrow> Some s
      | Some u \<Rightarrow>
          (case us_OnRead g (Inr data) u of
             None \<Rightarrow> None
           | Some u1 \<Rightarrow>
               handle_events (passive_OnMessage E i) (\<lambda>_ s. Some s) (drop (length (us_events u)) (us_events u1))
                 (s\<lparr>ls_clients := map (\<lambda>(j, c). if j = i then (j, u1) else (j, c)) (ls_clients s)\<rparr>)))"

definition client_OnRead :: "lipc_env \<Rightarrow> char \<times> char \<Rightarrow> string \<Rightarrow> lipc_client \<Rightarrow> lipc_client option" where
  "client_OnRead E g data c =
     (case lc_conn c of
        None \<Rightarrow> Some c
      | Some u \<Rightarrow>
          (case us_OnRead g (Inr data) u of
             None \<Rightarrow> None
           | Some u1 \<Rightarrow>
               handle_events (client_OnMessage E) (\<lambda>_ _. None) (drop (length (us_events u)) (us_events u1)) (c\<lparr>lc_conn := Some u1\<rparr>)))"

definition call_json :: "int \<Rightarrow> string \<Rightarrow> (string \<times> json) list \<Rightarrow> json" where
  "call_json n meth m = J_obj (smap_set ''jsonrpc'' (J_str ''2.0'') (smap_set ''id'' (J_int n) (smap_set ''method'' (J_str meth) m)))"

definition answer_json :: "int \<Rightarrow> json \<Rightarrow> json" where
  "answer_json n v = J_obj [(''id'', J_int n), (''jsonrpc'', J_str ''2.0''), (''result'', v)]"

text \<open>Texts that the reader gives back and that one read brings whole.\<close>

definition carried :: "lipc_env \<Rightarrow> json \<Rightarrow> bool" where
  "carried E j \<longleftrightarrow> le_parse E (le_write E j) = Some j \<and> CHR 0x00 \<notin> set (le_write E j) \<and>
     length (us_encode (le_write E j)) + 1 < ELOOP_RECV_BUF_SIZE"

lemma read_one:
  assumes "us_buf u = []" and "carried E j"
  shows "us_OnRead g (Inr (us_encode (le_write E j))) u = Some (us_raise [Us_message (le_write E j)] u)"
  using frames_roundtrip [of u "[le_write E j]" g] assms by (simp add: carried_def)

lemma send_carried:
  assumes "carried E j" and "\<And>t fd. 0 \<le> le_send E t fd"
  shows "us_send (le_send E) (le_write E j) fd u =
    (u\<lparr>us_written := us_written u @ [(us_encode (le_write E j), fd)]\<rparr>, le_send E (us_encode (le_write E j)) fd)"
  using assms by (auto simp: carried_def us_send_def us_encode_def Let_def not_le not_less [symmetric] leD)

lemma call_json_members [simp]:
  "jfind ''method'' (call_json n meth m) = Some (Some (J_str meth))" "jfind ''id'' (call_json n meth m) = Some (Some (J_int n))"
  "jfind ''fd'' (call_json n meth m) = Some (map_of m ''fd'')"
  by (simp_all add: call_json_def std_simps)

lemma client_sends:
  assumes "lipc_acc c" and "lc_lastCSeq c < MAX_CSEQ - 1" and "lc_conn c = Some u" and "meth \<noteq> []" and "map_of m ''fd'' = None"
    and "carried E (call_json (lc_lastCSeq c + 1) meth m)" and "\<And>t fd. 0 \<le> le_send E t fd"
  shows "\<exists>c1 req aw. lipc_sendRequest E now meth (lipc_message_new 0 (J_obj m)) t False True c = Some (c1, req, lc_lastCSeq c + 1) \<and>
    lc_conn c1 = Some (u\<lparr>us_written := us_written u @ [(us_encode (le_write E (call_json (lc_lastCSeq c + 1) meth m)), - 1)]\<rparr>) \<and>
    lc_awaits c1 = smap_set (lc_lastCSeq c + 1) aw (lc_awaits c) \<and> aw_method aw = meth \<and>
    lc_done c1 = lc_done c \<and> lc_responses c1 = lc_responses c"
proof -
  let ?n = "lc_lastCSeq c + 1"
  have "1 \<le> ?n" "?n < MAX_CSEQ" using acc_numbers [OF assms(1)] assms(2) by simp_all
  note u = uint_seq [OF this]
  let ?j0 = "J_obj (smap_set ''method'' (J_str meth) m)"
  have q: "set_msg ''method'' (J_str meth) (lipc_message_new 0 (J_obj m)) = Some \<lparr>lm_msg = ?j0, lm_cSeq = 0\<rparr>"
    by (simp add: set_msg_def lipc_message_new_def)
  let ?req = "\<lparr>lm_msg = ?j0, lm_cSeq = word_of_int ?n\<rparr>"
  have t: "lipc_toString (le_write E) ?req =
      Some (\<lparr>lm_msg = call_json ?n meth m, lm_cSeq = word_of_int ?n\<rparr>, le_write E (call_json ?n meth m))"
    using u by (simp add: lipc_toString_def set_msg_def call_json_def del: of_int_add)
  have f: "getFd ?req = Some (- 1)" using assms(5) by (simp add: getFd_def member_or_def std_simps)
  show ?thesis
    using u send_carried [OF assms(6,7)] assms(3,4) leD [OF assms(7)]
    by (simp add: lipc_sendRequest_unfold q register_fields [OF assms(1,2)] t f lipc_send_def Let_def del: of_int_add)
      (intro conjI impI; rule exI, rule conjI, rule refl, simp)
qed

lemma map_of_clients: "map_of (map (\<lambda>(j, c). if j = i then (j, h c) else (j, c)) cs) i = map_option h (map_of cs i)"
  by (induction cs) auto

lemma sendResp_lookup:
  "\<not> ls_quit s \<Longrightarrow> map_of (ls_clients s) i = Some u \<Longrightarrow>
     map_of (ls_clients (sendResp E msg fd i b s)) i = Some (fst (lipc_send E b msg fd u))"
  using map_of_clients [of i "\<lambda>c. fst (lipc_send E b msg fd c)" "ls_clients s"] by (simp add: sendResp_def)

lemma service_answers:
  assumes "map_of (ls_clients s) i = Some u" and "us_buf u = []" and "\<not> ls_quit s" and "carried E q" and "carried E (answer_json n v)"
    and "\<exists>ps. q = J_obj ps" and "member_or ''id'' asUInt (- 1) q = Some k" and "n = uint (word_of_int k :: uint32)" and "0 < n"
    and "jfind ''method'' q = Some (Some (J_str meth))" and "meth \<noteq> []" and "jfind ''fd'' q = Some None"
    and "\<And>t fd. 0 \<le> le_send E t fd"
    and "le_exec E meth (lipc_message_new 0 q) (lipc_message_new k J_null) = [(lipc_message_new k (J_obj [(''result'', v)]), False)]"
  shows "\<exists>s1 u1. service_OnRead E g i (us_encode (le_write E q)) s = Some s1 \<and> map_of (ls_clients s1) i = Some u1 \<and>
    us_written u1 = us_written u @ [(us_encode (le_write E (answer_json n v)), - 1)]"
proof -
  let ?u1 = "us_raise [Us_message (le_write E q)] u"
  let ?s0 = "s\<lparr>ls_clients := map (\<lambda>(j, c). if j = i then (j, ?u1) else (j, c)) (ls_clients s)\<rparr>"
  let ?resp = "lipc_message_new k (J_obj [(''result'', v)])"
  have w: "0 < (word_of_int k :: uint32)" using assms(8,9) by (simp add: word_less_def)
  have meth: "member_or ''method'' (asString (le_real E)) [] q = Some meth" using assms(10) by (simp add: member_or_def)
  have nofd: "hasFd (lipc_message_new 0 q) = Some False" using assms(12) by (simp add: hasFd_def isMember_def lipc_message_new_def)
  have t: "lipc_toString (le_write E) ?resp = Some (\<lparr>lm_msg = answer_json n v, lm_cSeq = word_of_int k\<rparr>, le_write E (answer_json n v))"
    using w by (simp add: lipc_toString_def lipc_message_new_def set_msg_def answer_json_def assms(8) [symmetric])
  have f: "getFd ?resp = Some (- 1)" by (simp add: getFd_def member_or_def lipc_message_new_def)
  have "\<not> lm_cSeq ?resp \<le> 0" using w by (simp add: lipc_message_new_def)
  then have post: "lipc_post E i False ?resp ?s0 = Some (sendResp E (le_write E (answer_json n v)) (- 1) i False ?s0)"
    by (simp only: lipc_post_def t f if_False option.case prod.case)
  have "passive_OnMessage E i (le_write E q) ?s0 = passive_message E i q ?s0"
    using assms(4,6) by (auto simp: passive_OnMessage_def carried_def)
  also have "\<dots> = Some (sendResp E (le_write E (answer_json n v)) (- 1) i False ?s0)"
    using assms(11,14) by (simp add: passive_message_def assms(7) meth nofd Let_def post)
  finally have r: "service_OnRead E g i (us_encode (le_write E q)) s = Some (sendResp E (le_write E (answer_json n v)) (- 1) i False ?s0)"
    by (simp add: service_OnRead_def assms(1) read_one [OF assms(2,4)]) (simp add: us_raise_def)
  let ?u2 = "fst (us_send (le_send E) (le_write E (answer_json n v)) (- 1) ?u1)"
  have "map_of (ls_clients ?s0) i = Some ?u1" using map_of_clients [of i "\<lambda>_. ?u1" "ls_clients s"] assms(1) by simp
  from sendResp_lookup [OF _ this]
  have "map_of (ls_clients (sendResp E (le_write E (answer_json n v)) (- 1) i False ?s0)) i = Some ?u2"
    using assms(3) by (simp add: lipc_send_def)
  moreover have "us_written ?u2 = us_written u @ [(us_encode (le_write E (answer_json n v)), - 1)]"
    by (simp add: send_carried [OF assms(5,13)] us_raise_def)
  ultimately show ?thesis using r by blast
qed

lemma call_json_id: "1 \<le> n \<Longrightarrow> n < MAX_CSEQ \<Longrightarrow> member_or ''id'' asUInt (- 1) (call_json n meth m) = Some n"
  by (simp add: member_or_def MAX_CSEQ_def maxUInt_def)

lemma smap_erase_new: "k \<notin> fst ` set m \<Longrightarrow> smap_erase k (smap_set k v m) = m"
proof (induction k v m rule: smap_set.induct)
  case (2 k v k' v' m)
  then have "filter (\<lambda>p. fst p \<noteq> k) m = m" by (auto simp: filter_id_conv)
  then show ?case using 2 by (auto simp: smap_erase_def)
qed (simp add: smap_erase_def)

lemma client_receives:
  assumes "lc_conn c = Some u" and "us_buf u = []" and "carried E (answer_json n v)" and "1 \<le> n" and "n < MAX_CSEQ"
    and "map_of (lc_awaits c) n = Some aw"
  shows "\<exists>c1. client_OnRead E g (us_encode (le_write E (answer_json n v))) c = Some c1 \<and>
    lc_responses c1 = lc_responses c @ [(aw_method aw, answer_json n v)] \<and> lc_done c1 = lc_done c @ [(n, LIPC_OK)] \<and>
    lc_awaits c1 = smap_erase n (lc_awaits c)"
proof -
  have id: "member_or ''id'' asInt (- 1) (answer_json n v) = Some n"
    using assms(4,5) by (simp add: answer_json_def member_or_def MAX_CSEQ_def minInt_def maxInt_def)
  have f: "hasFd \<lparr>lm_msg = answer_json n v, lm_cSeq = x\<rparr> = Some False" for x by (simp add: hasFd_def isMember_def answer_json_def)
  have e: "getErrorCode \<lparr>lm_msg = answer_json n v, lm_cSeq = x\<rparr> = Some LIPC_OK" for x
    by (simp add: getErrorCode_def answer_json_def member_or_def)
  have "client_OnMessage E (le_write E (answer_json n v)) d = client_message E (answer_json n v) d" for d
    using assms(3) by (simp add: client_OnMessage_def carried_def answer_json_def)
  then show ?thesis using assms(4,6)
    by (simp add: client_OnRead_def assms(1) read_one [OF assms(2,3)])
      (simp add: us_raise_def client_message_def id f e Let_def OnRequestDone_def)
qed

text \<open>
  C32. A call completes: the request that the client writes, once the service has read it in one piece, makes the service write the
  result that its child class posts, and that answer, read in one piece, is handed over under the method's name, reported with
  200, and no longer waits, while every other request still does. (The reader gives back what the writer wrote of the two
  messages, they hold no NUL byte and fit, and writes succeed.)
\<close>

theorem lipc_call_completes:
  assumes "lipc_acc c" and "lc_lastCSeq c < MAX_CSEQ - 1" and "n = lc_lastCSeq c + 1" and "lc_conn c = Some u" and "us_buf u = []"
    and "meth \<noteq> []" and "map_of m ''fd'' = None" and "carried E (call_json n meth m)" and "carried E (answer_json n v)"
    and "\<And>t fd. 0 \<le> le_send E t fd" and "map_of (ls_clients s) i = Some u'" and "us_buf u' = []" and "\<not> ls_quit s"
    and "le_exec E meth (lipc_message_new 0 (call_json n meth m)) (lipc_message_new n J_null)
           = [(lipc_message_new n (J_obj [(''result'', v)]), False)]"
  shows "\<exists>c1 req u1 s1 u2 c2.
    lipc_sendRequest E now meth (lipc_message_new 0 (J_obj m)) t False True c = Some (c1, req, n) \<and>
    lc_conn c1 = Some u1 \<and> us_written u1 = us_written u @ [(us_encode (le_write E (call_json n meth m)), - 1)] \<and>
    service_OnRead E g i (us_encode (le_write E (call_json n meth m))) s = Some s1 \<and>
    map_of (ls_clients s1) i = Some u2 \<and> us_written u2 = us_written u' @ [(us_encode (le_write E (answer_json n v)), - 1)] \<and>
    client_OnRead E g' (us_encode (le_write E (answer_json n v))) c1 = Some c2 \<and>
    lc_responses c2 = lc_responses c @ [(meth, answer_json n v)] \<and> lc_done c2 = lc_done c @ [(n, LIPC_OK)] \<and>
    lc_awaits c2 = lc_awaits c"
proof -
  have n: "1 \<le> n" "n < MAX_CSEQ" "n \<notin> fst ` set (lc_awaits c)" using acc_numbers [OF assms(1)] assms(2,3) by fastforce+
  obtain c1 req aw where c1: "lipc_sendRequest E now meth (lipc_message_new 0 (J_obj m)) t False True c = Some (c1, req, n)"
      "lc_conn c1 = Some (u\<lparr>us_written := us_written u @ [(us_encode (le_write E (call_json n meth m)), - 1)]\<rparr>)"
      "lc_awaits c1 = smap_set n aw (lc_awaits c)" "aw_method aw = meth" "lc_done c1 = lc_done c" "lc_responses c1 = lc_responses c"
    using client_sends [OF assms(1,2,4,6,7), of E now t] assms(8,10) unfolding assms(3) by blast
  obtain s1 u2 where s1: "service_OnRead E g i (us_encode (le_write E (call_json n meth m))) s = Some s1"
      "map_of (ls_clients s1) i = Some u2" "us_written u2 = us_written u' @ [(us_encode (le_write E (answer_json n v)), - 1)]"
  proof (rule exE [OF service_answers [where g = g, OF assms(11,12,13,8,9) _ call_json_id [OF n(1,2)] _ _ _ assms(6) _ assms(10,14)]])
    show "\<exists>ps. call_json n meth m = J_obj ps" by (simp add: call_json_def)
  qed (use that uint_seq(1) [OF n(1,2)] n(1) assms(7) in auto)
  have "map_of (lc_awaits c1) n = Some aw" by (simp add: c1(3) std_simps)
  then obtain c2 where c2: "client_OnRead E g' (us_encode (le_write E (answer_json n v))) c1 = Some c2"
      "lc_responses c2 = lc_responses c1 @ [(aw_method aw, answer_json n v)]" "lc_done c2 = lc_done c1 @ [(n, LIPC_OK)]"
      "lc_awaits c2 = smap_erase n (lc_awaits c1)"
    using client_receives [OF c1(2) _ assms(9) n(1,2)] assms(5) by fastforce
  show ?thesis
    by (intro exI conjI, rule c1(1), rule c1(2), simp, rule s1(1), rule s1(2), rule s1(3), rule c2(1))
      (simp_all add: c1 c2 smap_erase_new n(3))
qed

definition demo_lipc :: "int \<Rightarrow> json \<Rightarrow> lipc_env" where
  "demo_lipc n q =
     \<lparr>le_parse = (\<lambda>t. if t = ''q'' then Some q else Some (answer_json n (J_int 3))), le_write = (\<lambda>j. if j = q then ''q'' else ''r''),
      le_real = (\<lambda>_. []), le_send = (\<lambda>_ _. 0), le_wake = 0, le_acceptfd = - 1,
      le_exec = (\<lambda>_ _ r. case lipc_setResult (J_int 3) r of None \<Rightarrow> [] | Some r1 \<Rightarrow> [(r1, False)])\<rparr>"

lemma demo_carried:
  assumes "answer_json n (J_int 3) \<noteq> q"
  shows "carried (demo_lipc n q) q" and "carried (demo_lipc n q) (answer_json n (J_int 3))"
proof -
  have "length (us_encode ''q'') = 5" "length (us_encode ''r'') = 5" by code_simp+
  then show "carried (demo_lipc n q) q" "carried (demo_lipc n q) (answer_json n (J_int 3))"
    using assms by (simp_all add: carried_def demo_lipc_def ELOOP_RECV_BUF_SIZE_def)
qed

lemma demo_exec:
  "le_exec (demo_lipc n q) m (lipc_message_new 0 j) (lipc_message_new k J_null) = [(lipc_message_new k (J_obj [(''result'', J_int 3)]), False)]"
  by (simp add: demo_lipc_def lipc_setResult_def set_msg_def lipc_message_new_def)

lemma call_not_answer: "answer_json n v \<noteq> call_json n meth m"
proof
  assume "answer_json n v = call_json n meth m"
  then have "jfind ''method'' (answer_json n v) = Some (Some (J_str meth))" by simp
  then show False by (simp add: answer_json_def)
qed

theorem lipc_call_completes_witness:
  "\<exists>c1 req s1 c2. lipc_sendRequest (demo_lipc 2 (call_json 2 ''add'' [])) 0 ''add'' (lipc_message_new 0 (J_obj [])) 500 False True
       ((lipc_client_new 500)\<lparr>lc_conn := Some us_new\<rparr>) = Some (c1, req, 2) \<and>
     service_OnRead (demo_lipc 2 (call_json 2 ''add'' [])) (CHR ''x'', CHR ''y'') ''c'' (us_encode ''q'') \<lparr>ls_clients = [(''c'', us_new)], ls_quit = False\<rparr> = Some s1 \<and>
     client_OnRead (demo_lipc 2 (call_json 2 ''add'' [])) (CHR ''x'', CHR ''y'') (us_encode ''r'') c1 = Some c2 \<and> lc_done c2 = [(2, 200)] \<and> lc_awaits c2 = []"
proof -
  let ?q = "call_json 2 ''add'' []"
  let ?E = "demo_lipc 2 ?q" and ?c = "(lipc_client_new 500)\<lparr>lc_conn := Some us_new\<rparr>"
  let ?s = "\<lparr>ls_clients = [(''c'', us_new)], ls_quit = False\<rparr>"
  note ca = demo_carried [OF call_not_answer [of 2 "J_int 3" "''add''" "[]"]]
  have acc: "lipc_acc ?c" by (simp add: lipc_client_new_def lipc_acc_def acc_ok_def reported_def)
  have w: "le_write ?E ?q = ''q''" "le_write ?E (answer_json 2 (J_int 3)) = ''r''"
    using call_not_answer [of 2 "J_int 3" "''add''" "[]"] by (simp_all add: demo_lipc_def)
  have l: "lc_lastCSeq ?c < MAX_CSEQ - 1" "2 = lc_lastCSeq ?c + 1" "lc_conn ?c = Some us_new" "lc_done ?c = []" "lc_awaits ?c = []"
    by (simp_all add: lipc_client_new_def MAX_CSEQ_def)
  have "0 \<le> le_send ?E t fd" for t fd by (simp add: demo_lipc_def)
  note r = lipc_call_completes [of ?c 2 us_new "''add''" "[]" ?E "J_int 3" ?s "''c''" us_new 0 500 "(CHR ''x'', CHR ''y'')" "(CHR ''x'', CHR ''y'')", OF acc l(1,2,3) _ _ _ ca this _ _ _ demo_exec,
      unfolded w l(4,5)]
  have "us_buf us_new = []" by (simp add: us_new_def)
  then show ?thesis using r by (auto simp: LIPC_OK_def)
qed

subsection \<open>What ends a side\<close>

definition notification_json :: "string \<Rightarrow> (string \<times> json) list \<Rightarrow> json" where
  "notification_json meth m = J_obj (smap_set ''jsonrpc'' (J_str ''2.0'') (smap_set ''method'' (J_str meth) m))"

text \<open>
  C33. A call that expects no response carries no number. The service takes it for number \<open>- 1\<close>, which the response holds as
  4294967295: when the child class posts a result, it is sent, and the client throws when it reads it, so that nothing more of
  that client is run.
\<close>

theorem notification_answer_kills_client:
  assumes "map_of (ls_clients s) i = Some u" and "us_buf u = []" and "\<not> ls_quit s"
    and "carried E (notification_json meth m)" and "carried E (answer_json 4294967295 v)"
    and "map_of m ''id'' = None" and "map_of m ''fd'' = None" and "meth \<noteq> []" and "\<And>t fd. 0 \<le> le_send E t fd"
    and "le_exec E meth (lipc_message_new 0 (notification_json meth m)) (lipc_message_new (- 1) J_null)
           = [(lipc_message_new (- 1) (J_obj [(''result'', v)]), False)]"
    and "lc_conn c = Some u'" and "us_buf u' = []"
  shows "(\<exists>s1 u1. service_OnRead E g i (us_encode (le_write E (notification_json meth m))) s = Some s1 \<and> map_of (ls_clients s1) i = Some u1 \<and>
      us_written u1 = us_written u @ [(us_encode (le_write E (answer_json 4294967295 v)), - 1)]) \<and>
    client_OnRead E g' (us_encode (le_write E (answer_json 4294967295 v))) c = None"
proof
  let ?q = "notification_json meth m"
  have q: "\<exists>ps. ?q = J_obj ps" "member_or ''id'' asUInt (- 1) ?q = Some (- 1)" "jfind ''method'' ?q = Some (Some (J_str meth))"
      "jfind ''fd'' ?q = Some None"
    using assms(6,7) by (simp_all add: notification_json_def member_or_def std_simps)
  have u: "4294967295 = uint (word_of_int (- 1) :: uint32)" by code_simp
  show "\<exists>s1 u1. service_OnRead E g i (us_encode (le_write E ?q)) s = Some s1 \<and> map_of (ls_clients s1) i = Some u1 \<and>
      us_written u1 = us_written u @ [(us_encode (le_write E (answer_json 4294967295 v)), - 1)]"
    by (rule service_answers [OF assms(1-5) q(1,2) u _ q(3) assms(8) q(4) assms(9,10)]) simp
  have "member_or ''id'' asInt (- 1) (answer_json 4294967295 v) = None"
    by (simp add: answer_json_def member_or_def maxInt_def)
  then have "client_OnMessage E (le_write E (answer_json 4294967295 v)) d = None" for d
    using assms(5) by (simp add: client_OnMessage_def carried_def answer_json_def client_message_def)
  then show "client_OnRead E g' (us_encode (le_write E (answer_json 4294967295 v))) c = None"
    by (simp add: client_OnRead_def assms(11) read_one [OF assms(12,5)]) (simp add: us_raise_def)
qed

theorem notification_answer_kills_client_witness:
  "client_OnRead (demo_lipc 4294967295 (notification_json ''note'' [])) (CHR ''x'', CHR ''y'') (us_encode ''r'') ((lipc_client_new 500)\<lparr>lc_conn := Some us_new\<rparr>) = None"
proof -
  let ?q = "notification_json ''note'' []"
  let ?E = "demo_lipc 4294967295 ?q" and ?c = "(lipc_client_new 500)\<lparr>lc_conn := Some us_new\<rparr>"
  let ?s = "\<lparr>ls_clients = [(''c'', us_new)], ls_quit = False\<rparr>"
  have ne: "answer_json 4294967295 (J_int 3) \<noteq> ?q" by (simp add: answer_json_def notification_json_def)
  have w: "le_write ?E (answer_json 4294967295 (J_int 3)) = ''r''" using ne by (simp add: demo_lipc_def)
  have "us_buf us_new = []" "map_of (ls_clients ?s) ''c'' = Some us_new" "\<not> ls_quit ?s" "0 \<le> le_send ?E t fd" "lc_conn ?c = Some us_new" for t fd
    by (simp_all add: us_new_def demo_lipc_def)
  from notification_answer_kills_client [OF this(2,1,3) demo_carried [OF ne] _ _ _ this(4) demo_exec this(5,1), of "(CHR ''x'', CHR ''y'')" "(CHR ''x'', CHR ''y'')"]
  show ?thesis unfolding w by simp
qed

text \<open>A text that is JSON, but neither object, array nor null, makes the service throw; a text that is not JSON gets no answer.\<close>

lemma scalar_kills_service:
  assumes "le_parse E t = Some j" and "\<not> is_struct j" and "\<And>js. j \<noteq> J_arr js"
  shows "passive_OnMessage E i t s = None"
proof -
  have "passive_OnMessage E i t s = passive_message E i j s"
    using assms(1) assms(3) [of "case j of J_arr js \<Rightarrow> js | _ \<Rightarrow> []"] by (cases j) (simp_all add: passive_OnMessage_def)
  moreover have "jfind k j = None" for k using assms(2) by (simp add: jfind_throws)
  ultimately show ?thesis by (simp add: passive_message_def member_or_def)
qed

lemma bad_text_unanswered: "le_parse E t = None \<Longrightarrow> passive_OnMessage E i t s = Some s"
  by (simp add: passive_OnMessage_def postException_def setErrorCode_def set_msg_def lipc_message_new_def lipc_post_def)

definition severed :: "lipc_client \<Rightarrow> bool" where
  "severed c \<longleftrightarrow> lc_conn c = None \<and> lc_peer c = []"

lemma severed_closed [simp]: "severed (OnConnectionClosed c) = severed c" "severed (lipc_disconnect c)"
  by (simp_all add: severed_def lipc_disconnect_def doDisconnect_def OnConnectionClosed_def fold_done)

lemma severed_message: "client_message E j c = Some c' \<Longrightarrow> severed c' = severed c"
  by (auto simp: client_message_def Let_def OnRequestDone_def severed_def split: option.splits if_splits)

lemma severed_messages: "messages_loop (client_message E) js c = Some c' \<Longrightarrow> severed c' = severed c"
  by (induction js arbitrary: c) (auto dest: severed_message split: option.splits)

lemma severed_OnMessage: "client_OnMessage E t c = Some c' \<Longrightarrow> severed c' = severed c"
  using severed_message [of E _ c c'] severed_messages [of E _ c c']
  by (simp add: client_OnMessage_def split: option.splits json.splits)

lemma severed_send: "lipc_sendRequest E now m req t a e c = Some (c', r, ret) \<Longrightarrow> severed c \<Longrightarrow> severed c' \<and> ret = - 1"
  by (auto simp: lipc_sendRequest_unfold register_request_def draw_request_def insert_request_def severed_def Let_def split: option.splits prod.splits if_splits)

lemma severed_step:
  assumes "lipc_step E c y = Some c'" and "\<forall>n. y \<noteq> L_connect n" and "severed c"
  shows "severed c'"
proof (cases y)
  case (L_send now m j t a e)
  then show ?thesis using assms severed_send [of E now m "lipc_message_new 0 j" t a e c] by (auto split: option.splits)
next
  case (L_message t)
  then show ?thesis using assms severed_OnMessage [of E t c c'] by simp
next
  case (L_poll now)
  then show ?thesis using assms by (auto simp: severed_def lipc_poll_def fold_done Let_def)
next
  case (L_connected now ok)
  have "severed (c\<lparr>lc_stampConnected := now\<rparr>)" using assms(3) by (simp add: severed_def)
  then show ?thesis using assms L_connected by (auto simp: lipc_OnConnected_def Let_def)
qed (use assms in auto)

lemma severed_run:
  "run_ops (lipc_step E) c ops = Some c' \<Longrightarrow> \<forall>x \<in> set ops. \<forall>n. x \<noteq> L_connect n \<Longrightarrow> severed c \<Longrightarrow> severed c'"
  by (induction ops arbitrary: c) (auto dest: severed_step split: option.splits)

text \<open>
  C34. After an error the client has forgotten the name of the peer: until the application calls \<open>connect\<close> again, whatever happens,
  its poll opens no connection, and every call made meanwhile fails with - 1.
\<close>

theorem error_ends_reconnecting:
  assumes "\<forall>x \<in> set ops. \<forall>n. x \<noteq> L_connect n" and "run_ops (lipc_step E) c (L_error # ops) = Some c'"
  shows "lc_conn c' = None \<and> lc_conn (lipc_poll now c') = None \<and>
    (\<forall>r. lipc_sendRequest E now m (lipc_message_new 0 j) t a e c' = Some r \<longrightarrow> snd (snd r) = - 1)"
proof -
  have s: "severed c'" using severed_run [of E "lipc_disconnect c" ops c'] assms by simp
  then have "severed (lipc_poll now c')" using severed_step [of E c' "L_poll now"] by simp
  then show ?thesis using s severed_send [of E now m _ t a e c'] by (fastforce simp: severed_def)
qed

theorem error_ends_reconnecting_witness:
  "lc_conn (lipc_poll 90000 (lipc_poll 60000 (lipc_disconnect (lipc_connect ''p'' (lipc_client_new 500))))) = None"
  using error_ends_reconnecting [of "[L_poll 60000]" "demo_lipc 2 J_null" "lipc_connect ''p'' (lipc_client_new 500)" _ 90000 "''m''" J_null 1 True True]
  by simp

definition demo_calls :: "lipc_op list" where
  "demo_calls = [L_connect ''p'', L_poll 6000, L_send 6001 ''a'' J_null 0 True True, L_send 6002 ''b'' J_null 0 True True, L_message ''r'', L_poll 90000]"

lemmas demo_steps = lipc_connect_def lipc_client_new_def lipc_poll_def doDisconnect_def OnConnectionClosed_def us_new_def demo_lipc_def
  lipc_sendRequest_unfold set_msg_def lipc_message_new_def register_request_def draw_request_def insert_request_def lastCSeq_def lipc_send_def lipc_toString_def getFd_def member_or_def
  client_OnMessage_def client_message_def answer_json_def hasFd_def isMember_def getErrorCode_def OnRequestDone_def us_send_def us_AsyncSend_def
  smap_insert_def smap_erase_def cseq_ok_def MAX_CSEQ_def ELOOP_RECV_BUF_SIZE_def Let_def minInt_def maxInt_def LIPC_OK_def LIPC_REQUEST_TIMEOUT_def

theorem lipc_accounts_for_requests_witness:
  "\<exists>c. run_ops (lipc_step (demo_lipc 2 J_null)) (lipc_client_new 500) demo_calls = Some c \<and> lc_done c = [(2, 200), (3, 408)] \<and>
     distinct (reported (lc_done c)) \<and> fst ` set (lc_awaits c) \<union> set (reported (lc_done c)) = {2..3}"
proof -
  have "case run_ops (lipc_step (demo_lipc 2 J_null)) (lipc_client_new 500) demo_calls of None \<Rightarrow> False
    | Some c \<Rightarrow> lc_done c = [(2, 200), (3, 408)] \<and> lc_lastCSeq c = 3"
    by (simp add: demo_calls_def demo_steps)
  then obtain c where c: "run_ops (lipc_step (demo_lipc 2 J_null)) (lipc_client_new 500) demo_calls = Some c"
    "lc_done c = [(2, 200), (3, 408)] \<and> lc_lastCSeq c = 3" by (rule case_SomeE)
  have "int (length demo_calls) < MAX_CSEQ - 1" by (simp add: demo_calls_def MAX_CSEQ_def)
  from lipc_accounts_for_requests [OF c(1) this] c show ?thesis by metis
qed

end
