(* ===== verification/Lipc_Threads.thy ===== *)
theory Lipc_Threads
  imports Lipc_Props
begin

text \<open>
  The LIPC client with callers on other threads: the steps of their calls of \<open>sendRequest\<close> interleave with each other and with what
  the thread of the event loop does. What stays true of the requests, and how one is reported twice.
\<close>

subsection \<open>Calls under way\<close>

text \<open>What a call is going to do next: enter its request, hand it over, report its failure, take it from the table.\<close>

datatype sr_phase =
    SR_drawn string int await bool
  | SR_ready string lipc_message bool
  | SR_failed int
  | SR_reported int

text \<open>\<open>lt_failed\<close> records the numbers that were reported by the callers themselves.\<close>

record lipc_threads =
  lt_client :: lipc_client
  lt_calls :: "sr_phase list"
  lt_failed :: "int list"


definition call_begin :: "int \<Rightarrow> string \<Rightarrow> json \<Rightarrow> int \<Rightarrow> bool \<Rightarrow> bool \<Rightarrow> lipc_client \<Rightarrow> (lipc_client \<times> sr_phase) option" where
  "call_begin now m j t a e c =
     (case set_msg ''method'' (J_str m) (lipc_message_new 0 j) of
        None \<Rightarrow> None
      | Some req0 \<Rightarrow>
          Some (if e then (case draw_request now m t req0 c of (c0, seq, ar) \<Rightarrow> (c0, SR_drawn m seq ar a)) else (c, SR_ready m req0 a)))"

text \<open>The next step of a call: the client, what remains of the call, and the number it reports, if it does.\<close>

definition call_step :: "lipc_env \<Rightarrow> sr_phase \<Rightarrow> lipc_client \<Rightarrow> (lipc_client \<times> sr_phase list \<times> int list) option" where
  "call_step E p c =
     (case p of
        SR_drawn m seq ar a \<Rightarrow> Some (insert_request seq ar c, [SR_ready m (aw_req ar) a], [])
      | SR_ready m req a \<Rightarrow>
          (case sr_transmit E m req a c of
             None \<Rightarrow> None
           | Some (c1, req1, ret, failed) \<Rightarrow> Some (c1, if failed then [SR_failed (uint (lm_cSeq req1))] else [], []))
      | SR_failed seq \<Rightarrow> Some (sr_report seq c, [SR_reported seq], [seq])
      | SR_reported seq \<Rightarrow> Some (sr_erase seq c, [], []))"

datatype lt_op =
    T_loop lipc_op
  | T_call int string json int bool bool
  | T_step nat

fun not_send :: "lipc_op \<Rightarrow> bool" where
  "not_send (L_send now m j t a e) \<longleftrightarrow> False"
| "not_send _ \<longleftrightarrow> True"

text \<open>Calls of \<open>sendRequest\<close>, on the thread of the loop too, are made of their steps.\<close>

fun lt_step :: "lipc_env \<Rightarrow> lipc_threads \<Rightarrow> lt_op \<Rightarrow> lipc_threads option" where
  "lt_step E t (T_loop x) = (if not_send x then map_option (\<lambda>c. t\<lparr>lt_client := c\<rparr>) (lipc_step E (lt_client t) x) else None)"
| "lt_step E t (T_call now m j to a e) =
     map_option (\<lambda>(c, p). t\<lparr>lt_client := c, lt_calls := lt_calls t @ [p]\<rparr>) (call_begin now m j to a e (lt_client t))"
| "lt_step E t (T_step k) =
     (if k < length (lt_calls t)
      then map_option (\<lambda>(c, ps, fs). t\<lparr>lt_client := c, lt_calls := take k (lt_calls t) @ ps @ drop (Suc k) (lt_calls t), lt_failed := lt_failed t @ fs\<rparr>)
             (call_step E (lt_calls t ! k) (lt_client t))
      else None)"

text \<open>The steps in a row are the call.\<close>

lemma steps_are_the_call:
  assumes "lt_calls t = []" and "lipc_step E (lt_client t) (L_send now m j to a e) = Some c"
  shows "\<exists>n t'. run_ops (lt_step E) t (T_call now m j to a e # replicate n (T_step 0)) = Some t' \<and> lt_client t' = c \<and> lt_calls t' = []"
proof -
  let ?c = "lt_client t"
  obtain req0 where q: "set_msg ''method'' (J_str m) (lipc_message_new 0 j) = Some req0"
    using assms(2) by (auto simp: lipc_sendRequest_def split: option.splits)
  obtain c1 req1 where r: "(if e then register_request now m to req0 ?c else (?c, req0)) = (c1, req1)" by fastforce
  obtain c2 req2 ret failed where s: "sr_transmit E m req1 a c1 = Some (c2, req2, ret, failed)"
    using assms(2) by (auto simp: lipc_sendRequest_def q r split: option.splits)
  let ?s = "uint (lm_cSeq req2)"
  have c: "c = (if failed then sr_erase ?s (sr_report ?s c2) else c2)" using assms(2) by (simp add: lipc_sendRequest_def q r s Let_def)
  define k where "k = (if failed then 2 else 0 :: nat)"
  have tail: "\<exists>t'. run_ops (lt_step E) (t\<lparr>lt_client := c1, lt_calls := [SR_ready m req1 a]\<rparr>) (T_step 0 # replicate k (T_step 0)) = Some t' \<and>
      lt_client t' = c \<and> lt_calls t' = []"
    using c by (auto simp: k_def call_step_def s numeral_2_eq_2)
  show ?thesis
  proof (cases e)
    case True
    obtain c0 seq ar where d: "draw_request now m to req0 ?c = (c0, seq, ar)" using prod_cases3 by blast
    then have r1: "c1 = insert_request seq ar c0" "req1 = aw_req ar" using r True by (simp_all add: register_request_def)
    have "run_ops (lt_step E) t (T_call now m j to a e # T_step 0 # T_step 0 # replicate k (T_step 0)) =
        run_ops (lt_step E) (t\<lparr>lt_client := c1, lt_calls := [SR_ready m req1 a]\<rparr>) (T_step 0 # replicate k (T_step 0))"
      using True by (simp add: call_begin_def q d assms(1) call_step_def r1 del: run_ops.simps(2)) (simp add: call_begin_def q d assms(1) call_step_def r1)
    then show ?thesis using tail by (intro exI [of _ "Suc (Suc k)"]) simp
  next
    case False
    then have "run_ops (lt_step E) t (T_call now m j to a e # T_step 0 # replicate k (T_step 0)) =
        run_ops (lt_step E) (t\<lparr>lt_client := c1, lt_calls := [SR_ready m req1 a]\<rparr>) (T_step 0 # replicate k (T_step 0))"
      using r by (simp add: call_begin_def q assms(1))
    then show ?thesis using tail by (intro exI [of _ "Suc k"]) simp
  qed
qed

subsection \<open>The thread of the loop\<close>

text \<open>What it does takes some of the waiting requests and reports each of them once.\<close>

definition took :: "int list \<Rightarrow> lipc_client \<Rightarrow> lipc_client \<Rightarrow> bool" where
  "took is c c' \<longleftrightarrow>
     distinct is \<and> set is \<subseteq> fst ` set (lc_awaits c) \<and> smap_wf (lc_awaits c') \<and>
     fst ` set (lc_awaits c') = fst ` set (lc_awaits c) - set is \<and> map fst (lc_done c') = map fst (lc_done c) @ is \<and>
     lc_lastCSeq c' = lc_lastCSeq c"


lemma took_trans: "took is c c1 \<Longrightarrow> took js c1 c2 \<Longrightarrow> took (is @ js) c c2"
  by (auto simp: took_def)

lemma took_fields:
  assumes "took is c c'" and "lc_awaits d = lc_awaits c'" and "lc_done d = lc_done c'" and "lc_lastCSeq d = lc_lastCSeq c'"
  shows "took is c d"
  using assms by (simp add: took_def)

lemma took_filter:
  assumes "smap_wf (lc_awaits c)" and "lc_awaits d = filter (\<lambda>p. \<not> P p) (lc_awaits c)"
    and "lc_done d = lc_done c @ map (\<lambda>i. (i, r)) (map fst (filter P (lc_awaits c)))" and "lc_lastCSeq d = lc_lastCSeq c"
  shows "took (map fst (filter P (lc_awaits c))) c d"
proof -
  have dist: "distinct (map fst (lc_awaits c))" using assms(1) by (rule smap_wf_distinct)
  have wf: "smap_wf (filter (\<lambda>p. \<not> P p) (lc_awaits c))"
    using assms(1) by (auto simp: smap_wf_def sorted_wrt_map intro: sorted_wrt_filter)
  have keys: "fst ` set (filter (\<lambda>p. \<not> P p) (lc_awaits c)) = fst ` set (lc_awaits c) - fst ` set (filter P (lc_awaits c))"
    using dist by (auto simp: distinct_map dest: inj_onD)
  show ?thesis unfolding took_def assms(2,4)
    using distinct_map_filter [OF dist] wf keys assms(3) by (auto simp: comp_def)
qed

lemma took_closed: "smap_wf (lc_awaits c) \<Longrightarrow> \<exists>is. took is c (OnConnectionClosed c)"
  by (rule exI, rule took_filter [where P = "\<lambda>_. True" and r = LIPC_CLIENT_CLOSED])
    (simp_all add: OnConnectionClosed_def fold_done)

lemma took_disconnect:
  assumes "smap_wf (lc_awaits c)"
  shows "\<exists>is. took is c (doDisconnect c)" and "\<exists>is. took is c (lipc_disconnect c)"
  using took_closed [OF assms] by (auto simp: took_def doDisconnect_def lipc_disconnect_def OnConnectionClosed_def fold_done)

lemma took_poll:
  assumes "smap_wf (lc_awaits c)"
  shows "\<exists>is. took is c (lipc_poll now c)"
proof -
  let ?P = "\<lambda>p :: int \<times> await. aw_expiration (snd p) < now"
  define c1 where "c1 = c\<lparr>lc_awaits := filter (\<lambda>p. \<not> ?P p) (lc_awaits c),
      lc_done := lc_done c @ map (\<lambda>i. (i, LIPC_REQUEST_TIMEOUT)) (map fst (filter ?P (lc_awaits c)))\<rparr>"
  have c1: "took (map fst (filter ?P (lc_awaits c))) c c1"
    by (rule took_filter [OF assms, where r = LIPC_REQUEST_TIMEOUT]) (simp_all add: c1_def)
  define c2 where "c2 = doDisconnect (c1\<lparr>lc_stampLastConnect := now\<rparr>)"
  have "smap_wf (lc_awaits (c1\<lparr>lc_stampLastConnect := now\<rparr>))" using c1 by (simp add: took_def)
  from took_disconnect(1) [OF this] obtain js where "took js (c1\<lparr>lc_stampLastConnect := now\<rparr>) c2" by (auto simp: c2_def)
  then have "took js c1 c2" by (simp add: took_def)
  from took_trans [OF c1 this] have c2: "\<exists>is. took is c c2" by blast
  have "lipc_poll now c = (if lc_stampConnected c1 \<le> 0 \<and> lc_peer c1 \<noteq> [] \<and> now - lc_stampLastConnect c1 > 5000
      then c2\<lparr>lc_conn := Some us_new\<rparr> else c1)"
    by (simp add: lipc_poll_def fold_done Let_def c1_def c2_def)
  then show ?thesis using c1 c2 by (auto simp: took_def)
qed




subsection \<open>The account of the requests\<close>

fun phase_seq :: "sr_phase \<Rightarrow> int" where
  "phase_seq (SR_drawn m seq ar a) = seq"
| "phase_seq (SR_ready m req a) = uint (lm_cSeq req)"
| "phase_seq (SR_failed seq) = seq"
| "phase_seq (SR_reported seq) = seq"

fun is_drawn :: "sr_phase \<Rightarrow> bool" where
  "is_drawn (SR_drawn m seq ar a) \<longleftrightarrow> True"
| "is_drawn _ \<longleftrightarrow> False"

definition drawn :: "sr_phase list \<Rightarrow> int set" where
  "drawn ps = phase_seq ` set (filter is_drawn ps)"

text \<open>\<open>A\<close>: the waiting requests, \<open>R\<close>: how often a number was reported, \<open>F\<close>: the numbers that callers reported.\<close>

fun phase_ok :: "int set \<Rightarrow> (int \<Rightarrow> nat) \<Rightarrow> int set \<Rightarrow> sr_phase \<Rightarrow> bool" where
  "phase_ok A R F (SR_drawn m seq ar a) \<longleftrightarrow> seq \<noteq> 0 \<and> uint (lm_cSeq (aw_req ar)) = seq \<and> seq \<notin> A \<and> R seq = 0 \<and> seq \<notin> F"
| "phase_ok A R F (SR_ready m req a) \<longleftrightarrow> uint (lm_cSeq req) = 0 \<or> uint (lm_cSeq req) \<notin> F"
| "phase_ok A R F (SR_failed seq) \<longleftrightarrow> seq = 0 \<or> seq \<notin> F"
| "phase_ok A R F (SR_reported seq) \<longleftrightarrow> seq = 0 \<or> seq \<in> F"

text \<open>What holds of a number that has been given out and entered.\<close>

definition number_ok :: "int set \<Rightarrow> (int \<Rightarrow> nat) \<Rightarrow> int set \<Rightarrow> int \<Rightarrow> bool" where
  "number_ok A R F i \<longleftrightarrow> (if i \<in> A then R i = of_bool (i \<in> F) else 1 \<le> R i \<and> R i \<le> 1 + of_bool (i \<in> F))"

definition nums :: "sr_phase list \<Rightarrow> int list" where
  "nums ps = filter (\<lambda>i. i \<noteq> 0) (map phase_seq ps)"

definition thr_ok :: "int \<Rightarrow> int set \<Rightarrow> (int \<Rightarrow> nat) \<Rightarrow> int set \<Rightarrow> sr_phase list \<Rightarrow> bool" where
  "thr_ok n A R F ps \<longleftrightarrow>
     1 \<le> n \<and> A \<subseteq> {2..n} \<and> distinct (nums ps) \<and> set (nums ps) \<subseteq> {2..n} \<and> F \<subseteq> insert 0 {2..n} \<and>
     (\<forall>p \<in> set ps. phase_ok A R F p) \<and> (\<forall>i \<in> {2..n} - drawn ps. number_ok A R F i) \<and> (\<forall>i. i \<notin> insert 0 {2..n} \<longrightarrow> R i = 0)"

definition reports :: "lipc_client \<Rightarrow> int \<Rightarrow> nat" where
  "reports c i = count_list (map fst (lc_done c)) i"

definition lt_inv :: "lipc_threads \<Rightarrow> bool" where
  "lt_inv t \<longleftrightarrow> smap_wf (lc_awaits (lt_client t)) \<and>
     thr_ok (lc_lastCSeq (lt_client t)) (fst ` set (lc_awaits (lt_client t))) (reports (lt_client t)) (set (lt_failed t)) (lt_calls t)"

lemma nums_simps [simp]:
  "nums [] = []" "nums (p # ps) = (if phase_seq p \<noteq> 0 then [phase_seq p] else []) @ nums ps" "nums (ps @ qs) = nums ps @ nums qs"
  by (simp_all add: nums_def)

lemma drawn_simps [simp]:
  "drawn [] = {}" "drawn (p # ps) = (if is_drawn p then {phase_seq p} else {}) \<union> drawn ps" "drawn (ps @ qs) = drawn ps \<union> drawn qs"
  by (auto simp: drawn_def)

lemma drawn_nums: "\<forall>p \<in> set ps. phase_ok A R F p \<Longrightarrow> drawn ps \<subseteq> set (nums ps)"
proof
  fix i assume ok: "\<forall>p \<in> set ps. phase_ok A R F p" and "i \<in> drawn ps"
  then obtain p where p: "p \<in> set ps" "is_drawn p" "i = phase_seq p" by (auto simp: drawn_def)
  have "phase_ok A R F p" using ok p(1) by blast
  then have "phase_seq p \<noteq> 0" using p(2) by (cases p) simp_all
  then show "i \<in> set (nums ps)" using p by (auto simp: nums_def)
qed






subsection \<open>The invariant\<close>


lemma count_list_distinct: "distinct xs \<Longrightarrow> count_list xs i = of_bool (i \<in> set xs)"
  by (induction xs) auto

lemma reports_took: "took is c c' \<Longrightarrow> reports c' = (\<lambda>i. reports c i + of_bool (i \<in> set is))"
  by (rule ext) (simp add: took_def reports_def count_list_distinct)





subsection \<open>What callers can rely on\<close>


text \<open>A call whose sending failed, and whose request times out before the caller has reported it: it is reported twice.\<close>

lemma failed_call_reported_twice:
  assumes inv: "lt_inv t" and calls: "lt_calls t = [SR_failed seq]"
    and wait: "map_of (lc_awaits (lt_client t)) seq = Some aw" and late: "aw_expiration aw < now"
  shows "\<exists>t'. run_ops (lt_step E) t [T_loop (L_poll now), T_step 0, T_step 0] = Some t' \<and>
     reports (lt_client t') seq = reports (lt_client t) seq + 2"
proof -
  let ?c = "lt_client t"
  have wf: "smap_wf (lc_awaits ?c)" using inv by (simp add: lt_inv_def)
  obtain "is" where i: "took is ?c (lipc_poll now ?c)" using took_poll [OF wf] by blast
  have d: "distinct (map fst (lc_awaits ?c))" by (rule smap_wf_distinct [OF wf])
  have "seq \<notin> fst ` set (lc_awaits (lipc_poll now ?c))"
  proof
    assume "seq \<in> fst ` set (lc_awaits (lipc_poll now ?c))"
    then obtain a where a: "(seq, a) \<in> set (lc_awaits ?c)" "\<not> aw_expiration a < now"
      by (auto simp: lipc_poll_def Let_def fold_done doDisconnect_def OnConnectionClosed_def split: if_splits)
    then have "map_of (lc_awaits ?c) seq = Some a" using d by simp
    then show False using wait late a(2) by simp
  qed
  moreover have "seq \<in> fst ` set (lc_awaits ?c)" using map_of_SomeD [OF wait] by force
  ultimately have "seq \<in> set is" using i by (auto simp: took_def)
  then have "reports (lipc_poll now ?c) seq = reports ?c seq + 1" using reports_took [OF i] by simp
  then show ?thesis
    by (simp add: calls call_step_def sr_report_def sr_erase_def OnRequestDone_def reports_def)
qed



end
