(* ===== verification/Calendar.thy ===== *)
theory Calendar
  imports Std_String
begin

text \<open>
  The functions of the C library that TimeUtil.cpp calls for UTC: \<open>timegm\<close> and \<open>gmtime_r\<close>, for the Gregorian calendar; and the
  formats of numbers with padding. \<open>gmtime_r\<close> searches the year from below, then the month.
\<close>

subsection \<open>Years and months\<close>

text \<open>The fields of \<open>struct tm\<close> that the sources use.\<close>

record tm_time =
  tm_sec :: int
  tm_min :: int
  tm_hour :: int
  tm_mday :: int
  tm_mon :: int
  tm_year :: int

definition leap :: "int \<Rightarrow> bool" where
  "leap y \<longleftrightarrow> y mod 4 = 0 \<and> (y mod 100 \<noteq> 0 \<or> y mod 400 = 0)"

definition year_days :: "int \<Rightarrow> int" where
  "year_days y = (if leap y then 366 else 365)"

text \<open>Days from the first of January 1970 to that of the year.\<close>

definition year_start :: "int \<Rightarrow> int" where
  "year_start y = 365 * (y - 1970) + (y - 1969) div 4 - (y - 1901) div 100 + (y - 1601) div 400"

definition month_days :: "int \<Rightarrow> nat \<Rightarrow> int" where
  "month_days y m = [31, if leap y then 29 else 28, 31, 30, 31, 30, 31, 31, 30, 31, 30, 31] ! m"

definition month_start :: "int \<Rightarrow> nat \<Rightarrow> int" where
  "month_start y m = sum_list (map (month_days y) [0..<m])"

lemma div_next:
  fixes x k :: int
  assumes "0 < k"
  shows "(x + 1) div k = x div k + (if (x + 1) mod k = 0 then 1 else 0)"
proof (cases "(x + 1) mod k = 0")
  case True
  then have "x = k * ((x + 1) div k - 1) + (k - 1)" by (simp add: algebra_simps mod_0_imp_dvd)
  then have "x div k = (x + 1) div k - 1" using assms by (intro int_div_pos_eq [where r = "k - 1"]) auto
  then show ?thesis using True by simp
next
  case False
  have "x + 1 = k * ((x + 1) div k) + (x + 1) mod k" by simp
  then have "x = k * ((x + 1) div k) + ((x + 1) mod k - 1)" by linarith
  moreover have "0 \<le> (x + 1) mod k - 1" "(x + 1) mod k - 1 < k"
    using False assms pos_mod_sign [of k "x + 1"] pos_mod_bound [of k "x + 1"] by linarith+
  ultimately have "x div k = (x + 1) div k" using assms by (intro int_div_pos_eq)
  then show ?thesis using False by simp
qed

lemma mod_0_divisor:
  fixes y a b :: int
  assumes "y mod a = 0" and "b dvd a"
  shows "y mod b = 0"
  using dvd_trans [OF assms(2) mod_0_imp_dvd [OF assms(1)]] by (rule dvd_imp_mod_0)

lemma year_start_next: "year_start (y + 1) = year_start y + year_days y"
proof -
  have d: "(100 :: int) dvd 400" "(4 :: int) dvd 100" by simp_all
  have e: "y + 1 - 1969 = y - 1969 + 1" "y + 1 - 1901 = y - 1901 + 1" "y + 1 - 1601 = y - 1601 + 1" by simp_all
  have "y - 1969 + 1 = y + (- 492) * 4" "y - 1901 + 1 = y + (- 19) * 100" "y - 1601 + 1 = y + (- 4) * 400" by simp_all
  then have m: "(y - 1969 + 1) mod 4 = y mod 4" "(y - 1901 + 1) mod 100 = y mod 100" "(y - 1601 + 1) mod 400 = y mod 400"
    by (simp_all only: mod_mult_self1)
  have dv: "(y + 1 - 1969) div 4 = (y - 1969) div 4 + (if y mod 4 = 0 then 1 else 0)"
    "(y + 1 - 1901) div 100 = (y - 1901) div 100 + (if y mod 100 = 0 then 1 else 0)"
    "(y + 1 - 1601) div 400 = (y - 1601) div 400 + (if y mod 400 = 0 then 1 else 0)"
    unfolding e by (simp_all only: div_next [OF zero_less_numeral] m)
  have sum: "365 * (y + 1 - 1970) + (A + (if p then 1 else 0)) - (B + (if q then 1 else 0)) + (C + (if r then 1 else 0)) =
      365 * (y - 1970) + A - B + C + (if p \<and> (\<not> q \<or> r) then 366 else 365)" if "r \<Longrightarrow> q" "q \<Longrightarrow> p" for A B C :: int and p q r
    using that by (cases p; cases q; cases r) simp_all
  show ?thesis unfolding year_start_def year_days_def leap_def dv
    by (rule sum) (erule mod_0_divisor [OF _ d(1)] mod_0_divisor [OF _ d(2)])+
qed

lemma year_days_pos: "0 < year_days y" by (simp add: year_days_def)

function year_from :: "int \<Rightarrow> int \<Rightarrow> int" where
  "year_from y d = (if d < year_start (y + 1) then y else year_from (y + 1) d)"
  by auto

termination
proof (relation "measure (\<lambda>(y, d). nat (d - year_start y))", goal_cases)
  case (2 y d)
  then show ?case using year_start_next [of y] year_days_pos [of y] by simp
qed simp

declare year_from.simps [simp del]

function month_from :: "int \<Rightarrow> nat \<Rightarrow> int \<Rightarrow> nat \<times> int" where
  "month_from y m r = (if m \<ge> 11 \<or> r < month_days y m then (m, r) else month_from y (m + 1) (r - month_days y m))"
  by auto

termination by (relation "measure (\<lambda>(y, m, r). 11 - m)") auto

declare month_from.simps [simp del]

subsection \<open>The conversions\<close>

definition timegm :: "tm_time \<Rightarrow> int" where
  "timegm t =
     (let y = tm_year t + 1900 + tm_mon t div 12; m = nat (tm_mon t mod 12);
          days = year_start y + month_start y m + tm_mday t - 1
      in ((days * 24 + tm_hour t) * 60 + tm_min t) * 60 + tm_sec t)"

definition gmtime :: "int \<Rightarrow> tm_time" where
  "gmtime t =
     (let d = t div 86400; s = t mod 86400;
          y = year_from (1970 + (if d < 0 then d div 365 else d div 366)) d;
          (m, r) = month_from y 0 (d - year_start y)
      in \<lparr>tm_sec = s mod 60, tm_min = s div 60 mod 60, tm_hour = s div 3600, tm_mday = r + 1, tm_mon = int m, tm_year = y - 1900\<rparr>)"

lemma year_from_bounds: "year_start y \<le> d \<Longrightarrow> year_start (year_from y d) \<le> d \<and> d < year_start (year_from y d + 1) \<and> y \<le> year_from y d"
proof (induction y d rule: year_from.induct)
  case (1 y d)
  then show ?case by (cases "d < year_start (y + 1)") (simp_all add: year_from.simps [of y d])
qed

lemma year_start_guess:
  "0 \<le> d \<Longrightarrow> year_start (1970 + d div 366) \<le> d" "d < 0 \<Longrightarrow> year_start (1970 + d div 365) \<le> d"
proof -
  have up: "year_start (1970 + k) \<le> 366 * k" if "0 \<le> k" for k
    using that
  proof (induction k rule: int_ge_induct)
    case base
    show ?case by (simp add: year_start_def)
  next
    case (step k)
    then show ?case using year_start_next [of "1970 + k"] by (simp add: year_days_def add.assoc split: if_splits)
  qed
  have down: "year_start (1970 - k) \<le> - (365 * k)" if "0 \<le> k" for k
    using that
  proof (induction k rule: int_ge_induct)
    case base
    show ?case by (simp add: year_start_def)
  next
    case (step k)
    then show ?case using year_start_next [of "1970 - (k + 1)"] by (simp add: year_days_def split: if_splits)
  qed
  have "366 * (d div 366) \<le> d" "365 * (d div 365) \<le> d" by presburger+
  then show "0 \<le> d \<Longrightarrow> year_start (1970 + d div 366) \<le> d" "d < 0 \<Longrightarrow> year_start (1970 + d div 365) \<le> d"
    using up [of "d div 366"] down [of "- (d div 365)"] by (auto simp: pos_imp_zdiv_nonneg_iff)
qed

lemma month_start_Suc: "month_start y (Suc m) = month_start y m + month_days y m"
  by (simp add: month_start_def)

lemma month_start_12: "month_start y 12 = year_days y"
  by (simp add: month_start_def month_days_def year_days_def upt_conv_Cons)

lemma month_from_bounds:
  assumes "m \<le> 11" and "0 \<le> r" and "month_start y m + r < month_start y 12"
  shows "fst (month_from y m r) \<le> 11 \<and> 0 \<le> snd (month_from y m r) \<and> snd (month_from y m r) < month_days y (fst (month_from y m r)) \<and>
     month_start y (fst (month_from y m r)) + snd (month_from y m r) = month_start y m + r"
  using assms
proof (induction y m r rule: month_from.induct)
  case (1 y m r)
  show ?case
  proof (cases "m \<ge> 11 \<or> r < month_days y m")
    case True
    have "r < month_days y m" if "m = 11"
      using "1.prems"(3) month_start_Suc [of y 11] that by (simp add: numeral_eq_Suc)
    then show ?thesis using True "1.prems" by (auto simp: month_from.simps [of y m r])
  next
    case False
    then show ?thesis using "1.IH" "1.prems" by (simp add: month_from.simps [of y m r] month_start_Suc)
  qed
qed

lemma month_days_le: "m \<le> 11 \<Longrightarrow> month_days y m \<le> 31"
proof -
  assume "m \<le> 11"
  then have "m = 0 \<or> m = 1 \<or> m = 2 \<or> m = 3 \<or> m = 4 \<or> m = 5 \<or> m = 6 \<or> m = 7 \<or> m = 8 \<or> m = 9 \<or> m = 10 \<or> m = 11" by presburger
  then show ?thesis by (elim disjE) (simp_all add: month_days_def)
qed

lemma time_of_day:
  fixes s :: int
  assumes "t = d * 86400 + s"
  shows "((d * 24 + s div 3600) * 60 + s div 60 mod 60) * 60 + s mod 60 = t"
proof -
  define q h m e where "q = s div 60" and "h = s div 3600" and "m = s div 60 mod 60" and "e = s mod 60"
  have "s div 3600 = s div 60 div 60" using zdiv_zmult2_eq [of 60 s 60] by simp
  then have "q = h * 60 + m" "s = q * 60 + e" by (simp_all add: q_def h_def m_def e_def)
  then show ?thesis using assms unfolding h_def [symmetric] m_def [symmetric] e_def [symmetric] by simp
qed

text \<open>The fields of a time are in their ranges, and \<open>timegm\<close> is the inverse of \<open>gmtime\<close>.\<close>

lemma gmtime_parts:
  defines "g t \<equiv> gmtime t"
  shows "0 \<le> tm_sec (g t) \<and> tm_sec (g t) < 60" and "0 \<le> tm_min (g t) \<and> tm_min (g t) < 60" and "0 \<le> tm_hour (g t) \<and> tm_hour (g t) < 24"
    and "1 \<le> tm_mday (g t) \<and> tm_mday (g t) \<le> 31" and "0 \<le> tm_mon (g t) \<and> tm_mon (g t) \<le> 11"
    and "0 \<le> t \<Longrightarrow> 70 \<le> tm_year (g t)" and "timegm (g t) = t"
proof -
  define d where "d = t div 86400"
  define y where "y = year_from (1970 + (if d < 0 then d div 365 else d div 366)) d"
  define m where "m = fst (month_from y 0 (d - year_start y))"
  define r where "r = snd (month_from y 0 (d - year_start y))"
  have g: "g t = \<lparr>tm_sec = t mod 86400 mod 60, tm_min = t mod 86400 div 60 mod 60, tm_hour = t mod 86400 div 3600, tm_mday = r + 1,
      tm_mon = int m, tm_year = y - 1900\<rparr>"
    unfolding g_def gmtime_def Let_def d_def [symmetric] y_def [symmetric] m_def r_def by (simp add: case_prod_beta)
  have yb: "year_start y \<le> d" "d < year_start (y + 1)" "0 \<le> d \<Longrightarrow> 1970 \<le> y"
    using year_from_bounds [of "1970 + (if d < 0 then d div 365 else d div 366)" d] year_start_guess [of d]
    by (auto simp: y_def pos_imp_zdiv_nonneg_iff intro: order_trans [rotated])
  have mb: "m \<le> 11" "0 \<le> r" "r < month_days y m" "month_start y m + r = d - year_start y"
    using month_from_bounds [of 0 "d - year_start y" y] yb(1,2) year_start_next [of y] month_start_12 [of y]
    by (simp_all add: m_def r_def month_start_def)
  have tod: "0 \<le> t mod 86400 div 3600" "t mod 86400 div 3600 < 24"
    using zdiv_mono1 [of "t mod 86400" 86399 3600] by (simp_all add: pos_imp_zdiv_nonneg_iff)
  show "0 \<le> tm_sec (g t) \<and> tm_sec (g t) < 60" "0 \<le> tm_min (g t) \<and> tm_min (g t) < 60" "0 \<le> tm_hour (g t) \<and> tm_hour (g t) < 24"
    using tod by (simp_all add: g)
  show "1 \<le> tm_mday (g t) \<and> tm_mday (g t) \<le> 31" "0 \<le> tm_mon (g t) \<and> tm_mon (g t) \<le> 11"
    using mb month_days_le [of m y] by (simp_all add: g)
  show "0 \<le> t \<Longrightarrow> 70 \<le> tm_year (g t)" using yb(3) by (simp add: g d_def pos_imp_zdiv_nonneg_iff)
  have "((d * 24 + t mod 86400 div 3600) * 60 + t mod 86400 div 60 mod 60) * 60 + t mod 86400 mod 60 = t"
    by (rule time_of_day) (simp add: d_def)
  moreover have "int m div 12 = 0" "int m mod 12 = int m" using mb(1) by simp_all
  moreover have "year_start y + month_start y m + (r + 1) - 1 = d" using mb(4) by simp
  ultimately show "timegm (g t) = t" by (simp only: g timegm_def Let_def tm_time.select_convs add_0_right diff_add_cancel nat_int)
qed

subsection \<open>Padded numbers\<close>

text \<open>\<open>%Nd\<close> and \<open>%0Nd\<close>.\<close>

definition pad_int :: "nat \<Rightarrow> int \<Rightarrow> string" where
  "pad_int w n = replicate (w - length (itoa n)) CHR '' '' @ itoa n"

definition pad_zero :: "nat \<Rightarrow> int \<Rightarrow> string" where
  "pad_zero w n =
     (if n < 0 then CHR ''-'' # replicate (w - length (itoa n)) CHR ''0'' @ nat_dec (nat (- n))
      else replicate (w - length (itoa n)) CHR ''0'' @ itoa n)"

end
