(* ===== verification/Stream_Base64.thy ===== *)
theory Stream_Base64
  imports Crypto_Base64
begin

text \<open>
  The iterator based codec of base64.h, which the serialisers of variants use: \<open>put\<close> and \<open>get\<close>. Masks and shifts of
  bytes are remainders and quotients; the alphabet is that of the other codecs.
\<close>

subsection \<open>Three bytes as four digits\<close>

definition b64_digits :: "nat \<Rightarrow> nat \<Rightarrow> nat \<Rightarrow> nat list" where
  "b64_digits d0 d1 d2 = [d0 div 4, d0 mod 4 * 16 + d1 div 16, d1 mod 16 * 4 + d2 div 64, d2 mod 64]"

text \<open>The setters of \<open>three2four\<close>.\<close>

fun set_b64 :: "nat \<Rightarrow> nat \<Rightarrow> nat \<times> nat \<times> nat \<Rightarrow> nat \<times> nat \<times> nat" where
  "set_b64 0 ch (d0, d1, d2) = (ch mod 64 * 4 + d0 mod 4, d1, d2)"
| "set_b64 (Suc 0) ch (d0, d1, d2) = (d0 div 4 * 4 + ch mod 64 div 16, ch mod 16 * 16 + d1 mod 16, d2)"
| "set_b64 (Suc (Suc 0)) ch (d0, d1, d2) = (d0, d1 div 16 * 16 + ch mod 64 div 4, ch mod 4 * 64 + d2 mod 64)"
| "set_b64 _ ch (d0, d1, d2) = (d0, d1, d2 div 64 * 64 + ch mod 64)"

subsection \<open>Encoding\<close>

text \<open>\<open>n\<close> is \<open>line_octets\<close>. The function object for the end of a line is not used.\<close>

fun b64_put :: "nat \<Rightarrow> string \<Rightarrow> string" where
  "b64_put n [] = []"
| "b64_put n [a] = map digit64 (take 2 (b64_digits (byte a) 0 0)) @ ''==''"
| "b64_put n [a, b] = map digit64 (take 3 (b64_digits (byte a) (byte b) 0)) @ ''=''"
| "b64_put n (a # b # c # s) =
     map digit64 (b64_digits (byte a) (byte b) (byte c)) @
     (if n = 17 then CHR 0x0A # b64_put 0 s else b64_put (n + 1) s)"

subsection \<open>Decoding\<close>

definition EQUAL_CHAR :: int where "EQUAL_CHAR = - 1"
definition UNKNOWN_CHAR :: int where "UNKNOWN_CHAR = - 2"

definition getCharType :: "char \<Rightarrow> int" where
  "getCharType c =
     (if c = CHR ''+'' then 62
      else if c = CHR ''/'' then 63
      else if byte CHR ''A'' \<le> byte c \<and> byte c \<le> byte CHR ''Z'' then int (byte c) - int (byte CHR ''A'')
      else if byte CHR ''a'' \<le> byte c \<and> byte c \<le> byte CHR ''z'' then int (byte c) - int (byte CHR ''a'') + 26
      else if byte CHR ''0'' \<le> byte c \<and> byte c \<le> byte CHR ''9'' then int (byte c) - int (byte CHR ''0'') + 52
      else if c = CHR ''='' then EQUAL_CHAR
      else UNKNOWN_CHAR)"

text \<open>The search for the next valid character.\<close>

definition next_valid :: "string \<Rightarrow> string" where
  "next_valid s = dropWhile (\<lambda>c. getCharType c = UNKNOWN_CHAR) s"

lemma next_valid_length: "next_valid s = c # t \<Longrightarrow> length t < length s"
  using length_dropWhile_le [of "\<lambda>c. getCharType c = UNKNOWN_CHAR" s] by (simp add: next_valid_def)

datatype b64_state = B64_good | B64_eof | B64_fail | B64_fail_eof

text \<open>The bytes written, the bits added to the state, and what follows the returned position.\<close>

function b64_get :: "string \<Rightarrow> string \<times> b64_state \<times> string" where
  "b64_get s =
     (if s = [] then ([], B64_good, [])
      else case next_valid s of
        [] \<Rightarrow> ([], B64_fail_eof, [])
      | c0 # s0 \<Rightarrow>
          if getCharType c0 = EQUAL_CHAR then ([], B64_fail, c0 # s0)
          else case next_valid s0 of
            [] \<Rightarrow> ([], B64_fail_eof, [])
          | c1 # s1 \<Rightarrow>
              if getCharType c1 = EQUAL_CHAR then ([], B64_fail, c1 # s1)
              else (let d = set_b64 1 (nat (getCharType c1)) (set_b64 0 (nat (getCharType c0)) (0, 0, 0))
                    in case next_valid s1 of
                         [] \<Rightarrow> ([], B64_fail_eof, [])
                       | c2 # s2 \<Rightarrow>
                           if getCharType c2 = EQUAL_CHAR
                           then (let e = set_b64 3 0 (set_b64 2 0 d)
                                 in case s2 of
                                      [] \<Rightarrow> ([uchar (fst e)], B64_eof, [])
                                    | c3 # s3 \<Rightarrow> ([uchar (fst e)], B64_good, if getCharType c3 = EQUAL_CHAR then s3 else s2))
                           else (let e = set_b64 2 (nat (getCharType c2)) d
                                 in case next_valid s2 of
                                      [] \<Rightarrow> ([], B64_eof, [])
                                    | c3 # s3 \<Rightarrow>
                                        if getCharType c3 = EQUAL_CHAR
                                        then (let f = set_b64 3 0 e in ([uchar (fst f), uchar (fst (snd f))], B64_good, s3))
                                        else (let f = set_b64 3 (nat (getCharType c3)) e; r = b64_get s3
                                              in ([uchar (fst f), uchar (fst (snd f)), uchar (snd (snd f))] @ fst r, snd r)))))"
  by pat_completeness auto

termination by (relation "measure length") (auto dest!: next_valid_length)

declare b64_get.simps [simp del]

subsection \<open>Digits\<close>

definition digit_ok :: "nat \<Rightarrow> bool" where
  "digit_ok i \<longleftrightarrow> getCharType (digit64 i) = int i"

lemma getCharType_digit: "i < 64 \<Longrightarrow> getCharType (digit64 i) = int i"
proof -
  assume i: "i < 64"
  have "list_all digit_ok [0..<64]" by code_simp
  then show ?thesis using i by (simp add: list_all_iff digit_ok_def)
qed

lemma next_valid_digit: "i < 64 \<Longrightarrow> next_valid (digit64 i # s) = digit64 i # s"
  by (simp add: next_valid_def getCharType_digit UNKNOWN_CHAR_def)

lemma next_valid_other [simp]:
  "next_valid (CHR ''='' # s) = CHR ''='' # s" "next_valid (CHR 0x0A # s) = next_valid s" "next_valid [] = []"
  by (simp_all add: next_valid_def getCharType_def EQUAL_CHAR_def UNKNOWN_CHAR_def)

lemma getCharType_eq: "getCharType CHR ''='' = EQUAL_CHAR" by (simp add: getCharType_def)

text \<open>Setting the four digits of three bytes gives the bytes back.\<close>

lemma set_digits:
  assumes "d0 < 256" and "d1 < 256" and "d2 < 256"
  defines "e \<equiv> set_b64 2 (d1 mod 16 * 4 + d2 div 64) (set_b64 1 (d0 mod 4 * 16 + d1 div 16) (set_b64 0 (d0 div 4) (0, 0, 0)))"
  shows "set_b64 3 (d2 mod 64) e = (d0, d1, d2)"
proof -
  have lt: "d0 div 4 < 64" "d1 div 16 < 16" "d2 div 64 < 4" using assms(1-3) by (simp_all add: less_mult_imp_div_less)
  have lt2: "d0 mod 4 * 16 + d1 div 16 < 64" "d1 mod 16 * 4 + d2 div 64 < 64"
    using lt mod_less_divisor [of 4 d0] mod_less_divisor [of 16 d1] by linarith+
  have d: "(d0 mod 4 * 16 + d1 div 16) div 16 = d0 mod 4" "(d0 mod 4 * 16 + d1 div 16) mod 16 = d1 div 16"
    "(d1 mod 16 * 4 + d2 div 64) div 4 = d1 mod 16" "(d1 mod 16 * 4 + d2 div 64) mod 4 = d2 div 64"
    using lt by simp_all
  have s3: "set_b64 3 = set_b64 (Suc (Suc (Suc 0)))" and s2: "set_b64 2 = set_b64 (Suc (Suc 0))"
    by (simp_all add: numeral_3_eq_3 numeral_2_eq_2)
  show ?thesis unfolding e_def s3 s2 using lt lt2 d by simp
qed

lemma digits_less:
  fixes d0 d1 d2 :: nat
  assumes "d0 < 256" and "d1 < 256" and "d2 < 256"
  shows "d0 div 4 < 64" and "d0 mod 4 * 16 + d1 div 16 < 64" and "d1 mod 16 * 4 + d2 div 64 < 64" and "d2 mod 64 < 64"
  using obuf_less [OF assms] by (simp_all add: obuf_def)

lemma get_digits:
  fixes a b c :: char
  defines "e \<equiv> set_b64 2 (byte b mod 16 * 4 + byte c div 64) (set_b64 1 (byte a mod 4 * 16 + byte b div 16) (set_b64 0 (byte a div 4) (0, 0, 0)))"
  shows "set_b64 3 (byte c mod 64) e = (byte a, byte b, byte c)"
  unfolding e_def by (rule set_digits) simp_all

lemma uchar_of_byte [simp]: "uchar (byte c) = c"
  using uchar_byte [of 0 c] by simp

lemma int_not_equal: "int k \<noteq> EQUAL_CHAR" by (simp add: EQUAL_CHAR_def)

lemmas get_steps = next_valid_digit getCharType_digit getCharType_eq int_not_equal Let_def

lemma get_four:
  assumes "i < 64" and "j < 64" and "k < 64" and "l < 64"
    and "set_b64 3 l (set_b64 2 k (set_b64 1 j (set_b64 0 i (0, 0, 0)))) = (x, y, z)"
  shows "b64_get (digit64 i # digit64 j # digit64 k # digit64 l # t) = ([uchar x, uchar y, uchar z] @ fst (b64_get t), snd (b64_get t))"
  using assms by (subst b64_get.simps) (simp add: get_steps del: set_b64.simps One_nat_def)

lemma get_three:
  assumes "i < 64" and "j < 64" and "k < 64"
    and "set_b64 3 0 (set_b64 2 k (set_b64 1 j (set_b64 0 i (0, 0, 0)))) = (x, y, z)"
  shows "b64_get [digit64 i, digit64 j, digit64 k, CHR ''=''] = ([uchar x, uchar y], B64_good, [])"
  using assms by (subst b64_get.simps) (simp add: get_steps del: set_b64.simps One_nat_def)

lemma get_two:
  assumes "i < 64" and "j < 64" and "set_b64 3 0 (set_b64 2 0 (set_b64 1 j (set_b64 0 i (0, 0, 0)))) = (x, y, z)"
  shows "b64_get [digit64 i, digit64 j, CHR ''='', CHR ''=''] = ([uchar x], B64_good, [])"
  using assms by (subst b64_get.simps) (simp add: get_steps del: set_b64.simps One_nat_def)

lemma get_group: "b64_get (map digit64 (b64_digits (byte a) (byte b) (byte c)) @ t) = ([a, b, c] @ fst (b64_get t), snd (b64_get t))"
proof -
  note lt = digits_less [of "byte a" "byte b" "byte c", simplified]
  show ?thesis using get_four [OF _ lt(2,3) _ get_digits, of t] lt(1) by (simp add: b64_digits_def)
qed

lemma get_pad2: "b64_get (map digit64 (take 3 (b64_digits (byte a) (byte b) 0)) @ ''='') = ([a, b], B64_good, [])"
proof -
  note lt = digits_less [of "byte a" "byte b" 0, simplified]
  have "set_b64 3 0 (set_b64 2 (byte b mod 16 * 4) (set_b64 1 (byte a mod 4 * 16 + byte b div 16) (set_b64 0 (byte a div 4) (0, 0, 0)))) =
      (byte a, byte b, 0)"
    using get_digits [where a = a and b = b and c = "CHR 0x00"] by (simp del: One_nat_def)
  from get_three [OF _ lt(2) _ this] show ?thesis using lt by (simp add: b64_digits_def)
qed

lemma get_pad1: "b64_get (map digit64 (take 2 (b64_digits (byte a) 0 0)) @ ''=='') = ([a], B64_good, [])"
proof -
  note lt = digits_less [of "byte a" 0 0, simplified]
  have "set_b64 3 0 (set_b64 2 0 (set_b64 1 (byte a mod 4 * 16) (set_b64 0 (byte a div 4) (0, 0, 0)))) = (byte a, 0, 0)"
    using get_digits [where a = a and b = "CHR 0x00" and c = "CHR 0x00"] by (simp del: One_nat_def)
  from get_two [OF _ _ this] show ?thesis using lt by (simp add: b64_digits_def)
qed

lemma get_newline: "b64_get (CHR 0x0A # t) = (if t = [] then ([], B64_fail_eof, []) else b64_get t)"
  by (simp add: b64_get.simps [of "CHR 0x0A # t"] b64_get.simps [of t])

subsection \<open>Round trip\<close>

lemma b64_put_Nil_iff: "b64_put n s = [] \<longleftrightarrow> s = []"
  by (cases "(n, s)" rule: b64_put.cases) (simp_all add: b64_digits_def)

definition ends_line :: "nat \<Rightarrow> string \<Rightarrow> bool" where
  "ends_line n s \<longleftrightarrow> s \<noteq> [] \<and> length s mod 3 = 0 \<and> (n + length s div 3) mod 18 = 0"

lemma get_put: "n \<le> 17 \<Longrightarrow> b64_get (b64_put n s) = (s, if ends_line n s then B64_fail_eof else B64_good, [])"
proof (induction n s rule: b64_put.induct)
  case (1 n)
  then show ?case by (simp add: ends_line_def b64_get.simps)
next
  case (2 n a)
  then show ?case using get_pad1 [of a] by (simp add: ends_line_def)
next
  case (3 n a b)
  then show ?case using get_pad2 [of a b] by (simp add: ends_line_def)
next
  case (4 n a b c s)
  have e: "ends_line n (a # b # c # s) \<longleftrightarrow> (if n = 17 then s = [] \<or> ends_line 0 s else ends_line (n + 1) s)"
    using "4.prems" by (cases "s = []") (auto simp: ends_line_def mod_Suc)
  show ?case
  proof (cases "n = 17")
    case True
    have "b64_get (CHR 0x0A # b64_put 0 s) = (s, if s = [] \<or> ends_line 0 s then B64_fail_eof else B64_good, [])"
      using "4.IH"(1) [OF True] by (simp add: get_newline b64_put_Nil_iff)
    then show ?thesis using True by (simp only: b64_put.simps get_group) (simp add: e [unfolded True])
  next
    case False
    have "b64_get (b64_put (n + 1) s) = (s, if ends_line (n + 1) s then B64_fail_eof else B64_good, [])"
      using "4.IH"(2) [OF False] "4.prems" False by simp
    then show ?thesis using False by (simp only: b64_put.simps get_group e) simp
  qed
qed

text \<open>
  C39. What \<open>put\<close> writes, lines and padding included, \<open>get\<close> reads back whole; but the state says that reading failed
  exactly when the data fill whole lines: the line end behind the last line is taken for the start of one more group.
\<close>

theorem get_put_roundtrip:
  "b64_get (b64_put 0 s) = (s, if s \<noteq> [] \<and> length s mod 54 = 0 then B64_fail_eof else B64_good, [])"
proof -
  have "length s mod 54 = 0 \<longleftrightarrow> length s mod 3 = 0 \<and> length s div 3 mod 18 = 0"
    using mod_mult2_eq [of "length s" 3 18] by auto
  then show ?thesis using get_put [of 0 s] by (auto simp: ends_line_def)
qed

text \<open>Three digits without padding at the end are dropped, though the state does not say that reading failed.\<close>

lemma unpadded_group_is_lost: "b64_get ''TWE'' = ([], B64_eof, [])"
  by code_simp

end
