(* ===== verification/Variant_Model.thy ===== *)
theory Variant_Model
  imports Std_Map Calendar Stream_Base64
begin

unbundle bit_operations_syntax

text \<open>
  The class \<open>Variant\<close> of Variant.h and Variant.cpp: a value of one of sixteen types, arrays and structures included. The
  tag and the union are one datatype; a structure is the list of its members in the order of their keys. Copies are deep,
  so that values are enough; assigning to a variant a part of itself, which reads deleted memory, is outside the model.
  A \<open>double\<close> is its 64 bits; its text is an argument where it is needed. \<open>long\<close> has 64 bits, as on Linux.
\<close>

subsection \<open>Values and types\<close>

datatype vtype =
    T_NIL | T_BOOL | T_BYTE | T_SHORT | T_USHORT | T_INT | T_LONG | T_ULONG | T_DOUBLE | T_LONGLONG | T_ULONGLONG
  | T_STRING | T_TIME | T_BASE64 | T_ARRAY | T_STRUCT

datatype variant =
    V_nil
  | V_bool bool
  | V_byte uint8
  | V_short uint16
  | V_ushort uint16
  | V_int uint32
  | V_long uint64
  | V_ulong uint64
  | V_double uint64
  | V_longlong uint64
  | V_ulonglong uint64
  | V_string string
  | V_time tm_time
  | V_binary string
  | V_array "variant list"
  | V_struct "(string \<times> variant) list"

fun vtype_of :: "variant \<Rightarrow> vtype" where
  "vtype_of V_nil = T_NIL"
| "vtype_of (V_bool _) = T_BOOL"
| "vtype_of (V_byte _) = T_BYTE"
| "vtype_of (V_short _) = T_SHORT"
| "vtype_of (V_ushort _) = T_USHORT"
| "vtype_of (V_int _) = T_INT"
| "vtype_of (V_long _) = T_LONG"
| "vtype_of (V_ulong _) = T_ULONG"
| "vtype_of (V_double _) = T_DOUBLE"
| "vtype_of (V_longlong _) = T_LONGLONG"
| "vtype_of (V_ulonglong _) = T_ULONGLONG"
| "vtype_of (V_string _) = T_STRING"
| "vtype_of (V_time _) = T_TIME"
| "vtype_of (V_binary _) = T_BASE64"
| "vtype_of (V_array _) = T_ARRAY"
| "vtype_of (V_struct _) = T_STRUCT"

text \<open>\<open>Typename\<close> of a number; \<open>None\<close> reads outside of the table.\<close>

definition Typename :: "int \<Rightarrow> string option" where
  "Typename t = (if t < 0 \<or> t > 16 then None else Some ''unknown'')"

subsection \<open>Results\<close>

text \<open>
  What an operation on a variant comes to: a result, or an exception; both with the variant as it is then. The last is an
  exception that leaves the object marked as an array without a vector.
\<close>

datatype vexc = Variant_error | Length_error | Out_of_range

datatype 'a vresult =
    V_ret 'a variant
  | V_throw vexc variant
  | V_wreck vexc

fun vbind :: "'a vresult \<Rightarrow> ('a \<Rightarrow> variant \<Rightarrow> 'b vresult) \<Rightarrow> 'b vresult" where
  "vbind (V_ret a v) f = f a v"
| "vbind (V_throw e v) f = V_throw e v"
| "vbind (V_wreck e) f = V_wreck e"

subsection \<open>Checks of the type\<close>

definition tm_zero :: tm_time where
  "tm_zero = \<lparr>tm_sec = 0, tm_min = 0, tm_hour = 0, tm_mday = 0, tm_mon = 0, tm_year = 0\<rparr>"

fun zero_of :: "vtype \<Rightarrow> variant" where
  "zero_of T_NIL = V_nil"
| "zero_of T_BOOL = V_bool False"
| "zero_of T_BYTE = V_byte 0"
| "zero_of T_SHORT = V_short 0"
| "zero_of T_USHORT = V_ushort 0"
| "zero_of T_INT = V_int 0"
| "zero_of T_LONG = V_long 0"
| "zero_of T_ULONG = V_ulong 0"
| "zero_of T_DOUBLE = V_double 0"
| "zero_of T_LONGLONG = V_longlong 0"
| "zero_of T_ULONGLONG = V_ulonglong 0"
| "zero_of T_STRING = V_string []"
| "zero_of T_TIME = V_time tm_zero"
| "zero_of T_BASE64 = V_binary []"
| "zero_of T_ARRAY = V_array []"
| "zero_of T_STRUCT = V_struct []"

definition assertTypeOrInvalid :: "vtype \<Rightarrow> variant \<Rightarrow> unit vresult" where
  "assertTypeOrInvalid t v =
     (if v = V_nil then V_ret () (zero_of t) else if vtype_of v \<noteq> t then V_throw Variant_error v else V_ret () v)"

definition assertArray :: "int \<Rightarrow> variant \<Rightarrow> unit vresult" where
  "assertArray n v =
     (case v of
        V_nil \<Rightarrow> if n < 0 then V_wreck Length_error else V_ret () (V_array (replicate (nat n) V_nil))
      | V_array xs \<Rightarrow> V_ret () (if int (length xs) < n then V_array (xs @ replicate (nat n - length xs) V_nil) else v)
      | _ \<Rightarrow> V_throw Variant_error v)"

definition assertStruct :: "variant \<Rightarrow> unit vresult" where
  "assertStruct v =
     (case v of V_nil \<Rightarrow> V_ret () (V_struct []) | V_struct _ \<Rightarrow> V_ret () v | _ \<Rightarrow> V_throw Variant_error v)"

text \<open>The conversion operators, e.g. to \<open>int&\<close>: the value of a variant that has the type then.\<close>

definition variant_as_int :: "variant \<Rightarrow> uint32 vresult" where
  "variant_as_int v = vbind (assertTypeOrInvalid T_INT v) (\<lambda>_ v1. V_ret (case v1 of V_int n \<Rightarrow> n | _ \<Rightarrow> 0) v1)"

definition variant_as_bool :: "variant \<Rightarrow> bool vresult" where
  "variant_as_bool v = vbind (assertTypeOrInvalid T_BOOL v) (\<lambda>_ v1. V_ret (case v1 of V_bool b \<Rightarrow> b | _ \<Rightarrow> False) v1)"

definition variant_as_string :: "variant \<Rightarrow> string vresult" where
  "variant_as_string v = vbind (assertTypeOrInvalid T_STRING v) (\<lambda>_ v1. V_ret (case v1 of V_string s \<Rightarrow> s | _ \<Rightarrow> []) v1)"

definition variant_as_binary :: "variant \<Rightarrow> string vresult" where
  "variant_as_binary v = vbind (assertTypeOrInvalid T_BASE64 v) (\<lambda>_ v1. V_ret (case v1 of V_binary s \<Rightarrow> s | _ \<Rightarrow> []) v1)"

definition variant_clear :: "variant \<Rightarrow> variant" where
  "variant_clear v = V_nil"

subsection \<open>Arrays and structures\<close>

definition elements :: "variant \<Rightarrow> variant list" where
  "elements v = (case v of V_array xs \<Rightarrow> xs | _ \<Rightarrow> [])"

definition members :: "variant \<Rightarrow> (string \<times> variant) list" where
  "members v = (case v of V_struct m \<Rightarrow> m | _ \<Rightarrow> [])"

text \<open>The element that \<open>operator[]\<close> refers to.\<close>

definition index_ref :: "int \<Rightarrow> variant \<Rightarrow> variant vresult" where
  "index_ref i v = vbind (assertArray (i + 1) v)
     (\<lambda>_ v1. if 0 \<le> i \<and> i < int (length (elements v1)) then V_ret (elements v1 ! nat i) v1 else V_throw Out_of_range v1)"

definition set_index :: "int \<Rightarrow> variant \<Rightarrow> variant \<Rightarrow> unit vresult" where
  "set_index i x v = vbind (assertArray (i + 1) v)
     (\<lambda>_ v1. if 0 \<le> i \<and> i < int (length (elements v1)) then V_ret () (V_array ((elements v1)[nat i := x])) else V_throw Out_of_range v1)"

definition key_ref :: "string \<Rightarrow> variant \<Rightarrow> variant vresult" where
  "key_ref k v = vbind (assertStruct v)
     (\<lambda>_ v1. case map_of (members v1) k of
               Some x \<Rightarrow> V_ret x v1
             | None \<Rightarrow> V_ret V_nil (V_struct (smap_set k V_nil (members v1))))"

definition set_key :: "string \<Rightarrow> variant \<Rightarrow> variant \<Rightarrow> unit vresult" where
  "set_key k x v = vbind (assertStruct v) (\<lambda>_ v1. V_ret () (V_struct (smap_set k x (members v1))))"

fun variant_size :: "variant \<Rightarrow> nat option" where
  "variant_size (V_string s) = Some (length s)"
| "variant_size (V_binary s) = Some (length s)"
| "variant_size (V_array xs) = Some (length xs)"
| "variant_size (V_struct m) = Some (length m)"
| "variant_size V_nil = Some 0"
| "variant_size _ = None"

definition variant_key :: "int \<Rightarrow> variant \<Rightarrow> string vresult" where
  "variant_key i v = vbind (assertStruct v)
     (\<lambda>_ v1. V_ret (if i < 0 \<or> i \<ge> int (length (members v1)) then [] else fst (members v1 ! nat i)) v1)"

definition variant_has :: "string \<Rightarrow> variant \<Rightarrow> bool" where
  "variant_has k v \<longleftrightarrow> map_of (members v) k \<noteq> None"

subsection \<open>Quadwords\<close>

text \<open>\<open>(int) var[k]\<close>: the member becomes an \<open>int\<close> when it has no value yet.\<close>

definition member_int :: "string \<Rightarrow> variant \<Rightarrow> uint32 vresult" where
  "member_int k v = vbind (key_ref k v)
     (\<lambda>x v1. case variant_as_int x of
               V_ret n y \<Rightarrow> V_ret n (V_struct (smap_set k y (members v1)))
             | V_throw e _ \<Rightarrow> V_throw e v1
             | V_wreck e \<Rightarrow> V_throw e v1)"

text \<open>What a member contributes to the number; an exception is swallowed. The condition is the same for both halves.\<close>

definition quad_part :: "string \<Rightarrow> string \<Rightarrow> variant \<Rightarrow> uint64 \<times> variant" where
  "quad_part k part v =
     (if variant_has (k @ ''.hdw'') v
      then (case member_int (k @ part) v of V_ret n v1 \<Rightarrow> (scast n, v1) | V_throw _ v1 \<Rightarrow> (0, v1) | V_wreck _ \<Rightarrow> (0, v))
      else (0, v))"

text \<open>The number is \<open>None\<close> when the operation reports \<open>false\<close>. A null key is \<open>None\<close>.\<close>

definition getQuadword :: "string option \<Rightarrow> variant \<Rightarrow> uint64 option \<times> variant" where
  "getQuadword key v =
     (case key of
        None \<Rightarrow> (None, v)
      | Some k \<Rightarrow>
          if vtype_of v \<noteq> T_STRUCT then (None, v)
          else (case quad_part k ''.hdw'' v of
                  (h, v1) \<Rightarrow> (case quad_part k ''.ldw'' v1 of (l, v2) \<Rightarrow> (Some (push_bit 32 h OR l), v2))))"

definition setQuadword :: "string option \<Rightarrow> uint64 \<Rightarrow> variant \<Rightarrow> bool \<times> variant" where
  "setQuadword key i v =
     (case key of
        None \<Rightarrow> (False, v)
      | Some k \<Rightarrow>
          if vtype_of v \<noteq> T_STRUCT then (False, v)
          else (case vbind (set_key (k @ ''.ldw'') (V_int (ucast (i AND 0xffffffff))) v)
                       (\<lambda>_ v1. set_key (k @ ''.hdw'') (V_int (ucast (push_bit 32 i))) v1) of
                  V_ret _ v2 \<Rightarrow> (True, v2) | V_throw _ v2 \<Rightarrow> (True, v2) | V_wreck _ \<Rightarrow> (True, v)))"

subsection \<open>Comparison\<close>

text \<open>Equality of two \<open>double\<close> values: a NaN differs from everything, the two zeros are equal.\<close>

definition is_nan :: "uint64 \<Rightarrow> bool" where
  "is_nan d \<longleftrightarrow> d AND 0x7FF0000000000000 = 0x7FF0000000000000 \<and> d AND 0x000FFFFFFFFFFFFF \<noteq> 0"

definition is_zero :: "uint64 \<Rightarrow> bool" where
  "is_zero d \<longleftrightarrow> d AND 0x7FFFFFFFFFFFFFFF = 0"

definition double_eq :: "uint64 \<Rightarrow> uint64 \<Rightarrow> bool" where
  "double_eq d e \<longleftrightarrow> \<not> is_nan d \<and> \<not> is_nan e \<and> (d = e \<or> is_zero d \<and> is_zero e)"

text \<open>The predicate compares the day of the first time with itself.\<close>

definition tmEq :: "tm_time \<Rightarrow> tm_time \<Rightarrow> bool" where
  "tmEq t1 t2 \<longleftrightarrow> tm_sec t1 = tm_sec t2 \<and> tm_min t1 = tm_min t2 \<and> tm_hour t1 = tm_hour t2 \<and> tm_mday t1 = tm_mday t1 \<and>
     tm_mon t1 = tm_mon t2 \<and> tm_year t1 = tm_year t2"

fun veq :: "variant \<Rightarrow> variant \<Rightarrow> bool"
  and veq_elements :: "variant list \<Rightarrow> variant list \<Rightarrow> bool"
  and veq_members :: "(string \<times> variant) list \<Rightarrow> (string \<times> variant) list \<Rightarrow> bool" where
  "veq V_nil w = (case w of V_nil \<Rightarrow> True | _ \<Rightarrow> False)"
| "veq (V_bool b) w = (case w of V_bool c \<Rightarrow> \<not> b \<and> \<not> c \<or> b \<and> c | _ \<Rightarrow> False)"
| "veq (V_byte b) w = (case w of V_byte c \<Rightarrow> b = c | _ \<Rightarrow> False)"
| "veq (V_short b) w = (case w of V_short c \<Rightarrow> b = c | _ \<Rightarrow> False)"
| "veq (V_ushort b) w = (case w of V_ushort c \<Rightarrow> b = c | _ \<Rightarrow> False)"
| "veq (V_int b) w = (case w of V_int c \<Rightarrow> b = c | _ \<Rightarrow> False)"
| "veq (V_long b) w = (case w of V_long c \<Rightarrow> b = c | _ \<Rightarrow> False)"
| "veq (V_ulong b) w = (case w of V_ulong c \<Rightarrow> b = c | _ \<Rightarrow> False)"
| "veq (V_double b) w = (case w of V_double c \<Rightarrow> double_eq b c | _ \<Rightarrow> False)"
| "veq (V_longlong b) w = (case w of V_longlong c \<Rightarrow> b = c | _ \<Rightarrow> False)"
| "veq (V_ulonglong b) w = (case w of V_ulonglong c \<Rightarrow> b = c | _ \<Rightarrow> False)"
| "veq (V_string b) w = (case w of V_string c \<Rightarrow> b = c | _ \<Rightarrow> False)"
| "veq (V_time b) w = (case w of V_time c \<Rightarrow> tmEq b c | _ \<Rightarrow> False)"
| "veq (V_binary b) w = (case w of V_binary c \<Rightarrow> b = c | _ \<Rightarrow> False)"
| "veq (V_array xs) w = (case w of V_array ys \<Rightarrow> length xs = length ys \<and> veq_elements xs ys | _ \<Rightarrow> False)"
| "veq (V_struct ms) w = (case w of V_struct ns \<Rightarrow> length ms = length ns \<and> veq_members ms ns | _ \<Rightarrow> False)"
| "veq_elements [] ys = True"
| "veq_elements (x # xs) ys = (case ys of [] \<Rightarrow> False | y # ys' \<Rightarrow> veq x y \<and> veq_elements xs ys')"
| "veq_members [] ns = True"
| "veq_members (p # ms) ns = (case ns of [] \<Rightarrow> False | q # ns' \<Rightarrow> veq (snd p) (snd q) \<and> veq_members ms ns')"

subsection \<open>Text\<close>

definition escape_quotes :: "string \<Rightarrow> string" where
  "escape_quotes s = concat (map (\<lambda>c. if c = CHR 0x22 then [CHR 0x5C, CHR 0x22] else [c]) s)"

text \<open>
  \<open>dbl\<close> is the text of a \<open>double\<close>. The text of a time is \<open>None\<close>: \<open>printf\<close> gets the buffer that is not initialised for the
  format. Members are visited by \<open>key(i)\<close>, in their order.
\<close>

fun serializeEx :: "(uint64 \<Rightarrow> string) \<Rightarrow> variant \<Rightarrow> string option"
  and serialize_elements :: "(uint64 \<Rightarrow> string) \<Rightarrow> bool \<Rightarrow> variant list \<Rightarrow> string option"
  and serialize_members :: "(uint64 \<Rightarrow> string) \<Rightarrow> bool \<Rightarrow> (string \<times> variant) list \<Rightarrow> string option" where
  "serializeEx dbl V_nil = Some ''NIL''"
| "serializeEx dbl (V_bool b) = Some (if b then ''true'' else ''false'')"
| "serializeEx dbl (V_byte b) = Some [char_of (unat b)]"
| "serializeEx dbl (V_short n) = Some (itoa (sint n))"
| "serializeEx dbl (V_ushort n) = Some (itoa (uint n))"
| "serializeEx dbl (V_int n) = Some (itoa (sint n))"
| "serializeEx dbl (V_long n) = Some (itoa (sint n))"
| "serializeEx dbl (V_ulong n) = Some (itoa (uint n))"
| "serializeEx dbl (V_double d) = Some (dbl d)"
| "serializeEx dbl (V_longlong n) = Some (itoa (sint n))"
| "serializeEx dbl (V_ulonglong n) = Some (itoa (uint n))"
| "serializeEx dbl (V_time t) = None"
| "serializeEx dbl (V_string s) = Some ([CHR 0x22] @ escape_quotes s @ [CHR 0x22])"
| "serializeEx dbl (V_binary s) = Some (''['' @ b64_put 0 s @ '']'')"
| "serializeEx dbl (V_array xs) = map_option (\<lambda>t. ''{'' @ t @ ''}'') (serialize_elements dbl True xs)"
| "serializeEx dbl (V_struct ms) = map_option (\<lambda>t. ''{'' @ t @ ''}'') (serialize_members dbl True ms)"
| "serialize_elements dbl first [] = Some []"
| "serialize_elements dbl first (x # xs) =
     (case serializeEx dbl x of
        None \<Rightarrow> None
      | Some t \<Rightarrow> map_option (\<lambda>r. (if first then [] else '', '') @ t @ r) (serialize_elements dbl False xs))"
| "serialize_members dbl first [] = Some []"
| "serialize_members dbl first (p # ms) =
     (case serializeEx dbl (snd p) of
        None \<Rightarrow> None
      | Some t \<Rightarrow> map_option (\<lambda>r. (if first then [] else '', '') @ fst p @ ''='' @ t @ r) (serialize_members dbl False ms))"

end
