(* ===== verification/Variant_Props.thy ===== *)
theory Variant_Props
  imports Variant_Model
begin

text \<open>
  Properties of variants: what is well formed, chains of \<open>operator[]\<close> as paths, quadwords, what comparison distinguishes, and
  the text.
\<close>

subsection \<open>Well-formed variants\<close>

fun variant_wf :: "variant \<Rightarrow> bool"
  and elements_wf :: "variant list \<Rightarrow> bool"
  and members_wf :: "(string \<times> variant) list \<Rightarrow> bool" where
  "variant_wf (V_array xs) = elements_wf xs"
| "variant_wf (V_struct ms) = (smap_wf ms \<and> members_wf ms)"
| "variant_wf _ = True"
| "elements_wf [] = True"
| "elements_wf (x # xs) = (variant_wf x \<and> elements_wf xs)"
| "members_wf [] = True"
| "members_wf (p # ms) = (variant_wf (snd p) \<and> members_wf ms)"

lemma elements_wf_iff: "elements_wf xs \<longleftrightarrow> (\<forall>x \<in> set xs. variant_wf x)"
  by (induction xs) simp_all

lemma members_wf_iff: "members_wf ms \<longleftrightarrow> (\<forall>p \<in> set ms. variant_wf (snd p))"
  by (induction ms) simp_all

lemma members_wf_set [wf_intros]: "members_wf ms \<Longrightarrow> variant_wf x \<Longrightarrow> members_wf (smap_set k x ms)"
  by (induction k x ms rule: smap_set.induct) auto

lemma elements_wf_update [wf_intros]: "elements_wf xs \<Longrightarrow> variant_wf x \<Longrightarrow> elements_wf (xs[i := x])"
  by (auto simp: elements_wf_iff dest: set_update_subset_insert [THEN subsetD])

lemma members_wf_lookup: "members_wf ms \<Longrightarrow> map_of ms k = Some x \<Longrightarrow> variant_wf x"
  by (force simp: members_wf_iff dest: map_of_SomeD)

text \<open>The variant that an operation leaves, and a property of it and the result.\<close>

fun vresult_ok :: "('a \<Rightarrow> bool) \<Rightarrow> 'a vresult \<Rightarrow> bool" where
  "vresult_ok P (V_ret a v) = (P a \<and> variant_wf v)"
| "vresult_ok P (V_throw e v) = variant_wf v"
| "vresult_ok P (V_wreck e) = True"

lemma vbind_ok:
  "vresult_ok P r \<Longrightarrow> (\<And>a v. P a \<Longrightarrow> variant_wf v \<Longrightarrow> vresult_ok Q (f a v)) \<Longrightarrow> vresult_ok Q (vbind r f)"
  by (cases r) simp_all

lemma assert_ok:
  assumes "variant_wf v"
  shows "vresult_ok (\<lambda>_. True) (assertTypeOrInvalid t v)" and "vresult_ok (\<lambda>_. True) (assertArray n v)"
    and "vresult_ok (\<lambda>_. True) (assertStruct v)"
proof -
  show "vresult_ok (\<lambda>_. True) (assertTypeOrInvalid t v)" using assms by (cases t) (simp_all add: assertTypeOrInvalid_def)
  show "vresult_ok (\<lambda>_. True) (assertArray n v)" using assms by (cases v) (simp_all add: assertArray_def elements_wf_iff)
  show "vresult_ok (\<lambda>_. True) (assertStruct v)" using assms by (cases v) (simp_all add: assertStruct_def)
qed

lemma parts_wf:
  "variant_wf v \<Longrightarrow> elements_wf (elements v)" "variant_wf v \<Longrightarrow> smap_wf (members v) \<and> members_wf (members v)"
  by (cases v; simp add: elements_def members_def)+

lemma access_ok:
  assumes "variant_wf v"
  shows "vresult_ok variant_wf (index_ref i v)" and "vresult_ok variant_wf (key_ref k v)" and "vresult_ok (\<lambda>_. True) (variant_key i v)"
proof -
  show "vresult_ok variant_wf (index_ref i v)"
    unfolding index_ref_def
    by (rule vbind_ok [OF assert_ok(2) [OF assms]]) (use parts_wf(1) in \<open>auto simp: elements_wf_iff\<close>)
  show "vresult_ok variant_wf (key_ref k v)"
    unfolding key_ref_def
  proof (rule vbind_ok [OF assert_ok(3) [OF assms]])
    fix a w assume "variant_wf w"
    from parts_wf(2) [OF this] show "vresult_ok variant_wf
        (case map_of (members w) k of None \<Rightarrow> V_ret V_nil (V_struct (smap_set k V_nil (members w))) | Some x \<Rightarrow> V_ret x w)"
      using \<open>variant_wf w\<close> by (auto simp: wf_intros dest: members_wf_lookup split: option.split)
  qed
  show "vresult_ok (\<lambda>_. True) (variant_key i v)"
    unfolding variant_key_def by (rule vbind_ok [OF assert_ok(3) [OF assms]]) simp
qed

lemma set_ok:
  assumes "variant_wf v" and "variant_wf x"
  shows "vresult_ok (\<lambda>_. True) (set_index i x v)" and "vresult_ok (\<lambda>_. True) (set_key k x v)"
proof -
  show "vresult_ok (\<lambda>_. True) (set_index i x v)"
    unfolding set_index_def
    by (rule vbind_ok [OF assert_ok(2) [OF assms(1)]]) (use parts_wf(1) assms(2) in \<open>simp add: wf_intros\<close>)
  show "vresult_ok (\<lambda>_. True) (set_key k x v)"
    unfolding set_key_def
    by (rule vbind_ok [OF assert_ok(3) [OF assms(1)]]) (use parts_wf(2) assms(2) in \<open>simp add: wf_intros\<close>)
qed

subsection \<open>Paths\<close>

text \<open>
  An expression such as \<open>var[k1][i2][k3]\<close>, read or assigned to. Every \<open>operator[]\<close> works in place on the element of the one
  before, so that what an inner operation leaves, exception or not, is put back.
\<close>

datatype vstep = At int | Key string

fun step_ref :: "vstep \<Rightarrow> variant \<Rightarrow> variant vresult" where
  "step_ref (At i) v = index_ref i v"
| "step_ref (Key k) v = key_ref k v"

fun step_put :: "vstep \<Rightarrow> variant \<Rightarrow> variant \<Rightarrow> variant" where
  "step_put (At i) x v = V_array ((elements v)[nat i := x])"
| "step_put (Key k) x v = V_struct (smap_set k x (members v))"

fun put_back :: "vstep \<Rightarrow> variant \<Rightarrow> 'a vresult \<Rightarrow> 'a vresult" where
  "put_back p v (V_ret a x) = V_ret a (step_put p x v)"
| "put_back p v (V_throw e x) = V_throw e (step_put p x v)"
| "put_back p v (V_wreck e) = V_wreck e"

fun path_get :: "vstep list \<Rightarrow> variant \<Rightarrow> variant vresult" where
  "path_get [] v = V_ret v v"
| "path_get (p # ps) v = vbind (step_ref p v) (\<lambda>x v1. put_back p v1 (path_get ps x))"

fun path_set :: "vstep list \<Rightarrow> variant \<Rightarrow> variant \<Rightarrow> unit vresult" where
  "path_set [] y v = V_ret () y"
| "path_set (p # ps) y v = vbind (step_ref p v) (\<lambda>x v1. put_back p v1 (path_set ps y x))"

lemma vbind_ret: "vbind r f = V_ret a v \<longleftrightarrow> (\<exists>b w. r = V_ret b w \<and> f b w = V_ret a v)"
  by (cases r) simp_all

lemma put_back_ret: "put_back p v r = V_ret a w \<longleftrightarrow> (\<exists>x. r = V_ret a x \<and> w = step_put p x v)"
  by (cases r) auto

lemma smap_set_same: "smap_set k x (smap_set k y m) = smap_set k x m"
  by (induction k y m rule: smap_set.induct) simp_all

lemma assertArray_ret:
  "assertArray n v = V_ret u w \<longleftrightarrow>
     (v = V_nil \<and> 0 \<le> n \<or> (\<exists>xs. v = V_array xs)) \<and> w = V_array (elements v @ replicate (nat n - length (elements v)) V_nil)"
  by (cases v) (auto simp: assertArray_def elements_def)

lemma assertStruct_ret:
  "assertStruct v = V_ret u w \<longleftrightarrow> (v = V_nil \<or> (\<exists>m. v = V_struct m)) \<and> w = V_struct (members v)"
  by (cases v) (auto simp: assertStruct_def members_def)

lemma elements_array [simp]: "elements (V_array xs) = xs" "elements V_nil = []" by (simp_all add: elements_def)
lemma members_struct [simp]: "members (V_struct m) = m" "members V_nil = []" by (simp_all add: members_def)

text \<open>An element of an array as it is after growing, and a member of a structure that may be absent.\<close>

definition nth_or_nil :: "variant list \<Rightarrow> nat \<Rightarrow> variant" where
  "nth_or_nil xs i = (if i < length xs then xs ! i else V_nil)"

definition lookup_or_nil :: "(string \<times> variant) list \<Rightarrow> string \<Rightarrow> variant" where
  "lookup_or_nil m k = (case map_of m k of None \<Rightarrow> V_nil | Some x \<Rightarrow> x)"

lemma nth_or_nil_grown:
  "i \<noteq> j \<Longrightarrow> nth_or_nil ((xs @ replicate n V_nil)[i := y]) j = nth_or_nil xs j"
  by (auto simp: nth_or_nil_def nth_append)

lemma index_ref_ret:
  "index_ref i v = V_ret x w \<longleftrightarrow>
     0 \<le> i \<and> (v = V_nil \<or> (\<exists>xs. v = V_array xs)) \<and> x = nth_or_nil (elements v) (nat i) \<and>
     w = V_array (elements v @ replicate (nat (i + 1) - length (elements v)) V_nil)"
  by (auto simp: index_ref_def vbind_ret assertArray_ret nth_or_nil_def nth_append split: if_splits)

lemma key_ref_ret:
  "key_ref k v = V_ret x w \<longleftrightarrow>
     (v = V_nil \<or> (\<exists>m. v = V_struct m)) \<and> x = lookup_or_nil (members v) k \<and>
     w = V_struct (if map_of (members v) k = None then smap_set k V_nil (members v) else members v)"
  by (auto simp: key_ref_def vbind_ret assertStruct_ret lookup_or_nil_def split: option.splits)

text \<open>The laws of a step: what is put is read, putting it again changes nothing, and other steps of the kind are not affected.\<close>

lemma step_put_get:
  assumes "step_ref p v = V_ret x w"
  shows "step_ref p (step_put p y w) = V_ret y (step_put p y w)"
proof (cases p)
  case (At i)
  then show ?thesis using assms by (auto simp: index_ref_ret nth_or_nil_def)
next
  case (Key k)
  then show ?thesis using assms by (auto simp: key_ref_ret lookup_or_nil_def std_simps)
qed

lemma step_put_put: "step_put p y (step_put p x w) = step_put p y w"
  by (cases p) (simp_all add: smap_set_same)

fun same_kind :: "vstep \<Rightarrow> vstep \<Rightarrow> bool" where
  "same_kind (At i) (At j) = True"
| "same_kind (Key k) (Key l) = True"
| "same_kind _ _ = False"

lemma step_put_other:
  assumes "step_ref p v = V_ret x w" and "step_ref q v = V_ret z u" and "p \<noteq> q" and "same_kind p q"
  shows "\<exists>u'. step_ref q (step_put p y w) = V_ret z u'"
proof (cases p)
  case (At i)
  then obtain j where q: "q = At j" using assms(4) by (cases q) auto
  have "0 \<le> i" "0 \<le> j" "i \<noteq> j" using assms At q by (auto simp: index_ref_ret)
  then have "nat i \<noteq> nat j" by simp
  then show ?thesis using assms(1,2) At q by (auto simp: index_ref_ret nth_or_nil_grown)
next
  case (Key k)
  then obtain l where q: "q = Key l" using assms(4) by (cases q) auto
  then show ?thesis using assms Key by (auto simp: key_ref_ret lookup_or_nil_def std_simps)
qed

lemma path_set_get: "path_set ps y v = V_ret u v' \<Longrightarrow> path_get ps v' = V_ret y v'"
proof (induction ps arbitrary: v v')
  case (Cons p ps)
  from Cons.prems obtain x w x' where s: "step_ref p v = V_ret x w" "path_set ps y x = V_ret u x'" "v' = step_put p x' w"
    by (auto simp: vbind_ret put_back_ret)
  show ?case using step_put_get [OF s(1), of x'] Cons.IH [OF s(2)] by (simp add: s(3) step_put_put)
qed simp

fun diverge :: "vstep list \<Rightarrow> vstep list \<Rightarrow> bool" where
  "diverge (p # ps) (q # qs) = (if p = q then diverge ps qs else same_kind p q)"
| "diverge _ _ = False"

lemma path_set_other:
  "diverge ps qs \<Longrightarrow> path_set ps y v = V_ret u v' \<Longrightarrow> path_get qs v = V_ret z w \<Longrightarrow> \<exists>w'. path_get qs v' = V_ret z w'"
proof (induction ps qs arbitrary: v v' w rule: diverge.induct)
  case (1 p ps q qs)
  from "1.prems"(2) obtain x v1 x' where s: "step_ref p v = V_ret x v1" "path_set ps y x = V_ret u x'" "v' = step_put p x' v1"
    by (auto simp: vbind_ret put_back_ret)
  from "1.prems"(3) obtain a v2 a' where g: "step_ref q v = V_ret a v2" "path_get qs a = V_ret z a'"
    by (auto simp: vbind_ret put_back_ret)
  show ?case
  proof (cases "p = q")
    case True
    then have "a = x" using s(1) g(1) by simp
    with "1.IH" [OF True _ s(2)] "1.prems"(1) g(2) True obtain w' where "path_get qs x' = V_ret z w'" by auto
    then show ?thesis using step_put_get [OF s(1), of x'] True by (simp add: s(3))
  next
    case False
    then have "same_kind p q" using "1.prems"(1) by simp
    from step_put_other [OF s(1) g(1) False this, of x'] obtain u' where "step_ref q v' = V_ret a u'" by (auto simp: s(3))
    then show ?thesis using g(2) by simp
  qed
qed simp_all

text \<open>
  C36. Chains of \<open>operator[]\<close>: an assignment through a path that succeeds is read back through it, without changing anything
  more, and through every path that differs from it first in two indices or two keys one reads what one read before.
\<close>

theorem path_assignment:
  assumes "path_set ps y v = V_ret u v'"
  shows "path_get ps v' = V_ret y v' \<and> (\<forall>qs z w. diverge ps qs \<longrightarrow> path_get qs v = V_ret z w \<longrightarrow> (\<exists>w'. path_get qs v' = V_ret z w'))"
  using path_set_get [OF assms] path_set_other [OF _ assms] by blast

theorem path_assignment_witness:
  "let v = V_struct [(''a'', V_array [V_int 1, V_int 2]), (''b'', V_bool True)];
       v' = V_struct [(''a'', V_array [V_int 1, V_int 2, V_nil, V_string ''x'']), (''b'', V_bool True)]
   in path_get [Key ''a'', At 3] v' = V_ret (V_string ''x'') v' \<and> (\<exists>w. path_get [Key ''b''] v' = V_ret (V_bool True) w)"
proof -
  let ?v = "V_struct [(''a'', V_array [V_int 1, V_int 2]), (''b'', V_bool True)]"
  let ?v' = "V_struct [(''a'', V_array [V_int 1, V_int 2, V_nil, V_string ''x'']), (''b'', V_bool True)]"
  have "path_set [Key ''a'', At 3] (V_string ''x'') ?v = V_ret () ?v'" by code_simp
  note t = path_assignment [OF this]
  have "path_get [Key ''b''] ?v = V_ret (V_bool True) ?v" by code_simp
  moreover have "diverge [Key ''a'', At 3] [Key ''b'']" by simp
  ultimately have "\<exists>w. path_get [Key ''b''] ?v' = V_ret (V_bool True) w" using t by blast
  then show ?thesis using t unfolding Let_def by blast
qed

text \<open>What is well formed stays so, and from nothing a path of keys and non-negative indices can be assigned to.\<close>

lemma step_ok:
  assumes "variant_wf v"
  shows "vresult_ok variant_wf (step_ref p v)"
  using access_ok [OF assms] by (cases p) simp_all

lemma put_back_ok:
  assumes "vresult_ok P r" and "variant_wf v"
  shows "vresult_ok P (put_back p v r)"
proof -
  have "variant_wf x \<Longrightarrow> variant_wf (step_put p x v)" for x
    using parts_wf [OF assms(2)] by (cases p) (simp_all add: wf_intros)
  then show ?thesis using assms(1) by (cases r) simp_all
qed

lemma path_ok:
  assumes "variant_wf v" and "variant_wf y"
  shows "vresult_ok variant_wf (path_get ps v)" and "vresult_ok (\<lambda>_. True) (path_set ps y v)"
proof -
  show "vresult_ok variant_wf (path_get ps v)" using assms(1)
    by (induction ps arbitrary: v) (auto intro!: vbind_ok [OF step_ok] put_back_ok)
  show "vresult_ok (\<lambda>_. True) (path_set ps y v)" using assms
    by (induction ps arbitrary: v) (auto intro!: vbind_ok [OF step_ok] put_back_ok)
qed

fun step_fine :: "vstep \<Rightarrow> bool" where
  "step_fine (At i) = (0 \<le> i)"
| "step_fine (Key k) = True"

lemma path_from_nil: "\<forall>p \<in> set ps. step_fine p \<Longrightarrow> \<exists>v'. path_set ps y V_nil = V_ret () v'"
proof (induction ps)
  case (Cons p ps)
  then obtain v' where i: "path_set ps y V_nil = V_ret () v'" by auto
  have "\<exists>w. step_ref p V_nil = V_ret V_nil w"
    using Cons.prems by (cases p) (auto simp: index_ref_ret key_ref_ret nth_or_nil_def lookup_or_nil_def)
  then show ?case using i by auto
qed simp

subsection \<open>Quadwords\<close>

lemma low_half: "ucast (i AND 0xffffffff :: uint64) = (ucast i :: uint32)"
proof -
  have e: "0xffffffff = (mask 32 :: uint64)" by (simp add: mask_eq_exp_minus_1)
  have "ucast (i AND mask 32 :: uint64) = (ucast i :: uint32)" by (rule bit_word_eqI) (simp add: bit_simps)
  then show ?thesis unfolding e .
qed
lemma low_half_signed: "scast (ucast i :: uint32) = (i :: uint64) \<longleftrightarrow> - (2 ^ 31) \<le> sint i \<and> sint i < 2 ^ 31"
proof -
  have a: "sint (ucast i :: uint32) = signed_take_bit 31 (sint i)"
    by (simp add: sint_uint signed_take_bit_take_bit unsigned_ucast_eq)
  have "sint (scast (ucast i :: uint32) :: uint64) = signed_take_bit 31 (sint i)"
    unfolding a [symmetric] by (rule sint_up_scast) (simp add: is_up)
  then have "scast (ucast i :: uint32) = i \<longleftrightarrow> signed_take_bit 31 (sint i) = sint i"
    by (metis signed_word_eqI)
  then show ?thesis by (simp add: signed_take_bit_int_eq_self_iff)
qed

lemma quad_keys: "k @ ''.ldw'' \<noteq> k @ ''.hdw''" by simp

lemma member_int_present: "map_of m k = Some (V_int n) \<Longrightarrow> \<exists>v. member_int k (V_struct m) = V_ret n v \<and> (\<exists>m'. v = V_struct m' \<and> map_of m' = map_of m)"
  by (auto simp: member_int_def key_ref_def assertStruct_def variant_as_int_def assertTypeOrInvalid_def std_simps fun_eq_iff)

text \<open>
  C37. \<open>setQuadword\<close> stores the lower half of a number, and 0 for the upper; \<open>getQuadword\<close> extends the sign of the lower half over the
  upper. What comes back is the lower half as a signed number, and the number itself only when it is one of 32 bits.
\<close>

theorem quadword_keeps_32_bits:
  "\<exists>v'. setQuadword (Some k) i (V_struct m) = (True, v') \<and> fst (getQuadword (Some k) v') = Some (scast (ucast i :: uint32)) \<and>
     (fst (getQuadword (Some k) v') = Some i \<longleftrightarrow> - (2 ^ 31) \<le> sint i \<and> sint i < 2 ^ 31)"
proof -
  let ?m = "smap_set (k @ ''.hdw'') (V_int 0) (smap_set (k @ ''.ldw'') (V_int (ucast i)) m)"
  have hi: "ucast (push_bit 32 i) = (0 :: uint32)"
    by (rule bit_word_eqI) (simp add: bit_simps)
  have s: "setQuadword (Some k) i (V_struct m) = (True, V_struct ?m)"
    by (simp add: setQuadword_def set_key_def assertStruct_def low_half hi)
  obtain v1 m1 where h: "member_int (k @ ''.hdw'') (V_struct ?m) = V_ret 0 v1" "v1 = V_struct m1" "map_of m1 = map_of ?m"
    using member_int_present [of ?m "k @ ''.hdw''" 0] by (auto simp: std_simps)
  obtain v2 where l: "member_int (k @ ''.ldw'') v1 = V_ret (ucast i) v2"
    using member_int_present [of m1 "k @ ''.ldw''" "ucast i"] h(2,3) by (auto simp: std_simps)
  have g: "fst (getQuadword (Some k) (V_struct ?m)) = Some (scast (ucast i :: uint32))"
    using h l by (simp add: getQuadword_def quad_part_def variant_has_def std_simps)
  show ?thesis using s g low_half_signed [of i] by simp
qed

subsection \<open>What comparison distinguishes\<close>

definition double_canon :: "uint64 \<Rightarrow> uint64" where
  "double_canon d = (if is_zero d then 0 else d)"

text \<open>A variant without the keys of structures, the days of times and the sign of zeros.\<close>

fun canon :: "variant \<Rightarrow> variant"
  and canon_elements :: "variant list \<Rightarrow> variant list"
  and canon_members :: "(string \<times> variant) list \<Rightarrow> (string \<times> variant) list" where
  "canon (V_double d) = V_double (double_canon d)"
| "canon (V_time t) = V_time (t\<lparr>tm_mday := 0\<rparr>)"
| "canon (V_array xs) = V_array (canon_elements xs)"
| "canon (V_struct ms) = V_struct (canon_members ms)"
| "canon v = v"
| "canon_elements [] = []"
| "canon_elements (x # xs) = canon x # canon_elements xs"
| "canon_members [] = []"
| "canon_members (p # ms) = ([], canon (snd p)) # canon_members ms"

fun no_nan :: "variant \<Rightarrow> bool"
  and no_nan_elements :: "variant list \<Rightarrow> bool"
  and no_nan_members :: "(string \<times> variant) list \<Rightarrow> bool" where
  "no_nan (V_double d) = (\<not> is_nan d)"
| "no_nan (V_array xs) = no_nan_elements xs"
| "no_nan (V_struct ms) = no_nan_members ms"
| "no_nan v = True"
| "no_nan_elements [] = True"
| "no_nan_elements (x # xs) = (no_nan x \<and> no_nan_elements xs)"
| "no_nan_members [] = True"
| "no_nan_members (p # ms) = (no_nan (snd p) \<and> no_nan_members ms)"

lemma canon_inject_type: "vtype_of (canon v) = vtype_of v"
  by (cases v) simp_all

lemma length_canon_elements [simp]: "length (canon_elements xs) = length xs"
  by (induction xs) simp_all

lemma length_canon_members [simp]: "length (canon_members ms) = length ms"
  by (induction ms) simp_all

lemma zero_not_nan: "is_zero d \<Longrightarrow> \<not> is_nan d"
proof
  assume z: "is_zero d" and n: "is_nan d"
  have "d AND 0x7FF0000000000000 = (d AND 0x7FFFFFFFFFFFFFFF) AND 0x7FF0000000000000"
    by (simp add: and.assoc)
  also have "\<dots> = 0" using z by (simp only: is_zero_def and_zero_eq bit.conj_zero_left)
  finally show False using n by (simp add: is_nan_def)
qed

lemma is_zero_0: "is_zero 0" by (simp add: is_zero_def)

lemma double_eq_canon: "\<not> is_nan d \<Longrightarrow> double_eq d e \<longleftrightarrow> double_canon d = double_canon e"
  using zero_not_nan [of e] is_zero_0 by (auto simp: double_eq_def double_canon_def split: if_splits)

lemma tmEq_canon: "tmEq t u \<longleftrightarrow> t\<lparr>tm_mday := 0\<rparr> = u\<lparr>tm_mday := 0\<rparr>"
  by (cases t; cases u) (auto simp: tmEq_def)

lemma veq_iff:
  "no_nan v \<Longrightarrow> veq v w \<longleftrightarrow> canon v = canon w"
  "no_nan_elements xs \<Longrightarrow> length xs = length ys \<Longrightarrow> veq_elements xs ys \<longleftrightarrow> canon_elements xs = canon_elements ys"
  "no_nan_members ms \<Longrightarrow> length ms = length ns \<Longrightarrow> veq_members ms ns \<longleftrightarrow> canon_members ms = canon_members ns"
proof (induction v w and xs ys and ms ns rule: veq_veq_elements_veq_members.induct)
  case (2 b w)
  then show ?case by (cases w) auto
next
  case (15 xs w)
  have nn: "no_nan_elements xs" using 15(2) by simp
  show ?case
  proof (cases w)
    case (V_array ys)
    have "canon_elements xs = canon_elements ys \<Longrightarrow> length xs = length ys" by (metis length_canon_elements)
    then show ?thesis using 15(1) [OF V_array nn] V_array by auto
  qed simp_all
next
  case (16 ms w)
  have nn: "no_nan_members ms" using 16(2) by simp
  show ?case
  proof (cases w)
    case (V_struct ns)
    have "canon_members ms = canon_members ns \<Longrightarrow> length ms = length ns" by (metis length_canon_members)
    then show ?thesis using 16(1) [OF V_struct nn] V_struct by auto
  qed simp_all
next
  case (18 x xs ys)
  then show ?case by (cases ys) simp_all
next
  case (20 p ms ns)
  then show ?case by (cases ns) simp_all
qed (simp_all add: double_eq_canon tmEq_canon split: variant.split)

text \<open>
  C38. \<open>operator==\<close> is equality of what \<open>canon\<close> keeps, when the left side holds no NaN: it distinguishes neither structures whose
  keys differ but whose members are equal in their order, nor times of two days of a month. A NaN anywhere on the left makes it
  differ from itself.
\<close>

theorem comparison_ignores_keys_and_days:
  assumes "no_nan v"
  shows "veq v w \<longleftrightarrow> canon v = canon w"
  using veq_iff(1) [OF assms] .

theorem comparison_ignores_keys_and_days_witness:
  "veq (V_struct [(''a'', V_int 1)]) (V_struct [(''b'', V_int 1)]) \<and> \<not> veq (V_struct [(''a'', V_int 1)]) (V_struct [(''a'', V_long 1)])"
  using comparison_ignores_keys_and_days [of "V_struct [(''a'', V_int 1)]" "V_struct [(''b'', V_int 1)]"]
    comparison_ignores_keys_and_days [of "V_struct [(''a'', V_int 1)]" "V_struct [(''a'', V_long 1)]"] by simp

lemma veq_nan:
  "\<not> no_nan v \<Longrightarrow> \<not> veq v v"
  "\<not> no_nan_elements xs \<Longrightarrow> \<not> veq_elements xs xs"
  "\<not> no_nan_members ms \<Longrightarrow> \<not> veq_members ms ms"
proof (induction v and xs and ms rule: no_nan_no_nan_elements_no_nan_members.induct)
  case (1 d)
  then show ?case by (simp add: double_eq_def)
qed auto

subsection \<open>Text\<close>

fun has_time :: "variant \<Rightarrow> bool"
  and has_time_elements :: "variant list \<Rightarrow> bool"
  and has_time_members :: "(string \<times> variant) list \<Rightarrow> bool" where
  "has_time (V_time t) = True"
| "has_time (V_array xs) = has_time_elements xs"
| "has_time (V_struct ms) = has_time_members ms"
| "has_time v = False"
| "has_time_elements [] = False"
| "has_time_elements (x # xs) = (has_time x \<or> has_time_elements xs)"
| "has_time_members [] = False"
| "has_time_members (p # ms) = (has_time (snd p) \<or> has_time_members ms)"

lemma serialize_undefined:
  "serializeEx dbl v = None \<longleftrightarrow> has_time v"
  "serialize_elements dbl b xs = None \<longleftrightarrow> has_time_elements xs"
  "serialize_members dbl b ms = None \<longleftrightarrow> has_time_members ms"
  by (induction dbl v and dbl b xs and dbl b ms rule: serializeEx_serialize_elements_serialize_members.induct)
    (auto split: option.splits)

text \<open>An array and a structure without elements, and the numbers of all types of integers, have the same text.\<close>

lemma texts_alike:
  "serializeEx dbl (V_array []) = serializeEx dbl (V_struct [])"
  "serializeEx dbl (V_int 5) = serializeEx dbl (V_longlong 5)"
  by simp_all

text \<open>The text of a string can be read back: \<open>unescape\<close> undoes the escaping and finds the end, unless a backslash is in the string.\<close>

fun unescape :: "string \<Rightarrow> (string \<times> string) option" where
  "unescape [] = None"
| "unescape (c # s) =
     (if c = CHR 0x22 then Some ([], s)
      else if c = CHR 0x5C then (case s of d # t \<Rightarrow> map_option (apfst (Cons d)) (unescape t) | [] \<Rightarrow> None)
      else map_option (apfst (Cons c)) (unescape s))"

lemma unescape_escape:
  "CHR 0x5C \<notin> set s \<Longrightarrow> unescape (escape_quotes s @ CHR 0x22 # t) = Some (s, t)"
  by (induction s) (auto simp: escape_quotes_def)

lemma backslash_runs_on: "unescape (escape_quotes [CHR 0x5C] @ CHR 0x22 # '', '' @ CHR 0x22 # t) = Some ([CHR 0x22] @ '', '', t)"
  by (simp add: escape_quotes_def)

end
