(* ===== verification/Xml_Rpc.thy ===== *)
theory Xml_Rpc
  imports Variant_Props Time_Util
begin

text \<open>
  XmlRpcSerializer.cpp: variants as XML. The serialiser writes tags and texts; the other direction is driven by the call-backs
  of the parser (expat), with a stack of open elements and finished values, through the element stack of expatxx.cpp, which
  swallows the exceptions of the call-backs for tags. The text of a \<open>double\<close> and \<open>atof\<close> are arguments. Undefined behaviour,
  such as the last element of an empty vector, is \<open>None\<close>.
\<close>

subsection \<open>Serialising\<close>

datatype piece = X_open string | X_text string | X_close string

definition render_piece :: "piece \<Rightarrow> string" where
  "render_piece p = (case p of X_open n \<Rightarrow> ''<'' @ n @ ''>'' | X_text s \<Rightarrow> s | X_close n \<Rightarrow> ''</'' @ n @ ''>'')"

definition element :: "string \<Rightarrow> piece list \<Rightarrow> piece list" where
  "element n ps = X_open n # ps @ [X_close n]"

definition time_text :: "tm_time \<Rightarrow> string" where
  "time_text t = pad_int 4 (tm_year t) @ pad_int 2 (tm_mon t) @ pad_int 2 (tm_mday t) @ ''T'' @ pad_int 2 (tm_hour t) @ '':'' @
     pad_int 2 (tm_min t) @ '':'' @ pad_int 2 (tm_sec t)"

fun xr_pieces :: "(uint64 \<Rightarrow> string) \<Rightarrow> variant \<Rightarrow> piece list"
  and xr_elements :: "(uint64 \<Rightarrow> string) \<Rightarrow> variant list \<Rightarrow> piece list"
  and xr_members :: "(uint64 \<Rightarrow> string) \<Rightarrow> (string \<times> variant) list \<Rightarrow> piece list" where
  "xr_pieces dbl (V_bool b) = element ''boolean'' [X_text (if b then ''1'' else ''0'')]"
| "xr_pieces dbl (V_int n) = element ''int'' [X_text (itoa (sint n))]"
| "xr_pieces dbl (V_double d) = element ''double'' [X_text (dbl d)]"
| "xr_pieces dbl (V_time t) = element ''dateTime.iso8601'' [X_text (time_text t)]"
| "xr_pieces dbl (V_string s) = element ''string'' [X_text s]"
| "xr_pieces dbl (V_binary s) = element ''base64'' [X_text (b64_put 0 s)]"
| "xr_pieces dbl (V_array xs) = element ''array'' (element ''data'' (xr_elements dbl xs))"
| "xr_pieces dbl (V_struct ms) = element ''struct'' (xr_members dbl ms)"
| "xr_pieces dbl _ = []"
| "xr_elements dbl [] = []"
| "xr_elements dbl (x # xs) = element ''value'' (xr_pieces dbl x) @ xr_elements dbl xs"
| "xr_members dbl [] = []"
| "xr_members dbl (p # ms) =
     element ''member'' (element ''name'' [X_text (fst p)] @ element ''value'' (xr_pieces dbl (snd p))) @ xr_members dbl ms"

definition xr_text :: "(uint64 \<Rightarrow> string) \<Rightarrow> variant \<Rightarrow> string" where
  "xr_text dbl v = concat (map render_piece (xr_pieces dbl v))"

subsection \<open>Tags and texts\<close>

text \<open>The numbers of the tags: those of the types, \<open>ATT_NAME\<close>, which is that of a string, and the others.\<close>

definition ATT_MEMBER :: int where "ATT_MEMBER = 1015"
definition ATT_DATA :: int where "ATT_DATA = 1016"
definition ATT_VALUE :: int where "ATT_VALUE = 1017"

definition tagtoid :: "string \<Rightarrow> int" where
  "tagtoid n =
     (if n = ''boolean'' then 1
      else if n = ''i4'' then 5
      else if n = ''int'' then 5
      else if n = ''double'' then 8
      else if n = ''string'' then 11
      else if n = ''dateTime.iso8601'' then 12
      else if n = ''base64'' then 13
      else if n = ''array'' then 14
      else if n = ''struct'' then 15
      else if n = ''name'' then 11
      else if n = ''value'' then ATT_VALUE
      else if n = ''data'' then ATT_DATA
      else if n = ''member'' then ATT_MEMBER
      else - 10)"

definition xr_ws :: "char \<Rightarrow> bool" where
  "xr_ws c \<longleftrightarrow> c \<in> {CHR '' '', CHR 0x09, CHR 0x0D, CHR 0x0A}"

definition xr_trim :: "string \<Rightarrow> string" where
  "xr_trim s = dropWhile xr_ws (rev (dropWhile xr_ws (rev s)))"

text \<open>\<open>sscanf\<close> with the format of a time: fields that it does not reach stay 0.\<close>

fun scan_partial :: "(nat \<times> string) list \<Rightarrow> string \<Rightarrow> int list" where
  "scan_partial [] s = []"
| "scan_partial ((w, sep) # fs) s =
     (case scan_int w s of
        None \<Rightarrow> []
      | Some (v, t) \<Rightarrow>
          v # (case sep of
                 [] \<Rightarrow> scan_partial fs t
               | c # _ \<Rightarrow> (case scan_lit c t of None \<Rightarrow> [] | Some u \<Rightarrow> scan_partial fs u)))"

definition read_time :: "string \<Rightarrow> tm_time" where
  "read_time s =
     (let f = scan_partial [(4, []), (2, []), (2, ''T''), (2, '':''), (2, '':''), (2, [])] s;
          g = (\<lambda>i. if i < length f then f ! i else 0)
      in \<lparr>tm_sec = g 5, tm_min = g 4, tm_hour = g 3, tm_mday = g 2, tm_mon = g 1, tm_year = g 0\<rparr>)"

subsection \<open>The call-backs\<close>

text \<open>Nodes of the stack, the last one first. \<open>xu_var\<close> is what has been stored in the variant.\<close>

datatype xnode = X_tag int | X_var variant

record xml_reader =
  xu_stack :: "xnode list"
  xu_names :: "string list"
  xu_var :: "variant option"

definition xr_OnStartElement :: "string \<Rightarrow> xnode list \<Rightarrow> xnode list" where
  "xr_OnStartElement n st = (if tagtoid n \<ge> 0 then X_tag (tagtoid n) # st else st)"

definition xr_OnCharData :: "string \<Rightarrow> xnode list \<Rightarrow> xnode list option" where
  "xr_OnCharData d st =
     (case st of
        [] \<Rightarrow> None
      | X_tag t # _ \<Rightarrow> Some (if t < 1000 \<and> t > 0 then X_var (V_string (xr_trim d)) # st else st)
      | X_var (V_string s) # st' \<Rightarrow> if st' = [] then None else Some (X_var (V_string (xr_trim (s @ d))) # st')
      | X_var V_nil # st' \<Rightarrow> if st' = [] then None else Some (X_var (V_string (xr_trim d)) # st')
      | X_var _ # _ \<Rightarrow> Some st)"

text \<open>The conversion of a value to a string; \<open>None\<close> is its exception.\<close>

definition text_of :: "variant \<Rightarrow> string option" where
  "text_of v = (case variant_as_string v of V_ret s _ \<Rightarrow> Some s | _ \<Rightarrow> None)"

text \<open>
  The value of an element from the values inside it, in their order. An exception is \<open>Some None\<close>. In a structure the loop takes
  away one more value than there is when a key is the last.
\<close>

fun fill_array :: "int \<Rightarrow> variant list \<Rightarrow> variant \<Rightarrow> variant option" where
  "fill_array i [] var = Some var"
| "fill_array i (x # xs) var = (case set_index i x var of V_ret _ var' \<Rightarrow> fill_array (i + 1) xs var' | _ \<Rightarrow> None)"

fun fill_struct :: "variant list \<Rightarrow> variant \<Rightarrow> variant option option" where
  "fill_struct [] var = Some (Some var)"
| "fill_struct [k] var = (case text_of k of None \<Rightarrow> Some None | Some _ \<Rightarrow> None)"
| "fill_struct (k # x # r) var =
     (case text_of k of
        None \<Rightarrow> Some None
      | Some s \<Rightarrow> (case set_key s x var of V_ret _ var' \<Rightarrow> fill_struct r var' | _ \<Rightarrow> Some None))"

definition with_text :: "(string \<Rightarrow> variant) \<Rightarrow> variant list \<Rightarrow> variant option option" where
  "with_text f vals = (case vals of [] \<Rightarrow> None | v # _ \<Rightarrow> Some (map_option f (text_of v)))"

definition element_value :: "(string \<Rightarrow> uint64) \<Rightarrow> int \<Rightarrow> variant list \<Rightarrow> variant option option" where
  "element_value atof tag vals =
     (if tag = 1 then with_text (\<lambda>s. V_bool (atoi s \<noteq> 0)) vals
      else if tag = 5 then with_text (\<lambda>s. V_long (word_of_int (atoi s))) vals
      else if tag = 8 then with_text (\<lambda>s. V_double (atof s)) vals
      else if tag = 11 then (if vals = [] then Some (Some (V_string [])) else with_text V_string vals)
      else if tag = 12 then with_text (\<lambda>s. V_time (read_time s)) vals
      else if tag = 13 then with_text (\<lambda>s. V_binary (fst (b64_get s))) vals
      else if tag = 14 then Some (fill_array 0 vals V_nil)
      else if tag = 15 then fill_struct vals V_nil
      else if tag = ATT_VALUE then Some (Some (case vals of [] \<Rightarrow> V_string [] | v # _ \<Rightarrow> v))
      else Some (Some V_nil))"

definition is_var :: "xnode \<Rightarrow> bool" where
  "is_var x = (case x of X_var _ \<Rightarrow> True | X_tag _ \<Rightarrow> False)"

definition node_val :: "xnode \<Rightarrow> variant" where
  "node_val x = (case x of X_var v \<Rightarrow> v | X_tag _ \<Rightarrow> V_nil)"

text \<open>
  After an exception, which the caller swallows, the values are off the stack and the tag is still on it. The loop keeps a reference
  to the last element of the stack and assigns to it after that element was removed, which is undefined; the definition goes by what
  was assigned last, as with storage that stays in place until the element is built anew.
\<close>

definition xr_OnEndElement :: "(string \<Rightarrow> uint64) \<Rightarrow> string \<Rightarrow> xnode list \<Rightarrow> xnode list option" where
  "xr_OnEndElement atof n st =
     (let values = takeWhile is_var st; vals = rev (map node_val values)
      in case dropWhile is_var st of
           X_tag t # st' \<Rightarrow>
             if t \<noteq> tagtoid n then Some (X_tag t # st')
             else if t = ATT_DATA \<or> t = ATT_MEMBER then Some (values @ st')
             else (case element_value atof t vals of
                     None \<Rightarrow> None
                   | Some None \<Rightarrow> Some (X_tag t # st')
                   | Some (Some v) \<Rightarrow> Some (X_var v # st'))
         | _ \<Rightarrow> None)"

definition OnLogicalClose :: "xml_reader \<Rightarrow> xml_reader" where
  "OnLogicalClose u = (case xu_stack u of X_var v # _ \<Rightarrow> u\<lparr>xu_var := Some v\<rparr> | _ \<Rightarrow> u)"

text \<open>What the parser reports, and what expatxx.cpp makes of it.\<close>

datatype xevent = Ev_start string | Ev_end string | Ev_chars string

definition close_element :: "xml_reader \<Rightarrow> xml_reader" where
  "close_element u = (if xu_names u = [] then OnLogicalClose u else u)"

fun xr_event :: "(string \<Rightarrow> uint64) \<Rightarrow> xml_reader \<Rightarrow> xevent \<Rightarrow> xml_reader option" where
  "xr_event atof u (Ev_start n) = Some (u\<lparr>xu_names := n # xu_names u, xu_stack := xr_OnStartElement n (xu_stack u)\<rparr>)"
| "xr_event atof u (Ev_chars d) = map_option (\<lambda>st. u\<lparr>xu_stack := st\<rparr>) (xr_OnCharData d (xu_stack u))"
| "xr_event atof u (Ev_end n) =
     (case xr_OnEndElement atof n (xu_stack u) of
        None \<Rightarrow> None
      | Some st \<Rightarrow>
          (let u1 = u\<lparr>xu_stack := st\<rparr>
           in case xu_names u1 of
                m # ns \<Rightarrow> Some (if m = n then close_element (u1\<lparr>xu_names := ns\<rparr>) else u1)
              | [] \<Rightarrow> None))"

definition xu_new :: xml_reader where
  "xu_new = \<lparr>xu_stack = [], xu_names = [], xu_var = None\<rparr>"

lemma reads_shorter: "min (length (takeWhile (\<lambda>c. c \<noteq> CHR 0x0A) s)) 79 = 79 \<Longrightarrow> length s - 79 < length s"
  using length_takeWhile_le [of "\<lambda>c. c \<noteq> CHR 0x0A" s] by (simp add: min_def split: if_splits)

text \<open>
  The text in pieces for the parser: \<open>get\<close> reads up to 79 characters and stops before the end of a line, which it leaves in the
  stream, and a piece that is not full is the last.
\<close>

function xr_reads :: "string \<Rightarrow> string list" where
  "xr_reads s =
     (let d = take 79 (takeWhile (\<lambda>c. c \<noteq> CHR 0x0A) s)
      in if length d = 79 then d # xr_reads (drop 79 s) else [d])"
  by auto

termination by (relation "measure length") (auto dest: reads_shorter)

declare xr_reads.simps [simp del]

definition xr_unserialize ::
  "(string \<Rightarrow> uint64) \<Rightarrow> (string list \<Rightarrow> xevent list) \<Rightarrow> string \<Rightarrow> xml_reader option" where
  "xr_unserialize atof parse t = run_ops (xr_event atof) xu_new (parse (xr_reads t))"

end
