(* ===== verification/Xml_Rpc_Props.thy ===== *)
theory Xml_Rpc_Props
  imports Xml_Rpc
begin

text \<open>
  What of a variant survives the way through XML: the parser may deliver the text of an element in any pieces.
\<close>

subsection \<open>What the parser delivers\<close>






subsection \<open>Trimming\<close>









text \<open>The text of an element from the pieces it comes in.\<close>

definition gather :: "string \<Rightarrow> string list \<Rightarrow> string" where
  "gather s ds = foldl (\<lambda>acc d. xr_trim (acc @ d)) s ds"



subsection \<open>Reading base64 without white space\<close>







subsection \<open>One element\<close>


definition pushed :: "variant \<Rightarrow> xml_reader \<Rightarrow> xml_reader" where
  "pushed v u = u\<lparr>xu_stack := X_var v # xu_stack u\<rparr>"


subsection \<open>Arrays and structures\<close>



definition flat_members :: "(string \<times> variant) list \<Rightarrow> variant list" where
  "flat_members ms = concat (map (\<lambda>p. [V_string (fst p), snd p]) ms)"

lemma flat_members_simps [simp]:
  "flat_members [] = []" "flat_members (p # ms) = V_string (fst p) # snd p # flat_members ms"
  by (simp_all add: flat_members_def)

lemma text_of_string [simp]: "text_of (V_string s) = Some s"
  by (simp add: text_of_def variant_as_string_def assertTypeOrInvalid_def)



subsection \<open>What comes back\<close>



fun xr_back :: "(uint64 \<Rightarrow> string) \<Rightarrow> (string \<Rightarrow> uint64) \<Rightarrow> variant \<Rightarrow> variant"
  and xr_back_elements :: "(uint64 \<Rightarrow> string) \<Rightarrow> (string \<Rightarrow> uint64) \<Rightarrow> variant list \<Rightarrow> variant list"
  and xr_back_members :: "(uint64 \<Rightarrow> string) \<Rightarrow> (string \<Rightarrow> uint64) \<Rightarrow> (string \<times> variant) list \<Rightarrow> (string \<times> variant) list" where
  "xr_back dbl atof (V_int n) = V_long (scast n)"
| "xr_back dbl atof (V_double d) = V_double (atof (dbl d))"
| "xr_back dbl atof (V_array xs) = V_array (xr_back_elements dbl atof xs)"
| "xr_back dbl atof (V_struct ms) = V_struct (xr_back_members dbl atof ms)"
| "xr_back dbl atof v = v"
| "xr_back_elements dbl atof [] = []"
| "xr_back_elements dbl atof (x # xs) = xr_back dbl atof x # xr_back_elements dbl atof xs"
| "xr_back_members dbl atof [] = []"
| "xr_back_members dbl atof (p # ms) = (fst p, xr_back dbl atof (snd p)) # xr_back_members dbl atof ms"


lemma back_Nil_iff [simp]:
  "xr_back_elements dbl atof xs = [] \<longleftrightarrow> xs = []" "xr_back_members dbl atof ms = [] \<longleftrightarrow> ms = []"
  by (cases xs; simp) (cases ms; simp)

definition push_all :: "variant list \<Rightarrow> xml_reader \<Rightarrow> xml_reader" where
  "push_all vs u = u\<lparr>xu_stack := rev (map X_var vs) @ xu_stack u\<rparr>"

lemma push_all_simps [simp]:
  "xu_names (push_all vs u) = xu_names u" "push_all [] u = u" "xu_names (pushed v u) = xu_names u"
  "push_all ws (push_all vs u) = push_all (vs @ ws) u" "pushed v u = push_all [v] u"
  by (simp_all add: push_all_def pushed_def)





lemma tag_ids [simp]:
  "tagtoid ''boolean'' = 1" "tagtoid ''int'' = 5" "tagtoid ''double'' = 8" "tagtoid ''string'' = 11" "tagtoid ''base64'' = 13"
  "tagtoid ''array'' = 14" "tagtoid ''struct'' = 15" "tagtoid ''name'' = 11" "tagtoid ''value'' = 1017" "tagtoid ''data'' = 1016"
  "tagtoid ''member'' = 1015"
  by (simp_all add: tagtoid_def ATT_DATA_def ATT_MEMBER_def ATT_VALUE_def)











subsection \<open>What the reader hands to the parser\<close>








subsection \<open>The theorems\<close>



text \<open>What comes back as a \<open>long\<close> has no text of its own: the second time nothing of the number is left.\<close>

lemma second_time_loses_integers: "xr_pieces dbl (xr_back dbl atof (V_int n)) = []"
  by simp

lemma empty_comes_back_as_nil:
  "element_value atof 14 [] = Some (Some V_nil)" "element_value atof 15 [] = Some (Some V_nil)" "element_value atof 13 [] = None"
  by (simp_all add: element_value_def with_text_def)

text \<open>The 15th of January 2024 comes back as the fifth of the next month.\<close>

lemma time_is_misread:
  "read_time (xr_trim (time_text \<lparr>tm_sec = 9, tm_min = 8, tm_hour = 7, tm_mday = 15, tm_mon = 0, tm_year = 124\<rparr>)) =
     \<lparr>tm_sec = 9, tm_min = 8, tm_hour = 7, tm_mday = 5, tm_mon = 1, tm_year = 124\<rparr>"
  by code_simp

text \<open>White space between the tags of a structure counts as a key.\<close>

lemma space_in_struct_is_a_key:
  "fill_struct [V_string [], V_string ''a'', V_string ''1''] V_nil = None" "xr_OnCharData '' '' [X_tag 15] = Some [X_var (V_string []), X_tag 15]"
  by code_simp+

text \<open>A space at the end of a piece is lost, as the text is trimmed at every piece.\<close>

lemma space_between_pieces_is_lost: "gather [] [''a '', ''b''] = ''ab''" "gather [] [''a b''] = ''a b''"
  by code_simp+

end
