(* ===== verification/Iso_Time.thy ===== *)
theory Iso_Time
  imports Complex_Main Calendar Time_Util Str_Helper "HOL-Library.Signed_Division"
begin

text \<open>
  TimeUtil.cpp: the conversions between time stamps and texts (ISO 8601), and those of lengths of time. Texts are C strings without
  their NUL. The local time zone (\<open>localtime_r\<close>, the variable \<open>timezone\<close> and \<open>mktime\<close>) is an argument.
\<close>

record time_zone =
  zn_timezone :: int
  zn_localtime :: "int \<Rightarrow> tm_time"
  zn_mktime :: "tm_time \<Rightarrow> int"

text \<open>A result, a failure that is reported, or undefined behaviour (a buffer overrun).\<close>

datatype 'a cresult = C_ok 'a | C_fail | C_undef

subsection \<open>Writing\<close>

definition UTC_LEN_STD :: int where "UTC_LEN_STD = 20"
definition UTC_LEN_LOCAL :: int where "UTC_LEN_LOCAL = 19"

definition iso_date :: "tm_time \<Rightarrow> string" where
  "iso_date t = pad_int 4 (tm_year t + 1900) @ ''-'' @ pad_zero 2 (tm_mon t + 1) @ ''-'' @ pad_zero 2 (tm_mday t) @ ''T'' @
     pad_zero 2 (tm_hour t) @ '':'' @ pad_zero 2 (tm_min t) @ '':'' @ pad_zero 2 (tm_sec t)"

text \<open>\<open>snprintf\<close> into a buffer of \<open>n\<close> bytes.\<close>

definition snprintf :: "int \<Rightarrow> string \<Rightarrow> string" where
  "snprintf n s = take (nat n - 1) s"

definition Time2Iso_tm :: "tm_time \<Rightarrow> int \<Rightarrow> string option" where
  "Time2Iso_tm t n = (if n \<le> UTC_LEN_STD then None else Some (snprintf n (iso_date t @ ''Z'')))"

definition Time2Iso :: "int \<Rightarrow> int \<Rightarrow> string option" where
  "Time2Iso t n = (if n \<le> UTC_LEN_STD then None else Some (snprintf n (iso_date (gmtime t) @ ''Z'')))"

definition fraction :: "int \<Rightarrow> string" where
  "fraction ms = (if ms \<noteq> 0 then ''.'' @ pad_zero 3 ms else [])"

text \<open>The local form is written for a buffer of 255 bytes, whatever its length.\<close>

definition Time2Iso_timeval :: "time_zone \<Rightarrow> int \<times> int \<Rightarrow> int \<Rightarrow> bool \<Rightarrow> string cresult" where
  "Time2Iso_timeval z tv n local =
     (if n \<le> UTC_LEN_STD then C_fail
      else (let frac = fraction (snd tv sdiv 1000)
            in if local
               then (let sym = (if zn_timezone z > 0 then ''-'' else ''+'');
                         hour = \<bar>zn_timezone z\<bar> div 3600; min = \<bar>zn_timezone z\<bar> mod 3600 div 60;
                         text = snprintf 255 (iso_date (zn_localtime z (fst tv)) @ frac @ sym @ pad_zero 2 hour @ '':'' @ pad_zero 2 min)
                     in if int (length text) + 1 > n then C_undef else C_ok text)
               else C_ok (snprintf n (iso_date (gmtime (fst tv)) @ frac @ ''Z''))))"

definition TimeToUTC :: "time_zone \<Rightarrow> int \<Rightarrow> int \<Rightarrow> bool \<Rightarrow> string cresult" where
  "TimeToUTC z t n local = Time2Iso_timeval z (t sdiv 1000, t smod 1000 * 1000) n local"

text \<open>\<open>Time2Str\<close>: the text and the result. \<open>sprintf\<close> knows no length.\<close>

definition Time2Str :: "time_zone \<Rightarrow> int \<Rightarrow> int \<Rightarrow> (string \<times> bool) cresult" where
  "Time2Str z t n =
     (if n \<le> UTC_LEN_LOCAL then C_fail
      else (let text = iso_date (zn_localtime z t)
            in if int (length text) + 1 > n then C_undef else C_ok (text, length text = 19)))"

subsection \<open>Reading\<close>

text \<open>A \<open>%d\<close> without a width takes any number of characters; a space in the format is the white space that \<open>%d\<close> skips anyway.\<close>

definition Iso2Time_tm :: "string \<Rightarrow> tm_time option" where
  "Iso2Time_tm s =
     (let w = length s;
          date = [(w, ''-''), (w, ''-'')]; packed = [(4, []), (2, [])]; clock = [(w, '':''), (w, '':''), (w, [])];
          first = (\<lambda>a b. case a of None \<Rightarrow> b | Some x \<Rightarrow> Some x)
      in case first (scan_fields (date @ (w, ''T'') # clock) s)
                 (first (scan_fields (packed @ (2, ''T'') # clock) s)
                    (first (scan_fields (date @ (w, []) # clock) s) (scan_fields (packed @ (2, []) # clock) s))) of
           Some [year, mon, day, hour, mi, sec] \<Rightarrow>
             if year < 1970 \<or> mon < 1 \<or> mon > 12 \<or> day < 1 \<or> day > 31 \<or> hour < 0 \<or> hour > 23 \<or> mi < 0 \<or> mi > 59 \<or> sec < 0 \<or> sec > 59
             then None
             else Some \<lparr>tm_sec = sec, tm_min = mi, tm_hour = hour, tm_mday = day, tm_mon = mon - 1, tm_year = year - 1900\<rparr>
         | _ \<Rightarrow> None)"

definition Iso2Time :: "string \<Rightarrow> int option" where
  "Iso2Time s = (case Iso2Time_tm s of None \<Rightarrow> None | Some t \<Rightarrow> if timegm t = - 1 then None else Some (timegm t))"

text \<open>\<open>strchr\<close>: the text from the first such character on, empty if there is none.\<close>

definition from_char :: "char \<Rightarrow> string \<Rightarrow> string" where
  "from_char c s = dropWhile (\<lambda>x. x \<noteq> c) s"

definition Iso2Time_timeval :: "string \<Rightarrow> (int \<times> int) option" where
  "Iso2Time_timeval s =
     map_option (\<lambda>t. (t, if CHR ''.'' \<in> set s then atoi (tl (from_char CHR ''.'' s)) * 1000 else 0)) (Iso2Time s)"

text \<open>The seconds of a zone, \<open>hh:mm\<close>; \<open>None\<close> if the 16 bytes for the hours are overrun.\<close>

definition zone_offset :: "string \<Rightarrow> int option" where
  "zone_offset s =
     (let b0 = takeWhile (\<lambda>c. c \<noteq> CHR '':'') s; b1 = takeWhile is_digit (take 2 (drop (length b0 + 1) s))
      in if b0 = [] then Some 0
         else if length b0 \<ge> 16 then None
         else Some ((atoi b0 * 60 + (if b1 \<noteq> [] then atoi b1 else 0)) * 60))"

definition Iso2TimeEx :: "string \<Rightarrow> (int \<times> int) cresult" where
  "Iso2TimeEx s =
     (if length s \<ge> 128 then C_undef
      else if CHR ''T'' \<notin> set s then C_fail
      else (let pTime = from_char CHR ''T'' s; whole = (case Iso2Time_timeval s of None \<Rightarrow> C_fail | Some tv \<Rightarrow> C_ok tv)
            in if CHR ''Z'' \<in> set pTime \<or> CHR ''+'' \<notin> set pTime \<and> CHR ''-'' \<notin> set pTime then whole
               else (let prefix = (if CHR ''+'' \<in> set pTime then CHR ''+'' else CHR ''-''); pZone = from_char prefix pTime
                     in case Iso2Time_timeval (take (length s - length pZone) s) of
                          None \<Rightarrow> C_fail
                        | Some (sec, usec) \<Rightarrow>
                            (case zone_offset (tl pZone) of
                               None \<Rightarrow> C_undef
                             | Some off \<Rightarrow> C_ok (sec - (if prefix = CHR ''-'' then - off else off), usec)))))"

definition ISO8601ToTime :: "string \<Rightarrow> int option" where
  "ISO8601ToTime s =
     (case Iso2TimeEx s of C_ok (sec, usec) \<Rightarrow> Some (sec * 1000 + usec sdiv 1000) | C_fail \<Rightarrow> Some 0 | C_undef \<Rightarrow> None)"

definition Local2Iso :: "time_zone \<Rightarrow> string \<Rightarrow> int \<Rightarrow> string option" where
  "Local2Iso z s n =
     (if n \<le> UTC_LEN_STD then None
      else map_option (\<lambda>t. snprintf n (iso_date (gmtime (zn_mktime z t)) @ ''Z'')) (Iso2Time_tm s))"

definition Iso2Local :: "time_zone \<Rightarrow> string \<Rightarrow> int \<Rightarrow> string option" where
  "Iso2Local z s n =
     (if n \<le> UTC_LEN_LOCAL then None
      else map_option (\<lambda>t. snprintf n (iso_date (zn_localtime z t))) (Iso2Time s))"

subsection \<open>Lengths of time\<close>

definition to_int :: "int \<Rightarrow> int" where
  "to_int n = sint (word_of_int n :: uint32)"

definition cut_last :: "char \<Rightarrow> string \<Rightarrow> string" where
  "cut_last c s = (if c \<in> set s then rev (tl (from_char c (rev s))) else s)"

definition hmsOfTime :: "time_zone \<Rightarrow> int \<Rightarrow> int \<Rightarrow> bool \<Rightarrow> string option" where
  "hmsOfTime z t n withmsec =
     (case TimeToUTC z t (n - 1) True of
        C_undef \<Rightarrow> None
      | C_fail \<Rightarrow> Some []
      | C_ok s \<Rightarrow>
          if CHR ''T'' \<notin> set s then Some []
          else (let q = cut_last CHR ''-'' (cut_last CHR ''+'' (tl (from_char CHR ''T'' s)))
                in Some (if withmsec then q else cut_last CHR ''.'' q)))"

definition msec2hms :: "int \<Rightarrow> int \<Rightarrow> bool \<Rightarrow> string" where
  "msec2hms msec n hasDay =
     (let m0 = max msec 0; ms = m0 mod 1000; m1 = m0 div 1000; sec = m1 mod 60; m2 = m1 div 60; mi = m2 mod 60; m3 = m2 div 60;
          tail = '':'' @ pad_zero 2 sec @ ''.'' @ pad_zero 3 ms
      in if \<not> hasDay \<or> m3 < 24 then snprintf n (itoa (to_int m3) @ '':'' @ pad_zero 2 mi @ tail)
         else snprintf n (itoa (to_int (m3 div 60)) @ ''d'' @ pad_zero 2 (m3 mod 24) @ '':'' @ pad_zero 2 mi @ tail))"

definition msec2secstr :: "int \<Rightarrow> int \<Rightarrow> string" where
  "msec2secstr msec n = (let m0 = max msec 0 in snprintf n (itoa (to_int (m0 div 1000)) @ ''.'' @ pad_zero 3 (m0 mod 1000)))"

text \<open>\<open>HMSStr2Time\<close> adds to \<open>msTime\<close>, and leaves in it what it added before it fails.\<close>

definition in_hms :: "int \<Rightarrow> int \<Rightarrow> bool" where
  "in_hms hi n \<longleftrightarrow> \<not> (n > hi \<or> n < 0)"

definition HMSStr2Time :: "string \<Rightarrow> int \<Rightarrow> bool \<times> int" where
  "HMSStr2Time s msTime =
     (case SplitString s ''.:'' [CHR '' '', CHR '','', CHR '';'', CHR 0x09, CHR 0x22] [CHR 0x22] [CHR 0x5C] (- 1) of
        ([a, b, c, d], True) \<Rightarrow>
          (let m1 = msTime + 3600000 * atoi a; m2 = m1 + 60000 * atoi b; m3 = m2 + 1000 * atoi c
           in if \<not> in_hms 60 (atoi a) then (False, msTime)
              else if \<not> in_hms 60 (atoi b) then (False, m1)
              else if \<not> in_hms 60 (atoi c) then (False, m2)
              else if \<not> in_hms 1000 (atoi d) then (False, m3)
              else (True, m3 + atoi d))
      | _ \<Rightarrow> (False, msTime))"

text \<open>
  The loop of \<open>UnitStr2Time\<close> on the rest of the text. \<open>conv\<close> is \<open>atof\<close>, \<open>mul\<close> the product of an \<open>int\<close> and a \<open>float\<close> as an \<open>int\<close>.
\<close>

definition num_char :: "char \<Rightarrow> bool" where
  "num_char c \<longleftrightarrow> is_digit c \<or> c = CHR ''.''"

lemma num_chars_shorter: "s \<noteq> [] \<Longrightarrow> length (dropWhile num_char s) - Suc 0 < length s"
  using length_dropWhile_le [of num_char s] by (cases s) (auto simp del: dropWhile.simps)

function unit_loop :: "(string \<Rightarrow> rat) \<Rightarrow> (int \<Rightarrow> rat \<Rightarrow> int) \<Rightarrow> string \<Rightarrow> int \<Rightarrow> rat \<Rightarrow> int \<Rightarrow> bool \<times> int" where
  "unit_loop conv mul s iUnit iTime msTime =
     (if s = [] then (True, msTime)
      else (let p = dropWhile num_char s; c = (case p of [] \<Rightarrow> CHR 0x00 | x # _ \<Rightarrow> x); t = conv s;
                ms = (take 1 (drop 1 p) = ''s'' \<or> take 1 (drop 1 p) = ''S'');
                next = (\<lambda>u x. unit_loop conv mul (drop 1 p) u x (msTime + mul u x))
            in if c = CHR ''h'' \<or> c = CHR ''H'' then next 3600000 t
               else if c = CHR ''m'' \<or> c = CHR ''M''
               then (if ms then (if t > 999 then (False, msTime) else next 1000 t)
                     else if t > 60 then (False, msTime) else next 60000 t)
               else if c = CHR ''s'' \<or> c = CHR ''S'' then (if t > 60 then (False, msTime) else next 1000 t)
               else next iUnit iTime))"
  by auto

termination by (relation "measure (\<lambda>(conv, mul, s, u, t, m). length s)") (auto dest: num_chars_shorter)

declare unit_loop.simps [simp del]

definition UnitStr2Time :: "(string \<Rightarrow> rat) \<Rightarrow> (int \<Rightarrow> rat \<Rightarrow> int) \<Rightarrow> string \<Rightarrow> int \<Rightarrow> bool \<times> int" where
  "UnitStr2Time conv mul s msTime =
     (if CHR '':'' \<in> set s then HMSStr2Time s msTime else unit_loop conv mul s 1 0 0)"

definition readTimeLenToken :: "string \<Rightarrow> string \<times> int \<Rightarrow> string \<times> int" where
  "readTimeLenToken leadingChs sl =
     (case sl of (str, len) \<Rightarrow>
        (case find_first_of leadingChs str 0 of
           None \<Rightarrow> (str, len)
         | Some pos \<Rightarrow>
             (let rest = drop (pos + 1) str
              in (case find_first_of ''0123456789'' rest 0 of None \<Rightarrow> rest | Some q \<Rightarrow> drop q rest, len + atoi (take pos str)))))"

definition parseTimeLength :: "string \<Rightarrow> int" where
  "parseTimeLength timeLenStr =
     (let (s1, l1) = readTimeLenToken ''Dd'' (timeLenStr, 0);
          (s2, l2) = readTimeLenToken ''Hh'' (s1, l1 * 24);
          (s3, l3) = readTimeLenToken ''Mm'' (s2, l2 * 60);
          (s4, l4) = readTimeLenToken ''Ss'' (s3, l3 * 60)
      in l4 * 1000 + atoi s4)"

end
