(* ===== verification/Iso_Props.thy ===== *)
theory Iso_Props
  imports Iso_Time
begin

text \<open>
  Round trips of TimeUtil.cpp: what \<open>TimeToUTC\<close> writes \<open>ISO8601ToTime\<close> reads, in UTC and with a zone; and lengths of time.
\<close>

subsection \<open>Digits\<close>

definition all_digits :: "string \<Rightarrow> bool" where
  "all_digits s \<longleftrightarrow> s \<noteq> [] \<and> (\<forall>c \<in> set s. is_digit c)"

definition no_digit :: "string \<Rightarrow> bool" where
  "no_digit t \<longleftrightarrow> t = [] \<or> \<not> is_digit (hd t)"

lemma no_digit_simps [simp]: "no_digit []" "no_digit (c # t) \<longleftrightarrow> \<not> is_digit c"
  by (simp_all add: no_digit_def)

lemma takeWhile_digits: "all_digits ds \<Longrightarrow> no_digit t \<Longrightarrow> takeWhile is_digit (ds @ t) = ds"
  by (cases t) (auto simp: all_digits_def takeWhile_append2)

lemma digits_value_stops: "no_digit t \<Longrightarrow> digits_value n t = n"
  by (cases t) simp_all

lemma all_digits_hd:
  assumes "all_digits ds"
  shows "\<not> is_space (hd ds)" and "hd ds \<noteq> CHR ''-''" and "hd ds \<noteq> CHR ''+''"
  using assms is_digit_plain [of "hd ds"] by (cases ds; auto simp: all_digits_def)+

lemma is_space_blank: "is_space CHR '' ''" by (simp add: is_space_def)

lemma scan_int_digits:
  assumes "all_digits ds" and "length ds \<le> w" and "no_digit t"
  shows "scan_int w (replicate k CHR '' '' @ ds @ t) = Some (digits_value 0 ds, t)"
proof -
  obtain c r where c: "ds = c # r" using assms(1) by (cases ds) (auto simp: all_digits_def)
  note h = all_digits_hd [OF assms(1)]
  have "dropWhile is_space (replicate k CHR '' '' @ ds @ t) = ds @ t"
    using h(1) c is_space_blank by (induction k) simp_all
  moreover have "no_digit (take (w - length ds) t)" using assms(3) by (cases t; cases "w - length ds") auto
  then have "takeWhile is_digit (take w (ds @ t)) = ds" using takeWhile_digits [OF assms(1)] assms(2) by simp
  moreover have "ds \<noteq> []" "hd (ds @ t) = hd ds" using c by simp_all
  ultimately show ?thesis using h(2,3) by (simp add: scan_int_def)
qed

lemma nat_dec_all_digits: "all_digits (nat_dec n)"
  using nat_dec_digits [of n] by (simp add: all_digits_def)

lemma pad_zero_digits:
  assumes "0 \<le> n"
  shows "all_digits (pad_zero w n)" and "digits_value 0 (pad_zero w n) = n"
proof -
  let ?k = "w - length (itoa n)"
  have z: "is_digit CHR ''0''" by code_simp
  have p: "pad_zero w n = replicate ?k CHR ''0'' @ nat_dec (nat n)" using assms by (simp add: pad_zero_def itoa_def)
  show "all_digits (pad_zero w n)" using nat_dec_digits [of "nat n"] z unfolding p by (auto simp: all_digits_def)
  have "digits_value 0 (replicate k CHR ''0'' @ s) = digits_value 0 s" for k s
    using z by (induction k) simp_all
  then show "digits_value 0 (pad_zero w n) = n" using digits_value_nat_dec [of "nat n"] assms unfolding p by simp
qed

lemma pad_int_digits: "0 \<le> n \<Longrightarrow> pad_int w n = replicate (w - length (itoa n)) CHR '' '' @ nat_dec (nat n)"
  by (simp add: pad_int_def itoa_def)

lemma length_nat_dec_le: "n < 10 ^ k \<Longrightarrow> 0 < k \<Longrightarrow> length (nat_dec n) \<le> k"
proof (induction k arbitrary: n)
  case (Suc k)
  show ?case
  proof (cases "n < 10")
    case False
    then have "n div 10 < 10 ^ k" "0 < k" using Suc.prems(1) by (auto intro: ccontr simp: less_mult_imp_div_less mult.commute)
    with Suc.IH [of "n div 10"] show ?thesis using False by (subst nat_dec.simps) simp
  qed (simp add: nat_dec.simps [of n])
qed simp

lemma length_pad:
  assumes "0 \<le> n" and "n < 10 ^ w" and "0 < w"
  shows "length (pad_zero w n) = w" and "length (pad_int w n) = w"
proof -
  have "nat n < 10 ^ w" using assms(1,2) by (simp add: nat_less_iff)
  then have "length (nat_dec (nat n)) \<le> w" using length_nat_dec_le assms(3) by blast
  then show "length (pad_zero w n) = w" "length (pad_int w n) = w" using assms(1) by (simp_all add: pad_zero_def pad_int_def itoa_def)
qed

subsection \<open>The year of a stamp\<close>

lemma year_start_mono: "y \<le> z \<Longrightarrow> year_start y \<le> year_start z"
proof (induction z rule: int_ge_induct)
  case (step z)
  then show ?case using year_start_next [of z] year_days_pos [of z] by linarith
qed simp

lemma gmtime_year: "t < 253402300800 \<Longrightarrow> tm_year (gmtime t) < 8100"
proof (rule ccontr)
  assume t: "t < 253402300800" and "\<not> tm_year (gmtime t) < 8100"
  then have "year_start 10000 \<le> year_start (tm_year (gmtime t) + 1900)" by (intro year_start_mono) simp
  moreover have "year_start 10000 = 2932897" by (simp add: year_start_def)
  moreover have "year_start (tm_year (gmtime t) + 1900) \<le> t div 86400"
    using year_from_bounds [of "1970 + (if t div 86400 < 0 then t div 86400 div 365 else t div 86400 div 366)" "t div 86400"]
      year_start_guess [of "t div 86400"]
    by (auto simp: gmtime_def Let_def case_prod_beta)
  moreover have "t div 86400 < 2932897" using t by (simp add: div_less_iff_less_mult)
  ultimately show False by linarith
qed

subsection \<open>Reading a date\<close>

definition tm_ok :: "tm_time \<Rightarrow> bool" where
  "tm_ok t \<longleftrightarrow> 0 \<le> tm_sec t \<and> tm_sec t < 60 \<and> 0 \<le> tm_min t \<and> tm_min t < 60 \<and> 0 \<le> tm_hour t \<and> tm_hour t < 24 \<and>
     1 \<le> tm_mday t \<and> tm_mday t \<le> 31 \<and> 0 \<le> tm_mon t \<and> tm_mon t \<le> 11 \<and> 70 \<le> tm_year t \<and> tm_year t < 8100"

lemma tm_ok_gmtime: "0 \<le> t \<Longrightarrow> t < 253402300800 \<Longrightarrow> tm_ok (gmtime t)"
  using gmtime_parts [of t] gmtime_year [of t] by (simp add: tm_ok_def)

lemma length_iso_date: "tm_ok t \<Longrightarrow> length (iso_date t) = 19"
  by (simp add: iso_date_def tm_ok_def length_pad)

lemma scan_pad_zero:
  "0 \<le> n \<Longrightarrow> no_digit t \<Longrightarrow> length (pad_zero 2 n) \<le> w \<Longrightarrow> scan_int w (pad_zero 2 n @ t) = Some (n, t)"
  using scan_int_digits [OF pad_zero_digits(1), of n 2 w t 0] pad_zero_digits(2) by simp

lemma scan_pad_int:
  "0 \<le> n \<Longrightarrow> no_digit t \<Longrightarrow> length (nat_dec (nat n)) \<le> w \<Longrightarrow> scan_int w (pad_int 4 n @ t) = Some (n, t)"
  using scan_int_digits [OF nat_dec_all_digits, of "nat n" w t] by (simp add: pad_int_digits digits_value_nat_dec)

lemma marks_no_digit [simp]:
  "\<not> is_digit CHR ''-''" "\<not> is_digit CHR ''T''" "\<not> is_digit CHR '':''" "\<not> is_digit CHR ''Z''" "\<not> is_digit CHR ''.''" "\<not> is_digit CHR ''+''"
  by code_simp+

lemma read_iso_date:
  assumes "tm_ok t" and "no_digit r"
  shows "Iso2Time_tm (iso_date t @ r) = Some t"
proof -
  define w where "w = length (iso_date t @ r)"
  have l: "length (pad_zero 2 n) \<le> w" if "0 \<le> n" "n < 100" for n
    using length_pad(1) [of n 2] that length_iso_date [OF assms(1)] by (simp add: w_def)
  have y: "length (nat_dec (nat (tm_year t + 1900))) \<le> w"
  proof -
    have "nat (tm_year t + 1900) < 10 ^ 4" using assms(1) by (simp add: tm_ok_def nat_less_iff)
    then have "length (nat_dec (nat (tm_year t + 1900))) \<le> 4" by (rule length_nat_dec_le) simp
    then show ?thesis using length_iso_date [OF assms(1)] by (simp add: w_def)
  qed
  have sy: "scan_int w (pad_int 4 (tm_year t + 1900) @ q) = Some (tm_year t + 1900, q)" if "no_digit q" for q
    using scan_pad_int [OF _ that y] assms(1) by (simp add: tm_ok_def)
  have sz: "scan_int w (pad_zero 2 n @ q) = Some (n, q)" if "0 \<le> n" "n < 100" "no_digit q" for n q
    using scan_pad_zero [OF that(1,3) l] that by simp
  have "scan_fields [(w, ''-''), (w, ''-''), (w, ''T''), (w, '':''), (w, '':''), (w, [])] (iso_date t @ r) =
      Some [tm_year t + 1900, tm_mon t + 1, tm_mday t, tm_hour t, tm_min t, tm_sec t]"
    using assms by (simp add: iso_date_def sy sz scan_lit_def tm_ok_def)
  then show ?thesis using assms(1) unfolding Iso2Time_tm_def w_def [symmetric] by (simp add: Let_def tm_ok_def)
qed

lemma read_iso_stamp:
  assumes "0 \<le> t" and "t < 253402300800" and "no_digit r"
  shows "Iso2Time (iso_date (gmtime t) @ r) = Some t"
  using read_iso_date [OF tm_ok_gmtime [OF assms(1,2)] assms(3)] gmtime_parts(7) [of t] assms(1) by (simp add: Iso2Time_def)

text \<open>The letters of a date: its day, then \<open>T\<close>, then the time of day.\<close>

lemma pad_zero_marks: "0 \<le> n \<Longrightarrow> set (pad_zero w n) \<inter> {CHR ''T'', CHR ''Z'', CHR ''.'', CHR ''+'', CHR ''-''} = {}"
  using pad_zero_digits(1) [of n w] marks_no_digit by (auto simp: all_digits_def)

lemma pad_int_marks: "0 \<le> n \<Longrightarrow> set (pad_int w n) \<inter> {CHR ''T'', CHR ''Z'', CHR ''.'', CHR ''+''} = {}"
  using nat_dec_digits [of "nat n"] marks_no_digit by (auto simp: pad_int_digits)

lemma iso_date_parts:
  assumes "tm_ok t"
  shows "\<exists>d c. iso_date t = d @ CHR ''T'' # c \<and> CHR ''T'' \<notin> set d \<and> CHR ''.'' \<notin> set d \<and> CHR ''Z'' \<notin> set d \<and>
     set c \<inter> {CHR ''T'', CHR ''Z'', CHR ''.'', CHR ''+'', CHR ''-''} = {}"
proof -
  let ?d = "pad_int 4 (tm_year t + 1900) @ ''-'' @ pad_zero 2 (tm_mon t + 1) @ ''-'' @ pad_zero 2 (tm_mday t)"
  let ?c = "pad_zero 2 (tm_hour t) @ '':'' @ pad_zero 2 (tm_min t) @ '':'' @ pad_zero 2 (tm_sec t)"
  have n: "0 \<le> tm_year t + 1900" "0 \<le> tm_mon t + 1" "0 \<le> tm_mday t" "0 \<le> tm_hour t" "0 \<le> tm_min t" "0 \<le> tm_sec t"
    using assms by (simp_all add: tm_ok_def)
  have "CHR ''T'' \<notin> set ?d \<and> CHR ''.'' \<notin> set ?d \<and> CHR ''Z'' \<notin> set ?d"
    using pad_int_marks [OF n(1), of 4] pad_zero_marks [OF n(2), of 2] pad_zero_marks [OF n(3), of 2] by simp
  moreover have "set ?c \<inter> {CHR ''T'', CHR ''Z'', CHR ''.'', CHR ''+'', CHR ''-''} = {}"
    using pad_zero_marks [OF n(4), of 2] pad_zero_marks [OF n(5), of 2] pad_zero_marks [OF n(6), of 2] by simp
  moreover have "iso_date t = ?d @ CHR ''T'' # ?c" by (simp add: iso_date_def)
  ultimately show ?thesis by blast
qed

lemma from_char_skip: "c \<notin> set s \<Longrightarrow> from_char c (s @ c # t) = c # t"
  by (simp add: from_char_def) (induction s, auto)

lemma atoi_pad_zero:
  assumes "0 \<le> n" and "no_digit r" and "CHR 0x00 \<notin> set r"
  shows "atoi (pad_zero w n @ r) = n"
proof -
  note d = pad_zero_digits [OF assms(1), of w]
  obtain c q where c: "pad_zero w n = c # q" using d(1) by (cases "pad_zero w n") (auto simp: all_digits_def)
  have "CHR 0x00 \<notin> set (pad_zero w n)" using d(1) by (auto simp: all_digits_def is_digit_def less_eq_char_def)
  then have s: "c_str (pad_zero w n @ r) = pad_zero w n @ r" using assms(3) by (intro c_str_no_nul) simp
  have "digits_value 0 (pad_zero w n @ r) = n"
    using d digits_value_append [of "pad_zero w n" 0 r] digits_value_stops [OF assms(2)] by (simp add: all_digits_def)
  then show ?thesis using all_digits_hd [OF d(1)] s by (simp add: atoi_def c)
qed

lemma read_iso_timeval:
  assumes "0 \<le> t" and "t < 253402300800" and "0 \<le> ms" and "no_digit r" and "CHR 0x00 \<notin> set r" and "CHR ''.'' \<notin> set r"
  shows "Iso2Time_timeval (iso_date (gmtime t) @ fraction ms @ r) = Some (t, ms * 1000)"
proof -
  obtain d c where p: "iso_date (gmtime t) = d @ CHR ''T'' # c" "CHR ''.'' \<notin> set d" "CHR ''.'' \<notin> set c"
    using iso_date_parts [OF tm_ok_gmtime [OF assms(1,2)]] by auto
  have "no_digit (fraction ms @ r)" using assms(4) by (simp add: fraction_def)
  from read_iso_stamp [OF assms(1,2) this]
  have i: "Iso2Time (iso_date (gmtime t) @ fraction ms @ r) = Some t" .
  show ?thesis
  proof (cases "ms = 0")
    case True
    then have "CHR ''.'' \<notin> set (iso_date (gmtime t) @ fraction ms @ r)" using p assms(6) by (simp add: fraction_def)
    then show ?thesis using i True unfolding Iso2Time_timeval_def by simp
  next
    case False
    then have e: "iso_date (gmtime t) @ fraction ms @ r = iso_date (gmtime t) @ CHR ''.'' # pad_zero 3 ms @ r" by (simp add: fraction_def)
    have "from_char CHR ''.'' (iso_date (gmtime t) @ CHR ''.'' # pad_zero 3 ms @ r) = CHR ''.'' # pad_zero 3 ms @ r"
      by (rule from_char_skip) (use p in simp)
    then show ?thesis using i atoi_pad_zero [OF assms(3-5), of 3] unfolding Iso2Time_timeval_def e by simp
  qed
qed

subsection \<open>Round trips of time stamps\<close>

lemma signed_1000: "0 \<le> t \<Longrightarrow> t sdiv 1000 = t div 1000" "0 \<le> t \<Longrightarrow> t smod 1000 = t mod 1000" for t :: int
  by (simp_all add: signed_divide_int_def signed_modulo_int_def sgn_if minus_mult_div_eq_mod)

lemma length_fraction: "0 \<le> ms \<Longrightarrow> ms < 1000 \<Longrightarrow> length (fraction ms) \<le> 4"
  by (simp add: fraction_def length_pad)

lemma ISO8601ToTime_ok: "0 \<le> ms \<Longrightarrow> Iso2TimeEx s = C_ok (sec, ms * 1000) \<Longrightarrow> ISO8601ToTime s = Some (sec * 1000 + ms)"
  by (simp add: ISO8601ToTime_def signed_1000)

lemma letters_of_time:
  assumes "tm_ok g" and "0 \<le> ms"
  shows "\<exists>d c. iso_date g @ fraction ms = d @ CHR ''T'' # c \<and> CHR ''T'' \<notin> set d \<and> set c \<inter> {CHR ''Z'', CHR ''+'', CHR ''-''} = {}"
proof -
  obtain d c where p: "iso_date g = d @ CHR ''T'' # c" "CHR ''T'' \<notin> set d" "set c \<inter> {CHR ''T'', CHR ''Z'', CHR ''.'', CHR ''+'', CHR ''-''} = {}"
    using iso_date_parts [OF assms(1)] by blast
  have "set (c @ fraction ms) \<inter> {CHR ''Z'', CHR ''+'', CHR ''-''} = {}"
    using p(3) pad_zero_marks [OF assms(2), of 3] by (auto simp: fraction_def)
  then show ?thesis using p(1,2) by (intro exI [of _ d] exI [of _ "c @ fraction ms"]) simp
qed

lemma Iso2TimeEx_utc:
  assumes "0 \<le> t" and "t < 253402300800" and "0 \<le> ms" and "ms < 1000"
  shows "Iso2TimeEx (iso_date (gmtime t) @ fraction ms @ ''Z'') = C_ok (t, ms * 1000)"
proof -
  note ok = tm_ok_gmtime [OF assms(1,2)]
  obtain d c where p: "iso_date (gmtime t) @ fraction ms = d @ CHR ''T'' # c" "CHR ''T'' \<notin> set d"
    using letters_of_time [OF ok assms(3)] by blast
  let ?s = "iso_date (gmtime t) @ fraction ms @ ''Z''"
  have e: "?s = d @ CHR ''T'' # c @ ''Z''" using p(1) by (simp add: append_assoc [symmetric] del: append_assoc)
  have l: "length ?s < 128" using length_iso_date [OF ok] length_fraction [OF assms(3,4)] by simp
  have f: "from_char CHR ''T'' ?s = CHR ''T'' # c @ ''Z''" unfolding e by (rule from_char_skip [OF p(2)])
  have r: "Iso2Time_timeval ?s = Some (t, ms * 1000)" by (rule read_iso_timeval [OF assms(1-3)]) simp_all
  have "CHR ''T'' \<in> set ?s" by (simp add: e)
  then show ?thesis using l r by (simp add: Iso2TimeEx_def f del: append_assoc)
qed

lemma zone_offset_text:
  assumes "0 \<le> h" and "h < 100" and "0 \<le> m" and "m < 60"
  shows "zone_offset (pad_zero 2 h @ CHR '':'' # pad_zero 2 m) = Some ((h * 60 + m) * 60)"
proof -
  note dh = pad_zero_digits [OF assms(1), of 2] and dm = pad_zero_digits [OF assms(3), of 2]
  have l: "length (pad_zero 2 h) = 2" "length (pad_zero 2 m) = 2" using assms by (simp_all add: length_pad)
  have "CHR '':'' \<notin> set (pad_zero 2 h)" using dh(1) marks_no_digit by (auto simp: all_digits_def)
  then have b0: "takeWhile (\<lambda>c. c \<noteq> CHR '':'') (pad_zero 2 h @ CHR '':'' # pad_zero 2 m) = pad_zero 2 h"
    by (subst takeWhile_append2) auto
  have b1: "takeWhile is_digit (pad_zero 2 m) = pad_zero 2 m" "pad_zero 2 m \<noteq> []" "pad_zero 2 h \<noteq> []"
    using takeWhile_digits [OF dm(1), of "[]"] dm(1) dh(1) by (simp_all add: all_digits_def)
  have "atoi (pad_zero 2 h) = h" "atoi (pad_zero 2 m) = m"
    using atoi_pad_zero [OF assms(1), of "[]" 2] atoi_pad_zero [OF assms(3), of "[]" 2] by simp_all
  then show ?thesis using l b1(2,3) by (simp add: zone_offset_def b0 b1(1) Let_def)
qed

lemma Iso2TimeEx_zone:
  assumes "0 \<le> t" and "t < 253402300800" and "0 \<le> ms" and "ms < 1000" and "0 \<le> h" and "h < 100" and "0 \<le> m" and "m < 60"
    and "y = CHR ''+'' \<or> y = CHR ''-''"
  shows "Iso2TimeEx (iso_date (gmtime t) @ fraction ms @ y # pad_zero 2 h @ CHR '':'' # pad_zero 2 m) =
    C_ok (t - (if y = CHR ''-'' then - ((h * 60 + m) * 60) else (h * 60 + m) * 60), ms * 1000)"
proof -
  note ok = tm_ok_gmtime [OF assms(1,2)]
  obtain d c where p: "iso_date (gmtime t) @ fraction ms = d @ CHR ''T'' # c" "CHR ''T'' \<notin> set d"
      "set c \<inter> {CHR ''Z'', CHR ''+'', CHR ''-''} = {}"
    using letters_of_time [OF ok assms(3)] by blast
  let ?z = "pad_zero 2 h @ CHR '':'' # pad_zero 2 m"
  let ?s = "iso_date (gmtime t) @ fraction ms @ y # ?z"
  have zm: "set ?z \<inter> {CHR ''T'', CHR ''Z'', CHR ''.'', CHR ''+'', CHR ''-''} = {}"
    using pad_zero_marks [OF assms(5), of 2] pad_zero_marks [OF assms(7), of 2] by simp
  have e: "?s = d @ CHR ''T'' # c @ y # ?z" using p(1) by (simp add: append_assoc [symmetric] del: append_assoc)
  have l: "length ?s < 128" using length_iso_date [OF ok] length_fraction [OF assms(3,4)] assms by (simp add: length_pad)
  have f: "from_char CHR ''T'' ?s = CHR ''T'' # c @ y # ?z" unfolding e by (rule from_char_skip [OF p(2)])
  have g: "from_char y (CHR ''T'' # c @ y # ?z) = y # ?z"
    using from_char_skip [of y "CHR ''T'' # c" ?z] p(3) assms(9) by auto
  have cut: "take (length ?s - length (y # ?z)) ?s = iso_date (gmtime t) @ fraction ms" by simp
  have r: "Iso2Time_timeval (iso_date (gmtime t) @ fraction ms) = Some (t, ms * 1000)"
    using read_iso_timeval [OF assms(1-3), of "[]"] by simp
  have t: "CHR ''T'' \<in> set ?s" by (simp add: e)
  have nz: "CHR ''Z'' \<notin> set (CHR ''T'' # c @ y # ?z)" using p(3) zm assms(9) by auto
  have pl: "CHR ''+'' \<in> set (CHR ''T'' # c @ y # ?z) \<longleftrightarrow> y = CHR ''+''" using p(3) zm by auto
  have mi: "CHR ''-'' \<in> set (CHR ''T'' # c @ y # ?z) \<longleftrightarrow> y = CHR ''-''" using p(3) zm by auto
  have pre: "(if y = CHR ''+'' then CHR ''+'' else CHR ''-'') = y" using assms(9) by auto
  have any: "\<not> (CHR ''Z'' \<in> set (CHR ''T'' # c @ y # ?z) \<or> y \<noteq> CHR ''+'' \<and> y \<noteq> CHR ''-'')" using nz assms(9) by blast
  have lt: "\<not> 128 \<le> length ?s" using l by simp
  show ?thesis
    unfolding Iso2TimeEx_def if_not_P [OF lt] Let_def f pl mi if_not_P [OF any] pre g cut r list.sel zone_offset_text [OF assms(5-8)]
    using t by simp
qed

lemma whole_minutes:
  fixes a :: int
  assumes "a mod 60 = 0"
  shows "(a div 3600 * 60 + a mod 3600 div 60) * 60 = a"
proof -
  define q where "q = a div 60"
  have "a div 3600 = q div 60" using zdiv_zmult2_eq [of 60 a 60] by (simp add: q_def)
  moreover have "a mod 3600 div 60 = q mod 60" using zmod_zmult2_eq [of 60 a 60] assms by (simp add: q_def)
  moreover have "a = q * 60" using assms div_mult_mod_eq [of a 60] by (simp add: q_def)
  ultimately show ?thesis by simp
qed

text \<open>
  C40. A stamp in milliseconds from 1970 to 9999 that \<open>TimeToUTC\<close> wrote in UTC, into a buffer of at least 25 bytes, is read back by
  \<open>ISO8601ToTime\<close> with its milliseconds. One written with the time zone, into a buffer of at least 30 bytes, is read back off by
  exactly what the clock is ahead of the standard time of the zone at that moment: the text has the hours of \<open>localtime_r\<close>, daylight
  saving included, and behind them the difference of standard time, \<open>timezone\<close>. So it comes back exactly in winter, and an hour
  late in summer. (The zone is of whole minutes, and the local time is in the same range of years.)
\<close>

theorem iso_stamp_roundtrip:
  assumes "0 \<le> t" and "t < 253402300800000" and "24 < n"
    and "local \<Longrightarrow> 29 < n \<and> zn_timezone z mod 60 = 0 \<and> \<bar>zn_timezone z\<bar> < 86400 \<and> 0 \<le> t div 1000 - zn_timezone z + dst \<and>
      t div 1000 - zn_timezone z + dst < 253402300800 \<and> zn_localtime z (t div 1000) = gmtime (t div 1000 - zn_timezone z + dst)"
  shows "\<exists>s. TimeToUTC z t n local = C_ok s \<and> ISO8601ToTime s = Some (if local then t + dst * 1000 else t)"
proof -
  let ?sec = "t div 1000" and ?ms = "t mod 1000"
  have b: "0 \<le> ?sec" "?sec < 253402300800" "0 \<le> ?ms" "?ms < 1000"
    using assms(1,2) by (simp_all add: pos_imp_zdiv_nonneg_iff div_less_iff_less_mult)
  have u: "?ms * 1000 sdiv 1000 = ?ms" using b(3) by (simp add: signed_1000)
  have tt: "?sec * 1000 + ?ms = t" by simp
  show ?thesis
  proof (cases local)
    case False
    let ?s = "iso_date (gmtime ?sec) @ fraction ?ms @ ''Z''"
    have "length ?s \<le> 24" using length_iso_date [OF tm_ok_gmtime [OF b(1,2)]] length_fraction [OF b(3,4)] by simp
    then have "snprintf n ?s = ?s" using assms(3) by (simp add: snprintf_def)
    then have "TimeToUTC z t n local = C_ok ?s"
      using assms(1,3) False by (simp add: TimeToUTC_def Time2Iso_timeval_def UTC_LEN_STD_def signed_1000 u Let_def)
    then show ?thesis using ISO8601ToTime_ok [OF b(3) Iso2TimeEx_utc [OF b]] tt False by simp
  next
    case True
    define tz where "tz = zn_timezone z"
    define h where "h = \<bar>tz\<bar> div 3600"
    define m where "m = \<bar>tz\<bar> mod 3600 div 60"
    define y where "y = (if tz > 0 then CHR ''-'' else CHR ''+'')"
    have z: "29 < n" "tz mod 60 = 0" "\<bar>tz\<bar> < 86400" "0 \<le> ?sec - tz + dst" "?sec - tz + dst < 253402300800"
      "zn_localtime z ?sec = gmtime (?sec - tz + dst)" using assms(4) [OF True] by (simp_all add: tz_def)
    have hm: "0 \<le> h" "h < 100" "0 \<le> m" "m < 60"
      using z(3) unfolding h_def m_def by (simp_all add: pos_imp_zdiv_nonneg_iff div_less_iff_less_mult)
    have tzv: "(h * 60 + m) * 60 = \<bar>tz\<bar>"
      unfolding h_def m_def
    proof (rule whole_minutes)
      show "\<bar>tz\<bar> mod 60 = 0" using z(2) by (simp only: dvd_eq_mod_eq_0 [symmetric] dvd_abs_iff)
    qed
    let ?s = "iso_date (gmtime (?sec - tz + dst)) @ fraction ?ms @ y # pad_zero 2 h @ CHR '':'' # pad_zero 2 m"
    have l: "length ?s \<le> 29" using length_iso_date [OF tm_ok_gmtime [OF z(4,5)]] length_fraction [OF b(3,4)] hm by (simp add: length_pad)
    then have sn: "snprintf 255 ?s = ?s" by (simp add: snprintf_def)
    have "TimeToUTC z t n local = C_ok ?s"
    proof -
      have "TimeToUTC z t n local =
          (if int (length (snprintf 255 ?s)) + 1 > n then C_undef else C_ok (snprintf 255 ?s))"
        using assms(1) True z(1)
        by (simp add: TimeToUTC_def Time2Iso_timeval_def UTC_LEN_STD_def signed_1000 u Let_def z(6) tz_def [symmetric]
            h_def [symmetric] m_def [symmetric] y_def)
      then show ?thesis using l z(1) unfolding sn by simp
    qed
    moreover have "Iso2TimeEx ?s = C_ok (?sec + dst, ?ms * 1000)"
      using Iso2TimeEx_zone [OF z(4,5) b(3,4) hm, of y] tzv by (auto simp: y_def)
    moreover have "(?sec + dst) * 1000 + ?ms = t + dst * 1000" using tt by (simp add: distrib_right)
    ultimately show ?thesis using ISO8601ToTime_ok [OF b(3)] True by simp
  qed
qed

text \<open>A zone one hour ahead of UTC, with daylight saving from April to September 2024: a stamp of January, and one of July.\<close>

definition demo_zone :: time_zone where
  "demo_zone = \<lparr>zn_timezone = - 3600, zn_localtime = (\<lambda>t. gmtime (t + 3600 + (if 1711846800 \<le> t \<and> t < 1729990800 then 3600 else 0))),
     zn_mktime = timegm\<rparr>"

theorem iso_stamp_roundtrip_witness:
  "(\<exists>s. TimeToUTC demo_zone 1704067200123 30 True = C_ok s \<and> ISO8601ToTime s = Some 1704067200123) \<and>
   (\<exists>s. TimeToUTC demo_zone 1720000000123 30 True = C_ok s \<and> ISO8601ToTime s = Some (1720000000123 + 3600000))"
  using iso_stamp_roundtrip [of 1704067200123 30 True demo_zone 0] iso_stamp_roundtrip [of 1720000000123 30 True demo_zone 3600]
  by (simp add: demo_zone_def)

text \<open>A fraction is read as a number of milliseconds, whatever its length; the hours of a zone without a colon take its minutes.\<close>

lemma fraction_is_misread:
  "ISO8601ToTime ''1970-01-01T00:00:01.5Z'' = Some 1005" "ISO8601ToTime ''1970-01-01T00:00:01.123456Z'' = Some 124456"
  by code_simp+

lemma zone_without_colon_is_misread:
  "ISO8601ToTime ''1970-02-10T00:00:00+0100'' = Some ((40 * 24 - 100) * 3600000)" "ISO8601ToTime ''1970-02-10T00:00:00+01:00'' = Some ((40 * 24 - 1) * 3600000)"
  by code_simp+

lemma day_that_does_not_exist: "Iso2Time ''2023-02-31T00:00:00Z'' = Iso2Time ''2023-03-03T00:00:00Z''"
  by code_simp

text \<open>With a zone the text is written for 255 bytes into a buffer that may be shorter.\<close>

lemma local_text_overruns:
  "TimeToUTC \<lparr>zn_timezone = 0, zn_localtime = gmtime, zn_mktime = timegm\<rparr> 0 25 True = C_undef"
  by code_simp

subsection \<open>Lengths of time\<close>

lemma first_mark:
  assumes "all_digits ds" and "c \<in> set cs" and "\<forall>x \<in> set cs. \<not> is_digit x"
  shows "find_first_of cs (ds @ c # r) 0 = Some (length ds)"
proof -
  have "(ds @ c # r) ! j \<notin> set cs" if "j < length ds" for j
    using that assms(1,3) by (auto simp: nth_append all_digits_def)
  then show ?thesis using assms(2) by (simp add: find_first_of_Some)
qed

lemma atoi_nat_dec: "atoi (nat_dec n) = int n"
  using atoi_itoa [of "int n"] by (simp add: itoa_def)

lemma digit_listed: "is_digit c \<longleftrightarrow> c \<in> set ''0123456789''"
proof
  assume "is_digit c"
  then have b: "48 \<le> (of_char c :: nat)" "(of_char c :: nat) \<le> 57" by (simp_all add: is_digit_def less_eq_char_def)
  define d where "d = (of_char c :: nat) - 48"
  have c: "c = char_of (48 + d)" "d < 10" using b by (simp_all add: d_def)
  have "list_all (\<lambda>d. char_of (48 + d) \<in> set ''0123456789'') [0..<10 :: nat]" by code_simp
  then show "c \<in> set ''0123456789''" using c by (simp only: list_all_iff set_upt) simp
next
  have "list_all is_digit ''0123456789''" by code_simp
  then show "c \<in> set ''0123456789'' \<Longrightarrow> is_digit c" by (auto simp only: list_all_iff)
qed

lemma readTimeLenToken_digits:
  assumes "c \<in> set cs" and "\<forall>x \<in> set cs. \<not> is_digit x"
  shows "readTimeLenToken cs (nat_dec n @ c # nat_dec k @ r, len) = (nat_dec k @ r, len + int n)"
proof -
  have "is_digit (hd (nat_dec k))" using nat_dec_digits [of k] by simp
  then have "(nat_dec k @ r) ! 0 \<in> set ''0123456789''" by (cases "nat_dec k") (simp_all add: digit_listed [symmetric] del: list.set)
  then have "find_first_of ''0123456789'' (nat_dec k @ r) 0 = Some 0" unfolding find_first_of_Some by simp
  then show ?thesis using first_mark [OF nat_dec_all_digits assms, of n "nat_dec k @ r"]
    by (simp add: readTimeLenToken_def atoi_nat_dec)
qed

text \<open>A length of time given with all its units is read as their sum.\<close>

lemma parseTimeLength_sum:
  "parseTimeLength (nat_dec d @ ''d'' @ nat_dec h @ ''h'' @ nat_dec m @ ''m'' @ nat_dec s @ ''s'' @ nat_dec ms) =
     (((int d * 24 + int h) * 60 + int m) * 60 + int s) * 1000 + int ms"
proof -
  have n: "\<forall>x \<in> set ''Dd''. \<not> is_digit x" "\<forall>x \<in> set ''Hh''. \<not> is_digit x" "\<forall>x \<in> set ''Mm''. \<not> is_digit x" "\<forall>x \<in> set ''Ss''. \<not> is_digit x"
    by (simp_all add: is_digit_def less_eq_char_def)
  show ?thesis
    using readTimeLenToken_digits [OF _ n(4), of "CHR ''s''" s ms "[]"]
    by (simp add: parseTimeLength_def readTimeLenToken_digits [OF _ n(1)] readTimeLenToken_digits [OF _ n(2)]
        readTimeLenToken_digits [OF _ n(3)] atoi_nat_dec)
qed

text \<open>But the letter of a unit is looked for in the whole rest, so that the end of a word can be taken for it.\<close>

lemma parseTimeLength_misreads: "parseTimeLength ''5min40second'' = 5 * 24 * 60 * 60 * 1000" "parseTimeLength ''5ms'' = 5 * 60 * 1000"
  by code_simp+

text \<open>Every character that ends no number adds the last part once more; milliseconds count as seconds.\<close>

abbreviation whole_conv :: "string \<Rightarrow> rat" where "whole_conv s \<equiv> of_int (atoi s)"
abbreviation whole_mul :: "int \<Rightarrow> rat \<Rightarrow> int" where "whole_mul u x \<equiv> u * floor x"

lemma UnitStr2Time_misreads:
  "UnitStr2Time whole_conv whole_mul ''1h 5m'' 0 = (True, 2 * 3600000 + 5 * 60000)"
  "UnitStr2Time whole_conv whole_mul ''1h30'' 0 = (True, 2 * 3600000)"
  "UnitStr2Time whole_conv whole_mul ''10ms'' 0 = (True, 10000)"
  "UnitStr2Time whole_conv whole_mul ''1h5m'' 0 = (True, 3600000 + 5 * 60000)"
  by code_simp+

text \<open>With colons the length is added to what \<open>msTime\<close> was; sixty minutes and sixty seconds are accepted.\<close>

lemma HMSStr2Time_examples:
  "HMSStr2Time ''1:02:03.4'' 0 = (True, 3723004)" "HMSStr2Time ''1:02:03.4'' 1000 = (True, 3724004)"
  "HMSStr2Time ''00:60:60.0'' 0 = (True, 3660000)" "HMSStr2Time ''25:61:00.0'' 0 = (False, 90000000)"
  by code_simp+

text \<open>Days are told from hours by the wrong factor, and only above 23 hours; a day and a half is one of 36 hours otherwise.\<close>

lemma msec2hms_examples:
  "msec2hms 129600000 64 False = ''36:00:00.000''" "msec2hms 129600000 64 True = ''0d12:00:00.000''"
  by code_simp+

end
