(* ===== verification/Spec2Isabelle.thy ===== *)
theory Spec2Isabelle
  imports LRU_Map Evictor_Props Rule_Engine_Props Rule_Import Thread_Pool_Props Scheduler Url_Props Base64 Guid
    Buffer_Pool_Props Buffer_List Redis_Evictor RW_Lock Http_Chunked Http_Parser Http_Server Http_Client Tcp_Server Rtsp_Props Rtsp_Server Lipc_Threads
    Xml_Rpc_Props Iso_Props
begin

text \<open>
  A verification library for the common library of shcxx (\<open>ZQ::common\<close> and its companions): the C++ code under src/
  that other programs of the repository link against.

  \<^bold>\<open>How the program is put together.\<close> The library is a set of components with few dependencies. The thread pool
  (NativeThreadPool) runs requests taken from a priority queue. The scheduler (PollingTimer, Scheduler) moves tasks
  whose time has come to that pool, and the rule engine (RuleEngine) runs the actions of a rule on it. Rules are read by
  an importer from XML, through the wrapper of the expat parser (expatxx). The evictor (Evictor) is a write-back cache of
  objects over a store; a Redis server reached through the Redis client (RedisClient) can be that store, with values in
  the base64 of CryptoAlgm. Below these lie string and time helpers (strHelper, TimeUtil), the URL classes (urlstr,
  URLString), identifiers (Guid), the bounded map (LRUMap), the buffer pool (BufferPool) and the read/write lock (rwlock).
  Next to them stands the network library on libuv (eloop/Http/LibHttp): a TCP connection queues what it sends and is pinged
  by its loop (TCPServer); an HTTP connection sends messages phase by phase on top of it and feeds what it receives to a
  parser (HttpConnection); the server answers requests by the applications mounted on it (HttpServer), and a user agent
  drives requests from its loop (HttpClient). An RTSP connection (RTSPConnection) reads and writes messages (RTSPMessage) on
  the same TCP connections; the RTSP server (RTSPServer) hands requests to applications and sessions, keeps a list of those
  that await their answer, and answers them when their time is up. Processes of one machine call each other by JSON
  messages (LIPC) in frames on local sockets (UnixSocket). A variant (Variant) holds a value of any type and can be written
  as XML and read again (XmlRpcSerializer).

  \<^bold>\<open>How it is modelled.\<close> Every operation of a component is one definition that takes the state, a record with the
  fields of the class, and returns the new state; raised errors and undefined behaviour are \<open>None\<close> or a value of an error
  type. Code that runs concurrently is cut at its synchronisation points into atomic steps; a component then is a partial
  function from a state and an operation to a state, an instance of the locale \<open>transition_system\<close> of Prelude, which lifts
  an invariant of the steps to the reachable states once for all components. Virtual functions, plug-ins, the socket, the
  clock, libuuid, bzip2, http\_parser, the matching of regular expressions, \<open>mktime\<close> and \<open>atof\<close> are arguments of the
  definitions that use them.

  \<^bold>\<open>The theories.\<close>
  \<^item> Prelude, Std\_Map, Std\_String: integer types, C strings, \<open>atoi\<close>, transition systems; the fragments of \<open>std::map\<close>
    (a sorted association list) and \<open>std::string\<close> that the sources use; decimal text.
  \<^item> LRU\_Map (LRUMap.h): the three maps of the class; they refine a bounded map with recency order.
  \<^item> Priority\_Queue, Thread\_Pool\_Model, Thread\_Pool, Thread\_Pool\_Props (NativeThreadPool.h, NativeThreadPool.cpp): the
    queue of 256 levels, which refines a stable sorted list; the pool, its slave threads as steps between
    synchronisation points; no request is lost or finished twice, no wake-up is lost, requests leave by priority.
  \<^item> Scheduler (PollingTimer.cpp, Scheduler.cpp): timers and the poller on top of the pool.
  \<^item> Rule\_Engine\_Model, Rule\_Engine, Rule\_Engine\_Props, Rule\_Import (RuleEngine.cpp, expatxx.cpp): rules, conditions,
    execution, events and synchronous calls; the order and the end of a run; several engines whose commands run in
    interleaved steps on pools that may be stopped, with the table of transactions they share; the importer and its round trip.
  \<^item> Evictor\_Model, Evictor, Evictor\_Props (Evictor.cpp): the cache, its queue of modified items, and \<open>poll\<close> in its phases;
    the structural invariant, what a flush makes durable, and the interleavings in which an update is lost.
  \<^item> Str\_Helper (strHelper.cpp): trimming, splitting, macro expansion.
  \<^item> Time\_Util, Calendar, Iso\_Time, Iso\_Props (TimeUtil.cpp): the conversions of \<open>sscanf\<close>, the calendar of the C library,
    time stamps as texts and back, in UTC and with a zone (with and without daylight saving), and lengths of time.
  \<^item> Byte\_Codec, Url\_Str, Url\_Props, Base64 (urlstr.cpp, URLString.cpp): the escaping codecs and their round trips, the
    URL parser and generator, base64.
  \<^item> Guid (Guid.cpp): the two representations of an identifier and its texts.
  \<^item> Buffer\_Pool, Buffer\_Pool\_Props, Buffer\_List (BufferPool.cpp): the free-list heap on an explicit memory, where the
    linked list is abstracted to the list of its chunks, with sizes that wrap at \<open>2 ^ 64\<close>; the list of blocks as one sequence of bytes.
  \<^item> Crypto\_Base64, Redis\_Reply, Redis\_Props, Redis\_Client, Redis\_Client\_Props, Redis\_Evictor (CryptoAlgm.cpp,
    RedisClient.cpp): the machine that cuts replies out of the received bytes, the queues of commands, values, synchronous
    calls, and the evictor on Redis: what its store makes of the text that was saved for an object. The server is not modelled.
  \<^item> RW\_Lock (rwlock\_Linux.cpp, rwlock.h): the lock cut at its blocking calls, and parties that share it; exclusion and
    progress.
  \<^item> Mime\_Reader, Http\_Message, Http\_Send, Http\_Chunked, Http\_Receive, Http\_Parser (HttpConnection.h, HttpConnection.cpp):
    the line reader with its search table; messages and their text; sending phase by phase, when it returns and what goes
    out; bodies in chunks; the call-backs of the parser, forms, and what a second request on a connection becomes.
  \<^item> Http\_Server (HttpServer.cpp), Http\_Client (HttpClient.cpp): mounted applications, responses, statistics, and what a
    response leaves for the next one; requests, the user agent and its poll, and the results that callers see.
  \<^item> Tcp\_Server (TCPServer.cpp): loops and pings, the send queue of a connection, which loses and reorders nothing while the
    connection is up, sequence numbers, and the server's loops.
  \<^item> Rtsp\_Message, Rtsp\_Parse, Rtsp\_Props (RTSPMessage.cpp, RTSPConnection.h, RTSPConnection.cpp): messages and their text,
    the reader that works on the received pieces, awaiting requests; what is read of what was written.
  \<^item> Rtsp\_Server (RTSPServer.h, RTSPServer.cpp): the dispatch of a request, sessions, responses and pending requests; every
    request is answered at most once, and a late timer answers all that are left.
  \<^item> Unix\_Socket (UnixSocket.cpp), Lipc\_Message, Lipc, Lipc\_Props, Lipc\_Threads (LIPC.cpp, LIPC.h, the accessors of json/jsoncpp.cpp):
    frames and the queue of messages; JSON messages, the service and the client; the path of a call through both sockets,
    the account of calls that are made on several threads, step by step, and the messages that end a process.
  \<^item> Stream\_Base64 (base64.h), Variant\_Model, Variant\_Props (Variant.cpp, Variant.h), Xml\_Rpc, Xml\_Rpc\_Props
    (XmlRpcSerializer.cpp): values of one of sixteen types, chains of \<open>operator[]\<close> as paths with their laws, what comparison
    distinguishes; their XML, which the parser may deliver in any pieces.

  \<^bold>\<open>What the lemmas show.\<close> Each component has an invariant that its operations keep (collected in \<open>wf_intros\<close> where
  several proofs use them), the functional behaviour of its operations, and the properties that are numbered in the
  texts before their theorems. Where the code misbehaves, the theorem states the behaviour of the code.

  \<^bold>\<open>Bounds and fuel.\<close> Loops that may not end are given as \<open>partial_function\<close> or with fuel, and their end or their
  divergence is a theorem: registering a rule recurses on sub rules with fuel, and \<open>registerRule_recursion_never_ends\<close>
  shows a rule for which no fuel is enough; \<open>associateMacros\<close> likewise; \<open>sendByPhase\<close>, the poll of the user agent and the
  decoding of forms are partial functions, with theorems that say when they return. The other recursions end by a measure (the rest of
  the text, the number of queued items or pages). Integers keep their width where the code depends on it: the stamps of
  LRUMap, the sizes of the pool, the bit buffers of base64. \<open>int\<close> overflow, which is undefined, is outside the model.

  \<^bold>\<open>Not modelled.\<close> Logging; the Windows variants; wrappers of the operating system (sockets, files, shared memory, process
  and system information, threads), of OpenSSL, ODBC, net-snmp, Ice and libuv; vendored code (libuv, jsoncpp, http\_parser,
  getopt, the VOVIDA RTSP parser, MD5 and SHA1); the service frame; the older HTTP and RTSP
  programs beside eloop.
\<close>

end
